(* ===== verification/Prelude.thy ===== *)
theory Prelude
  imports Main "HOL-Library.Word"
begin

text \<open>
  Shared vocabulary of the development: the machine integer types of the C++ sources, the
  ways in which a piece of kernel or library code stops without returning (a call of
  \<open>panic\<close>, a null dereference, a division by zero, an access outside an array), the
  sequencing of computations that can stop in this way, and the generic facts on words,
  lists and maps that the component theories share.

  A function of the sources that always returns is modelled by a plain HOL function.  A
  function with a path that stops is modelled by a function into \<open>'a run\<close>: \<open>Inr x\<close> is
  a normal return, \<open>Inl f\<close> says how the code stopped.  An error code returned to the
  caller is a normal return.
\<close>

unbundle bit_operations_syntax

type_synonym u8 = "8 word"
type_synonym u16 = "16 word"
type_synonym u32 = "32 word"
type_synonym u64 = "64 word"

datatype fault =
    Panic string
  | NullDeref
  | DivByZero
  | OutOfBounds

type_synonym 'a run = "fault + 'a"

definition run_bind :: "'a run \<Rightarrow> ('a \<Rightarrow> 'b run) \<Rightarrow> 'b run" where
  "run_bind m k = (case m of Inl f \<Rightarrow> Inl f | Inr x \<Rightarrow> k x)"

definition run_map :: "('a \<Rightarrow> 'b) \<Rightarrow> 'a run \<Rightarrow> 'b run" where
  "run_map g m = (case m of Inl f \<Rightarrow> Inl f | Inr x \<Rightarrow> Inr (g x))"

definition returns :: "'a run \<Rightarrow> bool" where
  "returns m \<longleftrightarrow> (case m of Inl _ \<Rightarrow> False | Inr _ \<Rightarrow> True)"

named_theorems run_simps \<open>sequencing of computations that may stop\<close>
named_theorems heap_simps \<open>reads over writes in the pointer heaps\<close>

lemma run_bind_Inl [simp, run_simps]: "run_bind (Inl f) k = Inl f"
  by (simp add: run_bind_def)

lemma run_bind_Inr [simp, run_simps]: "run_bind (Inr x) k = k x"
  by (simp add: run_bind_def)

lemma run_map_Inl [simp, run_simps]: "run_map g (Inl f) = Inl f"
  by (simp add: run_map_def)

lemma run_map_Inr [simp, run_simps]: "run_map g (Inr x) = Inr (g x)"
  by (simp add: run_map_def)

lemma returns_Inl [simp, run_simps]: "\<not> returns (Inl f)"
  by (simp add: returns_def)

lemma returns_Inr [simp, run_simps]: "returns (Inr x)"
  by (simp add: returns_def)

lemma returns_iff: "returns m \<longleftrightarrow> (\<exists>x. m = Inr x)"
  by (cases m) auto

lemma run_bind_eq_Inr:
  "run_bind m k = Inr y \<longleftrightarrow> (\<exists>x. m = Inr x \<and> k x = Inr y)"
  by (cases m) auto

lemma run_bind_assoc:
  "run_bind (run_bind m k) l = run_bind m (\<lambda>x. run_bind (k x) l)"
  by (cases m) auto

lemma run_bind_cong [fundef_cong]:
  "m = m' \<Longrightarrow> (\<And>x. m' = Inr x \<Longrightarrow> k x = k' x) \<Longrightarrow> run_bind m k = run_bind m' k'"
  by (cases m') auto

lemma run_map_eq_Inr: "run_map g m = Inr y \<longleftrightarrow> (\<exists>x. m = Inr x \<and> y = g x)"
  by (cases m) auto

text \<open>
  A computation that may not end (\<open>None\<close>) or may stop, followed by another one.
\<close>

definition opt_run_bind :: "'a run option \<Rightarrow> ('a \<Rightarrow> 'b run option) \<Rightarrow> 'b run option" where
  "opt_run_bind r k = Option.bind r (\<lambda>r. case r of Inl f \<Rightarrow> Some (Inl f) | Inr x \<Rightarrow> k x)"

lemma opt_run_bind_simps [simp]:
  "opt_run_bind (Some (Inr x)) k = k x" "opt_run_bind (Some (Inl f)) k = Some (Inl f)"
  "opt_run_bind None k = None"
  by (simp_all add: opt_run_bind_def)

lemma opt_run_bind_eq_Inr:
  "opt_run_bind m k = Some (Inr y) \<longleftrightarrow> (\<exists>x. m = Some (Inr x) \<and> k x = Some (Inr y))"
  by (cases m; cases "the m") (auto simp: opt_run_bind_def)

text \<open>Machine words: when an addition or a subtraction does not wrap.\<close>

lemma unat_add_noof:
  fixes x y :: "'a::len word"
  assumes "unat x + unat y < 2 ^ LENGTH('a)"
  shows "unat (x + y) = unat x + unat y"
  using assms by (simp add: unat_word_ariths)

lemma unat_sub_le:
  fixes x y :: "'a::len word"
  assumes "y \<le> x"
  shows "unat (x - y) = unat x - unat y"
  using assms by (simp add: unat_sub)

lemma unat_lt_64: "unat (x :: u64) < 18446744073709551616"
  using unsigned_less [of x] by simp

lemma word_less_unat: "(x :: 'a::len word) < y \<longleftrightarrow> unat x < unat y"
  by (rule word_less_nat_alt)

lemma word_le_unat: "(x :: 'a::len word) \<le> y \<longleftrightarrow> unat x \<le> unat y"
  by (rule word_le_nat_alt)

lemma unat_of_nat_u64:
  "n < 18446744073709551616 \<Longrightarrow> unat (of_nat n :: u64) = n"
  by (simp add: unat_of_nat take_bit_nat_eq_self)

lemma of_nat_unat_eq: "unat (x :: 'a::len word) = n \<Longrightarrow> x = of_nat n"
  by auto

text \<open>
  A size counter of width 64 that follows the length of a list: it starts at zero, is
  incremented and decremented together with the list, and agrees with the length as long
  as the list is shorter than the counter's range.
\<close>

definition counts :: "u64 \<Rightarrow> 'a list \<Rightarrow> bool" where
  "counts c xs \<longleftrightarrow> c = of_nat (length xs)"

lemma counts_Nil [simp]: "counts c [] \<longleftrightarrow> c = 0"
  by (simp add: counts_def)

lemma counts_single: "counts c [x] \<longleftrightarrow> c = 1"
  by (simp add: counts_def)

lemma counts_butlast [intro]: "counts c (xs @ [x]) \<Longrightarrow> counts (c - 1) xs"
  by (simp add: counts_def)

lemma counts_Cons [intro]: "counts c xs \<Longrightarrow> counts (c + 1) (x # xs)"
  by (simp add: counts_def)

lemma counts_snoc [intro]: "counts c xs \<Longrightarrow> counts (c + 1) (xs @ [x])"
  by (simp add: counts_def)

lemma counts_tl [intro]: "counts c (x # xs) \<Longrightarrow> counts (c - 1) xs"
  by (simp add: counts_def)

lemma counts_remove1:
  assumes "counts c xs" and "x \<in> set xs"
  shows "counts (c - 1) (remove1 x xs)"
proof -
  have "length xs = Suc (length (remove1 x xs))"
    using assms(2) length_pos_if_in_set [of x xs] by (simp add: length_remove1)
  with assms(1) show ?thesis by (simp add: counts_def)
qed

lemma counts_unat:
  assumes "counts c xs" and "length xs < 18446744073709551616"
  shows "unat c = length xs"
  using assms by (simp add: counts_def unat_of_nat_u64)

lemma counts_zero_iff:
  assumes "counts c xs" and "length xs < 18446744073709551616"
  shows "c = 0 \<longleftrightarrow> xs = []"
  using counts_unat [OF assms] by (metis length_0_conv unat_eq_zero)

lemma counts_pos_iff:
  assumes "counts c xs" and "length xs < 18446744073709551616"
  shows "0 < c \<longleftrightarrow> xs \<noteq> []"
  using counts_zero_iff [OF assms] by (simp add: word_neq_0_conv [symmetric])

lemma counts_same_length: "counts c xs \<Longrightarrow> length xs = length ys \<Longrightarrow> counts c ys"
  by (simp add: counts_def)

text \<open>
  Association lists kept in separate chains, where a function of the key tells the chain: the
  keys of all chains together are distinct and a lookup needs to search one chain only.
\<close>

definition chained :: "('k \<Rightarrow> nat) \<Rightarrow> nat \<Rightarrow> ('k \<times> 'v) list list \<Rightarrow> bool" where
  "chained f off xss \<longleftrightarrow>
     (\<forall>i < length xss. distinct (map fst (xss ! i)) \<and> (\<forall>k \<in> fst ` set (xss ! i). f k = off + i))"

lemma chainedD:
  "chained f off xss \<Longrightarrow> i < length xss \<Longrightarrow> k \<in> fst ` set (xss ! i) \<Longrightarrow> f k = off + i"
  unfolding chained_def by blast

lemma chained_Cons:
  "chained f off (xs # xss) \<longleftrightarrow>
     distinct (map fst xs) \<and> (\<forall>k \<in> fst ` set xs. f k = off) \<and> chained f (Suc off) xss"
  unfolding chained_def by (simp add: All_less_Suc2 conj_ac)

lemma chained_key_ge: "chained f off xss \<Longrightarrow> k \<in> fst ` set (concat xss) \<Longrightarrow> off \<le> f k"
proof (induction xss arbitrary: off)
  case (Cons xs xss)
  show ?case
  proof (cases "k \<in> fst ` set xs")
    case True
    with Cons.prems show ?thesis by (auto simp: chained_Cons)
  next
    case False
    with Cons.prems have "Suc off \<le> f k" by (intro Cons.IH) (auto simp: chained_Cons)
    then show ?thesis by simp
  qed
qed simp

lemma chained_distinct: "chained f off xss \<Longrightarrow> distinct (map fst (concat xss))"
proof (induction xss arbitrary: off)
  case (Cons xs xss)
  then have ch: "chained f (Suc off) xss" and xs: "\<forall>k \<in> fst ` set xs. f k = off"
    by (simp_all add: chained_Cons)
  have "fst ` set xs \<inter> fst ` set (concat xss) = {}"
  proof (rule ccontr)
    assume "fst ` set xs \<inter> fst ` set (concat xss) \<noteq> {}"
    then obtain k where "k \<in> fst ` set xs" "k \<in> fst ` set (concat xss)" by blast
    with chained_key_ge [OF ch] xs show False by force
  qed
  with Cons ch show ?case by (simp add: chained_Cons)
qed simp

lemma chained_map_of:
  "chained f off xss \<Longrightarrow> f k = off + j \<Longrightarrow> j < length xss \<Longrightarrow>
     map_of (concat xss) k = map_of (xss ! j) k"
proof (induction xss arbitrary: off j)
  case (Cons xs xss)
  show ?case
  proof (cases j)
    case 0
    with Cons.prems have "k \<notin> fst ` set (concat xss)"
      using chained_key_ge [of f "Suc off" xss k] by (force simp: chained_Cons)
    then have "map_of (concat xss) k = None" by (simp add: map_of_eq_None_iff)
    with 0 show ?thesis by (simp add: map_add_def split: option.split)
  next
    case (Suc j')
    with Cons.prems have "map_of xs k = None" by (auto simp: chained_Cons map_of_eq_None_iff)
    moreover have "map_of (concat xss) k = map_of (xss ! j') k"
      using Cons.prems Suc by (intro Cons.IH [of "Suc off"]) (simp_all add: chained_Cons)
    ultimately show ?thesis using Suc by (simp add: map_add_def split: option.split)
  qed
qed simp

lemma chained_update:
  "chained f off xss \<Longrightarrow> distinct (map fst ys) \<Longrightarrow> (\<forall>k \<in> fst ` set ys. f k = off + i) \<Longrightarrow>
     chained f off (xss[i := ys])"
  unfolding chained_def by (cases "i < length xss") (auto simp: nth_list_update)

lemma length_concat_update:
  "i < length xss \<Longrightarrow> length (concat (xss[i := ys])) + length (xss ! i) =
     length (concat xss) + length ys"
proof (induction xss arbitrary: i)
  case (Cons xs xss)
  then show ?case by (cases i) auto
qed simp

text \<open>The first and the last element of a list that may be empty.\<close>

fun head_opt :: "'a list \<Rightarrow> 'a option" where
  "head_opt [] = None"
| "head_opt (x # _) = Some x"

definition last_opt :: "'a list \<Rightarrow> 'a option" where
  "last_opt xs = (if xs = [] then None else Some (last xs))"

lemma head_opt_append: "head_opt (xs @ ys) = (if xs = [] then head_opt ys else head_opt xs)"
  by (cases xs) auto

lemma head_opt_eq_None [simp]: "head_opt xs = None \<longleftrightarrow> xs = []"
  by (cases xs) auto

lemma head_opt_eq_Some: "head_opt xs = Some x \<longleftrightarrow> (\<exists>ys. xs = x # ys)"
  by (cases xs) auto

lemma last_opt_simps [simp]:
  "last_opt [] = None"
  "last_opt (xs @ [x]) = Some x"
  "last_opt (x # xs) = Some (if xs = [] then x else last xs)"
  "last_opt xs = None \<longleftrightarrow> xs = []"
  by (auto simp: last_opt_def)

lemma last_opt_append: "last_opt (xs @ ys) = (if ys = [] then last_opt xs else last_opt ys)"
  by (simp add: last_opt_def)

text \<open>Numbers as bytes, the least significant first.\<close>

fun to_le :: "nat \<Rightarrow> u64 \<Rightarrow> u8 list" where
  "to_le 0 v = []"
| "to_le (Suc n) v = ucast v # to_le n (drop_bit 8 v)"

fun of_le :: "u8 list \<Rightarrow> u64" where
  "of_le [] = 0"
| "of_le (b # bs) = ucast b OR push_bit 8 (of_le bs)"

lemma length_to_le [simp]: "length (to_le n v) = n"
  by (induction n arbitrary: v) simp_all

lemma of_to_le: "of_le (to_le n v) = take_bit (8 * n) v"
proof (induction n arbitrary: v)
  case (Suc n)
  have "ucast (ucast v :: u8) OR push_bit 8 (take_bit (8 * n) (drop_bit 8 v)) = take_bit (8 + 8 * n) v"
    by (rule bit_word_eqI) (auto simp: bit_simps dest: bit_imp_le_length)
  then show ?case using Suc.IH by simp
qed simp

end
