(* ===== verification/Glcr_Status.thy ===== *)
theory Glcr_Status
  imports Prelude
begin

text \<open>
  Error codes and results of the glacier library (\<open>lib/glacier/status\<close>): the enumeration
  \<open>ErrorCode\<close> with its numeric values, its printed names, the class \<open>Status\<close> with its
  constructors, and \<open>ErrorOr\<close> as a sum type.  The macros \<open>RET_ERR\<close>, \<open>RETURN_ERROR\<close>
  and \<open>ASSIGN_OR_RETURN\<close> are the sequencing functions at the end.
\<close>

datatype ErrorCode =
    OK
  | INVALID_ARGUMENT
  | NOT_FOUND
  | PERMISSION_DENIED
  | NULL_PTR
  | EMPTY
  | ALREADY_EXISTS
  | BUFFER_SIZE
  | FAILED_PRECONDITION
  | INTERNAL
  | UNIMPLEMENTED
  | EXHAUSTED
  | INVALID_RESPONSE
  | CAP_NOT_FOUND
  | CAP_WRONG_TYPE
  | CAP_PERMISSION_DENIED

fun ErrorCode_value :: "ErrorCode \<Rightarrow> u64" where
  "ErrorCode_value OK = 0x0"
| "ErrorCode_value INVALID_ARGUMENT = 0x1"
| "ErrorCode_value NOT_FOUND = 0x2"
| "ErrorCode_value PERMISSION_DENIED = 0x3"
| "ErrorCode_value NULL_PTR = 0x4"
| "ErrorCode_value EMPTY = 0x5"
| "ErrorCode_value ALREADY_EXISTS = 0x6"
| "ErrorCode_value BUFFER_SIZE = 0x7"
| "ErrorCode_value FAILED_PRECONDITION = 0x8"
| "ErrorCode_value INTERNAL = 0x100"
| "ErrorCode_value UNIMPLEMENTED = 0x101"
| "ErrorCode_value EXHAUSTED = 0x102"
| "ErrorCode_value INVALID_RESPONSE = 0x103"
| "ErrorCode_value CAP_NOT_FOUND = 0x1000"
| "ErrorCode_value CAP_WRONG_TYPE = 0x1001"
| "ErrorCode_value CAP_PERMISSION_DENIED = 0x1002"

text \<open>
  \<open>ErrorCodeToStr\<close> switches on a value of the underlying type \<open>uint64_t\<close>, so that a
  number that is not an enumerator reaches the default branch.
\<close>

definition ErrorCodeToStr :: "u64 \<Rightarrow> string" where
  "ErrorCodeToStr code =
     (if code = ErrorCode_value OK then ''OK''
      else if code = ErrorCode_value INVALID_ARGUMENT then ''INVALID_ARGUMENT''
      else if code = ErrorCode_value NOT_FOUND then ''NOT_FOUND''
      else if code = ErrorCode_value PERMISSION_DENIED then ''PERMISSION_DENIED''
      else if code = ErrorCode_value NULL_PTR then ''NULL_PTR''
      else if code = ErrorCode_value EMPTY then ''EMPTY''
      else if code = ErrorCode_value ALREADY_EXISTS then ''ALREADY_EXISTS''
      else if code = ErrorCode_value BUFFER_SIZE then ''BUFFER_SIZE''
      else if code = ErrorCode_value FAILED_PRECONDITION then ''FAILED_PRECONDITION''
      else if code = ErrorCode_value INTERNAL then ''INTERNAL''
      else if code = ErrorCode_value UNIMPLEMENTED then ''UNIMPLEMENTED''
      else if code = ErrorCode_value EXHAUSTED then ''EXHAUSTED''
      else if code = ErrorCode_value INVALID_RESPONSE then ''INVALID_RESPONSE''
      else if code = ErrorCode_value CAP_NOT_FOUND then ''CAP_NOT_FOUND''
      else if code = ErrorCode_value CAP_WRONG_TYPE then ''CAP_WRONG_TYPE''
      else if code = ErrorCode_value CAP_PERMISSION_DENIED then ''CAP_PERMISSION_DENIED''
      else ''UNKNOWN'')"

record Status =
  st_code :: ErrorCode
  st_message :: string

definition Status_Ok :: Status where
  "Status_Ok = \<lparr>st_code = OK, st_message = []\<rparr>"

definition Status_of_code :: "ErrorCode \<Rightarrow> Status" where
  "Status_of_code code = \<lparr>st_code = code, st_message = []\<rparr>"

definition Status_ok :: "Status \<Rightarrow> bool" where
  "Status_ok s \<longleftrightarrow> st_code s = OK"

definition InvalidArgument :: "string \<Rightarrow> Status" where
  "InvalidArgument msg = \<lparr>st_code = INVALID_ARGUMENT, st_message = msg\<rparr>"

definition NotFound :: "string \<Rightarrow> Status" where
  "NotFound msg = \<lparr>st_code = NOT_FOUND, st_message = msg\<rparr>"

definition Unimplemented :: "string \<Rightarrow> Status" where
  "Unimplemented msg = \<lparr>st_code = UNIMPLEMENTED, st_message = msg\<rparr>"

definition InvalidResponse :: "string \<Rightarrow> Status" where
  "InvalidResponse msg = \<lparr>st_code = INVALID_RESPONSE, st_message = msg\<rparr>"

type_synonym 'a ErrorOr = "ErrorCode + 'a"

definition ErrorOr_ok :: "'a ErrorOr \<Rightarrow> bool" where
  "ErrorOr_ok e = (case e of Inl _ \<Rightarrow> False | Inr _ \<Rightarrow> True)"

definition assign_or_return :: "'a ErrorOr \<Rightarrow> ('a \<Rightarrow> 'b ErrorOr) \<Rightarrow> 'b ErrorOr" where
  "assign_or_return rhs body = (case rhs of Inl code \<Rightarrow> Inl code | Inr lhs \<Rightarrow> body lhs)"

definition ret_err :: "ErrorCode \<Rightarrow> ErrorCode \<Rightarrow> ErrorCode" where
  "ret_err e rest = (if e \<noteq> OK then e else rest)"

lemma assign_or_return_simps [simp]:
  "assign_or_return (Inl c) body = Inl c"
  "assign_or_return (Inr x) body = body x"
  by (simp_all add: assign_or_return_def)

lemma ErrorOr_ok_simps [simp]: "\<not> ErrorOr_ok (Inl c)" "ErrorOr_ok (Inr x)"
  by (simp_all add: ErrorOr_ok_def)

lemma ret_err_simps [simp]:
  "ret_err OK rest = rest"
  "e \<noteq> OK \<Longrightarrow> ret_err e rest = e"
  by (simp_all add: ret_err_def)

lemma ret_err_OK_iff: "ret_err e rest = OK \<longleftrightarrow> e = OK \<and> rest = OK"
  by (simp add: ret_err_def)

text \<open>The numeric values are pairwise distinct: a code survives its trip through a register.\<close>

lemma ErrorCode_value_inject: "ErrorCode_value a = ErrorCode_value b \<longleftrightarrow> a = b"
  by (cases a; cases b) simp_all

lemma ErrorCodeToStr_known: "ErrorCodeToStr (ErrorCode_value e) \<noteq> ''UNKNOWN''"
  by (cases e) (simp_all add: ErrorCodeToStr_def)

lemma ErrorCodeToStr_inject:
  "ErrorCodeToStr (ErrorCode_value a) = ErrorCodeToStr (ErrorCode_value b) \<longleftrightarrow> a = b"
  by (cases a; cases b) (simp_all add: ErrorCodeToStr_def)

end
