(* ===== verification/Glcr_LinkedList.thy ===== *)
theory Glcr_LinkedList
  imports Prelude
begin

text \<open>
  The singly linked list \<open>glcr::LinkedList\<close> (\<open>lib/glacier/container/linked_list.h\<close>).
  The chain of \<open>ListItem\<close> nodes that starts at \<open>front_\<close> is the field \<open>ll_front\<close>: the
  nodes are owned by the list and never shared, so the chain is the HOL list of their
  \<open>item\<close> fields and the null pointer is the empty list.  The counter \<open>size_\<close> is kept
  apart, as the code keeps it.  The copying and the moving overload of each push differ only in
  what they do to the argument and are one definition.

  Two interfaces are stated as locales: \<open>fifo\<close> (a queue filled at one end and emptied at the
  other) and \<open>stack_store\<close> (last in, first out), which clients of the list use.
\<close>

record 'a LinkedList =
  ll_size :: u64
  ll_front :: "'a list"

definition LinkedList_new :: "'a LinkedList" where
  "LinkedList_new = \<lparr>ll_size = 0, ll_front = []\<rparr>"

definition LinkedList_empty :: "'a LinkedList \<Rightarrow> bool" where
  "LinkedList_empty l \<longleftrightarrow> ll_size l = 0"

definition LinkedList_PeekFront :: "'a LinkedList \<Rightarrow> 'a run" where
  "LinkedList_PeekFront l = (case ll_front l of [] \<Rightarrow> Inl NullDeref | x # _ \<Rightarrow> Inr x)"

definition LinkedList_PushFront :: "'a \<Rightarrow> 'a LinkedList \<Rightarrow> 'a LinkedList" where
  "LinkedList_PushFront x l = l\<lparr>ll_front := x # ll_front l, ll_size := ll_size l + 1\<rparr>"

text \<open>The walk of \<open>PushBackInternal\<close> to the node without a successor.\<close>

fun append_at_end :: "'a list \<Rightarrow> 'a \<Rightarrow> 'a list" where
  "append_at_end [] x = [x]"
| "append_at_end [y] x = [y, x]"
| "append_at_end (y # z # zs) x = y # append_at_end (z # zs) x"

definition LinkedList_PushBack :: "'a \<Rightarrow> 'a LinkedList \<Rightarrow> 'a LinkedList" where
  "LinkedList_PushBack x l =
     (let l1 = l\<lparr>ll_size := ll_size l + 1\<rparr>
      in if ll_front l1 = [] then l1\<lparr>ll_front := [x]\<rparr>
         else l1\<lparr>ll_front := append_at_end (ll_front l1) x\<rparr>)"

definition LinkedList_PopFront :: "'a LinkedList \<Rightarrow> ('a \<times> 'a LinkedList) run" where
  "LinkedList_PopFront l =
     (case ll_front l of
        [] \<Rightarrow> Inl NullDeref
      | x # xs \<Rightarrow> Inr (x, l\<lparr>ll_size := ll_size l - 1, ll_front := xs\<rparr>))"

text \<open>
  The loop of \<open>Remove\<close>: it looks one node ahead, unlinks the first later node that holds the
  item and reports whether it did.
\<close>

fun remove_after :: "'a \<Rightarrow> 'a list \<Rightarrow> 'a list option" where
  "remove_after x [] = None"
| "remove_after x [y] = None"
| "remove_after x (y # z # zs) =
     (if z = x then Some (y # zs) else map_option ((#) y) (remove_after x (z # zs)))"

definition LinkedList_Remove :: "'a \<Rightarrow> 'a LinkedList \<Rightarrow> 'a LinkedList run" where
  "LinkedList_Remove x l =
     (case ll_front l of
        [] \<Rightarrow> Inl NullDeref
      | y # ys \<Rightarrow>
          if y = x then run_map snd (LinkedList_PopFront l)
          else (case remove_after x (ll_front l) of
                  None \<Rightarrow> Inr l
                | Some zs \<Rightarrow> Inr (l\<lparr>ll_front := zs, ll_size := ll_size l - 1\<rparr>)))"

text \<open>The representation invariant: \<open>size_\<close> is the length of the chain.\<close>

definition ll_inv :: "'a LinkedList \<Rightarrow> bool" where
  "ll_inv l \<longleftrightarrow> counts (ll_size l) (ll_front l)"

lemma append_at_end_eq: "append_at_end xs x = xs @ [x]"
  by (induction xs x rule: append_at_end.induct) auto

lemma remove_after_notin: "x \<notin> set xs \<Longrightarrow> remove_after x (y # xs) = None"
  by (induction x "y # xs" arbitrary: y xs rule: remove_after.induct) auto

lemma remove_after_in:
  "x \<in> set xs \<Longrightarrow> remove_after x (y # xs) = Some (y # remove1 x xs)"
  by (induction x "y # xs" arbitrary: y xs rule: remove_after.induct) auto

lemma ll_front_new [simp]: "ll_front LinkedList_new = []"
  by (simp add: LinkedList_new_def)

lemma ll_front_PushFront [simp]: "ll_front (LinkedList_PushFront x l) = x # ll_front l"
  by (simp add: LinkedList_PushFront_def)

lemma ll_front_PushBack [simp]: "ll_front (LinkedList_PushBack x l) = ll_front l @ [x]"
  by (simp add: LinkedList_PushBack_def append_at_end_eq Let_def)

lemma ll_size_PushBack [simp]: "ll_size (LinkedList_PushBack x l) = ll_size l + 1"
  by (simp add: LinkedList_PushBack_def Let_def)

lemma ll_size_PushFront [simp]: "ll_size (LinkedList_PushFront x l) = ll_size l + 1"
  by (simp add: LinkedList_PushFront_def)

lemma ll_inv_new [simp, intro]: "ll_inv LinkedList_new"
  by (simp add: ll_inv_def LinkedList_new_def)

lemma ll_inv_PushFront [intro]: "ll_inv l \<Longrightarrow> ll_inv (LinkedList_PushFront x l)"
  by (auto simp: ll_inv_def)

lemma ll_inv_PushBack [intro]: "ll_inv l \<Longrightarrow> ll_inv (LinkedList_PushBack x l)"
  by (auto simp: ll_inv_def)

lemma LinkedList_PopFront_Cons:
  "ll_front l = x # xs \<Longrightarrow>
     LinkedList_PopFront l = Inr (x, l\<lparr>ll_size := ll_size l - 1, ll_front := xs\<rparr>)"
  by (simp add: LinkedList_PopFront_def)

lemma LinkedList_PopFront_Inr:
  "LinkedList_PopFront l = Inr (x, l') \<longleftrightarrow>
     (\<exists>xs. ll_front l = x # xs \<and> l' = l\<lparr>ll_size := ll_size l - 1, ll_front := xs\<rparr>)"
  by (auto simp: LinkedList_PopFront_def split: list.splits)

lemma ll_inv_PopFront:
  "ll_inv l \<Longrightarrow> LinkedList_PopFront l = Inr (x, l') \<Longrightarrow> ll_inv l'"
  by (auto simp: ll_inv_def LinkedList_PopFront_Inr)

lemma LinkedList_PopFront_front:
  "LinkedList_PopFront l = Inr (x, l') \<Longrightarrow> ll_front l = x # ll_front l'"
  by (auto simp: LinkedList_PopFront_Inr)

text \<open>
  \<open>empty\<close> reads the counter; below \<open>2 ^ 64\<close> elements it agrees with the chain, so that a
  \<open>PopFront\<close> guarded by it never dereferences null.
\<close>

lemma LinkedList_empty_iff:
  assumes "ll_inv l" and "length (ll_front l) < 18446744073709551616"
  shows "LinkedList_empty l \<longleftrightarrow> ll_front l = []"
  using counts_zero_iff [of "ll_size l" "ll_front l"] assms
  by (simp add: ll_inv_def LinkedList_empty_def)

lemma LinkedList_Remove_front:
  assumes "ll_inv l" and "ll_front l \<noteq> []"
  shows "\<exists>l'. LinkedList_Remove x l = Inr l' \<and> ll_front l' = remove1 x (ll_front l) \<and> ll_inv l'"
proof (cases "ll_front l")
  case Nil
  with assms show ?thesis by simp
next
  case (Cons y ys)
  show ?thesis
  proof (cases "y = x \<or> x \<notin> set ys")
    case True
    with Cons assms show ?thesis
      by (auto simp: LinkedList_Remove_def LinkedList_PopFront_def ll_inv_def remove_after_notin
            remove1_idem)
  next
    case False
    with Cons assms(1) counts_remove1 [of "ll_size l" "y # ys" x] show ?thesis
      by (auto simp: LinkedList_Remove_def remove_after_in ll_inv_def)
  qed
qed

section \<open>The queue interface\<close>

fun pop_n :: "('q \<Rightarrow> ('a \<times> 'q) run) \<Rightarrow> nat \<Rightarrow> 'q \<Rightarrow> ('a list \<times> 'q) run" where
  "pop_n pop 0 q = Inr ([], q)"
| "pop_n pop (Suc n) q =
     run_bind (pop q) (\<lambda>(x, q'). run_map (\<lambda>(xs, q''). (x # xs, q'')) (pop_n pop n q'))"

locale fifo =
  fixes items :: "'q \<Rightarrow> 'a list"
    and good :: "'q \<Rightarrow> bool"
    and push :: "'a \<Rightarrow> 'q \<Rightarrow> 'q"
    and pop :: "'q \<Rightarrow> ('a \<times> 'q) run"
  assumes items_push: "good q \<Longrightarrow> items (push x q) = items q @ [x]"
    and good_push: "good q \<Longrightarrow> good (push x q)"
    and pop_Cons: "good q \<Longrightarrow> items q = x # xs \<Longrightarrow>
      \<exists>q'. pop q = Inr (x, q') \<and> items q' = xs \<and> good q'"
    and pop_Nil: "good q \<Longrightarrow> items q = [] \<Longrightarrow> \<not> returns (pop q)"
begin

lemma push_all: "good q \<Longrightarrow> good (fold push xs q) \<and> items (fold push xs q) = items q @ xs"
  by (induction xs arbitrary: q) (auto simp: items_push good_push)

lemma pop_all:
  "good q \<Longrightarrow> items q = xs @ ys \<Longrightarrow>
     \<exists>q'. pop_n pop (length xs) q = Inr (xs, q') \<and> items q' = ys \<and> good q'"
proof (induction xs arbitrary: q)
  case Nil
  then show ?case by simp
next
  case (Cons x xs)
  then obtain q' where q': "pop q = Inr (x, q')" "items q' = xs @ ys" "good q'"
    using pop_Cons [of q x "xs @ ys"] by auto
  with Cons.IH [of q'] show ?case by auto
qed

lemma first_in_first_out:
  assumes "good q"
  shows "\<exists>q'. pop_n pop (length (items q) + length xs) (fold push xs q) =
      Inr (items q @ xs, q') \<and> items q' = []"
proof -
  have "good (fold push xs q)" and "items (fold push xs q) = (items q @ xs) @ []"
    using push_all [OF assms] by auto
  from pop_all [OF this] show ?thesis by auto
qed

lemma pop_returns_iff: "good q \<Longrightarrow> returns (pop q) \<longleftrightarrow> items q \<noteq> []"
  using pop_Nil pop_Cons by (cases "items q") (fastforce simp: returns_iff)+

end

locale stack_store =
  fixes items :: "'q \<Rightarrow> 'a list"
    and good :: "'q \<Rightarrow> bool"
    and push :: "'a \<Rightarrow> 'q \<Rightarrow> 'q"
    and pop :: "'q \<Rightarrow> ('a \<times> 'q) run"
  assumes items_push: "good q \<Longrightarrow> items (push x q) = x # items q"
    and good_push: "good q \<Longrightarrow> good (push x q)"
    and pop_Cons: "good q \<Longrightarrow> items q = x # xs \<Longrightarrow>
      \<exists>q'. pop q = Inr (x, q') \<and> items q' = xs \<and> good q'"
begin

lemma push_then_pop:
  "good q \<Longrightarrow> \<exists>q'. pop (push x q) = Inr (x, q') \<and> items q' = items q \<and> good q'"
  using pop_Cons [of "push x q" x "items q"] by (simp add: items_push good_push)

end

interpretation ll_fifo: fifo ll_front ll_inv LinkedList_PushBack LinkedList_PopFront
  by unfold_locales (auto simp: LinkedList_PopFront_def ll_inv_def)

interpretation ll_stack: stack_store ll_front ll_inv LinkedList_PushFront LinkedList_PopFront
  by unfold_locales (auto simp: LinkedList_PopFront_def ll_inv_def)

section \<open>Properties\<close>

text \<open>
  The list is a first-in first-out queue under \<open>PushBack\<close> and \<open>PopFront\<close>: from any
  well-formed list, pushing \<open>xs\<close> and then popping as many elements as there are returns the
  old elements and then \<open>xs\<close>, in order, without a null dereference, and leaves the list empty.
\<close>

theorem LinkedList_fifo:
  assumes "ll_inv l"
  shows "\<exists>l'. pop_n LinkedList_PopFront (length (ll_front l) + length xs)
                (fold LinkedList_PushBack xs l) = Inr (ll_front l @ xs, l') \<and> ll_front l' = []"
  using assms by (rule ll_fifo.first_in_first_out)

theorem LinkedList_fifo_witness:
  "\<exists>l'. pop_n LinkedList_PopFront (length (ll_front (LinkedList_new :: nat LinkedList)) + 2)
          (fold LinkedList_PushBack [1::nat, 2] LinkedList_new) =
        Inr (ll_front LinkedList_new @ [1, 2], l') \<and> ll_front l' = []"
  using LinkedList_fifo [of "LinkedList_new :: nat LinkedList" "[1, 2]"] by simp

end
