(* ===== verification/Glcr_IntrusiveList.thy ===== *)
theory Glcr_IntrusiveList
  imports Prelude
begin

text \<open>
  The doubly linked intrusive list \<open>glcr::IntrusiveList\<close>
  (\<open>lib/glacier/container/intrusive_list.h\<close>).  The links live in the listed objects
  themselves, so that two lists over the same objects share them: \<open>links\<close> is the store of
  the \<open>next_\<close> and \<open>prev_\<close> fields of all objects, and a list is its \<open>front_\<close>,
  \<open>back_\<close> and \<open>size_\<close>.  An object's reference count is not part of the model.

  The relation \<open>dll h l xs\<close> says that in the store \<open>h\<close> the list \<open>l\<close> holds exactly the
  objects \<open>xs\<close>, in this order, each once.  Every operation is shown to refine the operation
  on HOL lists and to leave the links of all other objects alone.
\<close>

record 't IntrusiveListNode =
  il_next :: "'t option"
  il_prev :: "'t option"

type_synonym 't links = "'t \<Rightarrow> 't IntrusiveListNode"

record 't IntrusiveList =
  il_front :: "'t option"
  il_back :: "'t option"
  il_size :: u64

definition set_next :: "'t \<Rightarrow> 't option \<Rightarrow> 't links \<Rightarrow> 't links" where
  "set_next a v h = h(a := (h a)\<lparr>il_next := v\<rparr>)"

definition set_prev :: "'t \<Rightarrow> 't option \<Rightarrow> 't links \<Rightarrow> 't links" where
  "set_prev a v h = h(a := (h a)\<lparr>il_prev := v\<rparr>)"

definition no_links :: "'t links" where
  "no_links = (\<lambda>_. \<lparr>il_next = None, il_prev = None\<rparr>)"

definition IntrusiveList_new :: "'t IntrusiveList" where
  "IntrusiveList_new = \<lparr>il_front = None, il_back = None, il_size = 0\<rparr>"

definition IntrusiveList_PushFront ::
    "'t \<Rightarrow> 't links \<times> 't IntrusiveList \<Rightarrow> 't links \<times> 't IntrusiveList" where
  "IntrusiveList_PushFront obj q =
     (let (h, l) = q;
          l = l\<lparr>il_size := il_size l + 1\<rparr>;
          h = set_next obj (il_front l) h;
          h = set_prev obj None h
      in case il_front l of
           None \<Rightarrow> (h, l\<lparr>il_front := Some obj, il_back := Some obj\<rparr>)
         | Some f \<Rightarrow> (set_prev f (Some obj) h, l\<lparr>il_front := Some obj\<rparr>))"

definition IntrusiveList_PushBack ::
    "'t \<Rightarrow> 't links \<times> 't IntrusiveList \<Rightarrow> ('t links \<times> 't IntrusiveList) run" where
  "IntrusiveList_PushBack obj q =
     (let (h, l) = q
      in case il_front l of
           None \<Rightarrow> Inr (IntrusiveList_PushFront obj (h, l))
         | Some _ \<Rightarrow>
             (case il_back l of
                None \<Rightarrow> Inl NullDeref
              | Some b \<Rightarrow>
                  let l = l\<lparr>il_size := il_size l + 1\<rparr>;
                      h = set_next b (Some obj) h;
                      h = set_prev obj (Some b) h;
                      h = set_next obj None h
                  in Inr (h, l\<lparr>il_back := Some obj\<rparr>)))"

definition IntrusiveList_Remove ::
    "'t option \<Rightarrow> 't links \<times> 't IntrusiveList \<Rightarrow> 't links \<times> 't IntrusiveList" where
  "IntrusiveList_Remove obj_or q =
     (let (h, l) = q
      in case obj_or of
           None \<Rightarrow> (h, l)
         | Some obj \<Rightarrow>
             let l = (if il_front l = Some obj then l\<lparr>il_front := il_next (h obj)\<rparr> else l);
                 l = (if il_back l = Some obj then l\<lparr>il_back := il_prev (h obj)\<rparr> else l);
                 h = (case il_prev (h obj) of
                        None \<Rightarrow> h | Some p \<Rightarrow> set_next p (il_next (h obj)) h);
                 h = (case il_next (h obj) of
                        None \<Rightarrow> h | Some n \<Rightarrow> set_prev n (il_prev (h obj)) h);
                 h = set_prev obj None h;
                 h = set_next obj None h
             in (h, l\<lparr>il_size := il_size l - 1\<rparr>))"

definition IntrusiveList_PopFront ::
    "'t links \<times> 't IntrusiveList \<Rightarrow> ('t option \<times> 't links \<times> 't IntrusiveList) run" where
  "IntrusiveList_PopFront q =
     (let (h, l) = q
      in case il_front l of
           None \<Rightarrow> Inr (None, h, l)
         | Some ptr \<Rightarrow>
             let l = l\<lparr>il_size := il_size l - 1\<rparr>
             in if il_front l = il_back l
                then Inr (Some ptr, h, l\<lparr>il_front := None, il_back := None\<rparr>)
                else (case il_next (h ptr) of
                        None \<Rightarrow> Inl NullDeref
                      | Some f \<Rightarrow>
                          Inr (Some ptr, set_next ptr None (set_prev f None h),
                               l\<lparr>il_front := Some f\<rparr>)))"

definition IntrusiveList_PopBack ::
    "'t links \<times> 't IntrusiveList \<Rightarrow> ('t option \<times> 't links \<times> 't IntrusiveList) run" where
  "IntrusiveList_PopBack q =
     (let (h, l) = q
      in case il_back l of
           None \<Rightarrow> Inr (None, h, l)
         | Some ptr \<Rightarrow>
             if il_front l = il_back l then IntrusiveList_PopFront (h, l)
             else let l = l\<lparr>il_size := il_size l - 1\<rparr>
                  in (case il_prev (h ptr) of
                        None \<Rightarrow> Inl NullDeref
                      | Some b \<Rightarrow>
                          Inr (Some ptr, set_prev ptr None (set_next b None h),
                               l\<lparr>il_back := Some b\<rparr>)))"

section \<open>The chain of links\<close>

text \<open>\<open>seg h p xs q\<close>: the objects \<open>xs\<close> are chained, \<open>p\<close> before and \<open>q\<close> after them.\<close>

fun seg :: "'t links \<Rightarrow> 't option \<Rightarrow> 't list \<Rightarrow> 't option \<Rightarrow> bool" where
  "seg h p [] q \<longleftrightarrow> True"
| "seg h p (x # xs) q \<longleftrightarrow>
     il_prev (h x) = p \<and> il_next (h x) = (if xs = [] then q else head_opt xs) \<and> seg h (Some x) xs q"

definition dll :: "'t links \<Rightarrow> 't IntrusiveList \<Rightarrow> 't list \<Rightarrow> bool" where
  "dll h l xs \<longleftrightarrow> distinct xs \<and> seg h None xs None \<and>
     il_front l = head_opt xs \<and> il_back l = last_opt xs \<and> counts (il_size l) xs"

lemma set_next_apply [heap_simps]:
  "set_next a v h b = (if b = a then (h a)\<lparr>il_next := v\<rparr> else h b)"
  by (simp add: set_next_def)

lemma set_prev_apply [heap_simps]:
  "set_prev a v h b = (if b = a then (h a)\<lparr>il_prev := v\<rparr> else h b)"
  by (simp add: set_prev_def)

lemma seg_append:
  "seg h p (xs @ ys) q \<longleftrightarrow>
     seg h p xs (if ys = [] then q else head_opt ys) \<and>
     seg h (if xs = [] then p else last_opt xs) ys q"
  by (induction xs arbitrary: p) (auto simp: head_opt_append last_opt_def)

lemma seg_cong:
  "(\<And>a. a \<in> set xs \<Longrightarrow> h' a = h a) \<Longrightarrow> seg h' p xs q \<longleftrightarrow> seg h p xs q"
  by (induction xs arbitrary: p) auto

lemma seg_set_next_other: "a \<notin> set xs \<Longrightarrow> seg (set_next a v h) p xs q \<longleftrightarrow> seg h p xs q"
  by (rule seg_cong) (auto simp: heap_simps)

lemma seg_set_prev_other: "a \<notin> set xs \<Longrightarrow> seg (set_prev a v h) p xs q \<longleftrightarrow> seg h p xs q"
  by (rule seg_cong) (auto simp: heap_simps)

lemmas seg_frame = seg_set_next_other seg_set_prev_other

text \<open>Overwriting the first \<open>prev_\<close> and the last \<open>next_\<close> link of a segment.\<close>

lemma seg_set_prev_head:
  "seg h p (x # xs) q \<Longrightarrow> distinct (x # xs) \<Longrightarrow> seg (set_prev x v h) v (x # xs) q"
  by (auto simp: heap_simps seg_frame)

lemma seg_set_next_last:
  "seg h p (xs @ [x]) q \<Longrightarrow> distinct (xs @ [x]) \<Longrightarrow> seg (set_next x v h) p (xs @ [x]) v"
  by (auto simp: seg_append heap_simps seg_frame)

lemma dllD:
  assumes "dll h l xs"
  shows "distinct xs" "seg h None xs None" "il_front l = head_opt xs"
    "il_back l = last_opt xs" "counts (il_size l) xs"
  using assms by (simp_all add: dll_def)

lemma dll_frame:
  "dll h l ys \<Longrightarrow> (\<And>a. a \<in> set ys \<Longrightarrow> h' a = h a) \<Longrightarrow> dll h' l ys"
  using seg_cong [of ys h' h] by (simp add: dll_def)

lemma dll_new [simp, intro]: "dll h IntrusiveList_new []"
  by (simp add: dll_def IntrusiveList_new_def)

lemma dll_Nil_iff: "dll h l [] \<longleftrightarrow> l = IntrusiveList_new"
  by (cases l) (auto simp: dll_def IntrusiveList_new_def)

lemma dll_unique: "dll h l xs \<Longrightarrow> dll h l ys \<Longrightarrow> xs = ys"
proof -
  have "seg h p xs None \<Longrightarrow> seg h p ys None \<Longrightarrow> head_opt xs = head_opt ys \<Longrightarrow> xs = ys"
    for p xs ys
  proof (induction xs arbitrary: p ys)
    case Nil
    then show ?case by (cases ys) auto
  next
    case (Cons x xs)
    then obtain ys' where ys: "ys = x # ys'" by (cases ys) auto
    have "head_opt xs = head_opt ys'"
      using Cons.prems ys by (cases xs; cases ys') (auto split: if_splits)
    with Cons ys show ?case by auto
  qed
  then show "dll h l xs \<Longrightarrow> dll h l ys \<Longrightarrow> xs = ys" by (auto simp: dll_def)
qed

section \<open>The operations refine the list operations\<close>

lemma PushFront_dll:
  assumes "dll h l xs" and "obj \<notin> set xs" and "IntrusiveList_PushFront obj (h, l) = (h', l')"
  shows "dll h' l' (obj # xs)"
  using assms
  by (cases xs)
     (auto simp: dll_def counts_def IntrusiveList_PushFront_def Let_def heap_simps seg_frame last_opt_def)

lemma PushBack_dll:
  assumes "dll h l xs" and "obj \<notin> set xs"
  shows "\<exists>h' l'. IntrusiveList_PushBack obj (h, l) = Inr (h', l') \<and> dll h' l' (xs @ [obj])"
proof (cases xs rule: rev_cases)
  case Nil
  obtain h' l' where "IntrusiveList_PushFront obj (h, l) = (h', l')" by force
  with assms Nil PushFront_dll [of h l "[]" obj h' l'] show ?thesis
    by (auto simp: IntrusiveList_PushBack_def dllD(3))
next
  case (snoc ys b)
  then have front: "il_front l \<noteq> None" and bk: "il_back l = Some b"
    using assms(1) by (auto simp: dll_def counts_def)
  let ?h1 = "set_next b (Some obj) h"
  let ?h2 = "set_next obj None (set_prev obj (Some b) ?h1)"
  have "seg ?h1 None (ys @ [b]) (Some obj)"
    using assms(1) snoc seg_set_next_last [of h None ys b None "Some obj"] by (auto simp: dll_def counts_def)
  then have "seg ?h2 None ((ys @ [b]) @ [obj]) None"
    using assms(2) snoc unfolding seg_append by (auto simp: seg_frame heap_simps)
  then have "dll ?h2 (l\<lparr>il_size := il_size l + 1, il_back := Some obj\<rparr>) (xs @ [obj])"
    using assms snoc unfolding dll_def counts_def by (auto simp: head_opt_append last_opt_def)
  with front bk show ?thesis by (auto simp: IntrusiveList_PushBack_def)
qed

lemma PopFront_dll_Nil: "dll h l [] \<Longrightarrow> IntrusiveList_PopFront (h, l) = Inr (None, h, l)"
  by (simp add: dll_def counts_def IntrusiveList_PopFront_def)

lemma PopFront_dll_Cons:
  assumes "dll h l (x # xs)"
  shows "\<exists>h' l'. IntrusiveList_PopFront (h, l) = Inr (Some x, h', l') \<and> dll h' l' xs"
proof (cases xs)
  case Nil
  with assms show ?thesis by (auto simp: dll_def counts_def IntrusiveList_PopFront_def)
next
  case (Cons y ys)
  have "x \<noteq> last xs" using assms Cons by (auto simp: dll_def counts_def split: if_splits)
  moreover have "seg (set_next x None (set_prev y None h)) None (y # ys) None"
    using assms Cons seg_set_prev_head [of h "Some x" y ys None None]
    by (auto simp: dll_def heap_simps seg_frame)
  ultimately show ?thesis
    using assms Cons by (auto simp: dll_def counts_def IntrusiveList_PopFront_def)
qed

lemma PopBack_dll_Nil: "dll h l [] \<Longrightarrow> IntrusiveList_PopBack (h, l) = Inr (None, h, l)"
  by (simp add: dll_def counts_def IntrusiveList_PopBack_def)

lemma PopBack_dll_snoc:
  assumes "dll h l (xs @ [x])"
  shows "\<exists>h' l'. IntrusiveList_PopBack (h, l) = Inr (Some x, h', l') \<and> dll h' l' xs"
proof (cases xs rule: rev_cases)
  case Nil
  with assms PopFront_dll_Cons [of h l x "[]"] show ?thesis
    by (auto simp: IntrusiveList_PopBack_def dll_def counts_def)
next
  case (snoc ys y)
  have ne: "il_front l \<noteq> Some x" and cnt: "counts (il_size l - 1) xs"
    using assms snoc by (cases ys; auto simp: dll_def counts_def head_opt_append)+
  moreover have "seg (set_prev x None (set_next y None h)) None (ys @ [y]) None"
    using assms snoc seg_set_next_last [of h None ys y "Some x" None]
    by (auto simp: dll_def seg_append heap_simps seg_frame)
  moreover have "il_prev (h x) = Some y"
    using assms snoc by (simp add: dll_def counts_def seg_append last_opt_def)
  ultimately show ?thesis
    using assms snoc by (auto simp: dll_def counts_def IntrusiveList_PopBack_def head_opt_append last_opt_def)
qed

lemma seg_unlink:
  assumes "seg h p (as @ x # bs) q" and "distinct (as @ x # bs)"
  defines "h1 \<equiv> (if as = [] then h else set_next (last as) (if bs = [] then q else head_opt bs) h)"
  defines "h2 \<equiv> (if bs = [] then h1 else set_prev (hd bs) (if as = [] then p else last_opt as) h1)"
  shows "seg h2 p (as @ bs) q"
proof -
  have as: "seg h1 p as (if bs = [] then q else head_opt bs)" and bs: "seg h1 (Some x) bs q"
    using assms(1,2) by (cases as rule: rev_cases; auto simp: h1_def seg_append seg_frame heap_simps)+
  then show ?thesis
    using assms(2) by (cases bs) (auto simp: h2_def seg_append seg_frame heap_simps)
qed

lemma Remove_dll:
  assumes "dll h l xs" and "x \<in> set xs" and "IntrusiveList_Remove (Some x) (h, l) = (h', l')"
  shows "dll h' l' (remove1 x xs)"
proof -
  obtain as bs where xs: "xs = as @ x # bs" using split_list assms(2) by metis
  have dist: "distinct (as @ x # bs)" and sg: "seg h None (as @ x # bs) None"
    using assms(1) by (simp_all add: dll_def xs)
  have cnt: "counts (il_size l - 1) (remove1 x xs)"
    using assms(1,2) by (simp add: dll_def counts_remove1)
  have rm: "remove1 x xs = as @ bs" using dist by (simp add: xs remove1_append)
  have lx: "il_next (h x) = head_opt bs" "il_prev (h x) = last_opt as"
    using sg by (auto simp: seg_append last_opt_def)
  define h1 where "h1 = (if as = [] then h else set_next (last as) (head_opt bs) h)"
  define h2 where "h2 = (if bs = [] then h1 else set_prev (hd bs) (last_opt as) h1)"
  have "seg h2 None (as @ bs) None"
    using seg_unlink [OF sg dist] by (cases bs; cases as) (simp_all add: h2_def h1_def last_opt_def)
  then have "seg (set_next x None (set_prev x None h2)) None (as @ bs) None"
    using dist by (simp add: seg_frame)
  moreover have "h' = set_next x None (set_prev x None h2)"
    using assms(3) lx dist
    by (cases as rule: rev_cases; cases bs)
       (auto simp: IntrusiveList_Remove_def Let_def h2_def h1_def last_opt_def heap_simps
         split: if_splits)
  moreover have "il_front l' = head_opt (as @ bs)"
    using assms(1,3) lx dist
    by (cases as) (auto simp: IntrusiveList_Remove_def Let_def dllD(3) xs)
  moreover have "il_back l' = last_opt (as @ bs)"
    using assms(1,3) lx dist
    by (cases bs rule: rev_cases)
       (auto simp: IntrusiveList_Remove_def Let_def dllD(4) xs last_opt_def split: if_splits)
  moreover have "il_size l' = il_size l - 1"
    using assms(3) by (auto simp: IntrusiveList_Remove_def Let_def)
  ultimately show ?thesis using dist cnt rm by (simp add: dll_def)
qed

section \<open>What an operation leaves alone\<close>

lemma PushFront_frame:
  assumes "dll h l xs" and "IntrusiveList_PushFront obj (h, l) = (h', l')"
    and "a \<noteq> obj" and "a \<notin> set xs"
  shows "h' a = h a"
  using assms
  by (cases xs) (auto simp: dll_def IntrusiveList_PushFront_def Let_def heap_simps)

lemma PushBack_frame:
  assumes "dll h l xs" and "IntrusiveList_PushBack obj (h, l) = Inr (h', l')"
    and "a \<noteq> obj" and "a \<notin> set xs"
  shows "h' a = h a"
proof (cases xs rule: rev_cases)
  case Nil
  with assms show ?thesis
    by (auto simp: IntrusiveList_PushBack_def dllD(3) intro: PushFront_frame)
next
  case (snoc ys b)
  with assms show ?thesis
    by (auto simp: dll_def IntrusiveList_PushBack_def Let_def heap_simps split: option.splits)
qed

lemma Remove_frame:
  assumes "dll h l xs" and "x \<in> set xs"
    and "IntrusiveList_Remove (Some x) (h, l) = (h', l')" and "a \<notin> set xs"
  shows "h' a = h a"
proof -
  obtain as bs where xs: "xs = as @ x # bs" using split_list assms(2) by metis
  have "il_next (h x) = head_opt bs" "il_prev (h x) = last_opt as"
    using assms(1) by (auto simp: dll_def xs seg_append last_opt_def)
  with assms(3,4) xs show ?thesis
    by (cases as rule: rev_cases; cases bs)
       (auto simp: IntrusiveList_Remove_def Let_def heap_simps last_opt_def split: if_splits)
qed

lemma PopFront_frame:
  assumes "dll h l xs" and "IntrusiveList_PopFront (h, l) = Inr (r, h', l')" and "a \<notin> set xs"
  shows "h' a = h a"
proof (cases xs)
  case Nil
  with assms show ?thesis by (simp add: PopFront_dll_Nil)
next
  case (Cons x ys)
  with assms show ?thesis
    by (cases ys)
       (auto simp: dll_def IntrusiveList_PopFront_def Let_def heap_simps split: if_splits)
qed

lemma PopBack_frame:
  assumes "dll h l xs" and "IntrusiveList_PopBack (h, l) = Inr (r, h', l')" and "a \<notin> set xs"
  shows "h' a = h a"
proof (cases xs rule: rev_cases)
  case Nil
  with assms show ?thesis by (simp add: PopBack_dll_Nil)
next
  case (snoc ys y)
  have y: "il_prev (h y) = last_opt ys" "il_back l = Some y" using assms(1) snoc
    by (auto simp: dll_def seg_append last_opt_def)
  show ?thesis
  proof (cases "il_front l = il_back l")
    case True
    with assms y show ?thesis by (auto simp: IntrusiveList_PopBack_def intro: PopFront_frame)
  next
    case False
    with assms y snoc show ?thesis
      by (cases ys rule: rev_cases)
         (auto simp: IntrusiveList_PopBack_def Let_def heap_simps)
  qed
qed

section \<open>The waiting queue interface\<close>

text \<open>
  What the clients of the list (the run queue, mutexes, semaphores, message queues) rely on:
  a push at the back, a pop at the front, and the relation between the state and the waiting
  objects.  A push needs the object not to be waiting already.
\<close>

fun push_all :: "('a \<Rightarrow> 's \<Rightarrow> 's run) \<Rightarrow> 'a list \<Rightarrow> 's \<Rightarrow> 's run" where
  "push_all push [] q = Inr q"
| "push_all push (x # xs) q = run_bind (push x q) (push_all push xs)"

fun pop_all :: "('s \<Rightarrow> ('a option \<times> 's) run) \<Rightarrow> nat \<Rightarrow> 's \<Rightarrow> ('a list \<times> 's) run" where
  "pop_all pop 0 q = Inr ([], q)"
| "pop_all pop (Suc n) q =
     run_bind (pop q) (\<lambda>(r, q'). case r of
        None \<Rightarrow> Inr ([], q')
      | Some x \<Rightarrow> run_map (\<lambda>(rs, q''). (x # rs, q'')) (pop_all pop n q'))"

locale wait_queue =
  fixes rep :: "'s \<Rightarrow> 'a list \<Rightarrow> bool"
    and push :: "'a \<Rightarrow> 's \<Rightarrow> 's run"
    and pop :: "'s \<Rightarrow> ('a option \<times> 's) run"
  assumes rep_distinct: "rep q xs \<Longrightarrow> distinct xs"
    and push_rep: "rep q xs \<Longrightarrow> x \<notin> set xs \<Longrightarrow> \<exists>q'. push x q = Inr q' \<and> rep q' (xs @ [x])"
    and pop_Nil: "rep q [] \<Longrightarrow> pop q = Inr (None, q)"
    and pop_Cons: "rep q (x # xs) \<Longrightarrow> \<exists>q'. pop q = Inr (Some x, q') \<and> rep q' xs"
begin

text \<open>Objects leave in the order in which they came, none is lost and none appears twice.\<close>

lemma push_all_rep:
  "rep q xs \<Longrightarrow> distinct (xs @ ys) \<Longrightarrow> \<exists>q'. push_all push ys q = Inr q' \<and> rep q' (xs @ ys)"
proof (induction ys arbitrary: q xs)
  case (Cons y ys)
  from Cons.prems obtain q1 where "push y q = Inr q1" "rep q1 (xs @ [y])"
    using push_rep by force
  with Cons.IH [of q1 "xs @ [y]"] Cons.prems show ?case by auto
qed auto

lemma pop_all_rep:
  "rep q xs \<Longrightarrow> \<exists>q'. pop_all pop n q = Inr (take n xs, q') \<and> rep q' (drop n xs)"
proof (induction n arbitrary: q xs)
  case (Suc n)
  show ?case
  proof (cases xs)
    case Nil
    with Suc.prems show ?thesis by (simp add: pop_Nil)
  next
    case (Cons y ys)
    with Suc.prems obtain q1 where "pop q = Inr (Some y, q1)" "rep q1 ys"
      using pop_Cons by blast
    with Suc.IH [of q1 ys] Cons show ?thesis by auto
  qed
qed auto

end

interpretation il_queue: wait_queue "\<lambda>(h, l) xs. dll h l xs"
    IntrusiveList_PushBack IntrusiveList_PopFront
proof
  fix q :: "'a links \<times> 'a IntrusiveList" and x :: 'a and xs
  show "(case q of (h, l) \<Rightarrow> dll h l) xs \<Longrightarrow> distinct xs" by (auto dest: dllD)
  show "(case q of (h, l) \<Rightarrow> dll h l) xs \<Longrightarrow> x \<notin> set xs \<Longrightarrow>
      \<exists>q'. IntrusiveList_PushBack x q = Inr q' \<and> (case q' of (h, l) \<Rightarrow> dll h l) (xs @ [x])"
    using PushBack_dll [of "fst q" "snd q" xs x] by force
  show "(case q of (h, l) \<Rightarrow> dll h l) [] \<Longrightarrow> IntrusiveList_PopFront q = Inr (None, q)"
    by (auto simp: PopFront_dll_Nil)
  show "(case q of (h, l) \<Rightarrow> dll h l) (x # xs) \<Longrightarrow>
      \<exists>q'. IntrusiveList_PopFront q = Inr (Some x, q') \<and> (case q' of (h, l) \<Rightarrow> dll h l) xs"
    using PopFront_dll_Cons [of "fst q" "snd q" x xs] by force
qed

section \<open>Sequences of operations\<close>

datatype 't il_op = OpPushFront 't | OpPushBack 't | OpRemove 't | OpPopFront | OpPopBack

fun il_exec :: "'t il_op \<Rightarrow> 't links \<times> 't IntrusiveList \<Rightarrow>
    ('t option \<times> 't links \<times> 't IntrusiveList) run" where
  "il_exec (OpPushFront x) q = Inr (None, IntrusiveList_PushFront x q)"
| "il_exec (OpPushBack x) q = run_map (Pair None) (IntrusiveList_PushBack x q)"
| "il_exec (OpRemove x) q = Inr (None, IntrusiveList_Remove (Some x) q)"
| "il_exec OpPopFront q = IntrusiveList_PopFront q"
| "il_exec OpPopBack q = IntrusiveList_PopBack q"

fun il_run :: "'t il_op list \<Rightarrow> 't links \<times> 't IntrusiveList \<Rightarrow>
    ('t option list \<times> 't links \<times> 't IntrusiveList) run" where
  "il_run [] q = Inr ([], q)"
| "il_run (c # cs) q =
     run_bind (il_exec c q) (\<lambda>(r, q'). run_map (\<lambda>(rs, q''). (r # rs, q'')) (il_run cs q'))"

text \<open>
  The specification: the operations on a HOL list.  A push of an object that is already in the
  list and the removal of an object that is not in it have no specified result.
\<close>

fun il_spec :: "'t il_op \<Rightarrow> 't list \<Rightarrow> ('t option \<times> 't list) option" where
  "il_spec (OpPushFront x) xs = (if x \<in> set xs then None else Some (None, x # xs))"
| "il_spec (OpPushBack x) xs = (if x \<in> set xs then None else Some (None, xs @ [x]))"
| "il_spec (OpRemove x) xs = (if x \<in> set xs then Some (None, remove1 x xs) else None)"
| "il_spec OpPopFront xs = Some (head_opt xs, tl xs)"
| "il_spec OpPopBack xs = Some (last_opt xs, butlast xs)"

fun il_spec_run :: "'t il_op list \<Rightarrow> 't list \<Rightarrow> ('t option list \<times> 't list) option" where
  "il_spec_run [] xs = Some ([], xs)"
| "il_spec_run (c # cs) xs =
     Option.bind (il_spec c xs) (\<lambda>(r, ys). map_option (\<lambda>(rs, zs). (r # rs, zs)) (il_spec_run cs ys))"

definition il_pushed :: "'t il_op \<Rightarrow> 't set" where
  "il_pushed c = (case c of OpPushFront x \<Rightarrow> {x} | OpPushBack x \<Rightarrow> {x} | _ \<Rightarrow> {})"

lemma il_exec_spec:
  assumes "dll h l xs" and "il_spec c xs = Some (r, ys)"
  shows "\<exists>h' l'. il_exec c (h, l) = Inr (r, h', l') \<and> dll h' l' ys \<and>
    set ys \<subseteq> set xs \<union> il_pushed c \<and> (\<forall>a. a \<notin> set xs \<union> il_pushed c \<longrightarrow> h' a = h a)"
proof (cases c)
  case (OpPushFront x)
  obtain h' l' where "IntrusiveList_PushFront x (h, l) = (h', l')" by force
  with assms OpPushFront show ?thesis
    using PushFront_dll [of h l xs x h' l'] PushFront_frame [of h l xs x h' l']
    by (auto simp: il_pushed_def split: if_splits)
next
  case (OpPushBack x)
  with assms have x: "x \<notin> set xs" "r = None" "ys = xs @ [x]" by (auto split: if_splits)
  obtain h' l' where "IntrusiveList_PushBack x (h, l) = Inr (h', l')" "dll h' l' (xs @ [x])"
    using PushBack_dll [OF assms(1) x(1)] by blast
  with OpPushBack x show ?thesis
    using PushBack_frame [OF assms(1), of x h' l'] by (auto simp: il_pushed_def)
next
  case (OpRemove x)
  obtain h' l' where "IntrusiveList_Remove (Some x) (h, l) = (h', l')" by force
  with assms OpRemove show ?thesis
    using Remove_dll [of h l xs x h' l'] Remove_frame [of h l xs x h' l'] set_remove1_subset [of x xs]
    by (auto simp: il_pushed_def split: if_splits)
next
  case OpPopFront
  obtain h' l' where "IntrusiveList_PopFront (h, l) = Inr (head_opt xs, h', l')" "dll h' l' (tl xs)"
    using assms(1) by (cases xs) (fastforce dest: PopFront_dll_Nil PopFront_dll_Cons)+
  with OpPopFront assms show ?thesis
    using PopFront_frame [OF assms(1), of "head_opt xs" h' l']
    by (cases xs) (auto simp: il_pushed_def)
next
  case OpPopBack
  obtain h' l' where "IntrusiveList_PopBack (h, l) = Inr (last_opt xs, h', l')" "dll h' l' (butlast xs)"
    using assms(1) by (cases xs rule: rev_cases) (fastforce dest: PopBack_dll_Nil PopBack_dll_snoc)+
  with OpPopBack assms show ?thesis
    using PopBack_frame [OF assms(1), of "last_opt xs" h' l']
    by (auto simp: il_pushed_def dest: in_set_butlastD)
qed

text \<open>
  C3.  Refinement of the intrusive list, with its sharing.  Any sequence of pushes, pops and
  removals whose objects obey the contract (no object pushed while in the list, none removed
  that is not in it) runs without a null dereference on the linked objects, returns exactly what
  the same sequence returns on a HOL list, and ends with the links describing exactly that list.
  Any second list over the same store of links whose objects the sequence does not touch still
  holds what it held.
\<close>

theorem IntrusiveList_refines_list:
  assumes "dll h l xs" and "il_spec_run cs xs = Some (rs, ys)"
    and "dll h other zs" and "set zs \<inter> (set xs \<union> \<Union> (set (map il_pushed cs))) = {}"
  shows "\<exists>h' l'. il_run cs (h, l) = Inr (rs, h', l') \<and> dll h' l' ys \<and> dll h' other zs"
  using assms
proof (induction cs arbitrary: h l xs rs)
  case (Cons c cs)
  obtain r xs1 rs1 where spec: "il_spec c xs = Some (r, xs1)"
      "il_spec_run cs xs1 = Some (rs1, ys)" "rs = r # rs1"
    using Cons.prems(2) by (auto simp: bind_eq_Some_conv)
  obtain h1 l1 where ex: "il_exec c (h, l) = Inr (r, h1, l1)" "dll h1 l1 xs1"
      "set xs1 \<subseteq> set xs \<union> il_pushed c" "\<forall>a. a \<notin> set xs \<union> il_pushed c \<longrightarrow> h1 a = h a"
    using il_exec_spec [OF Cons.prems(1) spec(1)] by blast
  have "a \<notin> set xs \<union> il_pushed c" if "a \<in> set zs" for a
    using Cons.prems(4) that by auto
  then have "dll h1 other zs"
    using ex(4) by (blast intro: dll_frame [OF Cons.prems(3)])
  moreover have "set zs \<inter> (set xs1 \<union> \<Union> (set (map il_pushed cs))) = {}"
    using Cons.prems(4) ex(3) by auto
  ultimately obtain h' l' where "il_run cs (h1, l1) = Inr (rs1, h', l')" "dll h' l' ys"
      "dll h' other zs"
    using Cons.IH [OF ex(2) spec(2)] by blast
  then show ?case using ex(1) spec(3) by auto
qed auto

theorem IntrusiveList_refines_list_witness:
  "\<exists>h' l'. il_run [OpPushBack 1, OpPushBack 2, OpPushFront 3, OpRemove 1, OpPopBack, OpPopFront, OpPopFront]
      (no_links :: nat links, IntrusiveList_new) =
        Inr ([None, None, None, None, Some 2, Some 3, None], h', l') \<and>
    dll h' l' [] \<and> dll h' IntrusiveList_new []"
  by (rule IntrusiveList_refines_list [of _ _ "[]"]) (simp_all add: il_pushed_def)

end
