(* ===== verification/Glcr_Array.thy ===== *)
theory Glcr_Array
  imports Prelude
begin

text \<open>
  The array-backed containers of glacier: \<open>Array\<close>, \<open>ArrayView\<close>, their iterator and
  \<open>Vector\<close> (\<open>lib/glacier/container/array.h\<close>, \<open>array_view.h\<close>, \<open>array_iter.h\<close>,
  \<open>vector.h\<close>).

  The field \<open>data_\<close> is \<open>None\<close> for the null pointer and \<open>Some xs\<close> for an allocation of
  \<open>length xs\<close> cells; reading or writing a cell outside the allocation is the fault
  \<open>OutOfBounds\<close>.  What \<open>new T[n]\<close> leaves in a fresh cell is the argument \<open>d\<close>.
\<close>

record 'a Array =
  arr_data :: "'a list option"
  arr_size :: u64

record 'a Vector =
  vec_data :: "'a list option"
  vec_size :: u64
  vec_capacity :: u64

section \<open>Cells\<close>

definition cell_get :: "'a list option \<Rightarrow> u64 \<Rightarrow> 'a run" where
  "cell_get p i = (case p of
      None \<Rightarrow> Inl NullDeref
    | Some xs \<Rightarrow> if unat i < length xs then Inr (xs ! unat i) else Inl OutOfBounds)"

definition cell_set :: "'a list option \<Rightarrow> u64 \<Rightarrow> 'a \<Rightarrow> 'a list option run" where
  "cell_set p i x = (case p of
      None \<Rightarrow> Inl NullDeref
    | Some xs \<Rightarrow> if unat i < length xs then Inr (Some (xs[unat i := x])) else Inl OutOfBounds)"

section \<open>The iterator\<close>

text \<open>\<open>item_\<close> is null or a position in the traversed allocation.\<close>

record ArrayIterator =
  it_item :: "nat option"
  it_size :: u64

definition ArrayIterator_next :: "ArrayIterator \<Rightarrow> ArrayIterator" where
  "ArrayIterator_next it =
     (if it_size it \<le> 1 then \<lparr>it_item = None, it_size = 0\<rparr>
      else \<lparr>it_item = map_option Suc (it_item it), it_size = it_size it - 1\<rparr>)"

definition ArrayIterator_eq :: "ArrayIterator \<Rightarrow> ArrayIterator \<Rightarrow> bool" where
  "ArrayIterator_eq a b \<longleftrightarrow> it_item a = it_item b"

definition ArrayIterator_end :: ArrayIterator where
  "ArrayIterator_end = \<lparr>it_item = None, it_size = 0\<rparr>"

definition Array_begin :: "'a Array \<Rightarrow> ArrayIterator" where
  "Array_begin a = \<lparr>it_item = map_option (\<lambda>_. 0) (arr_data a), it_size = arr_size a\<rparr>"

definition Vector_begin :: "'a Vector \<Rightarrow> ArrayIterator" where
  "Vector_begin v = \<lparr>it_item = map_option (\<lambda>_. 0) (vec_data v), it_size = vec_size v\<rparr>"

text \<open>The positions that a range-based for loop from \<open>it\<close> to \<open>end()\<close> dereferences.\<close>

function iter_visits :: "ArrayIterator \<Rightarrow> nat list" where
  "iter_visits it =
     (if ArrayIterator_eq it ArrayIterator_end then []
      else (case it_item it of None \<Rightarrow> [] | Some i \<Rightarrow> i # iter_visits (ArrayIterator_next it)))"
  by auto

termination
  by (relation "measure (\<lambda>it. (if it_item it = None then 0 else Suc (unat (it_size it))))")
     (auto simp: ArrayIterator_next_def ArrayIterator_eq_def ArrayIterator_end_def
       unat_sub_le word_le_unat not_le)

declare iter_visits.simps [simp del]

section \<open>Array and ArrayView\<close>

definition Array_empty_new :: "'a Array" where
  "Array_empty_new = \<lparr>arr_data = None, arr_size = 0\<rparr>"

definition Array_new :: "'a \<Rightarrow> u64 \<Rightarrow> 'a Array" where
  "Array_new d n = \<lparr>arr_data = Some (replicate (unat n) d), arr_size = n\<rparr>"

definition Array_at :: "'a Array \<Rightarrow> u64 \<Rightarrow> 'a run" where
  "Array_at a i = cell_get (arr_data a) i"

definition Array_set :: "'a Array \<Rightarrow> u64 \<Rightarrow> 'a \<Rightarrow> 'a Array run" where
  "Array_set a i x = run_map (\<lambda>p. a\<lparr>arr_data := p\<rparr>) (cell_set (arr_data a) i x)"

definition Array_empty :: "'a Array \<Rightarrow> bool" where
  "Array_empty a \<longleftrightarrow> arr_size a = 0"

text \<open>
  The view has the fields of the array.  Its \<open>begin()\<close> tests the size first; its \<open>empty()\<close>
  returns the size, converted to a truth value.
\<close>

definition ArrayView_begin :: "'a Array \<Rightarrow> ArrayIterator" where
  "ArrayView_begin a = (if arr_size a = 0 then ArrayIterator_end
     else \<lparr>it_item = map_option (\<lambda>_. 0) (arr_data a), it_size = arr_size a\<rparr>)"

definition ArrayView_empty :: "'a Array \<Rightarrow> bool" where
  "ArrayView_empty a \<longleftrightarrow> arr_size a \<noteq> 0"

text \<open>The constructor from a view: a fresh array of the view's size and a copying loop.\<close>

fun copy_cells :: "nat \<Rightarrow> u64 \<Rightarrow> 'a list option \<Rightarrow> 'a list option \<Rightarrow> 'a list option run" where
  "copy_cells 0 i from to = Inr to"
| "copy_cells (Suc n) i from to =
     run_bind (cell_get from i) (\<lambda>x.
     run_bind (cell_set to i x) (\<lambda>to'. copy_cells n (i + 1) from to'))"

definition Array_of_view :: "'a \<Rightarrow> 'a Array \<Rightarrow> 'a Array run" where
  "Array_of_view d view =
     (let a = Array_new d (arr_size view)
      in run_map (\<lambda>p. a\<lparr>arr_data := p\<rparr>)
           (copy_cells (unat (arr_size a)) 0 (arr_data view) (arr_data a)))"

section \<open>Vector\<close>

definition Vector_new :: "'a Vector" where
  "Vector_new = \<lparr>vec_data = None, vec_size = 0, vec_capacity = 0\<rparr>"

definition Vector_at :: "'a Vector \<Rightarrow> u64 \<Rightarrow> 'a run" where
  "Vector_at v i = cell_get (vec_data v) i"

definition Vector_empty :: "'a Vector \<Rightarrow> bool" where
  "Vector_empty v \<longleftrightarrow> vec_size v = 0"

definition Vector_Resize :: "'a \<Rightarrow> u64 \<Rightarrow> 'a Vector \<Rightarrow> 'a Vector run" where
  "Vector_Resize d capacity v =
     (let new_data = Some (replicate (unat capacity) d)
      in run_map (\<lambda>p. v\<lparr>vec_data := p, vec_capacity := capacity\<rparr>)
           (case vec_data v of
              None \<Rightarrow> Inr new_data
            | Some _ \<Rightarrow> copy_cells (unat (vec_size v)) 0 (vec_data v) new_data))"

definition Vector_Expand :: "'a \<Rightarrow> 'a Vector \<Rightarrow> 'a Vector run" where
  "Vector_Expand d v =
     Vector_Resize d (if vec_capacity v = 0 then 1 else vec_capacity v * 2) v"

definition Vector_PushBack :: "'a \<Rightarrow> 'a \<Rightarrow> 'a Vector \<Rightarrow> 'a Vector run" where
  "Vector_PushBack d x v =
     run_bind (if vec_capacity v \<le> vec_size v then Vector_Expand d v else Inr v) (\<lambda>v.
     run_map (\<lambda>p. v\<lparr>vec_data := p, vec_size := vec_size v + 1\<rparr>)
       (cell_set (vec_data v) (vec_size v) x))"

definition Vector_PeekBack :: "'a Vector \<Rightarrow> 'a run" where
  "Vector_PeekBack v = cell_get (vec_data v) (vec_size v - 1)"

definition Vector_PopBack :: "'a Vector \<Rightarrow> ('a \<times> 'a Vector) run" where
  "Vector_PopBack v =
     (let v = v\<lparr>vec_size := vec_size v - 1\<rparr>
      in run_map (\<lambda>x. (x, v)) (cell_get (vec_data v) (vec_size v)))"

text \<open>The move constructor and the move assignment: the source is left empty.\<close>

definition Vector_move :: "'a Vector \<Rightarrow> 'a Vector \<times> 'a Vector" where
  "Vector_move other = (other, other\<lparr>vec_data := None, vec_size := 0, vec_capacity := 0\<rparr>)"

text \<open>The cells in use, and the representation invariant.\<close>

definition vec_list :: "'a Vector \<Rightarrow> 'a list" where
  "vec_list v = (case vec_data v of None \<Rightarrow> [] | Some xs \<Rightarrow> take (unat (vec_size v)) xs)"

definition vec_inv :: "'a Vector \<Rightarrow> bool" where
  "vec_inv v \<longleftrightarrow> vec_size v \<le> vec_capacity v \<and>
     (case vec_data v of None \<Rightarrow> vec_capacity v = 0 | Some xs \<Rightarrow> length xs = unat (vec_capacity v))"

section \<open>Traversal\<close>

lemma iter_visits_null [simp]: "iter_visits \<lparr>it_item = None, it_size = n\<rparr> = []"
  by (subst iter_visits.simps) (simp add: ArrayIterator_eq_def ArrayIterator_end_def)

lemma iter_visits_from:
  "iter_visits \<lparr>it_item = Some i, it_size = n\<rparr> = [i..<i + max 1 (unat n)]"
proof (induction "unat n" arbitrary: i n rule: less_induct)
  case less
  show ?case
  proof (cases "n \<le> 1")
    case True
    then have "max 1 (unat n) = 1" by (simp add: word_le_unat)
    with True show ?thesis
      by (subst iter_visits.simps)
         (simp add: ArrayIterator_eq_def ArrayIterator_end_def ArrayIterator_next_def)
  next
    case False
    then have n: "unat (n - 1) = unat n - 1" "1 < unat n"
      by (auto simp: word_le_unat not_le unat_sub_le)
    then have "iter_visits \<lparr>it_item = Some (Suc i), it_size = n - 1\<rparr> = [Suc i..<i + unat n]"
      using less [of "n - 1" "Suc i"] by simp
    with False n show ?thesis
      by (subst iter_visits.simps)
         (simp add: ArrayIterator_eq_def ArrayIterator_end_def ArrayIterator_next_def upt_conv_Cons)
  qed
qed

lemma Vector_visits:
  "iter_visits (Vector_begin v) =
     (if vec_data v = None then [] else [0..<max 1 (unat (vec_size v))])"
  by (auto simp: Vector_begin_def iter_visits_from)

lemma ArrayView_visits:
  "arr_data a \<noteq> None \<Longrightarrow> iter_visits (ArrayView_begin a) = [0..<unat (arr_size a)]"
  by (auto simp: ArrayView_begin_def ArrayIterator_end_def iter_visits_from unat_eq_zero
      max_def not_le simp flip: unat_gt_0)

section \<open>Copying and growing\<close>

lemma copy_cells_ok:
  assumes "unat i + n \<le> length xs" and "unat i + n \<le> length ys"
    and "unat i + n < 18446744073709551616"
  shows "copy_cells n i (Some xs) (Some ys) =
    Inr (Some (take (unat i) ys @ take n (drop (unat i) xs) @ drop (unat i + n) ys))"
  using assms
proof (induction n arbitrary: i ys)
  case (Suc n)
  have i: "unat (i + 1) = Suc (unat i)" using Suc.prems(3) by (simp add: unat_add_noof)
  let ?ys = "ys[unat i := xs ! unat i]"
  have "copy_cells (Suc n) i (Some xs) (Some ys) = copy_cells n (i + 1) (Some xs) (Some ?ys)"
    using Suc.prems by (simp add: cell_get_def cell_set_def)
  also have "\<dots> = Inr (Some (take (Suc (unat i)) ?ys @ take n (drop (Suc (unat i)) xs) @
      drop (Suc (unat i) + n) ?ys))"
    using Suc.prems i by (subst Suc.IH) auto
  also have "take (Suc (unat i)) ?ys = take (unat i) ys @ [xs ! unat i]"
    using Suc.prems by (simp add: take_Suc_conv_app_nth)
  also have "drop (Suc (unat i) + n) ?ys = drop (unat i + Suc n) ys"
    using Suc.prems by simp
  finally show ?case
    using Suc.prems by (simp add: Cons_nth_drop_Suc [symmetric])
qed simp

lemma Vector_Resize_ok:
  assumes "vec_inv v" and "vec_size v \<le> c"
  shows "\<exists>v'. Vector_Resize d c v = Inr v' \<and> vec_inv v' \<and> vec_list v' = vec_list v \<and>
    vec_size v' = vec_size v \<and> vec_capacity v' = c \<and> vec_data v' \<noteq> None"
proof (cases "vec_data v")
  case None
  with assms show ?thesis
    by (auto simp: Vector_Resize_def vec_inv_def vec_list_def)
next
  case (Some xs)
  let ?n = "unat (vec_size v)"
  have n: "?n \<le> length xs" "?n \<le> unat c"
    using assms Some by (auto simp: vec_inv_def word_le_unat)
  have "copy_cells ?n 0 (Some xs) (Some (replicate (unat c) d)) =
      Inr (Some (take ?n xs @ replicate (unat c - ?n) d))"
    using n unat_lt_64 [of "vec_size v"] by (subst copy_cells_ok) auto
  with Some n assms show ?thesis
    by (auto simp: Vector_Resize_def vec_inv_def vec_list_def)
qed

lemma Vector_PushBack_ok:
  assumes "vec_inv v" and "unat (vec_size v) < 9223372036854775808"
  shows "\<exists>v'. Vector_PushBack d x v = Inr v' \<and> vec_inv v' \<and> vec_list v' = vec_list v @ [x] \<and>
    vec_size v' = vec_size v + 1"
proof -
  have "\<exists>w. (if vec_capacity v \<le> vec_size v then Vector_Expand d v else Inr v) = Inr w \<and> vec_inv w \<and>
      vec_list w = vec_list v \<and> vec_size w = vec_size v \<and> vec_size w < vec_capacity w"
  proof (cases "vec_capacity v \<le> vec_size v")
    case True
    let ?c = "if vec_capacity v = 0 then 1 else vec_capacity v * 2"
    have eq: "vec_size v = vec_capacity v" using True assms(1) by (simp add: vec_inv_def)
    have "unat (vec_capacity v * 2) = unat (vec_capacity v) * 2"
      using assms(2) eq by (simp add: unat_word_ariths)
    then have "vec_size v < ?c"
      using eq by (auto simp: word_less_unat simp flip: unat_gt_0)
    moreover from this have "vec_size v \<le> ?c" by simp
    ultimately show ?thesis
      using True Vector_Resize_ok [OF assms(1), of ?c d] by (auto simp: Vector_Expand_def)
  qed (use assms in auto)
  then obtain w where w: "(if vec_capacity v \<le> vec_size v then Vector_Expand d v else Inr v) = Inr w"
      "vec_inv w" "vec_list w = vec_list v" "vec_size w = vec_size v" "vec_size w < vec_capacity w"
    by blast
  then obtain xs where xs: "vec_data w = Some xs" "length xs = unat (vec_capacity w)"
    by (cases "vec_data w") (auto simp: vec_inv_def)
  have lt: "unat (vec_size w) < length xs" and suc: "unat (vec_size w + 1) = Suc (unat (vec_size w))"
    using w(4,5) xs assms(2) by (auto simp: word_less_unat unat_add_noof)
  then have "vec_size w + 1 \<le> vec_capacity w" using xs by (simp add: word_le_unat)
  with w xs lt suc show ?thesis
    by (auto simp: Vector_PushBack_def cell_set_def vec_inv_def vec_list_def take_Suc_conv_app_nth)
qed

lemma vec_inv_new [simp, intro]: "vec_inv Vector_new"
  by (simp add: vec_inv_def Vector_new_def)

lemma vec_list_new [simp]: "vec_list Vector_new = []"
  by (simp add: vec_list_def Vector_new_def)

lemma vec_size_unat: "vec_inv v \<Longrightarrow> length (vec_list v) = unat (vec_size v)"
  by (auto simp: vec_inv_def vec_list_def word_le_unat split: option.splits)

lemma Vector_at_ok:
  assumes "vec_inv v" and "unat i < length (vec_list v)"
  shows "Vector_at v i = Inr (vec_list v ! unat i)"
  using assms by (auto simp: Vector_at_def cell_get_def vec_list_def split: option.splits)

lemma Vector_PopBack_ok:
  assumes "vec_inv v" and "vec_list v = xs @ [x]"
  shows "\<exists>v'. Vector_PopBack v = Inr (x, v') \<and> vec_inv v' \<and> vec_list v' = xs"
proof -
  obtain ys where ys: "vec_data v = Some ys" using assms(2) by (auto simp: vec_list_def split: option.splits)
  have n: "unat (vec_size v) = Suc (length xs)" using vec_size_unat [OF assms(1)] assms(2) by simp
  then have m: "unat (vec_size v - 1) = length xs" by (simp add: unat_sub_le word_le_unat)
  have tk: "take (Suc (length xs)) ys = xs @ [x]" using assms(2) ys n by (simp add: vec_list_def)
  have len: "length xs < length ys"
    using arg_cong [OF tk, of length] by simp
  have "take (length xs) ys = xs" "ys ! length xs = x"
    using tk len by (auto simp: take_Suc_conv_app_nth)
  with ys m len assms(1) show ?thesis
    by (auto simp: Vector_PopBack_def cell_get_def vec_inv_def vec_list_def word_le_unat n)
qed

section \<open>The growing sequence interface\<close>

text \<open>
  What the clients of \<open>Vector\<close> rely on: a push at the back that cannot fail while there is
  room, and reads of the elements by position.
\<close>

fun push_each :: "('a \<Rightarrow> 's \<Rightarrow> 's run) \<Rightarrow> 'a list \<Rightarrow> 's \<Rightarrow> 's run" where
  "push_each push [] v = Inr v"
| "push_each push (x # xs) v = run_bind (push x v) (push_each push xs)"

locale growing_sequence =
  fixes items :: "'s \<Rightarrow> 'a list"
    and good :: "'s \<Rightarrow> bool"
    and limit :: nat
    and push :: "'a \<Rightarrow> 's \<Rightarrow> 's run"
    and get :: "'s \<Rightarrow> u64 \<Rightarrow> 'a run"
  assumes push_ok: "good v \<Longrightarrow> length (items v) < limit \<Longrightarrow>
      \<exists>v'. push x v = Inr v' \<and> good v' \<and> items v' = items v @ [x]"
    and get_ok: "good v \<Longrightarrow> unat i < length (items v) \<Longrightarrow> get v i = Inr (items v ! unat i)"
begin

lemma push_each_ok:
  "good v \<Longrightarrow> length (items v) + length xs \<le> limit \<Longrightarrow>
     \<exists>v'. push_each push xs v = Inr v' \<and> good v' \<and> items v' = items v @ xs"
proof (induction xs arbitrary: v)
  case (Cons x xs)
  then obtain w where "push x v = Inr w" "good w" "items w = items v @ [x]"
    using push_ok [of v x] by auto
  with Cons.IH [of w] Cons.prems show ?case by auto
qed simp

end

interpretation vec: growing_sequence vec_list vec_inv 9223372036854775808
    "Vector_PushBack d" Vector_at
proof
  fix v :: "'a Vector" and x :: 'a and i
  show "vec_inv v \<Longrightarrow> length (vec_list v) < 9223372036854775808 \<Longrightarrow>
      \<exists>v'. Vector_PushBack d x v = Inr v' \<and> vec_inv v' \<and> vec_list v' = vec_list v @ [x]"
    using Vector_PushBack_ok [of v d x] by (auto simp: vec_size_unat)
  show "vec_inv v \<Longrightarrow> unat i < length (vec_list v) \<Longrightarrow> Vector_at v i = Inr (vec_list v ! unat i)"
    by (rule Vector_at_ok)
qed

section \<open>Properties\<close>

text \<open>
  A vector is a sequence: pushing the items \<open>xs\<close> one after the other onto an empty vector,
  with every reallocation this causes, returns normally and keeps the representation
  invariant; afterwards position \<open>i\<close> reads \<open>xs ! i\<close>, \<open>size_\<close> is their number, a range-based
  for loop visits each position once in order, and \<open>PopBack\<close> gives the last item back.
\<close>

theorem Vector_is_sequence:
  assumes "xs \<noteq> []" and "length xs \<le> 9223372036854775808"
  shows "\<exists>v. push_each (Vector_PushBack d) xs Vector_new = Inr v \<and> vec_inv v \<and>
    vec_size v = of_nat (length xs) \<and>
    (\<forall>i < length xs. Vector_at v (of_nat i) = Inr (xs ! i)) \<and>
    iter_visits (Vector_begin v) = [0..<length xs] \<and>
    (\<exists>v'. Vector_PopBack v = Inr (last xs, v') \<and> vec_inv v' \<and> vec_list v' = butlast xs)"
proof -
  obtain v where v: "push_each (Vector_PushBack d) xs Vector_new = Inr v" "vec_inv v" "vec_list v = xs"
    using vec.push_each_ok [of Vector_new xs d] assms(2) by auto
  have size: "unat (vec_size v) = length xs" using vec_size_unat [OF v(2)] v(3) by simp
  then have "vec_size v = of_nat (length xs)" by (rule of_nat_unat_eq)
  moreover have "Vector_at v (of_nat i) = Inr (xs ! i)" if "i < length xs" for i
    using that v assms(2) Vector_at_ok [OF v(2), of "of_nat i"] by (simp add: unat_of_nat_u64)
  moreover have "iter_visits (Vector_begin v) = [0..<length xs]"
    using assms(1) size v(3) by (cases xs) (auto simp: Vector_visits vec_list_def split: option.splits)
  moreover have "\<exists>v'. Vector_PopBack v = Inr (last xs, v') \<and> vec_inv v' \<and> vec_list v' = butlast xs"
    using Vector_PopBack_ok [OF v(2), of "butlast xs" "last xs"] v(3) assms(1) by simp
  ultimately show ?thesis using v by blast
qed

theorem Vector_is_sequence_witness:
  "\<exists>v. push_each (Vector_PushBack 0) [5, 6, 7 :: nat] Vector_new = Inr v \<and> vec_inv v \<and>
    vec_size v = of_nat (length [5, 6, 7 :: nat]) \<and>
    (\<forall>i < length [5, 6, 7 :: nat]. Vector_at v (of_nat i) = Inr ([5, 6, 7] ! i)) \<and>
    iter_visits (Vector_begin v) = [0..<length [5, 6, 7 :: nat]] \<and>
    (\<exists>v'. Vector_PopBack v = Inr (last [5, 6, 7], v') \<and> vec_inv v' \<and>
      vec_list v' = butlast [5, 6, 7])"
  by (rule Vector_is_sequence) simp_all

text \<open>
  C26.  Exactly when a range-based for loop over a vector visits the positions below \<open>size_\<close>:
  the vector must have an element or own no allocation.  A vector that was popped empty, or an
  array allocated with size zero, has \<open>begin() \<noteq> end()\<close>, and the loop body runs once on a
  position that is not in use.
\<close>

theorem Vector_range_for_exact:
  assumes "vec_inv v"
  shows "iter_visits (Vector_begin v) = [0..<unat (vec_size v)] \<longleftrightarrow>
    vec_data v = None \<or> vec_size v \<noteq> 0"
  using assms
  by (auto simp: Vector_visits vec_inv_def max_def not_le simp flip: unat_gt_0)

theorem Vector_range_for_exact_witness:
  "iter_visits (Vector_begin \<lparr>vec_data = Some [7 :: nat], vec_size = 0, vec_capacity = 1\<rparr>) \<noteq> []"
  using Vector_range_for_exact [of "\<lparr>vec_data = Some [7 :: nat], vec_size = 0, vec_capacity = 1\<rparr>"]
  by (simp add: vec_inv_def)

end
