(* ===== verification/Glcr_HashMap.thy ===== *)
theory Glcr_HashMap
  imports Glcr_Status Glcr_LinkedList Glcr_Array
begin

text \<open>
  The hash map \<open>glcr::HashMap\<close> (\<open>lib/glacier/container/hash_map.h\<close>) over an array of linked
  lists, and the hash of 64-bit keys (\<open>lib/glacier/util/hash.cpp\<close>).  The hash function is an
  argument of every operation, as in the template; \<open>d\<close> is what the value type's default
  constructor makes.

  \<open>hm_lookup\<close> abstracts a map state to a HOL map.  The interface \<open>hash_table\<close> states what the
  kernel's tables rely on; the hash map is an interpretation of it, for any hash function.
\<close>

section \<open>Hashing 64-bit keys\<close>

definition kFnvOffset :: u64 where
  "kFnvOffset = 0xcbf29ce484222325"

definition kFnvPrime :: u64 where
  "kFnvPrime = 0x100000001b3"

definition Hash_u64 :: "u64 \<Rightarrow> u64" where
  "Hash_u64 value =
     fold (\<lambda>i hash. (hash * kFnvPrime) XOR (drop_bit (8 * i) value AND 0xFF)) [0..<8] kFnvOffset"

section \<open>The map\<close>

type_synonym ('k, 'v) buckets = "('k \<times> 'v) LinkedList Array"

record ('k, 'v) HashMap =
  hm_data :: "('k, 'v) buckets"
  hm_size :: u64

definition HashMap_new :: "('k, 'v) HashMap" where
  "HashMap_new = \<lparr>hm_data = Array_empty_new, hm_size = 0\<rparr>"

definition HashMap_load :: "('k, 'v) HashMap \<Rightarrow> u64" where
  "HashMap_load m =
     (if arr_size (hm_data m) = 0 then 100 else hm_size m * 100 div arr_size (hm_data m))"

text \<open>\<open>data_[hc % data_.size()]\<close>: the position and the list of a key.\<close>

definition hm_slot :: "('k \<Rightarrow> u64) \<Rightarrow> 'k \<Rightarrow> ('k, 'v) buckets \<Rightarrow> (u64 \<times> ('k \<times> 'v) LinkedList) run" where
  "hm_slot H key data =
     (if arr_size data = 0 then Inl DivByZero
      else let i = H key mod arr_size data in run_map (Pair i) (Array_at data i))"

text \<open>
  \<open>at\<close> constructs and inserts a value when the key is absent, without counting it in
  \<open>size_\<close>.
\<close>

definition HashMap_at ::
    "('k \<Rightarrow> u64) \<Rightarrow> 'v \<Rightarrow> 'k \<Rightarrow> ('k, 'v) HashMap \<Rightarrow> ('v \<times> ('k, 'v) HashMap) run" where
  "HashMap_at H d key m =
     run_bind (hm_slot H key (hm_data m)) (\<lambda>(i, ll).
     case map_of (ll_front ll) key of
       Some v \<Rightarrow> Inr (v, m)
     | None \<Rightarrow>
         let ll = LinkedList_PushFront (key, d) ll
         in run_bind (Array_set (hm_data m) i ll) (\<lambda>data.
            run_map (\<lambda>p. (snd p, m\<lparr>hm_data := data\<rparr>)) (LinkedList_PeekFront ll)))"

definition HashMap_Contains :: "('k \<Rightarrow> u64) \<Rightarrow> 'k \<Rightarrow> ('k, 'v) HashMap \<Rightarrow> bool run" where
  "HashMap_Contains H key m =
     (if arr_size (hm_data m) = 0 then Inr False
      else run_map (\<lambda>(_, ll). map_of (ll_front ll) key \<noteq> None) (hm_slot H key (hm_data m)))"

text \<open>The inner loop of \<open>Resize\<close>: it empties one list into the new array.\<close>

function rehash_list ::
    "('k \<Rightarrow> u64) \<Rightarrow> u64 \<Rightarrow> ('k \<times> 'v) LinkedList \<Rightarrow> ('k, 'v) buckets \<Rightarrow> ('k, 'v) buckets run" where
  "rehash_list H new_size ll new_data =
     (if LinkedList_empty ll then Inr new_data
      else run_bind (LinkedList_PopFront ll) (\<lambda>(pair, ll').
           if new_size = 0 then Inl DivByZero
           else let i = H (fst pair) mod new_size in
                run_bind (Array_at new_data i) (\<lambda>b.
                run_bind (Array_set new_data i (LinkedList_PushFront pair b)) (\<lambda>new_data.
                rehash_list H new_size ll' new_data))))"
  by auto

termination
  by (relation "measure (\<lambda>(_, _, ll, _). length (ll_front ll))")
     (auto simp: LinkedList_PopFront_Inr)

declare rehash_list.simps [simp del]

text \<open>The outer loop visits the lists the array's iterator visits.\<close>

fun rehash_all ::
    "('k \<Rightarrow> u64) \<Rightarrow> u64 \<Rightarrow> nat list \<Rightarrow> ('k, 'v) buckets \<Rightarrow> ('k, 'v) buckets \<Rightarrow> ('k, 'v) buckets run" where
  "rehash_all H new_size [] data new_data = Inr new_data"
| "rehash_all H new_size (i # is) data new_data =
     run_bind (Array_at data (of_nat i)) (\<lambda>ll.
     run_bind (rehash_list H new_size ll new_data) (rehash_all H new_size is data))"

definition HashMap_Resize ::
    "('k \<Rightarrow> u64) \<Rightarrow> u64 \<Rightarrow> ('k, 'v) HashMap \<Rightarrow> ('k, 'v) HashMap run" where
  "HashMap_Resize H new_size m =
     run_map (\<lambda>data. m\<lparr>hm_data := data\<rparr>)
       (rehash_all H new_size (iter_visits (Array_begin (hm_data m))) (hm_data m)
          (Array_new LinkedList_new new_size))"

definition HashMap_ResizeIfNecessary ::
    "('k \<Rightarrow> u64) \<Rightarrow> ('k, 'v) HashMap \<Rightarrow> ('k, 'v) HashMap run" where
  "HashMap_ResizeIfNecessary H m =
     (if arr_size (hm_data m) = 0 then HashMap_Resize H 8 m
      else if HashMap_load m > 75 then HashMap_Resize H (arr_size (hm_data m) * 2) m
      else Inr m)"

definition HashMap_Insert ::
    "('k \<Rightarrow> u64) \<Rightarrow> 'k \<Rightarrow> 'v \<Rightarrow> ('k, 'v) HashMap \<Rightarrow> (ErrorCode \<times> ('k, 'v) HashMap) run" where
  "HashMap_Insert H key value m =
     run_bind (HashMap_ResizeIfNecessary H m) (\<lambda>m.
     run_bind (hm_slot H key (hm_data m)) (\<lambda>(i, ll).
     if map_of (ll_front ll) key \<noteq> None then Inr (ALREADY_EXISTS, m)
     else run_map (\<lambda>data. (OK, m\<lparr>hm_data := data, hm_size := hm_size m + 1\<rparr>))
            (Array_set (hm_data m) i (LinkedList_PushFront (key, value) ll))))"

text \<open>The assignment to the first pair with the key, in place.\<close>

fun assign_first :: "'k \<Rightarrow> 'v \<Rightarrow> ('k \<times> 'v) list \<Rightarrow> ('k \<times> 'v) list" where
  "assign_first key value [] = []"
| "assign_first key value (p # ps) =
     (if fst p = key then (fst p, value) # ps else p # assign_first key value ps)"

definition HashMap_Update ::
    "('k \<Rightarrow> u64) \<Rightarrow> 'k \<Rightarrow> 'v \<Rightarrow> ('k, 'v) HashMap \<Rightarrow> (ErrorCode \<times> ('k, 'v) HashMap) run" where
  "HashMap_Update H key value m =
     run_bind (HashMap_ResizeIfNecessary H m) (\<lambda>m.
     run_bind (hm_slot H key (hm_data m)) (\<lambda>(i, ll).
     if map_of (ll_front ll) key = None then Inr (NOT_FOUND, m)
     else run_map (\<lambda>data. (OK, m\<lparr>hm_data := data\<rparr>))
            (Array_set (hm_data m) i (ll\<lparr>ll_front := assign_first key value (ll_front ll)\<rparr>))))"

definition HashMap_Delete ::
    "('k \<Rightarrow> u64) \<Rightarrow> 'k \<Rightarrow> ('k, 'v) HashMap \<Rightarrow> (ErrorCode \<times> ('k, 'v) HashMap) run" where
  "HashMap_Delete H key m =
     run_bind (hm_slot H key (hm_data m)) (\<lambda>(i, ll).
     case map_of (ll_front ll) key of
       None \<Rightarrow> Inr (NOT_FOUND, m)
     | Some v \<Rightarrow>
         run_bind (LinkedList_Remove (key, v) ll) (\<lambda>ll.
         run_map (\<lambda>data. (OK, m\<lparr>hm_data := data, hm_size := hm_size m - 1\<rparr>))
           (Array_set (hm_data m) i ll)))"

section \<open>Representation\<close>

text \<open>\<open>wf_buckets H n cs\<close>: the lists \<open>cs\<close> of an array of size \<open>n\<close> hold each key once, in its slot.\<close>

definition key_slot :: "('k \<Rightarrow> u64) \<Rightarrow> u64 \<Rightarrow> 'k \<Rightarrow> nat" where
  "key_slot H n k = unat (H k mod n)"

definition wf_buckets :: "('k \<Rightarrow> u64) \<Rightarrow> u64 \<Rightarrow> ('k \<times> 'v) LinkedList list \<Rightarrow> bool" where
  "wf_buckets H n cs \<longleftrightarrow> n \<noteq> 0 \<and> length cs = unat n \<and> (\<forall>c \<in> set cs. ll_inv c) \<and>
     chained (key_slot H n) 0 (map ll_front cs)"

definition bucket_lookup :: "('k \<Rightarrow> u64) \<Rightarrow> u64 \<Rightarrow> ('k \<times> 'v) LinkedList list \<Rightarrow> 'k \<rightharpoonup> 'v" where
  "bucket_lookup H n cs k = map_of (ll_front (cs ! key_slot H n k)) k"

definition bucket_pairs :: "('k \<times> 'v) LinkedList list \<Rightarrow> ('k \<times> 'v) list" where
  "bucket_pairs cs = concat (map ll_front cs)"

definition hm_lookup :: "('k \<Rightarrow> u64) \<Rightarrow> ('k, 'v) HashMap \<Rightarrow> 'k \<rightharpoonup> 'v" where
  "hm_lookup H m k = (case arr_data (hm_data m) of
      None \<Rightarrow> None | Some cs \<Rightarrow> bucket_lookup H (arr_size (hm_data m)) cs k)"

text \<open>
  Below \<open>hm_limit\<close> pairs neither the load \<open>size_ * 100\<close> nor the doubled array size overflows.
\<close>

definition hm_limit :: nat where
  "hm_limit = 144115188075855872"

text \<open>
  \<open>hm_inv H n m\<close>: the map is well formed, \<open>size_\<close> counts its pairs, and since its creation it
  has held at most \<open>n\<close> pairs, so that its array cannot have grown beyond \<open>8 + 3 * n\<close> slots.
\<close>

definition hm_inv :: "('k \<Rightarrow> u64) \<Rightarrow> nat \<Rightarrow> ('k, 'v) HashMap \<Rightarrow> bool" where
  "hm_inv H n m \<longleftrightarrow> (case arr_data (hm_data m) of
      None \<Rightarrow> arr_size (hm_data m) = 0 \<and> hm_size m = 0
    | Some cs \<Rightarrow> wf_buckets H (arr_size (hm_data m)) cs \<and> hm_size m = of_nat (length (bucket_pairs cs)) \<and>
        length (bucket_pairs cs) \<le> n \<and> length cs \<le> 8 + 3 * n)"

lemma key_slot_less: "n \<noteq> 0 \<Longrightarrow> key_slot H n k < unat n"
  by (simp add: key_slot_def unat_mod unat_gt_0)

lemma wf_slot_less: "wf_buckets H n cs \<Longrightarrow> key_slot H n k < length cs"
  by (simp add: wf_buckets_def key_slot_less)

lemma wf_bucket_inv: "wf_buckets H n cs \<Longrightarrow> ll_inv (cs ! key_slot H n k)"
  using wf_slot_less [of H n cs k] by (simp add: wf_buckets_def)

lemma wf_bucket_distinct:
  "wf_buckets H n cs \<Longrightarrow> distinct (map fst (ll_front (cs ! key_slot H n k)))"
  using wf_slot_less [of H n cs k] by (simp add: wf_buckets_def chained_def)

lemma wf_bucket_keys:
  assumes "wf_buckets H n cs" and "k' \<in> fst ` set (ll_front (cs ! key_slot H n k))"
  shows "key_slot H n k' = key_slot H n k"
  using assms chainedD [of "key_slot H n" 0 "map ll_front cs" "key_slot H n k" k']
    wf_slot_less [OF assms(1), of k]
  by (simp add: wf_buckets_def)

lemma bucket_lookup_map_of:
  "wf_buckets H n cs \<Longrightarrow> map_of (bucket_pairs cs) = bucket_lookup H n cs"
proof
  fix k
  assume wf: "wf_buckets H n cs"
  then have "map_of (concat (map ll_front cs)) k = map_of (map ll_front cs ! key_slot H n k) k"
    using wf_slot_less [OF wf, of k]
    by (intro chained_map_of [of "key_slot H n" 0]) (simp_all add: wf_buckets_def)
  with wf_slot_less [OF wf, of k] show "map_of (bucket_pairs cs) k = bucket_lookup H n cs k"
    by (simp add: bucket_lookup_def bucket_pairs_def)
qed

lemma bucket_pairs_distinct: "wf_buckets H n cs \<Longrightarrow> distinct (map fst (bucket_pairs cs))"
  using chained_distinct by (auto simp: wf_buckets_def bucket_pairs_def)

lemma length_bucket_le: "c \<in> set cs \<Longrightarrow> length (ll_front c) \<le> length (bucket_pairs cs)"
  by (auto simp: bucket_pairs_def length_concat intro: member_le_sum_list)

text \<open>Replacing the list of one slot.\<close>

lemma wf_buckets_update:
  assumes "wf_buckets H n cs" and "ll_inv c" and "distinct (map fst (ll_front c))"
    and "\<forall>k' \<in> fst ` set (ll_front c). key_slot H n k' = key_slot H n k"
  shows "wf_buckets H n (cs[key_slot H n k := c])"
  using assms chained_update [of "key_slot H n" 0 "map ll_front cs" "ll_front c" "key_slot H n k"]
    set_update_subset_insert [of cs "key_slot H n k" c]
  by (auto simp: wf_buckets_def map_update)

lemma bucket_lookup_update:
  assumes "wf_buckets H n cs"
  shows "bucket_lookup H n (cs[key_slot H n k := c]) k' =
    (if key_slot H n k' = key_slot H n k then map_of (ll_front c) k' else bucket_lookup H n cs k')"
  using wf_slot_less [OF assms, of k] by (simp add: bucket_lookup_def)

lemma length_bucket_pairs_update:
  assumes "wf_buckets H n cs"
  shows "length (bucket_pairs (cs[key_slot H n k := c])) + length (ll_front (cs ! key_slot H n k)) =
    length (bucket_pairs cs) + length (ll_front c)"
  using wf_slot_less [OF assms, of k]
    length_concat_update [of "key_slot H n k" "map ll_front cs" "ll_front c"]
  by (simp add: bucket_pairs_def map_update)

lemma wf_push:
  fixes v :: 'v
  assumes "wf_buckets H n cs" and "bucket_lookup H n cs k = None"
  defines "cs' \<equiv> cs[key_slot H n k := LinkedList_PushFront (k, v) (cs ! key_slot H n k)]"
  shows "wf_buckets H n cs'" and "bucket_lookup H n cs' = (bucket_lookup H n cs)(k \<mapsto> v)"
    and "length (bucket_pairs cs') = Suc (length (bucket_pairs cs))" and "length cs' = length cs"
proof -
  let ?c = "cs ! key_slot H n k"
  have "k \<notin> fst ` set (ll_front ?c)"
    using assms(2) by (simp add: bucket_lookup_def map_of_eq_None_iff)
  then have "distinct (map fst (ll_front (LinkedList_PushFront (k, v) ?c)))"
    using wf_bucket_distinct [OF assms(1), of k] by simp
  moreover have "key_slot H n k' = key_slot H n k"
    if "k' \<in> fst ` set (ll_front (LinkedList_PushFront (k, v) ?c))" for k'
    using that wf_bucket_keys [OF assms(1), of k' k] by auto
  ultimately show "wf_buckets H n cs'"
    unfolding cs'_def by (intro wf_buckets_update assms(1) ll_inv_PushFront wf_bucket_inv) blast+
  show "bucket_lookup H n cs' = (bucket_lookup H n cs)(k \<mapsto> v)"
    unfolding cs'_def
    by (rule ext) (simp add: bucket_lookup_update [OF assms(1)], simp add: bucket_lookup_def)
  show "length (bucket_pairs cs') = Suc (length (bucket_pairs cs))"
    using length_bucket_pairs_update [OF assms(1), of k "LinkedList_PushFront (k, v) ?c"]
    unfolding cs'_def by simp
  show "length cs' = length cs" by (simp add: cs'_def)
qed

section \<open>Rehashing\<close>

lemma rehash_step:
  assumes "ll_inv ll" and "length (ll_front ll) < 18446744073709551616"
  shows "rehash_list H n ll \<lparr>arr_data = Some cs, arr_size = s\<rparr> =
    (case ll_front ll of
       [] \<Rightarrow> Inr \<lparr>arr_data = Some cs, arr_size = s\<rparr>
     | p # ps \<Rightarrow>
         if n = 0 then Inl DivByZero
         else if key_slot H n (fst p) < length cs
         then rehash_list H n (ll\<lparr>ll_size := ll_size ll - 1, ll_front := ps\<rparr>)
                \<lparr>arr_data = Some (cs[key_slot H n (fst p) :=
                   LinkedList_PushFront p (cs ! key_slot H n (fst p))]), arr_size = s\<rparr>
         else Inl OutOfBounds)"
  using LinkedList_empty_iff [OF assms]
  by (subst rehash_list.simps)
     (auto simp: LinkedList_PopFront_def Array_at_def cell_get_def Array_set_def cell_set_def
       key_slot_def Let_def split: list.splits)

lemma rehash_list_ok:
  assumes "wf_buckets H n cs" and "ll_inv ll" and "length (ll_front ll) < 18446744073709551616"
    and "distinct (map fst (ll_front ll))"
    and "\<And>k. k \<in> fst ` set (ll_front ll) \<Longrightarrow> bucket_lookup H n cs k = None"
  shows "\<exists>cs'. rehash_list H n ll \<lparr>arr_data = Some cs, arr_size = n\<rparr> =
        Inr \<lparr>arr_data = Some cs', arr_size = n\<rparr> \<and>
      wf_buckets H n cs' \<and> bucket_lookup H n cs' = bucket_lookup H n cs ++ map_of (ll_front ll) \<and>
      length (bucket_pairs cs') = length (bucket_pairs cs) + length (ll_front ll)"
  using assms
proof (induction "ll_front ll" arbitrary: ll cs)
  case Nil
  then show ?case by (subst rehash_step) auto
next
  case (Cons p ps)
  obtain k v where p: "p = (k, v)" by force
  let ?cs = "cs[key_slot H n k := LinkedList_PushFront (k, v) (cs ! key_slot H n k)]"
  let ?ll = "ll\<lparr>ll_size := ll_size ll - 1, ll_front := ps\<rparr>"
  note ll = Cons.hyps(2) [symmetric]
  have none: "bucket_lookup H n cs k = None" using Cons.prems(5) ll p by simp
  note push = wf_push [OF Cons.prems(1) none, of v]
  have n: "n \<noteq> 0" using Cons.prems(1) by (simp add: wf_buckets_def)
  have step: "rehash_list H n ll \<lparr>arr_data = Some cs, arr_size = n\<rparr> =
      rehash_list H n ?ll \<lparr>arr_data = Some ?cs, arr_size = n\<rparr>"
    using rehash_step [OF Cons.prems(2,3), of H n cs n] wf_slot_less [OF Cons.prems(1), of k] ll p n
    by simp
  have "ll_inv ?ll" using Cons.prems(2) ll by (auto simp: ll_inv_def)
  moreover have "bucket_lookup H n ?cs k' = None" if "k' \<in> fst ` set ps" for k'
    using that Cons.prems(4,5) ll p by (auto simp: push(2))
  ultimately obtain cs' where "rehash_list H n ?ll \<lparr>arr_data = Some ?cs, arr_size = n\<rparr> =
      Inr \<lparr>arr_data = Some cs', arr_size = n\<rparr>" "wf_buckets H n cs'"
      "bucket_lookup H n cs' = bucket_lookup H n ?cs ++ map_of ps"
      "length (bucket_pairs cs') = length (bucket_pairs ?cs) + length ps"
    using Cons.hyps(1) [of ?ll ?cs] Cons.prems(3,4) push(1) ll by auto
  moreover have "k \<notin> dom (map_of ps)"
    using Cons.prems(4) ll p by (simp add: dom_map_of_conv_image_fst)
  ultimately show ?case
    using step push(2,3) ll p by (auto simp: map_add_upd_left map_add_upd)
qed

lemma rehash_all_ok:
  assumes "wf_buckets H n cs" and "\<forall>i \<in> set is. i < length bs" and "\<forall>b \<in> set bs. ll_inv b"
    and "length bs < 18446744073709551616" and "length (bucket_pairs bs) < 18446744073709551616"
    and "distinct (map fst (bucket_pairs (map ((!) bs) is)))"
    and "\<And>k. k \<in> fst ` set (bucket_pairs (map ((!) bs) is)) \<Longrightarrow> bucket_lookup H n cs k = None"
  shows "\<exists>cs'. rehash_all H n is \<lparr>arr_data = Some bs, arr_size = s\<rparr> \<lparr>arr_data = Some cs, arr_size = n\<rparr> =
        Inr \<lparr>arr_data = Some cs', arr_size = n\<rparr> \<and> wf_buckets H n cs' \<and>
      bucket_lookup H n cs' = bucket_lookup H n cs ++ map_of (bucket_pairs (map ((!) bs) is)) \<and>
      length (bucket_pairs cs') = length (bucket_pairs cs) + length (bucket_pairs (map ((!) bs) is))"
  using assms
proof (induction "is" arbitrary: cs)
  case Nil
  then show ?case by (simp add: bucket_pairs_def)
next
  case (Cons i "is")
  let ?b = "bs ! i"
  have b: "?b \<in> set bs" "ll_inv ?b" "i < length bs" using Cons.prems(2,3) by auto
  have len: "length (ll_front ?b) < 18446744073709551616"
    using length_bucket_le [OF b(1)] Cons.prems(5) by linarith
  have keys: "distinct (map fst (ll_front ?b))"
      "distinct (map fst (bucket_pairs (map ((!) bs) is)))"
      "fst ` set (ll_front ?b) \<inter> fst ` set (bucket_pairs (map ((!) bs) is)) = {}"
    using Cons.prems(6) by (auto simp: bucket_pairs_def)
  have none: "bucket_lookup H n cs k = None"
    if "k \<in> fst ` set (ll_front ?b) \<union> fst ` set (bucket_pairs (map ((!) bs) is))" for k
    using that Cons.prems(7) by (auto simp: bucket_pairs_def)
  have get: "Array_at \<lparr>arr_data = Some bs, arr_size = s\<rparr> (of_nat i) = Inr ?b"
    using b Cons.prems(4) by (simp add: Array_at_def cell_get_def unat_of_nat_u64)
  obtain cs1 where cs1: "rehash_list H n ?b \<lparr>arr_data = Some cs, arr_size = n\<rparr> =
      Inr \<lparr>arr_data = Some cs1, arr_size = n\<rparr>" "wf_buckets H n cs1"
      "bucket_lookup H n cs1 = bucket_lookup H n cs ++ map_of (ll_front ?b)"
      "length (bucket_pairs cs1) = length (bucket_pairs cs) + length (ll_front ?b)"
    using rehash_list_ok [OF Cons.prems(1) b(2) len keys(1) none [OF UnI1]] by auto
  have none1: "bucket_lookup H n cs1 k = None" if "k \<in> fst ` set (bucket_pairs (map ((!) bs) is))" for k
  proof -
    have "map_of (ll_front ?b) k = None" using that keys(3) by (auto simp: map_of_eq_None_iff)
    with none that show ?thesis by (simp add: cs1(3) map_add_def)
  qed
  have lt: "\<forall>j \<in> set is. j < length bs" using Cons.prems(2) by simp
  obtain cs' where cs': "rehash_all H n is \<lparr>arr_data = Some bs, arr_size = s\<rparr>
      \<lparr>arr_data = Some cs1, arr_size = n\<rparr> = Inr \<lparr>arr_data = Some cs', arr_size = n\<rparr>"
      "wf_buckets H n cs'"
      "bucket_lookup H n cs' = bucket_lookup H n cs1 ++ map_of (bucket_pairs (map ((!) bs) is))"
      "length (bucket_pairs cs') = length (bucket_pairs cs1) + length (bucket_pairs (map ((!) bs) is))"
    using Cons.IH [OF cs1(2) lt Cons.prems(3-5) keys(2) none1] by auto
  have "map_of (ll_front ?b) ++ map_of (bucket_pairs (map ((!) bs) is)) =
      map_of (bucket_pairs (map ((!) bs) is)) ++ map_of (ll_front ?b)"
    using keys(3) by (intro map_add_comm) (simp add: dom_map_of_conv_image_fst)
  with cs1 cs' get show ?case by (simp add: bucket_pairs_def flip: map_add_assoc)
qed

lemma wf_buckets_replicate:
  "n \<noteq> 0 \<Longrightarrow> wf_buckets H n (replicate (unat n) LinkedList_new)"
  by (simp add: wf_buckets_def chained_def)

lemma replicate_new [simp]:
  "n \<noteq> 0 \<Longrightarrow> bucket_lookup H n (replicate (unat n) LinkedList_new) = Map.empty"
  "bucket_pairs (replicate j LinkedList_new) = []"
  by (auto simp: fun_eq_iff bucket_lookup_def key_slot_less bucket_pairs_def)

lemma Array_visits:
  assumes "arr_data a = Some bs" and "length bs = unat (arr_size a)" and "arr_size a \<noteq> 0"
  shows "iter_visits (Array_begin a) = [0..<length bs]"
proof -
  have "max 1 (unat (arr_size a)) = unat (arr_size a)"
    using assms(3) by (simp add: max_def flip: unat_gt_0)
  with assms show ?thesis by (simp add: Array_begin_def iter_visits_from)
qed

lemma HashMap_Resize_ok:
  assumes "hm_inv H n m" and "n < hm_limit" and "new_size \<noteq> 0"
  shows "\<exists>cs. HashMap_Resize H new_size m =
      Inr (m\<lparr>hm_data := \<lparr>arr_data = Some cs, arr_size = new_size\<rparr>\<rparr>) \<and>
    wf_buckets H new_size cs \<and> bucket_lookup H new_size cs = hm_lookup H m \<and>
    hm_size m = of_nat (length (bucket_pairs cs)) \<and> length (bucket_pairs cs) \<le> n"
proof (cases "arr_data (hm_data m)")
  case None
  then show ?thesis
    using assms
    by (auto simp: HashMap_Resize_def Array_new_def Array_begin_def hm_inv_def hm_lookup_def fun_eq_iff
        intro!: exI [of _ "replicate (unat new_size) LinkedList_new"] wf_buckets_replicate)
next
  case (Some bs)
  let ?s = "arr_size (hm_data m)"
  let ?new = "replicate (unat new_size) LinkedList_new :: ('a \<times> 'b) LinkedList list"
  have bs: "wf_buckets H ?s bs" "hm_size m = of_nat (length (bucket_pairs bs))"
      "length (bucket_pairs bs) \<le> n" "length bs \<le> 8 + 3 * n"
    using assms(1) Some by (auto simp: hm_inv_def)
  have data: "hm_data m = \<lparr>arr_data = Some bs, arr_size = ?s\<rparr>" using Some by simp
  have "iter_visits (Array_begin (hm_data m)) = [0..<length bs]"
    using bs(1) Some by (intro Array_visits) (auto simp: wf_buckets_def)
  moreover obtain cs where "rehash_all H new_size [0..<length bs] (hm_data m)
      \<lparr>arr_data = Some ?new, arr_size = new_size\<rparr> = Inr \<lparr>arr_data = Some cs, arr_size = new_size\<rparr>"
      "wf_buckets H new_size cs"
      "bucket_lookup H new_size cs = map_of (bucket_pairs bs)"
      "length (bucket_pairs cs) = length (bucket_pairs bs)"
    using rehash_all_ok [OF wf_buckets_replicate [OF assms(3)], of "[0..<length bs]" bs H ?s]
      bs assms(2,3) bucket_pairs_distinct [OF bs(1)] data
    by (auto simp: map_nth wf_buckets_def hm_limit_def)
  ultimately show ?thesis
    using Some bs bucket_lookup_map_of [OF bs(1)]
    by (auto simp: HashMap_Resize_def Array_new_def hm_lookup_def fun_eq_iff)
qed

section \<open>The operations on the abstract map\<close>

text \<open>An array is allocated: the state after any insertion.\<close>

definition hm_used :: "('k, 'v) HashMap \<Rightarrow> bool" where
  "hm_used m \<longleftrightarrow> arr_data (hm_data m) \<noteq> None"

lemma hm_slot_ok:
  assumes "wf_buckets H s cs"
  shows "hm_slot H k \<lparr>arr_data = Some cs, arr_size = s\<rparr> =
    Inr (H k mod s, cs ! key_slot H s k)"
  using wf_slot_less [OF assms, of k] assms
  by (simp add: hm_slot_def Array_at_def cell_get_def key_slot_def wf_buckets_def Let_def)

lemma slot_set_ok:
  assumes "wf_buckets H s cs"
  shows "Array_set \<lparr>arr_data = Some cs, arr_size = s\<rparr> (H k mod s) c =
    Inr \<lparr>arr_data = Some (cs[key_slot H s k := c]), arr_size = s\<rparr>"
  using wf_slot_less [OF assms, of k]
  by (simp add: Array_set_def cell_set_def key_slot_def)

lemma hm_invE:
  assumes "hm_inv H n m"
  obtains "arr_data (hm_data m) = None" "arr_size (hm_data m) = 0" "hm_size m = 0"
      "hm_lookup H m = Map.empty" "\<not> hm_used m"
    | cs s where "hm_data m = \<lparr>arr_data = Some cs, arr_size = s\<rparr>" "wf_buckets H s cs" "s \<noteq> 0"
      "hm_size m = of_nat (length (bucket_pairs cs))" "length (bucket_pairs cs) \<le> n"
      "length cs \<le> 8 + 3 * n" "hm_lookup H m = bucket_lookup H s cs" "hm_used m"
proof (cases "arr_data (hm_data m)")
  case None
  with assms that(1) show ?thesis by (auto simp: hm_inv_def hm_lookup_def hm_used_def fun_eq_iff)
next
  case (Some cs)
  with assms that(2) [of cs "arr_size (hm_data m)"] show ?thesis
    by (auto simp: hm_inv_def hm_lookup_def hm_used_def fun_eq_iff wf_buckets_def)
qed

lemma hm_inv_new [simp, intro]: "hm_inv H n HashMap_new"
  by (simp add: hm_inv_def HashMap_new_def Array_empty_new_def)

lemma hm_lookup_new [simp]: "hm_lookup H HashMap_new = Map.empty"
  by (simp add: fun_eq_iff hm_lookup_def HashMap_new_def Array_empty_new_def)

lemma load_grow:
  assumes "wf_buckets H s cs" and "sz = of_nat (length (bucket_pairs cs))"
    and "length (bucket_pairs cs) \<le> n" and "n < hm_limit" and "sz * 100 div s > 75"
  shows "2 * length cs \<le> 3 * n" and "unat (s * 2) = 2 * length cs"
proof -
  let ?p = "length (bucket_pairs cs)"
  have len: "length cs = unat s" using assms(1) by (simp add: wf_buckets_def)
  have p: "?p < 144115188075855872" using assms(3,4) by (simp add: hm_limit_def)
  then have "unat (sz * 100) = ?p * 100"
    using assms(2) by (simp add: unat_word_ariths unat_of_nat_u64)
  then have "75 < ?p * 100 div unat s"
    using assms(5) by (simp add: word_less_unat unat_div)
  then have "76 * unat s \<le> ?p * 100"
    using div_times_less_eq_dividend [of "?p * 100" "unat s"] mult_le_mono1 [of 76 "?p * 100 div unat s" "unat s"]
    by linarith
  then show two: "2 * length cs \<le> 3 * n" using len assms(3) by linarith
  then show "unat (s * 2) = 2 * length cs"
    using len assms(4) by (simp add: unat_word_ariths hm_limit_def)
qed

lemma ResizeIfNecessary_ok:
  assumes "hm_inv H n m" and "n < hm_limit"
  shows "\<exists>m' cs s. HashMap_ResizeIfNecessary H m = Inr m' \<and> hm_inv H n m' \<and>
    hm_lookup H m' = hm_lookup H m \<and> hm_data m' = \<lparr>arr_data = Some cs, arr_size = s\<rparr>"
  using assms(1)
proof (cases rule: hm_invE)
  case 1
  from HashMap_Resize_ok [OF assms, of 8] obtain cs where
    cs: "HashMap_Resize H 8 m = Inr (m\<lparr>hm_data := \<lparr>arr_data = Some cs, arr_size = 8\<rparr>\<rparr>)"
      "wf_buckets H 8 cs" "bucket_lookup H 8 cs = hm_lookup H m"
      "hm_size m = of_nat (length (bucket_pairs cs))" "length (bucket_pairs cs) \<le> n"
    by auto
  with 1 show ?thesis
    by (auto simp: HashMap_ResizeIfNecessary_def hm_inv_def hm_lookup_def fun_eq_iff wf_buckets_def)
next
  case (2 cs s)
  show ?thesis
  proof (cases "hm_size m * 100 div s > 75")
    case False
    with 2 assms(1) show ?thesis
      by (auto simp: HashMap_ResizeIfNecessary_def HashMap_load_def)
  next
    case True
    note grow = load_grow [OF 2(2,4,5) assms(2) True]
    have "s * 2 \<noteq> 0" using grow(2) 2(2,3) by (auto simp: wf_buckets_def unat_eq_zero)
    from HashMap_Resize_ok [OF assms this] obtain ds where
      ds: "HashMap_Resize H (s * 2) m = Inr (m\<lparr>hm_data := \<lparr>arr_data = Some ds, arr_size = s * 2\<rparr>\<rparr>)"
        "wf_buckets H (s * 2) ds" "bucket_lookup H (s * 2) ds = hm_lookup H m"
        "hm_size m = of_nat (length (bucket_pairs ds))" "length (bucket_pairs ds) \<le> n"
      by auto
    moreover have "length ds \<le> 8 + 3 * n" using ds(2) grow by (simp add: wf_buckets_def)
    ultimately show ?thesis
      using 2 True
      by (auto simp: HashMap_ResizeIfNecessary_def HashMap_load_def hm_inv_def hm_lookup_def fun_eq_iff)
  qed
qed

lemma HashMap_Contains_ok:
  assumes "hm_inv H n m"
  shows "HashMap_Contains H k m = Inr (hm_lookup H m k \<noteq> None)"
  using assms
  by (cases rule: hm_invE) (auto simp: HashMap_Contains_def hm_slot_ok bucket_lookup_def)

lemma HashMap_at_ok:
  assumes "hm_inv H n m" and "hm_lookup H m k = Some v"
  shows "HashMap_at H d k m = Inr (v, m)"
  using assms(1)
proof (cases rule: hm_invE)
  case (2 cs s)
  with assms(2) show ?thesis by (simp add: HashMap_at_def hm_slot_ok bucket_lookup_def)
qed (use assms(2) in simp)

lemma HashMap_Insert_fresh:
  assumes "hm_inv H n m" and "n < hm_limit" and "hm_lookup H m k = None"
  shows "\<exists>m'. HashMap_Insert H k v m = Inr (OK, m') \<and> hm_inv H (Suc n) m' \<and>
    hm_lookup H m' = (hm_lookup H m)(k \<mapsto> v) \<and> hm_used m'"
proof -
  obtain w cs s where w: "HashMap_ResizeIfNecessary H m = Inr w" "hm_inv H n w"
      "hm_lookup H w = hm_lookup H m" "hm_data w = \<lparr>arr_data = Some cs, arr_size = s\<rparr>"
    using ResizeIfNecessary_ok [OF assms(1,2)] by auto
  then have cs: "wf_buckets H s cs" "hm_size w = of_nat (length (bucket_pairs cs))"
      "length (bucket_pairs cs) \<le> n" "length cs \<le> 8 + 3 * n" "bucket_lookup H s cs = hm_lookup H m"
    by (auto simp: hm_inv_def hm_lookup_def fun_eq_iff)
  have none: "bucket_lookup H s cs k = None" using cs(5) assms(3) by simp
  then have "map_of (ll_front (cs ! key_slot H s k)) k = None" by (simp add: bucket_lookup_def)
  then have "HashMap_Insert H k v m = Inr (OK, w\<lparr>hm_data := \<lparr>arr_data = Some (cs[key_slot H s k :=
      LinkedList_PushFront (k, v) (cs ! key_slot H s k)]), arr_size = s\<rparr>, hm_size := hm_size w + 1\<rparr>)"
    by (simp add: HashMap_Insert_def w hm_slot_ok [OF cs(1)] slot_set_ok [OF cs(1)])
  with wf_push [OF cs(1) none, of v] cs show ?thesis
    by (simp add: hm_inv_def hm_lookup_def hm_used_def fun_eq_iff)
qed

lemma HashMap_Insert_present:
  assumes "hm_inv H n m" and "n < hm_limit" and "hm_lookup H m k = Some v'"
  shows "\<exists>m'. HashMap_Insert H k v m = Inr (ALREADY_EXISTS, m') \<and> hm_inv H n m' \<and>
    hm_lookup H m' = hm_lookup H m \<and> hm_used m'"
proof -
  obtain w cs s where w: "HashMap_ResizeIfNecessary H m = Inr w" "hm_inv H n w"
      "hm_lookup H w = hm_lookup H m" "hm_data w = \<lparr>arr_data = Some cs, arr_size = s\<rparr>"
    using ResizeIfNecessary_ok [OF assms(1,2)] by auto
  then have "wf_buckets H s cs" "bucket_lookup H s cs = hm_lookup H m"
    by (auto simp: hm_inv_def hm_lookup_def fun_eq_iff)
  then have "hm_slot H k (hm_data w) = Inr (H k mod s, cs ! key_slot H s k)"
      "map_of (ll_front (cs ! key_slot H s k)) k = Some v'"
    using w(4) assms(3) by (simp_all add: hm_slot_ok) (simp add: bucket_lookup_def fun_eq_iff)
  with w show ?thesis by (simp add: HashMap_Insert_def hm_used_def)
qed

lemma map_of_remove1:
  "distinct (map fst ps) \<Longrightarrow> (k, v) \<in> set ps \<Longrightarrow> map_of (remove1 (k, v) ps) = (map_of ps)(k := None)"
proof (induction ps)
  case (Cons p ps)
  show ?case
  proof (cases "p = (k, v)")
    case True
    with Cons.prems have "map_of ps k = None" by (simp add: map_of_eq_None_iff)
    with True show ?thesis by (auto simp: fun_eq_iff)
  next
    case False
    with Cons.prems have "(k, v) \<in> set ps" by auto
    moreover from this Cons.prems have "fst p \<noteq> k" by (auto simp: rev_image_eqI)
    ultimately show ?thesis using Cons False by (auto simp: fun_eq_iff)
  qed
qed simp

lemma HashMap_Delete_present:
  assumes "hm_inv H n m" and "hm_lookup H m k = Some v"
  shows "\<exists>m'. HashMap_Delete H k m = Inr (OK, m') \<and> hm_inv H n m' \<and>
    hm_lookup H m' = (hm_lookup H m)(k := None) \<and> hm_used m'"
  using assms(1)
proof (cases rule: hm_invE)
  case (2 cs s)
  let ?c = "cs ! key_slot H s k"
  have v: "map_of (ll_front ?c) k = Some v" using 2 assms(2) by (simp add: bucket_lookup_def)
  then have kv: "(k, v) \<in> set (ll_front ?c)" by (rule map_of_SomeD)
  then have "ll_front ?c \<noteq> []" by auto
  from LinkedList_Remove_front [OF wf_bucket_inv [OF 2(2)] this, of "(k, v)"]
  obtain c where c: "LinkedList_Remove (k, v) ?c = Inr c"
      "ll_front c = remove1 (k, v) (ll_front ?c)" "ll_inv c"
    by auto
  let ?m = "m\<lparr>hm_data := \<lparr>arr_data = Some (cs[key_slot H s k := c]), arr_size = s\<rparr>,
    hm_size := hm_size m - 1\<rparr>"
  have del: "HashMap_Delete H k m = Inr (OK, ?m)"
    by (simp add: HashMap_Delete_def 2(1) hm_slot_ok [OF 2(2)] slot_set_ok [OF 2(2)] v c(1))
  have sub: "set (ll_front c) \<subseteq> set (ll_front ?c)" using c(2) by (simp add: set_remove1_subset)
  have dist: "distinct (map fst (ll_front c))"
    using wf_bucket_distinct [OF 2(2), of k] c(2)
    by (simp add: distinct_map inj_on_diff)
  have "key_slot H s k' = key_slot H s k" if "k' \<in> fst ` set (ll_front c)" for k'
    using that wf_bucket_keys [OF 2(2), of k' k] sub by auto
  then have wf: "wf_buckets H s (cs[key_slot H s k := c])"
    by (intro wf_buckets_update [OF 2(2) c(3) dist]) blast
  have "bucket_lookup H s (cs[key_slot H s k := c]) = (bucket_lookup H s cs)(k := None)"
    using map_of_remove1 [OF wf_bucket_distinct [OF 2(2)] kv]
    by (intro ext) (simp add: bucket_lookup_update [OF 2(2)] c(2), simp add: bucket_lookup_def)
  moreover have "length (bucket_pairs cs) = Suc (length (bucket_pairs (cs[key_slot H s k := c])))"
  proof -
    have "length (ll_front c) = length (ll_front ?c) - 1" using kv by (simp add: c(2) length_remove1)
    with length_bucket_pairs_update [OF 2(2), of k c] length_pos_if_in_set [OF kv] show ?thesis
      by linarith
  qed
  ultimately show ?thesis
    using del wf 2 by (auto simp: hm_inv_def hm_lookup_def hm_used_def fun_eq_iff)
qed (use assms(2) in simp)

lemma HashMap_Delete_absent:
  assumes "hm_inv H n m" and "hm_used m" and "hm_lookup H m k = None"
  shows "HashMap_Delete H k m = Inr (NOT_FOUND, m)"
  using assms(1)
proof (cases rule: hm_invE)
  case (2 cs s)
  with assms(3) show ?thesis by (simp add: HashMap_Delete_def hm_slot_ok bucket_lookup_def)
qed (use assms(2) in simp)

lemma HashMap_Delete_unused:
  "hm_inv H n m \<Longrightarrow> \<not> hm_used m \<Longrightarrow> HashMap_Delete H k m = Inl DivByZero"
  by (auto simp: HashMap_Delete_def hm_slot_def hm_inv_def hm_used_def)

section \<open>The table interface\<close>

text \<open>
  What the kernel's tables rely on.  \<open>good n m\<close> bounds the pairs the table has held so far by
  \<open>n\<close>; \<open>used\<close> tells whether anything was ever inserted.
\<close>

fun delete_each :: "('k \<Rightarrow> 's \<Rightarrow> (ErrorCode \<times> 's) run) \<Rightarrow> 'k list \<Rightarrow> 's \<Rightarrow> 's run" where
  "delete_each delete [] m = Inr m"
| "delete_each delete (k # ks) m = run_bind (delete k m) (\<lambda>(_, m'). delete_each delete ks m')"

locale hash_table =
  fixes good :: "nat \<Rightarrow> 's \<Rightarrow> bool"
    and used :: "'s \<Rightarrow> bool"
    and lookup :: "'s \<Rightarrow> 'k \<rightharpoonup> 'v"
    and limit :: nat
    and contains :: "'k \<Rightarrow> 's \<Rightarrow> bool run"
    and get :: "'k \<Rightarrow> 's \<Rightarrow> ('v \<times> 's) run"
    and insert :: "'k \<Rightarrow> 'v \<Rightarrow> 's \<Rightarrow> (ErrorCode \<times> 's) run"
    and delete :: "'k \<Rightarrow> 's \<Rightarrow> (ErrorCode \<times> 's) run"
  assumes contains_ok: "good n m \<Longrightarrow> contains k m = Inr (lookup m k \<noteq> None)"
    and get_ok: "good n m \<Longrightarrow> lookup m k = Some v \<Longrightarrow> get k m = Inr (v, m)"
    and insert_fresh: "good n m \<Longrightarrow> n < limit \<Longrightarrow> lookup m k = None \<Longrightarrow>
      \<exists>m'. insert k v m = Inr (OK, m') \<and> good (Suc n) m' \<and> lookup m' = (lookup m)(k \<mapsto> v) \<and> used m'"
    and insert_present: "good n m \<Longrightarrow> n < limit \<Longrightarrow> lookup m k = Some v' \<Longrightarrow>
      \<exists>m'. insert k v m = Inr (ALREADY_EXISTS, m') \<and> good n m' \<and> lookup m' = lookup m \<and> used m'"
    and delete_present: "good n m \<Longrightarrow> lookup m k = Some v \<Longrightarrow>
      \<exists>m'. delete k m = Inr (OK, m') \<and> good n m' \<and> lookup m' = (lookup m)(k := None) \<and> used m'"
    and delete_absent: "good n m \<Longrightarrow> used m \<Longrightarrow> lookup m k = None \<Longrightarrow> delete k m = Inr (NOT_FOUND, m)"
    and delete_unused: "good n m \<Longrightarrow> \<not> used m \<Longrightarrow> delete k m = Inl DivByZero"
begin

lemma delete_used:
  assumes "good n m" and "used m"
  shows "\<exists>e m'. delete k m = Inr (e, m') \<and> good n m' \<and> lookup m' = (lookup m)(k := None) \<and> used m'"
proof (cases "lookup m k")
  case None
  then have "(lookup m)(k := None) = lookup m" by auto
  with assms None delete_absent show ?thesis by auto
next
  case (Some v)
  from delete_present [OF assms(1) this] show ?thesis by blast
qed

lemma delete_each_used:
  "good n m \<Longrightarrow> used m \<Longrightarrow> \<exists>m'. delete_each delete ks m = Inr m' \<and> good n m' \<and>
     lookup m' = lookup m |` (- set ks) \<and> used m'"
proof (induction ks arbitrary: m)
  case (Cons k ks)
  obtain e m1 where m1: "delete k m = Inr (e, m1)" "good n m1"
      "lookup m1 = (lookup m)(k := None)" "used m1"
    using delete_used [OF Cons.prems] by blast
  obtain m2 where "delete_each delete ks m1 = Inr m2" "good n m2"
      "lookup m2 = lookup m1 |` (- set ks)" "used m2"
    using Cons.IH [OF m1(2,4)] by blast
  moreover have "lookup m1 |` (- set ks) = lookup m |` (- set (k # ks))"
    unfolding m1(3) by (auto simp: restrict_map_def)
  ultimately show ?case using m1(1) by auto
qed auto

lemma insert_then_get:
  assumes "good n m" and "n < limit" and "lookup m k = None"
  shows "\<exists>m'. insert k v m = Inr (OK, m') \<and> get k m' = Inr (v, m') \<and>
    (\<forall>k'. k' \<noteq> k \<longrightarrow> contains k' m' = contains k' m)"
proof -
  obtain m' where m': "insert k v m = Inr (OK, m')" "good (Suc n) m'" "lookup m' = (lookup m)(k \<mapsto> v)"
    using insert_fresh [OF assms] by blast
  have "get k m' = Inr (v, m')" using m'(3) by (intro get_ok [OF m'(2)]) simp
  moreover have "contains k' m' = contains k' m" if "k' \<noteq> k" for k'
    using that by (simp add: contains_ok [OF m'(2)] contains_ok [OF assms(1)] m'(3))
  ultimately show ?thesis using m'(1) by blast
qed

end

interpretation hm: hash_table "hm_inv H" hm_used "hm_lookup H" hm_limit
    "HashMap_Contains H" "HashMap_at H d" "HashMap_Insert H" "HashMap_Delete H"
  using HashMap_Contains_ok HashMap_at_ok HashMap_Insert_fresh HashMap_Insert_present
    HashMap_Delete_present HashMap_Delete_absent HashMap_Delete_unused
  by unfold_locales

section \<open>Updates and sequences of operations\<close>

lemma assign_first_keys: "map fst (assign_first k v ps) = map fst ps"
  by (induction ps) auto

lemma length_assign_first [simp]: "length (assign_first k v ps) = length ps"
  by (induction ps) auto

lemma map_of_assign_first:
  "map_of ps k \<noteq> None \<Longrightarrow> map_of (assign_first k v ps) = (map_of ps)(k \<mapsto> v)"
  by (induction ps) (auto simp: fun_eq_iff)

lemma HashMap_Update_ok:
  assumes "hm_inv H n m" and "n < hm_limit"
  shows "\<exists>m'. HashMap_Update H k v m =
      Inr (if hm_lookup H m k = None then NOT_FOUND else OK, m') \<and> hm_inv H n m' \<and> hm_used m' \<and>
    hm_lookup H m' = (if hm_lookup H m k = None then hm_lookup H m else (hm_lookup H m)(k \<mapsto> v))"
proof -
  obtain w cs s where w: "HashMap_ResizeIfNecessary H m = Inr w" "hm_inv H n w"
      "hm_lookup H w = hm_lookup H m" "hm_data w = \<lparr>arr_data = Some cs, arr_size = s\<rparr>"
    using ResizeIfNecessary_ok [OF assms(1,2)] by auto
  then have cs: "wf_buckets H s cs" "hm_size w = of_nat (length (bucket_pairs cs))"
      "length (bucket_pairs cs) \<le> n" "length cs \<le> 8 + 3 * n" "bucket_lookup H s cs = hm_lookup H m"
    by (auto simp: hm_inv_def hm_lookup_def fun_eq_iff)
  let ?c = "cs ! key_slot H s k"
  let ?c' = "?c\<lparr>ll_front := assign_first k v (ll_front ?c)\<rparr>"
  have eq: "map_of (ll_front ?c) k = hm_lookup H m k"
    by (simp add: bucket_lookup_def flip: cs(5))
  show ?thesis
  proof (cases "hm_lookup H m k")
    case None
    with eq w show ?thesis
      by (simp add: HashMap_Update_def hm_slot_ok [OF cs(1)] hm_used_def)
  next
    case (Some v')
    then have some: "map_of (ll_front ?c) k \<noteq> None" using eq by simp
    have keys: "fst ` set (ll_front ?c') = fst ` set (ll_front ?c)"
      using arg_cong [OF assign_first_keys, of set k v "ll_front ?c"] by simp
    have "ll_inv ?c'" using wf_bucket_inv [OF cs(1), of k] by (simp add: ll_inv_def counts_def)
    moreover have "distinct (map fst (ll_front ?c'))"
      using wf_bucket_distinct [OF cs(1), of k] by (simp add: assign_first_keys)
    ultimately have wf: "wf_buckets H s (cs[key_slot H s k := ?c'])"
      by (rule wf_buckets_update [OF cs(1)]) (use wf_bucket_keys [OF cs(1)] keys in blast)
    have "bucket_lookup H s (cs[key_slot H s k := ?c']) = (bucket_lookup H s cs)(k \<mapsto> v)"
      using map_of_assign_first [OF some]
      by (intro ext) (simp add: bucket_lookup_update [OF cs(1)], simp add: bucket_lookup_def)
    moreover have "length (bucket_pairs (cs[key_slot H s k := ?c'])) = length (bucket_pairs cs)"
      using length_bucket_pairs_update [OF cs(1), of k ?c'] by simp
    moreover have "HashMap_Update H k v m = Inr (OK, w\<lparr>hm_data :=
        \<lparr>arr_data = Some (cs[key_slot H s k := ?c']), arr_size = s\<rparr>\<rparr>)"
      using some
      by (simp add: HashMap_Update_def w hm_slot_ok [OF cs(1)] slot_set_ok [OF cs(1)] del: not_None_eq)
    ultimately show ?thesis
      using wf cs Some by (simp add: hm_inv_def hm_lookup_def hm_used_def fun_eq_iff)
  qed
qed

datatype ('k, 'v) hm_op = OpInsert 'k 'v | OpUpdate 'k 'v | OpDelete 'k

fun hm_exec :: "('k \<Rightarrow> u64) \<Rightarrow> ('k, 'v) hm_op \<Rightarrow> ('k, 'v) HashMap \<Rightarrow> (ErrorCode \<times> ('k, 'v) HashMap) run" where
  "hm_exec H (OpInsert k v) m = HashMap_Insert H k v m"
| "hm_exec H (OpUpdate k v) m = HashMap_Update H k v m"
| "hm_exec H (OpDelete k) m = HashMap_Delete H k m"

fun hm_run :: "('k \<Rightarrow> u64) \<Rightarrow> ('k, 'v) hm_op list \<Rightarrow> ('k, 'v) HashMap \<Rightarrow>
    (ErrorCode list \<times> ('k, 'v) HashMap) run" where
  "hm_run H [] m = Inr ([], m)"
| "hm_run H (c # cs) m =
     run_bind (hm_exec H c m) (\<lambda>(e, m'). run_map (\<lambda>(es, m''). (e # es, m'')) (hm_run H cs m'))"

fun map_spec :: "('k, 'v) hm_op \<Rightarrow> ('k \<rightharpoonup> 'v) \<Rightarrow> ErrorCode \<times> ('k \<rightharpoonup> 'v)" where
  "map_spec (OpInsert k v) f = (if f k = None then (OK, f(k \<mapsto> v)) else (ALREADY_EXISTS, f))"
| "map_spec (OpUpdate k v) f = (if f k = None then (NOT_FOUND, f) else (OK, f(k \<mapsto> v)))"
| "map_spec (OpDelete k) f = (if f k = None then (NOT_FOUND, f) else (OK, f(k := None)))"

fun map_spec_run :: "('k, 'v) hm_op list \<Rightarrow> ('k \<rightharpoonup> 'v) \<Rightarrow> ErrorCode list \<times> ('k \<rightharpoonup> 'v)" where
  "map_spec_run [] f = ([], f)"
| "map_spec_run (c # cs) f = (let (e, g) = map_spec c f; (es, h) = map_spec_run cs g in (e # es, h))"

lemma hm_inv_mono: "hm_inv H n m \<Longrightarrow> n \<le> n' \<Longrightarrow> hm_inv H n' m"
  by (auto simp: hm_inv_def split: option.splits)

lemma hm_inv_Suc: "hm_inv H n m \<Longrightarrow> hm_inv H (Suc n) m"
  using hm_inv_mono [of H n m "Suc n"] by simp

lemma hm_lookup_fresh:
  "hm_lookup H \<lparr>hm_data = Array_new LinkedList_new 8, hm_size = n\<rparr> = Map.empty"
  using replicate_new(1) [of 8 H] by (simp add: fun_eq_iff hm_lookup_def Array_new_def)

lemma hm_exec_spec:
  assumes "hm_inv H n m" and "hm_used m" and "n < hm_limit"
    and "map_spec c (hm_lookup H m) = (e, g)"
  shows "\<exists>m'. hm_exec H c m = Inr (e, m') \<and> hm_inv H (Suc n) m' \<and> hm_used m' \<and> hm_lookup H m' = g"
proof (cases c)
  case (OpInsert k v)
  show ?thesis
  proof (cases "hm_lookup H m k")
    case None
    with HashMap_Insert_fresh [OF assms(1,3) None, of v] OpInsert assms(4) show ?thesis by auto
  next
    case (Some v')
    with HashMap_Insert_present [OF assms(1,3) Some, of v] OpInsert assms(4) show ?thesis
      by (auto intro: hm_inv_Suc)
  qed
next
  case (OpUpdate k v)
  with HashMap_Update_ok [OF assms(1,3), of k v] assms(4) show ?thesis
    by (auto intro: hm_inv_Suc split: if_splits)
next
  case (OpDelete k)
  show ?thesis
  proof (cases "hm_lookup H m k")
    case None
    with HashMap_Delete_absent [OF assms(1,2) None] OpDelete assms show ?thesis
      by (auto intro: hm_inv_Suc)
  next
    case (Some v')
    with HashMap_Delete_present [OF assms(1) Some] OpDelete assms(4) show ?thesis
      by (auto intro: hm_inv_Suc)
  qed
qed

section \<open>Properties\<close>

text \<open>
  C4.  The hash map refines a finite map, whatever the hash function.  From any well-formed map
  that owns an array, a sequence of insertions, updates and deletions (fewer than \<open>2 ^ 57\<close> with
  what the map already held), with every growth and rehashing of the array, returns normally,
  returns exactly the error codes the operations have on a HOL map, and ends in a well-formed
  state whose contents are those of the HOL map.
\<close>

theorem HashMap_refines_map:
  assumes "hm_inv H n m" and "hm_used m" and "n + length cs \<le> hm_limit"
    and "map_spec_run cs (hm_lookup H m) = (es, g)"
  shows "\<exists>m'. hm_run H cs m = Inr (es, m') \<and> hm_inv H (n + length cs) m' \<and> hm_lookup H m' = g"
  using assms
proof (induction cs arbitrary: n m es)
  case (Cons c cs)
  obtain e f es1 where spec: "map_spec c (hm_lookup H m) = (e, f)" "map_spec_run cs f = (es1, g)"
      "es = e # es1"
    using Cons.prems(4) by (auto split: prod.splits)
  obtain m1 where m1: "hm_exec H c m = Inr (e, m1)" "hm_inv H (Suc n) m1" "hm_used m1"
      "hm_lookup H m1 = f"
    using hm_exec_spec [OF Cons.prems(1,2) _ spec(1)] Cons.prems(3) by auto
  obtain m' where "hm_run H cs m1 = Inr (es1, m')" "hm_inv H (Suc n + length cs) m'" "hm_lookup H m' = g"
    using Cons.IH [OF m1(2,3)] Cons.prems(3) spec(2) m1(4) by auto
  with m1(1) spec(3) show ?case by auto
qed auto

theorem HashMap_refines_map_witness:
  "\<exists>m'. hm_run Hash_u64 [OpInsert 1 ''a'', OpInsert 1 ''b'', OpUpdate 1 ''c'', OpDelete 2]
        \<lparr>hm_data = Array_new LinkedList_new 8, hm_size = 0\<rparr> =
      Inr ([OK, ALREADY_EXISTS, OK, NOT_FOUND], m') \<and>
    hm_inv Hash_u64 (0 + length [OpInsert (1 :: u64) ''a'', OpInsert 1 ''b'', OpUpdate 1 ''c'', OpDelete 2]) m' \<and>
    hm_lookup Hash_u64 m' = [1 \<mapsto> ''c'']"
  by (rule HashMap_refines_map)
     (simp_all add: hm_lookup_fresh, simp_all add: hm_inv_def hm_used_def Array_new_def hm_limit_def
       wf_buckets_replicate [of 8, simplified])

text \<open>
  The two operations that do not guard against a map that was never inserted into: on a new
  map \<open>at\<close> and \<open>Delete\<close> divide by the zero size of the array, for every key, while
  \<open>Contains\<close> answers that the key is absent.
\<close>

theorem HashMap_new_unguarded:
  "HashMap_Contains H k HashMap_new = Inr False \<and>
   HashMap_Delete H k HashMap_new = Inl DivByZero \<and>
   HashMap_at H d k HashMap_new = Inl DivByZero"
  by (simp add: HashMap_Contains_def HashMap_Delete_def HashMap_at_def hm_slot_def HashMap_new_def
      Array_empty_new_def)

end
