(* ===== verification/Glcr_BinaryTree.thy ===== *)
theory Glcr_BinaryTree
  imports Prelude "HOL-Library.Tree" "HOL-Library.Monad_Syntax" "HOL-Library.Sublist"
begin

text \<open>
  The unbalanced binary search tree \<open>glcr::BinaryTree\<close>
  (\<open>lib/glacier/container/binary_tree.h\<close>), with its parent pointers.  Nodes live in a heap of
  addresses, allocated from a counter and never freed in the model (a node that becomes
  unreachable stays where it is).  The result \<open>None\<close> of an operation means that the code does not
  return: it dereferences a null pointer or its loop does not end.

  \<open>is_tree\<close> relates the heap to a tree of (address, key, value) triples; every operation is shown
  to terminate and to compute a function of that tree: \<open>Insert\<close>, \<open>Find\<close>, \<open>Predecessor\<close> and
  \<open>Successor\<close> those of a sorted association list, \<open>Delete\<close> the function \<open>adel\<close>, which on a
  node with two children loses subtrees.
\<close>

record ('k, 'v) BinaryNode =
  bn_key :: 'k
  bn_value :: 'v
  bn_left :: "nat option"
  bn_right :: "nat option"
  bn_parent :: "nat option"

type_synonym ('k, 'v) node_heap = "nat \<rightharpoonup> ('k, 'v) BinaryNode"

record ('k, 'v) BinaryTree =
  bt_heap :: "('k, 'v) node_heap"
  bt_root :: "nat option"
  bt_next :: nat

definition BinaryTree_new :: "('k, 'v) BinaryTree" where
  "BinaryTree_new = \<lparr>bt_heap = Map.empty, bt_root = None, bt_next = 0\<rparr>"

section \<open>The loops\<close>

partial_function (option) find_loop ::
    "('k::linorder, 'v) node_heap \<Rightarrow> 'k \<Rightarrow> nat \<Rightarrow> nat option" where
  "find_loop h key current =
     do {
       n \<leftarrow> h current;
       if key = bn_key n then Some current
       else if key < bn_key n
       then (case bn_left n of None \<Rightarrow> Some current | Some l \<Rightarrow> find_loop h key l)
       else (case bn_right n of None \<Rightarrow> Some current | Some r \<Rightarrow> find_loop h key r)
     }"

partial_function (option) leftmost :: "('k, 'v) node_heap \<Rightarrow> nat \<Rightarrow> nat option" where
  "leftmost h current =
     do {
       n \<leftarrow> h current;
       case bn_left n of None \<Rightarrow> Some current | Some l \<Rightarrow> leftmost h l
     }"

partial_function (option) rightmost :: "('k, 'v) node_heap \<Rightarrow> nat \<Rightarrow> nat option" where
  "rightmost h current =
     do {
       n \<leftarrow> h current;
       case bn_right n of None \<Rightarrow> Some current | Some r \<Rightarrow> rightmost h r
     }"

text \<open>The ascent of \<open>Predecessor\<close>: the first ancestor that is not reached from its left.\<close>

partial_function (option) climb_left :: "('k, 'v) node_heap \<Rightarrow> nat \<Rightarrow> nat option option" where
  "climb_left h current =
     do {
       n \<leftarrow> h current;
       case bn_parent n of
         None \<Rightarrow> Some None
       | Some p \<Rightarrow>
           do {
             pn \<leftarrow> h p;
             if bn_left pn = Some current then climb_left h p else Some (Some p)
           }
     }"

partial_function (option) climb_right :: "('k, 'v) node_heap \<Rightarrow> nat \<Rightarrow> nat option option" where
  "climb_right h current =
     do {
       n \<leftarrow> h current;
       case bn_parent n of
         None \<Rightarrow> Some None
       | Some p \<Rightarrow>
           do {
             pn \<leftarrow> h p;
             if bn_right pn = Some current then climb_right h p else Some (Some p)
           }
     }"

section \<open>The operations\<close>

definition FindOrInsertionParent ::
    "'k::linorder \<Rightarrow> ('k, 'v) BinaryTree \<Rightarrow> nat option option" where
  "FindOrInsertionParent key t =
     (case bt_root t of
        None \<Rightarrow> Some None
      | Some r \<Rightarrow> map_option Some (find_loop (bt_heap t) key r))"

definition BinaryTree_Insert ::
    "'k::linorder \<Rightarrow> 'v \<Rightarrow> ('k, 'v) BinaryTree \<Rightarrow> ('k, 'v) BinaryTree option" where
  "BinaryTree_Insert key val t =
     do {
       parent \<leftarrow> FindOrInsertionParent key t;
       let h = bt_heap t;
           new = bt_next t;
           node = (\<lambda>p. \<lparr>bn_key = key, bn_value = val, bn_left = None, bn_right = None, bn_parent = p\<rparr>);
           alloc = t\<lparr>bt_next := Suc new\<rparr>
       in case parent of
            None \<Rightarrow> Some (alloc\<lparr>bt_heap := h(new \<mapsto> node None), bt_root := Some new\<rparr>)
          | Some p \<Rightarrow>
              do {
                n \<leftarrow> h p;
                if key < bn_key n
                then Some (alloc\<lparr>bt_heap := h(p \<mapsto> n\<lparr>bn_left := Some new\<rparr>, new \<mapsto> node (Some p))\<rparr>)
                else if bn_key n < key
                then Some (alloc\<lparr>bt_heap := h(p \<mapsto> n\<lparr>bn_right := Some new\<rparr>, new \<mapsto> node (Some p))\<rparr>)
                else Some (t\<lparr>bt_heap := h(p \<mapsto> n\<lparr>bn_value := val\<rparr>)\<rparr>)
              }
     }"

text \<open>\<open>Delete\<close> in its three parts: the new child, the link to it, its parent pointer.\<close>

definition delete_new_child ::
    "('k, 'v) node_heap \<Rightarrow> ('k, 'v) BinaryNode \<Rightarrow> (('k, 'v) node_heap \<times> nat option) option" where
  "delete_new_child h node =
     (case (bn_left node, bn_right node) of
        (None, r) \<Rightarrow> Some (h, r)
      | (Some l, None) \<Rightarrow> Some (h, Some l)
      | (Some _, Some r) \<Rightarrow>
          do {
            successor \<leftarrow> leftmost h r;
            if successor \<noteq> r
            then do {
              sn \<leftarrow> h successor;
              sp \<leftarrow> bn_parent sn;
              spn \<leftarrow> h sp;
              Some (h(sp \<mapsto> spn\<lparr>bn_left := bn_right sn\<rparr>), Some successor)
            }
            else Some (h, Some successor)
          })"

definition delete_relink ::
    "nat \<Rightarrow> nat option \<Rightarrow> ('k, 'v) node_heap \<Rightarrow> nat option \<Rightarrow> (('k, 'v) node_heap \<times> nat option) option" where
  "delete_relink a new_child h root =
     (if root = Some a then Some (h, new_child)
      else do {
        node \<leftarrow> h a;
        p \<leftarrow> bn_parent node;
        pn \<leftarrow> h p;
        if bn_right pn = Some a
        then Some (h(p \<mapsto> pn\<lparr>bn_right := new_child\<rparr>), root)
        else Some (h(p \<mapsto> pn\<lparr>bn_left := new_child\<rparr>), root)
      })"

definition BinaryTree_Delete ::
    "'k::linorder \<Rightarrow> ('k, 'v) BinaryTree \<Rightarrow> ('k, 'v) BinaryTree option" where
  "BinaryTree_Delete key t =
     do {
       found \<leftarrow> FindOrInsertionParent key t;
       case found of
         None \<Rightarrow> Some t
       | Some a \<Rightarrow>
           do {
             node \<leftarrow> bt_heap t a;
             if bn_key node \<noteq> key then Some t
             else do {
               (h, new_child) \<leftarrow> delete_new_child (bt_heap t) node;
               (h, root) \<leftarrow> delete_relink a new_child h (bt_root t);
               case new_child of
                 None \<Rightarrow> Some (t\<lparr>bt_heap := h, bt_root := root\<rparr>)
               | Some c \<Rightarrow>
                   do {
                     cn \<leftarrow> h c;
                     node \<leftarrow> h a;
                     Some (t\<lparr>bt_heap := h(c \<mapsto> cn\<lparr>bn_parent := bn_parent node\<rparr>), bt_root := root\<rparr>)
                   }
             }
           }
     }"

definition BinaryTree_Predecessor ::
    "'k::linorder \<Rightarrow> ('k, 'v) BinaryTree \<Rightarrow> 'v option option" where
  "BinaryTree_Predecessor key t =
     do {
       found \<leftarrow> FindOrInsertionParent key t;
       case found of
         None \<Rightarrow> Some None
       | Some a \<Rightarrow>
           do {
             current \<leftarrow> bt_heap t a;
             if bn_key current < key then Some (Some (bn_value current))
             else case bn_left current of
               Some l \<Rightarrow>
                 do {
                   b \<leftarrow> rightmost (bt_heap t) l;
                   n \<leftarrow> bt_heap t b;
                   Some (Some (bn_value n))
                 }
             | None \<Rightarrow>
                 do {
                   p \<leftarrow> climb_left (bt_heap t) a;
                   case p of
                     None \<Rightarrow> Some None
                   | Some b \<Rightarrow> map_option (Some \<circ> bn_value) (bt_heap t b)
                 }
           }
     }"

definition BinaryTree_Successor ::
    "'k::linorder \<Rightarrow> ('k, 'v) BinaryTree \<Rightarrow> 'v option option" where
  "BinaryTree_Successor key t =
     do {
       found \<leftarrow> FindOrInsertionParent key t;
       case found of
         None \<Rightarrow> Some None
       | Some a \<Rightarrow>
           do {
             current \<leftarrow> bt_heap t a;
             if key < bn_key current then Some (Some (bn_value current))
             else case bn_right current of
               Some r \<Rightarrow>
                 do {
                   b \<leftarrow> leftmost (bt_heap t) r;
                   n \<leftarrow> bt_heap t b;
                   Some (Some (bn_value n))
                 }
             | None \<Rightarrow>
                 do {
                   p \<leftarrow> climb_right (bt_heap t) a;
                   case p of
                     None \<Rightarrow> Some None
                   | Some b \<Rightarrow> map_option (Some \<circ> bn_value) (bt_heap t b)
                 }
           }
     }"

definition BinaryTree_Find :: "'k::linorder \<Rightarrow> ('k, 'v) BinaryTree \<Rightarrow> 'v option option" where
  "BinaryTree_Find key t =
     do {
       found \<leftarrow> FindOrInsertionParent key t;
       case found of
         None \<Rightarrow> Some None
       | Some a \<Rightarrow>
           do {
             current \<leftarrow> bt_heap t a;
             Some (if bn_key current = key then Some (bn_value current) else None)
           }
     }"

section \<open>Trees in the heap\<close>

type_synonym ('k, 'v) atree = "(nat \<times> 'k \<times> 'v) tree"

abbreviation addr_of :: "nat \<times> 'k \<times> 'v \<Rightarrow> nat" where
  "addr_of \<equiv> fst"

abbreviation key_of :: "nat \<times> 'k \<times> 'v \<Rightarrow> 'k" where
  "key_of x \<equiv> fst (snd x)"

abbreviation val_of :: "nat \<times> 'k \<times> 'v \<Rightarrow> 'v" where
  "val_of x \<equiv> snd (snd x)"

fun is_tree :: "('k, 'v) node_heap \<Rightarrow> nat option \<Rightarrow> nat option \<Rightarrow> ('k, 'v) atree \<Rightarrow> bool" where
  "is_tree h par p \<langle>\<rangle> \<longleftrightarrow> p = None"
| "is_tree h par p \<langle>l, x, r\<rangle> \<longleftrightarrow> p = Some (addr_of x) \<and>
     (\<exists>n. h (addr_of x) = Some n \<and> bn_key n = key_of x \<and> bn_value n = val_of x \<and> bn_parent n = par \<and>
        is_tree h (p) (bn_left n) l \<and> is_tree h p (bn_right n) r)"

definition addrs :: "('k, 'v) atree \<Rightarrow> nat list" where
  "addrs A = map addr_of (inorder A)"

definition entries :: "('k, 'v) atree \<Rightarrow> ('k \<times> 'v) list" where
  "entries A = map snd (inorder A)"

definition key_sorted :: "('k::linorder \<times> 'v) list \<Rightarrow> bool" where
  "key_sorted es \<longleftrightarrow> sorted_wrt (<) (map fst es)"

text \<open>The tree \<open>A\<close> is what the state \<open>t\<close> holds.\<close>

definition bt_rep :: "('k::linorder, 'v) BinaryTree \<Rightarrow> ('k, 'v) atree \<Rightarrow> bool" where
  "bt_rep t A \<longleftrightarrow> is_tree (bt_heap t) None (bt_root t) A \<and> distinct (addrs A) \<and>
     (\<forall>a \<in> set (addrs A). a < bt_next t) \<and> key_sorted (entries A)"

lemma addrs_simps [simp]:
  "addrs \<langle>\<rangle> = []" "addrs \<langle>l, x, r\<rangle> = addrs l @ addr_of x # addrs r"
  by (simp_all add: addrs_def)

lemma entries_simps [simp]:
  "entries \<langle>\<rangle> = []" "entries \<langle>l, x, r\<rangle> = entries l @ snd x # entries r"
  by (simp_all add: entries_def)

lemma key_sorted_Node:
  "key_sorted (es @ kv # fs) \<longleftrightarrow> key_sorted es \<and> key_sorted fs \<and>
     (\<forall>e \<in> set es. fst e < fst kv) \<and> (\<forall>f \<in> set fs. fst kv < fst f) \<and>
     (\<forall>e \<in> set es. \<forall>f \<in> set fs. fst e < fst f)"
  by (auto simp: key_sorted_def sorted_wrt_append)

lemma is_tree_None [simp]: "is_tree h par None A \<longleftrightarrow> A = \<langle>\<rangle>"
  by (cases A) auto

lemma is_tree_Some:
  assumes "is_tree h par (Some a) A"
  obtains l x r n where "A = \<langle>l, x, r\<rangle>" "addr_of x = a" "h a = Some n" "bn_key n = key_of x"
    "bn_value n = val_of x" "bn_parent n = par" "is_tree h (Some a) (bn_left n) l"
    "is_tree h (Some a) (bn_right n) r"
  using assms by (cases A) auto

lemma is_tree_cong:
  "(\<And>a. a \<in> set (addrs A) \<Longrightarrow> h' a = h a) \<Longrightarrow> is_tree h' par p A \<longleftrightarrow> is_tree h par p A"
  by (induction A arbitrary: par p) auto

lemma is_tree_upd: "a \<notin> set (addrs A) \<Longrightarrow> is_tree (h(a := v)) par p A \<longleftrightarrow> is_tree h par p A"
  by (rule is_tree_cong) auto

lemma is_tree_child_None:
  "is_tree h par p A \<Longrightarrow> p = None \<longleftrightarrow> A = \<langle>\<rangle>"
  by (cases A) auto

section \<open>Searching\<close>

text \<open>The node at which the search for a key ends.\<close>

fun fip :: "'k::linorder \<Rightarrow> ('k, 'v) atree \<Rightarrow> nat \<times> 'k \<times> 'v" where
  "fip k \<langle>l, x, r\<rangle> =
     (if k = key_of x then x
      else if k < key_of x then (if l = \<langle>\<rangle> then x else fip k l)
      else (if r = \<langle>\<rangle> then x else fip k r))"
| "fip k \<langle>\<rangle> = undefined"

lemma fip_in: "A \<noteq> \<langle>\<rangle> \<Longrightarrow> fip k A \<in> set_tree A"
  by (induction A) auto

lemma find_loop_fip:
  "is_tree h par (Some a) A \<Longrightarrow> find_loop h k a = Some (addr_of (fip k A))"
proof (induction A arbitrary: par a)
  case (Node l x r)
  then obtain n where n: "addr_of x = a" "h a = Some n" "bn_key n = key_of x"
      "is_tree h (Some a) (bn_left n) l" "is_tree h (Some a) (bn_right n) r"
    by auto
  show ?case
    using n Node.IH(1) [of "Some a"] Node.IH(2) [of "Some a"]
    by (subst find_loop.simps) (auto split: option.splits)
qed simp

lemma fip_heap:
  "is_tree h par p A \<Longrightarrow> x \<in> set_tree A \<Longrightarrow>
     \<exists>n. h (addr_of x) = Some n \<and> bn_key n = key_of x \<and> bn_value n = val_of x"
  by (induction A arbitrary: par p) auto

lemma fip_lookup:
  "A \<noteq> \<langle>\<rangle> \<Longrightarrow> key_sorted (entries A) \<Longrightarrow>
     map_of (entries A) k = (if key_of (fip k A) = k then Some (val_of (fip k A)) else None)"
proof (induction A)
  case (Node l x r)
  have srt: "key_sorted (entries l)" "key_sorted (entries r)"
      "\<forall>e \<in> set (entries l). fst e < key_of x" "\<forall>f \<in> set (entries r). key_of x < fst f"
    using Node.prems(2) by (simp_all add: key_sorted_Node)
  have "map_of (entries l) k = None" if "\<not> k < key_of x"
    using that srt(3) by (force simp: map_of_eq_None_iff)
  moreover have "map_of (entries r) k = None" if "\<not> key_of x < k"
    using that srt(4) by (force simp: map_of_eq_None_iff)
  ultimately show ?case
    using Node.IH srt(1,2)
    by (cases x; cases "k < key_of x"; cases "k = key_of x")
       (auto simp: map_add_def split: option.splits)
qed simp

section \<open>Insertion\<close>

fun ains :: "nat \<Rightarrow> 'k::linorder \<Rightarrow> 'v \<Rightarrow> ('k, 'v) atree \<Rightarrow> ('k, 'v) atree" where
  "ains new k v \<langle>\<rangle> = \<langle>\<langle>\<rangle>, (new, k, v), \<langle>\<rangle>\<rangle>"
| "ains new k v \<langle>l, x, r\<rangle> =
     (if k = key_of x then \<langle>l, (addr_of x, k, v), r\<rangle>
      else if k < key_of x then \<langle>ains new k v l, x, r\<rangle>
      else \<langle>l, x, ains new k v r\<rangle>)"

text \<open>Insertion into a sorted association list.\<close>

fun ins_entry :: "'k::linorder \<Rightarrow> 'v \<Rightarrow> ('k \<times> 'v) list \<Rightarrow> ('k \<times> 'v) list" where
  "ins_entry k v [] = [(k, v)]"
| "ins_entry k v (e # es) =
     (if k < fst e then (k, v) # e # es
      else if k = fst e then (k, v) # es
      else e # ins_entry k v es)"

definition ins_heap ::
    "nat \<Rightarrow> ('k, 'v) BinaryNode \<Rightarrow> nat \<Rightarrow> 'k::linorder \<Rightarrow> 'v \<Rightarrow> ('k, 'v) node_heap \<Rightarrow> ('k, 'v) node_heap" where
  "ins_heap p n new k v h =
     (let node = \<lparr>bn_key = k, bn_value = v, bn_left = None, bn_right = None, bn_parent = Some p\<rparr>
      in if k < bn_key n then h(p \<mapsto> n\<lparr>bn_left := Some new\<rparr>, new \<mapsto> node)
         else if bn_key n < k then h(p \<mapsto> n\<lparr>bn_right := Some new\<rparr>, new \<mapsto> node)
         else h(p \<mapsto> n\<lparr>bn_value := v\<rparr>))"

lemma ins_entry_left:
  "k < fst e \<Longrightarrow> ins_entry k v (es @ e # fs) = ins_entry k v es @ e # fs"
  by (induction es) auto

lemma ins_entry_right:
  "\<forall>e' \<in> set es. fst e' < k \<Longrightarrow> ins_entry k v (es @ fs) = es @ ins_entry k v fs"
  by (induction es) auto

lemma entries_ains:
  "key_sorted (entries A) \<Longrightarrow> entries (ains new k v A) = ins_entry k v (entries A)"
proof (induction A)
  case (Node l x r)
  then have srt: "key_sorted (entries l)" "key_sorted (entries r)"
      "\<forall>e \<in> set (entries l). fst e < key_of x"
    by (simp_all add: key_sorted_Node)
  consider "k < key_of x" | "k = key_of x" | "key_of x < k" by force
  then show ?case
  proof cases
    case 3
    then have "\<forall>e \<in> set (entries l). fst e < k" using srt(3) by fastforce
    with 3 Node.IH(2) srt(2) show ?thesis by (auto simp: ins_entry_right)
  next
    case 2
    with srt(3) show ?thesis by (simp add: ins_entry_right)
  qed (use Node.IH(1) srt(1) in \<open>auto simp: ins_entry_left\<close>)
qed simp

lemma ins_entry_keys: "fst ` set (ins_entry k v es) = insert k (fst ` set es)"
  by (induction es) auto

lemma key_sorted_ins: "key_sorted es \<Longrightarrow> key_sorted (ins_entry k v es)"
proof (induction es)
  case (Cons e es)
  have "\<forall>k' \<in> fst ` set (ins_entry k v es). fst e < k'" if "fst e < k"
    using Cons.prems that by (auto simp: ins_entry_keys key_sorted_def)
  with Cons show ?case by (auto simp: key_sorted_def)
qed (simp add: key_sorted_def)

lemma map_of_ins: "map_of (ins_entry k v es) = (map_of es)(k \<mapsto> v)"
  by (induction es) (auto simp: fun_eq_iff)

lemma addrs_ains: "set (addrs (ains new k v A)) \<subseteq> insert new (set (addrs A))"
  by (induction A) auto

lemma distinct_addrs_ains:
  "distinct (addrs A) \<Longrightarrow> new \<notin> set (addrs A) \<Longrightarrow> distinct (addrs (ains new k v A))"
proof (induction A)
  case (Node l x r)
  then show ?case
    using addrs_ains [of new k v l] addrs_ains [of new k v r] by auto
qed simp

lemma ins_heap_other: "b \<noteq> p \<Longrightarrow> b \<noteq> new \<Longrightarrow> ins_heap p n new k v h b = h b"
  by (simp add: ins_heap_def Let_def)

lemma ins_heap_frame:
  "p \<notin> set (addrs B) \<Longrightarrow> new \<notin> set (addrs B) \<Longrightarrow>
     is_tree (ins_heap p n new k v h) par q B \<longleftrightarrow> is_tree h par q B"
  by (rule is_tree_cong) (metis ins_heap_other)

lemma fip_addr: "A \<noteq> \<langle>\<rangle> \<Longrightarrow> addr_of (fip k A) \<in> set (addrs A)"
  using fip_in [of A k] by (simp add: addrs_def)

lemma insert_is_tree:
  assumes "is_tree h par (Some a) A" and "distinct (addrs A)" and "new \<notin> set (addrs A)"
    and "h (addr_of (fip k A)) = Some n"
  shows "is_tree (ins_heap (addr_of (fip k A)) n new k v h) par (Some a) (ains new k v A)"
  using assms
proof (induction A arbitrary: par a)
  case (Node l x r)
  obtain m where m: "addr_of x = a" "h a = Some m" "bn_key m = key_of x" "bn_value m = val_of x"
      "bn_parent m = par" "is_tree h (Some a) (bn_left m) l" "is_tree h (Some a) (bn_right m) r"
    using Node.prems(1) by auto
  have d: "a \<notin> set (addrs l)" "a \<notin> set (addrs r)" "set (addrs l) \<inter> set (addrs r) = {}" "new \<noteq> a"
      "new \<notin> set (addrs l)" "new \<notin> set (addrs r)" "distinct (addrs l)" "distinct (addrs r)"
    using Node.prems(2,3) m(1) by auto
  consider (here) "k = key_of x" | (left) "k < key_of x" | (right) "key_of x < k" by force
  then show ?case
  proof cases
    case here
    with m d Node.prems(4) show ?thesis
      by (simp add: ins_heap_frame) (simp add: ins_heap_def)
  next
    case left
    then have ne: "k \<noteq> key_of x" by auto
    show ?thesis
    proof (cases "l = \<langle>\<rangle>")
      case True
      with left ne m d Node.prems(4) show ?thesis
        by (simp add: ins_heap_frame) (simp add: ins_heap_def Let_def)
    next
      case False
      then obtain b where b: "bn_left m = Some b" using m(6) by (cases "bn_left m") auto
      have q: "addr_of (fip k l) \<in> set (addrs l)" using fip_addr [OF False] .
      with d have "addr_of (fip k l) \<noteq> a" "addr_of (fip k l) \<notin> set (addrs r)" by auto
      with left ne False m d b Node.IH(1) [of "Some a" b] Node.prems(4)
      show ?thesis by (simp add: ins_heap_other ins_heap_frame)
    qed
  next
    case right
    then have nl: "\<not> k < key_of x" "k \<noteq> key_of x" by auto
    show ?thesis
    proof (cases "r = \<langle>\<rangle>")
      case True
      with right nl m d Node.prems(4) show ?thesis
        by (simp add: ins_heap_frame) (simp add: ins_heap_def Let_def)
    next
      case False
      then obtain b where b: "bn_right m = Some b" using m(7) by (cases "bn_right m") auto
      have q: "addr_of (fip k r) \<in> set (addrs r)" using fip_addr [OF False] .
      with d have "addr_of (fip k r) \<noteq> a" "addr_of (fip k r) \<notin> set (addrs l)" by auto
      with nl False m d b Node.IH(2) [of "Some a" b] Node.prems(4)
      show ?thesis by (simp add: ins_heap_other ins_heap_frame)
    qed
  qed
qed simp

lemma ains_found:
  "A \<noteq> \<langle>\<rangle> \<Longrightarrow> key_of (fip k A) = k \<Longrightarrow> addrs (ains new k v A) = addrs A"
proof (induction A)
  case (Node l x r)
  show ?case
  proof (cases "k = key_of x")
    case False
    with Node show ?thesis
      by (cases "k < key_of x"; cases "l = \<langle>\<rangle>"; cases "r = \<langle>\<rangle>") simp_all
  qed simp
qed simp

lemma FindOrInsertionParent_rep:
  "is_tree (bt_heap t) None (bt_root t) A \<Longrightarrow>
     FindOrInsertionParent k t = Some (if A = \<langle>\<rangle> then None else Some (addr_of (fip k A)))"
  using find_loop_fip [of "bt_heap t" None _ A k]
  by (cases "bt_root t") (auto simp: FindOrInsertionParent_def)

lemma BinaryTree_Insert_rep:
  assumes "bt_rep t A"
  shows "\<exists>t'. BinaryTree_Insert k v t = Some t' \<and> bt_rep t' (ains (bt_next t) k v A)"
proof (cases "A = \<langle>\<rangle>")
  case True
  with assms show ?thesis
    by (simp add: bt_rep_def BinaryTree_Insert_def FindOrInsertionParent_rep key_sorted_def Let_def)
next
  case False
  let ?x = "fip k A" and ?new = "bt_next t"
  have tr: "is_tree (bt_heap t) None (bt_root t) A" "distinct (addrs A)"
      "\<forall>a \<in> set (addrs A). a < ?new" "key_sorted (entries A)"
    using assms by (simp_all add: bt_rep_def)
  obtain a where a: "bt_root t = Some a" using tr(1) False by (cases "bt_root t") auto
  have fresh: "?new \<notin> set (addrs A)" using tr(3) by auto
  obtain n where n: "bt_heap t (addr_of ?x) = Some n" "bn_key n = key_of ?x"
    using fip_heap [OF tr(1) fip_in [OF False]] by blast
  let ?h = "ins_heap (addr_of ?x) n ?new k v (bt_heap t)"
  let ?t = "t\<lparr>bt_heap := ?h, bt_next := if bn_key n = k then ?new else Suc ?new\<rparr>"
  have "BinaryTree_Insert k v t = Some ?t"
    using n FindOrInsertionParent_rep [OF tr(1), of k] False
    by (simp add: BinaryTree_Insert_def ins_heap_def Let_def not_less_iff_gr_or_eq)
  moreover have "is_tree ?h None (bt_root t) (ains ?new k v A)"
    using insert_is_tree [of "bt_heap t" None a A ?new k n v] tr(1,2) fresh n(1) a by simp
  moreover have "\<forall>b \<in> set (addrs (ains ?new k v A)). b < bt_next ?t"
    using addrs_ains [of ?new k v A] tr(3) ains_found [OF False, of k ?new v] n(2)
    by (auto simp: less_Suc_eq)
  ultimately show ?thesis
    using distinct_addrs_ains [OF tr(2) fresh] tr(4)
    by (simp add: bt_rep_def entries_ains key_sorted_ins)
qed

lemma BinaryTree_Find_rep:
  assumes "bt_rep t A"
  shows "BinaryTree_Find k t = Some (map_of (entries A) k)"
proof (cases "A = \<langle>\<rangle>")
  case True
  with assms show ?thesis
    by (simp add: bt_rep_def BinaryTree_Find_def FindOrInsertionParent_rep)
next
  case False
  have tr: "is_tree (bt_heap t) None (bt_root t) A" "key_sorted (entries A)"
    using assms by (simp_all add: bt_rep_def)
  obtain n where "bt_heap t (addr_of (fip k A)) = Some n" "bn_key n = key_of (fip k A)"
      "bn_value n = val_of (fip k A)"
    using fip_heap [OF tr(1) fip_in [OF False]] by blast
  with FindOrInsertionParent_rep [OF tr(1), of k] fip_lookup [OF False tr(2), of k] False
  show ?thesis by (simp add: BinaryTree_Find_def)
qed

section \<open>Neighbours\<close>

lemma inorder_Nil [simp]: "inorder A = [] \<longleftrightarrow> A = \<langle>\<rangle>"
  by (cases A) auto

lemma rightmost_tree:
  "is_tree h par (Some a) A \<Longrightarrow> rightmost h a = Some (addr_of (last (inorder A)))"
proof (induction A arbitrary: par a)
  case (Node l x r)
  then show ?case
    by (subst rightmost.simps) (auto split: option.splits)
qed simp

lemma leftmost_tree:
  "is_tree h par (Some a) A \<Longrightarrow> leftmost h a = Some (addr_of (hd (inorder A)))"
proof (induction A arbitrary: par a)
  case (Node l x r)
  then show ?case
    by (subst leftmost.simps) (auto split: option.splits simp: hd_append)
qed simp

text \<open>The search for the predecessor on the tree: \<open>d\<close> is the last node left to the right.\<close>

fun tpred :: "'k::linorder \<Rightarrow> ('k, 'v) atree \<Rightarrow> (nat \<times> 'k \<times> 'v) option \<Rightarrow> (nat \<times> 'k \<times> 'v) option" where
  "tpred k \<langle>\<rangle> d = d"
| "tpred k \<langle>l, x, r\<rangle> d =
     (if k = key_of x then (if l = \<langle>\<rangle> then d else Some (last (inorder l)))
      else if k < key_of x then tpred k l d
      else tpred k r (Some x))"

definition pred_from :: "('k::linorder, 'v) node_heap \<Rightarrow> 'k \<Rightarrow> nat \<Rightarrow> nat option option" where
  "pred_from h key a =
     do {
       current \<leftarrow> h a;
       if bn_key current < key then Some (Some a)
       else case bn_left current of
         Some l \<Rightarrow> map_option Some (rightmost h l)
       | None \<Rightarrow> climb_left h a
     }"

lemma tpred_default: "tpred k A d = (case tpred k A None of None \<Rightarrow> d | Some y \<Rightarrow> Some y)"
proof (induction A arbitrary: d)
  case (Node l x r)
  show ?case
    using Node.IH(1) [of d] Node.IH(2) [of "Some x"] by (auto split: option.splits)
qed simp

lemma tpred_entries:
  "key_sorted (entries A) \<Longrightarrow>
     map_option snd (tpred k A d) =
       (case last_opt (filter (\<lambda>e. fst e < k) (entries A)) of None \<Rightarrow> map_option snd d | Some e \<Rightarrow> Some e)"
proof (induction A arbitrary: d)
  case (Node l x r)
  then have srt: "key_sorted (entries l)" "key_sorted (entries r)"
      "\<forall>e \<in> set (entries l). fst e < key_of x" "\<forall>f \<in> set (entries r). key_of x < fst f"
    by (simp_all add: key_sorted_Node)
  consider "k < key_of x" | "k = key_of x" | "key_of x < k" by force
  then show ?case
  proof cases
    case 1
    then have "\<not> key_of x < k" by simp
    moreover have "filter (\<lambda>e. fst e < k) (entries r) = []" using 1 srt(4) by (auto simp: filter_empty_conv)
    moreover have "tpred k \<langle>l, x, r\<rangle> d = tpred k l d" using 1 by auto
    ultimately show ?thesis using 1 Node.IH(1) [OF srt(1), of d] by simp
  next
    case 2
    then have "filter (\<lambda>e. fst e < k) (entries r) = []" using srt(4) by (auto simp: filter_empty_conv)
    moreover have "filter (\<lambda>e. fst e < k) (entries l) = entries l" using srt(3) 2 by simp
    moreover have "tpred k \<langle>l, x, r\<rangle> d = (if l = \<langle>\<rangle> then d else Some (last (inorder l)))"
      using 2 by simp
    moreover have "last_opt (entries l) = (if l = \<langle>\<rangle> then None else Some (snd (last (inorder l))))"
      by (simp add: last_opt_def entries_def last_map)
    ultimately show ?thesis using 2 by simp
  next
    case 3
    then have "last_opt (filter (\<lambda>e. fst e < k) (entries \<langle>l, x, r\<rangle>)) =
        (case last_opt (filter (\<lambda>e. fst e < k) (entries r)) of None \<Rightarrow> Some (snd x) | Some e \<Rightarrow> Some e)"
      by (simp add: last_opt_append last_opt_def)
    moreover have "tpred k \<langle>l, x, r\<rangle> d = tpred k r (Some x)" using 3 by auto
    ultimately show ?thesis using Node.IH(2) [OF srt(2), of "Some x"]
      by (simp split: option.splits)
  qed
qed simp

lemma climb_left_child:
  assumes "h b = Some n" and "bn_parent n = Some a" and "h a = Some m"
  shows "climb_left h b = (if bn_left m = Some b then climb_left h a else Some (Some a))"
  using assms by (subst climb_left.simps) simp

lemma root_addr: "is_tree h par (Some b) A \<Longrightarrow> b \<in> set (addrs A)"
  by (cases A) auto

lemma pred_from_tree:
  assumes "is_tree h par (Some a) A" and "distinct (addrs A)"
  shows "pred_from h k (addr_of (fip k A)) =
    (case tpred k A None of Some x \<Rightarrow> Some (Some (addr_of x)) | None \<Rightarrow> climb_left h a)"
  using assms
proof (induction A arbitrary: par a)
  case (Node l x r)
  obtain m where m: "addr_of x = a" "h a = Some m" "bn_key m = key_of x"
      "is_tree h (Some a) (bn_left m) l" "is_tree h (Some a) (bn_right m) r"
    using Node.prems(1) by auto
  have dist: "distinct (addrs l)" "distinct (addrs r)" "set (addrs l) \<inter> set (addrs r) = {}"
    using Node.prems(2) by auto
  consider (here) "k = key_of x" | (left) "k < key_of x" "k \<noteq> key_of x"
    | (right) "key_of x < k" "\<not> k < key_of x" "k \<noteq> key_of x" by force
  then show ?case
  proof cases
    case here
    with m show ?thesis
      using rightmost_tree [of h "Some a" _ l]
      by (cases "bn_left m") (auto simp: pred_from_def)
  next
    case left
    show ?thesis
    proof (cases "bn_left m")
      case None
      with left m show ?thesis by (auto simp: pred_from_def)
    next
      case (Some b)
      then have "l \<noteq> \<langle>\<rangle>" using m(4) by auto
      obtain n where "h b = Some n" "bn_parent n = Some a" using m(4) Some by (auto elim: is_tree_Some)
      with m Some have "climb_left h b = climb_left h a" by (simp add: climb_left_child)
      with left \<open>l \<noteq> \<langle>\<rangle>\<close> Node.IH(1) [of "Some a" b] m(4) Some dist(1) show ?thesis
        by (simp split: option.split)
    qed
  next
    case right
    show ?thesis
    proof (cases "bn_right m")
      case None
      with right m show ?thesis by (auto simp: pred_from_def)
    next
      case (Some b)
      then have "r \<noteq> \<langle>\<rangle>" using m(5) by auto
      obtain n where n: "h b = Some n" "bn_parent n = Some a"
        using m(5) Some by (auto elim: is_tree_Some)
      have "bn_left m \<noteq> Some b"
        using root_addr [of h "Some a" b r] root_addr [of h "Some a" b l] m(4,5) Some dist(3) by auto
      with m n have "climb_left h b = Some (Some a)" by (simp add: climb_left_child)
      with right \<open>r \<noteq> \<langle>\<rangle>\<close> Node.IH(2) [of "Some a" b] m(1,5) Some dist(2) show ?thesis
        by (auto simp: tpred_default [of k r "Some x"] split: option.split)
    qed
  qed
qed simp

lemma tpred_in: "tpred k A None = Some x \<Longrightarrow> x \<in> set_tree A"
proof (induction A arbitrary: x)
  case (Node l y r)
  then show ?case
    using last_in_set [of "inorder l"]
    by (auto simp: tpred_default [of k r "Some y"] split: if_splits option.splits)
qed simp

lemma BinaryTree_Predecessor_rep:
  assumes "bt_rep t A"
  shows "BinaryTree_Predecessor k t =
    Some (map_option snd (last_opt (filter (\<lambda>e. fst e < k) (entries A))))"
proof (cases "A = \<langle>\<rangle>")
  case True
  with assms show ?thesis
    by (simp add: bt_rep_def BinaryTree_Predecessor_def FindOrInsertionParent_rep)
next
  case False
  have tr: "is_tree (bt_heap t) None (bt_root t) A" "distinct (addrs A)" "key_sorted (entries A)"
    using assms by (simp_all add: bt_rep_def)
  obtain a where a: "bt_root t = Some a" using tr(1) False by (cases "bt_root t") auto
  have top: "climb_left (bt_heap t) a = Some None"
    using tr(1) a by (subst climb_left.simps) (auto elim: is_tree_Some)
  have code: "BinaryTree_Predecessor k t = do {
      p \<leftarrow> pred_from (bt_heap t) k (addr_of (fip k A));
      case p of None \<Rightarrow> Some None | Some b \<Rightarrow> map_option (Some \<circ> bn_value) (bt_heap t b) }"
    using FindOrInsertionParent_rep [OF tr(1), of k] False fip_heap [OF tr(1) fip_in [OF False], of k]
    by (auto simp: BinaryTree_Predecessor_def pred_from_def map_option_case
        split: option.splits bind_splits)
  have ent: "map_option snd (tpred k A None) = last_opt (filter (\<lambda>e. fst e < k) (entries A))"
    using tpred_entries [OF tr(3), of k None] by (simp split: option.splits)
  show ?thesis
  proof (cases "tpred k A None")
    case None
    with ent have "last_opt (filter (\<lambda>e. fst e < k) (entries A)) = None" by simp
    with None pred_from_tree [of "bt_heap t" None a A k] tr a top code show ?thesis by simp
  next
    case (Some x)
    with ent have "last_opt (filter (\<lambda>e. fst e < k) (entries A)) = Some (snd x)" by simp
    moreover obtain n where "bt_heap t (addr_of x) = Some n" "bn_value n = val_of x"
      using fip_heap [OF tr(1) tpred_in [OF Some]] by blast
    ultimately show ?thesis
      using Some pred_from_tree [of "bt_heap t" None a A k] tr(1,2) a code by simp
  qed
qed

text \<open>The same for the successor, with left and right exchanged.\<close>

fun tsucc :: "'k::linorder \<Rightarrow> ('k, 'v) atree \<Rightarrow> (nat \<times> 'k \<times> 'v) option \<Rightarrow> (nat \<times> 'k \<times> 'v) option" where
  "tsucc k \<langle>\<rangle> d = d"
| "tsucc k \<langle>l, x, r\<rangle> d =
     (if k = key_of x then (if r = \<langle>\<rangle> then d else Some (hd (inorder r)))
      else if k < key_of x then tsucc k l (Some x)
      else tsucc k r d)"

definition succ_from :: "('k::linorder, 'v) node_heap \<Rightarrow> 'k \<Rightarrow> nat \<Rightarrow> nat option option" where
  "succ_from h key a =
     do {
       current \<leftarrow> h a;
       if key < bn_key current then Some (Some a)
       else case bn_right current of
         Some r \<Rightarrow> map_option Some (leftmost h r)
       | None \<Rightarrow> climb_right h a
     }"

lemma tsucc_default: "tsucc k A d = (case tsucc k A None of None \<Rightarrow> d | Some y \<Rightarrow> Some y)"
proof (induction A arbitrary: d)
  case (Node l x r)
  show ?case
    using Node.IH(2) [of d] Node.IH(1) [of "Some x"] by (auto split: option.splits)
qed simp

lemma tsucc_entries:
  "key_sorted (entries A) \<Longrightarrow>
     map_option snd (tsucc k A d) =
       (case head_opt (filter (\<lambda>e. k < fst e) (entries A)) of None \<Rightarrow> map_option snd d | Some e \<Rightarrow> Some e)"
proof (induction A arbitrary: d)
  case (Node l x r)
  then have srt: "key_sorted (entries l)" "key_sorted (entries r)"
      "\<forall>e \<in> set (entries l). fst e < key_of x" "\<forall>f \<in> set (entries r). key_of x < fst f"
    by (simp_all add: key_sorted_Node)
  consider "key_of x < k" | "k = key_of x" | "k < key_of x" by force
  then show ?case
  proof cases
    case 1
    then have "\<not> k < key_of x" by simp
    moreover have "filter (\<lambda>e. k < fst e) (entries l) = []" using 1 srt(3) by (auto simp: filter_empty_conv)
    moreover have "tsucc k \<langle>l, x, r\<rangle> d = tsucc k r d" using 1 by auto
    ultimately show ?thesis using 1 Node.IH(2) [OF srt(2), of d] by simp
  next
    case 2
    then have "filter (\<lambda>e. k < fst e) (entries l) = []" using srt(3) by (auto simp: filter_empty_conv)
    moreover have "filter (\<lambda>e. k < fst e) (entries r) = entries r" using srt(4) 2 by simp
    moreover have "tsucc k \<langle>l, x, r\<rangle> d = (if r = \<langle>\<rangle> then d else Some (hd (inorder r)))"
      using 2 by simp
    moreover have "head_opt (entries r) = (if r = \<langle>\<rangle> then None else Some (snd (hd (inorder r))))"
      by (cases "inorder r") (auto simp: entries_def)
    ultimately show ?thesis using 2 by simp
  next
    case 3
    then have "head_opt (filter (\<lambda>e. k < fst e) (entries \<langle>l, x, r\<rangle>)) =
        (case head_opt (filter (\<lambda>e. k < fst e) (entries l)) of None \<Rightarrow> Some (snd x) | Some e \<Rightarrow> Some e)"
      by (auto simp: head_opt_append split: option.splits)
    moreover have "tsucc k \<langle>l, x, r\<rangle> d = tsucc k l (Some x)" using 3 by auto
    ultimately show ?thesis using Node.IH(1) [OF srt(1), of "Some x"]
      by (simp split: option.splits)
  qed
qed simp

lemma climb_right_child:
  assumes "h b = Some n" and "bn_parent n = Some a" and "h a = Some m"
  shows "climb_right h b = (if bn_right m = Some b then climb_right h a else Some (Some a))"
  using assms by (subst climb_right.simps) simp

lemma succ_from_tree:
  assumes "is_tree h par (Some a) A" and "distinct (addrs A)"
  shows "succ_from h k (addr_of (fip k A)) =
    (case tsucc k A None of Some x \<Rightarrow> Some (Some (addr_of x)) | None \<Rightarrow> climb_right h a)"
  using assms
proof (induction A arbitrary: par a)
  case (Node l x r)
  obtain m where m: "addr_of x = a" "h a = Some m" "bn_key m = key_of x"
      "is_tree h (Some a) (bn_left m) l" "is_tree h (Some a) (bn_right m) r"
    using Node.prems(1) by auto
  have dist: "distinct (addrs l)" "distinct (addrs r)" "set (addrs l) \<inter> set (addrs r) = {}"
    using Node.prems(2) by auto
  consider (here) "k = key_of x" | (left) "k < key_of x" "k \<noteq> key_of x"
    | (right) "key_of x < k" "\<not> k < key_of x" "k \<noteq> key_of x" by force
  then show ?case
  proof cases
    case here
    with m show ?thesis
      using leftmost_tree [of h "Some a" _ r]
      by (cases "bn_right m") (auto simp: succ_from_def)
  next
    case right
    show ?thesis
    proof (cases "bn_right m")
      case None
      with right m show ?thesis by (auto simp: succ_from_def)
    next
      case (Some b)
      then have "r \<noteq> \<langle>\<rangle>" using m(5) by auto
      obtain n where "h b = Some n" "bn_parent n = Some a" using m(5) Some by (auto elim: is_tree_Some)
      with m Some have "climb_right h b = climb_right h a" by (simp add: climb_right_child)
      with right \<open>r \<noteq> \<langle>\<rangle>\<close> Node.IH(2) [of "Some a" b] m(5) Some dist(2) show ?thesis
        by (simp split: option.split)
    qed
  next
    case left
    show ?thesis
    proof (cases "bn_left m")
      case None
      with left m show ?thesis by (auto simp: succ_from_def)
    next
      case (Some b)
      then have "l \<noteq> \<langle>\<rangle>" using m(4) by auto
      obtain n where n: "h b = Some n" "bn_parent n = Some a"
        using m(4) Some by (auto elim: is_tree_Some)
      have "bn_right m \<noteq> Some b"
        using root_addr [of h "Some a" b l] root_addr [of h "Some a" b r] m(4,5) Some dist(3) by auto
      with m n have "climb_right h b = Some (Some a)" by (simp add: climb_right_child)
      with left \<open>l \<noteq> \<langle>\<rangle>\<close> Node.IH(1) [of "Some a" b] m(1,4) Some dist(1) show ?thesis
        by (auto simp: tsucc_default [of k l "Some x"] split: option.split)
    qed
  qed
qed simp

lemma tsucc_in: "tsucc k A None = Some x \<Longrightarrow> x \<in> set_tree A"
proof (induction A arbitrary: x)
  case (Node l y r)
  then show ?case
    using hd_in_set [of "inorder r"]
    by (auto simp: tsucc_default [of k l "Some y"] split: if_splits option.splits)
qed simp

lemma BinaryTree_Successor_rep:
  assumes "bt_rep t A"
  shows "BinaryTree_Successor k t =
    Some (map_option snd (head_opt (filter (\<lambda>e. k < fst e) (entries A))))"
proof (cases "A = \<langle>\<rangle>")
  case True
  with assms show ?thesis
    by (simp add: bt_rep_def BinaryTree_Successor_def FindOrInsertionParent_rep)
next
  case False
  have tr: "is_tree (bt_heap t) None (bt_root t) A" "distinct (addrs A)" "key_sorted (entries A)"
    using assms by (simp_all add: bt_rep_def)
  obtain a where a: "bt_root t = Some a" using tr(1) False by (cases "bt_root t") auto
  have top: "climb_right (bt_heap t) a = Some None"
    using tr(1) a by (subst climb_right.simps) (auto elim: is_tree_Some)
  have code: "BinaryTree_Successor k t = do {
      p \<leftarrow> succ_from (bt_heap t) k (addr_of (fip k A));
      case p of None \<Rightarrow> Some None | Some b \<Rightarrow> map_option (Some \<circ> bn_value) (bt_heap t b) }"
    using FindOrInsertionParent_rep [OF tr(1), of k] False fip_heap [OF tr(1) fip_in [OF False], of k]
    by (auto simp: BinaryTree_Successor_def succ_from_def map_option_case
        split: option.splits bind_splits)
  have ent: "map_option snd (tsucc k A None) = head_opt (filter (\<lambda>e. k < fst e) (entries A))"
    using tsucc_entries [OF tr(3), of k None] by (simp split: option.splits)
  show ?thesis
  proof (cases "tsucc k A None")
    case None
    with ent have "head_opt (filter (\<lambda>e. k < fst e) (entries A)) = None" by simp
    with None succ_from_tree [of "bt_heap t" None a A k] tr a top code show ?thesis by simp
  next
    case (Some x)
    with ent have "head_opt (filter (\<lambda>e. k < fst e) (entries A)) = Some (snd x)" by simp
    moreover obtain n where "bt_heap t (addr_of x) = Some n" "bn_value n = val_of x"
      using fip_heap [OF tr(1) tsucc_in [OF Some]] by blast
    ultimately show ?thesis
      using Some succ_from_tree [of "bt_heap t" None a A k] tr(1,2) a code by simp
  qed
qed

section \<open>Deletion\<close>

text \<open>
  What \<open>Delete\<close> does to the tree.  A node with at most one child is replaced by that child.  A
  node with two children is replaced by its successor, which keeps only its own right subtree.
\<close>

fun min_node :: "('k, 'v) atree \<Rightarrow> (nat \<times> 'k \<times> 'v) \<times> ('k, 'v) atree" where
  "min_node \<langle>l, x, r\<rangle> = (if l = \<langle>\<rangle> then (x, r) else min_node l)"
| "min_node \<langle>\<rangle> = undefined"

definition ajoin :: "('k, 'v) atree \<Rightarrow> ('k, 'v) atree \<Rightarrow> ('k, 'v) atree" where
  "ajoin l r = (if l = \<langle>\<rangle> then r else if r = \<langle>\<rangle> then l
     else let (m, mr) = min_node r in \<langle>\<langle>\<rangle>, m, mr\<rangle>)"

fun adel :: "'k::linorder \<Rightarrow> ('k, 'v) atree \<Rightarrow> ('k, 'v) atree" where
  "adel k \<langle>\<rangle> = \<langle>\<rangle>"
| "adel k \<langle>l, x, r\<rangle> =
     (if k = key_of x then ajoin l r
      else if k < key_of x then \<langle>adel k l, x, r\<rangle>
      else \<langle>l, x, adel k r\<rangle>)"

fun sub_at :: "'k::linorder \<Rightarrow> ('k, 'v) atree \<Rightarrow> ('k, 'v) atree" where
  "sub_at k \<langle>\<rangle> = \<langle>\<rangle>"
| "sub_at k \<langle>l, x, r\<rangle> =
     (if k = key_of x then \<langle>l, x, r\<rangle> else if k < key_of x then sub_at k l else sub_at k r)"

lemma hd_inorder_min: "R \<noteq> \<langle>\<rangle> \<Longrightarrow> hd (inorder R) = fst (min_node R)"
  by (induction R) (auto simp: hd_append)

lemma entries_min:
  "R \<noteq> \<langle>\<rangle> \<Longrightarrow> min_node R = (m, mr) \<Longrightarrow> \<exists>es. inorder R = m # inorder mr @ es"
  by (induction R arbitrary: m mr) (auto split: if_splits)

lemma addrs_min:
  "R \<noteq> \<langle>\<rangle> \<Longrightarrow> min_node R = (m, mr) \<Longrightarrow> \<exists>es. addrs R = addr_of m # addrs mr @ es"
  using entries_min [of R m mr] by (auto simp: addrs_def)

lemma min_node_tree:
  assumes "is_tree h par (Some b) R" and "min_node R = (m, mr)" and "distinct (addrs R)"
  shows "\<exists>n. h (addr_of m) = Some n \<and> bn_key n = key_of m \<and> bn_value n = val_of m \<and>
      bn_left n = None \<and> is_tree h (Some (addr_of m)) (bn_right n) mr \<and>
      (if addr_of m = b then bn_parent n = par
       else \<exists>sp spn. bn_parent n = Some sp \<and> h sp = Some spn \<and> sp \<in> set (addrs R) \<and>
         sp \<noteq> addr_of m \<and> sp \<notin> set (addrs mr))"
  using assms
proof (induction R arbitrary: par b)
  case (Node l x r)
  obtain n where n: "addr_of x = b" "h b = Some n" "bn_key n = key_of x" "bn_value n = val_of x"
      "bn_parent n = par" "is_tree h (Some b) (bn_left n) l" "is_tree h (Some b) (bn_right n) r"
    using Node.prems(1) by auto
  show ?case
  proof (cases "l = \<langle>\<rangle>")
    case True
    with n Node.prems(2) show ?thesis by auto
  next
    case False
    then obtain c where c: "bn_left n = Some c" using n(6) by (cases "bn_left n") auto
    have ml: "min_node l = (m, mr)" using False Node.prems(2) by simp
    have mem: "addr_of m \<in> set (addrs l)" "set (addrs mr) \<subseteq> set (addrs l)"
      using addrs_min [OF False ml] by auto
    have b: "b \<notin> set (addrs l)" "distinct (addrs l)" using Node.prems(3) n(1) by auto
    obtain sn where sn: "h (addr_of m) = Some sn" "bn_key sn = key_of m" "bn_value sn = val_of m"
        "bn_left sn = None" "is_tree h (Some (addr_of m)) (bn_right sn) mr"
        "if addr_of m = c then bn_parent sn = Some b
         else \<exists>sp spn. bn_parent sn = Some sp \<and> h sp = Some spn \<and> sp \<in> set (addrs l) \<and>
           sp \<noteq> addr_of m \<and> sp \<notin> set (addrs mr)"
      using Node.IH(1) [of "Some b" c] n(6) c ml b(2) by auto
    have "\<exists>sp spn. bn_parent sn = Some sp \<and> h sp = Some spn \<and> sp \<in> set (addrs \<langle>l, x, r\<rangle>) \<and>
        sp \<noteq> addr_of m \<and> sp \<notin> set (addrs mr)"
      using sn(6) n(1,2) b(1) mem by (cases "addr_of m = c") auto
    moreover have "addr_of m \<noteq> b" using mem(1) b(1) by auto
    ultimately show ?thesis using sn(1-5) by simp
  qed
qed simp

lemma is_tree_reparent:
  assumes "is_tree h par' (Some c) J" and "distinct (addrs J)" and "h c = Some cn"
  shows "is_tree (h(c \<mapsto> cn\<lparr>bn_parent := par\<rparr>)) par (Some c) J"
  using assms by (cases J) (auto simp: is_tree_upd)

lemma addrs_ajoin: "set (addrs (ajoin l r)) \<subseteq> set (addrs l) \<union> set (addrs r)"
  using addrs_min [of r "fst (min_node r)" "snd (min_node r)"]
  by (auto simp: ajoin_def split_def Let_def)

lemma distinct_addrs_ajoin: "distinct (addrs l @ addrs r) \<Longrightarrow> distinct (addrs (ajoin l r))"
  using addrs_min [of r "fst (min_node r)" "snd (min_node r)"]
  by (auto simp: ajoin_def split_def Let_def)

lemma delete_new_child_ok:
  assumes "is_tree h (Some a) (bn_left n) l" and "is_tree h (Some a) (bn_right n) r"
    and "distinct (addrs l @ addrs r)"
  shows "\<exists>h1 nc par. delete_new_child h n = Some (h1, nc) \<and> is_tree h1 par nc (ajoin l r) \<and>
    (\<forall>b. b \<notin> set (addrs r) \<longrightarrow> h1 b = h b)"
proof (cases "bn_left n = None \<or> bn_right n = None")
  case True
  with assms(1,2) show ?thesis
    by (auto simp: delete_new_child_def ajoin_def is_tree_child_None split: option.splits)
next
  case False
  then obtain la b where b: "bn_left n = Some la" "bn_right n = Some b" by auto
  with assms(1,2) have ne: "l \<noteq> \<langle>\<rangle>" "r \<noteq> \<langle>\<rangle>" by auto
  obtain m mr where m: "min_node r = (m, mr)" by (cases "min_node r")
  have join: "ajoin l r = \<langle>\<langle>\<rangle>, m, mr\<rangle>" using ne m by (simp add: ajoin_def)
  have lm: "leftmost h b = Some (addr_of m)"
    using leftmost_tree [of h "Some a" b r] assms(2) b ne m by (simp add: hd_inorder_min)
  have dr: "distinct (addrs r)" using assms(3) by simp
  obtain sn where sn: "h (addr_of m) = Some sn" "bn_key sn = key_of m" "bn_value sn = val_of m"
      "bn_left sn = None" "is_tree h (Some (addr_of m)) (bn_right sn) mr"
      "if addr_of m = b then bn_parent sn = Some a
       else \<exists>sp spn. bn_parent sn = Some sp \<and> h sp = Some spn \<and> sp \<in> set (addrs r) \<and>
         sp \<noteq> addr_of m \<and> sp \<notin> set (addrs mr)"
    using min_node_tree [OF _ m dr, of h "Some a" b] assms(2) b(2) by auto
  show ?thesis
  proof (cases "addr_of m = b")
    case True
    with sn lm b join show ?thesis by (auto simp: delete_new_child_def)
  next
    case False
    then obtain sp spn where sp: "bn_parent sn = Some sp" "h sp = Some spn" "sp \<in> set (addrs r)"
        "sp \<noteq> addr_of m" "sp \<notin> set (addrs mr)"
      using sn(6) by auto
    then have "delete_new_child h n = Some (h(sp \<mapsto> spn\<lparr>bn_left := bn_right sn\<rparr>), Some (addr_of m))"
      using b lm sn False by (simp add: delete_new_child_def)
    with sp sn join show ?thesis by (auto simp: is_tree_upd)
  qed
qed

lemma fip_sub_at:
  assumes "A \<noteq> \<langle>\<rangle>" and "key_of (fip k A) = k"
  obtains l r where "sub_at k A = \<langle>l, fip k A, r\<rangle>"
proof -
  have "\<exists>l r. sub_at k A = \<langle>l, fip k A, r\<rangle>"
    using assms
  proof (induction A)
    case (Node l x r)
    then show ?case
      by (cases "k = key_of x"; cases "k < key_of x"; cases "l = \<langle>\<rangle>"; cases "r = \<langle>\<rangle>") auto
  qed simp
  with that show thesis by blast
qed

lemma sub_at_tree:
  "is_tree h par p A \<Longrightarrow> sub_at k A = \<langle>l, x, r\<rangle> \<Longrightarrow>
     \<exists>n. h (addr_of x) = Some n \<and> is_tree h (Some (addr_of x)) (bn_left n) l \<and>
       is_tree h (Some (addr_of x)) (bn_right n) r"
  by (induction A arbitrary: par p) (auto split: if_splits)

lemma sub_at_addrs:
  "sub_at k A = \<langle>l, x, r\<rangle> \<Longrightarrow> \<exists>as bs. addrs A = as @ (addrs l @ addr_of x # addrs r) @ bs"
proof (induction A)
  case (Node L y R)
  consider "k = key_of y" | "k < key_of y" "k \<noteq> key_of y" | "\<not> k < key_of y" "k \<noteq> key_of y" by force
  then show ?case
  proof cases
    case 1
    with Node.prems show ?thesis by (auto intro: exI [of _ "[]"])
  next
    case 2
    with Node obtain as bs where "addrs L = as @ (addrs l @ addr_of x # addrs r) @ bs" by auto
    then have "addrs \<langle>L, y, R\<rangle> = as @ (addrs l @ addr_of x # addrs r) @ (bs @ addr_of y # addrs R)"
      by simp
    then show ?thesis by blast
  next
    case 3
    with Node obtain as bs where "addrs R = as @ (addrs l @ addr_of x # addrs r) @ bs" by auto
    then have "addrs \<langle>L, y, R\<rangle> = (addrs L @ addr_of y # as) @ (addrs l @ addr_of x # addrs r) @ bs"
      by simp
    then show ?thesis by blast
  qed
qed simp

lemma sub_at_parent:
  assumes "is_tree h par (Some a0) A" and "distinct (addrs A)" and "sub_at k A = \<langle>l, x, r\<rangle>"
    and "h (addr_of x) = Some n"
  shows "if addr_of x = a0 then bn_parent n = par
    else \<exists>p pn. bn_parent n = Some p \<and> h p = Some pn \<and> p \<in> set (addrs A) \<and>
      p \<notin> set (addrs l @ addr_of x # addrs r)"
  using assms
proof (induction A arbitrary: par a0)
  case (Node L y R)
  obtain m where m: "addr_of y = a0" "h a0 = Some m" "bn_parent m = par"
      "is_tree h (Some a0) (bn_left m) L" "is_tree h (Some a0) (bn_right m) R"
    using Node.prems(1) by auto
  have d: "distinct (addrs L)" "distinct (addrs R)" "a0 \<notin> set (addrs L)" "a0 \<notin> set (addrs R)"
    using Node.prems(2) m(1) by auto
  have step: ?case if B: "is_tree h (Some a0) q B" "sub_at k B = \<langle>l, x, r\<rangle>" "a0 \<notin> set (addrs B)"
      "set (addrs B) \<subseteq> set (addrs \<langle>L, y, R\<rangle>)"
      and IH: "\<And>b. q = Some b \<Longrightarrow> if addr_of x = b then bn_parent n = Some a0
        else \<exists>p pn. bn_parent n = Some p \<and> h p = Some pn \<and> p \<in> set (addrs B) \<and>
          p \<notin> set (addrs l @ addr_of x # addrs r)" for B q
  proof -
    obtain b where b: "q = Some b" using B(1,2) by (cases q) auto
    have "addr_of x \<noteq> a0" "a0 \<notin> set (addrs l @ addr_of x # addrs r)"
      using sub_at_addrs [OF B(2)] B(3) by auto
    with IH [OF b] m(1,2) B(4) show ?thesis by (auto split: if_splits)
  qed
  consider "k = key_of y" | "k < key_of y" "k \<noteq> key_of y" | "\<not> k < key_of y" "k \<noteq> key_of y" by force
  then show ?case
  proof cases
    case 1
    with Node.prems m show ?thesis by auto
  next
    case 2
    then have L: "sub_at k L = \<langle>l, x, r\<rangle>" using Node.prems(3) by simp
    show ?thesis
    proof (rule step [OF m(4) L d(3)])
      fix b
      assume "bn_left m = Some b"
      then show "if addr_of x = b then bn_parent n = Some a0
          else \<exists>p pn. bn_parent n = Some p \<and> h p = Some pn \<and> p \<in> set (addrs L) \<and>
            p \<notin> set (addrs l @ addr_of x # addrs r)"
        using Node.IH(1) [of "Some a0" b] m(4) d(1) L Node.prems(4) by simp
    qed auto
  next
    case 3
    then have R: "sub_at k R = \<langle>l, x, r\<rangle>" using Node.prems(3) by simp
    show ?thesis
    proof (rule step [OF m(5) R d(4)])
      fix b
      assume "bn_right m = Some b"
      then show "if addr_of x = b then bn_parent n = Some a0
          else \<exists>p pn. bn_parent n = Some p \<and> h p = Some pn \<and> p \<in> set (addrs R) \<and>
            p \<notin> set (addrs l @ addr_of x # addrs r)"
        using Node.IH(2) [of "Some a0" b] m(5) d(2) R Node.prems(4) by simp
    qed auto
  qed
qed simp

text \<open>
  The new child in its place.  \<open>h'\<close> differs from \<open>h\<close> only in the deleted node's subtree and in the
  link of its parent.
\<close>

definition relinked :: "nat \<Rightarrow> nat option \<Rightarrow> ('k, 'v) BinaryNode \<Rightarrow> ('k, 'v) BinaryNode" where
  "relinked a nc pn =
     (if bn_right pn = Some a then pn\<lparr>bn_right := nc\<rparr> else pn\<lparr>bn_left := nc\<rparr>)"

lemma sub_at_root:
  assumes "is_tree h par (Some (addr_of x)) B" and "distinct (addrs B)" and "sub_at k B = \<langle>l, x, r\<rangle>"
  shows "adel k B = ajoin l r"
proof (cases B)
  case (Node L y R)
  have "k = key_of y"
  proof (rule ccontr)
    assume "k \<noteq> key_of y"
    then have "sub_at k L = \<langle>l, x, r\<rangle> \<or> sub_at k R = \<langle>l, x, r\<rangle>"
      using assms(3) Node by (simp split: if_splits)
    then have "addr_of x \<in> set (addrs L) \<union> set (addrs R)"
      using sub_at_addrs [of k L l x r] sub_at_addrs [of k R l x r] by auto
    with assms(1,2) Node show False by auto
  qed
  with assms(3) Node show ?thesis by simp
qed (use assms in simp)

lemma delete_child_cases:
  assumes "is_tree h (Some a0) q B" and "distinct (addrs B)" and "sub_at k B = \<langle>l, x, r\<rangle>"
    and "h (addr_of x) = Some n" and "bn_parent n = Some p"
  obtains "q = Some (addr_of x)" "p = a0" "adel k B = ajoin l r"
    | b where "q = Some b" "addr_of x \<noteq> b" "p \<in> set (addrs B)"
proof -
  obtain b where b: "q = Some b" using assms(1,3) by (cases q) auto
  note par = sub_at_parent [OF assms(1) [unfolded b] assms(2-4)]
  show ?thesis
  proof (cases "addr_of x = b")
    case True
    with par assms b sub_at_root [of h "Some a0" x B k l r] that(1) show ?thesis by auto
  next
    case False
    with par assms(5) b that(2) show ?thesis by auto
  qed
qed

lemma delete_in_context:
  assumes "is_tree h par (Some a0) A" and "distinct (addrs A)" and "sub_at k A = \<langle>l, x, r\<rangle>"
    and "addr_of x \<noteq> a0" and "h (addr_of x) = Some n" and "bn_parent n = Some p" and "h p = Some pn"
    and "h' p = Some (relinked (addr_of x) nc pn)" and "is_tree h' (Some p) nc (ajoin l r)"
    and frame: "\<And>b. b \<notin> set (addrs l) \<union> set (addrs r) \<Longrightarrow> b \<noteq> p \<Longrightarrow> h' b = h b"
  shows "is_tree h' par (Some a0) (adel k A)"
  using assms(1-4)
proof (induction A arbitrary: par a0)
  case (Node L y R)
  obtain m where m: "addr_of y = a0" "h a0 = Some m" "bn_key m = key_of y" "bn_value m = val_of y"
      "bn_parent m = par" "is_tree h (Some a0) (bn_left m) L" "is_tree h (Some a0) (bn_right m) R"
    using Node.prems(1) by auto
  have d: "distinct (addrs L)" "distinct (addrs R)" "a0 \<notin> set (addrs L)" "a0 \<notin> set (addrs R)"
      "set (addrs L) \<inter> set (addrs R) = {}"
    using Node.prems(2) m(1) by auto
  have sub: "set (addrs l) \<union> set (addrs r) \<subseteq> set (addrs B)" if "sub_at k B = \<langle>l, x, r\<rangle>" for B
    using sub_at_addrs [OF that] by auto
  have keep: "is_tree h' q c B" if "is_tree h q c B" "p \<notin> set (addrs B)"
      "set (addrs B) \<inter> (set (addrs l) \<union> set (addrs r)) = {}" for q c B
    using that is_tree_cong [of B h' h q c] frame by blast
  consider "k = key_of y" | "k < key_of y" "k \<noteq> key_of y" | "\<not> k < key_of y" "k \<noteq> key_of y" by force
  then show ?case
  proof cases
    case 1
    with Node.prems(3,4) m(1) show ?thesis by auto
  next
    case 2
    then have L: "sub_at k L = \<langle>l, x, r\<rangle>" using Node.prems(3) by simp
    have R': "is_tree h' (Some a0) (bn_right m) R" if "p \<in> insert a0 (set (addrs L))"
      by (rule keep [OF m(7)]) (use that sub [OF L] d in auto)
    from m(6) d(1) L assms(5,6) show ?thesis
    proof (cases rule: delete_child_cases)
      case 1
      then have "bn_right m \<noteq> Some (addr_of x)"
        using root_addr [of h "Some a0" "addr_of x"] m(6,7) d(5) by fastforce
      then have "h' a0 = Some (m\<lparr>bn_left := nc\<rparr>)" using assms(7,8) 1 m(2) by (simp add: relinked_def)
      with 1 2 m assms(9) R' show ?thesis by simp
    next
      case (2 b)
      have "h' a0 = h a0" by (rule frame) (use sub [OF L] d(3) 2(3) in auto)
      with 2 \<open>k < key_of y\<close> \<open>k \<noteq> key_of y\<close> m R' Node.IH(1) [of "Some a0" b] d(1) L show ?thesis by simp
    qed
  next
    case 3
    then have R: "sub_at k R = \<langle>l, x, r\<rangle>" using Node.prems(3) by simp
    have L': "is_tree h' (Some a0) (bn_left m) L" if "p \<in> insert a0 (set (addrs R))"
      by (rule keep [OF m(6)]) (use that sub [OF R] d in auto)
    from m(7) d(2) R assms(5,6) show ?thesis
    proof (cases rule: delete_child_cases)
      case 1
      then have "h' a0 = Some (m\<lparr>bn_right := nc\<rparr>)" using assms(7,8) m(2) by (simp add: relinked_def)
      with 1 3 m assms(9) L' show ?thesis by simp
    next
      case (2 b)
      have "h' a0 = h a0" by (rule frame) (use sub [OF R] d(4) 2(3) in auto)
      with 2 3 m L' Node.IH(2) [of "Some a0" b] d(2) R show ?thesis by simp
    qed
  qed
qed simp

lemma adel_addrs: "set (addrs (adel k A)) \<subseteq> set (addrs A)"
proof (induction A)
  case (Node l x r)
  with addrs_ajoin [of l r] show ?case by auto
qed simp

lemma distinct_addrs_adel: "distinct (addrs A) \<Longrightarrow> distinct (addrs (adel k A))"
proof (induction A)
  case (Node l x r)
  then show ?case
    using adel_addrs [of k l] adel_addrs [of k r] by (auto intro!: distinct_addrs_ajoin)
qed simp

lemma adel_absent: "sub_at k A = \<langle>\<rangle> \<Longrightarrow> adel k A = A"
  by (induction A) auto

lemma sub_at_absent: "A \<noteq> \<langle>\<rangle> \<Longrightarrow> key_of (fip k A) \<noteq> k \<Longrightarrow> sub_at k A = \<langle>\<rangle>"
  by (induction A) (auto split: if_splits)

lemma subseq_ajoin: "subseq (entries (ajoin l r)) (entries l @ entries r)"
proof (cases "l = \<langle>\<rangle> \<or> r = \<langle>\<rangle>")
  case False
  obtain m mr where m: "min_node r = (m, mr)" by (cases "min_node r")
  then obtain es where "inorder r = m # inorder mr @ es" using entries_min [of r m mr] False by auto
  then have "entries r = entries (ajoin l r) @ map snd es"
    using False m by (simp add: entries_def ajoin_def)
  then show ?thesis by (simp add: list_emb_append2 subseq_rev_drop_many)
qed (auto simp: ajoin_def)

lemma subseq_adel:
  "key_sorted (entries A) \<Longrightarrow> subseq (entries (adel k A)) (filter (\<lambda>e. fst e \<noteq> k) (entries A))"
proof (induction A)
  case (Node l x r)
  then have srt: "key_sorted (entries l)" "key_sorted (entries r)"
      "\<forall>e \<in> set (entries l). fst e < key_of x" "\<forall>f \<in> set (entries r). key_of x < fst f"
    by (simp_all add: key_sorted_Node)
  have keep: "filter (\<lambda>e. fst e \<noteq> k) es = es" if "\<forall>e \<in> set es. fst e \<noteq> k" for es :: "('a \<times> 'b) list"
    using that by (simp add: filter_id_conv)
  consider "k = key_of x" | "k < key_of x" | "key_of x < k" by force
  then show ?case
  proof cases
    case 1
    then have "filter (\<lambda>e. fst e \<noteq> k) (entries l) = entries l"
        "filter (\<lambda>e. fst e \<noteq> k) (entries r) = entries r"
      using srt(3,4) by (intro keep; auto)+
    with 1 subseq_ajoin [of l r] show ?thesis by simp
  next
    case 2
    then have "filter (\<lambda>e. fst e \<noteq> k) (entries r) = entries r" using srt(4) by (intro keep) auto
    with 2 Node.IH(1) srt(1) show ?thesis by (auto intro: list_emb_append_mono)
  next
    case 3
    then have "filter (\<lambda>e. fst e \<noteq> k) (entries l) = entries l" using srt(3) by (intro keep) auto
    with 3 Node.IH(2) srt(2) show ?thesis by (auto intro: list_emb_append_mono)
  qed
qed simp

lemma key_sorted_subseq: "subseq fs es \<Longrightarrow> key_sorted es \<Longrightarrow> key_sorted fs"
proof -
  have "sorted_wrt (<) ys \<Longrightarrow> sorted_wrt (<) xs" if "subseq xs ys" for xs ys :: "'a list"
    using that
  proof (induction rule: list_emb.induct)
    case (list_emb_Cons2 x y xs ys)
    moreover have "set xs \<subseteq> set ys" using list_emb_Cons2(2) by (auto elim: list_emb_set)
    ultimately show ?case by auto
  qed auto
  then show "subseq fs es \<Longrightarrow> key_sorted es \<Longrightarrow> key_sorted fs"
    using subseq_map [of fs es fst] by (simp add: key_sorted_def)
qed

text \<open>The last step of \<open>Delete\<close>: the parent pointer of the new child.\<close>

lemma delete_finish:
  assumes "is_tree h q nc J" and "distinct (addrs J)"
  obtains h' where "(case nc of None \<Rightarrow> Some h
      | Some c \<Rightarrow> map_option (\<lambda>cn. h(c \<mapsto> cn\<lparr>bn_parent := par\<rparr>)) (h c)) = Some h'"
    "is_tree h' par nc J" "\<And>b. b \<notin> set (addrs J) \<Longrightarrow> h' b = h b"
proof (cases nc)
  case None
  with assms that [of h] show ?thesis by auto
next
  case (Some c)
  then obtain cn where "h c = Some cn" "c \<in> set (addrs J)"
    using assms(1) root_addr [of h q c J] by (auto elim: is_tree_Some)
  with assms Some is_tree_reparent [of h q c J cn par] show ?thesis
    by (intro that [of "h(c \<mapsto> cn\<lparr>bn_parent := par\<rparr>)"]) auto
qed

lemma delete_code:
  assumes "FindOrInsertionParent k t = Some (Some a)" and "bt_heap t a = Some n" and "bn_key n = k"
    and "delete_new_child (bt_heap t) n = Some (h1, nc)"
    and "delete_relink a nc h1 (bt_root t) = Some (h2, root)" and "h2 a = Some n'"
    and "(case nc of None \<Rightarrow> Some h2
      | Some c \<Rightarrow> map_option (\<lambda>cn. h2(c \<mapsto> cn\<lparr>bn_parent := bn_parent n'\<rparr>)) (h2 c)) = Some h3"
  shows "BinaryTree_Delete k t = Some (t\<lparr>bt_heap := h3, bt_root := root\<rparr>)"
  using assms by (auto simp: BinaryTree_Delete_def split: option.splits)

lemma delete_relink_rep:
  assumes "is_tree h None (Some a0) A" and "distinct (addrs A)" and sub: "sub_at k A = \<langle>l, x, r\<rangle>"
    and "h (addr_of x) = Some n" and h1: "is_tree h1 q nc (ajoin l r)"
      "\<And>b. b \<notin> set (addrs r) \<Longrightarrow> h1 b = h b"
  shows "\<exists>h2 h3 root. delete_relink (addr_of x) nc h1 (Some a0) = Some (h2, root) \<and>
    h2 (addr_of x) = Some n \<and>
    (case nc of None \<Rightarrow> Some h2
      | Some c \<Rightarrow> map_option (\<lambda>cn. h2(c \<mapsto> cn\<lparr>bn_parent := bn_parent n\<rparr>)) (h2 c)) = Some h3 \<and>
    is_tree h3 None root (adel k A)"
proof -
  have d: "distinct (addrs l @ addrs r)" "addr_of x \<notin> set (addrs l) \<union> set (addrs r)"
    using assms(2) sub_at_addrs [OF sub] by auto
  have na: "h1 (addr_of x) = Some n" using h1(2) [of "addr_of x"] d(2) assms(4) by simp
  have dj: "distinct (addrs (ajoin l r))" using distinct_addrs_ajoin [OF d(1)] .
  note par = sub_at_parent [OF assms(1-4)]
  show ?thesis
  proof (cases "addr_of x = a0")
    case True
    obtain h3 where "(case nc of None \<Rightarrow> Some h1
          | Some c \<Rightarrow> map_option (\<lambda>cn. h1(c \<mapsto> cn\<lparr>bn_parent := bn_parent n\<rparr>)) (h1 c)) = Some h3"
        "is_tree h3 (bn_parent n) nc (ajoin l r)"
      by (rule delete_finish [OF h1(1) dj])
    with par True na sub_at_root [of h None x A k l r] assms(1-3) show ?thesis
      by (intro exI [of _ h1] exI [of _ h3] exI [of _ nc]) (auto simp: delete_relink_def)
  next
    case False
    then obtain p pn where p: "bn_parent n = Some p" "h p = Some pn"
        "p \<notin> set (addrs l @ addr_of x # addrs r)"
      using par by auto
    let ?h2 = "h1(p \<mapsto> relinked (addr_of x) nc pn)"
    have relink: "delete_relink (addr_of x) nc h1 (Some a0) = Some (?h2, Some a0)"
      using p h1(2) [of p] na False by (simp add: delete_relink_def relinked_def)
    have pj: "p \<notin> set (addrs (ajoin l r))" using p(3) addrs_ajoin [of l r] by auto
    then have "is_tree ?h2 q nc (ajoin l r)" using h1(1) by (simp add: is_tree_upd)
    from delete_finish [OF this dj, of "bn_parent n"] obtain h3 where
      h3: "(case nc of None \<Rightarrow> Some ?h2
          | Some c \<Rightarrow> map_option (\<lambda>cn. ?h2(c \<mapsto> cn\<lparr>bn_parent := bn_parent n\<rparr>)) (?h2 c)) = Some h3"
        "is_tree h3 (bn_parent n) nc (ajoin l r)" "\<And>b. b \<notin> set (addrs (ajoin l r)) \<Longrightarrow> h3 b = ?h2 b"
      by blast
    have "h3 b = h b" if "b \<notin> set (addrs l) \<union> set (addrs r)" "b \<noteq> p" for b
      using that h3(3) [of b] h1(2) [of b] addrs_ajoin [of l r] by auto
    then have "is_tree h3 None (Some a0) (adel k A)"
      using False p h3(2,3) pj by (intro delete_in_context [OF assms(1-3) _ assms(4) p(1,2)]) auto
    moreover have "?h2 (addr_of x) = Some n" using na p(3) by auto
    ultimately show ?thesis using relink h3(1) by blast
  qed
qed

lemma BinaryTree_Delete_rep:
  assumes "bt_rep t A"
  shows "\<exists>t'. BinaryTree_Delete k t = Some t' \<and> bt_rep t' (adel k A) \<and> bt_next t' = bt_next t"
proof (cases "A = \<langle>\<rangle> \<or> key_of (fip k A) \<noteq> k")
  case True
  have tr: "is_tree (bt_heap t) None (bt_root t) A" using assms by (simp add: bt_rep_def)
  from True have "adel k A = A" using sub_at_absent [of A k] adel_absent [of k A]
    by (cases "A = \<langle>\<rangle>") auto
  moreover have "BinaryTree_Delete k t = Some t"
    using FindOrInsertionParent_rep [OF tr, of k] True fip_heap [OF tr fip_in [of A k]]
    by (auto simp: BinaryTree_Delete_def)
  ultimately show ?thesis using assms by simp
next
  case False
  have tr: "is_tree (bt_heap t) None (bt_root t) A" "distinct (addrs A)"
      "\<forall>a \<in> set (addrs A). a < bt_next t" "key_sorted (entries A)"
    using assms by (simp_all add: bt_rep_def)
  let ?x = "fip k A" and ?h = "bt_heap t"
  obtain a0 where a0: "bt_root t = Some a0" using tr(1) False by (cases "bt_root t") auto
  obtain l r where sub: "sub_at k A = \<langle>l, ?x, r\<rangle>" using fip_sub_at [of A k] False by blast
  have d: "distinct (addrs l @ addrs r)" using sub_at_addrs [OF sub] tr(2) by auto
  obtain n where n: "?h (addr_of ?x) = Some n" "bn_key n = k"
      "is_tree ?h (Some (addr_of ?x)) (bn_left n) l" "is_tree ?h (Some (addr_of ?x)) (bn_right n) r"
    using sub_at_tree [OF tr(1) sub] fip_heap [OF tr(1) fip_in [of A k]] False by auto
  obtain h1 nc q where h1: "delete_new_child ?h n = Some (h1, nc)" "is_tree h1 q nc (ajoin l r)"
      "\<And>b. b \<notin> set (addrs r) \<Longrightarrow> h1 b = ?h b"
    using delete_new_child_ok [OF n(3,4) d] by blast
  have find: "FindOrInsertionParent k t = Some (Some (addr_of ?x))"
    using FindOrInsertionParent_rep [OF tr(1), of k] False by simp
  obtain h3 root where "BinaryTree_Delete k t = Some (t\<lparr>bt_heap := h3, bt_root := root\<rparr>)"
      "is_tree h3 None root (adel k A)"
    using delete_relink_rep [OF tr(1) [unfolded a0] tr(2) sub n(1) h1(2,3)]
      delete_code [OF find n(1,2) h1(1)] a0 by auto
  moreover have "key_sorted (entries (adel k A))"
    using key_sorted_subseq [OF subseq_adel [OF tr(4)]] tr(4)
    by (auto simp: key_sorted_def sorted_wrt_map intro: sorted_wrt_filter)
  moreover have "\<forall>a \<in> set (addrs (adel k A)). a < bt_next t" using adel_addrs [of k A] tr(3) by blast
  ultimately show ?thesis
    using distinct_addrs_adel [OF tr(2), of k] by (auto simp: bt_rep_def)
qed

section \<open>The ordered table interface\<close>

text \<open>
  What the kernel's mapping tree relies on: the table is a list of entries in key order, searched
  for a key, for its left and for its right neighbour.  Deletion is only known to remove the key
  and to keep the order of what it keeps.
\<close>

locale ordered_table =
  fixes rep :: "'s \<Rightarrow> ('k::linorder \<times> 'v) list \<Rightarrow> bool"
    and find :: "'k \<Rightarrow> 's \<Rightarrow> 'v option option"
    and pred :: "'k \<Rightarrow> 's \<Rightarrow> 'v option option"
    and succ :: "'k \<Rightarrow> 's \<Rightarrow> 'v option option"
    and insert :: "'k \<Rightarrow> 'v \<Rightarrow> 's \<Rightarrow> 's option"
    and delete :: "'k \<Rightarrow> 's \<Rightarrow> 's option"
  assumes rep_sorted: "rep t es \<Longrightarrow> key_sorted es"
    and find_ok: "rep t es \<Longrightarrow> find k t = Some (map_of es k)"
    and pred_ok: "rep t es \<Longrightarrow> pred k t = Some (map_option snd (last_opt (filter (\<lambda>e. fst e < k) es)))"
    and succ_ok: "rep t es \<Longrightarrow> succ k t = Some (map_option snd (head_opt (filter (\<lambda>e. k < fst e) es)))"
    and insert_ok: "rep t es \<Longrightarrow> \<exists>t'. insert k v t = Some t' \<and> rep t' (ins_entry k v es)"
    and delete_ok: "rep t es \<Longrightarrow>
      \<exists>t' es'. delete k t = Some t' \<and> rep t' es' \<and> subseq es' (filter (\<lambda>e. fst e \<noteq> k) es)"
begin

lemma insert_then_find:
  assumes "rep t es"
  shows "\<exists>t'. insert k v t = Some t' \<and> find k' t' = Some (((map_of es)(k \<mapsto> v)) k')"
proof -
  obtain t' where "insert k v t = Some t'" "rep t' (ins_entry k v es)" using insert_ok [OF assms] by blast
  then show ?thesis using find_ok map_of_ins [of k v es] by auto
qed

lemma delete_then_find:
  assumes "rep t es"
  shows "\<exists>t'. delete k t = Some t' \<and> find k t' = Some None"
proof -
  obtain t' es' where t': "delete k t = Some t'" "rep t' es'" "subseq es' (filter (\<lambda>e. fst e \<noteq> k) es)"
    using delete_ok [OF assms] by blast
  have "k \<notin> fst ` set es'" using t'(3) by (auto elim: list_emb_set)
  with t' find_ok show ?thesis by (auto simp: map_of_eq_None_iff)
qed

lemma pred_is_greatest_below:
  assumes "rep t es" and "pred k t = Some (Some v)"
  shows "\<exists>k'. (k', v) \<in> set es \<and> k' < k \<and> (\<forall>e \<in> set es. fst e < k \<longrightarrow> fst e \<le> k')"
proof -
  let ?fs = "filter (\<lambda>e. fst e < k) es"
  have last: "last_opt ?fs = Some (fst (last ?fs), v)" "?fs \<noteq> []"
    using pred_ok [OF assms(1), of k] assms(2) by (auto simp: last_opt_def split: if_splits)
  have srt: "sorted_wrt (<) (map fst (butlast ?fs @ [last ?fs]))"
    using rep_sorted [OF assms(1)] last(2)
    by (simp add: key_sorted_def sorted_wrt_map sorted_wrt_filter del: map_append)
  have "fst e \<le> fst (last ?fs)" if "e \<in> set es" "fst e < k" for e
  proof -
    have "e \<in> set (butlast ?fs @ [last ?fs])" using that last(2) by simp
    with srt show ?thesis by (auto simp: sorted_wrt_append)
  qed
  moreover have "(fst (last ?fs), v) \<in> set ?fs"
    using last by (auto simp: last_opt_def dest: last_in_set split: if_splits)
  ultimately show ?thesis by auto
qed

end

definition bt_entries :: "('k::linorder, 'v) BinaryTree \<Rightarrow> ('k \<times> 'v) list \<Rightarrow> bool" where
  "bt_entries t es \<longleftrightarrow> (\<exists>A. bt_rep t A \<and> entries A = es)"

interpretation bt: ordered_table bt_entries BinaryTree_Find BinaryTree_Predecessor
    BinaryTree_Successor BinaryTree_Insert BinaryTree_Delete
proof
  fix t :: "('a, 'b) BinaryTree" and es k v
  assume "bt_entries t es"
  then obtain A where A: "bt_rep t A" "entries A = es" by (auto simp: bt_entries_def)
  then show srt: "key_sorted es" by (simp add: bt_rep_def)
  show "BinaryTree_Find k t = Some (map_of es k)" using BinaryTree_Find_rep [OF A(1)] A(2) by simp
  show "BinaryTree_Predecessor k t = Some (map_option snd (last_opt (filter (\<lambda>e. fst e < k) es)))"
    using BinaryTree_Predecessor_rep [OF A(1)] A(2) by simp
  show "BinaryTree_Successor k t = Some (map_option snd (head_opt (filter (\<lambda>e. k < fst e) es)))"
    using BinaryTree_Successor_rep [OF A(1)] A(2) by simp
  show "\<exists>t'. BinaryTree_Insert k v t = Some t' \<and> bt_entries t' (ins_entry k v es)"
    using BinaryTree_Insert_rep [OF A(1), of k v] A(2) srt entries_ains [of A "bt_next t" k v]
    by (auto simp: bt_entries_def)
  show "\<exists>t' es'. BinaryTree_Delete k t = Some t' \<and> bt_entries t' es' \<and>
      subseq es' (filter (\<lambda>e. fst e \<noteq> k) es)"
    using BinaryTree_Delete_rep [OF A(1), of k] A(2) srt subseq_adel [of A k]
    by (auto simp: bt_entries_def)
qed

section \<open>Properties\<close>

fun insert_all :: "('k::linorder \<times> 'v) list \<Rightarrow> ('k, 'v) BinaryTree \<Rightarrow> ('k, 'v) BinaryTree option" where
  "insert_all [] t = Some t"
| "insert_all ((k, v) # kvs) t = Option.bind (BinaryTree_Insert k v t) (insert_all kvs)"

lemma bt_entries_new: "bt_entries BinaryTree_new []"
  by (auto simp: bt_entries_def bt_rep_def BinaryTree_new_def key_sorted_def intro!: exI [of _ "\<langle>\<rangle>"])

lemma insert_all_entries:
  "bt_entries t es \<Longrightarrow>
     \<exists>t'. insert_all kvs t = Some t' \<and> bt_entries t' (fold (\<lambda>(k, v). ins_entry k v) kvs es)"
proof (induction kvs arbitrary: t es)
  case (Cons kv kvs)
  obtain k v where kv: "kv = (k, v)" by force
  obtain t1 where "BinaryTree_Insert k v t = Some t1" "bt_entries t1 (ins_entry k v es)"
    using bt.insert_ok [OF Cons.prems] by blast
  with Cons.IH [of t1] kv show ?case by auto
qed auto

lemma map_of_fold_ins: "map_of (fold (\<lambda>(k, v). ins_entry k v) kvs es) = map_of (rev kvs @ es)"
  by (induction kvs arbitrary: es) (auto simp: map_of_ins fun_eq_iff map_add_def split: option.splits)

text \<open>
  C19.  The search tree built by any sequence of insertions into the empty tree is an ordered map:
  all insertions return, \<open>Find\<close> returns the value inserted last under the key,
  \<open>Predecessor\<close> and \<open>Successor\<close>, with their walks along the parent pointers, return the values
  of the neighbouring keys in the sorted list of entries, and every one of these searches ends.
\<close>

theorem BinaryTree_ordered_map:
  "\<exists>t es. insert_all kvs BinaryTree_new = Some t \<and> key_sorted es \<and> map_of es = map_of (rev kvs) \<and>
     BinaryTree_Find k t = Some (map_of (rev kvs) k) \<and>
     BinaryTree_Predecessor k t = Some (map_option snd (last_opt (filter (\<lambda>e. fst e < k) es))) \<and>
     BinaryTree_Successor k t = Some (map_option snd (head_opt (filter (\<lambda>e. k < fst e) es)))"
proof -
  let ?es = "fold (\<lambda>(k, v). ins_entry k v) kvs []"
  obtain t where t: "insert_all kvs BinaryTree_new = Some t" "bt_entries t ?es"
    using insert_all_entries [OF bt_entries_new] by blast
  have "map_of ?es = map_of (rev kvs)" using map_of_fold_ins [of kvs "[]"] by simp
  with t bt.rep_sorted [OF t(2)] bt.find_ok [OF t(2), of k] bt.pred_ok [OF t(2), of k]
    bt.succ_ok [OF t(2), of k] show ?thesis by metis
qed

lemma length_ajoin:
  "l \<noteq> \<langle>\<rangle> \<Longrightarrow> r \<noteq> \<langle>\<rangle> \<Longrightarrow> length (entries (ajoin l r)) \<le> length (entries r)"
proof -
  assume ne: "l \<noteq> \<langle>\<rangle>" "r \<noteq> \<langle>\<rangle>"
  obtain m mr where m: "min_node r = (m, mr)" by (cases "min_node r")
  then obtain es where "inorder r = m # inorder mr @ es" using entries_min [of r m mr] ne by auto
  with m ne show ?thesis by (simp add: entries_def ajoin_def)
qed

definition two_children :: "('k, 'v) atree \<Rightarrow> bool" where
  "two_children A \<longleftrightarrow> (case A of \<langle>\<rangle> \<Rightarrow> False | \<langle>l, x, r\<rangle> \<Rightarrow> l \<noteq> \<langle>\<rangle> \<and> r \<noteq> \<langle>\<rangle>)"

lemma ajoin_exact: "entries (ajoin l r) = entries l @ entries r \<longleftrightarrow> \<not> (l \<noteq> \<langle>\<rangle> \<and> r \<noteq> \<langle>\<rangle>)"
proof -
  have "0 < length (entries l)" if "l \<noteq> \<langle>\<rangle>" using that by (cases l) auto
  then have "length (entries (ajoin l r)) \<noteq> length (entries l @ entries r)" if "l \<noteq> \<langle>\<rangle>" "r \<noteq> \<langle>\<rangle>"
    using that length_ajoin [OF that] by auto
  then have "entries (ajoin l r) \<noteq> entries l @ entries r" if "l \<noteq> \<langle>\<rangle>" "r \<noteq> \<langle>\<rangle>"
    using that by metis
  then show ?thesis by (auto simp: ajoin_def)
qed

lemma adel_exact:
  "key_sorted (entries A) \<Longrightarrow>
     entries (adel k A) = filter (\<lambda>e. fst e \<noteq> k) (entries A) \<longleftrightarrow> \<not> two_children (sub_at k A)"
proof (induction A)
  case (Node l x r)
  then have srt: "key_sorted (entries l)" "key_sorted (entries r)"
      "\<forall>e \<in> set (entries l). fst e < key_of x" "\<forall>f \<in> set (entries r). key_of x < fst f"
    by (simp_all add: key_sorted_Node)
  have keep: "filter (\<lambda>e. fst e \<noteq> k) es = es" if "\<forall>e \<in> set es. fst e \<noteq> k" for es :: "('a \<times> 'b) list"
    using that by (simp add: filter_id_conv)
  consider "k = key_of x" | "k < key_of x" | "key_of x < k" by force
  then show ?case
  proof cases
    case 1
    then have "filter (\<lambda>e. fst e \<noteq> k) (entries l) = entries l"
        "filter (\<lambda>e. fst e \<noteq> k) (entries r) = entries r"
      using srt(3,4) by (intro keep; auto)+
    with 1 ajoin_exact [of l r] show ?thesis by (simp add: two_children_def)
  next
    case 2
    then have "filter (\<lambda>e. fst e \<noteq> k) (entries r) = entries r" using srt(4) by (intro keep) auto
    with 2 Node.IH(1) srt(1) show ?thesis by auto
  next
    case 3
    then have "filter (\<lambda>e. fst e \<noteq> k) (entries l) = entries l" using srt(3) by (intro keep) auto
    with 3 Node.IH(2) srt(2) show ?thesis by auto
  qed
qed (simp add: two_children_def)

text \<open>
  C23.  \<open>Delete\<close> always returns and leaves a well-formed search tree without the key, holding a
  subsequence of the old entries; it keeps all other entries exactly when the deleted node does
  not have two children.  A node with two children is replaced by its successor with only the
  successor's right subtree, so that its left subtree and the rest of its right subtree are lost.
\<close>

theorem BinaryTree_Delete_exact:
  assumes "bt_rep t A"
  shows "\<exists>t'. BinaryTree_Delete k t = Some t' \<and> bt_rep t' (adel k A) \<and>
    BinaryTree_Find k t' = Some None \<and>
    subseq (entries (adel k A)) (filter (\<lambda>e. fst e \<noteq> k) (entries A)) \<and>
    (entries (adel k A) = filter (\<lambda>e. fst e \<noteq> k) (entries A) \<longleftrightarrow> \<not> two_children (sub_at k A))"
proof -
  have srt: "key_sorted (entries A)" using assms by (simp add: bt_rep_def)
  obtain t' where t': "BinaryTree_Delete k t = Some t'" "bt_rep t' (adel k A)"
    using BinaryTree_Delete_rep [OF assms] by blast
  have "k \<notin> fst ` set (entries (adel k A))"
    using subseq_adel [OF srt, of k] by (auto elim: list_emb_set)
  then have "BinaryTree_Find k t' = Some None"
    using BinaryTree_Find_rep [OF t'(2), of k] by (simp add: map_of_eq_None_iff)
  with t' subseq_adel [OF srt] adel_exact [OF srt] show ?thesis by blast
qed

text \<open>The keys 2, 1 and 3 inserted in this order: deleting 2 also loses 1.\<close>

definition bt_example :: "(nat, nat) BinaryTree" where
  "bt_example = \<lparr>bt_heap =
     [0 \<mapsto> \<lparr>bn_key = 2, bn_value = 20, bn_left = Some 1, bn_right = Some 2, bn_parent = None\<rparr>,
      1 \<mapsto> \<lparr>bn_key = 1, bn_value = 10, bn_left = None, bn_right = None, bn_parent = Some 0\<rparr>,
      2 \<mapsto> \<lparr>bn_key = 3, bn_value = 30, bn_left = None, bn_right = None, bn_parent = Some 0\<rparr>],
     bt_root = Some 0, bt_next = 3\<rparr>"

theorem BinaryTree_Delete_exact_witness:
  "\<exists>t'. BinaryTree_Delete 2 bt_example = Some t' \<and> bt_rep t' \<langle>\<langle>\<rangle>, (2, 3, 30), \<langle>\<rangle>\<rangle> \<and>
     BinaryTree_Find 2 t' = Some None"
proof -
  have "bt_rep bt_example \<langle>\<langle>\<langle>\<rangle>, (1, 1, 10), \<langle>\<rangle>\<rangle>, (0, 2, 20), \<langle>\<langle>\<rangle>, (2, 3, 30), \<langle>\<rangle>\<rangle>\<rangle>"
    by (simp add: bt_rep_def bt_example_def key_sorted_def)
  from BinaryTree_Delete_exact [OF this, of 2] show ?thesis by (auto simp: ajoin_def)
qed

end
