(* ===== verification/Zion_PhysicalMemory.thy ===== *)
theory Zion_PhysicalMemory
  imports Glcr_LinkedList "HOL-Library.Multiset"
begin

text \<open>
  The physical memory manager (\<open>zion/memory/physical_memory.cpp\<close>) with the bootstrap allocator
  that serves pages before it exists, and the memory constants (\<open>zion/memory/constants.h\<close>).
  The memory map that the boot loader hands over is the argument \<open>memmap\<close> of the two
  initialisation routines.

  \<open>free_frames\<close> is the multiset of page frames the manager can still hand out.  Every operation
  is shown to move frames between it and the caller and to invent or lose none, from which it
  follows that no frame is ever in two hands at once.
\<close>

definition kPageSize :: u64 where "kPageSize = 0x1000"
definition kUserStackMin :: u64 where "kUserStackMin = 0x00007FF000000000"
definition kUserStackMax :: u64 where "kUserStackMax = 0x0000800000000000"
definition kUserStackSize :: u64 where "kUserStackSize = 0x100000"
definition kKernelStackStart :: u64 where "kKernelStackStart = 0xFFFFFFFF90000000"
definition kKernelStackEnd :: u64 where "kKernelStackEnd = 0xFFFFFFFFA0000000"
definition kKernelStackSize :: u64 where "kKernelStackSize = 3 * kPageSize"
definition kKernelStackOffset :: u64 where "kKernelStackOffset = 4 * kPageSize"
definition kKernelSlabHeapStart :: u64 where "kKernelSlabHeapStart = 0xFFFFFFFF40000000"
definition kKernelSlabHeapEnd :: u64 where "kKernelSlabHeapEnd = 0xFFFFFFFF60000000"
definition kKernelBuddyHeapStart :: u64 where "kKernelBuddyHeapStart = 0xFFFFFFFF60000000"
definition kKernelBuddyHeapEnd :: u64 where "kKernelBuddyHeapEnd = 0xFFFFFFFF80000000"
definition kUserSpaceMax :: u64 where "kUserSpaceMax = 0x0000800000000000"

section \<open>The manager\<close>

record MemBlock =
  mb_base :: u64
  mb_num_pages :: u64

record PhysicalMemoryManager =
  pmm_blocks :: "MemBlock LinkedList"
  pmm_singles :: "u64 LinkedList"
  pmm_allocated :: u64

definition Pmm_empty :: PhysicalMemoryManager where
  "Pmm_empty = \<lparr>pmm_blocks = LinkedList_new, pmm_singles = LinkedList_new, pmm_allocated = 0\<rparr>"

definition AddMemoryRegion :: "u64 \<Rightarrow> u64 \<Rightarrow> PhysicalMemoryManager \<Rightarrow> PhysicalMemoryManager" where
  "AddMemoryRegion base num_pages m =
     m\<lparr>pmm_blocks := LinkedList_PushFront \<lparr>mb_base = base, mb_num_pages = num_pages\<rparr> (pmm_blocks m)\<rparr>"

text \<open>The loop that drops exhausted blocks from the front.\<close>

function skip_empty_blocks :: "MemBlock LinkedList \<Rightarrow> MemBlock LinkedList run" where
  "skip_empty_blocks l =
     run_bind (LinkedList_PeekFront l) (\<lambda>b.
     if mb_num_pages b = 0 then run_bind (LinkedList_PopFront l) (\<lambda>(_, l'). skip_empty_blocks l')
     else Inr l)"
  by auto

termination
  by (relation "measure (length \<circ> ll_front)") (auto simp: LinkedList_PopFront_Inr)

declare skip_empty_blocks.simps [simp del]

definition set_front :: "'a \<Rightarrow> 'a LinkedList \<Rightarrow> 'a LinkedList" where
  "set_front x l = l\<lparr>ll_front := x # tl (ll_front l)\<rparr>"

definition Pmm_AllocatePage :: "PhysicalMemoryManager \<Rightarrow> (u64 \<times> PhysicalMemoryManager) run" where
  "Pmm_AllocatePage m =
     (if ll_size (pmm_singles m) > 0
      then run_map (\<lambda>(page, l). (page, m\<lparr>pmm_singles := l\<rparr>)) (LinkedList_PopFront (pmm_singles m))
      else if ll_size (pmm_blocks m) = 0 then Inl (Panic ''No available memory regions.'')
      else
        run_bind (skip_empty_blocks (pmm_blocks m)) (\<lambda>l.
        run_bind (LinkedList_PeekFront l) (\<lambda>block.
        let page = mb_base block;
            block = block\<lparr>mb_base := mb_base block + kPageSize, mb_num_pages := mb_num_pages block - 1\<rparr>;
            l = set_front block l
        in run_map (\<lambda>l. (page, m\<lparr>pmm_blocks := l, pmm_allocated := pmm_allocated m + 1\<rparr>))
             (if mb_num_pages block = 0 then run_map snd (LinkedList_PopFront l) else Inr l))))"

text \<open>The traversal of \<open>AllocateContinuous\<close>: the first block that is large enough.\<close>

fun take_continuous :: "u64 \<Rightarrow> MemBlock list \<Rightarrow> (u64 \<times> MemBlock list) option" where
  "take_continuous n [] = None"
| "take_continuous n (b # bs) =
     (if mb_num_pages b < n then map_option (\<lambda>(page, bs'). (page, b # bs')) (take_continuous n bs)
      else Some (mb_base b,
             b\<lparr>mb_base := mb_base b + n * kPageSize, mb_num_pages := mb_num_pages b - n\<rparr> # bs))"

definition Pmm_AllocateContinuous ::
    "u64 \<Rightarrow> PhysicalMemoryManager \<Rightarrow> (u64 \<times> PhysicalMemoryManager) run" where
  "Pmm_AllocateContinuous num_pages m =
     (if ll_size (pmm_blocks m) = 0 then Inl (Panic ''No available memory regions.'')
      else
        run_bind (skip_empty_blocks (pmm_blocks m)) (\<lambda>l.
        case take_continuous num_pages (ll_front l) of
          None \<Rightarrow> Inl (Panic ''No memory regions to allocate'')
        | Some (page, bs) \<Rightarrow>
            Inr (page, m\<lparr>pmm_blocks := l\<lparr>ll_front := bs\<rparr>, pmm_allocated := pmm_allocated m + num_pages\<rparr>)))"

definition Pmm_FreePage :: "u64 \<Rightarrow> PhysicalMemoryManager \<Rightarrow> PhysicalMemoryManager" where
  "Pmm_FreePage page m =
     m\<lparr>pmm_singles := LinkedList_PushFront page (pmm_singles m), pmm_allocated := pmm_allocated m - 1\<rparr>"

definition Pmm_FreePages :: "u64 \<Rightarrow> u64 \<Rightarrow> PhysicalMemoryManager \<Rightarrow> PhysicalMemoryManager" where
  "Pmm_FreePages page num_pages m =
     (let m = AddMemoryRegion page num_pages m in m\<lparr>pmm_allocated := pmm_allocated m - num_pages\<rparr>)"

definition Pmm_AvailablePages :: "PhysicalMemoryManager \<Rightarrow> u64" where
  "Pmm_AvailablePages m = fold (\<lambda>b available. available + mb_num_pages b) (ll_front (pmm_blocks m)) 0"

section \<open>Boot\<close>

record memmap_entry =
  me_base :: u64
  me_length :: u64
  me_type :: u64

record BootstrapMemory =
  bs_init_page :: u64
  bs_next_page :: u64
  bs_max_page :: u64

text \<open>The globals \<open>gBootstrap\<close>, \<open>gBootstrapEnabled\<close> and \<open>gPmm\<close>.\<close>

record PhysMem =
  gBootstrap :: BootstrapMemory
  gBootstrapEnabled :: bool
  gPmm :: "PhysicalMemoryManager option"

definition PhysMem_boot :: PhysMem where
  "PhysMem_boot = \<lparr>gBootstrap = \<lparr>bs_init_page = 0, bs_next_page = 0, bs_max_page = 0\<rparr>,
     gBootstrapEnabled = False, gPmm = None\<rparr>"

fun InitBootstrapPageAllocation :: "memmap_entry list \<Rightarrow> PhysMem \<Rightarrow> PhysMem" where
  "InitBootstrapPageAllocation [] s = s"
| "InitBootstrapPageAllocation (e # es) s =
     (if me_type e = 0 \<and> me_length e \<ge> 0x9000
      then s\<lparr>gBootstrap := \<lparr>bs_init_page = me_base e, bs_next_page = me_base e,
               bs_max_page = me_base e + 0x9000\<rparr>, gBootstrapEnabled := True\<rparr>
      else InitBootstrapPageAllocation es s)"

text \<open>One entry of the memory map in the constructor of the manager.\<close>

definition pmm_region :: "BootstrapMemory \<Rightarrow> memmap_entry \<Rightarrow> u64 \<times> u64" where
  "pmm_region bs e =
     (if me_base e = bs_init_page bs
      then (bs_next_page bs, (me_length e - (bs_next_page bs - bs_init_page bs)) div kPageSize)
      else (me_base e, me_length e div kPageSize))"

definition PhysicalMemoryManager_new ::
    "BootstrapMemory \<Rightarrow> memmap_entry list \<Rightarrow> PhysicalMemoryManager" where
  "PhysicalMemoryManager_new bs memmap =
     fold (\<lambda>e m. if me_type e = 0 then (let (base, n) = pmm_region bs e in AddMemoryRegion base n m) else m)
       memmap Pmm_empty"

definition InitPhysicalMemoryManager :: "memmap_entry list \<Rightarrow> PhysMem \<Rightarrow> PhysMem" where
  "InitPhysicalMemoryManager memmap s =
     s\<lparr>gPmm := Some (PhysicalMemoryManager_new (gBootstrap s) memmap)\<rparr>"

definition AllocatePage :: "PhysMem \<Rightarrow> (u64 \<times> PhysMem) run" where
  "AllocatePage s =
     (case gPmm s of
        Some m \<Rightarrow> run_map (\<lambda>(page, m'). (page, s\<lparr>gPmm := Some m'\<rparr>)) (Pmm_AllocatePage m)
      | None \<Rightarrow>
          if \<not> gBootstrapEnabled s then Inl (Panic ''No Bootstrap Memory Manager'')
          else let page = bs_next_page (gBootstrap s)
               in if page = bs_max_page (gBootstrap s) then Inl (Panic ''Bootstrap Memory Manager OOM'')
                  else Inr (page, s\<lparr>gBootstrap := (gBootstrap s)\<lparr>bs_next_page := page + 0x1000\<rparr>\<rparr>))"

definition AllocateContinuous :: "u64 \<Rightarrow> PhysMem \<Rightarrow> (u64 \<times> PhysMem) run" where
  "AllocateContinuous n s =
     (case gPmm s of
        None \<Rightarrow> Inl (Panic ''No physical memory manager!'')
      | Some m \<Rightarrow> run_map (\<lambda>(page, m'). (page, s\<lparr>gPmm := Some m'\<rparr>)) (Pmm_AllocateContinuous n m))"

definition FreePage :: "u64 \<Rightarrow> PhysMem \<Rightarrow> PhysMem run" where
  "FreePage page s =
     (case gPmm s of
        None \<Rightarrow> Inl (Panic ''No physical memory manager!'')
      | Some m \<Rightarrow> Inr (s\<lparr>gPmm := Some (Pmm_FreePage page m)\<rparr>))"

definition FreePages :: "u64 \<Rightarrow> u64 \<Rightarrow> PhysMem \<Rightarrow> PhysMem run" where
  "FreePages page n s =
     (case gPmm s of
        None \<Rightarrow> Inl (Panic ''No physical memory manager!'')
      | Some m \<Rightarrow> Inr (s\<lparr>gPmm := Some (Pmm_FreePages page n m)\<rparr>))"

section \<open>Frames\<close>

definition frames :: "u64 \<Rightarrow> u64 \<Rightarrow> u64 list" where
  "frames base n = map (\<lambda>i. base + of_nat i * kPageSize) [0..<unat n]"

definition block_frames :: "MemBlock \<Rightarrow> u64 list" where
  "block_frames b = frames (mb_base b) (mb_num_pages b)"

definition free_frames :: "PhysicalMemoryManager \<Rightarrow> u64 multiset" where
  "free_frames m = mset (ll_front (pmm_singles m)) + mset (concat (map block_frames (ll_front (pmm_blocks m))))"

definition pmm_inv :: "PhysicalMemoryManager \<Rightarrow> bool" where
  "pmm_inv m \<longleftrightarrow> ll_inv (pmm_singles m) \<and> ll_inv (pmm_blocks m) \<and>
     length (ll_front (pmm_singles m)) < 18446744073709551616 \<and>
     length (ll_front (pmm_blocks m)) < 18446744073709551616"

lemma length_frames [simp]: "length (frames base n) = unat n"
  by (simp add: frames_def)

lemma frames_0 [simp]: "frames base 0 = []"
  by (simp add: frames_def)

lemma frames_split:
  assumes "k \<le> n"
  shows "frames base n = frames base k @ frames (base + k * kPageSize) (n - k)"
proof -
  have k: "unat k \<le> unat n" "unat (n - k) = unat n - unat k"
    using assms by (simp_all add: word_le_unat unat_sub_le)
  have "[0..<unat n] = [0..<unat k] @ map (\<lambda>i. i + unat k) [0..<unat n - unat k]"
    using k(1) upt_add_eq_append [of 0 "unat k" "unat n - unat k"] by (simp add: map_add_upt)
  then show ?thesis
    by (simp add: frames_def k(2) distrib_right add.assoc add.commute [of _ "k * kPageSize"])
qed

lemma frames_1 [simp]: "frames base 1 = [base]"
  by (simp add: frames_def)

lemma block_frames_take:
  assumes "n \<le> mb_num_pages b"
  shows "block_frames b = frames (mb_base b) n @
    block_frames (b\<lparr>mb_base := mb_base b + n * kPageSize, mb_num_pages := mb_num_pages b - n\<rparr>)"
  using frames_split [OF assms] by (simp add: block_frames_def)

lemma skip_empty_blocks_Cons:
  "ll_front l = b # bs \<Longrightarrow> skip_empty_blocks l =
     (if mb_num_pages b = 0 then skip_empty_blocks (l\<lparr>ll_size := ll_size l - 1, ll_front := bs\<rparr>) else Inr l)"
  by (subst skip_empty_blocks.simps) (simp add: LinkedList_PeekFront_def LinkedList_PopFront_def)

lemma skip_empty_blocks_Nil: "ll_front l = [] \<Longrightarrow> skip_empty_blocks l = Inl NullDeref"
  by (subst skip_empty_blocks.simps) (simp add: LinkedList_PeekFront_def)

lemma skip_empty_blocks_result:
  "case dropWhile (\<lambda>b. mb_num_pages b = 0) (ll_front l) of
     [] \<Rightarrow> skip_empty_blocks l = Inl NullDeref
   | b # bs \<Rightarrow> \<exists>l'. skip_empty_blocks l = Inr l' \<and> ll_front l' = b # bs \<and> (ll_inv l \<longrightarrow> ll_inv l')"
proof (induction "ll_front l" arbitrary: l)
  case Nil
  then show ?case by (simp add: skip_empty_blocks_Nil flip: Nil)
next
  case (Cons b bs)
  note front = Cons.hyps(2) [symmetric]
  let ?l = "l\<lparr>ll_size := ll_size l - 1, ll_front := bs\<rparr>"
  have "ll_inv l \<Longrightarrow> ll_inv ?l" using front by (auto simp: ll_inv_def)
  with front Cons.hyps(1) [of ?l] show ?case
    by (cases "dropWhile (\<lambda>b. mb_num_pages b = 0) bs")
       (auto simp: skip_empty_blocks_Cons simp del: dropWhile_eq_Nil_conv)
qed

lemma frames_dropWhile:
  "concat (map block_frames (dropWhile (\<lambda>b. mb_num_pages b = 0) bs)) = concat (map block_frames bs)"
  by (induction bs) (auto simp: block_frames_def)

lemma skip_empty_blocks_Inr:
  assumes "skip_empty_blocks l = Inr l'"
  shows "\<exists>b bs. ll_front l' = b # bs \<and> mb_num_pages b \<noteq> 0 \<and>
    concat (map block_frames (ll_front l)) = concat (map block_frames (b # bs))"
proof -
  obtain b bs where bs: "dropWhile (\<lambda>b. mb_num_pages b = 0) (ll_front l) = b # bs" "ll_front l' = b # bs"
    using assms skip_empty_blocks_result [of l]
    by (cases "dropWhile (\<lambda>b. mb_num_pages b = 0) (ll_front l)") auto
  have "mb_num_pages b \<noteq> 0" using hd_dropWhile [of "\<lambda>b. mb_num_pages b = 0" "ll_front l"] bs(1) by simp
  with bs frames_dropWhile [of "ll_front l"] show ?thesis by simp
qed

section \<open>Conservation of frames\<close>

lemma Pmm_AllocatePage_frames:
  assumes "Pmm_AllocatePage m = Inr (page, m')"
  shows "free_frames m = add_mset page (free_frames m')"
proof (cases "ll_size (pmm_singles m) > 0")
  case True
  with assms show ?thesis
    by (auto simp: Pmm_AllocatePage_def run_map_eq_Inr LinkedList_PopFront_Inr free_frames_def)
next
  case False
  then obtain l where l: "skip_empty_blocks (pmm_blocks m) = Inr l" "ll_size (pmm_blocks m) \<noteq> 0"
    using assms by (auto simp: Pmm_AllocatePage_def run_bind_eq_Inr split: if_splits)
  obtain b bs where b: "ll_front l = b # bs" "mb_num_pages b \<noteq> 0"
      "concat (map block_frames (ll_front (pmm_blocks m))) = concat (map block_frames (b # bs))"
    using skip_empty_blocks_Inr [OF l(1)] by blast
  let ?b = "b\<lparr>mb_base := mb_base b + kPageSize, mb_num_pages := mb_num_pages b - 1\<rparr>"
  have "1 \<le> mb_num_pages b" using b(2) by (simp add: word_le_unat flip: unat_gt_0)
  then have fr: "block_frames b = mb_base b # block_frames ?b"
    using block_frames_take [of 1 b] by simp
  have "block_frames ?b = []" if "mb_num_pages b = 1" using that by (simp add: block_frames_def)
  with assms False l b fr show ?thesis
    by (auto simp: Pmm_AllocatePage_def LinkedList_PeekFront_def LinkedList_PopFront_def set_front_def
        free_frames_def Let_def split: if_splits)
qed

lemma take_continuous_frames:
  "take_continuous n bs = Some (page, bs') \<Longrightarrow>
     mset (concat (map block_frames bs)) = mset (frames page n) + mset (concat (map block_frames bs'))"
proof (induction bs arbitrary: bs')
  case (Cons b bs)
  show ?case
  proof (cases "mb_num_pages b < n")
    case True
    with Cons show ?thesis by auto
  next
    case False
    with Cons.prems block_frames_take [of n b] show ?thesis by (auto simp: not_less)
  qed
qed simp

lemma Pmm_AllocateContinuous_frames:
  assumes "Pmm_AllocateContinuous n m = Inr (page, m')"
  shows "free_frames m = mset (frames page n) + free_frames m'"
proof -
  obtain l bs where l: "skip_empty_blocks (pmm_blocks m) = Inr l"
      "take_continuous n (ll_front l) = Some (page, bs)"
      "m' = m\<lparr>pmm_blocks := l\<lparr>ll_front := bs\<rparr>, pmm_allocated := pmm_allocated m + n\<rparr>"
    using assms
    by (auto simp: Pmm_AllocateContinuous_def run_bind_eq_Inr split: if_splits option.splits)
  have "concat (map block_frames (ll_front (pmm_blocks m))) = concat (map block_frames (ll_front l))"
    using skip_empty_blocks_Inr [OF l(1)] by auto
  with take_continuous_frames [OF l(2)] l(3) show ?thesis
    by (simp add: free_frames_def ac_simps)
qed

lemma Pmm_FreePage_frames: "free_frames (Pmm_FreePage page m) = add_mset page (free_frames m)"
  by (simp add: Pmm_FreePage_def free_frames_def)

lemma Pmm_FreePages_frames: "free_frames (Pmm_FreePages page n m) = mset (frames page n) + free_frames m"
  by (simp add: Pmm_FreePages_def AddMemoryRegion_def free_frames_def block_frames_def Let_def)

lemma ll_inv_set_front: "ll_front l \<noteq> [] \<Longrightarrow> ll_inv l \<Longrightarrow> ll_inv (set_front x l)"
  by (cases "ll_front l") (auto simp: ll_inv_def set_front_def counts_def)

lemma skip_empty_blocks_inv:
  assumes "skip_empty_blocks l = Inr l'" and "ll_inv l"
  shows "ll_inv l' \<and> length (ll_front l') \<le> length (ll_front l)"
  using skip_empty_blocks_result [of l] assms
    length_dropWhile_le [of "\<lambda>b. mb_num_pages b = 0" "ll_front l"]
  by (cases "dropWhile (\<lambda>b. mb_num_pages b = 0) (ll_front l)") auto

lemma Pmm_AllocatePage_inv:
  assumes "Pmm_AllocatePage m = Inr (page, m')" and "pmm_inv m"
  shows "pmm_inv m'"
proof (cases "ll_size (pmm_singles m) > 0")
  case True
  with assms show ?thesis
    by (auto simp: Pmm_AllocatePage_def run_map_eq_Inr pmm_inv_def LinkedList_PopFront_Inr ll_inv_def)
next
  case False
  then obtain l where l: "skip_empty_blocks (pmm_blocks m) = Inr l" "ll_size (pmm_blocks m) \<noteq> 0"
    using assms by (auto simp: Pmm_AllocatePage_def run_bind_eq_Inr split: if_splits)
  have inv: "ll_inv l" "length (ll_front l) < 18446744073709551616"
    using skip_empty_blocks_inv [OF l(1)] assms(2) by (auto simp: pmm_inv_def)
  obtain b bs where b: "ll_front l = b # bs" using skip_empty_blocks_Inr [OF l(1)] by blast
  have sf: "ll_inv (set_front x l)" "ll_front (set_front x l) = x # bs" for x
    using ll_inv_set_front [of l x] inv(1) b by (auto simp: set_front_def)
  have pop: "ll_inv l''" if "LinkedList_PopFront (set_front x l) = Inr (y, l'')" for x y l''
    using ll_inv_PopFront [OF sf(1) that] .
  from assms False l inv b sf pop show ?thesis
    by (auto simp: Pmm_AllocatePage_def pmm_inv_def LinkedList_PeekFront_def Let_def run_map_eq_Inr
        LinkedList_PopFront_Inr split: if_splits)
qed

lemmas frames_moved = Pmm_AllocatePage_frames Pmm_AllocateContinuous_frames
  Pmm_FreePage_frames Pmm_FreePages_frames

lemma Pmm_AllocatePage_returns_iff:
  assumes "pmm_inv m"
  shows "returns (Pmm_AllocatePage m) \<longleftrightarrow> free_frames m \<noteq> {#}"
proof
  assume "returns (Pmm_AllocatePage m)"
  then show "free_frames m \<noteq> {#}" by (auto simp: returns_iff dest: Pmm_AllocatePage_frames)
next
  assume ne: "free_frames m \<noteq> {#}"
  have singles: "ll_size (pmm_singles m) > 0 \<longleftrightarrow> ll_front (pmm_singles m) \<noteq> []"
    using counts_pos_iff [of "ll_size (pmm_singles m)" "ll_front (pmm_singles m)"] assms
    by (auto simp: pmm_inv_def ll_inv_def)
  have blocks: "ll_size (pmm_blocks m) = 0 \<longleftrightarrow> ll_front (pmm_blocks m) = []"
    using counts_zero_iff [of "ll_size (pmm_blocks m)" "ll_front (pmm_blocks m)"] assms
    by (auto simp: pmm_inv_def ll_inv_def)
  show "returns (Pmm_AllocatePage m)"
  proof (cases "ll_front (pmm_singles m)")
    case (Cons p ps)
    with singles show ?thesis by (simp add: Pmm_AllocatePage_def LinkedList_PopFront_def)
  next
    case Nil
    then have "concat (map block_frames (ll_front (pmm_blocks m))) \<noteq> []"
      using ne by (simp add: free_frames_def)
    then have "dropWhile (\<lambda>b. mb_num_pages b = 0) (ll_front (pmm_blocks m)) \<noteq> []"
      using frames_dropWhile [of "ll_front (pmm_blocks m)"]
      by (intro notI) (simp del: dropWhile_eq_Nil_conv)
    then obtain l b bs where "skip_empty_blocks (pmm_blocks m) = Inr l" "ll_front l = b # bs"
      using skip_empty_blocks_result [of "pmm_blocks m"]
      by (cases "dropWhile (\<lambda>b. mb_num_pages b = 0) (ll_front (pmm_blocks m))") auto
    moreover have "ll_front (pmm_blocks m) \<noteq> []"
      using \<open>concat (map block_frames (ll_front (pmm_blocks m))) \<noteq> []\<close> by auto
    ultimately show ?thesis
      using Nil singles blocks
      by (simp add: Pmm_AllocatePage_def LinkedList_PeekFront_def LinkedList_PopFront_def set_front_def Let_def)
  qed
qed

section \<open>Frames in the hands of callers\<close>

text \<open>
  One call of the manager, with the multiset of the frames that callers hold.  A caller frees only
  frames that are held.
\<close>

inductive pmm_step ::
    "PhysicalMemoryManager \<times> u64 multiset \<Rightarrow> PhysicalMemoryManager \<times> u64 multiset \<Rightarrow> bool" where
  alloc: "Pmm_AllocatePage m = Inr (page, m') \<Longrightarrow> pmm_step (m, held) (m', add_mset page held)"
| alloc_continuous: "Pmm_AllocateContinuous n m = Inr (page, m') \<Longrightarrow>
    pmm_step (m, held) (m', mset (frames page n) + held)"
| free: "page \<in># held \<Longrightarrow> pmm_step (m, held) (Pmm_FreePage page m, held - {#page#})"
| free_pages: "mset (frames page n) \<subseteq># held \<Longrightarrow>
    pmm_step (m, held) (Pmm_FreePages page n m, held - mset (frames page n))"

inductive_cases pmm_stepE: "pmm_step (m, held) (m', held')"

lemma pmm_step_conserves:
  "pmm_step (m, held) (m', held') \<Longrightarrow> free_frames m' + held' = free_frames m + held"
  by (erule pmm_stepE) (auto simp: frames_moved)

lemma pmm_steps_conserve:
  "pmm_step\<^sup>*\<^sup>* (m, held) (m', held') \<Longrightarrow> free_frames m' + held' = free_frames m + held"
proof (induction rule: rtranclp_induct2)
  case (step m1 held1 m2 held2)
  then show ?case by (simp add: pmm_step_conserves)
qed simp

text \<open>
  C2.  No page frame is ever in two hands.  Start from a manager whose regions do not overlap and
  let callers allocate single pages and runs of pages and free what they hold, in any order and
  any number of times.  Then at every moment every frame of the original regions is exactly once
  either free or held: none is handed out twice, none is free while it is held, and none is lost.
\<close>

theorem no_frame_in_two_hands:
  assumes "pmm_step\<^sup>*\<^sup>* (m0, {#}) (m, held)" and "\<And>f. count (free_frames m0) f \<le> 1"
  shows "free_frames m + held = free_frames m0 \<and>
    (\<forall>f. count held f \<le> 1) \<and> set_mset (free_frames m) \<inter> set_mset held = {}"
proof -
  have eq: "free_frames m + held = free_frames m0" using pmm_steps_conserve [OF assms(1)] by simp
  have le: "count (free_frames m) f + count held f \<le> 1" for f
    using assms(2) [of f] by (simp flip: eq)
  have "count held f \<le> 1" for f using le [of f] by linarith
  moreover have "set_mset (free_frames m) \<inter> set_mset held = {}"
  proof (rule ccontr)
    assume "set_mset (free_frames m) \<inter> set_mset held \<noteq> {}"
    then obtain f where "f \<in># free_frames m" "f \<in># held" by blast
    then have "0 < count (free_frames m) f" "0 < count held f" by simp_all
    with le [of f] show False by linarith
  qed
  ultimately show ?thesis using eq by blast
qed

theorem no_frame_in_two_hands_witness:
  "\<exists>m held. pmm_step\<^sup>*\<^sup>* (AddMemoryRegion 0x100000 2 Pmm_empty, {#}) (m, held) \<and>
     held = {#0x100000#} \<and> free_frames m + held = free_frames (AddMemoryRegion 0x100000 2 Pmm_empty) \<and>
     (\<forall>f. count held f \<le> 1) \<and> set_mset (free_frames m) \<inter> set_mset held = {}"
proof -
  let ?m0 = "AddMemoryRegion 0x100000 2 Pmm_empty"
  have free: "free_frames ?m0 = {#0x100000, 0x101000#}"
    by (simp add: free_frames_def AddMemoryRegion_def Pmm_empty_def block_frames_def frames_def
        kPageSize_def upt_rec)
  have "\<exists>m. Pmm_AllocatePage ?m0 = Inr (0x100000, m)"
    by (simp add: Pmm_AllocatePage_def AddMemoryRegion_def Pmm_empty_def LinkedList_new_def
        LinkedList_PushFront_def skip_empty_blocks_Cons LinkedList_PeekFront_def set_front_def)
  then obtain m where "pmm_step\<^sup>*\<^sup>* (?m0, {#}) (m, {#0x100000#})"
    using pmm_step.alloc [of ?m0 _ _ "{#}"] by blast
  moreover have "count (free_frames ?m0) f \<le> 1" for f by (auto simp: free)
  ultimately show ?thesis using no_frame_in_two_hands [of ?m0 m "{#0x100000#}"] by blast
qed

section \<open>The frame allocator interface\<close>

text \<open>
  What the clients of the manager (paging structures, memory objects) rely on: an allocation takes
  a frame out of the free ones.
\<close>

locale frame_allocator =
  fixes free :: "'s \<Rightarrow> u64 multiset"
    and alloc :: "'s \<Rightarrow> (u64 \<times> 's) run"
    and release :: "u64 \<Rightarrow> 's \<Rightarrow> 's"
  assumes alloc_takes: "alloc s = Inr (page, s') \<Longrightarrow> free s = add_mset page (free s')"
    and release_gives: "free (release page s) = add_mset page (free s)"
begin

lemma alloc_many: "pop_n alloc n s = Inr (pages, s') \<Longrightarrow> free s = mset pages + free s'"
proof (induction n arbitrary: s pages)
  case (Suc n)
  then obtain p s1 ps where "alloc s = Inr (p, s1)" "pop_n alloc n s1 = Inr (ps, s')" "pages = p # ps"
    by (auto simp: run_bind_eq_Inr run_map_eq_Inr)
  with Suc.IH [of s1 ps] alloc_takes [of s p s1] show ?case by simp
qed simp

lemma alloc_many_distinct:
  assumes "pop_n alloc n s = Inr (pages, s')" and "\<And>f. count (free s) f \<le> 1"
  shows "distinct pages \<and> set pages \<inter> set_mset (free s') = {}"
proof -
  have eq: "free s = mset pages + free s'" using alloc_many [OF assms(1)] .
  have le: "count (mset pages) f + count (free s') f \<le> 1" for f using assms(2) [of f] by (simp add: eq)
  have pos: "0 < count (mset pages) f" if "f \<in> set pages" for f
    using that by (metis count_greater_zero_iff set_mset_mset)
  have "count (mset pages) f = (if f \<in> set pages then 1 else 0)" for f
  proof (cases "f \<in> set pages")
    case True
    have "count (mset pages) f = 1" using pos [OF True] le [of f] by linarith
    with True show ?thesis by simp
  qed (simp add: count_eq_zero_iff)
  then have "distinct pages" by (simp add: distinct_count_atmost_1)
  moreover have "f \<notin># free s'" if "f \<in> set pages" for f
  proof -
    have "count (free s') f = 0" using le [of f] pos [OF that] by linarith
    then show ?thesis by (simp add: count_eq_zero_iff)
  qed
  ultimately show ?thesis by blast
qed

lemma release_then_held: "page \<in># free (release page s)"
  by (simp add: release_gives)

end

interpretation pmm: frame_allocator free_frames Pmm_AllocatePage Pmm_FreePage
  by unfold_locales (auto simp: frames_moved)

section \<open>Taking over from the bootstrap allocator\<close>

definition entry_frames :: "memmap_entry \<Rightarrow> u64 list" where
  "entry_frames e = frames (me_base e) (me_length e div kPageSize)"

definition usable :: "memmap_entry list \<Rightarrow> memmap_entry list" where
  "usable memmap = filter (\<lambda>e. me_type e = 0) memmap"

lemma free_frames_fold:
  "free_frames (fold (\<lambda>e m. if me_type e = 0 then (let (base, n) = pmm_region bs e in AddMemoryRegion base n m) else m)
      memmap m) =
   mset (concat (map (\<lambda>e. frames (fst (pmm_region bs e)) (snd (pmm_region bs e))) (usable memmap))) +
     free_frames m"
proof (induction memmap arbitrary: m)
  case (Cons e es)
  have "free_frames (AddMemoryRegion base n m) = mset (frames base n) + free_frames m" for base n m
    by (simp add: AddMemoryRegion_def free_frames_def block_frames_def)
  with Cons show ?case by (simp add: usable_def split_def Let_def)
qed (simp add: usable_def)

lemma free_frames_new:
  "free_frames (PhysicalMemoryManager_new bs memmap) =
     mset (concat (map (\<lambda>e. frames (fst (pmm_region bs e)) (snd (pmm_region bs e))) (usable memmap)))"
  by (simp add: PhysicalMemoryManager_new_def free_frames_fold) (simp add: free_frames_def Pmm_empty_def)

lemma region_taken_over:
  assumes "me_base e = bs_init_page bs" and "bs_next_page bs = bs_init_page bs + of_nat k * kPageSize"
    and "k \<le> 9" and "me_length e \<ge> 0x9000"
  shows "mset (frames (fst (pmm_region bs e)) (snd (pmm_region bs e))) +
    mset (frames (bs_init_page bs) (of_nat k)) = mset (entry_frames e)"
proof -
  let ?k = "of_nat k :: u64" and ?n = "me_length e div kPageSize"
  have k: "unat ?k = k" using assms(3) by (simp add: unat_of_nat_u64)
  have kp: "unat (?k * kPageSize) = k * 4096"
    using assms(3) by (simp add: unat_word_ariths kPageSize_def k)
  have len: "k * 4096 \<le> unat (me_length e)" using assms(3,4) by (simp add: word_le_unat)
  have sub: "unat (me_length e - ?k * kPageSize) = unat (me_length e) - k * 4096"
    using len kp by (simp add: unat_sub_le word_le_unat)
  have n: "unat ?n = unat (me_length e) div 4096" by (simp add: unat_div kPageSize_def)
  have div_sub: "(x - j * 4096) div 4096 = x div 4096 - j" if "j * 4096 \<le> x" for x j :: nat
    using le_Suc_ex [OF that] by auto
  have le: "?k \<le> ?n" using len k n by (simp add: word_le_unat less_eq_div_iff_mult_less_eq)
  have "unat ((me_length e - ?k * kPageSize) div kPageSize) = unat (?n - ?k)"
    using sub n k le div_sub [OF len]
    by (simp add: unat_div unat_sub_le kPageSize_def)
  then have "(me_length e - ?k * kPageSize) div kPageSize = ?n - ?k" by (rule word_unat_eq_iff [THEN iffD2])
  with frames_split [OF le, of "me_base e"] assms(1,2) show ?thesis
    by (simp add: pmm_region_def entry_frames_def)
qed

lemma bootstrap_pages:
  assumes "gPmm s = None" and "gBootstrapEnabled s"
    and "\<And>j. j < n \<Longrightarrow> bs_next_page (gBootstrap s) + of_nat j * kPageSize \<noteq> bs_max_page (gBootstrap s)"
    and "n < 18446744073709551616"
  shows "\<exists>s'. pop_n AllocatePage n s = Inr (frames (bs_next_page (gBootstrap s)) (of_nat n), s') \<and>
    gBootstrap s' = (gBootstrap s)\<lparr>bs_next_page := bs_next_page (gBootstrap s) + of_nat n * kPageSize\<rparr>"
  using assms
proof (induction n arbitrary: s)
  case (Suc n)
  let ?p = "bs_next_page (gBootstrap s)"
  let ?s = "s\<lparr>gBootstrap := (gBootstrap s)\<lparr>bs_next_page := ?p + kPageSize\<rparr>\<rparr>"
  have alloc: "AllocatePage s = Inr (?p, ?s)"
    using Suc.prems(1,2) Suc.prems(3) [of 0] by (simp add: AllocatePage_def kPageSize_def Let_def)
  have "\<exists>s'. pop_n AllocatePage n ?s = Inr (frames (?p + kPageSize) (of_nat n), s') \<and>
      gBootstrap s' = (gBootstrap s)\<lparr>bs_next_page := ?p + kPageSize + of_nat n * kPageSize\<rparr>"
    using Suc.IH [of ?s] Suc.prems(1,2,4) Suc.prems(3) [of "Suc _"]
    by (simp add: distrib_right add.assoc)
  moreover have "frames ?p (of_nat (Suc n)) = ?p # frames (?p + kPageSize) (of_nat n)"
    using frames_split [of 1 "of_nat (Suc n)" ?p] Suc.prems(4)
    by (simp add: word_le_unat unat_of_nat_u64 del: of_nat_Suc) simp
  moreover have "of_nat (Suc n) * kPageSize = kPageSize + of_nat n * kPageSize"
    by (simp add: distrib_right)
  ultimately show ?case using alloc by (auto simp: add.assoc simp del: of_nat_Suc)
qed (auto simp: frames_def)

lemma InitBootstrap_entry:
  assumes "gBootstrapEnabled (InitBootstrapPageAllocation memmap PhysMem_boot)"
  shows "\<exists>e \<in> set (usable memmap). me_length e \<ge> 0x9000 \<and>
    InitBootstrapPageAllocation memmap PhysMem_boot = PhysMem_boot\<lparr>gBootstrap :=
      \<lparr>bs_init_page = me_base e, bs_next_page = me_base e, bs_max_page = me_base e + 0x9000\<rparr>,
      gBootstrapEnabled := True\<rparr>"
  using assms
proof (induction memmap)
  case (Cons e es)
  then show ?case by (cases "me_type e = 0 \<and> me_length e \<ge> 0x9000") (auto simp: usable_def)
qed (simp add: PhysMem_boot_def)

lemma regions_taken_over:
  assumes "distinct (map me_base (usable memmap))" and "e \<in> set (usable memmap)"
    and "me_base e = bs_init_page bs" and "bs_next_page bs = bs_init_page bs + of_nat k * kPageSize"
    and "k \<le> 9" and "me_length e \<ge> 0x9000"
  shows "mset (frames (bs_init_page bs) (of_nat k)) + free_frames (PhysicalMemoryManager_new bs memmap) =
    mset (concat (map entry_frames (usable memmap)))"
proof -
  obtain as cs where split: "usable memmap = as @ e # cs" using split_list [OF assms(2)] by blast
  have other: "frames (fst (pmm_region bs d)) (snd (pmm_region bs d)) = entry_frames d"
    if "me_base d \<noteq> bs_init_page bs" for d
    using that by (simp add: pmm_region_def entry_frames_def)
  have "me_base d \<noteq> bs_init_page bs" if "d \<in> set as \<union> set cs" for d
    using that assms(1,3) by (auto simp: split) (metis image_eqI)+
  then have maps: "map (\<lambda>d. frames (fst (pmm_region bs d)) (snd (pmm_region bs d))) as = map entry_frames as"
      "map (\<lambda>d. frames (fst (pmm_region bs d)) (snd (pmm_region bs d))) cs = map entry_frames cs"
    using other by simp_all
  have "free_frames (PhysicalMemoryManager_new bs memmap) = mset (concat (map entry_frames as)) +
      mset (frames (fst (pmm_region bs e)) (snd (pmm_region bs e))) + mset (concat (map entry_frames cs))"
    by (simp add: free_frames_new split maps del: map_eq_conv)
  then show ?thesis
    by (simp add: split ac_simps flip: region_taken_over [OF assms(3-6)])
qed

text \<open>
  C25.  The hand-over at boot loses and duplicates no page.  If the usable entries of the boot
  loader's memory map have different bases and the bootstrap allocator was enabled, then the
  \<open>k \<le> 9\<close> pages it hands out before the manager exists, together with the pages the manager then
  considers free, are exactly the pages of the usable entries, each once.
\<close>

theorem bootstrap_takeover:
  assumes "distinct (map me_base (usable memmap))"
    and "gBootstrapEnabled (InitBootstrapPageAllocation memmap PhysMem_boot)" and "k \<le> 9"
  shows "\<exists>pages s m. pop_n AllocatePage k (InitBootstrapPageAllocation memmap PhysMem_boot) = Inr (pages, s) \<and>
    gPmm (InitPhysicalMemoryManager memmap s) = Some m \<and> length pages = k \<and>
    mset pages + free_frames m = mset (concat (map entry_frames (usable memmap)))"
proof -
  let ?s = "InitBootstrapPageAllocation memmap PhysMem_boot"
  obtain e where e: "e \<in> set (usable memmap)" "me_length e \<ge> 0x9000"
      "?s = PhysMem_boot\<lparr>gBootstrap := \<lparr>bs_init_page = me_base e, bs_next_page = me_base e,
        bs_max_page = me_base e + 0x9000\<rparr>, gBootstrapEnabled := True\<rparr>"
    using InitBootstrap_entry [OF assms(2)] by blast
  have s0: "gPmm ?s = None" "gBootstrapEnabled ?s" "gBootstrap ?s = \<lparr>bs_init_page = me_base e,
      bs_next_page = me_base e, bs_max_page = me_base e + 0x9000\<rparr>"
    unfolding e(3) by (simp_all add: PhysMem_boot_def)
  have "of_nat j * kPageSize \<noteq> 0x9000" if "j < k" for j
  proof -
    have "unat (of_nat j * kPageSize :: u64) = j * 4096"
      using that assms(3) by (simp add: unat_word_ariths unat_of_nat_u64 kPageSize_def)
    moreover have "j * 4096 \<noteq> 36864" using that assms(3) by linarith
    ultimately show ?thesis by (auto dest: arg_cong [where f = unat])
  qed
  then obtain s where s: "pop_n AllocatePage k ?s = Inr (frames (me_base e) (of_nat k), s)"
      "gBootstrap s = (gBootstrap ?s)\<lparr>bs_next_page := me_base e + of_nat k * kPageSize\<rparr>"
    using bootstrap_pages [OF s0(1,2), of k] assms(3) by (auto simp: s0(3))
  have "length (frames (me_base e) (of_nat k)) = k" using assms(3) by (simp add: unat_of_nat_u64)
  moreover have "mset (frames (me_base e) (of_nat k)) + free_frames (PhysicalMemoryManager_new (gBootstrap s) memmap) =
      mset (concat (map entry_frames (usable memmap)))"
    using regions_taken_over [OF assms(1) e(1), of "gBootstrap s" k] assms(3) e(2) by (simp add: s(2) s0(3))
  ultimately show ?thesis using s(1) by (simp add: InitPhysicalMemoryManager_def)
qed

definition memmap_example :: "memmap_entry list" where
  "memmap_example =
     [\<lparr>me_base = 0, me_length = 0x1000, me_type = 0\<rparr>,
      \<lparr>me_base = 0x8000, me_length = 0x8000, me_type = 1\<rparr>,
      \<lparr>me_base = 0x100000, me_length = 0xA000, me_type = 0\<rparr>]"

theorem bootstrap_takeover_witness:
  "\<exists>pages s m. pop_n AllocatePage 5 (InitBootstrapPageAllocation memmap_example PhysMem_boot) = Inr (pages, s) \<and>
    gPmm (InitPhysicalMemoryManager memmap_example s) = Some m \<and> length pages = 5 \<and>
    mset pages + free_frames m = mset (concat (map entry_frames (usable memmap_example)))"
  by (rule bootstrap_takeover) (simp_all add: memmap_example_def usable_def)

text \<open>
  The manager hands out a page whenever it has one: \<open>AllocatePage\<close> returns exactly when
  some frame is free, and panics or dereferences an exhausted list otherwise.
\<close>

theorem AllocatePage_returns_iff_free:
  assumes "pmm_inv m"
  shows "returns (Pmm_AllocatePage m) \<longleftrightarrow> free_frames m \<noteq> {#}"
  by (rule Pmm_AllocatePage_returns_iff [OF assms])

theorem AllocatePage_returns_iff_free_witness:
  "\<not> returns (Pmm_AllocatePage (AddMemoryRegion 0x100000 0 Pmm_empty))"
  using AllocatePage_returns_iff_free [of "AddMemoryRegion 0x100000 0 Pmm_empty"]
  by (simp add: pmm_inv_def AddMemoryRegion_def Pmm_empty_def free_frames_def block_frames_def ll_inv_PushFront)

text \<open>
  The count of allocated pages drifts.  A page that is allocated from a region, freed and
  allocated again comes from the list of single pages, which does not count it: the manager then
  reports as many allocated pages as before the first allocation although the page is held.
\<close>

theorem allocated_pages_drifts:
  assumes "ll_size (pmm_singles m) = 0" and "Pmm_AllocatePage m = Inr (page, m1)"
  shows "\<exists>m2. Pmm_AllocatePage (Pmm_FreePage page m1) = Inr (page, m2) \<and>
    pmm_allocated m2 = pmm_allocated m \<and> free_frames m = add_mset page (free_frames m2)"
proof -
  have m1: "pmm_singles m1 = pmm_singles m" "pmm_allocated m1 = pmm_allocated m + 1"
    using assms by (auto simp: Pmm_AllocatePage_def Let_def run_bind_eq_Inr run_map_eq_Inr split: if_splits)
  let ?m = "Pmm_FreePage page m1"
  have "Pmm_AllocatePage ?m = Inr (page, ?m\<lparr>pmm_singles := pmm_singles m\<rparr>)"
    using assms(1) m1 by (simp add: Pmm_AllocatePage_def Pmm_FreePage_def LinkedList_PopFront_def)
  moreover have "free_frames m = add_mset page (free_frames (?m\<lparr>pmm_singles := pmm_singles m\<rparr>))"
    using Pmm_AllocatePage_frames [OF assms(2)] m1(1) by (simp add: Pmm_FreePage_def free_frames_def)
  ultimately show ?thesis using m1 by (auto simp: Pmm_FreePage_def)
qed

theorem allocated_pages_drifts_witness:
  "\<exists>m1 m2. Pmm_AllocatePage (AddMemoryRegion 0x100000 1 Pmm_empty) = Inr (0x100000, m1) \<and>
     Pmm_AllocatePage (Pmm_FreePage 0x100000 m1) = Inr (0x100000, m2) \<and> pmm_allocated m2 = 0"
proof -
  let ?m0 = "AddMemoryRegion 0x100000 1 Pmm_empty"
  obtain m1 where "Pmm_AllocatePage ?m0 = Inr (0x100000, m1)"
    by (auto simp: Pmm_AllocatePage_def AddMemoryRegion_def Pmm_empty_def LinkedList_new_def
        LinkedList_PushFront_def skip_empty_blocks_Cons LinkedList_PeekFront_def
        LinkedList_PopFront_def set_front_def)
  with allocated_pages_drifts [of ?m0 "0x100000" m1] show ?thesis
    by (auto simp: AddMemoryRegion_def Pmm_empty_def LinkedList_new_def)
qed

end
