(* ===== verification/Zion_Paging.thy ===== *)
theory Zion_Paging
  imports Zion_PhysicalMemory
begin

text \<open>
  The four-level page tables (\<open>zion/memory/paging_util.cpp\<close>).  The kernel reaches physical memory
  through the higher half direct map at \<open>hhdm\<close> (boot information, a field of the state); \<open>mc_mem\<close>
  is the memory seen there, as 64-bit words by pointer.  \<open>mc_cr3\<close> is what \<open>CurrCr3\<close> reads.  The
  translation cache and the \<open>invlpg\<close> that flushes it are not part of the model.

  \<open>walk\<close> follows a list of indices through the tables.  Under the invariant \<open>pt_wf\<close> (the tables
  of the user half form a tree and none of them is a free frame) mapping and unmapping a page are
  shown to change the translation of exactly that page.
\<close>

record Machine =
  mc_mem :: "u64 \<Rightarrow> u64"
  mc_phys :: PhysMem
  mc_hhdm :: u64
  mc_cr3 :: u64

definition PRESENT_BIT :: u64 where "PRESENT_BIT = 0x1"
definition READ_WRITE_BIT :: u64 where "READ_WRITE_BIT = 0x2"
definition USER_MODE_BIT :: u64 where "USER_MODE_BIT = 0x4"

definition PageAlign :: "u64 \<Rightarrow> u64" where
  "PageAlign addr = addr AND NOT 0xFFF"

definition ShiftForEntryIndexing :: "u64 \<Rightarrow> nat \<Rightarrow> u64" where
  "ShiftForEntryIndexing addr offset =
     push_bit 3 (drop_bit offset (addr AND NOT 0xFFFF000000000000)) AND 0xFF8"

definition Pml4Entry :: "Machine \<Rightarrow> u64 \<Rightarrow> u64 \<Rightarrow> u64" where
  "Pml4Entry st cr3 addr = (cr3 + mc_hhdm st) OR ShiftForEntryIndexing addr 39"

definition PageDirectoryPointerEntry :: "Machine \<Rightarrow> u64 \<Rightarrow> u64 \<Rightarrow> u64" where
  "PageDirectoryPointerEntry st pdp_phys addr =
     ((pdp_phys + mc_hhdm st) AND NOT 0xFFF) OR ShiftForEntryIndexing addr 30"

definition PageDirectoryEntry :: "Machine \<Rightarrow> u64 \<Rightarrow> u64 \<Rightarrow> u64" where
  "PageDirectoryEntry st pd_phys addr =
     ((pd_phys + mc_hhdm st) AND NOT 0xFFF) OR ShiftForEntryIndexing addr 21"

definition PageTableEntry :: "Machine \<Rightarrow> u64 \<Rightarrow> u64 \<Rightarrow> u64" where
  "PageTableEntry st pt_phys addr =
     ((pt_phys + mc_hhdm st) AND NOT 0xFFF) OR ShiftForEntryIndexing addr 12"

definition present :: "u64 \<Rightarrow> bool" where
  "present e \<longleftrightarrow> e AND PRESENT_BIT \<noteq> 0"

definition PagePhysIfResident :: "u64 \<Rightarrow> u64 \<Rightarrow> Machine \<Rightarrow> u64" where
  "PagePhysIfResident cr3 virt st =
     (let m = mc_mem st;
          pml4_entry = Pml4Entry st cr3 virt
      in if \<not> present (m pml4_entry) then 0
      else let pdp_entry = PageDirectoryPointerEntry st (m pml4_entry) virt
      in if \<not> present (m pdp_entry) then 0
      else let pd_entry = PageDirectoryEntry st (m pdp_entry) virt
      in if \<not> present (m pd_entry) then 0
      else let pt_entry = PageTableEntry st (m pd_entry) virt
      in if \<not> present (m pt_entry) then 0
      else m pt_entry AND NOT 0xFFF)"

definition Pml4Index :: "u64 \<Rightarrow> u64" where
  "Pml4Index addr = drop_bit 39 addr AND 0x1FF"

text \<open>\<open>ZeroOutPage\<close> and \<open>AllocateAndZeroPage\<close> of the physical memory manager.\<close>

definition ZeroOutPage :: "u64 \<Rightarrow> (u64 \<Rightarrow> u64) \<Rightarrow> (u64 \<Rightarrow> u64)" where
  "ZeroOutPage ptr m = fold (\<lambda>i m. m(PageAlign ptr + of_nat (8 * i) := 0)) [0..<512] m"

definition AllocateAndZeroPage :: "Machine \<Rightarrow> (u64 \<times> Machine) run" where
  "AllocateAndZeroPage st =
     run_map (\<lambda>(paddr, phys).
       (paddr, st\<lparr>mc_phys := phys, mc_mem := ZeroOutPage (mc_hhdm st + paddr) (mc_mem st)\<rparr>))
       (AllocatePage (mc_phys st))"

text \<open>One level of \<open>MapPage\<close>: the entry at \<open>ptr\<close> is made present if it is not.\<close>

definition ensure_entry :: "u64 \<Rightarrow> u64 \<Rightarrow> Machine \<Rightarrow> Machine run" where
  "ensure_entry access_bits ptr st =
     (if \<not> present (mc_mem st ptr)
      then run_map (\<lambda>(page, st). st\<lparr>mc_mem := (mc_mem st)(ptr := page OR access_bits)\<rparr>)
             (AllocateAndZeroPage st)
      else Inr st)"

definition access_bits_for :: "u64 \<Rightarrow> u64" where
  "access_bits_for vaddr =
     (let access_bits = PRESENT_BIT OR READ_WRITE_BIT;
          higher_half = 0xffff800000000000
      in if vaddr AND higher_half \<noteq> higher_half then access_bits OR USER_MODE_BIT else access_bits)"

definition MapPage :: "u64 \<Rightarrow> u64 \<Rightarrow> u64 \<Rightarrow> Machine \<Rightarrow> Machine run" where
  "MapPage cr3 vaddr paddr st =
     (let vaddr = PageAlign vaddr;
          paddr = PageAlign paddr;
          access_bits = access_bits_for vaddr;
          pml4_entry = Pml4Entry st cr3 vaddr
      in run_bind (ensure_entry access_bits pml4_entry st) (\<lambda>st.
      let pdp_entry = PageDirectoryPointerEntry st (mc_mem st pml4_entry) vaddr
      in run_bind (ensure_entry access_bits pdp_entry st) (\<lambda>st.
      let pd_entry = PageDirectoryEntry st (mc_mem st pdp_entry) vaddr
      in run_bind (ensure_entry access_bits pd_entry st) (\<lambda>st.
      let pt_entry = PageTableEntry st (mc_mem st pd_entry) vaddr
      in if \<not> present (mc_mem st pt_entry)
         then Inr (st\<lparr>mc_mem := (mc_mem st)(pt_entry := paddr OR access_bits)\<rparr>)
         else Inl (Panic ''Page already allocated.'')))))"

definition UnmapPage :: "u64 \<Rightarrow> u64 \<Rightarrow> Machine \<Rightarrow> Machine" where
  "UnmapPage cr3 vaddr st =
     (let m = mc_mem st;
          pml4_entry = Pml4Entry st cr3 vaddr
      in if \<not> present (m pml4_entry) then st
      else let pdp_entry = PageDirectoryPointerEntry st (m pml4_entry) vaddr
      in if \<not> present (m pdp_entry) then st
      else let pd_entry = PageDirectoryEntry st (m pdp_entry) vaddr
      in if \<not> present (m pd_entry) then st
      else let pt_entry = PageTableEntry st (m pd_entry) vaddr
      in if \<not> present (m pt_entry) then st
      else st\<lparr>mc_mem := m(pt_entry := m pt_entry AND NOT PRESENT_BIT)\<rparr>)"

text \<open>The entry with index \<open>i\<close> of the structure at a physical address.\<close>

definition struct_entry :: "Machine \<Rightarrow> u64 \<Rightarrow> nat \<Rightarrow> u64" where
  "struct_entry st struct_phys i = mc_mem st (mc_hhdm st + struct_phys + of_nat (8 * i))"

text \<open>
  The pages that \<open>CleanupPageStructure\<close> and \<open>CleanupPml4\<close> hand back, in the order of the calls
  of \<open>FreePage\<close>; the memory does not change meanwhile.
\<close>

fun CleanupPageStructure :: "Machine \<Rightarrow> nat \<Rightarrow> u64 \<Rightarrow> u64 list" where
  "CleanupPageStructure st 0 struct_phys = [struct_phys]"
| "CleanupPageStructure st (Suc level) struct_phys =
     concat (map (\<lambda>i. if present (struct_entry st struct_phys i)
                       then CleanupPageStructure st level (struct_entry st struct_phys i AND NOT 0xFFF)
                       else []) [0..<256]) @ [struct_phys]"

definition cleanup_pml4_pages :: "u64 \<Rightarrow> Machine \<Rightarrow> u64 list" where
  "cleanup_pml4_pages pml4 st =
     concat (map (\<lambda>i. if present (struct_entry st pml4 i)
                       then CleanupPageStructure st 2 (struct_entry st pml4 i AND NOT 0xFFF)
                       else []) [0..<128]) @ [pml4]"

fun free_each :: "u64 list \<Rightarrow> PhysMem \<Rightarrow> PhysMem run" where
  "free_each [] s = Inr s"
| "free_each (p # ps) s = run_bind (FreePage p s) (free_each ps)"

definition CleanupPml4 :: "u64 \<Rightarrow> Machine \<Rightarrow> Machine run" where
  "CleanupPml4 pml4 st =
     run_map (\<lambda>phys. st\<lparr>mc_phys := phys\<rparr>) (free_each (cleanup_pml4_pages pml4 st) (mc_phys st))"

definition InitializePml4 :: "u64 \<Rightarrow> Machine \<Rightarrow> Machine" where
  "InitializePml4 pml4 st =
     (let kernel_addr = 0xFFFFFFFF80000000;
          slot = (\<lambda>addr. mc_hhdm st + pml4 + 8 * Pml4Index addr);
          m = mc_mem st;
          m = m(slot kernel_addr := m (Pml4Entry st (mc_cr3 st) kernel_addr));
          m = m(slot (mc_hhdm st) := m (Pml4Entry st (mc_cr3 st) (mc_hhdm st)))
      in st\<lparr>mc_mem := m\<rparr>)"

definition AllocatePageIfNecessary :: "u64 \<Rightarrow> Machine \<Rightarrow> (u64 \<times> Machine) run" where
  "AllocatePageIfNecessary addr st =
     (let cr3 = mc_cr3 st;
          phys = PagePhysIfResident cr3 addr st
      in if phys \<noteq> 0 then Inr (phys, st)
         else run_bind (AllocatePage (mc_phys st)) (\<lambda>(phys, pm).
              run_map (Pair phys) (MapPage cr3 addr phys (st\<lparr>mc_phys := pm\<rparr>))))"

text \<open>\<open>EnsureResident\<close>: \<open>None\<close> means that the loop does not end.\<close>

partial_function (option) ensure_loop :: "u64 \<Rightarrow> u64 \<Rightarrow> Machine \<Rightarrow> Machine run option" where
  "ensure_loop addr max_addr st =
     (if addr < max_addr
      then (case AllocatePageIfNecessary addr st of
              Inl f \<Rightarrow> Some (Inl f)
            | Inr (_, st') \<Rightarrow> ensure_loop (addr + 0x1000) max_addr st')
      else Some (Inr st))"

definition EnsureResident :: "u64 \<Rightarrow> u64 \<Rightarrow> Machine \<Rightarrow> Machine run option" where
  "EnsureResident addr len st = ensure_loop (PageAlign addr) (addr + len) st"

section \<open>Page arithmetic\<close>

definition aligned :: "u64 \<Rightarrow> bool" where
  "aligned a \<longleftrightarrow> take_bit 12 a = 0"

lemma aligned_unat: "aligned a \<longleftrightarrow> unat a mod 4096 = 0"
proof -
  have "unat (take_bit 12 a) = unat a mod 4096" by (simp add: take_bit_eq_mod unat_mod)
  then show ?thesis by (metis aligned_def unat_0 unat_eq_zero)
qed

lemma aligned_add: "aligned a \<Longrightarrow> aligned b \<Longrightarrow> aligned (a + b)"
proof -
  assume ab: "aligned a" "aligned b"
  have "unat (a + b) mod 4096 = (unat a + unat b) mod 4096"
    by (simp add: unat_word_ariths mod_mod_cancel)
  also have "\<dots> = (unat a mod 4096 + unat b mod 4096) mod 4096" by (simp add: mod_add_eq)
  finally show ?thesis using ab by (simp add: aligned_unat)
qed

lemma page_mask_eq: "(0xFFF :: u64) = mask 12"
  by (simp add: mask_eq_exp_minus_1)

lemma aligned_bit: "aligned a \<Longrightarrow> bit a n \<Longrightarrow> 12 \<le> n"
  unfolding aligned_def by (metis bit_0_eq bit_take_bit_iff bot_apply bot_bool_def not_le)

lemma small_bit: "r < 0x1000 \<Longrightarrow> bit (r :: u64) n \<Longrightarrow> n < 12"
proof -
  assume r: "r < 0x1000" and b: "bit r n"
  have "take_bit 12 r = r" using r by (simp add: take_bit_eq_mod mod_word_less)
  then show "n < 12" using b by (metis bit_take_bit_iff)
qed

lemma aligned_disjoint: "aligned a \<Longrightarrow> r < 0x1000 \<Longrightarrow> a AND r = 0"
  using aligned_bit [of a] small_bit [of r] by (intro bit_word_eqI) (force simp: bit_simps)

lemma page_add: "aligned a \<Longrightarrow> r < 0x1000 \<Longrightarrow> (a + r) AND NOT 0xFFF = a"
  unfolding page_mask_eq
  by (subst disjunctive_add_eq_or [OF aligned_disjoint], assumption+, rule bit_word_eqI)
     (auto simp: bit_simps dest: aligned_bit small_bit)

lemma page_split: "(e :: u64) = (e AND NOT 0xFFF) + take_bit 12 e"
proof -
  have "(e AND NOT 0xFFF) AND take_bit 12 e = 0"
    unfolding page_mask_eq by (rule bit_word_eqI) (auto simp: bit_simps)
  then have "(e AND NOT 0xFFF) + take_bit 12 e = (e AND NOT 0xFFF) OR take_bit 12 e"
    by (rule disjunctive_add_eq_or)
  also have "\<dots> = e" unfolding page_mask_eq by (rule bit_word_eqI) (auto simp: bit_simps)
  finally show ?thesis by simp
qed

lemma aligned_page: "aligned (e AND NOT 0xFFF)"
  unfolding aligned_def page_mask_eq by (rule bit_word_eqI) (auto simp: bit_simps)

lemma take12_less: "take_bit 12 (e :: u64) < 0x1000"
  by (simp add: word_less_nat_alt take_bit_eq_mod unat_mod)

text \<open>The index of an address in the table of a level, and the pointer to an entry.\<close>

definition vidx :: "nat \<Rightarrow> u64 \<Rightarrow> u64" where
  "vidx off v = take_bit 9 (drop_bit off v)"

definition ent_ptr :: "u64 \<Rightarrow> u64 \<Rightarrow> u64 \<Rightarrow> u64" where
  "ent_ptr h t i = h + t + push_bit 3 i"

lemma ShiftForEntryIndexing_vidx:
  assumes "off \<le> 39"
  shows "ShiftForEntryIndexing addr off = push_bit 3 (vidx off addr)"
proof -
  have x: "(0xFF8 :: u64) = push_bit 3 (mask 9)" "(0xFFFF000000000000 :: u64) = push_bit 48 (mask 16)"
    by (simp_all add: mask_eq_exp_minus_1 push_bit_eq_mult)
  show ?thesis
    using assms unfolding ShiftForEntryIndexing_def vidx_def x
    by (intro bit_word_eqI) (auto simp: bit_simps)
qed

lemma vidx_less [simp]: "vidx off v < 512"
  by (simp add: vidx_def word_less_nat_alt take_bit_eq_mod unat_mod)

lemma push3_unat: "i < 512 \<Longrightarrow> unat (push_bit 3 (i :: u64)) = 8 * unat i"
  by (simp add: push_bit_eq_mult word_less_nat_alt unat_word_ariths)

lemma push3_less: "i < 512 \<Longrightarrow> push_bit 3 (i :: u64) < 0x1000"
  by (simp add: word_less_nat_alt push3_unat)

lemma push3_inj: "i < 512 \<Longrightarrow> j < 512 \<Longrightarrow> push_bit 3 (i :: u64) = push_bit 3 j \<Longrightarrow> i = j"
  using push3_unat [of i] push3_unat [of j] by (simp add: word_unat_eq_iff)

lemma page_simp: "(e :: u64) AND - 4096 = PageAlign e"
  by (simp add: PageAlign_def)

lemma PageAlign_add: "aligned a \<Longrightarrow> r < 0x1000 \<Longrightarrow> PageAlign (a + r) = a"
  unfolding PageAlign_def by (rule page_add)

lemma aligned_PageAlign [simp]: "aligned (PageAlign e)"
  unfolding PageAlign_def by (rule aligned_page)

lemma PageAlign_id [simp]: "aligned a \<Longrightarrow> PageAlign a = a"
  using PageAlign_add [of a 0] by simp

lemma ent_ptr_page:
  "aligned h \<Longrightarrow> aligned t \<Longrightarrow> i < 512 \<Longrightarrow> PageAlign (ent_ptr h t i) = h + t"
  unfolding ent_ptr_def by (intro PageAlign_add aligned_add push3_less)

lemma ent_ptr_inj:
  assumes "aligned h" "aligned t" "aligned t'" "i < 512" "i' < 512"
    and "ent_ptr h t i = ent_ptr h t' i'"
  shows "t = t'" and "i = i'"
proof -
  have "h + t = h + t'" using ent_ptr_page [of h t i] ent_ptr_page [of h t' i'] assms by metis
  then show t: "t = t'" by simp
  with assms push3_inj [of i i'] show "i = i'" by (simp add: ent_ptr_def)
qed

lemma or_is_add: "aligned a \<Longrightarrow> r < 0x1000 \<Longrightarrow> a OR r = a + r"
  using disjunctive_add_eq_or [OF aligned_disjoint] by metis

lemma page_of_or: "aligned a \<Longrightarrow> r < 0x1000 \<Longrightarrow> PageAlign (a OR r) = a"
  by (simp add: or_is_add PageAlign_add)

lemma page_plus:
  assumes "aligned h"
  shows "PageAlign (e + h) = PageAlign e + h"
proof -
  have "e + h = (PageAlign e + h) + take_bit 12 e"
    unfolding PageAlign_def by (subst (1) page_split [of e]) (rule add.assoc [THEN trans], simp only: ac_simps)
  then show ?thesis using PageAlign_add [OF aligned_add [OF aligned_PageAlign assms] take12_less] by metis
qed

lemma Pml4Entry_ptr:
  assumes "aligned (mc_hhdm st)" and "aligned cr3"
  shows "Pml4Entry st cr3 v = ent_ptr (mc_hhdm st) cr3 (vidx 39 v)"
  using assms
  by (simp add: Pml4Entry_def ShiftForEntryIndexing_vidx ent_ptr_def or_is_add aligned_add push3_less add.commute)

lemma table_entry_ptr:
  assumes "aligned (mc_hhdm st)" and "off \<le> 39"
  shows "PageAlign (e + mc_hhdm st) OR ShiftForEntryIndexing v off =
    ent_ptr (mc_hhdm st) (PageAlign e) (vidx off v)"
  using assms
  by (simp add: ShiftForEntryIndexing_vidx ent_ptr_def page_plus or_is_add aligned_add push3_less add.commute)

lemmas entry_ptrs = Pml4Entry_ptr PageDirectoryPointerEntry_def PageDirectoryEntry_def
  PageTableEntry_def page_simp table_entry_ptr

section \<open>Walking the tables\<close>

fun walk :: "(u64 \<Rightarrow> u64) \<Rightarrow> u64 \<Rightarrow> u64 \<Rightarrow> u64 list \<Rightarrow> u64 option" where
  "walk m h t [] = Some t"
| "walk m h t (i # is) =
     (let e = m (ent_ptr h t i) in if present e then walk m h (PageAlign e) is else None)"

definition vpath :: "u64 \<Rightarrow> u64 list" where
  "vpath v = [vidx 39 v, vidx 30 v, vidx 21 v, vidx 12 v]"

lemma PagePhysIfResident_walk:
  assumes "aligned (mc_hhdm st)" and "aligned cr3"
  shows "PagePhysIfResident cr3 v st =
    (case walk (mc_mem st) (mc_hhdm st) cr3 (vpath v) of None \<Rightarrow> 0 | Some p \<Rightarrow> p)"
  using assms by (simp add: PagePhysIfResident_def vpath_def entry_ptrs Let_def)

lemma walk_append:
  "walk m h t (p @ q) = Option.bind (walk m h t p) (\<lambda>t'. walk m h t' q)"
  by (induction p arbitrary: t) (auto simp: Let_def)

lemma walk_cong:
  "(\<And>k t'. k < length q \<Longrightarrow> walk m h t (take k q) = Some t' \<Longrightarrow>
      m' (ent_ptr h t' (q ! k)) = m (ent_ptr h t' (q ! k))) \<Longrightarrow>
   walk m' h t q = walk m h t q"
proof (induction q arbitrary: t)
  case (Cons i q)
  let ?e = "m (ent_ptr h t i)"
  have e: "m' (ent_ptr h t i) = ?e" using Cons.prems [of 0 t] by simp
  have "walk m' h (PageAlign ?e) q = walk m h (PageAlign ?e) q" if "present ?e"
    using Cons.prems [of "Suc _"] that by (intro Cons.IH) (simp add: Let_def)
  with e show ?case by (simp add: Let_def)
qed simp

lemma walk_aligned: "aligned t \<Longrightarrow> walk m h t q = Some t' \<Longrightarrow> aligned t'"
  by (induction q arbitrary: t) (auto simp: Let_def split: if_splits, metis aligned_PageAlign)

section \<open>The table invariant\<close>

definition user_path :: "u64 list \<Rightarrow> bool" where
  "user_path p \<longleftrightarrow> (\<forall>i \<in> set p. i < 512) \<and> (p \<noteq> [] \<longrightarrow> hd p < 256)"

definition pt_wf :: "(u64 \<Rightarrow> u64) \<Rightarrow> u64 \<Rightarrow> u64 \<Rightarrow> u64 set \<Rightarrow> bool" where
  "pt_wf m h cr3 F \<longleftrightarrow> aligned h \<and> aligned cr3 \<and> (\<forall>f \<in> F. aligned f) \<and>
     (\<forall>p t. user_path p \<longrightarrow> length p \<le> 3 \<longrightarrow> walk m h cr3 p = Some t \<longrightarrow> t \<notin> F) \<and>
     (\<forall>p q t. user_path p \<longrightarrow> user_path q \<longrightarrow> length p \<le> 3 \<longrightarrow> length q \<le> 3 \<longrightarrow>
        walk m h cr3 p = Some t \<longrightarrow> walk m h cr3 q = Some t \<longrightarrow> p = q)"

lemma pt_wfD:
  assumes "pt_wf m h cr3 F"
  shows "aligned h" and "aligned cr3" and "f \<in> F \<Longrightarrow> aligned f"
    and "user_path p \<Longrightarrow> length p \<le> 3 \<Longrightarrow> walk m h cr3 p = Some t \<Longrightarrow> t \<notin> F"
    and "user_path p \<Longrightarrow> user_path q \<Longrightarrow> length p \<le> 3 \<Longrightarrow> length q \<le> 3 \<Longrightarrow>
      walk m h cr3 p = Some t \<Longrightarrow> walk m h cr3 q = Some t \<Longrightarrow> p = q"
  using assms unfolding pt_wf_def by blast+

lemma user_path_take: "user_path q \<Longrightarrow> user_path (take k q)"
  by (cases q; cases k) (auto simp: user_path_def dest: in_set_takeD)

lemma user_path_butlast: "user_path (p @ [i]) \<Longrightarrow> user_path p"
  by (cases p) (auto simp: user_path_def)

lemma walk_write:
  assumes "pt_wf m h cr3 F" and "user_path (p @ [i])" and "length p \<le> 3" and "walk m h cr3 p = Some t"
    and "user_path q" and "length q \<le> 4" and "\<not> (\<exists>r. q = p @ i # r)"
  shows "walk (m(ent_ptr h t i := e)) h cr3 q = walk m h cr3 q"
proof (rule walk_cong)
  fix k t'
  assume k: "k < length q" "walk m h cr3 (take k q) = Some t'"
  have p: "user_path p" "i < 512" using assms(2) user_path_butlast by (auto simp: user_path_def)
  have q: "user_path (take k q)" "length (take k q) \<le> 3" "q ! k < 512"
    using assms(5,6) k(1) user_path_take by (auto simp: user_path_def)
  have "ent_ptr h t' (q ! k) \<noteq> ent_ptr h t i"
  proof
    assume eq: "ent_ptr h t' (q ! k) = ent_ptr h t i"
    have al: "aligned h" "aligned t'" "aligned t"
      using pt_wfD(1,2) [OF assms(1)] walk_aligned k(2) assms(4) by blast+
    have "t' = t" "q ! k = i" using ent_ptr_inj [OF al q(3) p(2) eq] by auto
    then have "take k q = p" using pt_wfD(5) [OF assms(1) q(1) p(1) q(2) assms(3)] k(2) assms(4) by simp
    then have "q = p @ i # drop (Suc k) q" using \<open>q ! k = i\<close> k(1) by (metis id_take_nth_drop)
    with assms(7) show False by blast
  qed
  then show "(m(ent_ptr h t i := e)) (ent_ptr h t' (q ! k)) = m (ent_ptr h t' (q ! k))" by simp
qed

lemma fold_zero:
  "fold (\<lambda>i m. m(base + of_nat (8 * i) := 0)) ns m x =
     (if \<exists>i \<in> set ns. x = base + of_nat (8 * i) then 0 else (m x :: u64))"
  for base :: u64
  by (induction ns arbitrary: m) auto

lemma ZeroOutPage_entry:
  assumes al: "aligned h" "aligned f" "aligned t" and j: "j < 512"
  shows "ZeroOutPage (h + f) m (ent_ptr h t j) = (if t = f then 0 else m (ent_ptr h t j))"
proof -
  have ptr: "h + f + of_nat (8 * i) = ent_ptr h f (of_nat i)" for i
    by (simp add: ent_ptr_def push_bit_eq_mult mult.commute)
  have less: "(of_nat i :: u64) < 512" if "i < 512" for i
    using that by (simp add: word_less_nat_alt unat_of_nat_u64)
  have "(\<exists>i \<in> set [0..<512]. ent_ptr h t j = ent_ptr h f (of_nat i)) \<longleftrightarrow> t = f"
  proof
    assume "\<exists>i \<in> set [0..<512]. ent_ptr h t j = ent_ptr h f (of_nat i)"
    then show "t = f" using ent_ptr_inj(1) [OF al(1,3,2) j less] by auto
  next
    assume "t = f"
    then show "\<exists>i \<in> set [0..<512]. ent_ptr h t j = ent_ptr h f (of_nat i)"
      using j by (intro bexI [of _ "unat j"]) (simp_all add: word_less_nat_alt)
  qed
  then show ?thesis
    unfolding ZeroOutPage_def PageAlign_id [OF aligned_add [OF al(1,2)]] fold_zero
    by (simp only: ptr)
qed

lemma walk_zeroed:
  assumes "pt_wf m h cr3 F" and "f \<in> F" and "user_path q" and "length q \<le> 4"
  shows "walk (ZeroOutPage (h + f) m) h cr3 q = walk m h cr3 q"
proof (rule walk_cong)
  fix k t'
  assume k: "k < length q" "walk m h cr3 (take k q) = Some t'"
  have q: "user_path (take k q)" "length (take k q) \<le> 3" "q ! k < 512"
    using assms(3,4) k(1) user_path_take by (auto simp: user_path_def)
  have "t' \<noteq> f" using pt_wfD(4) [OF assms(1) q(1,2) k(2)] assms(2) by blast
  moreover have "aligned t'" using walk_aligned [OF pt_wfD(2) [OF assms(1)] k(2)] .
  ultimately show "ZeroOutPage (h + f) m (ent_ptr h t' (q ! k)) = m (ent_ptr h t' (q ! k))"
    using ZeroOutPage_entry [of h f t' "q ! k" m] pt_wfD(1,3) [OF assms(1)] assms(2) q(3) by simp
qed

lemma pt_wf_zeroed:
  assumes "pt_wf m h cr3 F" and "f \<in> F"
  shows "pt_wf (ZeroOutPage (h + f) m) h cr3 F"
  using assms walk_zeroed [OF assms] unfolding pt_wf_def by simp

text \<open>A fresh page of zeros is hung into the tables.\<close>

lemma walk_fresh:
  assumes wf: "pt_wf m h cr3 F" and f: "f \<in> F" and p: "user_path (p @ [i])" "length p \<le> 2"
    and t: "walk m h cr3 p = Some t" and e: "present e" "PageAlign e = f"
  defines "m2 \<equiv> (ZeroOutPage (h + f) m)(ent_ptr h t i := e)"
  shows walk_fresh_other:
      "user_path q \<Longrightarrow> length q \<le> 4 \<Longrightarrow> \<not> (\<exists>r. q = p @ i # r) \<Longrightarrow> walk m2 h cr3 q = walk m h cr3 q"
    and walk_fresh_here: "walk m2 h cr3 (p @ [i]) = Some f"
    and walk_fresh_below: "j < 512 \<Longrightarrow> walk m2 h cr3 (p @ i # j # r) = None"
proof -
  have up: "user_path p" using user_path_butlast [OF p(1)] .
  have z: "walk (ZeroOutPage (h + f) m) h cr3 p = Some t" using walk_zeroed [OF wf f up] p(2) t by simp
  show other: "walk m2 h cr3 q = walk m h cr3 q"
    if "user_path q" "length q \<le> 4" "\<not> (\<exists>r. q = p @ i # r)" for q
    using walk_write [OF pt_wf_zeroed [OF wf f] p(1) _ z that, of e] p(2) walk_zeroed [OF wf f that(1,2)]
    by (simp add: m2_def)
  have "walk m2 h cr3 p = Some t" using other [OF up] p(2) t by simp
  then have below: "walk m2 h cr3 (p @ i # r) = walk m2 h f r" for r
    using e by (simp add: walk_append m2_def)
  then show "walk m2 h cr3 (p @ [i]) = Some f" by simp
  have al: "aligned h" "aligned f" "aligned t"
    using pt_wfD(1,3) [OF wf] f walk_aligned [OF pt_wfD(2) [OF wf] t] by auto
  have "t \<noteq> f" using pt_wfD(4) [OF wf up _ t] p(2) f by auto
  then have "m2 (ent_ptr h f j) = 0" if "j < 512" for j
    using ent_ptr_inj(1) [OF al(1,2,3) that] ZeroOutPage_entry [OF al(1,2,2) that] p(1)
    by (auto simp: m2_def user_path_def)
  then show "walk m2 h cr3 (p @ i # j # r) = None" if "j < 512"
    using that by (simp add: below present_def)
qed

lemma pt_wf_fresh:
  assumes wf: "pt_wf m h cr3 F" and f: "f \<in> F" and p: "user_path (p @ [i])" "length p \<le> 2"
    and t: "walk m h cr3 p = Some t" and e: "present e" "PageAlign e = f"
  shows "pt_wf ((ZeroOutPage (h + f) m)(ent_ptr h t i := e)) h cr3 (F - {f})"
proof -
  let ?m = "(ZeroOutPage (h + f) m)(ent_ptr h t i := e)"
  have cases: "q = p @ [i] \<and> t' = f \<or> q \<noteq> p @ [i] \<and> t' \<notin> F \<and> walk m h cr3 q = Some t'"
    if "user_path q" "length q \<le> 3" "walk ?m h cr3 q = Some t'" for q t'
  proof (cases "\<exists>r. q = p @ i # r")
    case True
    then obtain r where r: "q = p @ i # r" by blast
    have "r = []" using that(1,3) walk_fresh_below [OF assms] unfolding r
      by (cases r) (auto simp: user_path_def)
    then show ?thesis using that(3) walk_fresh_here [OF assms] r by simp
  next
    case False
    then have "walk m h cr3 q = Some t'" using walk_fresh_other [OF assms that(1) _ False] that by simp
    then show ?thesis using False pt_wfD(4) [OF wf that(1,2)] by blast
  qed
  show ?thesis unfolding pt_wf_def
  proof (intro conjI allI impI)
    show "aligned h" "aligned cr3" "\<forall>f \<in> F - {f}. aligned f" using pt_wfD(1-3) [OF wf] by auto
    show "t' \<notin> F - {f}" if "user_path q" "length q \<le> 3" "walk ?m h cr3 q = Some t'" for q t'
      using cases [OF that] by blast
    show "q = q'" if "user_path q" "user_path q'" "length q \<le> 3" "length q' \<le> 3"
        "walk ?m h cr3 q = Some t'" "walk ?m h cr3 q' = Some t'" for q q' t'
      using cases [OF that(1,3,5)] cases [OF that(2,4,6)] pt_wfD(5) [OF wf that(1,2,3,4)] f by blast
  qed
qed

section \<open>Mapping and unmapping a page\<close>

text \<open>
  The state in which the kernel maps user pages: the manager is up, no frame is free twice, and the
  tables below \<open>cr3\<close> are well formed.
\<close>

definition mc_free :: "Machine \<Rightarrow> u64 multiset" where
  "mc_free st = (case gPmm (mc_phys st) of None \<Rightarrow> {#} | Some m \<Rightarrow> free_frames m)"

definition paging_inv :: "u64 \<Rightarrow> Machine \<Rightarrow> bool" where
  "paging_inv cr3 st \<longleftrightarrow>
     (case gPmm (mc_phys st) of None \<Rightarrow> False | Some m \<Rightarrow> pmm_inv m) \<and>
     (\<forall>f. count (mc_free st) f \<le> 1) \<and>
     pt_wf (mc_mem st) (mc_hhdm st) cr3 (set_mset (mc_free st))"

definition translation :: "u64 \<Rightarrow> u64 \<Rightarrow> Machine \<Rightarrow> u64 option" where
  "translation cr3 v st = walk (mc_mem st) (mc_hhdm st) cr3 (vpath v)"

lemma paging_invD:
  assumes "paging_inv cr3 st"
  shows "\<exists>m. gPmm (mc_phys st) = Some m \<and> pmm_inv m \<and> mc_free st = free_frames m"
    and "count (mc_free st) f \<le> 1"
    and "pt_wf (mc_mem st) (mc_hhdm st) cr3 (set_mset (mc_free st))"
    and "aligned (mc_hhdm st)" and "aligned cr3"
  using assms pt_wfD(1,2) by (auto simp: paging_inv_def mc_free_def split: option.splits)

lemma AllocatePage_machine:
  assumes "paging_inv cr3 st" and "mc_free st \<noteq> {#}"
  obtains f phys m where "AllocatePage (mc_phys st) = Inr (f, phys)"
    and "mc_free st = add_mset f (free_frames m)" and "gPmm phys = Some m" and "pmm_inv m"
proof -
  obtain m0 where m0: "gPmm (mc_phys st) = Some m0" "pmm_inv m0" "mc_free st = free_frames m0"
    using paging_invD(1) [OF assms(1)] by blast
  obtain f m where m: "Pmm_AllocatePage m0 = Inr (f, m)"
    using Pmm_AllocatePage_returns_iff [OF m0(2)] assms(2) m0(3) by (auto simp: returns_iff)
  show ?thesis
    by (rule that [of f "(mc_phys st)\<lparr>gPmm := Some m\<rparr>" m])
       (use m m0 Pmm_AllocatePage_frames [OF m] Pmm_AllocatePage_inv [OF m m0(2)] in
         \<open>simp_all add: AllocatePage_def\<close>)
qed

lemma present_bit: "present e \<longleftrightarrow> bit e 0"
  by (simp add: present_def PRESENT_BIT_def and_one_eq bit_0 odd_iff_mod_2_eq_one)

text \<open>What one level of \<open>MapPage\<close> achieves.\<close>

definition level_ok :: "u64 \<Rightarrow> u64 list \<Rightarrow> Machine \<Rightarrow> Machine \<Rightarrow> bool" where
  "level_ok cr3 p st st' \<longleftrightarrow> paging_inv cr3 st' \<and> mc_hhdm st' = mc_hhdm st \<and> mc_cr3 st' = mc_cr3 st \<and>
     size (mc_free st) \<le> Suc (size (mc_free st')) \<and> mc_free st' \<subseteq># mc_free st \<and>
     walk (mc_mem st') (mc_hhdm st) cr3 p \<noteq> None \<and>
     (\<forall>q. user_path q \<longrightarrow> length q = 4 \<longrightarrow>
        walk (mc_mem st') (mc_hhdm st) cr3 q = walk (mc_mem st) (mc_hhdm st) cr3 q)"

lemma ensure_entry_ok:
  assumes inv: "paging_inv cr3 st" and p: "user_path (p @ [i])" "length p \<le> 2"
    and t: "walk (mc_mem st) (mc_hhdm st) cr3 p = Some t"
    and b: "present b" "b < 0x1000" and free: "mc_free st \<noteq> {#}"
  shows "\<exists>st'. ensure_entry b (ent_ptr (mc_hhdm st) t i) st = Inr st' \<and> level_ok cr3 (p @ [i]) st st' \<and>
    walk (mc_mem st') (mc_hhdm st) cr3 p = Some t"
proof (cases "present (mc_mem st (ent_ptr (mc_hhdm st) t i))")
  case True
  with inv t show ?thesis by (simp add: ensure_entry_def level_ok_def walk_append)
next
  case False
  obtain f phys m where a: "AllocatePage (mc_phys st) = Inr (f, phys)"
    and m: "mc_free st = add_mset f (free_frames m)" "gPmm phys = Some m" "pmm_inv m"
    using AllocatePage_machine [OF inv free] by blast
  let ?h = "mc_hhdm st" and ?e = "f OR b"
  let ?m = "(ZeroOutPage (?h + f) (mc_mem st))(ent_ptr ?h t i := ?e)"
  let ?st = "st\<lparr>mc_phys := phys, mc_mem := ?m\<rparr>"
  have wf: "pt_wf (mc_mem st) ?h cr3 (set_mset (mc_free st))" and f: "f \<in># mc_free st"
    using paging_invD(3) [OF inv] m(1) by auto
  have al: "aligned f" using pt_wfD(3) [OF wf] f by blast
  have e: "present ?e" "PageAlign ?e = f"
    using b page_of_or [OF al b(2)] by (auto simp: present_bit bit_simps)
  note fresh = wf f p t e
  have cnt: "count (free_frames m) x \<le> 1" "f \<notin># free_frames m" for x
    using paging_invD(2) [OF inv, of x] paging_invD(2) [OF inv, of f] m(1)
    by (auto simp: not_in_iff split: if_splits)
  have new: "mc_free ?st = free_frames m" by (simp add: mc_free_def m(2))
  have "set_mset (mc_free st) - {f} = set_mset (mc_free ?st)" unfolding new m(1) using cnt(2) by auto
  then have "paging_inv cr3 ?st"
    unfolding paging_inv_def new using pt_wf_fresh [OF fresh] m(2,3) cnt(1) by (simp add: new)
  moreover have "walk ?m ?h cr3 q = walk (mc_mem st) ?h cr3 q" if q: "user_path q" "length q = 4" for q
  proof (cases "\<exists>r. q = p @ i # r")
    case True
    then obtain s where s: "q = p @ i # s" by blast
    then have "s \<noteq> []" using q(2) p(2) by auto
    with s obtain j r where r: "q = p @ i # j # r" by (cases s) auto
    then have "walk ?m ?h cr3 q = None" using walk_fresh_below [OF fresh] q(1) by (simp add: user_path_def)
    then show ?thesis using t False r by (simp add: walk_append)
  qed (use walk_fresh_other [OF fresh] q in simp)
  moreover have "walk ?m ?h cr3 p = Some t"
    using walk_fresh_other [OF fresh, of p] user_path_butlast [OF p(1)] p(2) t by simp
  moreover have "size (mc_free st) \<le> Suc (size (mc_free ?st))" "mc_free ?st \<subseteq># mc_free st"
    unfolding new m(1) by simp_all
  moreover have "ensure_entry b (ent_ptr ?h t i) st = Inr ?st"
    using False by (simp add: ensure_entry_def AllocateAndZeroPage_def a)
  ultimately show ?thesis using walk_fresh_here [OF fresh] by (auto simp: level_ok_def)
qed

lemma walk_last:
  assumes "walk m h c p = Some t"
  shows "walk m h c (p @ [i]) =
    (if present (m (ent_ptr h t i)) then Some (PageAlign (m (ent_ptr h t i))) else None)"
  using assms by (simp add: walk_append Let_def)

lemma level_ok_step:
  assumes "level_ok cr3 p st st1" and "level_ok cr3 q st1 st2"
  shows "paging_inv cr3 st2" and "mc_hhdm st2 = mc_hhdm st" and "mc_cr3 st2 = mc_cr3 st"
    and "size (mc_free st) \<le> Suc (Suc (size (mc_free st2))) \<and> mc_free st2 \<subseteq># mc_free st"
    and "user_path r \<Longrightarrow> length r = 4 \<Longrightarrow>
      walk (mc_mem st2) (mc_hhdm st) cr3 r = walk (mc_mem st) (mc_hhdm st) cr3 r"
  using assms by (auto simp: level_ok_def intro: subset_mset.order_trans)

lemma vidx_PageAlign: "12 \<le> off \<Longrightarrow> vidx off (PageAlign v) = vidx off v"
  unfolding vidx_def PageAlign_def page_mask_eq
  by (rule bit_word_eqI) (auto simp: bit_simps dest: bit_imp_le_length)

lemma vpath_PageAlign: "vpath (PageAlign v) = vpath v"
  by (simp add: vpath_def vidx_PageAlign)

lemma vidx_user: "v < 0x800000000000 \<Longrightarrow> vidx 39 v < 256"
  by (simp add: vidx_def word_less_nat_alt take_bit_eq_mod unat_mod drop_bit_eq_div unat_div)

lemma user_vpath: "v < 0x800000000000 \<Longrightarrow> k \<le> 4 \<Longrightarrow> user_path (take k (vpath v))"
  by (intro user_path_take) (simp add: user_path_def vpath_def vidx_user)

lemma vpath_inj:
  assumes "v < 0x800000000000" and "w < 0x800000000000" and "vpath v = vpath w"
  shows "PageAlign v = PageAlign w"
proof -
  have big: "\<not> bit x n" if "x < 0x800000000000" "48 \<le> n" for x :: u64 and n
  proof -
    have "take_bit 48 x = x" using that(1) by (simp add: take_bit_eq_mod mod_word_less word_less_nat_alt)
    then show ?thesis using that(2) by (metis bit_take_bit_iff not_le)
  qed
  have e: "bit v (k + off) = bit w (k + off)" if "k < 9" "off \<in> {12, 21, 30, 39}" for k off
  proof -
    have "vidx off v = vidx off w" using assms(3) that(2) by (auto simp: vpath_def)
    then have "bit (vidx off v) k = bit (vidx off w) k" by simp
    then show ?thesis using that(1) by (simp add: vidx_def bit_take_bit_iff bit_drop_bit_eq add.commute)
  qed
  have "bit v n = bit w n" if "12 \<le> n" for n
  proof -
    consider "n < 21" | "21 \<le> n" "n < 30" | "30 \<le> n" "n < 39" | "39 \<le> n" "n < 48" | "48 \<le> n" by linarith
    then show ?thesis
      using e [of "n - 12" 12] e [of "n - 21" 21] e [of "n - 30" 30] e [of "n - 39" 39]
        big [OF assms(1)] big [OF assms(2)] that by cases auto
  qed
  then show ?thesis
    unfolding PageAlign_def page_mask_eq by (intro bit_word_eqI) (auto simp: bit_simps)
qed

lemma access_bits: "present (access_bits_for v)" "access_bits_for v < 0x1000"
  by (auto simp: access_bits_for_def present_def PRESENT_BIT_def READ_WRITE_BIT_def USER_MODE_BIT_def)

text \<open>The three levels above the page table.\<close>

lemma levels_ok:
  assumes inv: "paging_inv cr3 st" and p: "user_path [i, j, k]" and b: "present b" "b < 0x1000"
    and free: "3 \<le> size (mc_free st)"
  obtains st1 st2 st3 t1 t2 t3 where
    "ensure_entry b (ent_ptr (mc_hhdm st) cr3 i) st = Inr st1"
    "PageAlign (mc_mem st1 (ent_ptr (mc_hhdm st) cr3 i)) = t1"
    "ensure_entry b (ent_ptr (mc_hhdm st) t1 j) st1 = Inr st2"
    "PageAlign (mc_mem st2 (ent_ptr (mc_hhdm st) t1 j)) = t2"
    "ensure_entry b (ent_ptr (mc_hhdm st) t2 k) st2 = Inr st3"
    "PageAlign (mc_mem st3 (ent_ptr (mc_hhdm st) t2 k)) = t3"
    "walk (mc_mem st3) (mc_hhdm st) cr3 [i, j, k] = Some t3" "paging_inv cr3 st3"
    "mc_hhdm st1 = mc_hhdm st" "mc_hhdm st2 = mc_hhdm st" "mc_hhdm st3 = mc_hhdm st"
    "mc_cr3 st3 = mc_cr3 st" "size (mc_free st) \<le> 3 + size (mc_free st3) \<and> mc_free st3 \<subseteq># mc_free st"
    "\<And>r. user_path r \<Longrightarrow> length r = 4 \<Longrightarrow>
      walk (mc_mem st3) (mc_hhdm st) cr3 r = walk (mc_mem st) (mc_hhdm st) cr3 r"
proof -
  let ?h = "mc_hhdm st"
  have up: "user_path ([] @ [i])" "user_path ([i] @ [j])" "user_path ([i, j] @ [k])"
    using p by (auto simp: user_path_def)
  have ne: "mc_free st \<noteq> {#}" using free by auto
  obtain st1 where 1: "ensure_entry b (ent_ptr ?h cr3 i) st = Inr st1" "level_ok cr3 [i] st st1"
    using ensure_entry_ok [OF inv up(1) _ _ b ne] by auto
  define t1 where "t1 = PageAlign (mc_mem st1 (ent_ptr ?h cr3 i))"
  have h1: "mc_hhdm st1 = ?h" "paging_inv cr3 st1" "mc_free st1 \<noteq> {#}"
    using 1(2) free by (auto simp: level_ok_def)
  have w1: "walk (mc_mem st1) ?h cr3 [i] = Some t1"
    using 1(2) walk_last [of "mc_mem st1" ?h cr3 "[]" cr3 i] by (auto simp: level_ok_def t1_def split: if_splits)
  obtain st2 where 2: "ensure_entry b (ent_ptr ?h t1 j) st1 = Inr st2" "level_ok cr3 [i, j] st1 st2"
      "walk (mc_mem st2) ?h cr3 [i] = Some t1"
    using ensure_entry_ok [OF h1(2) up(2) _ _ b h1(3), of t1] w1 h1(1) by auto
  define t2 where "t2 = PageAlign (mc_mem st2 (ent_ptr ?h t1 j))"
  have h2: "mc_hhdm st2 = ?h" "paging_inv cr3 st2" "mc_free st2 \<noteq> {#}"
    using 1(2) 2(2) free by (auto simp: level_ok_def)
  have w2: "walk (mc_mem st2) ?h cr3 [i, j] = Some t2"
    using 2(2) walk_last [OF 2(3), of j] h1(1) by (auto simp: level_ok_def t2_def split: if_splits)
  obtain st3 where 3: "ensure_entry b (ent_ptr ?h t2 k) st2 = Inr st3" "level_ok cr3 [i, j, k] st2 st3"
      "walk (mc_mem st3) ?h cr3 [i, j] = Some t2"
    using ensure_entry_ok [OF h2(2) up(3) _ _ b h2(3), of t2] w2 h2(1) by auto
  define t3 where "t3 = PageAlign (mc_mem st3 (ent_ptr ?h t2 k))"
  have w3: "walk (mc_mem st3) ?h cr3 [i, j, k] = Some t3"
    using 3(2) walk_last [OF 3(3), of k] h2(1) by (auto simp: level_ok_def t3_def split: if_splits)
  show ?thesis
  proof (rule that [OF 1(1) t1_def [symmetric] 2(1) t2_def [symmetric] 3(1) t3_def [symmetric] w3])
    show "walk (mc_mem st3) ?h cr3 r = walk (mc_mem st) ?h cr3 r" if "user_path r" "length r = 4" for r
      using level_ok_step(5) [OF 1(2) 2(2) that] 3(2) h2(1) that by (simp add: level_ok_def)
  qed (use level_ok_step(1-4) [OF 1(2) 2(2)] 1(2) 3(2) in \<open>auto simp: level_ok_def intro: subset_mset.order_trans\<close>)
qed

lemma pt_wf_leaf:
  assumes wf: "pt_wf m h cr3 F" and p: "user_path (p @ [i])" "length p = 3" and t: "walk m h cr3 p = Some t"
  shows "pt_wf (m(ent_ptr h t i := e)) h cr3 F"
proof -
  have "walk (m(ent_ptr h t i := e)) h cr3 q = walk m h cr3 q" if "user_path q" "length q \<le> 3" for q
  proof (rule walk_write [OF wf p(1) _ t that(1)])
    show "\<not> (\<exists>r. q = p @ i # r)" using p(2) that(2) by auto
  qed (use p(2) that(2) in auto)
  then show ?thesis using wf unfolding pt_wf_def by simp
qed

lemma user_page_paths:
  assumes "v < 0x800000000000" and "w < 0x800000000000"
  shows "vpath w = vpath v \<longleftrightarrow> PageAlign w = PageAlign v"
  using vpath_inj [OF assms(2,1)] by (metis vpath_PageAlign)

text \<open>A change of the last entry of the path of a page changes the translation of that page only.\<close>

lemma translation_leaf:
  fixes e :: u64
  assumes inv: "paging_inv cr3 st" and v: "v < 0x800000000000"
    and t: "walk (mc_mem st) (mc_hhdm st) cr3 [vidx 39 v, vidx 30 v, vidx 21 v] = Some t"
  defines "st' \<equiv> st\<lparr>mc_mem := (mc_mem st)(ent_ptr (mc_hhdm st) t (vidx 12 v) := e)\<rparr>"
  shows "paging_inv cr3 st'"
    and "w < 0x800000000000 \<Longrightarrow> translation cr3 w st' =
      (if PageAlign w = PageAlign v then if present e then Some (PageAlign e) else None
       else translation cr3 w st)"
proof -
  let ?p = "[vidx 39 v, vidx 30 v, vidx 21 v]" and ?m = "mc_mem st'"
  have vp: "vpath v = ?p @ [vidx 12 v]" by (simp add: vpath_def)
  have up: "user_path (?p @ [vidx 12 v])" using user_vpath [OF v, of 4] by (simp add: vpath_def)
  note wf = paging_invD(3) [OF inv]
  show "paging_inv cr3 st'"
    using inv pt_wf_leaf [OF wf up _ t] by (simp add: paging_inv_def st'_def mc_free_def)
  have w3: "walk ?m (mc_hhdm st) cr3 ?p = Some t"
    using walk_write [OF wf up _ t user_path_butlast [OF up], of e] t by (simp add: st'_def)
  have here: "translation cr3 v st' = (if present e then Some (PageAlign e) else None)"
    using walk_last [OF w3, of "vidx 12 v"] by (simp add: translation_def vp st'_def)
  show "translation cr3 w st' = (if PageAlign w = PageAlign v then if present e then Some (PageAlign e) else None
       else translation cr3 w st)" if w: "w < 0x800000000000"
  proof (cases "PageAlign w = PageAlign v")
    case True
    then have "vpath w = vpath v" using user_page_paths [OF v w] by simp
    then show ?thesis using True here by (simp add: translation_def)
  next
    case False
    then have "\<not> (\<exists>r. vpath w = ?p @ vidx 12 v # r)"
      using user_page_paths [OF v w] by (auto simp: vpath_def)
    then show ?thesis
      using walk_write [OF wf up _ t _ _, of "vpath w" e] user_vpath [OF w, of 4] False
      by (simp add: translation_def st'_def vpath_def)
  qed
qed

lemma MapPage_maps:
  assumes inv: "paging_inv cr3 st" and free: "3 \<le> size (mc_free st)" and v: "v < 0x800000000000"
    and unmapped: "translation cr3 v st = None"
  obtains st' where "MapPage cr3 v p st = Inr st'" and "paging_inv cr3 st'"
    and "mc_hhdm st' = mc_hhdm st" and "mc_cr3 st' = mc_cr3 st" and "size (mc_free st) \<le> 3 + size (mc_free st')"
    and "mc_free st' \<subseteq># mc_free st"
    and "\<And>w. w < 0x800000000000 \<Longrightarrow> translation cr3 w st' =
      (if PageAlign w = PageAlign v then Some (PageAlign p) else translation cr3 w st)"
proof -
  let ?h = "mc_hhdm st" and ?b = "access_bits_for (PageAlign v)" and ?m = "\<lambda>st. mc_mem st"
  let ?i = "vidx 39 v" and ?j = "vidx 30 v" and ?k = "vidx 21 v" and ?e = "PageAlign p OR access_bits_for (PageAlign v)"
  have up: "user_path [?i, ?j, ?k]" using user_vpath [OF v, of 3] by (simp add: vpath_def)
  obtain st1 st2 st3 t1 t2 t3 where L:
    "ensure_entry ?b (ent_ptr ?h cr3 ?i) st = Inr st1" "PageAlign (mc_mem st1 (ent_ptr ?h cr3 ?i)) = t1"
    "ensure_entry ?b (ent_ptr ?h t1 ?j) st1 = Inr st2" "PageAlign (mc_mem st2 (ent_ptr ?h t1 ?j)) = t2"
    "ensure_entry ?b (ent_ptr ?h t2 ?k) st2 = Inr st3" "PageAlign (mc_mem st3 (ent_ptr ?h t2 ?k)) = t3"
    and w3: "walk (mc_mem st3) ?h cr3 [?i, ?j, ?k] = Some t3" and inv3: "paging_inv cr3 st3"
    and h: "mc_hhdm st1 = ?h" "mc_hhdm st2 = ?h" "mc_hhdm st3 = ?h" "mc_cr3 st3 = mc_cr3 st"
    and size: "size (mc_free st) \<le> 3 + size (mc_free st3) \<and> mc_free st3 \<subseteq># mc_free st"
    and same: "\<And>r. user_path r \<Longrightarrow> length r = 4 \<Longrightarrow> walk (mc_mem st3) ?h cr3 r = walk (mc_mem st) ?h cr3 r"
    by (rule levels_ok [OF inv up access_bits free]) (rule that)
  let ?st = "st3\<lparr>mc_mem := (mc_mem st3)(ent_ptr ?h t3 (vidx 12 v) := ?e)\<rparr>"
  have tr: "translation cr3 w st3 = translation cr3 w st" if "w < 0x800000000000" for w
    using same [of "vpath w"] user_vpath [OF that, of 4] h(3)
    unfolding translation_def by (simp add: vpath_def del: walk.simps)
  have "\<not> present (mc_mem st3 (ent_ptr ?h t3 (vidx 12 v)))"
    using tr [OF v] unmapped walk_last [OF w3, of "vidx 12 v"] h
    by (auto simp: translation_def vpath_def split: if_splits)
  then have "MapPage cr3 v p st = Inr ?st"
    using paging_invD(4,5) [OF inv] L h
    by (simp add: MapPage_def entry_ptrs vidx_PageAlign Let_def)
  moreover have e: "present ?e" "PageAlign ?e = PageAlign p"
    using access_bits page_of_or [OF aligned_PageAlign access_bits(2)] by (auto simp: present_bit bit_simps)
  note leaf = translation_leaf [OF inv3 v, unfolded h(3), OF w3, where e = ?e]
  show ?thesis
    by (rule that [OF calculation])
       (use leaf e tr h size in \<open>auto simp: mc_free_def\<close>)
qed

lemma UnmapPage_unmaps:
  assumes inv: "paging_inv cr3 st" and v: "v < 0x800000000000"
  shows "paging_inv cr3 (UnmapPage cr3 v st)"
    and "w < 0x800000000000 \<Longrightarrow> translation cr3 w (UnmapPage cr3 v st) =
      (if PageAlign w = PageAlign v then None else translation cr3 w st)"
proof -
  let ?h = "mc_hhdm st" and ?p = "[vidx 39 v, vidx 30 v, vidx 21 v]" and ?st = "UnmapPage cr3 v st"
  note al = paging_invD(4,5) [OF inv]
  have both: "paging_inv cr3 ?st \<and> (\<forall>w < 0x800000000000. translation cr3 w ?st =
      (if PageAlign w = PageAlign v then None else translation cr3 w st))"
  proof (cases "translation cr3 v st")
    case None
    then have "?st = st"
      using al by (auto simp: UnmapPage_def translation_def vpath_def entry_ptrs Let_def split: if_splits)
    moreover have "translation cr3 w st = None" if "w < 0x800000000000" "PageAlign w = PageAlign v" for w
      using user_page_paths [OF v that(1)] that(2) None by (simp add: translation_def)
    ultimately show ?thesis using inv by simp
  next
    case (Some x)
    then have "walk (mc_mem st) ?h cr3 (?p @ [vidx 12 v]) = Some x" by (simp add: translation_def vpath_def)
    then obtain t where t: "walk (mc_mem st) ?h cr3 ?p = Some t"
      unfolding walk_append by (auto simp: Option.bind_eq_Some_conv simp del: walk.simps)
    let ?e = "mc_mem st (ent_ptr ?h t (vidx 12 v)) AND NOT PRESENT_BIT"
    have "?st = st\<lparr>mc_mem := (mc_mem st)(ent_ptr ?h t (vidx 12 v) := ?e)\<rparr>"
      using al Some t by (auto simp: UnmapPage_def translation_def vpath_def entry_ptrs Let_def split: if_splits)
    moreover have "\<not> present ?e" by (simp add: present_bit PRESENT_BIT_def bit_simps)
    ultimately show ?thesis using translation_leaf [OF inv v t, where e = ?e] by simp
  qed
  then show "paging_inv cr3 ?st" by blast
  show "translation cr3 w ?st = (if PageAlign w = PageAlign v then None else translation cr3 w st)"
    if "w < 0x800000000000" using both that by blast
qed

lemma MapPage_mapped:
  assumes "paging_inv cr3 st" and "translation cr3 v st \<noteq> None"
  shows "MapPage cr3 v p st = Inl (Panic ''Page already allocated.'')"
  using assms(2) paging_invD(4,5) [OF assms(1)]
  by (auto simp: MapPage_def translation_def vpath_def entry_ptrs vidx_PageAlign ensure_entry_def Let_def
      split: if_splits)

lemma PagePhysIfResident_translation:
  assumes "paging_inv cr3 st"
  shows "PagePhysIfResident cr3 v st = (case translation cr3 v st of None \<Rightarrow> 0 | Some p \<Rightarrow> p)"
  using PagePhysIfResident_walk paging_invD(4,5) [OF assms] by (simp add: translation_def)

text \<open>
  C1.  Mapping a user page is exact.  With three free frames for missing tables, \<open>MapPage\<close> of an
  address that has no page returns; afterwards the address resolves to the aligned frame, every
  address of any other user page resolves as before, and the tables are still a tree whose nodes
  are not free frames.  A second mapping of the page panics, and unmapping it restores the
  translation that every user address had before.
\<close>

theorem MapPage_exact:
  assumes "paging_inv cr3 st" and "3 \<le> size (mc_free st)" and "v < kUserSpaceMax"
    and "translation cr3 v st = None"
  shows "\<exists>st'. MapPage cr3 v p st = Inr st' \<and> paging_inv cr3 st' \<and> paging_inv cr3 (UnmapPage cr3 v st') \<and>
    (\<forall>w < kUserSpaceMax. PagePhysIfResident cr3 w st' =
       (if PageAlign w = PageAlign v then PageAlign p else PagePhysIfResident cr3 w st)) \<and>
    MapPage cr3 v p' st' = Inl (Panic ''Page already allocated.'') \<and>
    (\<forall>w < kUserSpaceMax. translation cr3 w (UnmapPage cr3 v st') = translation cr3 w st)"
proof -
  have v: "v < 0x800000000000" using assms(3) by (simp add: kUserSpaceMax_def)
  obtain st' where st': "MapPage cr3 v p st = Inr st'" "paging_inv cr3 st'"
      "\<And>w. w < 0x800000000000 \<Longrightarrow> translation cr3 w st' =
        (if PageAlign w = PageAlign v then Some (PageAlign p) else translation cr3 w st)"
    using MapPage_maps [OF assms(1,2) v assms(4)] by metis
  have "translation cr3 w st = None" if "w < 0x800000000000" "PageAlign w = PageAlign v" for w
    using user_page_paths [OF v that(1)] that(2) assms(4) by (simp add: translation_def)
  then show ?thesis
    using st' UnmapPage_unmaps [OF st'(2) v] MapPage_mapped [OF st'(2), of v p'] v
    by (simp add: PagePhysIfResident_translation assms(1) kUserSpaceMax_def)
qed

lemma pt_wf_empty:
  assumes "aligned h" and "aligned cr3" and "\<forall>f \<in> F. aligned f" and "cr3 \<notin> F"
  shows "pt_wf (\<lambda>_. 0) h cr3 F"
proof -
  have "walk (\<lambda>_. 0) h cr3 q = Some t \<longleftrightarrow> q = [] \<and> t = cr3" for q t
    by (cases q) (auto simp: present_def)
  with assms show ?thesis by (simp add: pt_wf_def)
qed

text \<open>A machine with an empty table at 1 MiB and three free frames above it.\<close>

definition machine_example :: Machine where
  "machine_example =
     \<lparr>mc_mem = (\<lambda>_. 0), mc_phys = PhysMem_boot\<lparr>gPmm := Some (AddMemoryRegion 0x101000 3 Pmm_empty)\<rparr>,
      mc_hhdm = 0xFFFF800000000000, mc_cr3 = 0x100000\<rparr>"

lemma machine_example_free: "mc_free machine_example = {#0x101000, 0x102000, 0x103000#}"
proof -
  have "[0..<3] = [0, 1, 2 :: nat]" by (simp add: upt_rec)
  then have "frames 0x101000 3 = [0x101000, 0x102000, 0x103000]" by (simp add: frames_def kPageSize_def)
  then show ?thesis
    by (simp add: mc_free_def machine_example_def free_frames_def AddMemoryRegion_def Pmm_empty_def
        LinkedList_new_def LinkedList_PushFront_def block_frames_def)
qed

lemma machine_example_inv: "paging_inv 0x100000 machine_example"
proof -
  have "pmm_inv (AddMemoryRegion 0x101000 3 Pmm_empty)"
    by (simp add: pmm_inv_def AddMemoryRegion_def Pmm_empty_def ll_inv_PushFront)
  moreover have "pt_wf (\<lambda>_. 0) 0xFFFF800000000000 0x100000 {0x101000, 0x102000, 0x103000}"
    by (rule pt_wf_empty) (simp_all add: aligned_def take_bit_eq_mod)
  ultimately show ?thesis
    unfolding paging_inv_def machine_example_free by (simp add: machine_example_def)
qed

theorem MapPage_exact_witness:
  "\<exists>st'. MapPage 0x100000 0x400123 0x7654321 machine_example = Inr st' \<and>
     PagePhysIfResident 0x100000 0x400FFF st' = 0x7654000 \<and>
     PagePhysIfResident 0x100000 0x401000 st' = 0"
proof -
  have none: "translation 0x100000 w machine_example = None" for w
    by (simp add: translation_def machine_example_def vpath_def present_def)
  have "v < kUserSpaceMax" if "v \<in> {0x400123, 0x400FFF, 0x401000}" for v
    using that by (auto simp: kUserSpaceMax_def)
  then show ?thesis
    using MapPage_exact [OF machine_example_inv _ _ none, of "0x400123" "0x7654321"]
    by (force simp: machine_example_free PagePhysIfResident_translation [OF machine_example_inv] none PageAlign_def)
qed

section \<open>Tearing down an address space\<close>

text \<open>The paths that \<open>CleanupPml4\<close> follows.\<close>

definition cleaned :: "u64 list \<Rightarrow> bool" where
  "cleaned p \<longleftrightarrow> length p \<le> 3 \<and> (\<forall>i \<in> set p. i < 256) \<and> (p \<noteq> [] \<longrightarrow> hd p < 128)"

lemma struct_entry_ptr: "struct_entry st t i = mc_mem st (ent_ptr (mc_hhdm st) t (of_nat i))"
  by (simp add: struct_entry_def ent_ptr_def push_bit_eq_mult mult.commute)

lemma index_range: "n < 512 \<Longrightarrow> (\<exists>i \<in> {0..<n}. P (of_nat i :: u64)) \<longleftrightarrow> (\<exists>i < of_nat n. P i)"
proof
  assume n: "n < 512" and "\<exists>i < of_nat n. P (i :: u64)"
  then obtain i where "i < of_nat n" "P i" by blast
  then show "\<exists>i \<in> {0..<n}. P (of_nat i)"
    using n by (intro bexI [of _ "unat i"]) (simp_all add: word_less_nat_alt unat_of_nat_u64)
next
  assume n: "n < 512" and "\<exists>i \<in> {0..<n}. P (of_nat i)"
  then obtain i where "i < n" "P (of_nat i)" by auto
  then show "\<exists>i < of_nat n. P i"
    using n by (intro exI [of _ "of_nat i"]) (simp add: word_less_nat_alt unat_of_nat_u64)
qed

lemma set_children:
  assumes "n < 512"
  shows "set (concat (map (\<lambda>i. if present (struct_entry st t i)
      then f (struct_entry st t i AND NOT 0xFFF) else []) [0..<n])) =
    {x. \<exists>i < of_nat n. \<exists>e. e = mc_mem st (ent_ptr (mc_hhdm st) t i) \<and> present e \<and> x \<in> set (f (PageAlign e))}"
  using index_range [OF assms, of "\<lambda>i. present (mc_mem st (ent_ptr (mc_hhdm st) t i)) \<and>
    x \<in> set (f (PageAlign (mc_mem st (ent_ptr (mc_hhdm st) t i))))" for x]
  by (auto simp: struct_entry_ptr page_simp split: if_splits)

lemma set_CleanupPageStructure:
  "set (CleanupPageStructure st l t) =
     {x. \<exists>p. length p \<le> l \<and> (\<forall>i \<in> set p. i < 256) \<and> walk (mc_mem st) (mc_hhdm st) t p = Some x}"
proof (induction l arbitrary: t)
  case (Suc l)
  let ?m = "mc_mem st" and ?h = "mc_hhdm st"
  have "set (CleanupPageStructure st (Suc l) t) = insert t {x. \<exists>i < 256. \<exists>e. e = ?m (ent_ptr ?h t i) \<and> present e \<and>
      x \<in> set (CleanupPageStructure st l (PageAlign e))}"
    using set_children [of 256 st t "CleanupPageStructure st l"] by simp
  also have "\<dots> = {x. \<exists>p. length p \<le> Suc l \<and> (\<forall>i \<in> set p. i < 256) \<and> walk ?m ?h t p = Some x}"
    (is "?A = ?B")
  proof
    show "?A \<subseteq> ?B"
    proof
      fix x assume "x \<in> ?A"
      then consider "x = t" | i p where "i < 256" "present (?m (ent_ptr ?h t i))" "length p \<le> l"
          "\<forall>i \<in> set p. i < 256" "walk ?m ?h (PageAlign (?m (ent_ptr ?h t i))) p = Some x"
        unfolding Suc.IH by blast
      then show "x \<in> ?B"
      proof cases
        case 1
        then show ?thesis by (intro CollectI exI [of _ "[]"]) simp
      next
        case (2 i p)
        then show ?thesis by (intro CollectI exI [of _ "i # p"]) simp
      qed
    qed
    show "?B \<subseteq> ?A"
    proof
      fix x assume "x \<in> ?B"
      then obtain p where "length p \<le> Suc l" "\<forall>i \<in> set p. i < 256" "walk ?m ?h t p = Some x" by blast
      then show "x \<in> ?A" unfolding Suc.IH by (cases p) (auto simp: Let_def split: if_splits)
    qed
  qed
  finally show ?case .
qed auto

lemma distinct_concat_upt:
  assumes "\<And>i. i < n \<Longrightarrow> distinct (f i)"
    and "\<And>i j. i < j \<Longrightarrow> j < n \<Longrightarrow> set (f i) \<inter> set (f j) = {}"
  shows "distinct (concat (map f [0..<n]))"
  using assms
proof (induction n)
  case (Suc n)
  have "set (f i) \<inter> set (f n) = {}" if "i < n" for i using Suc.prems(2) [of i n] that by simp
  then have "set (concat (map f [0..<n])) \<inter> set (f n) = {}" by fastforce
  with Suc show ?case by simp
qed simp

lemma cleanup_child_path:
  assumes p: "user_path p" "walk (mc_mem st) (mc_hhdm st) cr3 p = Some t" "length p + Suc l \<le> 3"
    and i: "i < 256" and x: "x \<in> set (if present (struct_entry st t i)
      then CleanupPageStructure st l (struct_entry st t i AND NOT 0xFFF) else [])"
  obtains r where "user_path (p @ of_nat i # r)" and "length (p @ of_nat i # r) \<le> 3"
    and "walk (mc_mem st) (mc_hhdm st) cr3 (p @ of_nat i # r) = Some x"
proof -
  let ?e = "mc_mem st (ent_ptr (mc_hhdm st) t (of_nat i))"
  have e: "present ?e" "x \<in> set (CleanupPageStructure st l (PageAlign ?e))"
    using x by (auto simp: struct_entry_ptr page_simp split: if_splits)
  then obtain r where r: "length r \<le> l" "\<forall>i \<in> set r. i < 256"
      "walk (mc_mem st) (mc_hhdm st) (PageAlign ?e) r = Some x"
    unfolding set_CleanupPageStructure by blast
  have "(of_nat i :: u64) < 256" using i by (simp add: word_less_nat_alt unat_of_nat_u64)
  moreover have "y < 512" if "y < 256" for y :: u64 using that by (rule less_trans) simp
  ultimately have "user_path (p @ of_nat i # r)" using p(1) r(2) by (cases p) (auto simp: user_path_def)
  moreover have "walk (mc_mem st) (mc_hhdm st) cr3 (p @ of_nat i # r) = Some x"
    using p(2) e(1) r(3) by (simp add: walk_append)
  ultimately show ?thesis using that [of r] p(3) r(1) by simp
qed

lemma distinct_children:
  assumes wf: "pt_wf (mc_mem st) (mc_hhdm st) cr3 F"
    and p: "user_path p" "walk (mc_mem st) (mc_hhdm st) cr3 p = Some t" "length p + Suc l \<le> 3"
    and n: "n \<le> 256"
    and below: "\<And>i. i < n \<Longrightarrow> present (struct_entry st t i) \<Longrightarrow>
      distinct (CleanupPageStructure st l (struct_entry st t i AND NOT 0xFFF))"
  shows "distinct (concat (map (\<lambda>i. if present (struct_entry st t i)
      then CleanupPageStructure st l (struct_entry st t i AND NOT 0xFFF) else []) [0..<n]) @ [t])"
    (is "distinct (concat (map ?f _) @ _)")
proof -
  have "t \<notin> set (?f i)" if "i < n" for i
  proof
    assume t: "t \<in> set (?f i)"
    have "i < 256" using that n by simp
    from cleanup_child_path [OF p this t] obtain r where r: "user_path (p @ of_nat i # r)" "length (p @ of_nat i # r) \<le> 3"
        "walk (mc_mem st) (mc_hhdm st) cr3 (p @ of_nat i # r) = Some t"
      by metis
    have "p = p @ of_nat i # r" by (rule pt_wfD(5) [OF wf p(1) r(1) _ r(2) p(2) r(3)]) (use p(3) in simp)
    then show False by simp
  qed
  moreover have "distinct (concat (map ?f [0..<n]))"
  proof (rule distinct_concat_upt)
    show "set (?f i) \<inter> set (?f j) = {}" if ij: "i < j" "j < n" for i j
    proof (rule ccontr)
      assume "set (?f i) \<inter> set (?f j) \<noteq> {}"
      then obtain x where x: "x \<in> set (?f i)" "x \<in> set (?f j)" by blast
      have lt: "i < 256" "j < 256" using ij n by auto
      from cleanup_child_path [OF p lt(1) x(1)] obtain r where r: "user_path (p @ of_nat i # r)" "length (p @ of_nat i # r) \<le> 3"
          "walk (mc_mem st) (mc_hhdm st) cr3 (p @ of_nat i # r) = Some x"
        by metis
      from cleanup_child_path [OF p lt(2) x(2)] obtain r' where r': "user_path (p @ of_nat j # r')" "length (p @ of_nat j # r') \<le> 3"
          "walk (mc_mem st) (mc_hhdm st) cr3 (p @ of_nat j # r') = Some x"
        by metis
      have "(of_nat i :: u64) = of_nat j" using pt_wfD(5) [OF wf r(1) r'(1) r(2) r'(2) r(3) r'(3)] by simp
      then have "unat (of_nat i :: u64) = unat (of_nat j :: u64)" by simp
      then show False using ij n by (simp add: unat_of_nat_u64)
    qed
  qed (use below in auto)
  ultimately show ?thesis by auto
qed

lemma distinct_CleanupPageStructure:
  assumes wf: "pt_wf (mc_mem st) (mc_hhdm st) cr3 F"
  shows "user_path p \<Longrightarrow> walk (mc_mem st) (mc_hhdm st) cr3 p = Some t \<Longrightarrow> p \<noteq> [] \<Longrightarrow> length p + l \<le> 3 \<Longrightarrow>
    distinct (CleanupPageStructure st l t)"
proof (induction l arbitrary: p t)
  case (Suc l)
  have "distinct (CleanupPageStructure st l (struct_entry st t i AND NOT 0xFFF))"
    if "i < 256" "present (struct_entry st t i)" for i
  proof (rule Suc.IH [of "p @ [of_nat i]"])
    show "user_path (p @ [of_nat i])"
      using Suc.prems(1,3) that(1) by (auto simp: user_path_def word_less_nat_alt unat_of_nat_u64)
    show "walk (mc_mem st) (mc_hhdm st) cr3 (p @ [of_nat i]) = Some (struct_entry st t i AND NOT 0xFFF)"
      using walk_last [OF Suc.prems(2)] that(2) by (simp add: struct_entry_ptr page_simp)
  qed (use Suc.prems in auto)
  then show ?case using distinct_children [OF wf Suc.prems(1,2), of l 256] Suc.prems(4) by simp
qed simp

lemma set_cleanup_pml4_pages:
  "set (cleanup_pml4_pages cr3 st) =
     {x. \<exists>p. cleaned p \<and> walk (mc_mem st) (mc_hhdm st) cr3 p = Some x}" (is "_ = ?B")
proof -
  let ?m = "mc_mem st" and ?h = "mc_hhdm st"
  have less: "y < 256" if "y < 128" for y :: u64 using that by (rule less_trans) simp
  have "set (cleanup_pml4_pages cr3 st) = insert cr3 {x. \<exists>i < 128. \<exists>e. e = ?m (ent_ptr ?h cr3 i) \<and> present e \<and>
      (\<exists>p. length p \<le> 2 \<and> (\<forall>i \<in> set p. i < 256) \<and> walk ?m ?h (PageAlign e) p = Some x)}" (is "_ = ?A")
    using set_children [of 128 st cr3 "CleanupPageStructure st 2"]
    by (simp add: cleanup_pml4_pages_def set_CleanupPageStructure)
  also have "?A = ?B"
  proof
    show "?A \<subseteq> ?B"
    proof
      fix x assume "x \<in> ?A"
      then consider "x = cr3" | i p where "i < 128" "present (?m (ent_ptr ?h cr3 i))" "length p \<le> 2"
          "\<forall>i \<in> set p. i < 256" "walk ?m ?h (PageAlign (?m (ent_ptr ?h cr3 i))) p = Some x" by blast
      then show "x \<in> ?B"
      proof cases
        case 1
        then show ?thesis by (intro CollectI exI [of _ "[]"]) (simp add: cleaned_def)
      next
        case (2 i p)
        then show ?thesis by (intro CollectI exI [of _ "i # p"]) (auto simp: cleaned_def less)
      qed
    qed
    show "?B \<subseteq> ?A"
    proof
      fix x assume "x \<in> ?B"
      then obtain p where "cleaned p" "walk ?m ?h cr3 p = Some x" by blast
      then show "x \<in> ?A" by (cases p) (auto simp: cleaned_def Let_def split: if_splits)
    qed
  qed
  finally show ?thesis .
qed

lemma distinct_cleanup_pml4_pages:
  assumes wf: "pt_wf (mc_mem st) (mc_hhdm st) cr3 F"
  shows "distinct (cleanup_pml4_pages cr3 st)"
proof -
  have "distinct (CleanupPageStructure st 2 (struct_entry st cr3 i AND NOT 0xFFF))"
    if "i < 128" "present (struct_entry st cr3 i)" for i
  proof (rule distinct_CleanupPageStructure [OF wf, of "[of_nat i]"])
    show "user_path [of_nat i]"
      using that(1) by (auto simp: user_path_def word_less_nat_alt unat_of_nat_u64)
    show "walk (mc_mem st) (mc_hhdm st) cr3 [of_nat i] = Some (struct_entry st cr3 i AND NOT 0xFFF)"
      using that(2) by (simp add: struct_entry_ptr page_simp)
  qed auto
  then show ?thesis
    using distinct_children [OF wf, of "[]" cr3 2 128]
    by (simp add: cleanup_pml4_pages_def user_path_def)
qed

lemma free_each_ok:
  "gPmm s = Some m \<Longrightarrow>
     \<exists>m'. free_each ps s = Inr (s\<lparr>gPmm := Some m'\<rparr>) \<and> free_frames m' = mset ps + free_frames m"
proof (induction ps arbitrary: s m)
  case Nil
  then show ?case by (intro exI [of _ m]) simp
next
  case (Cons p ps)
  then show ?case
    using Cons.IH [of "s\<lparr>gPmm := Some (Pmm_FreePage p m)\<rparr>" "Pmm_FreePage p m"]
    by (auto simp: FreePage_def Pmm_FreePage_frames)
qed

lemma cleaned_user: "cleaned p \<Longrightarrow> user_path p"
proof -
  assume c: "cleaned p"
  have "y < 512" if "y < 256" for y :: u64 using that by (rule less_trans) simp
  moreover have "y < 256" if "y < 128" for y :: u64 using that by (rule less_trans) simp
  ultimately show ?thesis using c by (auto simp: cleaned_def user_path_def)
qed

lemma user_stack_vidx:
  assumes "kUserStackMin \<le> v" and "v < kUserStackMax"
  shows "vidx 39 v = 255"
proof -
  have "unat v < 0x800000000000" "0x7FF000000000 \<le> unat v"
    using assms by (simp_all add: kUserStackMin_def kUserStackMax_def word_less_nat_alt word_le_nat_alt)
  then have "unat v div 549755813888 = 255" by simp
  then have "unat (vidx 39 v) = 255"
    by (simp add: vidx_def take_bit_eq_mod unat_mod drop_bit_eq_div unat_div)
  then show ?thesis by (simp add: word_unat_eq_iff)
qed

text \<open>
  C24.  Tearing down an address space.  \<open>CleanupPml4\<close> returns; it gives back exactly the tables on
  the paths whose first index is below 128 and whose other indices are below 256, each of them
  once, so no frame becomes free twice.  The comment in the code calls this the first half of the
  table; user space is the first 256 entries, and the tables of the user stacks are never given
  back.
\<close>

theorem CleanupPml4_frees:
  assumes "paging_inv cr3 st"
  shows "\<exists>st'. CleanupPml4 cr3 st = Inr st' \<and> (\<forall>t. count (mc_free st') t \<le> 1) \<and>
    (\<forall>t. t \<in># mc_free st' \<longleftrightarrow>
       t \<in># mc_free st \<or> (\<exists>p. cleaned p \<and> walk (mc_mem st) (mc_hhdm st) cr3 p = Some t)) \<and>
    (\<forall>v k t. kUserStackMin \<le> v \<longrightarrow> v < kUserStackMax \<longrightarrow> 1 \<le> k \<longrightarrow> k \<le> 3 \<longrightarrow>
       walk (mc_mem st) (mc_hhdm st) cr3 (take k (vpath v)) = Some t \<longrightarrow> t \<notin># mc_free st')"
proof -
  let ?ps = "cleanup_pml4_pages cr3 st"
  note wf = paging_invD(3) [OF assms]
  obtain m where m: "gPmm (mc_phys st) = Some m" "mc_free st = free_frames m"
    using paging_invD(1) [OF assms] by blast
  obtain m' where m': "free_each ?ps (mc_phys st) = Inr ((mc_phys st)\<lparr>gPmm := Some m'\<rparr>)"
      "free_frames m' = mset ?ps + free_frames m"
    using free_each_ok [OF m(1)] by blast
  let ?st = "st\<lparr>mc_phys := (mc_phys st)\<lparr>gPmm := Some m'\<rparr>\<rparr>"
  have free: "mc_free ?st = mset ?ps + mc_free st" using m' m(2) by (simp add: mc_free_def)
  have held: "t \<notin># mc_free st" if "t \<in> set ?ps" for t
    using that pt_wfD(4) [OF wf cleaned_user] by (auto simp: set_cleanup_pml4_pages cleaned_def)
  have "count (mc_free ?st) t \<le> 1" for t
  proof (cases "t \<in> set ?ps")
    case True
    then show ?thesis
      using held [OF True] distinct_count_atmost_1 [THEN iffD1, OF distinct_cleanup_pml4_pages [OF wf]]
      by (simp add: free not_in_iff)
  next
    case False
    then have "count (mset ?ps) t = 0" by (metis not_in_iff set_mset_mset)
    then show ?thesis unfolding free using paging_invD(2) [OF assms, of t] by (simp only: count_union add_0)
  qed
  moreover have "t \<notin># mc_free ?st" if "kUserStackMin \<le> v" "v < kUserStackMax" "1 \<le> k" "k \<le> 3"
      "walk (mc_mem st) (mc_hhdm st) cr3 (take k (vpath v)) = Some t" for v k t
  proof -
    have v: "v < 0x800000000000" using that(2) by (simp add: kUserStackMax_def)
    have up: "user_path (take k (vpath v))" "length (take k (vpath v)) \<le> 3"
      using user_vpath [OF v, of k] that(4) by (simp_all add: vpath_def)
    have "hd (take k (vpath v)) = 255" "take k (vpath v) \<noteq> []"
      using that(3) user_stack_vidx [OF that(1,2)] by (cases k; simp add: vpath_def)+
    then have "\<not> cleaned (take k (vpath v))" by (simp add: cleaned_def)
    moreover have "p = take k (vpath v)" if p: "cleaned p" "walk (mc_mem st) (mc_hhdm st) cr3 p = Some t" for p
      using pt_wfD(5) [OF wf cleaned_user [OF p(1)] up(1) _ up(2) p(2) \<open>walk _ _ _ (take k _) = _\<close>] p(1)
      by (simp add: cleaned_def)
    ultimately have "t \<notin> set ?ps" by (auto simp: set_cleanup_pml4_pages)
    then show ?thesis using pt_wfD(4) [OF wf up that(5)] by (simp add: free)
  qed
  moreover have "CleanupPml4 cr3 st = Inr ?st" using m' by (simp add: CleanupPml4_def)
  moreover have "t \<in># mc_free ?st \<longleftrightarrow>
      t \<in># mc_free st \<or> (\<exists>p. cleaned p \<and> walk (mc_mem st) (mc_hhdm st) cr3 p = Some t)" for t
    by (auto simp: free set_cleanup_pml4_pages)
  ultimately show ?thesis by (intro exI [of _ ?st] conjI allI impI) auto
qed

theorem CleanupPml4_frees_witness:
  "\<exists>st1 st2 t. MapPage 0x100000 0x7FFFFFFFF000 0 machine_example = Inr st1 \<and>
     CleanupPml4 0x100000 st1 = Inr st2 \<and> 0x100000 \<in># mc_free st2 \<and>
     walk (mc_mem st1) (mc_hhdm st1) 0x100000 (take 3 (vpath 0x7FFFFFFFF000)) = Some t \<and> t \<notin># mc_free st2"
proof -
  let ?v = "0x7FFFFFFFF000 :: u64"
  have none: "translation 0x100000 w machine_example = None" for w
    by (simp add: translation_def machine_example_def vpath_def present_def)
  obtain st1 where st1: "MapPage 0x100000 ?v 0 machine_example = Inr st1" "paging_inv 0x100000 st1"
      "\<And>w. w < 0x800000000000 \<Longrightarrow> translation 0x100000 w st1 =
        (if PageAlign w = PageAlign ?v then Some (PageAlign 0) else translation 0x100000 w machine_example)"
    using MapPage_maps [OF machine_example_inv _ _ none, of ?v 0] by (simp add: machine_example_free) metis
  then have "translation 0x100000 ?v st1 = Some (PageAlign 0)" using st1(3) [of ?v] by simp
  then obtain t where t: "walk (mc_mem st1) (mc_hhdm st1) 0x100000 (take 3 (vpath ?v)) = Some t"
    by (auto simp: translation_def vpath_def Let_def split: if_splits)
  obtain st2 where st2: "CleanupPml4 0x100000 st1 = Inr st2"
      "cleaned p \<Longrightarrow> walk (mc_mem st1) (mc_hhdm st1) 0x100000 p = Some x \<Longrightarrow> x \<in># mc_free st2"
      "kUserStackMin \<le> v \<Longrightarrow> v < kUserStackMax \<Longrightarrow> 1 \<le> k \<Longrightarrow> k \<le> 3 \<Longrightarrow>
        walk (mc_mem st1) (mc_hhdm st1) 0x100000 (take k (vpath v)) = Some x \<Longrightarrow> x \<notin># mc_free st2" for p x v k
    using CleanupPml4_frees [OF st1(2)] by metis
  have "t \<notin># mc_free st2"
    by (rule st2(3) [OF _ _ _ _ t]) (simp_all add: kUserStackMin_def kUserStackMax_def)
  moreover have "0x100000 \<in># mc_free st2" using st2(2) [of "[]"] by (simp add: cleaned_def)
  ultimately show ?thesis using st1(1) st2(1) t by blast
qed

end
