(* ===== verification/Zion_MemoryObject.thy ===== *)
theory Zion_MemoryObject
  imports Glcr_Status Glcr_Array Zion_Paging
begin

text \<open>
  Memory objects (\<open>zion/object/memory_object.h\<close>, \<open>memory_object.cpp\<close>).  The three classes
  are the constructors of one type; the virtual functions are defined by their cases.  An object
  that allocates pages on demand takes and returns the state of the physical memory.  The bytes
  behind the direct map are a function \<open>u64 \<Rightarrow> u8\<close> where \<open>CopyBytesToObject\<close> writes them.
  Reference counts are not part of the model: the destructor is an operation of its own.
\<close>

section \<open>The objects\<close>

datatype MemoryObject =
    VariableMemoryObject u64 "u64 Array"
  | FixedMemoryObject u64 u64
  | ViewMemoryObject u64 u64

fun MemoryObject_size :: "MemoryObject \<Rightarrow> u64" where
  "MemoryObject_size (VariableMemoryObject sz _) = sz"
| "MemoryObject_size (FixedMemoryObject sz _) = sz"
| "MemoryObject_size (ViewMemoryObject sz _) = sz"

definition num_pages :: "MemoryObject \<Rightarrow> u64" where
  "num_pages obj = (MemoryObject_size obj - 1) div kPageSize + 1"

text \<open>The loop \<open>for (uint64_t& page : phys_page_list_) page = 0\<close>, over the positions it visits.\<close>

fun clear_pages :: "nat list \<Rightarrow> u64 Array \<Rightarrow> u64 Array run" where
  "clear_pages [] a = Inr a"
| "clear_pages (i # is) a = run_bind (Array_set a (of_nat i) 0) (clear_pages is)"

text \<open>Fresh memory of the kernel heap is filled with the byte \<open>0xAB\<close>.\<close>

definition VariableMemoryObject_new :: "u64 \<Rightarrow> MemoryObject run" where
  "VariableMemoryObject_new sz =
     (let size = (if sz AND 0xFFF \<noteq> 0 then (sz AND NOT 0xFFF) + 0x1000 else sz);
          num_pages = size div 0x1000;
          phys_page_list = Array_new 0xABABABABABABABAB num_pages
      in run_map (VariableMemoryObject size)
           (clear_pages (iter_visits (Array_begin phys_page_list)) phys_page_list))"

fun PageNumberToPhysAddr :: "u64 \<Rightarrow> MemoryObject \<Rightarrow> PhysMem \<Rightarrow> (u64 \<times> MemoryObject \<times> PhysMem) run" where
  "PageNumberToPhysAddr page_num (VariableMemoryObject sz phys_page_list) s =
     run_bind (Array_at phys_page_list page_num) (\<lambda>page.
     if page = 0
     then run_bind (AllocatePage s) (\<lambda>(page, s').
          run_map (\<lambda>l. (page, VariableMemoryObject sz l, s')) (Array_set phys_page_list page_num page))
     else Inr (page, VariableMemoryObject sz phys_page_list, s))"
| "PageNumberToPhysAddr page_num (FixedMemoryObject sz physical_addr) s =
     Inr (physical_addr + kPageSize * page_num, FixedMemoryObject sz physical_addr, s)"
| "PageNumberToPhysAddr page_num (ViewMemoryObject sz physical_addr) s =
     Inr (physical_addr + kPageSize * page_num, ViewMemoryObject sz physical_addr, s)"

definition PhysicalPageAtOffset ::
    "u64 \<Rightarrow> MemoryObject \<Rightarrow> PhysMem \<Rightarrow> (u64 \<times> MemoryObject \<times> PhysMem) run" where
  "PhysicalPageAtOffset offset obj s =
     (if offset > MemoryObject_size obj then Inl (Panic ''Invalid offset'')
      else PageNumberToPhysAddr (offset div 0x1000) obj s)"

text \<open>The inner loop of \<open>CopyBytesToObject\<close>, and the loop over the pages.\<close>

definition copy_page :: "u64 \<Rightarrow> u64 \<Rightarrow> u64 \<Rightarrow> (u64 \<Rightarrow> u8) \<Rightarrow> u64 \<Rightarrow> u8" where
  "copy_page destptr srcptr bytes_to_copy m =
     fold (\<lambda>i m. m(destptr + of_nat i := m (srcptr + of_nat i))) [0..<unat bytes_to_copy] m"

function copy_loop ::
    "u64 \<Rightarrow> u64 \<Rightarrow> u64 \<Rightarrow> u64 \<Rightarrow> MemoryObject \<Rightarrow> PhysMem \<Rightarrow> (u64 \<Rightarrow> u8) \<Rightarrow>
     (MemoryObject \<times> PhysMem \<times> (u64 \<Rightarrow> u8)) run" where
  "copy_loop hhdm page_number source len obj s m =
     (if len > 0
      then run_bind (PageNumberToPhysAddr page_number obj s) (\<lambda>(phys, obj, s).
           let physical = hhdm + phys;
               bytes_to_copy = (if len \<ge> 0x1000 then 0x1000 else len)
           in copy_loop hhdm (page_number + 1) (source + 0x1000) (len - bytes_to_copy) obj s
                (copy_page physical source bytes_to_copy m))
      else Inr (obj, s, m))"
  by pat_completeness auto

termination
  by (relation "measure (\<lambda>(_, _, _, len, _, _, _). unat len)")
     (auto simp: unat_sub_le word_less_unat word_le_unat split: if_splits)

declare copy_loop.simps [simp del]

definition CopyBytesToObject ::
    "u64 \<Rightarrow> u64 \<Rightarrow> u64 \<Rightarrow> MemoryObject \<Rightarrow> PhysMem \<Rightarrow> (u64 \<Rightarrow> u8) \<Rightarrow>
     (MemoryObject \<times> PhysMem \<times> (u64 \<Rightarrow> u8)) run" where
  "CopyBytesToObject hhdm source len obj s m =
     (if len > MemoryObject_size obj then Inl (Panic ''Copy overruns memory object'')
      else copy_loop hhdm 0 source len obj s m)"

text \<open>The destructors.\<close>

fun free_listed :: "nat list \<Rightarrow> u64 Array \<Rightarrow> PhysMem \<Rightarrow> PhysMem run" where
  "free_listed [] a s = Inr s"
| "free_listed (i # is) a s =
     run_bind (Array_at a (of_nat i)) (\<lambda>page.
     run_bind (if page \<noteq> 0 then FreePage page s else Inr s) (free_listed is a))"

fun MemoryObject_destroy :: "MemoryObject \<Rightarrow> PhysMem \<Rightarrow> PhysMem run" where
  "MemoryObject_destroy (VariableMemoryObject sz phys_page_list) s =
     free_listed (iter_visits (Array_begin phys_page_list)) phys_page_list s"
| "MemoryObject_destroy (FixedMemoryObject sz physical_addr) s =
     FreePages physical_addr (num_pages (FixedMemoryObject sz physical_addr)) s"
| "MemoryObject_destroy (ViewMemoryObject sz physical_addr) s = Inr s"

fun MemoryObject_Duplicate :: "u64 \<Rightarrow> u64 \<Rightarrow> MemoryObject \<Rightarrow> MemoryObject ErrorOr" where
  "MemoryObject_Duplicate offset len (VariableMemoryObject _ _) = Inl UNIMPLEMENTED"
| "MemoryObject_Duplicate offset len (FixedMemoryObject _ _) = Inl UNIMPLEMENTED"
| "MemoryObject_Duplicate offset len (ViewMemoryObject sz physical_addr) =
     (if offset + len > sz then Inl INVALID_ARGUMENT
      else Inr (ViewMemoryObject len (physical_addr + offset)))"

section \<open>The frames of the physical memory\<close>

definition phys_free :: "PhysMem \<Rightarrow> u64 multiset" where
  "phys_free s = (case gPmm s of None \<Rightarrow> {#} | Some m \<Rightarrow> free_frames m)"

definition phys_inv :: "PhysMem \<Rightarrow> bool" where
  "phys_inv s \<longleftrightarrow> (case gPmm s of None \<Rightarrow> False | Some m \<Rightarrow> pmm_inv m) \<and>
     (\<forall>f. count (phys_free s) f \<le> 1) \<and> 0 \<notin># phys_free s"

lemma AllocatePage_ok:
  assumes "phys_inv s" and "phys_free s \<noteq> {#}"
  obtains f s' where "AllocatePage s = Inr (f, s')" and "phys_inv s'"
    and "phys_free s = add_mset f (phys_free s')"
proof -
  obtain m where m: "gPmm s = Some m" "pmm_inv m"
    using assms(1) by (auto simp: phys_inv_def split: option.splits)
  then obtain f m' where a: "Pmm_AllocatePage m = Inr (f, m')"
    using Pmm_AllocatePage_returns_iff [OF m(2)] assms(2) by (auto simp: returns_iff phys_free_def)
  let ?s = "s\<lparr>gPmm := Some m'\<rparr>"
  have fr: "phys_free s = add_mset f (phys_free ?s)"
    using Pmm_AllocatePage_frames [OF a] m(1) by (simp add: phys_free_def)
  have "count (phys_free ?s) x \<le> 1" for x
  proof -
    have "count (phys_free ?s) x \<le> count (phys_free s) x" by (simp add: fr)
    also have "\<dots> \<le> 1" using assms(1) by (simp add: phys_inv_def)
    finally show ?thesis .
  qed
  moreover have "0 \<notin># phys_free ?s" using assms(1) fr by (auto simp: phys_inv_def)
  ultimately have "phys_inv ?s" using Pmm_AllocatePage_inv [OF a m(2)] by (simp add: phys_inv_def)
  with that [of f ?s] a m(1) fr show ?thesis by (simp add: AllocatePage_def)
qed

lemma FreePage_ok:
  assumes "gPmm s \<noteq> None"
  obtains s' where "FreePage f s = Inr s'" and "gPmm s' \<noteq> None" and "phys_free s' = add_mset f (phys_free s)"
  using assms by (auto simp: FreePage_def phys_free_def Pmm_FreePage_frames)

section \<open>Objects that allocate on demand\<close>

text \<open>\<open>ps\<close> are the pages of the object, zero where none was allocated yet.\<close>

definition vmo :: "u64 list \<Rightarrow> MemoryObject" where
  "vmo ps = VariableMemoryObject (of_nat (0x1000 * length ps)) \<lparr>arr_data = Some ps, arr_size = of_nat (length ps)\<rparr>"

definition pages_held :: "u64 list \<Rightarrow> u64 multiset" where
  "pages_held ps = mset (filter (\<lambda>p. p \<noteq> 0) ps)"

definition vmo_inv :: "u64 list \<Rightarrow> PhysMem \<Rightarrow> bool" where
  "vmo_inv ps s \<longleftrightarrow> phys_inv s \<and> ps \<noteq> [] \<and> length ps < 0x10000000000000 \<and>
     distinct (filter (\<lambda>p. p \<noteq> 0) ps) \<and> (\<forall>p \<in> set ps. p \<notin># phys_free s)"

lemma clear_pages_ok:
  assumes "\<forall>i \<in> set is. i < length xs" and "length xs < 18446744073709551616"
  shows "clear_pages is \<lparr>arr_data = Some xs, arr_size = c\<rparr> =
    Inr \<lparr>arr_data = Some (map (\<lambda>j. if j \<in> set is then 0 else xs ! j) [0..<length xs]), arr_size = c\<rparr>"
  using assms
proof (induction "is" arbitrary: xs)
  case Nil
  then show ?case by (simp add: map_nth)
next
  case (Cons i "is")
  then have "unat (of_nat i :: u64) = i" by (intro unat_of_nat_u64) auto
  with Cons show ?case
    by (auto simp: Array_set_def cell_set_def nth_list_update intro!: map_cong)
qed

lemma page_list_visits:
  "iter_visits (Array_begin a) = (if arr_data a = None then [] else [0..<max 1 (unat (arr_size a))])"
  by (auto simp: Array_begin_def iter_visits_from)

lemma unat_PageAlign: "unat (PageAlign x) = unat x div 0x1000 * 0x1000"
proof -
  have "PageAlign x = push_bit 12 (drop_bit 12 x)"
    unfolding PageAlign_def page_mask_eq by (rule bit_word_eqI) (auto simp: bit_simps)
  moreover have "unat x div 0x1000 * 0x1000 < 18446744073709551616" using unat_lt_64 [of x] by simp
  ultimately show ?thesis
    by (simp add: push_bit_eq_mult drop_bit_eq_div unat_word_ariths unat_div)
qed

lemma unat_page_offset: "unat (x AND 0xFFF :: u64) = unat x mod 0x1000"
  unfolding page_mask_eq by (simp add: take_bit_eq_mask [symmetric] take_bit_eq_mod unat_mod)

text \<open>Rounding a size up to whole pages, as the constructor does.\<close>

lemma page_round_up:
  fixes sz :: u64
  assumes "unat sz \<le> 0xFFFFFFFFFFFFF000"
  shows "unat (if sz AND 0xFFF \<noteq> 0 then (sz AND NOT 0xFFF) + 0x1000 else sz) =
    0x1000 * ((unat sz + 0xFFF) div 0x1000)"
proof (cases "sz AND 0xFFF = 0")
  case True
  then have "unat sz mod 0x1000 = 0" using unat_page_offset [of sz] by simp
  then obtain k where "unat sz = 0x1000 * k" by (auto simp: mod_eq_0_iff_dvd elim: dvdE)
  then show ?thesis using True by simp
next
  case False
  then have m: "unat sz mod 0x1000 \<noteq> 0" using unat_page_offset [of sz] by (metis unat_eq_zero)
  then have "(unat sz + 0xFFF) div 0x1000 = Suc (unat sz div 0x1000)"
  proof -
    obtain q r where qr: "q = unat sz div 0x1000" "r = unat sz mod 0x1000" by simp
    have u: "unat sz = 0x1000 * q + r" unfolding qr by simp
    have r: "r < 0x1000" "0 < r" using m unfolding qr by simp_all
    have "(0x1000 * q + r + 0xFFF) div 0x1000 = Suc q" using r by (intro div_nat_eqI) simp_all
    then show ?thesis unfolding qr(1) [symmetric] unfolding u .
  qed
  moreover have "unat ((sz AND NOT 0xFFF) + 0x1000) = unat sz div 0x1000 * 0x1000 + 0x1000"
  proof -
    have "unat sz \<noteq> 0xFFFFFFFFFFFFF000" using m by auto
    then have "unat sz < 4503599627370495 * 0x1000" using assms by linarith
    then have "unat sz div 0x1000 < 4503599627370495" by (rule less_mult_imp_div_less)
    then show ?thesis using unat_PageAlign [of sz] by (subst unat_add_noof) (simp_all add: page_simp)
  qed
  ultimately show ?thesis using False by simp
qed

lemma VariableMemoryObject_new_ok:
  assumes "sz \<noteq> 0" and "unat sz \<le> 0xFFFFFFFFFFFFF000"
  shows "VariableMemoryObject_new sz = Inr (vmo (replicate ((unat sz + 0xFFF) div 0x1000) 0))"
proof -
  let ?n = "(unat sz + 0xFFF) div 0x1000"
  define size where "size = (if sz AND 0xFFF \<noteq> 0 then (sz AND NOT 0xFFF) + 0x1000 else sz)"
  have sz: "unat size = 0x1000 * ?n" unfolding size_def by (rule page_round_up [OF assms(2)])
  then have size: "size = of_nat (0x1000 * ?n)" by (rule of_nat_unat_eq)
  have "unat (size div 0x1000) = ?n" using sz by (simp add: unat_div)
  then have pages: "size div 0x1000 = of_nat ?n" "unat (size div 0x1000) = ?n" by (auto dest: of_nat_unat_eq)
  have n: "0 < ?n" "?n < 18446744073709551616"
    using assms by (auto simp: unat_gt_0 [symmetric] simp del: unat_gt_0)
  then have "max 1 ?n = ?n" by simp
  moreover have "map (\<lambda>j. if j < k then 0 else xs ! j) [0..<k] = replicate k 0" for k and xs :: "u64 list"
    by (rule nth_equalityI) auto
  ultimately have "clear_pages (iter_visits (Array_begin (Array_new (0xABABABABABABABAB :: u64) (size div 0x1000))))
      (Array_new 0xABABABABABABABAB (size div 0x1000)) =
      Inr \<lparr>arr_data = Some (replicate ?n 0), arr_size = of_nat ?n\<rparr>"
    using n pages unfolding page_list_visits
    by (simp add: Array_new_def clear_pages_ok)
  then show ?thesis
    unfolding VariableMemoryObject_new_def Let_def size_def [symmetric]
    by (simp add: vmo_def size)
qed

lemma vmo_page_at:
  assumes "length ps < 0x10000000000000" and "unat i < length ps"
  shows "Array_at \<lparr>arr_data = Some ps, arr_size = c\<rparr> i = Inr (ps ! unat i)"
  using assms by (simp add: Array_at_def cell_get_def)

lemma pages_held_update:
  assumes "i < length ps" and "ps ! i = 0" and "f \<noteq> 0"
  shows "pages_held (ps[i := f]) = add_mset f (pages_held ps)"
proof -
  let ?xs = "take i ps" and ?ys = "drop (Suc i) ps"
  have "pages_held (?xs @ f # ?ys) = add_mset f (pages_held (?xs @ 0 # ?ys))"
    using assms(3) by (simp add: pages_held_def)
  moreover have "?xs @ 0 # ?ys = ps" using assms(1,2) by (metis id_take_nth_drop)
  moreover have "?xs @ f # ?ys = ps[i := f]" using assms(1) by (simp add: upd_conv_take_nth_drop)
  ultimately show ?thesis by simp
qed

lemma PageNumberToPhysAddr_ok:
  assumes inv: "vmo_inv ps s" and i: "unat i < length ps" and free: "ps ! unat i \<noteq> 0 \<or> phys_free s \<noteq> {#}"
  obtains f s' where "PageNumberToPhysAddr i (vmo ps) s = Inr (f, vmo (ps[unat i := f]), s')"
    and "f \<noteq> 0" and "vmo_inv (ps[unat i := f]) s'" and "ps ! unat i \<noteq> 0 \<Longrightarrow> f = ps ! unat i"
    and "pages_held (ps[unat i := f]) + phys_free s' = pages_held ps + phys_free s"
    and "size (phys_free s') = (if ps ! unat i = 0 then size (phys_free s) - 1 else size (phys_free s))"
proof (cases "ps ! unat i = 0")
  case False
  then show ?thesis
    using that [of "ps ! unat i" s] inv i by (simp add: vmo_def vmo_page_at vmo_inv_def)
next
  case True
  obtain f s' where a: "AllocatePage s = Inr (f, s')" "phys_inv s'" "phys_free s = add_mset f (phys_free s')"
    using AllocatePage_ok inv free True by (metis vmo_inv_def)
  have len: "length ps < 0x10000000000000" using inv by (simp add: vmo_inv_def)
  have f0: "f \<noteq> 0" using inv a(3) by (auto simp: vmo_inv_def phys_inv_def)
  have cnt: "count (phys_free s) f \<le> 1" using inv by (simp add: vmo_inv_def phys_inv_def)
  then have nf: "f \<notin># phys_free s'" using a(3) by (simp add: not_in_iff)
  have held: "pages_held (ps[unat i := f]) = add_mset f (pages_held ps)"
    by (rule pages_held_update [OF i True f0])
  have "f \<notin> set ps" using inv a(3) by (auto simp: vmo_inv_def)
  then have "f \<notin># pages_held ps" by (auto simp: pages_held_def)
  moreover have "distinct (filter (\<lambda>p. p \<noteq> 0) ps)" using inv by (simp add: vmo_inv_def)
  ultimately have "distinct (filter (\<lambda>p. p \<noteq> 0) (ps[unat i := f]))"
    using held unfolding pages_held_def by (metis distinct.simps(2) mset.simps(2) mset_eq_imp_distinct_iff set_mset_mset)
  moreover have "\<forall>p \<in> set (ps[unat i := f]). p \<notin># phys_free s'"
    using inv a(3) nf by (auto simp: vmo_inv_def dest: set_update_subset_insert [THEN subsetD])
  ultimately have "vmo_inv (ps[unat i := f]) s'" using inv a(2) by (simp add: vmo_inv_def)
  moreover have "PageNumberToPhysAddr i (vmo ps) s = Inr (f, vmo (ps[unat i := f]), s')"
    using True a(1) i len by (simp add: vmo_def vmo_page_at Array_set_def cell_set_def)
  ultimately show ?thesis using that [of f s'] f0 True held a(3) by simp
qed

lemma free_listed_ok:
  assumes "gPmm s \<noteq> None" and "\<forall>i \<in> set is. i < length ps" and "length ps < 0x10000000000000"
  shows "\<exists>s'. free_listed is \<lparr>arr_data = Some ps, arr_size = c\<rparr> s = Inr s' \<and> gPmm s' \<noteq> None \<and>
    phys_free s' = pages_held (map ((!) ps) is) + phys_free s"
  using assms
proof (induction "is" arbitrary: s)
  case Nil
  then show ?case by (simp add: pages_held_def)
next
  case (Cons i "is")
  have i: "unat (of_nat i :: u64) = i" using Cons.prems by (intro unat_of_nat_u64) auto
  have at: "Array_at \<lparr>arr_data = Some ps, arr_size = c\<rparr> (of_nat i) = Inr (ps ! i)"
    using vmo_page_at [of ps "of_nat i" c] Cons.prems i by simp
  obtain s1 where s1: "(if ps ! i \<noteq> 0 then FreePage (ps ! i) s else Inr s) = Inr s1" "gPmm s1 \<noteq> None"
      "phys_free s1 = pages_held [ps ! i] + phys_free s"
  proof (cases "ps ! i = 0")
    case True
    then show ?thesis using that [of s] Cons.prems(1) by (simp add: pages_held_def)
  next
    case False
    obtain s1 where "FreePage (ps ! i) s = Inr s1" "gPmm s1 \<noteq> None"
        "phys_free s1 = add_mset (ps ! i) (phys_free s)"
      by (rule FreePage_ok [OF Cons.prems(1)])
    with False that [of s1] show ?thesis by (simp add: pages_held_def)
  qed
  obtain s' where "free_listed is \<lparr>arr_data = Some ps, arr_size = c\<rparr> s1 = Inr s'" "gPmm s' \<noteq> None"
      "phys_free s' = pages_held (map ((!) ps) is) + phys_free s1"
    using Cons.IH [OF s1(2)] Cons.prems by auto
  with s1 at show ?case by (auto simp: pages_held_def)
qed

lemma destroy_vmo:
  assumes "vmo_inv ps s"
  shows "\<exists>s'. MemoryObject_destroy (vmo ps) s = Inr s' \<and> phys_free s' = pages_held ps + phys_free s"
proof -
  have "unat (of_nat (length ps) :: u64) = length ps"
    using assms by (intro unat_of_nat_u64) (simp add: vmo_inv_def)
  then have visits: "iter_visits (Array_begin \<lparr>arr_data = Some ps, arr_size = of_nat (length ps)\<rparr>) = [0..<length ps]"
    using assms by (cases ps) (auto simp: page_list_visits vmo_inv_def max_def)
  have "gPmm s \<noteq> None" using assms by (auto simp: vmo_inv_def phys_inv_def split: option.splits)
  from free_listed_ok [OF this, of "[0..<length ps]" ps "of_nat (length ps)"] assms visits show ?thesis
    by (auto simp: vmo_def vmo_inv_def map_nth)
qed

section \<open>The interface of a backing store\<close>

text \<open>Asking for the frames of a list of pages, one after the other.\<close>

fun touch_all :: "(u64 \<Rightarrow> 'o \<Rightarrow> PhysMem \<Rightarrow> (u64 \<times> 'o \<times> PhysMem) run) \<Rightarrow> u64 list \<Rightarrow> 'o \<Rightarrow> PhysMem \<Rightarrow>
    (u64 list \<times> 'o \<times> PhysMem) run" where
  "touch_all page_of [] obj s = Inr ([], obj, s)"
| "touch_all page_of (i # is) obj s =
     run_bind (page_of i obj s) (\<lambda>(f, obj, s). run_map (\<lambda>(fs, r). (f # fs, r)) (touch_all page_of is obj s))"

text \<open>
  What an address space relies on when it resolves a fault: asking for a page of the object gives a
  frame, which stays the frame of that page, and no frame is lost or made up.
\<close>

locale backing_store =
  fixes rep :: "'o \<Rightarrow> u64 list \<Rightarrow> PhysMem \<Rightarrow> bool"
    and page_of :: "u64 \<Rightarrow> 'o \<Rightarrow> PhysMem \<Rightarrow> (u64 \<times> 'o \<times> PhysMem) run"
  assumes page_ok: "rep obj ps s \<Longrightarrow> unat i < length ps \<Longrightarrow> ps ! unat i \<noteq> 0 \<or> phys_free s \<noteq> {#} \<Longrightarrow>
      \<exists>f obj' s'. page_of i obj s = Inr (f, obj', s') \<and> f \<noteq> 0 \<and> rep obj' (ps[unat i := f]) s' \<and>
        (ps ! unat i \<noteq> 0 \<longrightarrow> f = ps ! unat i) \<and>
        pages_held (ps[unat i := f]) + phys_free s' = pages_held ps + phys_free s \<and>
        size (phys_free s) \<le> Suc (size (phys_free s'))"
begin

lemma touch_all_ok:
  assumes "rep obj ps s" and "\<forall>i \<in> set is. unat i < length ps" and "length is \<le> size (phys_free s)"
  shows "\<exists>fs obj' ps' s'. touch_all page_of is obj s = Inr (fs, obj', s') \<and> rep obj' ps' s' \<and>
    length ps' = length ps \<and> fs = map (\<lambda>i. ps' ! unat i) is \<and> (\<forall>i \<in> set is. ps' ! unat i \<noteq> 0) \<and>
    (\<forall>j < length ps. ps ! j \<noteq> 0 \<longrightarrow> ps' ! j = ps ! j) \<and>
    pages_held ps' + phys_free s' = pages_held ps + phys_free s"
  using assms
proof (induction "is" arbitrary: obj ps s)
  case (Cons i "is")
  have i: "unat i < length ps" "phys_free s \<noteq> {#}" using Cons.prems(2,3) by auto
  obtain f obj1 s1 where 1: "page_of i obj s = Inr (f, obj1, s1)" "f \<noteq> 0" "rep obj1 (ps[unat i := f]) s1"
      "ps ! unat i \<noteq> 0 \<longrightarrow> f = ps ! unat i"
      "pages_held (ps[unat i := f]) + phys_free s1 = pages_held ps + phys_free s"
      "size (phys_free s) \<le> Suc (size (phys_free s1))"
    using page_ok [OF Cons.prems(1) i(1)] i(2) by blast
  obtain fs obj' ps' s' where 2: "touch_all page_of is obj1 s1 = Inr (fs, obj', s')" "rep obj' ps' s'"
      "length ps' = length ps" "fs = map (\<lambda>i. ps' ! unat i) is" "\<forall>i \<in> set is. ps' ! unat i \<noteq> 0"
      "\<forall>j < length ps. ps[unat i := f] ! j \<noteq> 0 \<longrightarrow> ps' ! j = ps[unat i := f] ! j"
      "pages_held ps' + phys_free s' = pages_held (ps[unat i := f]) + phys_free s1"
    using Cons.IH [OF 1(3)] Cons.prems(2,3) 1(6) by auto
  have f: "ps' ! unat i = f" using 2(6) i(1) 1(2) by simp
  have "ps' ! j = ps ! j" if "j < length ps" "ps ! j \<noteq> 0" for j
    using 2(6) that 1(4) i(1) by (cases "j = unat i") auto
  with 1 2 f show ?case by auto
qed auto

end

interpretation vm: backing_store "\<lambda>obj ps s. obj = vmo ps \<and> vmo_inv ps s" PageNumberToPhysAddr
proof
  fix obj ps s and i :: u64
  assume "obj = vmo ps \<and> vmo_inv ps s" "unat i < length ps" "ps ! unat i \<noteq> 0 \<or> phys_free s \<noteq> {#}"
  then obtain f s' where "PageNumberToPhysAddr i obj s = Inr (f, vmo (ps[unat i := f]), s')" "f \<noteq> 0"
      "vmo_inv (ps[unat i := f]) s'" "ps ! unat i \<noteq> 0 \<Longrightarrow> f = ps ! unat i"
      "pages_held (ps[unat i := f]) + phys_free s' = pages_held ps + phys_free s"
      "size (phys_free s') = (if ps ! unat i = 0 then size (phys_free s) - 1 else size (phys_free s))"
    using PageNumberToPhysAddr_ok [of ps s i] by metis
  then show "\<exists>f obj' s'. PageNumberToPhysAddr i obj s = Inr (f, obj', s') \<and> f \<noteq> 0 \<and>
      (obj' = vmo (ps[unat i := f]) \<and> vmo_inv (ps[unat i := f]) s') \<and>
      (ps ! unat i \<noteq> 0 \<longrightarrow> f = ps ! unat i) \<and>
      pages_held (ps[unat i := f]) + phys_free s' = pages_held ps + phys_free s \<and>
      size (phys_free s) \<le> Suc (size (phys_free s'))"
    by (auto split: if_splits)
qed

lemma distinct_filter_nth:
  "distinct (filter P xs) \<Longrightarrow> i < length xs \<Longrightarrow> j < length xs \<Longrightarrow> P (xs ! i) \<Longrightarrow> xs ! i = xs ! j \<Longrightarrow> i = j"
proof (induction xs arbitrary: i j)
  case (Cons x xs)
  show ?case
  proof (cases i; cases j)
    fix i' j' assume "i = Suc i'" "j = Suc j'"
    then show ?thesis using Cons by (auto split: if_splits)
  qed (use Cons.prems in \<open>auto split: if_splits\<close>)
qed simp

section \<open>Copying into an object\<close>

lemma copy_page_ok:
  assumes "\<forall>i < n. \<forall>j < n. srcptr + of_nat i \<noteq> destptr + of_nat j" and "n \<le> 0x1000"
  shows "i < n \<Longrightarrow> fold (\<lambda>i m. m(destptr + of_nat i := m (srcptr + of_nat i))) [0..<n] m (destptr + of_nat i) =
      (m (srcptr + of_nat i) :: u8)"
    and "\<forall>i < n. x \<noteq> destptr + of_nat i \<Longrightarrow>
      fold (\<lambda>i m. m(destptr + of_nat i := m (srcptr + of_nat i))) [0..<n] m x = m (x :: u64)"
proof -
  define F where "F k = fold (\<lambda>i m. m(destptr + of_nat i := m (srcptr + of_nat i))) [0..<k] m" for k
  have F: "F 0 = m" "\<And>k. F (Suc k) = (F k)(destptr + of_nat k := F k (srcptr + of_nat k))"
    by (simp_all add: F_def)
  have inj: "(of_nat i :: u64) = of_nat j \<longleftrightarrow> i = j" if "i < n" "j < n" for i j
  proof -
    have "unat (of_nat i :: u64) = i" "unat (of_nat j :: u64) = j"
      using that assms(2) by (auto intro!: unat_of_nat_u64)
    then show ?thesis by metis
  qed
  have "(\<forall>i < k. F k (destptr + of_nat i) = m (srcptr + of_nat i)) \<and>
      (\<forall>x. (\<forall>i < k. x \<noteq> destptr + of_nat i) \<longrightarrow> F k x = m x)" if "k \<le> n" for k
    using that
  proof (induction k)
    case (Suc k)
    then have IH: "\<And>i. i < k \<Longrightarrow> F k (destptr + of_nat i) = m (srcptr + of_nat i)"
        "\<And>x. \<forall>i < k. x \<noteq> destptr + of_nat i \<Longrightarrow> F k x = m x" by auto
    have src: "F k (srcptr + of_nat k) = m (srcptr + of_nat k)"
      using IH(2) assms(1) Suc.prems by auto
    have step: "F (Suc k) = (F k)(destptr + of_nat k := m (srcptr + of_nat k))" using src F(2) by simp
    have "F (Suc k) (destptr + of_nat i) = m (srcptr + of_nat i)" if "i < Suc k" for i
      unfolding step using IH(1) [of i] inj [of i k] that Suc.prems by (cases "i = k") auto
    moreover have "F (Suc k) x = m x" if "\<forall>i < Suc k. x \<noteq> destptr + of_nat i" for x
      unfolding step using IH(2) [of x] that by simp
    ultimately show ?case by blast
  qed (simp add: F)
  from this [of n] show "i < n \<Longrightarrow> fold (\<lambda>i m. m(destptr + of_nat i := m (srcptr + of_nat i))) [0..<n] m (destptr + of_nat i) =
      (m (srcptr + of_nat i) :: u8)"
    and "\<forall>i < n. x \<noteq> destptr + of_nat i \<Longrightarrow>
      fold (\<lambda>i m. m(destptr + of_nat i := m (srcptr + of_nat i))) [0..<n] m x = m (x :: u64)"
    unfolding F_def by blast+
qed

lemma page_byte_inject:
  assumes "aligned f" "aligned f'" "r < 0x1000" "r' < 0x1000" and "h + f + of_nat r = h + f' + (of_nat r' :: u64)"
  shows "f = f'" and "r = r'"
proof -
  have lt: "(of_nat r :: u64) < 0x1000" "(of_nat r' :: u64) < 0x1000" "unat (of_nat r :: u64) = r"
      "unat (of_nat r' :: u64) = r'"
    using assms(3,4) by (auto simp: word_less_nat_alt unat_of_nat_u64)
  have eq: "f + of_nat r = f' + of_nat r'" using assms(5) by (simp add: add.assoc)
  show "f = f'" using PageAlign_add [OF assms(1) lt(1)] PageAlign_add [OF assms(2) lt(2)] eq by metis
  with eq lt(3,4) show "r = r'" by (metis add_left_cancel)
qed

text \<open>The bytes of the object from page \<open>k\<close> on, and the frames that a copy may write.\<close>

definition object_byte :: "u64 \<Rightarrow> u64 list \<Rightarrow> nat \<Rightarrow> u64" where
  "object_byte hhdm ps i = hhdm + ps ! (i div 0x1000) + of_nat (i mod 0x1000)"

definition copy_apart :: "u64 \<Rightarrow> u64 \<Rightarrow> nat \<Rightarrow> u64 multiset \<Rightarrow> bool" where
  "copy_apart hhdm source n F \<longleftrightarrow> (\<forall>f \<in># F. aligned f) \<and>
     (\<forall>f \<in># F. \<forall>r < 0x1000. \<forall>i < n. source + of_nat i \<noteq> hhdm + f + of_nat r)"

lemma copy_apart_shift:
  assumes "copy_apart hhdm source n F" and "0x1000 \<le> n"
  shows "copy_apart hhdm (source + 0x1000) (n - 0x1000) F"
proof -
  have "source + 0x1000 + of_nat i \<noteq> hhdm + f + of_nat r" if "f \<in># F" "r < 0x1000" "i < n - 0x1000" for f r i
  proof -
    have "source + of_nat (0x1000 + i) \<noteq> hhdm + f + of_nat r"
      using assms that unfolding copy_apart_def by (metis add.commute less_diff_conv)
    then show ?thesis by (simp add: add.assoc)
  qed
  then show ?thesis using assms(1) unfolding copy_apart_def by blast
qed

definition copied ::
    "u64 \<Rightarrow> u64 \<Rightarrow> u64 \<Rightarrow> nat \<Rightarrow> u64 list \<Rightarrow> PhysMem \<Rightarrow> (u64 \<Rightarrow> u8) \<Rightarrow> u64 list \<Rightarrow> PhysMem \<Rightarrow> (u64 \<Rightarrow> u8) \<Rightarrow> bool" where
  "copied hhdm k source n ps s m ps' s' m' \<longleftrightarrow> vmo_inv ps' s' \<and> length ps' = length ps \<and>
     pages_held ps' + phys_free s' = pages_held ps + phys_free s \<and>
     (\<forall>j < length ps. ps ! j \<noteq> 0 \<longrightarrow> ps' ! j = ps ! j) \<and>
     (\<forall>i < n. m' (object_byte hhdm ps' (0x1000 * unat k + i)) = m (source + of_nat i)) \<and>
     (\<forall>x. (\<forall>j r. unat k \<le> j \<longrightarrow> j < length ps \<longrightarrow> ps' ! j \<noteq> 0 \<longrightarrow> r < 0x1000 \<longrightarrow> x \<noteq> hhdm + ps' ! j + of_nat r) \<longrightarrow>
        m' x = m x)"

lemma copied_step:
  assumes inv: "vmo_inv ps s" and k: "unat k < length ps" and f: "f \<noteq> 0"
    and keep: "ps ! unat k \<noteq> 0 \<Longrightarrow> f = ps ! unat k"
    and held: "pages_held (ps[unat k := f]) + phys_free s1 = pages_held ps + phys_free s"
    and apart: "copy_apart hhdm source n (pages_held ps + phys_free s)"
    and b: "b = (if 0x1000 \<le> n then 0x1000 else n)"
    and rest: "copied hhdm (k + 1) (source + 0x1000) (n - b) (ps[unat k := f]) s1 m1 ps' s' m'"
    and m1: "\<And>i. i < b \<Longrightarrow> m1 (hhdm + f + of_nat i) = m (source + of_nat i)"
      "\<And>x. \<forall>i < b. x \<noteq> hhdm + f + of_nat i \<Longrightarrow> m1 x = m x"
  shows "copied hhdm k source n ps s m ps' s' m'"
proof -
  let ?k = "unat k"
  have k1: "unat (k + 1) = Suc ?k" using k inv by (subst unat_add_noof) (auto simp: vmo_inv_def)
  have r: "vmo_inv ps' s'" "length ps' = length ps" "pages_held ps' + phys_free s' = pages_held ps + phys_free s"
    and r4: "\<And>j. j < length ps \<Longrightarrow> ps[?k := f] ! j \<noteq> 0 \<Longrightarrow> ps' ! j = ps[?k := f] ! j"
    and r5: "\<And>i. i < n - b \<Longrightarrow> m' (object_byte hhdm ps' (0x1000 * Suc ?k + i)) = m1 (source + 0x1000 + of_nat i)"
    and r6: "\<And>x. (\<And>j r. Suc ?k \<le> j \<Longrightarrow> j < length ps \<Longrightarrow> ps' ! j \<noteq> 0 \<Longrightarrow> r < 0x1000 \<Longrightarrow>
        x \<noteq> hhdm + ps' ! j + of_nat r) \<Longrightarrow> m' x = m1 x"
    using rest held by (auto simp: copied_def k1)
  have pk: "ps' ! ?k = f" using r4 [of ?k] k f by simp
  have al: "aligned (ps' ! j)" if "j < length ps" "ps' ! j \<noteq> 0" for j
  proof -
    have "ps' ! j \<in># pages_held ps'" using that r(2) by (simp add: pages_held_def)
    then have "ps' ! j \<in># pages_held ps + phys_free s" unfolding r(3) [symmetric] by simp
    then show ?thesis using apart by (auto simp: copy_apart_def)
  qed
  have alf: "aligned f" using al [of ?k] pk k f by simp
  have ff: "f \<in># pages_held ps + phys_free s"
    using r(2) pk k f unfolding r(3) [symmetric] by (auto simp: pages_held_def)
  have b': "b \<le> 0x1000" "b \<le> n" using b by auto
  have here: "m' (object_byte hhdm ps' (0x1000 * ?k + i)) = m (source + of_nat i)" if "i < b" for i
  proof -
    have i: "i < 0x1000" using that b' by simp
    then have "object_byte hhdm ps' (0x1000 * ?k + i) = hhdm + f + of_nat i"
      by (simp add: object_byte_def pk)
    moreover have "m' (hhdm + f + of_nat i) = m1 (hhdm + f + of_nat i)"
    proof (rule r6, rule notI)
      fix j r assume j: "Suc ?k \<le> j" "j < length ps" "ps' ! j \<noteq> 0" "r < 0x1000"
        "hhdm + f + of_nat i = hhdm + ps' ! j + of_nat r"
      have "f = ps' ! j" using page_byte_inject(1) [OF alf al [OF j(2,3)] i j(4,5)] .
      then have "?k = j"
        using distinct_filter_nth [of "\<lambda>p. p \<noteq> 0" ps' ?k j] r(1,2) k j(2) pk f by (simp add: vmo_inv_def)
      with j(1) show False by simp
    qed
    ultimately show ?thesis using m1(1) [OF that] by simp
  qed
  have there: "m' (object_byte hhdm ps' (0x1000 * ?k + i)) = m (source + of_nat i)" if it: "i < n" "b \<le> i" for i
  proof -
    have bb: "b = 0x1000" using b it by (auto split: if_splits)
    then obtain i' where i': "i = 0x1000 + i'" using it(2) by (metis le_Suc_ex)
    have eq: "0x1000 * ?k + i = 0x1000 * Suc ?k + i'" using i' by simp
    have src: "source + 0x1000 + of_nat i' = source + of_nat i" unfolding i' by (simp add: add.assoc)
    have "m' (object_byte hhdm ps' (0x1000 * ?k + i)) = m1 (source + of_nat i)"
      unfolding eq using r5 [of i'] it(1) i' bb src by simp
    also have "\<dots> = m (source + of_nat i)"
      using apart ff it(1) b'(1) by (intro m1(2)) (auto simp: copy_apart_def)
    finally show ?thesis .
  qed
  have "m' (object_byte hhdm ps' (0x1000 * ?k + i)) = m (source + of_nat i)" if "i < n" for i
    using here [of i] there [of i] that by (cases "i < b") auto
  moreover have "m' x = m x" if x: "\<And>j r. ?k \<le> j \<Longrightarrow> j < length ps \<Longrightarrow> ps' ! j \<noteq> 0 \<Longrightarrow> r < 0x1000 \<Longrightarrow>
      x \<noteq> hhdm + ps' ! j + of_nat r" for x
  proof -
    have "m' x = m1 x" by (rule r6) (use x in auto)
    also have "\<dots> = m x" using x [of ?k] k pk f b'(1) by (intro m1(2)) auto
    finally show ?thesis .
  qed
  moreover have "ps' ! j = ps ! j" if "j < length ps" "ps ! j \<noteq> 0" for j
    using r4 [of j] that keep pk by (cases "j = ?k") auto
  ultimately show ?thesis using r(1-3) by (auto simp: copied_def)
qed

lemma copy_loop_ok:
  assumes "vmo_inv ps s" and "unat k + (unat len + 0xFFF) div 0x1000 \<le> length ps"
    and "(unat len + 0xFFF) div 0x1000 \<le> size (phys_free s)"
    and "copy_apart hhdm source (unat len) (pages_held ps + phys_free s)"
  shows "\<exists>ps' s' m'. copy_loop hhdm k source len (vmo ps) s m = Inr (vmo ps', s', m') \<and>
    copied hhdm k source (unat len) ps s m ps' s' m'"
  using assms
proof (induction "unat len" arbitrary: len k source ps s m rule: less_induct)
  case less
  show ?case
  proof (cases "len = 0")
    case True
    then have "copied hhdm k source (unat len) ps s m ps s m" using less.prems(1) by (simp add: copied_def)
    moreover have "copy_loop hhdm k source len (vmo ps) s m = Inr (vmo ps, s, m)"
      using True by (subst copy_loop.simps) simp
    ultimately show ?thesis by blast
  next
    case False
    let ?n = "unat len"
    have n: "0 < ?n" using False by (simp add: unat_gt_0)
    have pg: "(?n + 0xFFF) div 0x1000 = Suc ((?n - 1) div 0x1000)"
    proof -
      have "?n + 0xFFF = (?n - 1) + 0x1000" using n by simp
      then show ?thesis by simp
    qed
    then have k: "unat k < length ps" "phys_free s \<noteq> {#}" using less.prems(2,3) by auto
    obtain f s1 where f: "PageNumberToPhysAddr k (vmo ps) s = Inr (f, vmo (ps[unat k := f]), s1)" "f \<noteq> 0"
        "vmo_inv (ps[unat k := f]) s1" "ps ! unat k \<noteq> 0 \<Longrightarrow> f = ps ! unat k"
        "pages_held (ps[unat k := f]) + phys_free s1 = pages_held ps + phys_free s"
        "size (phys_free s1) = (if ps ! unat k = 0 then size (phys_free s) - 1 else size (phys_free s))"
      by (rule PageNumberToPhysAddr_ok [OF less.prems(1) k(1)]) (use k(2) in auto)
    define b where "b = (if len \<ge> 0x1000 then 0x1000 else len)"
    have b: "unat b = (if 0x1000 \<le> ?n then 0x1000 else ?n)" "unat (len - b) = ?n - unat b" "0 < unat b"
      using n by (auto simp: b_def word_le_nat_alt unat_sub_le)
    define m1 where "m1 = copy_page (hhdm + f) source b m"
    have k1: "unat (k + 1) = Suc (unat k)"
      using k(1) less.prems(1) by (subst unat_add_noof) (auto simp: vmo_inv_def)
    have pages: "Suc ((unat (len - b) + 0xFFF) div 0x1000) \<le> (?n + 0xFFF) div 0x1000"
    proof (cases "0x1000 \<le> ?n")
      case True
      then have "?n + 0xFFF = (?n - 0x1000 + 0xFFF) + 0x1000" by simp
      then show ?thesis using b True by simp
    next
      case False
      then show ?thesis using b pg by simp
    qed
    have ap: "copy_apart hhdm (source + 0x1000) (unat (len - b)) (pages_held (ps[unat k := f]) + phys_free s1)"
    proof (cases "0x1000 \<le> ?n")
      case True
      then show ?thesis using copy_apart_shift [OF less.prems(4) True] b unfolding f(5) by simp
    next
      case False
      then show ?thesis using less.prems(4) b unfolding f(5) copy_apart_def by simp
    qed
    have IH: "unat (len - b) < ?n" using b n by simp
    have bound: "unat (k + 1) + (unat (len - b) + 0xFFF) div 0x1000 \<le> length (ps[unat k := f])"
        "(unat (len - b) + 0xFFF) div 0x1000 \<le> size (phys_free s1)"
      using less.prems(2,3) pages k1 f(6) by (auto split: if_splits)
    obtain ps' s' m' where r: "copy_loop hhdm (k + 1) (source + 0x1000) (len - b) (vmo (ps[unat k := f])) s1 m1 =
        Inr (vmo ps', s', m')"
        "copied hhdm (k + 1) (source + 0x1000) (unat (len - b)) (ps[unat k := f]) s1 m1 ps' s' m'"
      using less.hyps [OF IH f(3) bound ap, of m1] by blast
    have ff: "f \<in># pages_held ps + phys_free s"
      using k(1) f(2) unfolding f(5) [symmetric] by (auto simp: pages_held_def set_update_memI)
    have apart: "\<forall>i < unat b. \<forall>j < unat b. source + of_nat i \<noteq> hhdm + f + of_nat j"
      using less.prems(4) ff b(1) unfolding copy_apart_def by (auto split: if_splits)
    have b4: "unat b \<le> 0x1000" using b(1) by auto
    have "copied hhdm k source ?n ps s m ps' s' m'"
    proof (rule copied_step [OF less.prems(1) k(1) f(2,4,5) less.prems(4) b(1)])
      show "copied hhdm (k + 1) (source + 0x1000) (?n - unat b) (ps[unat k := f]) s1 m1 ps' s' m'"
        using r(2) b(2) by simp
      show "m1 (hhdm + f + of_nat i) = m (source + of_nat i)" if "i < unat b" for i
        unfolding m1_def copy_page_def by (rule copy_page_ok(1) [OF apart b4 that])
      show "m1 x = m x" if "\<forall>i < unat b. x \<noteq> hhdm + f + of_nat i" for x
        unfolding m1_def copy_page_def by (rule copy_page_ok(2) [OF apart b4 that])
    qed
    moreover have "copy_loop hhdm k source len (vmo ps) s m = Inr (vmo ps', s', m')"
      using r(1) f(1) n unfolding m1_def b_def
      by (subst copy_loop.simps) (simp add: Let_def word_less_nat_alt)
    ultimately show ?thesis by blast
  qed
qed

section \<open>Properties\<close>

text \<open>
  C27.  The life of a memory object that allocates on demand.  For any size that is not zero and
  does not wrap when it is rounded up, and any sequence of page requests inside the object for
  which there are frames: the object is built, every request returns, two requests return the same
  frame exactly when they name the same page, every frame was free before, and the destructor gives
  back exactly the frames that were taken.
\<close>

theorem VariableMemoryObject_lifetime:
  assumes "phys_inv s" and "sz \<noteq> 0" and "unat sz \<le> 0xFFFFFFFFFFFFF000"
    and "\<forall>i \<in> set is. unat i < (unat sz + 0xFFF) div 0x1000" and "length is \<le> size (phys_free s)"
  shows "\<exists>obj fs obj' s' s''. VariableMemoryObject_new sz = Inr obj \<and>
    touch_all PageNumberToPhysAddr is obj s = Inr (fs, obj', s') \<and> length fs = length is \<and>
    (\<forall>j < length is. \<forall>k < length is. fs ! j = fs ! k \<longleftrightarrow> is ! j = is ! k) \<and>
    set fs \<subseteq> set_mset (phys_free s) \<and>
    MemoryObject_destroy obj' s' = Inr s'' \<and> phys_free s'' = phys_free s"
proof -
  let ?n = "(unat sz + 0xFFF) div 0x1000"
  let ?ps = "replicate ?n 0 :: u64 list"
  have n: "0 < ?n" "?n < 0x10000000000000"
    using assms(2,3) by (auto simp: unat_gt_0 [symmetric] simp del: unat_gt_0)
  have inv: "vmo_inv ?ps s" using assms(1) n by (simp add: vmo_inv_def phys_inv_def)
  have zero: "pages_held ?ps = {#}" by (simp add: pages_held_def)
  obtain fs obj' ps' s' where t: "touch_all PageNumberToPhysAddr is (vmo ?ps) s = Inr (fs, obj', s')"
      "obj' = vmo ps' \<and> vmo_inv ps' s'" "length ps' = length ?ps" "fs = map (\<lambda>i. ps' ! unat i) is"
      "\<forall>i \<in> set is. ps' ! unat i \<noteq> 0" "pages_held ps' + phys_free s' = phys_free s"
    using vm.touch_all_ok [of "vmo ?ps" ?ps s "is"] inv assms(4,5) zero by auto
  have d: "distinct (filter (\<lambda>p. p \<noteq> 0) ps')" using t(2) by (simp add: vmo_inv_def)
  have bound: "unat i < length ps'" if "i \<in> set is" for i using assms(4) that t(3) by simp
  have "fs ! j = fs ! k \<longleftrightarrow> is ! j = is ! k" if "j < length is" "k < length is" for j k
    using distinct_filter_nth [OF d, of "unat (is ! j)" "unat (is ! k)"] that t(4,5) bound
    by (auto simp: word_unat_eq_iff)
  moreover have "f \<in># phys_free s" if "f \<in> set fs" for f
  proof -
    have "f \<in> set ps'" "f \<noteq> 0" using that t(4,5) bound by auto
    then have "f \<in># pages_held ps'" by (simp add: pages_held_def)
    then show ?thesis using t(6) by (metis union_iff)
  qed
  moreover obtain s'' where "MemoryObject_destroy obj' s' = Inr s''" "phys_free s'' = phys_free s"
    using destroy_vmo [of ps' s'] t(2,6) by auto
  ultimately show ?thesis
    using VariableMemoryObject_new_ok [OF assms(2,3)] t(1,4) by auto
qed

text \<open>A physical memory with three free frames.\<close>

definition phys_example :: PhysMem where
  "phys_example = PhysMem_boot\<lparr>gPmm := Some (AddMemoryRegion 0x101000 3 Pmm_empty)\<rparr>"

lemma phys_example_free: "phys_free phys_example = {#0x101000, 0x102000, 0x103000#}"
  using machine_example_free by (simp add: mc_free_def machine_example_def phys_free_def phys_example_def)

lemma phys_example_inv: "phys_inv phys_example"
  unfolding phys_inv_def phys_example_free
  by (simp add: phys_example_def pmm_inv_def AddMemoryRegion_def Pmm_empty_def ll_inv_PushFront)

theorem VariableMemoryObject_lifetime_witness:
  "\<exists>obj fs obj' s' s''. VariableMemoryObject_new 0x1001 = Inr obj \<and>
    touch_all PageNumberToPhysAddr [1, 0, 1] obj phys_example = Inr (fs, obj', s') \<and>
    length fs = 3 \<and> fs ! 0 = fs ! 2 \<and> fs ! 0 \<noteq> fs ! 1 \<and>
    MemoryObject_destroy obj' s' = Inr s'' \<and> phys_free s'' = {#0x101000, 0x102000, 0x103000#}"
proof -
  obtain obj fs obj' s' s'' where w: "VariableMemoryObject_new 0x1001 = Inr obj"
      "touch_all PageNumberToPhysAddr [1, 0, 1] obj phys_example = Inr (fs, obj', s')"
      "length fs = length [1, 0, 1 :: u64]"
      "\<forall>j < length [1, 0, 1 :: u64]. \<forall>k < length [1, 0, 1 :: u64]. fs ! j = fs ! k \<longleftrightarrow> [1, 0, 1 :: u64] ! j = [1, 0, 1] ! k"
      "MemoryObject_destroy obj' s' = Inr s''" "phys_free s'' = phys_free phys_example"
    using VariableMemoryObject_lifetime [OF phys_example_inv, of "0x1001" "[1, 0, 1]"]
    by (auto simp: phys_example_free)
  have "fs ! 0 = fs ! 2" "fs ! 0 \<noteq> fs ! 1"
    using w(4) [rule_format, of 0 2] w(4) [rule_format, of 0 1] by simp_all
  with w show ?thesis by (simp add: phys_example_free)
qed

text \<open>
  \<open>CopyBytesToObject\<close> is a copy.  When the length fits the object, there are frames for the
  missing pages and the source does not lie in a frame that the object has or may get, the function
  returns; afterwards byte \<open>i\<close> of the object is byte \<open>i\<close> of the source for every \<open>i\<close> below the
  length, and memory outside the frames of the object is unchanged.  A longer copy panics.
\<close>

theorem CopyBytesToObject_copies:
  assumes "vmo_inv ps s" and "(unat len + 0xFFF) div 0x1000 \<le> size (phys_free s)"
    and "copy_apart hhdm source (unat len) (pages_held ps + phys_free s)"
  shows "(if unat len \<le> 0x1000 * length ps
     then \<exists>ps' s' m'. CopyBytesToObject hhdm source len (vmo ps) s m = Inr (vmo ps', s', m') \<and>
       vmo_inv ps' s' \<and> length ps' = length ps \<and>
       pages_held ps' + phys_free s' = pages_held ps + phys_free s \<and>
       (\<forall>i < unat len. m' (hhdm + ps' ! (i div 0x1000) + of_nat (i mod 0x1000)) = m (source + of_nat i)) \<and>
       (\<forall>x. (\<forall>p \<in> set ps'. \<forall>r < 0x1000. x \<noteq> hhdm + p + of_nat r) \<longrightarrow> m' x = m x)
     else CopyBytesToObject hhdm source len (vmo ps) s m = Inl (Panic ''Copy overruns memory object''))"
proof -
  have lp: "length ps < 0x10000000000000" using assms(1) by (simp add: vmo_inv_def)
  then have "unat (of_nat (0x1000 * length ps) :: u64) = 0x1000 * length ps" by (intro unat_of_nat_u64) simp
  then have guard: "len > MemoryObject_size (vmo ps) \<longleftrightarrow> \<not> unat len \<le> 0x1000 * length ps"
    by (auto simp: vmo_def word_less_nat_alt)
  show ?thesis
  proof (cases "unat len \<le> 0x1000 * length ps")
    case True
    have "(unat len + 0xFFF) div 0x1000 \<le> (0x1000 * length ps + 0xFFF) div 0x1000"
      using True by (intro div_le_mono) simp
    also have "\<dots> = length ps" by simp
    finally obtain ps' s' m' where c: "copy_loop hhdm 0 source len (vmo ps) s m = Inr (vmo ps', s', m')"
        "copied hhdm 0 source (unat len) ps s m ps' s' m'"
      using copy_loop_ok [OF assms(1) _ assms(2,3), of 0 m] by auto
    have "m' x = m x" if "\<forall>p \<in> set ps'. \<forall>r < 0x1000. x \<noteq> hhdm + p + of_nat r" for x
      using c(2) that by (simp add: copied_def)
    moreover have "CopyBytesToObject hhdm source len (vmo ps) s m = Inr (vmo ps', s', m')"
      using c(1) True guard by (simp add: CopyBytesToObject_def)
    moreover have "vmo_inv ps' s' \<and> length ps' = length ps \<and>
        pages_held ps' + phys_free s' = pages_held ps + phys_free s \<and>
        (\<forall>i < unat len. m' (hhdm + ps' ! (i div 0x1000) + of_nat (i mod 0x1000)) = m (source + of_nat i))"
      using c(2) by (simp add: copied_def object_byte_def)
    ultimately show ?thesis using True by auto
  qed (use guard in \<open>simp add: CopyBytesToObject_def\<close>)
qed

theorem CopyBytesToObject_copies_witness:
  "\<exists>ps' s' m'. CopyBytesToObject 0xFFFF800000000000 0x400000 5 (vmo [0]) phys_example (\<lambda>x. ucast x) =
      Inr (vmo ps', s', m') \<and> m' (0xFFFF800000000000 + ps' ! 0 + 4) = 4"
proof -
  have inv: "vmo_inv [0] phys_example"
    using phys_example_inv by (simp add: vmo_inv_def phys_inv_def)
  have apart: "copy_apart 0xFFFF800000000000 0x400000 (unat (5 :: u64)) (pages_held [0] + phys_free phys_example)"
  proof -
    have page: "PageAlign (a + of_nat r) = a" if "aligned a" "r < 0x1000" for a r
      using that by (intro PageAlign_add) (simp_all add: word_less_nat_alt unat_of_nat_u64)
    have al: "aligned f" "aligned (0xFFFF800000000000 + f)" "aligned 0x400000"
        "0x400000 \<noteq> 0xFFFF800000000000 + f" if "f \<in> {0x101000, 0x102000, 0x103000}" for f :: u64
      using that by (auto simp: aligned_def take_bit_eq_mod)
    have "0x400000 + of_nat i \<noteq> 0xFFFF800000000000 + f + (of_nat r :: u64)"
      if "f \<in> {0x101000, 0x102000, 0x103000}" "r < 0x1000" "i < 5" for f r i
    proof
      assume "0x400000 + of_nat i = 0xFFFF800000000000 + f + (of_nat r :: u64)"
      then have "PageAlign (0x400000 + of_nat i) = PageAlign (0xFFFF800000000000 + f + of_nat r)" by (rule arg_cong)
      moreover have "i < 0x1000" using that(3) by simp
      ultimately show False
        using page [OF al(3) [OF that(1)], of i] page [OF al(2) [OF that(1)] that(2)] al(4) [OF that(1)] by metis
    qed
    then show ?thesis using al(1) by (auto simp: copy_apart_def phys_example_free pages_held_def)
  qed
  show ?thesis
  proof -
    obtain ps' s' m' where "CopyBytesToObject 0xFFFF800000000000 0x400000 5 (vmo [0]) phys_example (\<lambda>x. ucast x) =
        Inr (vmo ps', s', m')"
      "\<And>i. i < unat (5 :: u64) \<Longrightarrow> m' (0xFFFF800000000000 + ps' ! (i div 0x1000) + of_nat (i mod 0x1000)) =
        ucast (0x400000 + of_nat i :: u64)"
      using CopyBytesToObject_copies [OF inv _ apart, of "\<lambda>x. ucast x"] by (auto simp: phys_example_free)
    from this(1) this(2) [of 4] show ?thesis by auto
  qed
qed

text \<open>
  Which sizes an object can have: the constructor returns exactly for the sizes that are not
  zero and do not wrap around when they are rounded up to whole pages.  For the others the list of
  pages has no cell, and the loop that clears it writes outside of it.
\<close>

theorem VariableMemoryObject_new_returns_iff:
  "returns (VariableMemoryObject_new sz) \<longleftrightarrow> sz \<noteq> 0 \<and> unat sz \<le> 0xFFFFFFFFFFFFF000"
proof (cases "sz \<noteq> 0 \<and> unat sz \<le> 0xFFFFFFFFFFFFF000")
  case True
  then show ?thesis using VariableMemoryObject_new_ok by auto
next
  case False
  have "(if sz AND 0xFFF \<noteq> 0 then (sz AND NOT 0xFFF) + 0x1000 else sz) = 0"
  proof (cases "sz = 0")
    case nz: False
    with False have big: "18446744073709547520 < unat sz" by simp
    have "unat sz div 0x1000 = 4503599627370495"
      using big unat_lt_64 [of sz] by (intro div_nat_eqI) simp_all
    then have "unat (PageAlign sz) = 18446744073709547520" using unat_PageAlign [of sz] by simp
    then have "PageAlign sz = 18446744073709547520" by (auto dest: of_nat_unat_eq)
    moreover have "unat sz mod 0x1000 \<noteq> 0"
    proof
      assume "unat sz mod 0x1000 = 0"
      then have "unat sz = 0x1000 * 4503599627370495" using \<open>unat sz div 0x1000 = _\<close> by (metis add.right_neutral mult_div_mod_eq)
      with big show False by simp
    qed
    then have "sz AND 0xFFF \<noteq> 0" using unat_page_offset [of sz] by force
    ultimately show ?thesis by (simp add: page_simp)
  qed simp
  then show ?thesis using False
    by (auto simp: VariableMemoryObject_new_def Array_new_def page_list_visits Array_set_def cell_set_def)
qed

text \<open>
  C30.  Which offsets of an object have a page.  With a frame to spare, \<open>PhysicalPageAtOffset\<close>
  returns exactly for the offsets below the size.  The test in the code is \<open>offset > size()\<close>: it
  panics beyond the size, but lets the size itself through, for which the list of pages is read
  one cell past its end.
\<close>

theorem PhysicalPageAtOffset_exact:
  assumes "vmo_inv ps s" and "phys_free s \<noteq> {#}"
  shows "(if unat offset < 0x1000 * length ps
      then returns (PhysicalPageAtOffset offset (vmo ps) s)
      else PhysicalPageAtOffset offset (vmo ps) s =
        Inl (if unat offset = 0x1000 * length ps then OutOfBounds else Panic ''Invalid offset''))"
proof -
  have lp: "length ps < 0x10000000000000" using assms(1) by (simp add: vmo_inv_def)
  then have "unat (of_nat (0x1000 * length ps) :: u64) = 0x1000 * length ps" by (intro unat_of_nat_u64) simp
  then have guard: "offset > MemoryObject_size (vmo ps) \<longleftrightarrow> 0x1000 * length ps < unat offset"
    by (auto simp: vmo_def word_less_nat_alt)
  have pg: "unat (offset div 0x1000) = unat offset div 0x1000" by (simp add: unat_div)
  show ?thesis
  proof (cases "unat offset < 0x1000 * length ps")
    case True
    then have "unat (offset div 0x1000) < length ps" unfolding pg by (simp add: less_mult_imp_div_less mult.commute)
    from PageNumberToPhysAddr_ok [OF assms(1) this] assms(2) have "returns (PageNumberToPhysAddr (offset div 0x1000) (vmo ps) s)"
      by (metis returns_Inr)
    then show ?thesis using True guard by (simp add: PhysicalPageAtOffset_def)
  next
    case False
    have "PageNumberToPhysAddr (offset div 0x1000) (vmo ps) s = Inl OutOfBounds" if "unat offset = 0x1000 * length ps"
      using that pg by (simp add: vmo_def Array_at_def cell_get_def)
    then show ?thesis using False guard by (auto simp: PhysicalPageAtOffset_def)
  qed
qed

theorem PhysicalPageAtOffset_exact_witness:
  "returns (PhysicalPageAtOffset 0xFFF (vmo [0]) phys_example) \<and>
   PhysicalPageAtOffset 0x1000 (vmo [0]) phys_example = Inl OutOfBounds"
proof -
  have "vmo_inv [0] phys_example" using phys_example_inv by (simp add: vmo_inv_def phys_inv_def)
  from PhysicalPageAtOffset_exact [OF this, of "0xFFF"] PhysicalPageAtOffset_exact [OF this, of "0x1000"]
  show ?thesis by (simp add: phys_example_free)
qed

text \<open>
  C31.  A duplicate of a view lies inside the view exactly when offset plus length does not wrap
  around: the test \<open>offset + length > size()\<close> is done in 64-bit arithmetic, and a pair that wraps
  is granted although it starts beyond the end of the view.
\<close>

theorem ViewMemoryObject_Duplicate_bounds:
  assumes "MemoryObject_Duplicate offset len (ViewMemoryObject sz physical_addr) = Inr obj"
  shows "obj = ViewMemoryObject len (physical_addr + offset) \<and>
    (unat offset + unat len \<le> unat sz \<longleftrightarrow> unat offset + unat len < 2 ^ 64)"
proof -
  have g: "unat (offset + len) \<le> unat sz" "obj = ViewMemoryObject len (physical_addr + offset)"
    using assms by (auto simp: word_less_nat_alt split: if_splits)
  have "unat offset + unat len \<le> unat sz" if "unat offset + unat len < 2 ^ 64"
    using g(1) that by (simp add: unat_add_noof)
  then show ?thesis using g(2) unat_lt_64 [of sz] by auto
qed

theorem ViewMemoryObject_Duplicate_bounds_witness:
  "MemoryObject_Duplicate 0xFFFFFFFFFFFFF000 0x2000 (ViewMemoryObject 0x1000 0x80000000) =
     Inr (ViewMemoryObject 0x2000 0x7FFFF000) \<and>
   \<not> unat (0xFFFFFFFFFFFFF000 :: u64) + unat (0x2000 :: u64) \<le> unat (0x1000 :: u64)"
  using ViewMemoryObject_Duplicate_bounds [of "0xFFFFFFFFFFFFF000" "0x2000" "0x1000" "0x80000000"] by simp

end
