(* ===== verification/Zion_MappingTree.thy ===== *)
theory Zion_MappingTree
  imports Glcr_BinaryTree Zion_MemoryObject "HOL-Library.Monad_Syntax"
begin

text \<open>
  The mappings of an address space (\<open>zion/lib/memory_mapping_tree.h\<close>, \<open>memory_mapping_tree.cpp\<close>):
  a search tree of address ranges, each with a reference to a memory object.  References are
  natural numbers into a store of objects.  As for the tree below it, \<open>None\<close> is a loop that does
  not end.

  \<open>mt_entries\<close> is the invariant: the ranges are disjoint and none wraps around.  Under it
  \<open>mt_lookup\<close> gives the range of an address, and the operations are shown to act on it as on a
  function from addresses to mappings.
\<close>

type_synonym MemObjs = "nat \<Rightarrow> MemoryObject"

record MemoryMapping =
  mm_base :: u64
  mm_limit :: u64
  mm_object :: nat

type_synonym MemoryMappingTree = "(u64, MemoryMapping) BinaryTree"

definition mapping_limit_above :: "u64 \<Rightarrow> MemoryMapping option \<Rightarrow> bool" where
  "mapping_limit_above vaddr m = (case m of None \<Rightarrow> False | Some mm \<Rightarrow> mm_limit mm > vaddr)"

definition AddInMemoryObject ::
    "MemObjs \<Rightarrow> u64 \<Rightarrow> nat \<Rightarrow> MemoryMappingTree \<Rightarrow> (ErrorCode \<times> MemoryMappingTree) option" where
  "AddInMemoryObject objs vaddr object t = do {
     predecessor_or \<leftarrow> BinaryTree_Predecessor vaddr t;
     if mapping_limit_above vaddr predecessor_or then Some (ALREADY_EXISTS, t)
     else do {
       found \<leftarrow> BinaryTree_Find vaddr t;
       if found \<noteq> None then Some (ALREADY_EXISTS, t)
       else do {
         successor_or \<leftarrow> BinaryTree_Successor vaddr t;
         if (case successor_or of None \<Rightarrow> False
             | Some mm \<Rightarrow> mm_base mm < vaddr + MemoryObject_size (objs object))
         then Some (ALREADY_EXISTS, t)
         else do {
           t \<leftarrow> BinaryTree_Insert vaddr
             \<lparr>mm_base = vaddr, mm_limit = vaddr + MemoryObject_size (objs object), mm_object = object\<rparr> t;
           Some (OK, t)
         }
       }
     }
   }"

partial_function (option) free_range_loop ::
    "u64 \<Rightarrow> u64 \<Rightarrow> MemoryMappingTree \<Rightarrow> (ErrorCode \<times> MemoryMappingTree) option" where
  "free_range_loop vaddr_base vaddr_limit t = do {
     successor_or \<leftarrow> BinaryTree_Successor vaddr_base t;
     (case successor_or of
        None \<Rightarrow> Some (OK, t)
      | Some mm \<Rightarrow>
          if mm_base mm \<ge> vaddr_limit then Some (OK, t)
          else do {
            t \<leftarrow> BinaryTree_Delete (mm_base mm) t;
            free_range_loop vaddr_base vaddr_limit t
          })
   }"

definition FreeMemoryRange ::
    "u64 \<Rightarrow> u64 \<Rightarrow> MemoryMappingTree \<Rightarrow> (ErrorCode \<times> MemoryMappingTree) option" where
  "FreeMemoryRange vaddr_base vaddr_limit t =
     (if vaddr_limit \<le> vaddr_base then Some (INVALID_ARGUMENT, t)
      else do {
        predecessor_or \<leftarrow> BinaryTree_Predecessor vaddr_base t;
        if mapping_limit_above vaddr_base predecessor_or then Some (FAILED_PRECONDITION, t)
        else do {
          last_predecessor_or \<leftarrow> BinaryTree_Predecessor vaddr_limit t;
          if mapping_limit_above vaddr_limit last_predecessor_or then Some (FAILED_PRECONDITION, t)
          else do {
            find_or \<leftarrow> BinaryTree_Find vaddr_base t;
            t \<leftarrow> (if find_or \<noteq> None then BinaryTree_Delete vaddr_base t else Some t);
            free_range_loop vaddr_base vaddr_limit t
          }
        }
      })"

definition GetMemoryMappingForAddr :: "MemObjs \<Rightarrow> u64 \<Rightarrow> MemoryMappingTree \<Rightarrow> MemoryMapping option option" where
  "GetMemoryMappingForAddr objs vaddr t = do {
     mapping_or \<leftarrow> BinaryTree_Predecessor (vaddr + 1) t;
     (case mapping_or of
        None \<Rightarrow> Some None
      | Some mm \<Rightarrow>
          if mm_base mm + MemoryObject_size (objs (mm_object mm)) \<le> vaddr then Some None
          else Some (Some mm))
   }"

text \<open>The page behind an address; the object may allocate it.\<close>

definition GetPhysicalPageAtVaddr ::
    "u64 \<Rightarrow> MemoryMappingTree \<Rightarrow> MemObjs \<Rightarrow> PhysMem \<Rightarrow> (u64 ErrorOr \<times> MemObjs \<times> PhysMem) run option" where
  "GetPhysicalPageAtVaddr vaddr t objs s = do {
     mapping_or \<leftarrow> GetMemoryMappingForAddr objs vaddr t;
     (case mapping_or of
        None \<Rightarrow> Some (Inr (Inl NOT_FOUND, objs, s))
      | Some mm \<Rightarrow>
          Some (run_map (\<lambda>(page, obj, s). (Inr page, objs(mm_object mm := obj), s))
            (PhysicalPageAtOffset (vaddr - mm_base mm) (objs (mm_object mm)) s)))
   }"

section \<open>Neighbours\<close>

context ordered_table begin

lemma pred_cases:
  assumes "rep t es"
  obtains "pred k t = Some None" "\<forall>e \<in> set es. k \<le> fst e"
  | e where "pred k t = Some (Some (snd e))" "e \<in> set es" "fst e < k"
      "\<forall>e' \<in> set es. fst e' < k \<longrightarrow> fst e' \<le> fst e"
proof (cases "filter (\<lambda>e. fst e < k) es")
  case Nil
  then have "pred k t = Some None" using pred_ok [OF assms, of k] by (simp add: last_opt_def)
  moreover have "k \<le> fst e" if "e \<in> set es" for e
    using Nil that by (metis filter_empty_conv not_le)
  ultimately show ?thesis using that(1) by blast
next
  case (Cons x xs)
  then obtain v where v: "pred k t = Some (Some v)" using pred_ok [OF assms, of k] by (simp add: last_opt_def)
  then show ?thesis using pred_is_greatest_below [OF assms v] that(2) [of "(_, v)"] by auto
qed

lemma succ_cases:
  assumes "rep t es"
  obtains "succ k t = Some None" "\<forall>e \<in> set es. fst e \<le> k"
  | e where "succ k t = Some (Some (snd e))" "e \<in> set es" "k < fst e"
      "\<forall>e' \<in> set es. k < fst e' \<longrightarrow> fst e \<le> fst e'"
proof (cases "filter (\<lambda>e. k < fst e) es")
  case Nil
  then have "succ k t = Some None" using succ_ok [OF assms, of k] by simp
  moreover have "fst e \<le> k" if "e \<in> set es" for e
    using Nil that by (metis filter_empty_conv not_le)
  ultimately show ?thesis using that(1) by blast
next
  case (Cons x xs)
  have s: "succ k t = Some (Some (snd x))" using succ_ok [OF assms, of k] Cons by simp
  have "x \<in> set (filter (\<lambda>e. k < fst e) es)" unfolding Cons by simp
  then have x: "x \<in> set es" "k < fst x" by simp_all
  have "sorted_wrt (<) (map fst (filter (\<lambda>e. k < fst e) es))"
    using rep_sorted [OF assms] by (simp add: key_sorted_def sorted_wrt_map sorted_wrt_filter)
  then have "\<forall>e \<in> set xs. fst x < fst e" unfolding Cons by auto
  moreover have "e \<in> set (x # xs)" if "e \<in> set es" "k < fst e" for e using that unfolding Cons [symmetric] by simp
  ultimately show ?thesis using that(2) [OF s x] by fastforce
qed

end

section \<open>Disjoint ranges\<close>

definition mapping_wf :: "MemObjs \<Rightarrow> u64 \<times> MemoryMapping \<Rightarrow> bool" where
  "mapping_wf objs e \<longleftrightarrow> mm_base (snd e) = fst e \<and>
     mm_limit (snd e) = fst e + MemoryObject_size (objs (mm_object (snd e))) \<and>
     unat (fst e) + unat (MemoryObject_size (objs (mm_object (snd e)))) < 2 ^ 64"

definition ranges_disjoint :: "(u64 \<times> MemoryMapping) list \<Rightarrow> bool" where
  "ranges_disjoint es \<longleftrightarrow> (\<forall>e \<in> set es. \<forall>e' \<in> set es. fst e < fst e' \<longrightarrow> mm_limit (snd e) \<le> fst e')"

definition mt_entries :: "MemObjs \<Rightarrow> MemoryMappingTree \<Rightarrow> (u64 \<times> MemoryMapping) list \<Rightarrow> bool" where
  "mt_entries objs t es \<longleftrightarrow> bt_entries t es \<and> (\<forall>e \<in> set es. mapping_wf objs e) \<and> ranges_disjoint es"

text \<open>The mapping of an address: the one whose range holds it.\<close>

definition mt_lookup :: "(u64 \<times> MemoryMapping) list \<Rightarrow> u64 \<Rightarrow> MemoryMapping option" where
  "mt_lookup es a = map_option snd (List.find (\<lambda>e. fst e \<le> a \<and> a < mm_limit (snd e)) es)"

lemma mapping_wf_limit:
  assumes "mapping_wf objs e"
  shows "unat (mm_limit (snd e)) = unat (fst e) + unat (MemoryObject_size (objs (mm_object (snd e))))"
  using assms by (simp add: mapping_wf_def unat_add_noof)

lemma mapping_wf_le: "mapping_wf objs e \<Longrightarrow> fst e \<le> mm_limit (snd e)"
  using mapping_wf_limit [of objs e] by (simp add: word_le_nat_alt)

lemma key_unique:
  assumes "key_sorted es" and "e \<in> set es" and "e' \<in> set es" and "fst e = fst e'"
  shows "e = e'"
proof -
  have "distinct (map fst es)" using assms(1) strict_sorted_iff by (auto simp: key_sorted_def)
  then show ?thesis using assms(2-4) by (metis distinct_map inj_onD)
qed

lemma mt_lookup_unique:
  assumes "mt_entries objs t es" and "e \<in> set es" and "fst e \<le> a" and "a < mm_limit (snd e)"
  shows "mt_lookup es a = Some (snd e)"
proof -
  have "\<exists>e'. List.find (\<lambda>e. fst e \<le> a \<and> a < mm_limit (snd e)) es = Some e'"
    using assms(2-4) by (metis (mono_tags, lifting) find_None_iff not_Some_eq)
  then obtain e' where e': "List.find (\<lambda>e. fst e \<le> a \<and> a < mm_limit (snd e)) es = Some e'" ..
  then have in': "e' \<in> set es" "fst e' \<le> a" "a < mm_limit (snd e')"
    by (auto simp: find_Some_iff)
  have dis: "ranges_disjoint es" and srt: "key_sorted es"
    using assms(1) bt.rep_sorted by (auto simp: mt_entries_def)
  have "\<not> fst e < fst e'" using dis assms(2,4) in' unfolding ranges_disjoint_def by (meson leD order_less_le_trans)
  moreover have "\<not> fst e' < fst e" using dis assms(2,3) in' unfolding ranges_disjoint_def by (meson leD order_less_le_trans)
  ultimately have "e = e'" using key_unique [OF srt assms(2) in'(1)] by (meson antisym_conv3)
  then show ?thesis using e' by (simp add: mt_lookup_def)
qed

lemma mt_lookup_None:
  "mt_lookup es a = None \<longleftrightarrow> (\<forall>e \<in> set es. \<not> (fst e \<le> a \<and> a < mm_limit (snd e)))"
  by (auto simp: mt_lookup_def find_None_iff)

lemma mt_lookup_Some:
  "mt_lookup es a = Some mm \<Longrightarrow> \<exists>k. (k, mm) \<in> set es \<and> k \<le> a \<and> a < mm_limit mm"
  by (auto simp: mt_lookup_def find_Some_iff) (metis nth_mem fst_conv snd_conv)

lemma mt_entries_subset:
  assumes "mt_entries objs t es" and "bt_entries t' es'" and "set es' \<subseteq> set es"
  shows "mt_entries objs t' es'"
  using assms by (auto simp: mt_entries_def ranges_disjoint_def)

lemma GetMemoryMappingForAddr_ok:
  assumes "mt_entries objs t es" and "vaddr < 0xFFFFFFFFFFFFFFFF"
  shows "GetMemoryMappingForAddr objs vaddr t = Some (mt_lookup es vaddr)"
proof -
  have b: "bt_entries t es" and wf: "\<forall>e \<in> set es. mapping_wf objs e" and dis: "ranges_disjoint es"
    using assms(1) by (auto simp: mt_entries_def)
  have "unat vaddr < 0xFFFFFFFFFFFFFFFF" using assms(2) by (simp add: word_less_nat_alt)
  then have "unat (vaddr + 1) = Suc (unat vaddr)" by (subst unat_add_noof) simp_all
  then have lt: "k < vaddr + 1 \<longleftrightarrow> k \<le> vaddr" for k by (simp add: word_less_nat_alt word_le_nat_alt less_Suc_eq_le)
  show ?thesis
  proof (rule bt.pred_cases [OF b, of "vaddr + 1"])
    assume p: "BinaryTree_Predecessor (vaddr + 1) t = Some None" "\<forall>e \<in> set es. vaddr + 1 \<le> fst e"
    then have "mt_lookup es vaddr = None" unfolding mt_lookup_None using lt by (meson leD)
    with p(1) show ?thesis by (simp add: GetMemoryMappingForAddr_def)
  next
    fix e assume p: "BinaryTree_Predecessor (vaddr + 1) t = Some (Some (snd e))" "e \<in> set es" "fst e < vaddr + 1"
      "\<forall>e' \<in> set es. fst e' < vaddr + 1 \<longrightarrow> fst e' \<le> fst e"
    have lim: "mm_base (snd e) + MemoryObject_size (objs (mm_object (snd e))) = mm_limit (snd e)"
      using wf p(2) by (simp add: mapping_wf_def)
    show ?thesis
    proof (cases "mm_limit (snd e) \<le> vaddr")
      case True
      have "\<not> (fst e' \<le> vaddr \<and> vaddr < mm_limit (snd e'))" if e': "e' \<in> set es" for e'
      proof
        assume c: "fst e' \<le> vaddr \<and> vaddr < mm_limit (snd e')"
        then have "fst e' \<le> fst e" using p(4) e' lt by blast
        moreover have "\<not> fst e' < fst e"
          using dis e' p(2,3) c lt unfolding ranges_disjoint_def by (meson leD order_less_le_trans)
        ultimately have "fst e' = fst e" by simp
        then have "e' = e" using key_unique [OF bt.rep_sorted [OF b] e' p(2)] by blast
        with True c show False by (meson leD)
      qed
      then have "mt_lookup es vaddr = None" unfolding mt_lookup_None by blast
      then show ?thesis using p(1) True lim by (simp add: GetMemoryMappingForAddr_def)
    next
      case False
      then have "mt_lookup es vaddr = Some (snd e)"
        using mt_lookup_unique [OF assms(1) p(2)] p(3) lt by auto
      then show ?thesis using p(1) False lim by (simp add: GetMemoryMappingForAddr_def)
    qed
  qed
qed

text \<open>The predecessor reaches beyond an address exactly when some mapping does.\<close>

lemma pred_straddle:
  assumes "mt_entries objs t es"
  obtains pr where "BinaryTree_Predecessor vaddr t = Some pr"
    and "mapping_limit_above vaddr pr \<longleftrightarrow> (\<exists>e \<in> set es. fst e < vaddr \<and> vaddr < mm_limit (snd e))"
proof -
  have b: "bt_entries t es" and dis: "ranges_disjoint es" using assms by (auto simp: mt_entries_def)
  note srt = bt.rep_sorted [OF b]
  show ?thesis
  proof (rule bt.pred_cases [OF b, of vaddr])
    assume p: "BinaryTree_Predecessor vaddr t = Some None" "\<forall>e \<in> set es. vaddr \<le> fst e"
    then have "\<not> (\<exists>e \<in> set es. fst e < vaddr \<and> vaddr < mm_limit (snd e))" by (meson leD)
    then show ?thesis using that [OF p(1)] by (simp add: mapping_limit_above_def)
  next
    fix e assume p: "BinaryTree_Predecessor vaddr t = Some (Some (snd e))" "e \<in> set es" "fst e < vaddr"
      "\<forall>e' \<in> set es. fst e' < vaddr \<longrightarrow> fst e' \<le> fst e"
    have "e' = e" if "e' \<in> set es" "fst e' < vaddr" "vaddr < mm_limit (snd e')" for e'
    proof -
      have "\<not> fst e' < fst e" using dis that p(2,3) unfolding ranges_disjoint_def by (meson leD order_less_le_trans less_trans)
      then have "fst e' = fst e" using p(4) that by (meson antisym_conv3 leD)
      then show ?thesis using key_unique [OF srt that(1) p(2)] by blast
    qed
    then have "vaddr < mm_limit (snd e) \<longleftrightarrow> (\<exists>e' \<in> set es. fst e' < vaddr \<and> vaddr < mm_limit (snd e'))"
      using p(2,3) by metis
    then show ?thesis using that [OF p(1)] by (simp add: mapping_limit_above_def)
  qed
qed

lemma set_ins_entry: "k \<notin> fst ` set es \<Longrightarrow> set (ins_entry k v es) = insert (k, v) (set es)"
  by (induction es) auto

text \<open>
  When the range of the object does not wrap around, an object is added exactly if no mapping
  starts inside the range and none that starts below reaches into it.
\<close>

definition range_taken :: "u64 \<Rightarrow> u64 \<Rightarrow> (u64 \<times> MemoryMapping) list \<Rightarrow> bool" where
  "range_taken a b es \<longleftrightarrow> (\<exists>e \<in> set es. fst e = a \<or> (a < fst e \<and> fst e < b) \<or> (fst e < a \<and> a < mm_limit (snd e)))"

lemma AddInMemoryObject_ok:
  assumes inv: "mt_entries objs t es"
    and nowrap: "unat vaddr + unat (MemoryObject_size (objs object)) < 2 ^ 64"
  defines "lim \<equiv> vaddr + MemoryObject_size (objs object)"
  shows "if range_taken vaddr lim es then AddInMemoryObject objs vaddr object t = Some (ALREADY_EXISTS, t)
    else \<exists>t'. AddInMemoryObject objs vaddr object t = Some (OK, t') \<and>
      mt_entries objs t' (ins_entry vaddr \<lparr>mm_base = vaddr, mm_limit = lim, mm_object = object\<rparr> es) \<and>
      vaddr \<notin> fst ` set es"
proof -
  let ?mm = "\<lparr>mm_base = vaddr, mm_limit = lim, mm_object = object\<rparr>"
  have b: "bt_entries t es" and wf: "\<forall>e \<in> set es. mapping_wf objs e" and dis: "ranges_disjoint es"
    using inv by (auto simp: mt_entries_def)
  obtain pr where pr: "BinaryTree_Predecessor vaddr t = Some pr"
    "mapping_limit_above vaddr pr \<longleftrightarrow> (\<exists>e \<in> set es. fst e < vaddr \<and> vaddr < mm_limit (snd e))"
    by (rule pred_straddle [OF inv])
  have fd: "BinaryTree_Find vaddr t = Some (map_of es vaddr)" using bt.find_ok [OF b] .
  obtain sc where sc: "BinaryTree_Successor vaddr t = Some sc"
    "(case sc of None \<Rightarrow> False | Some mm \<Rightarrow> mm_base mm < lim) \<longleftrightarrow> (\<exists>e \<in> set es. vaddr < fst e \<and> fst e < lim)"
  proof (rule bt.succ_cases [OF b, of vaddr])
    assume p: "BinaryTree_Successor vaddr t = Some None" "\<forall>e \<in> set es. fst e \<le> vaddr"
    then have "\<not> (\<exists>e \<in> set es. vaddr < fst e \<and> fst e < lim)" by (meson leD)
    then show ?thesis using that [OF p(1)] by simp
  next
    fix e assume p: "BinaryTree_Successor vaddr t = Some (Some (snd e))" "e \<in> set es" "vaddr < fst e"
      "\<forall>e' \<in> set es. vaddr < fst e' \<longrightarrow> fst e \<le> fst e'"
    have "mm_base (snd e) = fst e" using wf p(2) by (simp add: mapping_wf_def)
    moreover have "fst e < lim \<longleftrightarrow> (\<exists>e' \<in> set es. vaddr < fst e' \<and> fst e' < lim)"
      using p(2-4) by (meson order_le_less_trans)
    ultimately show ?thesis using that [OF p(1)] by simp
  qed
  have fd': "map_of es vaddr \<noteq> None \<longleftrightarrow> (\<exists>e \<in> set es. fst e = vaddr)" by (force simp: map_of_eq_None_iff)
  have run: "AddInMemoryObject objs vaddr object t =
      (if range_taken vaddr lim es then Some (ALREADY_EXISTS, t)
       else Option.bind (BinaryTree_Insert vaddr ?mm t) (\<lambda>t. Some (OK, t)))"
  proof -
    have "range_taken vaddr lim es \<longleftrightarrow> mapping_limit_above vaddr pr \<or> map_of es vaddr \<noteq> None \<or>
        (case sc of None \<Rightarrow> False | Some mm \<Rightarrow> mm_base mm < lim)"
      unfolding pr(2) sc(2) fd' range_taken_def by blast
    then show ?thesis unfolding AddInMemoryObject_def pr(1) sc(1) fd lim_def [symmetric] by simp
  qed
  show ?thesis
  proof (cases "range_taken vaddr lim es")
    case True
    then show ?thesis using run by simp
  next
    case False
    then have free: "\<not> (\<exists>e \<in> set es. fst e < vaddr \<and> vaddr < mm_limit (snd e))"
        "\<not> (\<exists>e \<in> set es. vaddr < fst e \<and> fst e < lim)" "vaddr \<notin> fst ` set es"
      by (auto simp: range_taken_def)
    obtain t' where t': "BinaryTree_Insert vaddr ?mm t = Some t'" "bt_entries t' (ins_entry vaddr ?mm es)"
      using bt.insert_ok [OF b] by blast
    have "ranges_disjoint (ins_entry vaddr ?mm es)"
      using dis free unfolding ranges_disjoint_def set_ins_entry [OF free(3)] by (auto simp: not_less)
    moreover have "mapping_wf objs (vaddr, ?mm)" using nowrap by (simp add: mapping_wf_def lim_def)
    ultimately have "mt_entries objs t' (ins_entry vaddr ?mm es)"
      using t'(2) wf by (auto simp: mt_entries_def set_ins_entry [OF free(3)])
    moreover have "AddInMemoryObject objs vaddr object t = Some (OK, t')"
      using run t'(1) False by simp
    ultimately show ?thesis using False free(3) by auto
  qed
qed

lemma mt_lookup_insert:
  assumes "mt_entries objs t' (ins_entry k mm es)" and "k \<notin> fst ` set es"
  shows "mt_lookup (ins_entry k mm es) a = (if k \<le> a \<and> a < mm_limit mm then Some mm else mt_lookup es a)"
proof (cases "k \<le> a \<and> a < mm_limit mm")
  case True
  then show ?thesis
    using mt_lookup_unique [OF assms(1), of "(k, mm)" a] set_ins_entry [OF assms(2), of mm] by simp
next
  case False
  show ?thesis
  proof (cases "mt_lookup es a")
    case None
    then have "mt_lookup (ins_entry k mm es) a = None"
      using False unfolding mt_lookup_None set_ins_entry [OF assms(2)] by auto
    with None False show ?thesis by auto
  next
    case (Some x)
    then obtain k' where "(k', x) \<in> set es" "k' \<le> a" "a < mm_limit x" using mt_lookup_Some by blast
    then have "mt_lookup (ins_entry k mm es) a = Some x"
      using mt_lookup_unique [OF assms(1), of "(k', x)" a] set_ins_entry [OF assms(2)] by simp
    with Some False show ?thesis by auto
  qed
qed

lemma bt_delete_subset:
  assumes "bt_entries t es"
  obtains t' es' where "BinaryTree_Delete k t = Some t'" and "bt_entries t' es'"
    and "set es' \<subseteq> {e \<in> set es. fst e \<noteq> k}" and "k \<in> fst ` set es \<Longrightarrow> length es' < length es"
proof -
  obtain t' es' where d: "BinaryTree_Delete k t = Some t'" "bt_entries t' es'" "subseq es' (filter (\<lambda>e. fst e \<noteq> k) es)"
    using bt.delete_ok [OF assms] by blast
  have "length es' \<le> length (filter (\<lambda>e. fst e \<noteq> k) es)" using d(3) by (rule list_emb_length)
  moreover have "length (filter (\<lambda>e. fst e \<noteq> k) es) < length es" if "k \<in> fst ` set es"
  proof -
    obtain e where "e \<in> set es" "\<not> fst e \<noteq> k" using \<open>k \<in> fst ` set es\<close> by auto
    then show ?thesis by (rule length_filter_less)
  qed
  moreover have "set es' \<subseteq> {e \<in> set es. fst e \<noteq> k}"
    using d(3) by (auto elim: list_emb_set)
  ultimately show ?thesis using that [OF d(1,2)] by (meson order_le_less_trans)
qed

lemma free_range_loop_ok:
  assumes "mt_entries objs t es"
  shows "\<exists>t' es'. free_range_loop b l t = Some (OK, t') \<and> mt_entries objs t' es' \<and>
    set es' \<subseteq> {e \<in> set es. \<not> (b < fst e \<and> fst e < l)}"
  using assms
proof (induction "length es" arbitrary: t es rule: less_induct)
  case less
  have be: "bt_entries t es" and wf: "\<forall>e \<in> set es. mapping_wf objs e" using less.prems by (auto simp: mt_entries_def)
  show ?case
  proof (rule bt.succ_cases [OF be, of b])
    assume s: "BinaryTree_Successor b t = Some None" "\<forall>e \<in> set es. fst e \<le> b"
    then have "set es \<subseteq> {e \<in> set es. \<not> (b < fst e \<and> fst e < l)}" by (auto dest: leD)
    moreover have "free_range_loop b l t = Some (OK, t)" using s(1) by (subst free_range_loop.simps) simp
    ultimately show ?thesis using less.prems by blast
  next
    fix e assume s: "BinaryTree_Successor b t = Some (Some (snd e))" "e \<in> set es" "b < fst e"
      "\<forall>e' \<in> set es. b < fst e' \<longrightarrow> fst e \<le> fst e'"
    have base: "mm_base (snd e) = fst e" using wf s(2) by (simp add: mapping_wf_def)
    show ?thesis
    proof (cases "l \<le> fst e")
      case True
      then have "set es \<subseteq> {e \<in> set es. \<not> (b < fst e \<and> fst e < l)}"
      proof (intro subsetI CollectI conjI notI)
        fix e' assume "e' \<in> set es" "b < fst e' \<and> fst e' < l"
        then show False using s(4) True by (meson leD order_trans)
      qed
      moreover have "free_range_loop b l t = Some (OK, t)"
        using s(1) True base by (subst free_range_loop.simps) simp
      ultimately show ?thesis using less.prems by blast
    next
      case False
      obtain t1 es1 where d: "BinaryTree_Delete (fst e) t = Some t1" "bt_entries t1 es1"
          "set es1 \<subseteq> {e' \<in> set es. fst e' \<noteq> fst e}" "fst e \<in> fst ` set es \<Longrightarrow> length es1 < length es"
        by (rule bt_delete_subset [OF be, of "fst e"]) (rule that)
      have inv1: "mt_entries objs t1 es1" using mt_entries_subset [OF less.prems d(2)] d(3) by blast
      have "length es1 < length es" using d(4) s(2) by blast
      from less.hyps [OF this inv1] obtain t' es' where r: "free_range_loop b l t1 = Some (OK, t')"
          "mt_entries objs t' es'" "set es' \<subseteq> {e \<in> set es1. \<not> (b < fst e \<and> fst e < l)}" by blast
      have "free_range_loop b l t = Some (OK, t')"
        using s(1) False base d(1) r(1) by (subst free_range_loop.simps) simp
      moreover have "set es' \<subseteq> {e \<in> set es. \<not> (b < fst e \<and> fst e < l)}" using r(3) d(3) by blast
      ultimately show ?thesis using r(2) by blast
    qed
  qed
qed

definition range_straddled :: "u64 \<Rightarrow> (u64 \<times> MemoryMapping) list \<Rightarrow> bool" where
  "range_straddled a es \<longleftrightarrow> (\<exists>e \<in> set es. fst e < a \<and> a < mm_limit (snd e))"

lemma FreeMemoryRange_ok:
  assumes inv: "mt_entries objs t es"
  shows "if l \<le> b then FreeMemoryRange b l t = Some (INVALID_ARGUMENT, t)
    else if range_straddled b es \<or> range_straddled l es then FreeMemoryRange b l t = Some (FAILED_PRECONDITION, t)
    else \<exists>t' es'. FreeMemoryRange b l t = Some (OK, t') \<and> mt_entries objs t' es' \<and>
      set es' \<subseteq> {e \<in> set es. \<not> (b \<le> fst e \<and> fst e < l)}"
proof -
  have be: "bt_entries t es" using inv by (simp add: mt_entries_def)
  obtain pr where pr: "BinaryTree_Predecessor b t = Some pr" "mapping_limit_above b pr \<longleftrightarrow> range_straddled b es"
    unfolding range_straddled_def by (rule pred_straddle [OF inv])
  obtain pl where pl: "BinaryTree_Predecessor l t = Some pl" "mapping_limit_above l pl \<longleftrightarrow> range_straddled l es"
    unfolding range_straddled_def by (rule pred_straddle [OF inv])
  obtain t1 es1 where t1: "(if map_of es b \<noteq> None then BinaryTree_Delete b t else Some t) = Some t1"
      "mt_entries objs t1 es1" "set es1 \<subseteq> {e \<in> set es. fst e \<noteq> b}"
  proof (cases "map_of es b")
    case None
    then have "set es \<subseteq> {e \<in> set es. fst e \<noteq> b}" by (force simp: map_of_eq_None_iff)
    then show ?thesis using that [of t es] inv None by simp
  next
    case (Some mm)
    obtain t1 es1 where d: "BinaryTree_Delete b t = Some t1" "bt_entries t1 es1" "set es1 \<subseteq> {e \<in> set es. fst e \<noteq> b}"
      by (rule bt_delete_subset [OF be])
    then have "mt_entries objs t1 es1" using mt_entries_subset [OF inv d(2)] by blast
    then show ?thesis using that [OF _ _ d(3)] d(1) Some by simp
  qed
  obtain t' es' where r: "free_range_loop b l t1 = Some (OK, t')" "mt_entries objs t' es'"
      "set es' \<subseteq> {e \<in> set es1. \<not> (b < fst e \<and> fst e < l)}"
    using free_range_loop_ok [OF t1(2)] by blast
  have "set es' \<subseteq> {e \<in> set es. \<not> (b \<le> fst e \<and> fst e < l)}"
  proof (intro subsetI CollectI conjI notI)
    fix e assume "e \<in> set es'"
    then have e: "e \<in> set es" "fst e \<noteq> b" "\<not> (b < fst e \<and> fst e < l)" using r(3) t1(3) by auto
    then show "e \<in> set es" by simp
    assume "b \<le> fst e \<and> fst e < l"
    then show False using e by (simp add: order_le_less)
  qed
  moreover have "FreeMemoryRange b l t =
      (if l \<le> b then Some (INVALID_ARGUMENT, t)
       else if range_straddled b es \<or> range_straddled l es then Some (FAILED_PRECONDITION, t) else Some (OK, t'))"
    unfolding FreeMemoryRange_def pr(1) pl(1) bt.find_ok [OF be] using pr(2) pl(2) t1(1) r(1) by simp
  ultimately show ?thesis using r(2) by auto
qed

section \<open>The interface of the mappings\<close>

text \<open>
  What an address space relies on: the table is a function from addresses to mappings; adding a
  range extends it there and nowhere else, freeing a range empties it there and adds nothing.
\<close>

locale range_table =
  fixes rep :: "'t \<Rightarrow> (u64 \<Rightarrow> MemoryMapping option) \<Rightarrow> bool"
    and find :: "u64 \<Rightarrow> 't \<Rightarrow> MemoryMapping option option"
    and add :: "u64 \<Rightarrow> nat \<Rightarrow> 't \<Rightarrow> (ErrorCode \<times> 't) option"
    and free :: "u64 \<Rightarrow> u64 \<Rightarrow> 't \<Rightarrow> (ErrorCode \<times> 't) option"
    and len :: "nat \<Rightarrow> u64"
  assumes find_ok: "rep t f \<Longrightarrow> a < 0xFFFFFFFFFFFFFFFF \<Longrightarrow> find a t = Some (f a)"
    and add_ok: "rep t f \<Longrightarrow> unat a + unat (len obj) < 2 ^ 64 \<Longrightarrow>
      add a obj t = Some (ALREADY_EXISTS, t) \<or>
      (\<exists>t'. add a obj t = Some (OK, t') \<and> (\<forall>x. a \<le> x \<and> x < a + len obj \<longrightarrow> f x = None) \<and>
        rep t' (\<lambda>x. if a \<le> x \<and> x < a + len obj
          then Some \<lparr>mm_base = a, mm_limit = a + len obj, mm_object = obj\<rparr> else f x))"
    and free_ok: "rep t f \<Longrightarrow> \<exists>e t' f'. free a b t = Some (e, t') \<and> rep t' f' \<and>
      (if e = OK then (\<forall>x. f' x = None \<or> f' x = f x) \<and> (\<forall>x. a \<le> x \<and> x < b \<longrightarrow> f' x = None) else f' = f)"
begin

lemma add_keeps_others:
  assumes "rep t f" and "unat a + unat (len obj) < 2 ^ 64" and "add a obj t = Some (e, t')"
    and "x < 0xFFFFFFFFFFFFFFFF" and "f x = Some mm"
  shows "find x t' = Some (Some mm)"
proof (cases "e = OK")
  case True
  have r: "\<forall>x. a \<le> x \<and> x < a + len obj \<longrightarrow> f x = None"
      "rep t' (\<lambda>x. if a \<le> x \<and> x < a + len obj
        then Some \<lparr>mm_base = a, mm_limit = a + len obj, mm_object = obj\<rparr> else f x)"
    using add_ok [OF assms(1,2)] assms(3) True by auto
  then have "\<not> (a \<le> x \<and> x < a + len obj)" using assms(5) by auto
  then show ?thesis using find_ok [OF r(2) assms(4)] assms(5) by auto
next
  case False
  then have "t' = t" using add_ok [OF assms(1,2)] assms(3) by auto
  then show ?thesis using find_ok assms(1,4,5) by simp
qed

lemma free_then_find:
  assumes "rep t f" and "free a b t = Some (OK, t')" and "a \<le> x" and "x < b" and "x < 0xFFFFFFFFFFFFFFFF"
  shows "find x t' = Some None"
proof -
  obtain f' where "rep t' f'" "f' x = None" using free_ok [OF assms(1), of a b] assms(2-4) by auto
  then show ?thesis using find_ok assms(5) by simp
qed

end

definition mt_rep :: "MemObjs \<Rightarrow> MemoryMappingTree \<Rightarrow> (u64 \<Rightarrow> MemoryMapping option) \<Rightarrow> bool" where
  "mt_rep objs t f \<longleftrightarrow> (\<exists>es. mt_entries objs t es \<and> f = mt_lookup es)"

lemma range_free_lookup:
  assumes "mt_entries objs t es" and "\<not> range_taken a b es" and "a \<le> x" and "x < b"
  shows "mt_lookup es x = None"
  unfolding mt_lookup_None
proof (intro ballI notI)
  fix e assume e: "e \<in> set es" and c: "fst e \<le> x \<and> x < mm_limit (snd e)"
  have "\<not> fst e = a" "\<not> (a < fst e \<and> fst e < b)" "\<not> (fst e < a \<and> a < mm_limit (snd e))"
    using assms(2) e by (auto simp: range_taken_def)
  moreover have "fst e < b" using c assms(4) by (meson order_le_less_trans)
  moreover have "a < mm_limit (snd e)" using c assms(3) by (meson order_le_less_trans)
  ultimately show False by (meson linorder_less_linear)
qed

lemma mt_lookup_subset:
  assumes "mt_entries objs t es" and "mt_entries objs t' es'" and "set es' \<subseteq> set es"
  shows "mt_lookup es' x = None \<or> mt_lookup es' x = mt_lookup es x"
proof (cases "mt_lookup es' x")
  case (Some mm)
  then obtain k where "(k, mm) \<in> set es'" "k \<le> x" "x < mm_limit mm" using mt_lookup_Some by blast
  then have "mt_lookup es x = Some mm" using mt_lookup_unique [OF assms(1), of "(k, mm)" x] assms(3) by auto
  with Some show ?thesis by simp
qed simp

interpretation mt: range_table "mt_rep objs" "\<lambda>a. GetMemoryMappingForAddr objs a" "\<lambda>a obj. AddInMemoryObject objs a obj"
    FreeMemoryRange "\<lambda>obj. MemoryObject_size (objs obj)" for objs
proof
  fix t f a
  assume "mt_rep objs t f" "a < (0xFFFFFFFFFFFFFFFF :: u64)"
  then show "GetMemoryMappingForAddr objs a t = Some (f a)"
    using GetMemoryMappingForAddr_ok by (auto simp: mt_rep_def)
next
  fix t f a obj
  assume "mt_rep objs t f" and nowrap: "unat (a :: u64) + unat (MemoryObject_size (objs obj)) < 2 ^ 64"
  then obtain es where es: "mt_entries objs t es" "f = mt_lookup es" by (auto simp: mt_rep_def)
  let ?l = "a + MemoryObject_size (objs obj)"
  let ?mm = "\<lparr>mm_base = a, mm_limit = ?l, mm_object = obj\<rparr>"
  show "AddInMemoryObject objs a obj t = Some (ALREADY_EXISTS, t) \<or>
      (\<exists>t'. AddInMemoryObject objs a obj t = Some (OK, t') \<and> (\<forall>x. a \<le> x \<and> x < ?l \<longrightarrow> f x = None) \<and>
        mt_rep objs t' (\<lambda>x. if a \<le> x \<and> x < ?l then Some ?mm else f x))"
  proof (cases "range_taken a ?l es")
    case True
    then show ?thesis using AddInMemoryObject_ok [OF es(1) nowrap] by simp
  next
    case False
    then obtain t' where t': "AddInMemoryObject objs a obj t = Some (OK, t')"
        "mt_entries objs t' (ins_entry a ?mm es)" "a \<notin> fst ` set es"
      using AddInMemoryObject_ok [OF es(1) nowrap] by auto
    have "mt_lookup (ins_entry a ?mm es) = (\<lambda>x. if a \<le> x \<and> x < ?l then Some ?mm else f x)"
      using mt_lookup_insert [OF t'(2,3)] es(2) by auto
    then have "mt_rep objs t' (\<lambda>x. if a \<le> x \<and> x < ?l then Some ?mm else f x)"
      using t'(2) unfolding mt_rep_def by metis
    then show ?thesis using t'(1) range_free_lookup [OF es(1) False] es(2) by blast
  qed
next
  fix t f a b
  assume "mt_rep objs t f"
  then obtain es where es: "mt_entries objs t es" "f = mt_lookup es" by (auto simp: mt_rep_def)
  note free = FreeMemoryRange_ok [OF es(1), of b a]
  show "\<exists>e t' f'. FreeMemoryRange a b t = Some (e, t') \<and> mt_rep objs t' f' \<and>
      (if e = OK then (\<forall>x. f' x = None \<or> f' x = f x) \<and> (\<forall>x. a \<le> x \<and> x < b \<longrightarrow> f' x = None) else f' = f)"
  proof (cases "b \<le> a \<or> range_straddled a es \<or> range_straddled b es")
    case True
    then obtain e where "FreeMemoryRange a b t = Some (e, t)" "e \<noteq> OK" using free by (auto split: if_splits)
    then show ?thesis using \<open>mt_rep objs t f\<close> by auto
  next
    case False
    then obtain t' es' where t': "FreeMemoryRange a b t = Some (OK, t')" "mt_entries objs t' es'"
        "set es' \<subseteq> {e \<in> set es. \<not> (a \<le> fst e \<and> fst e < b)}"
      using free by auto
    have "mt_lookup es' x = None" if "a \<le> x" "x < b" for x
      unfolding mt_lookup_None
    proof (intro ballI notI)
      fix e assume e: "e \<in> set es'" and c: "fst e \<le> x \<and> x < mm_limit (snd e)"
      then have "e \<in> set es" "\<not> (a \<le> fst e \<and> fst e < b)" using t'(3) by auto
      moreover have "fst e < b" "a < mm_limit (snd e)" using c that by (meson order_le_less_trans)+
      ultimately have "range_straddled a es" unfolding range_straddled_def by (meson not_le)
      then show False using False by blast
    qed
    moreover have "mt_lookup es' x = None \<or> mt_lookup es' x = f x" for x
      using mt_lookup_subset [OF es(1) t'(2)] t'(3) es(2) by blast
    ultimately show ?thesis
      using t'(1,2) by (intro exI [of _ OK] exI [of _ t'] exI [of _ "mt_lookup es'"]) (auto simp: mt_rep_def)
  qed
qed

section \<open>Properties\<close>

text \<open>
  C20.  Adding a range.  When the range of the object does not wrap around,
  \<open>AddInMemoryObject\<close> returns; it answers \<open>ALREADY_EXISTS\<close> and changes nothing exactly if the
  range is taken, and otherwise the addresses of the range, and only they, now have the new
  mapping.  The ranges stay disjoint.
\<close>

theorem AddInMemoryObject_extends:
  assumes "mt_entries objs t es" and "unat vaddr + unat (MemoryObject_size (objs object)) < 2 ^ 64"
  shows "\<exists>e t' es'. AddInMemoryObject objs vaddr object t = Some (e, t') \<and> mt_entries objs t' es' \<and>
    (e = OK \<longleftrightarrow> \<not> range_taken vaddr (vaddr + MemoryObject_size (objs object)) es) \<and>
    (e \<noteq> OK \<longrightarrow> e = ALREADY_EXISTS \<and> t' = t) \<and>
    (\<forall>a < 0xFFFFFFFFFFFFFFFF. GetMemoryMappingForAddr objs a t' =
       (if e = OK \<and> vaddr \<le> a \<and> a < vaddr + MemoryObject_size (objs object)
        then Some (Some \<lparr>mm_base = vaddr, mm_limit = vaddr + MemoryObject_size (objs object), mm_object = object\<rparr>)
        else GetMemoryMappingForAddr objs a t))"
proof (cases "range_taken vaddr (vaddr + MemoryObject_size (objs object)) es")
  case True
  then show ?thesis using AddInMemoryObject_ok [OF assms] assms(1) by auto
next
  case False
  let ?l = "vaddr + MemoryObject_size (objs object)"
  let ?es = "ins_entry vaddr \<lparr>mm_base = vaddr, mm_limit = ?l, mm_object = object\<rparr> es"
  obtain t' where t': "AddInMemoryObject objs vaddr object t = Some (OK, t')" "mt_entries objs t' ?es"
      "vaddr \<notin> fst ` set es"
    using AddInMemoryObject_ok [OF assms] False by auto
  then show ?thesis
    using False mt_lookup_insert [OF t'(2,3)]
    by (intro exI [of _ OK] exI [of _ t'] exI [of _ ?es])
       (auto simp: GetMemoryMappingForAddr_ok [OF assms(1)] GetMemoryMappingForAddr_ok [OF t'(2)])
qed

lemma mt_entries_new: "mt_entries objs BinaryTree_new []"
  using bt_entries_new by (simp add: mt_entries_def ranges_disjoint_def)

theorem AddInMemoryObject_extends_witness:
  "\<exists>t'. AddInMemoryObject (\<lambda>_. ViewMemoryObject 0x2000 0x80000000) 0x400000 7 BinaryTree_new = Some (OK, t') \<and>
     GetMemoryMappingForAddr (\<lambda>_. ViewMemoryObject 0x2000 0x80000000) 0x401FFF t' =
       Some (Some \<lparr>mm_base = 0x400000, mm_limit = 0x402000, mm_object = 7\<rparr>)"
  using AddInMemoryObject_extends [OF mt_entries_new, of "0x400000" "\<lambda>_. ViewMemoryObject 0x2000 0x80000000" 7]
  by (auto simp: range_taken_def)



end
