(* ===== verification/Zion_AddressSpace.thy ===== *)
theory Zion_AddressSpace
  imports Zion_MappingTree
begin

text \<open>
  Address spaces (\<open>zion/object/address_space.h\<close>, \<open>address_space.cpp\<close>), the user stacks they hand
  out (\<open>zion/memory/user_stack_manager.cpp\<close>), the kernel stacks
  (\<open>zion/memory/kernel_stack_manager.cpp\<close>) and the regions of the slab heap
  (\<open>zion/memory/kernel_vmm.cpp\<close>).

  Operations that contain a loop which might not end return an \<open>option\<close>; \<open>Some (Inl f)\<close> is a
  fault and \<open>Some (Inr x)\<close> a normal return.
\<close>

section \<open>User stacks\<close>

record UserStackManager =
  us_next_stack :: u64
  us_freed :: "u64 LinkedList"

definition UserStackManager_new :: UserStackManager where
  "UserStackManager_new = \<lparr>us_next_stack = kUserStackMax, us_freed = LinkedList_new\<rparr>"

definition NewUserStack :: "UserStackManager \<Rightarrow> (u64 \<times> UserStackManager) run" where
  "NewUserStack m =
     (if \<not> LinkedList_empty (us_freed m)
      then run_map (\<lambda>(x, l). (x, m\<lparr>us_freed := l\<rparr>)) (LinkedList_PopFront (us_freed m))
      else let m = m\<lparr>us_next_stack := us_next_stack m - kUserStackSize\<rparr>;
               stack = us_next_stack m
           in if stack \<le> kUserStackMin then Inl (Panic ''Out of user stacks!'') else Inr (stack, m))"

definition UserStackManager_FreeUserStack :: "u64 \<Rightarrow> UserStackManager \<Rightarrow> UserStackManager" where
  "UserStackManager_FreeUserStack stack_base m = m\<lparr>us_freed := LinkedList_PushBack stack_base (us_freed m)\<rparr>"

section \<open>Kernel stacks and slab regions\<close>

record KernelStackManager =
  ks_next_stack_addr :: u64
  ks_free_stacks :: "u64 LinkedList"

definition KernelStackManager_new :: KernelStackManager where
  "KernelStackManager_new = \<lparr>ks_next_stack_addr = kKernelStackStart, ks_free_stacks = LinkedList_new\<rparr>"

definition AllocateKernelStack ::
    "KernelStackManager \<Rightarrow> Machine \<Rightarrow> (u64 \<times> KernelStackManager \<times> Machine) run option" where
  "AllocateKernelStack m st =
     (if \<not> LinkedList_empty (ks_free_stacks m)
      then Some (run_map (\<lambda>(x, l). (x, m\<lparr>ks_free_stacks := l\<rparr>, st)) (LinkedList_PopFront (ks_free_stacks m)))
      else let m = m\<lparr>ks_next_stack_addr := ks_next_stack_addr m + kKernelStackOffset\<rparr>
           in if ks_next_stack_addr m \<ge> kKernelStackEnd then Some (Inl (Panic ''No more kernel stack space''))
              else map_option (run_map (\<lambda>st. (ks_next_stack_addr m - 8, m, st)))
                     (EnsureResident (ks_next_stack_addr m - kKernelStackSize) kKernelStackSize st))"

definition FreeKernelStack :: "u64 \<Rightarrow> KernelStackManager \<Rightarrow> KernelStackManager" where
  "FreeKernelStack stack_base m = m\<lparr>ks_free_stacks := LinkedList_PushFront stack_base (ks_free_stacks m)\<rparr>"

text \<open>
  \<open>KernelVmm\<close>: the next page of the slab heap and the stack manager.  Its heap is in
  \<open>Zion_KernelHeap\<close>.
\<close>

record KernelVmm =
  vmm_next_slab_heap_page :: u64
  vmm_stack_manager :: KernelStackManager

definition AcquireSlabHeapRegion :: "u64 \<Rightarrow> KernelVmm \<Rightarrow> Machine \<Rightarrow> (u64 \<times> KernelVmm \<times> Machine) run option" where
  "AcquireSlabHeapRegion slab_size_bytes v st =
     (let next_slab = vmm_next_slab_heap_page v
      in if next_slab \<ge> kKernelBuddyHeapEnd then Some (Inl (Panic ''Slab heap overrun''))
         else let v = v\<lparr>vmm_next_slab_heap_page := vmm_next_slab_heap_page v + slab_size_bytes\<rparr>
              in map_option (run_map (\<lambda>st. (next_slab, v, st))) (EnsureResident next_slab slab_size_bytes st))"

definition AcquireKernelStack :: "KernelVmm \<Rightarrow> Machine \<Rightarrow> (u64 \<times> KernelVmm \<times> Machine) run option" where
  "AcquireKernelStack v st =
     map_option (run_map (\<lambda>(x, m, st). (x, v\<lparr>vmm_stack_manager := m\<rparr>, st)))
       (AllocateKernelStack (vmm_stack_manager v) st)"

section \<open>The address space\<close>

record AddressSpace =
  as_cr3 :: u64
  as_user_stacks :: UserStackManager
  as_next_memmap_addr :: u64
  as_mapping_tree :: MemoryMappingTree

definition AddressSpace_of_cr3 :: "u64 \<Rightarrow> AddressSpace" where
  "AddressSpace_of_cr3 cr3 =
     \<lparr>as_cr3 = cr3, as_user_stacks = UserStackManager_new, as_next_memmap_addr = 0x2000000000,
      as_mapping_tree = BinaryTree_new\<rparr>"

definition AddressSpace_ForRoot :: "Machine \<Rightarrow> AddressSpace" where
  "AddressSpace_ForRoot st = AddressSpace_of_cr3 (mc_cr3 st)"

definition AddressSpace_new :: "Machine \<Rightarrow> (AddressSpace \<times> Machine) run" where
  "AddressSpace_new st =
     run_map (\<lambda>(cr3, st). (AddressSpace_of_cr3 cr3, InitializePml4 cr3 st)) (AllocateAndZeroPage st)"

definition AddressSpace_destroy :: "AddressSpace \<Rightarrow> Machine \<Rightarrow> Machine run" where
  "AddressSpace_destroy a st = CleanupPml4 (as_cr3 a) st"

text \<open>\<open>MapInMemoryObject\<close> at a given address.\<close>

definition MapInMemoryObjectAt :: "MemObjs \<Rightarrow> u64 \<Rightarrow> nat \<Rightarrow> AddressSpace \<Rightarrow> (ErrorCode \<times> AddressSpace) option" where
  "MapInMemoryObjectAt objs vaddr mem_obj a =
     map_option (\<lambda>(e, t). (e, a\<lparr>as_mapping_tree := t\<rparr>)) (AddInMemoryObject objs vaddr mem_obj (as_mapping_tree a))"

text \<open>
  The object of the new stack is placed at the reference \<open>new\<close>, which the caller has not used yet.
\<close>

definition AllocateUserStack ::
    "nat \<Rightarrow> MemObjs \<Rightarrow> AddressSpace \<Rightarrow> (u64 ErrorOr \<times> MemObjs \<times> AddressSpace) run option" where
  "AllocateUserStack new objs a =
     (case NewUserStack (as_user_stacks a) of
        Inl f \<Rightarrow> Some (Inl f)
      | Inr (base, us) \<Rightarrow>
          (case VariableMemoryObject_new kUserStackSize of
             Inl f \<Rightarrow> Some (Inl f)
           | Inr obj \<Rightarrow>
               let objs = objs(new := obj)
               in map_option (\<lambda>(e, a). Inr (if e \<noteq> OK then Inl e else Inr base, objs, a))
                    (MapInMemoryObjectAt objs base new (a\<lparr>as_user_stacks := us\<rparr>))))"

text \<open>The loop that moves the next address up to the alignment.\<close>

partial_function (option) align_loop :: "u64 \<Rightarrow> u64 \<Rightarrow> u64 option" where
  "align_loop align addr =
     (if addr AND (align - 1) \<noteq> 0 then align_loop align (addr + kPageSize) else Some addr)"

definition GetNextMemMapAddr :: "u64 \<Rightarrow> u64 \<Rightarrow> AddressSpace \<Rightarrow> (u64 \<times> AddressSpace) run option" where
  "GetNextMemMapAddr sz align a =
     (if sz = 0 then Some (Inl (Panic ''Zero size memmap''))
      else let size = ((sz - 1) AND NOT 0xFFF) + 0x1000
           in Option.bind (if align > 0 then align_loop align (as_next_memmap_addr a) else Some (as_next_memmap_addr a))
                (\<lambda>addr. let a = a\<lparr>as_next_memmap_addr := addr + size\<rparr>
                        in if as_next_memmap_addr a \<ge> 0x3000000000 then Some (Inl (Panic ''OOM: Memmap''))
                           else Some (Inr (addr, a))))"

definition MapInMemoryObject ::
    "MemObjs \<Rightarrow> nat \<Rightarrow> u64 \<Rightarrow> AddressSpace \<Rightarrow> (u64 ErrorOr \<times> AddressSpace) run option" where
  "MapInMemoryObject objs mem_obj align a =
     Option.bind (GetNextMemMapAddr (MemoryObject_size (objs mem_obj)) align a) (\<lambda>r.
     case r of
       Inl f \<Rightarrow> Some (Inl f)
     | Inr (vaddr, a) \<Rightarrow>
         map_option (\<lambda>(e, a). Inr (if e \<noteq> OK then Inl e else Inr vaddr, a)) (MapInMemoryObjectAt objs vaddr mem_obj a))"

partial_function (option) unmap_loop :: "u64 \<Rightarrow> u64 \<Rightarrow> u64 \<Rightarrow> Machine \<Rightarrow> Machine option" where
  "unmap_loop cr3 addr vaddr_limit st =
     (if addr < vaddr_limit then unmap_loop cr3 (addr + kPageSize) vaddr_limit (UnmapPage cr3 addr st)
      else Some st)"

definition FreeAddressRange ::
    "u64 \<Rightarrow> u64 \<Rightarrow> bool \<Rightarrow> AddressSpace \<Rightarrow> Machine \<Rightarrow> (ErrorCode \<times> AddressSpace \<times> Machine) option" where
  "FreeAddressRange vaddr_base vaddr_limit is_dying_proc a st =
     Option.bind (FreeMemoryRange vaddr_base vaddr_limit (as_mapping_tree a)) (\<lambda>(e, t).
     let a = a\<lparr>as_mapping_tree := t\<rparr>
     in if e \<noteq> OK then Some (e, a, st)
        else if is_dying_proc then Some (OK, a, st)
        else map_option (\<lambda>st. (OK, a, UnmapPage (as_cr3 a) vaddr_limit st))
               (unmap_loop (as_cr3 a) vaddr_base vaddr_limit st))"

definition AddressSpace_FreeUserStack ::
    "u64 \<Rightarrow> AddressSpace \<Rightarrow> Machine \<Rightarrow> (ErrorCode \<times> AddressSpace \<times> Machine) option" where
  "AddressSpace_FreeUserStack base a st =
     map_option (\<lambda>(e, a, st).
       if e \<noteq> OK then (e, a, st)
       else (OK, a\<lparr>as_user_stacks := UserStackManager_FreeUserStack base (as_user_stacks a)\<rparr>, st))
       (FreeAddressRange base (base + kUserStackSize) False a st)"

definition HandlePageFault ::
    "u64 \<Rightarrow> AddressSpace \<Rightarrow> MemObjs \<Rightarrow> Machine \<Rightarrow> (bool \<times> MemObjs \<times> Machine) run option" where
  "HandlePageFault vaddr a objs st =
     (if vaddr < kPageSize then Some (Inr (False, objs, st))
      else map_option (\<lambda>r. run_bind r (\<lambda>(offset_or, objs, phys).
             let st = st\<lparr>mc_phys := phys\<rparr>
             in case offset_or of
                  Inl _ \<Rightarrow> Inr (False, objs, st)
                | Inr page \<Rightarrow> run_map (\<lambda>st. (True, objs, st)) (MapPage (as_cr3 a) vaddr page st)))
             (GetPhysicalPageAtVaddr vaddr (as_mapping_tree a) objs (mc_phys st)))"

section \<open>Pools of stacks\<close>

text \<open>
  Both stack managers hand out a returned stack if there is one and otherwise the next one of a
  fixed sequence.  A step of a pool takes or returns a stack; only a stack that is held is
  returned.
\<close>

inductive pool_step ::
    "('s \<Rightarrow> u64 \<Rightarrow> 's \<Rightarrow> bool) \<Rightarrow> (u64 \<Rightarrow> 's \<Rightarrow> 's) \<Rightarrow> 's \<times> u64 multiset \<Rightarrow> 's \<times> u64 multiset \<Rightarrow> bool"
  for takes :: "'s \<Rightarrow> u64 \<Rightarrow> 's \<Rightarrow> bool" and give :: "u64 \<Rightarrow> 's \<Rightarrow> 's" where
  pool_take: "takes s x s' \<Longrightarrow> pool_step takes give (s, held) (s', add_mset x held)"
| pool_give: "x \<in># held \<Longrightarrow> pool_step takes give (s, held) (give x s, held - {#x#})"

inductive_cases pool_stepE: "pool_step takes give (s, held) (s', held')"

locale stack_pool =
  fixes takes :: "'s \<Rightarrow> u64 \<Rightarrow> 's \<Rightarrow> bool" and give :: "u64 \<Rightarrow> 's \<Rightarrow> 's"
    and idle :: "'s \<Rightarrow> u64 list" and issued :: "'s \<Rightarrow> nat \<Rightarrow> bool" and slot :: "nat \<Rightarrow> u64" and slots :: nat
  assumes take_idle: "takes s x s' \<Longrightarrow> issued s n \<Longrightarrow> idle s \<noteq> [] \<Longrightarrow>
      mset (idle s) = add_mset x (mset (idle s')) \<and> issued s' n"
    and take_fresh: "takes s x s' \<Longrightarrow> issued s n \<Longrightarrow> idle s = [] \<Longrightarrow>
      x = slot n \<and> n < slots \<and> idle s' = [] \<and> issued s' (Suc n)"
    and give_idle: "mset (idle (give x s)) = add_mset x (mset (idle s))"
    and give_issued: "issued s n \<Longrightarrow> length (idle s) < slots \<Longrightarrow> issued (give x s) n"
    and slot_inj: "i < slots \<Longrightarrow> j < slots \<Longrightarrow> slot i = slot j \<Longrightarrow> i = j"
begin

lemma pool_conserves:
  "pool_step takes give (s, held) (s', held') \<Longrightarrow> issued s n \<Longrightarrow> n \<le> slots \<Longrightarrow>
     mset (idle s) + held = mset (map slot [0..<n]) \<Longrightarrow>
     \<exists>n'. issued s' n' \<and> n' \<le> slots \<and> mset (idle s') + held' = mset (map slot [0..<n'])"
proof (erule pool_stepE)
  fix x assume t: "takes s x s'" "held' = add_mset x held"
    and n: "issued s n" "n \<le> slots" "mset (idle s) + held = mset (map slot [0..<n])"
  show "\<exists>n'. issued s' n' \<and> n' \<le> slots \<and> mset (idle s') + held' = mset (map slot [0..<n'])"
  proof (cases "idle s = []")
    case True
    then show ?thesis using take_fresh [OF t(1) n(1)] t(2) n(3) by (intro exI [of _ "Suc n"]) auto
  next
    case False
    then show ?thesis using take_idle [OF t(1) n(1)] t(2) n by (intro exI [of _ n]) auto
  qed
next
  fix x assume g: "s' = give x s" "held' = held - {#x#}" "x \<in># held"
    and n: "issued s n" "n \<le> slots" "mset (idle s) + held = mset (map slot [0..<n])"
  have "mset (idle s') + held' = mset (idle s) + held" using give_idle g by simp
  moreover have "length (idle s) < slots"
  proof -
    have "size (mset (idle s) + held) = n" unfolding n(3) by simp
    moreover have "held \<noteq> {#}" using g(3) by auto
    then have "0 < size held" by (simp only: nonempty_has_size)
    ultimately show ?thesis using n(2) by simp
  qed
  ultimately show "\<exists>n'. issued s' n' \<and> n' \<le> slots \<and> mset (idle s') + held' = mset (map slot [0..<n'])"
    using g(1) n give_issued by auto
qed

lemma pool_reach:
  assumes "(pool_step takes give)\<^sup>*\<^sup>* (s, held) (s', held')" and "issued s n" and "n \<le> slots"
    and "mset (idle s) + held = mset (map slot [0..<n])"
  shows "\<exists>n'. issued s' n' \<and> n' \<le> slots \<and> mset (idle s') + held' = mset (map slot [0..<n'])"
  using assms
proof (induction "(s', held')" arbitrary: s' held' rule: rtranclp_induct)
  case (step y)
  obtain s1 held1 where "y = (s1, held1)" by force
  with step show ?case using pool_conserves by blast
qed blast

text \<open>No stack is held twice, and every stack that is held is one of the sequence.\<close>

lemma pool_distinct:
  assumes "(pool_step takes give)\<^sup>*\<^sup>* (s, {#}) (s', held)" and "issued s 0" and "idle s = []"
  shows "count held x \<le> 1 \<and> (x \<in># held \<longrightarrow> (\<exists>i < slots. x = slot i))"
proof -
  obtain n where n: "n \<le> slots" "mset (idle s') + held = mset (map slot [0..<n])"
    using pool_reach [OF assms(1,2)] assms(3) by auto
  have "inj_on slot {0..<n}" using slot_inj n(1) by (intro inj_onI) auto
  then have d: "distinct (map slot [0..<n])" by (simp add: distinct_map)
  have "count held x \<le> count (mset (map slot [0..<n])) x" unfolding n(2) [symmetric] by simp
  also have "\<dots> \<le> 1" using d by (metis distinct_count_atmost_1 le_numeral_extra(3,4) zero_le_one)
  finally have "count held x \<le> 1" .
  moreover have "\<exists>i < slots. x = slot i" if "x \<in># held"
  proof -
    have "x \<in># mset (map slot [0..<n])" unfolding n(2) [symmetric] using that by simp
    then obtain i where "i < n" "x = slot i" by auto
    then show ?thesis using n(1) less_le_trans by blast
  qed
  ultimately show ?thesis by blast
qed

end

definition user_slot :: "nat \<Rightarrow> u64" where
  "user_slot i = kUserStackMax - of_nat (Suc i) * kUserStackSize"

definition user_issued :: "UserStackManager \<Rightarrow> nat \<Rightarrow> bool" where
  "user_issued m n \<longleftrightarrow> us_next_stack m = kUserStackMax - of_nat n * kUserStackSize \<and> n \<le> 65535 \<and>
     ll_inv (us_freed m) \<and> length (ll_front (us_freed m)) \<le> 65535"

lemma unat_user_slot: "i < 65536 \<Longrightarrow> unat (user_slot i) = 0x800000000000 - Suc i * 0x100000"
proof -
  assume "i < 65536"
  then have "unat (of_nat (Suc i) * kUserStackSize) = Suc i * 0x100000"
    by (simp add: kUserStackSize_def unat_word_ariths unat_of_nat_u64 take_bit_nat_eq_self del: of_nat_Suc)
  moreover from this \<open>i < 65536\<close> have "of_nat (Suc i) * kUserStackSize \<le> kUserStackMax"
    by (simp add: word_le_nat_alt kUserStackMax_def del: of_nat_Suc)
  ultimately show ?thesis
    unfolding user_slot_def by (simp add: unat_sub_le kUserStackMax_def del: of_nat_Suc)
qed

lemma user_slot_inj: "i < 65536 \<Longrightarrow> j < 65536 \<Longrightarrow> user_slot i = user_slot j \<Longrightarrow> i = j"
proof -
  assume ij: "i < 65536" "j < 65536" "user_slot i = user_slot j"
  have sum: "unat (user_slot i) + Suc i * 0x100000 = 0x800000000000" if "i < 65536" for i
    unfolding unat_user_slot [OF that] using that by simp
  have "Suc i * 0x100000 = Suc j * 0x100000" using sum [OF ij(1)] sum [OF ij(2)] ij(3) by simp
  then show "i = j" by simp
qed

interpretation us: stack_pool "\<lambda>m x m'. NewUserStack m = Inr (x, m')" UserStackManager_FreeUserStack
    "\<lambda>m. ll_front (us_freed m)" user_issued user_slot 65535
proof
  fix s x s' n
  assume t: "NewUserStack s = Inr (x, s')" and i: "user_issued s n"
  have e: "LinkedList_empty (us_freed s) \<longleftrightarrow> ll_front (us_freed s) = []"
    using i counts_zero_iff [of "ll_size (us_freed s)" "ll_front (us_freed s)"]
    by (auto simp: user_issued_def ll_inv_def LinkedList_empty_def)
  show "mset (ll_front (us_freed s)) = add_mset x (mset (ll_front (us_freed s'))) \<and> user_issued s' n"
    if "ll_front (us_freed s) \<noteq> []"
    using t i e that by (auto simp: NewUserStack_def run_map_eq_Inr user_issued_def LinkedList_PopFront_Inr ll_inv_def)
  show "x = user_slot n \<and> n < 65535 \<and> ll_front (us_freed s') = [] \<and> user_issued s' (Suc n)"
    if "ll_front (us_freed s) = []"
  proof -
    have "us_next_stack s - kUserStackSize = user_slot n"
      using i by (simp add: user_issued_def user_slot_def algebra_simps)
    then have s': "x = user_slot n" "s' = s\<lparr>us_next_stack := user_slot n\<rparr>" "kUserStackMin < user_slot n"
      using t e that by (auto simp: NewUserStack_def Let_def split: if_splits)
    have "n < 65535"
      using s'(3) unat_user_slot [of n] i by (auto simp: user_issued_def word_less_nat_alt kUserStackMin_def)
    then show ?thesis using s' i that by (auto simp: user_issued_def user_slot_def)
  qed
next
  fix x s n
  show "mset (ll_front (us_freed (UserStackManager_FreeUserStack x s))) = add_mset x (mset (ll_front (us_freed s)))"
    by (simp add: UserStackManager_FreeUserStack_def)
  show "user_issued (UserStackManager_FreeUserStack x s) n"
    if "user_issued s n" "length (ll_front (us_freed s)) < 65535"
    using that by (simp add: UserStackManager_FreeUserStack_def user_issued_def ll_inv_PushBack)
next
  fix i j :: nat assume "i < 65535" "j < 65535" "user_slot i = user_slot j"
  then show "i = j" using user_slot_inj [of i j] by simp
qed

definition kernel_slot :: "nat \<Rightarrow> u64" where
  "kernel_slot i = kKernelStackStart + of_nat (Suc i) * kKernelStackOffset - 8"

definition kernel_issued :: "KernelStackManager \<Rightarrow> nat \<Rightarrow> bool" where
  "kernel_issued m n \<longleftrightarrow> ks_next_stack_addr m = kKernelStackStart + of_nat n * kKernelStackOffset \<and> n \<le> 16383 \<and>
     ll_inv (ks_free_stacks m) \<and> length (ll_front (ks_free_stacks m)) \<le> 16383"

lemma unat_kernel_stack:
  "n \<le> 16384 \<Longrightarrow> unat (kKernelStackStart + of_nat n * kKernelStackOffset) = 0xFFFFFFFF90000000 + n * 0x4000"
proof -
  assume n: "n \<le> 16384"
  have "unat (of_nat n * kKernelStackOffset) = n * 0x4000"
    using n by (simp add: kKernelStackOffset_def kPageSize_def unat_word_ariths unat_of_nat_u64)
  then show ?thesis using n by (subst unat_add_noof) (simp_all add: kKernelStackStart_def)
qed

lemma unat_kernel_slot: "i < 16384 \<Longrightarrow> unat (kernel_slot i) = 0xFFFFFFFF90000000 + Suc i * 0x4000 - 8"
proof -
  assume i: "i < 16384"
  let ?x = "kKernelStackStart + of_nat (Suc i) * kKernelStackOffset"
  have x: "unat ?x = 0xFFFFFFFF90000000 + Suc i * 0x4000" using unat_kernel_stack [of "Suc i"] i by simp
  then have "8 \<le> ?x" by (simp add: word_le_nat_alt del: of_nat_Suc)
  then show ?thesis unfolding kernel_slot_def using x by (simp add: unat_sub_le del: of_nat_Suc)
qed

interpretation ks: stack_pool "\<lambda>m x m'. \<exists>st st'. AllocateKernelStack m st = Some (Inr (x, m', st'))" FreeKernelStack
    "\<lambda>m. ll_front (ks_free_stacks m)" kernel_issued kernel_slot 16383
proof
  fix s x s' n
  assume "\<exists>st st'. AllocateKernelStack s st = Some (Inr (x, s', st'))" and i: "kernel_issued s n"
  then obtain st st' where t: "AllocateKernelStack s st = Some (Inr (x, s', st'))" by blast
  have e: "LinkedList_empty (ks_free_stacks s) \<longleftrightarrow> ll_front (ks_free_stacks s) = []"
    using i counts_zero_iff [of "ll_size (ks_free_stacks s)" "ll_front (ks_free_stacks s)"]
    by (auto simp: kernel_issued_def ll_inv_def LinkedList_empty_def)
  show "mset (ll_front (ks_free_stacks s)) = add_mset x (mset (ll_front (ks_free_stacks s'))) \<and> kernel_issued s' n"
    if "ll_front (ks_free_stacks s) \<noteq> []"
    using t i e that
    by (auto simp: AllocateKernelStack_def run_map_eq_Inr kernel_issued_def LinkedList_PopFront_Inr ll_inv_def)
  show "x = kernel_slot n \<and> n < 16383 \<and> ll_front (ks_free_stacks s') = [] \<and> kernel_issued s' (Suc n)"
    if "ll_front (ks_free_stacks s) = []"
  proof -
    let ?a = "kKernelStackStart + of_nat (Suc n) * kKernelStackOffset"
    have a: "ks_next_stack_addr s + kKernelStackOffset = ?a"
      using i by (simp add: kernel_issued_def algebra_simps)
    then have s': "x = ?a - 8" "s' = s\<lparr>ks_next_stack_addr := ?a\<rparr>" "\<not> kKernelStackEnd \<le> ?a"
      using t e that by (auto simp: AllocateKernelStack_def Let_def run_map_eq_Inr split: if_splits)
    have "n \<le> 16383" using i by (simp add: kernel_issued_def)
    then have "n < 16383"
      using s'(3) unat_kernel_stack [of "Suc n"] by (auto simp: word_le_nat_alt kKernelStackEnd_def not_le)
    then show ?thesis using s' i that by (auto simp: kernel_issued_def kernel_slot_def)
  qed
next
  fix x s n
  show "mset (ll_front (ks_free_stacks (FreeKernelStack x s))) = add_mset x (mset (ll_front (ks_free_stacks s)))"
    by (simp add: FreeKernelStack_def)
  show "kernel_issued (FreeKernelStack x s) n"
    if "kernel_issued s n" "length (ll_front (ks_free_stacks s)) < 16383"
    using that by (simp add: FreeKernelStack_def kernel_issued_def ll_inv_PushFront)
next
  fix i j :: nat assume ij: "i < 16383" "j < 16383" "kernel_slot i = kernel_slot j"
  have sum: "unat (kernel_slot i) + 8 = 0xFFFFFFFF90000000 + Suc i * 0x4000" if "i < 16383" for i
    using unat_kernel_slot [of i] that by simp
  have "unat (kernel_slot i) = unat (kernel_slot j)" using ij(3) by (rule arg_cong)
  then have "Suc i * 0x4000 = Suc j * (0x4000 :: nat)" using sum [OF ij(1)] sum [OF ij(2)] by linarith
  then show "i = j" by simp
qed

text \<open>
  C28.  Stacks do not overlap.  After any sequence of allocations and returns, no user stack is held
  twice, every held stack lies strictly above the bottom of the stack region and ends inside it,
  and two different held stacks share no address.  Likewise every held kernel stack, of 12 KiB
  below the returned top, lies in the kernel stack region, no two of them share an address, and a
  page below each of them belongs to no stack.
\<close>

theorem stacks_disjoint:
  assumes "(pool_step (\<lambda>m x m'. NewUserStack m = Inr (x, m')) UserStackManager_FreeUserStack)\<^sup>*\<^sup>*
      (UserStackManager_new, {#}) (us, users)"
    and "(pool_step (\<lambda>m x m'. \<exists>st st'. AllocateKernelStack m st = Some (Inr (x, m', st'))) FreeKernelStack)\<^sup>*\<^sup>*
      (KernelStackManager_new, {#}) (ks, kernels)"
  shows "(\<forall>b. count users b \<le> 1) \<and> (\<forall>x. count kernels x \<le> 1) \<and>
    (\<forall>b \<in># users. kUserStackMin < b \<and> unat b + unat kUserStackSize \<le> unat kUserStackMax \<and>
      (\<forall>b' \<in># users. b \<noteq> b' \<longrightarrow> unat b + unat kUserStackSize \<le> unat b' \<or> unat b' + unat kUserStackSize \<le> unat b)) \<and>
    (\<forall>x \<in># kernels. unat kKernelStackStart + 0x4000 \<le> unat x + 8 \<and> unat x + 8 < unat kKernelStackEnd \<and>
      (\<forall>x' \<in># kernels. x \<noteq> x' \<longrightarrow>
        unat x + 0x1000 \<le> unat x' - unat kKernelStackSize \<or> unat x' + 0x1000 \<le> unat x - unat kKernelStackSize))"
proof -
  have u: "count users b \<le> 1 \<and> (b \<in># users \<longrightarrow> (\<exists>i < 65535. b = user_slot i))" for b
    by (rule us.pool_distinct [OF assms(1)]) (simp_all add: UserStackManager_new_def user_issued_def)
  have k: "count kernels x \<le> 1 \<and> (x \<in># kernels \<longrightarrow> (\<exists>i < 16383. x = kernel_slot i))" for x
    by (rule ks.pool_distinct [OF assms(2)]) (simp_all add: KernelStackManager_new_def kernel_issued_def)
  have slots: "kUserStackMin < user_slot i \<and> unat (user_slot i) + unat kUserStackSize \<le> unat kUserStackMax" if "i < 65535" for i
    using unat_user_slot [of i] that
    by (simp add: word_less_nat_alt kUserStackMin_def kUserStackSize_def kUserStackMax_def)
  have apart: "unat (user_slot i) + unat kUserStackSize \<le> unat (user_slot j) \<or>
      unat (user_slot j) + unat kUserStackSize \<le> unat (user_slot i)" if "i < 65535" "j < 65535" "i \<noteq> j" for i j
    using unat_user_slot [of i] unat_user_slot [of j] that by (auto simp: kUserStackSize_def)
  have kslots: "unat kKernelStackStart + 0x4000 \<le> unat (kernel_slot i) + 8 \<and> unat (kernel_slot i) + 8 < unat kKernelStackEnd"
    if "i < 16383" for i
    using unat_kernel_slot [of i] that by (simp add: kKernelStackStart_def kKernelStackEnd_def)
  have kapart: "unat (kernel_slot i) + 0x1000 \<le> unat (kernel_slot j) - unat kKernelStackSize \<or>
      unat (kernel_slot j) + 0x1000 \<le> unat (kernel_slot i) - unat kKernelStackSize" if "i < 16383" "j < 16383" "i \<noteq> j" for i j
    using unat_kernel_slot [of i] unat_kernel_slot [of j] that
    by (auto simp: kKernelStackSize_def kPageSize_def)
  show ?thesis
  proof (intro conjI allI ballI impI)
    fix b assume "b \<in># users"
    then obtain i where i: "i < 65535" "b = user_slot i" using u by blast
    then show "kUserStackMin < b" "unat b + unat kUserStackSize \<le> unat kUserStackMax" using slots by auto
    fix b' assume b': "b' \<in># users" "b \<noteq> b'"
    then obtain j where "j < 65535" "b' = user_slot j" using u by blast
    with i b'(2) apart [of i j] show "unat b + unat kUserStackSize \<le> unat b' \<or> unat b' + unat kUserStackSize \<le> unat b"
      by auto
  next
    fix x assume "x \<in># kernels"
    then obtain i where i: "i < 16383" "x = kernel_slot i" using k by blast
    then show "unat kKernelStackStart + 0x4000 \<le> unat x + 8" "unat x + 8 < unat kKernelStackEnd" using kslots by auto
    fix x' assume x': "x' \<in># kernels" "x \<noteq> x'"
    then obtain j where "j < 16383" "x' = kernel_slot j" using k by blast
    with i x'(2) kapart [of i j]
    show "unat x + 0x1000 \<le> unat x' - unat kKernelStackSize \<or> unat x' + 0x1000 \<le> unat x - unat kKernelStackSize"
      by auto
  qed (use u k in blast)+
qed

theorem stacks_disjoint_witness:
  "\<exists>us users. (pool_step (\<lambda>m x m'. NewUserStack m = Inr (x, m')) UserStackManager_FreeUserStack)\<^sup>*\<^sup>*
      (UserStackManager_new, {#}) (us, users) \<and> users = {#0x7FFFFFF00000#} \<and> count users 0x7FFFFFF00000 \<le> 1"
proof -
  have "NewUserStack UserStackManager_new = Inr (0x7FFFFFF00000, UserStackManager_new\<lparr>us_next_stack := 0x7FFFFFF00000\<rparr>)"
    by (simp add: NewUserStack_def UserStackManager_new_def LinkedList_new_def LinkedList_empty_def
        kUserStackMax_def kUserStackSize_def kUserStackMin_def)
  then have r: "(pool_step (\<lambda>m x m'. NewUserStack m = Inr (x, m')) UserStackManager_FreeUserStack)\<^sup>*\<^sup>*
      (UserStackManager_new, {#}) (UserStackManager_new\<lparr>us_next_stack := 0x7FFFFFF00000\<rparr>, {#0x7FFFFFF00000#})"
    by (intro r_into_rtranclp pool_take)
  from stacks_disjoint [OF r rtranclp.rtrancl_refl] show ?thesis using r by auto
qed

section \<open>Placing a mapping\<close>

lemma align_loop_ends:
  assumes "aligned addr"
  shows "\<exists>r. align_loop align addr = Some r \<and> aligned r \<and> r AND (align - 1) = 0"
  using assms
proof (induction "if addr = 0 then 0 else 18446744073709551616 - unat addr" arbitrary: addr rule: less_induct)
  case less
  show ?case
  proof (cases "addr AND (align - 1) = 0")
    case True
    then show ?thesis using less.prems by (subst align_loop.simps) simp
  next
    case False
    then have nz: "addr \<noteq> 0" by auto
    have al: "aligned (addr + kPageSize)"
      using less.prems by (intro aligned_add) (simp_all add: aligned_def kPageSize_def take_bit_eq_mod)
    have "0x1000 dvd unat addr" using less.prems by (simp add: aligned_unat dvd_eq_mod_eq_0)
    then obtain q where "unat addr = 0x1000 * q" by (rule dvdE)
    then have le: "unat addr \<le> 18446744073709547520" using unat_lt_64 [of addr] by simp
    have "(if addr + kPageSize = 0 then 0 else 18446744073709551616 - unat (addr + kPageSize)) <
        (if addr = 0 then 0 else 18446744073709551616 - unat addr)"
    proof (cases "unat addr + 0x1000 < 18446744073709551616")
      case True
      then have "unat (addr + kPageSize) = unat addr + 0x1000" by (simp add: unat_add_noof kPageSize_def)
      then show ?thesis using nz True by auto
    next
      case False
      then have "unat addr = 18446744073709547520" using le by simp
      then have "addr = 18446744073709547520" by (auto dest: of_nat_unat_eq)
      then show ?thesis by (simp add: kPageSize_def)
    qed
    from less.hyps [OF this al] show ?thesis using False by (subst align_loop.simps) simp
  qed
qed

text \<open>For a power of two that is at least a page, the loop stops at the next multiple.\<close>

definition pad_to :: "nat \<Rightarrow> nat \<Rightarrow> nat" where
  "pad_to K n = (K - n mod K) mod K"

lemma pad_to_step:
  assumes "(0x1000 :: nat) dvd K" and "0x1000 dvd n" and "n mod K \<noteq> 0" and K: "0 < K"
  shows "0x1000 \<le> pad_to K n" and "pad_to K (n + 0x1000) = pad_to K n - 0x1000"
proof -
  have "0x1000 dvd K - n mod K" using assms(1,2) by (intro dvd_diff_nat dvd_mod)
  moreover have "n mod K < K" using K by simp
  ultimately have d: "0x1000 \<le> K - n mod K" by (intro dvd_imp_le) auto
  have pad: "pad_to K n = K - n mod K" using assms(3) K by (simp add: pad_to_def)
  then show "0x1000 \<le> pad_to K n" using d by simp
  have eq: "(n + 0x1000) mod K = (n mod K + 0x1000) mod K" by (simp add: mod_add_left_eq)
  show "pad_to K (n + 0x1000) = pad_to K n - 0x1000"
  proof (cases "n mod K + 0x1000 = K")
    case True
    then show ?thesis using pad unfolding pad_to_def eq by simp
  next
    case False
    then have "n mod K + 0x1000 < K" using d K by simp
    then show ?thesis using pad unfolding pad_to_def eq by simp
  qed
qed

lemma unat_power_u64: "k < 64 \<Longrightarrow> unat (2 ^ k :: u64) = 2 ^ k"
  using unat_of_nat_u64 [of "2 ^ k"] power_strict_increasing [of k 64 "2 :: nat"] by simp

lemma align_loop_power:
  assumes "aligned addr" and "12 \<le> k" and "k < 64" and "unat addr + pad_to (2 ^ k) (unat addr) < 18446744073709551616"
  shows "align_loop (2 ^ k) addr = Some (addr + of_nat (pad_to (2 ^ k) (unat addr)))"
  using assms
proof (induction "pad_to (2 ^ k) (unat addr)" arbitrary: addr rule: less_induct)
  case less
  let ?K = "2 ^ k :: nat" and ?n = "unat addr"
  have "unat (2 ^ k :: u64) = 2 ^ k" using less.prems(3) by (simp add: unat_power_u64)
  then have mask: "unat (addr AND (2 ^ k - 1)) = ?n mod ?K"
    by (simp add: mask_eq_exp_minus_1 [symmetric] take_bit_eq_mask [symmetric] take_bit_eq_mod unat_mod)
  show ?case
  proof (cases "?n mod ?K = 0")
    case True
    then have "addr AND (2 ^ k - 1) = 0" using mask by (simp add: unat_eq_zero)
    moreover have "pad_to ?K ?n = 0" using True by (simp add: pad_to_def)
    ultimately show ?thesis by (subst align_loop.simps) simp
  next
    case False
    have K: "0x1000 dvd ?K" using le_imp_power_dvd [OF less.prems(2), of "2 :: nat"] by simp
    have n: "0x1000 dvd ?n" using less.prems(1) by (simp add: aligned_unat dvd_eq_mod_eq_0)
    note pad = pad_to_step [OF K n False zero_less_power [OF zero_less_numeral]]
    have u: "unat (addr + kPageSize) = ?n + 0x1000"
      using pad(1) less.prems(4) by (simp add: unat_add_noof kPageSize_def)
    have al: "aligned (addr + kPageSize)"
      using less.prems by (intro aligned_add) (simp_all add: aligned_def kPageSize_def take_bit_eq_mod)
    have "align_loop (2 ^ k) (addr + kPageSize) =
        Some (addr + kPageSize + of_nat (pad_to ?K (unat (addr + kPageSize))))"
      using pad less.prems(2-4) u by (intro less.hyps al) simp_all
    moreover have "addr AND (2 ^ k - 1) \<noteq> 0" using False mask by (metis unat_0)
    moreover have "addr + kPageSize + of_nat (pad_to ?K ?n - 0x1000) = addr + of_nat (pad_to ?K ?n)"
      using pad(1) by (simp add: kPageSize_def of_nat_diff)
    ultimately show ?thesis using u pad(2) by (subst align_loop.simps) simp
  qed
qed

definition memmap_wf :: "AddressSpace \<Rightarrow> bool" where
  "memmap_wf a \<longleftrightarrow> aligned (as_next_memmap_addr a) \<and> 0x2000000000 \<le> as_next_memmap_addr a \<and>
     as_next_memmap_addr a < 0x3000000000"

lemma memmap_size:
  fixes sz :: u64
  assumes "sz \<noteq> 0" and "unat sz \<le> 0x4000000000000000"
  shows "unat (((sz - 1) AND NOT 0xFFF) + 0x1000) = (unat sz + 0xFFF) div 0x1000 * 0x1000"
proof -
  obtain n where n: "unat sz = Suc n" using assms(1) by (cases "unat sz") (auto simp: unat_eq_zero)
  then have "unat (sz - 1) = n" using assms(1) by (simp add: unat_minus_one)
  then have "unat (PageAlign (sz - 1)) = n div 0x1000 * 0x1000" by (simp add: unat_PageAlign)
  moreover have "(unat sz + 0xFFF) div 0x1000 = Suc (n div 0x1000)" using n by simp
  moreover have "n div 0x1000 * 0x1000 \<le> n" by (rule div_times_less_eq_dividend)
  ultimately show ?thesis using n assms(2) by (subst unat_add_noof) (simp_all add: page_simp)
qed

lemma pad_to_dvd: "0 < K \<Longrightarrow> K dvd n + pad_to K n" and pad_to_less: "0 < K \<Longrightarrow> pad_to K n < K"
proof -
  assume K: "0 < K"
  then show "pad_to K n < K" by (simp add: pad_to_def)
  have "(n + pad_to K n) mod K = (n mod K + (K - n mod K)) mod K"
    by (simp add: pad_to_def mod_add_left_eq mod_add_right_eq)
  also have "\<dots> = 0" using K by (simp add: less_imp_le)
  finally show "K dvd n + pad_to K n" by (simp add: dvd_eq_mod_eq_0)
qed



section \<open>Removing a range\<close>

lemma PageAlign_eq_iff: "PageAlign w = PageAlign v \<longleftrightarrow> unat w div 0x1000 = unat v div 0x1000"
proof -
  have "PageAlign w = PageAlign v \<longleftrightarrow> unat (PageAlign w) = unat (PageAlign v)" by (metis of_nat_unat_eq)
  then show ?thesis by (simp add: unat_PageAlign)
qed

lemma unmap_loop_unmaps:
  assumes "paging_inv cr3 st" and "vaddr_limit < 0x800000000000" and "unat addr \<le> 0x800000000000 + 0x1000"
  shows "\<exists>st'. unmap_loop cr3 addr vaddr_limit st = Some st' \<and> paging_inv cr3 st' \<and>
    (\<forall>w < 0x800000000000. translation cr3 w st' =
       (if unat addr div 0x1000 \<le> unat w div 0x1000 \<and>
           unat w div 0x1000 < unat addr div 0x1000 + (unat vaddr_limit - unat addr + 0xFFF) div 0x1000
        then None else translation cr3 w st))"
  using assms(1,3)
proof (induction "unat vaddr_limit - unat addr" arbitrary: addr st rule: less_induct)
  case less
  show ?case
  proof (cases "addr < vaddr_limit")
    case False
    then have "unat vaddr_limit - unat addr = 0" by (simp add: word_less_nat_alt)
    then show ?thesis using False less.prems by (subst unmap_loop.simps) auto
  next
    case True
    then have lt: "unat addr < unat vaddr_limit" "unat vaddr_limit < 0x800000000000" "addr < 0x800000000000"
      using assms(2) by (auto simp: word_less_nat_alt)
    then have u: "unat (addr + kPageSize) = unat addr + 0x1000"
      by (subst unat_add_noof) (simp_all add: kPageSize_def)
    note un = UnmapPage_unmaps [OF less.prems(1) lt(3)]
    have dec: "unat vaddr_limit - unat (addr + kPageSize) < unat vaddr_limit - unat addr"
      unfolding u using lt(1) by simp
    have le: "unat (addr + kPageSize) \<le> 0x800000000000 + 0x1000" using u lt by simp
    obtain st' where st': "unmap_loop cr3 (addr + kPageSize) vaddr_limit (UnmapPage cr3 addr st) = Some st'"
        "paging_inv cr3 st'" and tr: "\<And>w. w < 0x800000000000 \<Longrightarrow> translation cr3 w st' =
           (if (unat addr + 0x1000) div 0x1000 \<le> unat w div 0x1000 \<and>
               unat w div 0x1000 < (unat addr + 0x1000) div 0x1000 + (unat vaddr_limit - (unat addr + 0x1000) + 0xFFF) div 0x1000
            then None else translation cr3 w (UnmapPage cr3 addr st))"
      using less.hyps [OF dec un(1) le] unfolding u by blast
    obtain d where d: "unat vaddr_limit = Suc (unat addr + d)" using lt(1) less_iff_Suc_add by auto
    have n: "(unat vaddr_limit - (unat addr + 0x1000) + 0xFFF) div 0x1000 = d div 0x1000"
        "(unat vaddr_limit - unat addr + 0xFFF) div 0x1000 = Suc (d div 0x1000)"
    proof -
      show "(unat vaddr_limit - unat addr + 0xFFF) div 0x1000 = Suc (d div 0x1000)" using d by simp
      show "(unat vaddr_limit - (unat addr + 0x1000) + 0xFFF) div 0x1000 = d div 0x1000"
      proof (cases "d < 0x1000")
        case False
        then have "unat vaddr_limit - (unat addr + 0x1000) + 0xFFF = d" using d by simp
        then show ?thesis by simp
      qed (use d in simp)
    qed
    have "unmap_loop cr3 addr vaddr_limit st = Some st'" using True st'(1) by (subst unmap_loop.simps) simp
    with st'(2) tr un(2) show ?thesis unfolding n by (auto simp: PageAlign_eq_iff)
  qed
qed

lemma range_pages:
  fixes b l w :: nat
  assumes "b < l"
  shows "b div 0x1000 \<le> w \<and> w < b div 0x1000 + (l - b + 0xFFF) div 0x1000 \<or> w = l div 0x1000 \<longleftrightarrow>
    b div 0x1000 \<le> w \<and> w \<le> l div 0x1000"
proof -
  obtain d where d: "l = Suc (b + d)" using assms less_iff_Suc_add by auto
  have n: "(l - b + 0xFFF) div 0x1000 = Suc (d div 0x1000)" using d by simp
  define q r where "q = b div 0x1000 + d div 0x1000" and "r = Suc (b mod 0x1000 + d mod 0x1000)"
  have "l = q * 0x1000 + r" unfolding d q_def r_def by (simp add: algebra_simps)
  moreover have "r < 2 * 0x1000" unfolding r_def using mod_less_divisor [of "0x1000" b] mod_less_divisor [of "0x1000" d] by linarith
  then have "r div 0x1000 \<le> 1" by (simp add: less_mult_imp_div_less less_Suc_eq_le [symmetric])
  ultimately have "q \<le> l div 0x1000" "l div 0x1000 \<le> Suc q" by simp_all
  then show ?thesis unfolding n q_def by auto
qed

text \<open>
  C22.  Unmapping.  For a range below the end of user space \<open>FreeAddressRange\<close> returns.  If the
  mapping tree refuses the range the page tables are left alone.  Otherwise, for a live process,
  every page from the one of the base to the one of the limit, included, is removed from the page
  tables, and every other translation of user space is kept.  For a dying process the page tables
  are left alone too.
\<close>

theorem FreeAddressRange_unmaps:
  assumes "paging_inv (as_cr3 a) st" and "mt_entries objs (as_mapping_tree a) es" and "vaddr_limit < kUserSpaceMax"
  shows "\<exists>e a' st'. FreeAddressRange vaddr_base vaddr_limit is_dying_proc a st = Some (e, a', st') \<and>
    paging_inv (as_cr3 a) st' \<and> (\<exists>es'. mt_entries objs (as_mapping_tree a') es') \<and>
    FreeMemoryRange vaddr_base vaddr_limit (as_mapping_tree a) = Some (e, as_mapping_tree a') \<and>
    (if e \<noteq> OK \<or> is_dying_proc then st' = st
     else \<forall>w < kUserSpaceMax. translation (as_cr3 a) w st' =
       (if unat vaddr_base div 0x1000 \<le> unat w div 0x1000 \<and> unat w div 0x1000 \<le> unat vaddr_limit div 0x1000
        then None else translation (as_cr3 a) w st))"
proof -
  let ?cr3 = "as_cr3 a" and ?b = "unat vaddr_base" and ?l = "unat vaddr_limit"
  obtain e t' es' where t': "FreeMemoryRange vaddr_base vaddr_limit (as_mapping_tree a) = Some (e, t')"
      "mt_entries objs t' es'" and e: "e = OK \<Longrightarrow> vaddr_base < vaddr_limit"
    using FreeMemoryRange_ok [OF assms(2), of vaddr_limit vaddr_base] assms(2) by (fastforce split: if_splits)
  show ?thesis
  proof (cases "e \<noteq> OK \<or> is_dying_proc")
    case True
    then show ?thesis using t' assms(1) by (auto simp: FreeAddressRange_def Let_def)
  next
    case False
    then have lt: "?b < ?l" "?l < 0x800000000000" using e assms(3) by (auto simp: word_less_nat_alt kUserSpaceMax_def)
    have lim: "vaddr_limit < 0x800000000000" using assms(3) by (simp add: kUserSpaceMax_def)
    obtain st1 where st1: "unmap_loop ?cr3 vaddr_base vaddr_limit st = Some st1" "paging_inv ?cr3 st1"
        "\<And>w. w < 0x800000000000 \<Longrightarrow> translation ?cr3 w st1 =
           (if ?b div 0x1000 \<le> unat w div 0x1000 \<and> unat w div 0x1000 < ?b div 0x1000 + (?l - ?b + 0xFFF) div 0x1000
            then None else translation ?cr3 w st)"
      using unmap_loop_unmaps [OF assms(1) lim, of vaddr_base] lt by auto
    note un = UnmapPage_unmaps [OF st1(2) lim]
    have "translation ?cr3 w (UnmapPage ?cr3 vaddr_limit st1) =
        (if ?b div 0x1000 \<le> unat w div 0x1000 \<and> unat w div 0x1000 \<le> ?l div 0x1000
         then None else translation ?cr3 w st)" if "w < kUserSpaceMax" for w
      using un(2) [of w] st1(3) [of w] that range_pages [OF lt(1), of "unat w div 0x1000"]
      by (auto simp: kUserSpaceMax_def PageAlign_eq_iff)
    then show ?thesis using False t' st1(1) un(1) by (auto simp: FreeAddressRange_def Let_def)
  qed
qed

theorem FreeAddressRange_unmaps_witness:
  "\<exists>a' st'. FreeAddressRange 0x400000 0x402000 False (AddressSpace_of_cr3 0x100000) machine_example = Some (OK, a', st') \<and>
     translation 0x100000 0x402123 st' = None"
proof -
  have cr3: "as_cr3 (AddressSpace_of_cr3 0x100000) = 0x100000"
    "as_mapping_tree (AddressSpace_of_cr3 0x100000) = BinaryTree_new" by (simp_all add: AddressSpace_of_cr3_def)
  have ok: "\<exists>t. FreeMemoryRange 0x400000 0x402000 BinaryTree_new = Some (OK, t)"
    using FreeMemoryRange_ok [OF mt_entries_new [of "\<lambda>_. ViewMemoryObject 0 0"], of "0x402000" "0x400000"]
    by (auto simp: range_straddled_def)
  have e: "mt_entries (\<lambda>_. ViewMemoryObject 0 0) (as_mapping_tree (AddressSpace_of_cr3 0x100000)) []"
    unfolding cr3 by (rule mt_entries_new)
  from FreeAddressRange_unmaps [OF _ e, of machine_example "0x402000" "0x400000" False] ok
  obtain a' st' where "FreeAddressRange 0x400000 0x402000 False (AddressSpace_of_cr3 0x100000) machine_example = Some (OK, a', st')"
    "\<And>w. w < kUserSpaceMax \<Longrightarrow> 0x400 \<le> unat w div 0x1000 \<Longrightarrow> unat w div 0x1000 \<le> 0x402 \<Longrightarrow> translation 0x100000 w st' = None"
    by (auto simp: cr3 machine_example_inv kUserSpaceMax_def)
  from this(1) this(2) [of "0x402123"] show ?thesis by (auto simp: kUserSpaceMax_def)
qed

section \<open>Page faults\<close>

lemma phys_free_mc: "phys_free (mc_phys st) = mc_free st"
  by (simp add: phys_free_def mc_free_def)

lemma pt_wf_subset: "pt_wf m h cr3 F \<Longrightarrow> F' \<subseteq> F \<Longrightarrow> pt_wf m h cr3 F'"
  unfolding pt_wf_def by blast

lemma paging_inv_phys:
  assumes "paging_inv cr3 st" and "phys_inv s" and "phys_free s \<subseteq># mc_free st"
  shows "paging_inv cr3 (st\<lparr>mc_phys := s\<rparr>)"
proof -
  have f: "mc_free (st\<lparr>mc_phys := s\<rparr>) = phys_free s" by (simp add: mc_free_def phys_free_def)
  have "pt_wf (mc_mem st) (mc_hhdm st) cr3 (set_mset (phys_free s))"
    by (rule pt_wf_subset [OF paging_invD(3) [OF assms(1)] set_mset_mono [OF assms(3)]])
  then show ?thesis using assms(2) unfolding paging_inv_def f by (simp add: phys_inv_def)
qed

lemma phys_inv_subset:
  assumes "paging_inv cr3 st" and "phys_inv s" and "mc_free st \<subseteq># phys_free s"
  shows "phys_inv (mc_phys st)"
  using assms mset_subset_eqD [OF assms(3), of 0]
  by (auto simp: phys_inv_def phys_free_mc paging_inv_def)

lemma PageNumberToPhysAddr_free:
  assumes "unat i < length ps" and "ps ! unat i \<noteq> 0 \<Longrightarrow> f = ps ! unat i" and "f \<noteq> 0"
    and "pages_held (ps[unat i := f]) + phys_free s' = pages_held ps + phys_free s"
  shows "phys_free s' \<subseteq># phys_free s \<and> (ps ! unat i = 0 \<longrightarrow> f \<in># phys_free s)"
proof (cases "ps ! unat i = 0")
  case True
  then have "phys_free s = add_mset f (phys_free s')"
    using assms(4) pages_held_update [OF assms(1) True assms(3)] by simp
  then show ?thesis by simp
next
  case False
  then show ?thesis using assms(2,4) by auto
qed

lemma HandlePageFault_refuses:
  assumes "mt_entries objs (as_mapping_tree a) es" and "v < kUserSpaceMax" and "v < kPageSize \<or> mt_lookup es v = None"
  shows "HandlePageFault v a objs st = Some (Inr (False, objs, st))"
proof (cases "v < kPageSize")
  case False
  have "v < 0xFFFFFFFFFFFFFFFF"
    using assms(2) by (rule less_trans) (simp add: kUserSpaceMax_def)
  from GetMemoryMappingForAddr_ok [OF assms(1) this] show ?thesis
    using False assms(3) by (simp add: HandlePageFault_def GetPhysicalPageAtVaddr_def)
qed (simp add: HandlePageFault_def)

text \<open>The page that an address of a mapping has in its object.\<close>

lemma mapping_page:
  assumes "mt_entries objs t es" and "mt_lookup es v = Some mm" and "objs (mm_object mm) = vmo ps"
    and "length ps < 0x10000000000000"
  shows "unat (v - mm_base mm) < 0x1000 * length ps"
proof -
  obtain k where k: "(k, mm) \<in> set es" "k \<le> v" "v < mm_limit mm" using mt_lookup_Some [OF assms(2)] by blast
  then have wf: "mapping_wf objs (k, mm)" using assms(1) by (auto simp: mt_entries_def)
  have "unat (of_nat (0x1000 * length ps) :: u64) = 0x1000 * length ps"
    using assms(4) by (intro unat_of_nat_u64) simp
  then have sz: "unat (MemoryObject_size (objs (mm_object mm))) = 0x1000 * length ps"
    unfolding assms(3) by (simp add: vmo_def)
  have "unat v < unat k + 0x1000 * length ps"
    using k(3) mapping_wf_limit [OF wf] sz by (simp add: word_less_nat_alt)
  moreover have "unat (v - mm_base mm) = unat v - unat k"
    using wf k(2) by (simp add: mapping_wf_def unat_sub_le)
  ultimately show ?thesis using k(2) by (simp add: word_le_nat_alt)
qed

text \<open>
  C12.  A page fault at an address of a mapped variable memory object, whose page is not in the
  page tables, is handled: with four free frames (a page and three tables) \<open>HandlePageFault\<close>
  returns true, the page of the address translates to the frame that the object records for it,
  no other translation of user space changes, an existing page of the object is reused and a
  missing one comes from the free frames, and the invariants of paging, object and allocator hold
  again.
\<close>

theorem HandlePageFault_resolves:
  assumes "paging_inv (as_cr3 a) st" and "mt_entries objs (as_mapping_tree a) es"
    and "kPageSize \<le> v" and "v < kUserSpaceMax" and "mt_lookup es v = Some mm"
    and "objs (mm_object mm) = vmo ps" and "vmo_inv ps (mc_phys st)"
    and "translation (as_cr3 a) v st = None" and "4 \<le> size (mc_free st)"
  shows "\<exists>f st'. let i = unat (v - mm_base mm) div 0x1000; ps' = ps[i := f] in
     HandlePageFault v a objs st = Some (Inr (True, objs(mm_object mm := vmo ps'), st')) \<and>
     paging_inv (as_cr3 a) st' \<and> vmo_inv ps' (mc_phys st') \<and> i < length ps \<and>
     (if ps ! i = 0 then f \<in># mc_free st else f = ps ! i) \<and>
     (\<forall>w < kUserSpaceMax. translation (as_cr3 a) w st' =
        (if PageAlign w = PageAlign v then Some (PageAlign f) else translation (as_cr3 a) w st))"
proof -
  let ?cr3 = "as_cr3 a" and ?o = "v - mm_base mm" and ?i = "unat (v - mm_base mm) div 0x1000"
  have len: "length ps < 0x10000000000000" using assms(7) by (simp add: vmo_inv_def)
  have off: "unat ?o < 0x1000 * length ps" by (rule mapping_page [OF assms(2,5,6) len])
  have pg: "unat (?o div 0x1000) = ?i" by (simp add: unat_div)
  have i: "unat (?o div 0x1000) < length ps" unfolding pg using off by (simp add: less_mult_imp_div_less mult.commute)
  have ne: "ps ! unat (?o div 0x1000) \<noteq> 0 \<or> phys_free (mc_phys st) \<noteq> {#}" using assms(9) by (auto simp: phys_free_mc)
  obtain f s' where f: "PageNumberToPhysAddr (?o div 0x1000) (vmo ps) (mc_phys st) = Inr (f, vmo (ps[?i := f]), s')"
      "f \<noteq> 0" "vmo_inv (ps[?i := f]) s'" "ps ! ?i \<noteq> 0 \<Longrightarrow> f = ps ! ?i"
      "pages_held (ps[?i := f]) + phys_free s' = pages_held ps + phys_free (mc_phys st)"
      "size (phys_free s') = (if ps ! ?i = 0 then size (mc_free st) - 1 else size (mc_free st))"
    by (rule PageNumberToPhysAddr_ok [OF assms(7) i ne, unfolded pg phys_free_mc]) (rule that, simp_all add: phys_free_mc)
  have sub: "phys_free s' \<subseteq># mc_free st" and new: "ps ! ?i = 0 \<Longrightarrow> f \<in># mc_free st"
    using PageNumberToPhysAddr_free [OF i, unfolded pg, OF f(4) f(2,5)] by (simp_all add: phys_free_mc)
  let ?st = "st\<lparr>mc_phys := s'\<rparr>"
  have inv: "paging_inv ?cr3 ?st" using f(3) by (intro paging_inv_phys [OF assms(1) _ sub]) (simp add: vmo_inv_def)
  have free: "mc_free ?st = phys_free s'" by (simp add: mc_free_def phys_free_def)
  have tr: "translation ?cr3 w ?st = translation ?cr3 w st" for w by (simp add: translation_def)
  have v: "v < 0x800000000000" using assms(4) by (simp add: kUserSpaceMax_def)
  have three: "3 \<le> size (mc_free ?st)" unfolding free f(6) using assms(9) by auto
  have none: "translation ?cr3 v ?st = None" unfolding tr by (rule assms(8))
  obtain st' where st': "MapPage ?cr3 v f ?st = Inr st'" "paging_inv ?cr3 st'" "mc_free st' \<subseteq># phys_free s'"
      "\<And>w. w < 0x800000000000 \<Longrightarrow> translation ?cr3 w st' =
         (if PageAlign w = PageAlign v then Some (PageAlign f) else translation ?cr3 w st)"
    by (rule MapPage_maps [OF inv three v none, of f, unfolded tr free]) (rule that)
  have "vmo_inv (ps[?i := f]) (mc_phys st')"
    using f(3) phys_inv_subset [OF st'(2) _ st'(3)] st'(3)
    by (auto simp: vmo_inv_def phys_free_mc dest: mset_subset_eqD)
  moreover have "HandlePageFault v a objs st = Some (Inr (True, objs(mm_object mm := vmo (ps[?i := f])), st'))"
  proof -
    have "v < 0xFFFFFFFFFFFFFFFF" using v by (rule less_trans) simp
    moreover have "\<not> ?o > MemoryObject_size (vmo ps)"
    proof -
      have "unat (of_nat (0x1000 * length ps) :: u64) = 0x1000 * length ps" using len by (intro unat_of_nat_u64) simp
      then show ?thesis using off by (simp add: vmo_def word_less_nat_alt)
    qed
    ultimately show ?thesis
      using f(1) st'(1) assms(3,6) GetMemoryMappingForAddr_ok [OF assms(2), of v] assms(5)
      by (simp add: HandlePageFault_def GetPhysicalPageAtVaddr_def PhysicalPageAtOffset_def not_less)
  qed
  ultimately show ?thesis
    using st'(2,4) i f(4) new unfolding pg
    by (intro exI [of _ f] exI [of _ st']) (simp add: Let_def kUserSpaceMax_def)
qed

text \<open>A machine with an empty table and four free frames, and a one-page object at 4 MiB.\<close>

definition fault_machine :: Machine where
  "fault_machine = machine_example\<lparr>mc_phys := PhysMem_boot\<lparr>gPmm := Some (AddMemoryRegion 0x101000 4 Pmm_empty)\<rparr>\<rparr>"

lemma fault_machine_free: "mc_free fault_machine = {#0x101000, 0x102000, 0x103000, 0x104000#}"
proof -
  have "[0..<4] = [0, 1, 2, 3 :: nat]" by (simp add: upt_rec)
  then have "frames 0x101000 4 = [0x101000, 0x102000, 0x103000, 0x104000]" by (simp add: frames_def kPageSize_def)
  then show ?thesis
    by (simp add: mc_free_def fault_machine_def free_frames_def AddMemoryRegion_def Pmm_empty_def
        LinkedList_new_def LinkedList_PushFront_def block_frames_def)
qed

lemma fault_machine_inv: "paging_inv 0x100000 fault_machine" "phys_inv (mc_phys fault_machine)"
proof -
  have p: "pmm_inv (AddMemoryRegion 0x101000 4 Pmm_empty)"
    by (simp add: pmm_inv_def AddMemoryRegion_def Pmm_empty_def ll_inv_PushFront)
  moreover have "pt_wf (\<lambda>_. 0) 0xFFFF800000000000 0x100000 {0x101000, 0x102000, 0x103000, 0x104000}"
    by (rule pt_wf_empty) (simp_all add: aligned_def take_bit_eq_mod)
  ultimately show "paging_inv 0x100000 fault_machine"
    unfolding paging_inv_def fault_machine_free by (simp add: fault_machine_def machine_example_def)
  show "phys_inv (mc_phys fault_machine)"
    unfolding phys_inv_def phys_free_mc fault_machine_free using p by (simp add: fault_machine_def)
qed

theorem HandlePageFault_resolves_witness:
  "\<exists>a objs f st'. HandlePageFault 0x400123 a objs fault_machine = Some (Inr (True, objs(7 := vmo [f]), st')) \<and>
     f \<in> {0x101000, 0x102000, 0x103000, 0x104000} \<and> translation 0x100000 0x400FFF st' = Some (PageAlign f)"
proof -
  let ?objs = "\<lambda>_ :: nat. vmo [0]" and ?mm = "\<lparr>mm_base = 0x400000, mm_limit = 0x401000, mm_object = 7\<rparr>"
  have sz: "MemoryObject_size (vmo [0]) = 0x1000" by (simp add: vmo_def)
  obtain t where t: "mt_entries ?objs t (ins_entry 0x400000 ?mm [])"
    using AddInMemoryObject_ok [OF mt_entries_new, of "0x400000" ?objs 7] by (auto simp: sz range_taken_def)
  define a where "a = (AddressSpace_of_cr3 0x100000)\<lparr>as_mapping_tree := t\<rparr>"
  have a: "as_cr3 a = 0x100000" "as_mapping_tree a = t" by (simp_all add: a_def AddressSpace_of_cr3_def)
  have none: "translation 0x100000 0x400123 fault_machine = None"
    by (simp add: translation_def fault_machine_def machine_example_def vpath_def present_def)
  have look: "mt_lookup (ins_entry 0x400000 ?mm []) 0x400123 = Some ?mm"
    using mt_lookup_insert [OF t] by simp
  have v: "vmo_inv [0] (mc_phys fault_machine)"
    using fault_machine_inv(2) by (simp add: vmo_inv_def phys_inv_def)
  obtain f st' where "HandlePageFault 0x400123 a ?objs fault_machine = Some (Inr (True, ?objs(7 := vmo [f]), st'))"
      "f \<in># mc_free fault_machine" "\<And>w. w < kUserSpaceMax \<Longrightarrow> PageAlign w = PageAlign 0x400123 \<Longrightarrow>
         translation 0x100000 w st' = Some (PageAlign f)"
    using HandlePageFault_resolves [of a fault_machine ?objs "ins_entry 0x400000 ?mm []" "0x400123" ?mm "[0]",
        unfolded a, OF fault_machine_inv(1) t _ _ look _ v none]
    by (auto simp: kPageSize_def kUserSpaceMax_def fault_machine_free Let_def)
  from this(1,2) this(3) [of "0x400FFF"] show ?thesis
    by (intro exI [of _ a] exI [of _ ?objs] exI [of _ f] exI [of _ st'])
       (simp add: PageAlign_eq_iff kUserSpaceMax_def fault_machine_free)
qed

end
