(* ===== verification/Zion_Capability.thy ===== *)
theory Zion_Capability
  imports Glcr_HashMap
begin

text \<open>
  Kernel object references, capabilities and the capability table of a process
  (\<open>zion/object/kernel_object.h\<close>, \<open>zion/capability/capability.h\<close>,
  \<open>zion/capability/capability_table.h\<close>, \<open>zion/capability/capability_table.cpp\<close>,
  the permissions of \<open>zion/include/ztypes.h\<close>).

  A pointer to a kernel object is its dynamic type and its identity.  A pointer to a capability is
  \<open>None\<close> when it is null.  The table is the verified hash map of glacier with the counter of the
  next id; its mutex only serialises its operations, which are one step each here.
\<close>

section \<open>Kernel objects and permissions\<close>

datatype ObjectType =
    INVALID | PROCESS | THREAD | ADDRESS_SPACE | MEMORY_OBJECT | CHANNEL | PORT | ENDPOINT | REPLY_PORT | MUTEX | SEMAPHORE

fun ObjectType_value :: "ObjectType \<Rightarrow> u64" where
  "ObjectType_value INVALID = 0x0"
| "ObjectType_value PROCESS = 0x1"
| "ObjectType_value THREAD = 0x2"
| "ObjectType_value ADDRESS_SPACE = 0x3"
| "ObjectType_value MEMORY_OBJECT = 0x4"
| "ObjectType_value CHANNEL = 0x5"
| "ObjectType_value PORT = 0x6"
| "ObjectType_value ENDPOINT = 0x7"
| "ObjectType_value REPLY_PORT = 0x8"
| "ObjectType_value MUTEX = 0x9"
| "ObjectType_value SEMAPHORE = 0x10"

record KernelObject =
  ob_type :: ObjectType
  ob_ref :: nat

definition TypeTag :: "KernelObject \<Rightarrow> u64" where
  "TypeTag ob = ObjectType_value (ob_type ob)"

definition kZionPerm_Write :: u64 where "kZionPerm_Write = 0x1"

definition kZionPerm_Read :: u64 where "kZionPerm_Read = 0x2"

definition kZionPerm_Transmit :: u64 where "kZionPerm_Transmit = 0x10"

definition kZionPerm_Duplicate :: u64 where "kZionPerm_Duplicate = 0x20"

definition kZionPerm_SpawnProcess :: u64 where "kZionPerm_SpawnProcess = 0x100"

definition kZionPerm_SpawnThread :: u64 where "kZionPerm_SpawnThread = 0x200"

definition kZionPerm_Lock :: u64 where "kZionPerm_Lock = 0x100"

definition kZionPerm_Release :: u64 where "kZionPerm_Release = 0x200"

definition kZionPerm_Wait :: u64 where "kZionPerm_Wait = 0x100"

definition kZionPerm_Signal :: u64 where "kZionPerm_Signal = 0x200"

definition Channel_DefaultPermissions :: u64 where
  "Channel_DefaultPermissions = kZionPerm_Read OR kZionPerm_Write OR kZionPerm_Duplicate OR kZionPerm_Transmit"

definition Endpoint_DefaultPermissions :: u64 where
  "Endpoint_DefaultPermissions = kZionPerm_Read OR kZionPerm_Write OR kZionPerm_Duplicate OR kZionPerm_Transmit"

definition Port_DefaultPermissions :: u64 where
  "Port_DefaultPermissions = kZionPerm_Write OR kZionPerm_Read OR kZionPerm_Duplicate OR kZionPerm_Transmit"

definition Mutex_DefaultPermissions :: u64 where
  "Mutex_DefaultPermissions = kZionPerm_Lock OR kZionPerm_Release"

definition Semaphore_DefaultPermissions :: u64 where
  "Semaphore_DefaultPermissions = kZionPerm_Wait OR kZionPerm_Signal"

definition Thread_DefaultPermissions :: u64 where
  "Thread_DefaultPermissions = kZionPerm_Read OR kZionPerm_Write"

definition Process_DefaultPermissions :: u64 where
  "Process_DefaultPermissions = kZionPerm_Write OR kZionPerm_Read OR kZionPerm_SpawnThread OR
     kZionPerm_SpawnProcess OR kZionPerm_Duplicate OR kZionPerm_Transmit"

section \<open>Capabilities\<close>

record Capability =
  cap_obj :: KernelObject
  cap_permissions :: u64

definition HasPermissions :: "Capability \<Rightarrow> u64 \<Rightarrow> bool" where
  "HasPermissions cap requested \<longleftrightarrow> cap_permissions cap AND requested = requested"

text \<open>\<open>obj<T>\<close>: the object behind a capability, with its type checked.\<close>

definition Capability_obj :: "ObjectType \<Rightarrow> Capability \<Rightarrow> nat run" where
  "Capability_obj T cap =
     (if TypeTag (cap_obj cap) \<noteq> ObjectType_value T then Inl (Panic ''Unhandled obj type mismatch'')
      else Inr (ob_ref (cap_obj cap)))"

definition ValidateCapability :: "ObjectType \<Rightarrow> Capability option \<Rightarrow> u64 \<Rightarrow> ErrorCode" where
  "ValidateCapability T cap permissions =
     (case cap of
        None \<Rightarrow> CAP_NOT_FOUND
      | Some cap \<Rightarrow>
          if TypeTag (cap_obj cap) \<noteq> ObjectType_value T then CAP_WRONG_TYPE
          else if \<not> HasPermissions cap permissions then CAP_PERMISSION_DENIED
          else OK)"

section \<open>The table\<close>

record CapabilityTable =
  ct_next_cap_id :: u64
  ct_capabilities :: "(u64, Capability option) HashMap"

definition CapabilityTable_new :: CapabilityTable where
  "CapabilityTable_new = \<lparr>ct_next_cap_id = 0x100, ct_capabilities = HashMap_new\<rparr>"

definition AddNewCapability :: "KernelObject \<Rightarrow> u64 \<Rightarrow> CapabilityTable \<Rightarrow> (u64 \<times> CapabilityTable) run" where
  "AddNewCapability ob permissions t =
     (let cid = ct_next_cap_id t
      in run_bind (HashMap_Insert Hash_u64 cid (Some \<lparr>cap_obj = ob, cap_permissions = permissions\<rparr>) (ct_capabilities t)) (\<lambda>(e, m).
         if e \<noteq> OK then Inl (Panic ''Reusing capability id {}'')
         else Inr (cid, t\<lparr>ct_next_cap_id := cid + 1, ct_capabilities := m\<rparr>)))"

definition AddExistingCapability :: "Capability option \<Rightarrow> CapabilityTable \<Rightarrow> (u64 \<times> CapabilityTable) run" where
  "AddExistingCapability cap t =
     (let cid = ct_next_cap_id t
      in run_bind (HashMap_Insert Hash_u64 cid cap (ct_capabilities t)) (\<lambda>(e, m).
         if e \<noteq> OK then Inl (Panic ''Reusing capability id.'')
         else Inr (cid, t\<lparr>ct_next_cap_id := cid + 1, ct_capabilities := m\<rparr>)))"

definition GetCapability :: "u64 \<Rightarrow> CapabilityTable \<Rightarrow> (Capability option \<times> CapabilityTable) run" where
  "GetCapability cid t =
     run_bind (HashMap_Contains Hash_u64 cid (ct_capabilities t)) (\<lambda>b.
     if \<not> b then Inr (None, t)
     else run_map (\<lambda>(cap, m). (cap, t\<lparr>ct_capabilities := m\<rparr>)) (HashMap_at Hash_u64 None cid (ct_capabilities t)))"

definition ReleaseCapability :: "u64 \<Rightarrow> CapabilityTable \<Rightarrow> (Capability option \<times> CapabilityTable) run" where
  "ReleaseCapability cid t =
     run_bind (HashMap_Contains Hash_u64 cid (ct_capabilities t)) (\<lambda>b.
     if \<not> b then Inr (None, t)
     else run_bind (HashMap_at Hash_u64 None cid (ct_capabilities t)) (\<lambda>(cap, m).
          run_map (\<lambda>(_, m). (cap, t\<lparr>ct_capabilities := m\<rparr>)) (HashMap_Delete Hash_u64 cid m)))"

text \<open>The loop over all ids given out so far; the final size is only reported on the console.\<close>

definition CapabilityTable_ReleaseAll :: "CapabilityTable \<Rightarrow> CapabilityTable run" where
  "CapabilityTable_ReleaseAll t =
     run_map (\<lambda>m. t\<lparr>ct_capabilities := m\<rparr>)
       (delete_each (HashMap_Delete Hash_u64) (map of_nat [0..<unat (ct_next_cap_id t)]) (ct_capabilities t))"

section \<open>The table as a finite map\<close>

definition ct_lookup :: "CapabilityTable \<Rightarrow> u64 \<rightharpoonup> Capability" where
  "ct_lookup t cid = (case hm_lookup Hash_u64 (ct_capabilities t) cid of Some cap \<Rightarrow> cap | None \<Rightarrow> None)"

text \<open>The number of ids given out so far.\<close>

definition ct_given :: "CapabilityTable \<Rightarrow> nat" where
  "ct_given t = unat (ct_next_cap_id t) - 0x100"

definition ct_inv :: "CapabilityTable \<Rightarrow> bool" where
  "ct_inv t \<longleftrightarrow> 0x100 \<le> unat (ct_next_cap_id t) \<and> hm_inv Hash_u64 (ct_given t) (ct_capabilities t) \<and>
     (\<forall>cid cap. hm_lookup Hash_u64 (ct_capabilities t) cid = Some cap \<longrightarrow> cap \<noteq> None \<and> 0x100 \<le> cid \<and> cid < ct_next_cap_id t)"

definition ct_used :: "CapabilityTable \<Rightarrow> bool" where
  "ct_used t \<longleftrightarrow> hm_used (ct_capabilities t)"

lemma ct_lookup_hm: "ct_inv t \<Longrightarrow> hm_lookup Hash_u64 (ct_capabilities t) cid = map_option Some (ct_lookup t cid)"
  by (fastforce simp: ct_inv_def ct_lookup_def split: option.splits)

lemma ct_lookup_range: "ct_inv t \<Longrightarrow> ct_lookup t cid = Some cap \<Longrightarrow> 0x100 \<le> cid \<and> cid < ct_next_cap_id t"
  by (auto simp: ct_inv_def ct_lookup_def split: option.splits)

lemma CapabilityTable_new_ok [simp]: "ct_inv CapabilityTable_new" "ct_lookup CapabilityTable_new = Map.empty"
  "ct_given CapabilityTable_new = 0"
  by (auto simp: ct_inv_def CapabilityTable_new_def ct_lookup_def ct_given_def)

lemma GetCapability_ok:
  assumes "ct_inv t"
  shows "GetCapability cid t = Inr (ct_lookup t cid, t)"
proof -
  have inv: "hm_inv Hash_u64 (ct_given t) (ct_capabilities t)" using assms by (simp add: ct_inv_def)
  show ?thesis
  proof (cases "ct_lookup t cid")
    case None
    then show ?thesis using ct_lookup_hm [OF assms, of cid] by (simp add: GetCapability_def hm.contains_ok [OF inv])
  next
    case (Some cap)
    then have "hm_lookup Hash_u64 (ct_capabilities t) cid = Some (Some cap)" using ct_lookup_hm [OF assms, of cid] by simp
    then show ?thesis using Some hm.get_ok [OF inv, of cid "Some cap" None]
      by (simp add: GetCapability_def hm.contains_ok [OF inv])
  qed
qed

lemma insert_capability:
  assumes "ct_inv t" and "ct_given t < hm_limit"
  shows "\<exists>m. HashMap_Insert Hash_u64 (ct_next_cap_id t) (Some cap) (ct_capabilities t) = Inr (OK, m) \<and>
    (let t' = t\<lparr>ct_next_cap_id := ct_next_cap_id t + 1, ct_capabilities := m\<rparr> in
     ct_inv t' \<and> ct_lookup t' = (ct_lookup t)(ct_next_cap_id t \<mapsto> cap) \<and> ct_given t' = Suc (ct_given t) \<and> ct_used t')"
proof -
  have inv: "hm_inv Hash_u64 (ct_given t) (ct_capabilities t)" using assms(1) by (simp add: ct_inv_def)
  have "unat (ct_next_cap_id t) < 18446744073709551615"
    using assms by (simp add: ct_given_def hm_limit_def ct_inv_def)
  then have nxt: "unat (ct_next_cap_id t + 1) = Suc (unat (ct_next_cap_id t))"
    by (subst unat_add_noof) simp_all
  have "hm_lookup Hash_u64 (ct_capabilities t) (ct_next_cap_id t) = None"
    using assms(1) by (cases "hm_lookup Hash_u64 (ct_capabilities t) (ct_next_cap_id t)") (auto simp: ct_inv_def)
  then obtain m where m: "HashMap_Insert Hash_u64 (ct_next_cap_id t) (Some cap) (ct_capabilities t) = Inr (OK, m)"
      "hm_inv Hash_u64 (Suc (ct_given t)) m"
      "hm_lookup Hash_u64 m = (hm_lookup Hash_u64 (ct_capabilities t))(ct_next_cap_id t \<mapsto> Some cap)" "hm_used m"
    using hm.insert_fresh [OF inv assms(2)] by blast
  let ?t = "t\<lparr>ct_next_cap_id := ct_next_cap_id t + 1, ct_capabilities := m\<rparr>"
  have given: "ct_given ?t = Suc (ct_given t)" using assms(1) nxt by (auto simp: ct_given_def ct_inv_def)
  then have "ct_inv ?t" using assms(1) m(2,3) nxt by (auto simp: ct_inv_def word_less_unat word_le_unat less_Suc_eq split: if_splits)
  then show ?thesis using m given by (auto simp: ct_lookup_def ct_used_def fun_eq_iff)
qed

lemma AddNewCapability_ok:
  assumes "ct_inv t" and "ct_given t < hm_limit"
  shows "\<exists>t'. AddNewCapability ob p t = Inr (ct_next_cap_id t, t') \<and> ct_inv t' \<and>
    ct_lookup t' = (ct_lookup t)(ct_next_cap_id t \<mapsto> \<lparr>cap_obj = ob, cap_permissions = p\<rparr>) \<and>
    ct_given t' = Suc (ct_given t) \<and> ct_next_cap_id t' = ct_next_cap_id t + 1 \<and> ct_used t'"
  using insert_capability [OF assms, of "\<lparr>cap_obj = ob, cap_permissions = p\<rparr>"]
  by (auto simp: AddNewCapability_def Let_def)

lemma AddExistingCapability_ok:
  assumes "ct_inv t" and "ct_given t < hm_limit"
  shows "\<exists>t'. AddExistingCapability (Some cap) t = Inr (ct_next_cap_id t, t') \<and> ct_inv t' \<and>
    ct_lookup t' = (ct_lookup t)(ct_next_cap_id t \<mapsto> cap) \<and>
    ct_given t' = Suc (ct_given t) \<and> ct_next_cap_id t' = ct_next_cap_id t + 1 \<and> ct_used t'"
  using insert_capability [OF assms, of cap] by (auto simp: AddExistingCapability_def Let_def)

lemma ReleaseCapability_ok:
  assumes "ct_inv t"
  shows "\<exists>t'. ReleaseCapability cid t = Inr (ct_lookup t cid, t') \<and> ct_inv t' \<and>
    ct_lookup t' = (ct_lookup t)(cid := None) \<and> ct_given t' = ct_given t \<and> ct_next_cap_id t' = ct_next_cap_id t \<and>
    (ct_used t \<longrightarrow> ct_used t')"
proof -
  have inv: "hm_inv Hash_u64 (ct_given t) (ct_capabilities t)" using assms by (simp add: ct_inv_def)
  show ?thesis
  proof (cases "ct_lookup t cid")
    case None
    then show ?thesis using ct_lookup_hm [OF assms, of cid] assms
      by (auto simp: ReleaseCapability_def hm.contains_ok [OF inv] fun_upd_idem)
  next
    case (Some cap)
    then have here: "hm_lookup Hash_u64 (ct_capabilities t) cid = Some (Some cap)" using ct_lookup_hm [OF assms, of cid] by simp
    then obtain m where m: "HashMap_Delete Hash_u64 cid (ct_capabilities t) = Inr (OK, m)" "hm_inv Hash_u64 (ct_given t) m"
        "hm_lookup Hash_u64 m = (hm_lookup Hash_u64 (ct_capabilities t))(cid := None)" "hm_used m"
      using hm.delete_present [OF inv] by blast
    have "ReleaseCapability cid t = Inr (ct_lookup t cid, t\<lparr>ct_capabilities := m\<rparr>)"
      using Some here m(1) hm.get_ok [OF inv here, of None] by (simp add: ReleaseCapability_def hm.contains_ok [OF inv])
    then show ?thesis using m assms by (auto simp: ct_inv_def ct_given_def ct_lookup_def ct_used_def fun_eq_iff)
  qed
qed

lemma ReleaseAll_ok:
  assumes "ct_inv t"
  shows "\<not> ct_used t \<Longrightarrow> CapabilityTable_ReleaseAll t = Inl DivByZero"
    and "ct_used t \<Longrightarrow> \<exists>t'. CapabilityTable_ReleaseAll t = Inr t' \<and> ct_inv t' \<and> ct_lookup t' = Map.empty \<and>
      ct_given t' = ct_given t \<and> ct_next_cap_id t' = ct_next_cap_id t \<and> ct_used t'"
proof -
  have inv: "hm_inv Hash_u64 (ct_given t) (ct_capabilities t)" and pos: "0 < unat (ct_next_cap_id t)"
    using assms by (auto simp: ct_inv_def)
  show "\<not> ct_used t \<Longrightarrow> CapabilityTable_ReleaseAll t = Inl DivByZero"
    using pos hm.delete_unused [OF inv] by (simp add: CapabilityTable_ReleaseAll_def upt_conv_Cons ct_used_def)
  assume "ct_used t"
  then obtain m where m: "delete_each (HashMap_Delete Hash_u64) (map of_nat [0..<unat (ct_next_cap_id t)]) (ct_capabilities t) = Inr m"
      "hm_inv Hash_u64 (ct_given t) m"
      "hm_lookup Hash_u64 m = hm_lookup Hash_u64 (ct_capabilities t) |` (- set (map of_nat [0..<unat (ct_next_cap_id t)]))" "hm_used m"
    using hm.delete_each_used [OF inv] unfolding ct_used_def by blast
  have "cid \<in> set (map of_nat [0..<unat (ct_next_cap_id t)])" if "hm_lookup Hash_u64 (ct_capabilities t) cid = Some c" for cid c
  proof -
    have "unat cid < unat (ct_next_cap_id t)" using that assms by (fastforce simp: ct_inv_def word_less_unat)
    then show ?thesis by (auto intro!: image_eqI [where x = "unat cid"])
  qed
  then have "hm_lookup Hash_u64 m = Map.empty" unfolding m(3) by (fastforce simp: restrict_map_def)
  then show "\<exists>t'. CapabilityTable_ReleaseAll t = Inr t' \<and> ct_inv t' \<and> ct_lookup t' = Map.empty \<and>
      ct_given t' = ct_given t \<and> ct_next_cap_id t' = ct_next_cap_id t \<and> ct_used t'"
    using m(1,2,4) assms by (auto simp: CapabilityTable_ReleaseAll_def ct_inv_def ct_given_def ct_lookup_def ct_used_def)
qed

section \<open>The contract of the table\<close>

text \<open>
  The operations of the table as the processes call them, and what each promises over a counter and
  a finite map: a fresh id for every capability that is added, and the answers of the map.
\<close>

datatype ct_op = OpAddNew KernelObject u64 | OpAddExisting Capability | OpGet u64 | OpRelease u64

datatype ct_answer = Id u64 | Cap "Capability option"

fun ct_exec :: "ct_op \<Rightarrow> CapabilityTable \<Rightarrow> (ct_answer \<times> CapabilityTable) run" where
  "ct_exec (OpAddNew ob p) t = run_map (\<lambda>(i, t). (Id i, t)) (AddNewCapability ob p t)"
| "ct_exec (OpAddExisting cap) t = run_map (\<lambda>(i, t). (Id i, t)) (AddExistingCapability (Some cap) t)"
| "ct_exec (OpGet i) t = run_map (\<lambda>(c, t). (Cap c, t)) (GetCapability i t)"
| "ct_exec (OpRelease i) t = run_map (\<lambda>(c, t). (Cap c, t)) (ReleaseCapability i t)"

fun ct_run :: "ct_op list \<Rightarrow> CapabilityTable \<Rightarrow> (ct_answer list \<times> CapabilityTable) run" where
  "ct_run [] t = Inr ([], t)"
| "ct_run (op # ops) t = run_bind (ct_exec op t) (\<lambda>(a, t). run_map (\<lambda>(as, t). (a # as, t)) (ct_run ops t))"

fun ct_spec :: "ct_op \<Rightarrow> nat \<times> (u64 \<rightharpoonup> Capability) \<Rightarrow> ct_answer \<times> nat \<times> (u64 \<rightharpoonup> Capability)" where
  "ct_spec (OpAddNew ob p) (n, f) = (Id (of_nat (0x100 + n)), Suc n, f(of_nat (0x100 + n) \<mapsto> \<lparr>cap_obj = ob, cap_permissions = p\<rparr>))"
| "ct_spec (OpAddExisting cap) (n, f) = (Id (of_nat (0x100 + n)), Suc n, f(of_nat (0x100 + n) \<mapsto> cap))"
| "ct_spec (OpGet i) (n, f) = (Cap (f i), n, f)"
| "ct_spec (OpRelease i) (n, f) = (Cap (f i), n, f(i := None))"

fun ct_spec_run :: "ct_op list \<Rightarrow> nat \<times> (u64 \<rightharpoonup> Capability) \<Rightarrow> ct_answer list \<times> nat \<times> (u64 \<rightharpoonup> Capability)" where
  "ct_spec_run [] s = ([], s)"
| "ct_spec_run (op # ops) s = (let (a, s) = ct_spec op s; (as, s) = ct_spec_run ops s in (a # as, s))"

lemma ct_next_given: "ct_inv t \<Longrightarrow> ct_next_cap_id t = of_nat (0x100 + ct_given t)"
  by (rule of_nat_unat_eq) (simp add: ct_inv_def ct_given_def)

lemma ct_exec_spec:
  assumes "ct_inv t" and "ct_given t < hm_limit"
  shows "\<exists>a t'. ct_exec op t = Inr (a, t') \<and> ct_inv t' \<and> ct_spec op (ct_given t, ct_lookup t) = (a, ct_given t', ct_lookup t') \<and>
    ct_given t' \<le> Suc (ct_given t)"
proof (cases op)
  case (OpAddNew ob p)
  then show ?thesis using AddNewCapability_ok [OF assms, of ob p] ct_next_given [OF assms(1)] by auto
next
  case (OpAddExisting cap)
  then show ?thesis using AddExistingCapability_ok [OF assms, of cap] ct_next_given [OF assms(1)] by auto
next
  case (OpGet i)
  then show ?thesis using GetCapability_ok [OF assms(1), of i] assms(1) by simp
next
  case (OpRelease i)
  then show ?thesis using ReleaseCapability_ok [OF assms(1), of i] by auto
qed

lemma ct_run_spec:
  assumes "ct_inv t" and "ct_given t + length ops \<le> hm_limit"
  shows "\<exists>as t'. ct_run ops t = Inr (as, t') \<and> ct_inv t' \<and> ct_spec_run ops (ct_given t, ct_lookup t) = (as, ct_given t', ct_lookup t')"
  using assms
proof (induction ops arbitrary: t)
  case (Cons op ops)
  obtain a t1 where 1: "ct_exec op t = Inr (a, t1)" "ct_inv t1" "ct_spec op (ct_given t, ct_lookup t) = (a, ct_given t1, ct_lookup t1)"
      "ct_given t1 \<le> Suc (ct_given t)"
    using ct_exec_spec [OF Cons.prems(1), of op] Cons.prems(2) by auto
  then show ?case using Cons.IH [OF 1(2)] Cons.prems(2) by fastforce
qed simp

text \<open>
  C15. A capability table is a finite map with a counter: over any sequence of additions, lookups and
  releases on a new table that adds fewer capabilities than the hash map can count, every operation
  returns, each added capability gets an id that was never given out before, and every lookup and
  release answers with the capability the map holds, or with nothing.
\<close>

theorem CapabilityTable_refines_map:
  assumes "length ops \<le> hm_limit"
  shows "\<exists>as t. ct_run ops CapabilityTable_new = Inr (as, t) \<and>
    ct_spec_run ops (0, Map.empty) = (as, ct_given t, ct_lookup t) \<and>
    (\<forall>i cap. ct_lookup t i = Some cap \<longrightarrow> 0x100 \<le> i \<and> i < ct_next_cap_id t)"
  using ct_run_spec [of CapabilityTable_new ops] assms ct_lookup_range by fastforce

theorem CapabilityTable_refines_map_witness:
  "\<exists>t. ct_run [OpAddNew \<lparr>ob_type = PORT, ob_ref = 4\<rparr> 3, OpGet 0x100, OpRelease 0x100, OpGet 0x100] CapabilityTable_new =
    Inr ([Id 0x100, Cap (Some \<lparr>cap_obj = \<lparr>ob_type = PORT, ob_ref = 4\<rparr>, cap_permissions = 3\<rparr>),
          Cap (Some \<lparr>cap_obj = \<lparr>ob_type = PORT, ob_ref = 4\<rparr>, cap_permissions = 3\<rparr>), Cap None], t)"
  using CapabilityTable_refines_map [of "[OpAddNew \<lparr>ob_type = PORT, ob_ref = 4\<rparr> 3, OpGet 0x100, OpRelease 0x100, OpGet 0x100]"]
  by (auto simp: hm_limit_def)

end
