(* ===== verification/Zion_Scheduler.thy ===== *)
theory Zion_Scheduler
  imports Prelude
begin

text \<open>
  Threads, the scheduler, mutexes and semaphores (\<open>zion/object/thread.h\<close>, \<open>zion/object/thread.cpp\<close>,
  \<open>zion/scheduler/scheduler.h\<close>, \<open>zion/scheduler/scheduler.cpp\<close>, \<open>zion/object/mutex.h\<close>,
  \<open>zion/object/mutex.cpp\<close>, \<open>zion/object/semaphore.h\<close>, \<open>zion/object/semaphore.cpp\<close>).

  A thread is named by a number, which stands for the address of its object.  The intrusive lists of
  threads are HOL lists; an intrusive list needs that no thread is in two of them, which is part of
  the invariant shown here.  A step of the model is the code between two context switches: a context
  switch is the assignment of the current thread, and an operation that suspends its thread inside a
  loop answers \<open>False\<close>, after which the thread runs the loop again from its head when it is next
  current.  Interrupts are taken between steps.  The registers saved by \<open>context_switch\<close> are not
  part of the state.
\<close>

section \<open>Threads\<close>

datatype ThreadState =
    T_UNSPECIFIED | T_CREATED | T_RUNNING | T_RUNNABLE | T_BLOCKED | T_SLEEPING | T_CLEANUP | T_FINISHED

record Thread =
  th_process :: u64
  th_id :: u64
  th_state :: ThreadState
  th_is_kernel :: bool
  th_user_stack_base :: u64
  th_sleep_ticks :: u64
  th_rip :: u64
  th_arg1 :: u64
  th_arg2 :: u64
  th_rsp0_start :: u64
  th_blocked_threads :: "nat list"

record Kernel =
  k_threads :: "nat \<Rightarrow> Thread"
  k_enabled :: bool
  k_current_thread :: nat
  k_runnable_threads :: "nat list"
  k_sleeping_threads :: "nat list"
  k_sleep_thread :: nat

definition on_thread :: "nat \<Rightarrow> (Thread \<Rightarrow> Thread) \<Rightarrow> 'z Kernel_scheme \<Rightarrow> 'z Kernel_scheme" where
  "on_thread t f k = k\<lparr>k_threads := (k_threads k)(t := f (k_threads k t))\<rparr>"

definition IsDying :: "Thread \<Rightarrow> bool" where
  "IsDying th \<longleftrightarrow> th_state th = T_CLEANUP \<or> th_state th = T_FINISHED"

definition Thread_SetState :: "nat \<Rightarrow> ThreadState \<Rightarrow> 'z Kernel_scheme \<Rightarrow> 'z Kernel_scheme run" where
  "Thread_SetState t st k =
     (if IsDying (k_threads k t) then Inl (Panic ''Cannot set state on dying thread.'')
      else Inr (on_thread t (\<lambda>th. th\<lparr>th_state := st\<rparr>) k))"

definition SetSleepTicks :: "u64 \<Rightarrow> Thread \<Rightarrow> Thread" where
  "SetSleepTicks n th = th\<lparr>th_sleep_ticks := n\<rparr>"

definition DecrementSleepTicks :: "Thread \<Rightarrow> bool \<times> Thread" where
  "DecrementSleepTicks th = (let n = th_sleep_ticks th - 1 in (n = 0, th\<lparr>th_sleep_ticks := n\<rparr>))"

section \<open>Scheduler\<close>

definition SwapToCurrent :: "'z Kernel_scheme \<Rightarrow> 'z Kernel_scheme run" where
  "SwapToCurrent k =
     (if th_state (k_threads k (k_current_thread k)) \<noteq> T_RUNNABLE then Inl (Panic ''Swapping to non-runnable thread.'')
      else Thread_SetState (k_current_thread k) T_RUNNING k)"

fun clear_dead :: "(nat \<Rightarrow> Thread) \<Rightarrow> nat list \<Rightarrow> nat list" where
  "clear_dead threads [] = []"
| "clear_dead threads (t # ts) = (if IsDying (threads t) then clear_dead threads ts else t # ts)"

definition ClearDeadThreadsFromFront :: "'z Kernel_scheme \<Rightarrow> 'z Kernel_scheme" where
  "ClearDeadThreadsFromFront k = k\<lparr>k_runnable_threads := clear_dead (k_threads k) (k_runnable_threads k)\<rparr>"

definition Yield :: "'z Kernel_scheme \<Rightarrow> 'z Kernel_scheme run" where
  "Yield k =
     (if \<not> k_enabled k then Inr k
      else let k = ClearDeadThreadsFromFront k; prev = k_current_thread k
           in if prev = k_sleep_thread k
              then (case k_runnable_threads k of
                      [] \<Rightarrow> Inl (Panic ''Sleep thread yielded without next.'')
                    | t # ts \<Rightarrow>
                        let k = k\<lparr>k_current_thread := t, k_runnable_threads := ts\<rparr>
                        in run_bind (if \<not> IsDying (k_threads k prev) then Thread_SetState prev T_RUNNABLE k else Inr k) SwapToCurrent)
              else (case k_runnable_threads k of
                      [] \<Rightarrow> SwapToCurrent (k\<lparr>k_current_thread := k_sleep_thread k\<rparr>)
                    | t # ts \<Rightarrow> SwapToCurrent (k\<lparr>k_current_thread := t, k_runnable_threads := ts\<rparr>)))"

definition Enqueue :: "nat \<Rightarrow> 'z Kernel_scheme \<Rightarrow> 'z Kernel_scheme run" where
  "Enqueue t k =
     (let k = k\<lparr>k_runnable_threads := k_runnable_threads k @ [t]\<rparr>
      in if k_current_thread k = k_sleep_thread k then Yield k else Inr k)"

text \<open>The walk along the sleeping list, which takes the next thread before it unlinks one.\<close>

fun decrement_loop :: "nat list \<Rightarrow> 'z Kernel_scheme \<Rightarrow> 'z Kernel_scheme run" where
  "decrement_loop [] k = Inr k"
| "decrement_loop (t # ts) k =
     (let (done, th) = DecrementSleepTicks (k_threads k t);
          k = on_thread t (\<lambda>_. th) k
      in if done
         then run_bind (Thread_SetState t T_RUNNABLE (k\<lparr>k_sleeping_threads := remove1 t (k_sleeping_threads k)\<rparr>)) (\<lambda>k.
              decrement_loop ts (k\<lparr>k_runnable_threads := k_runnable_threads k @ [t]\<rparr>))
         else decrement_loop ts k)"

definition DecrementSleepingThreads :: "'z Kernel_scheme \<Rightarrow> 'z Kernel_scheme run" where
  "DecrementSleepingThreads k = decrement_loop (k_sleeping_threads k) k"

definition Preempt :: "'z Kernel_scheme \<Rightarrow> 'z Kernel_scheme run" where
  "Preempt k =
     (if \<not> k_enabled k then Inr k
      else run_bind (DecrementSleepingThreads k) (\<lambda>k.
           let k = ClearDeadThreadsFromFront k
           in if k_runnable_threads k = [] then Inr k
              else let prev = k_current_thread k
                   in run_bind (Thread_SetState prev T_RUNNABLE k) (\<lambda>k.
                      case k_runnable_threads k @ [prev] of
                        [] \<Rightarrow> Inl NullDeref
                      | t # ts \<Rightarrow> SwapToCurrent (k\<lparr>k_runnable_threads := ts, k_current_thread := t\<rparr>))))"

definition Scheduler_Sleep :: "u64 \<Rightarrow> 'z Kernel_scheme \<Rightarrow> 'z Kernel_scheme run" where
  "Scheduler_Sleep millis k =
     (let ticks = millis div 50 + 1;
          k = on_thread (k_current_thread k) (SetSleepTicks ticks) k
      in run_bind (Thread_SetState (k_current_thread k) T_SLEEPING k) (\<lambda>k.
         Yield (k\<lparr>k_sleeping_threads := k_sleeping_threads k @ [k_current_thread k]\<rparr>)))"

text \<open>
  The thread that waits for the end of \<open>t\<close>.
\<close>

definition Thread_Wait :: "nat \<Rightarrow> 'z Kernel_scheme \<Rightarrow> 'z Kernel_scheme run" where
  "Thread_Wait t k =
     (if IsDying (k_threads k t) then Inr k
      else let thread = k_current_thread k
           in run_bind (Thread_SetState thread T_BLOCKED k) (\<lambda>k.
              Yield (on_thread t (\<lambda>th. th\<lparr>th_blocked_threads := th_blocked_threads th @ [thread]\<rparr>) k)))"

section \<open>Mutexes and semaphores\<close>

record Mutex =
  mx_lock :: u8
  mx_blocked_threads :: "nat list"

definition Mutex_Create :: Mutex where
  "Mutex_Create = \<lparr>mx_lock = 0, mx_blocked_threads = []\<rparr>"

definition Mutex_Lock :: "Mutex \<Rightarrow> 'z Kernel_scheme \<Rightarrow> (bool \<times> Mutex \<times> 'z Kernel_scheme) run" where
  "Mutex_Lock m k =
     (let old = mx_lock m; m = m\<lparr>mx_lock := mx_lock m OR 1\<rparr>
      in if old = 1
         then let thread = k_current_thread k
              in run_bind (Thread_SetState thread T_BLOCKED k) (\<lambda>k.
                 run_map (\<lambda>k. (False, m\<lparr>mx_blocked_threads := mx_blocked_threads m @ [thread]\<rparr>, k)) (Yield k))
         else Inr (True, m, k))"

definition Mutex_Release :: "Mutex \<Rightarrow> 'z Kernel_scheme \<Rightarrow> (Mutex \<times> 'z Kernel_scheme) run" where
  "Mutex_Release m k =
     (let m = m\<lparr>mx_lock := 0\<rparr>
      in case mx_blocked_threads m of
           [] \<Rightarrow> Inr (m, k)
         | t # ts \<Rightarrow>
             run_bind (Thread_SetState t T_RUNNABLE k) (\<lambda>k.
             run_map (\<lambda>k. (m\<lparr>mx_blocked_threads := ts\<rparr>, k)) (Enqueue t k)))"

record Semaphore =
  sem_lock :: u8
  sem_blocked_threads :: "nat list"

definition Semaphore_Create :: Semaphore where
  "Semaphore_Create = \<lparr>sem_lock = 0, sem_blocked_threads = []\<rparr>"

definition Semaphore_Signal :: "Semaphore \<Rightarrow> 'z Kernel_scheme \<Rightarrow> (Semaphore \<times> 'z Kernel_scheme) run" where
  "Semaphore_Signal m k =
     (let m = m\<lparr>sem_lock := sem_lock m + 1\<rparr>
      in case sem_blocked_threads m of
           [] \<Rightarrow> Inr (m, k)
         | t # ts \<Rightarrow>
             run_bind (Thread_SetState t T_RUNNABLE k) (\<lambda>k.
             run_map (\<lambda>k. (m\<lparr>sem_blocked_threads := ts\<rparr>, k)) (Enqueue t k)))"

definition Semaphore_Wait :: "Semaphore \<Rightarrow> 'z Kernel_scheme \<Rightarrow> (bool \<times> Semaphore \<times> 'z Kernel_scheme) run" where
  "Semaphore_Wait m k =
     (if sem_lock m = 0
      then let thread = k_current_thread k
           in run_bind (Thread_SetState thread T_BLOCKED k) (\<lambda>k.
              run_map (\<lambda>k. (False, m\<lparr>sem_blocked_threads := sem_blocked_threads m @ [thread]\<rparr>, k)) (Yield k))
      else Inr (True, m\<lparr>sem_lock := sem_lock m - 1\<rparr>, k))"

section \<open>The scheduling invariant\<close>

text \<open>
  \<open>sched_inv W k\<close>: \<open>W\<close> is the set of all threads that are in the waiting list of a mutex, a
  semaphore, a message queue or another thread.  The current thread, the run queue, the sleeping
  list and \<open>W\<close> do not overlap, so that each thread is linked in at most one list, and the state of
  a live thread says where it is.  The sleep thread never sleeps, waits or dies; when it is not
  current it can be switched to.  A dying thread may still be in a list.
\<close>

definition live_in :: "(nat \<Rightarrow> Thread) \<Rightarrow> nat \<Rightarrow> ThreadState \<Rightarrow> bool" where
  "live_in threads t st \<longleftrightarrow> th_state (threads t) = st \<or> IsDying (threads t)"

definition lists_inv :: "nat set \<Rightarrow> 'z Kernel_scheme \<Rightarrow> bool" where
  "lists_inv W k \<longleftrightarrow> distinct (k_runnable_threads k) \<and> distinct (k_sleeping_threads k) \<and>
     set (k_runnable_threads k) \<inter> set (k_sleeping_threads k) = {} \<and>
     (set (k_runnable_threads k) \<union> set (k_sleeping_threads k)) \<inter> W = {} \<and>
     k_sleep_thread k \<notin> set (k_sleeping_threads k) \<union> W \<and> \<not> IsDying (k_threads k (k_sleep_thread k)) \<and>
     (\<forall>t \<in> set (k_runnable_threads k). live_in (k_threads k) t T_RUNNABLE) \<and>
     (\<forall>t \<in> set (k_sleeping_threads k). live_in (k_threads k) t T_SLEEPING) \<and>
     (\<forall>t \<in> W. live_in (k_threads k) t T_BLOCKED)"

definition sched_inv :: "nat set \<Rightarrow> 'z Kernel_scheme \<Rightarrow> bool" where
  "sched_inv W k \<longleftrightarrow> k_enabled k \<and> lists_inv W k \<and>
     k_current_thread k \<notin> set (k_runnable_threads k) \<union> set (k_sleeping_threads k) \<union> W \<and>
     th_state (k_threads k (k_current_thread k)) = T_RUNNING \<and>
     (k_sleep_thread k \<noteq> k_current_thread k \<longrightarrow> th_state (k_threads k (k_sleep_thread k)) = T_RUNNABLE)"

lemma on_thread_simps [simp]:
  "k_threads (on_thread t f k) = (k_threads k)(t := f (k_threads k t))"
  "k_enabled (on_thread t f k) = k_enabled k" "k_current_thread (on_thread t f k) = k_current_thread k"
  "k_runnable_threads (on_thread t f k) = k_runnable_threads k" "k_sleeping_threads (on_thread t f k) = k_sleeping_threads k"
  "k_sleep_thread (on_thread t f k) = k_sleep_thread k"
  by (simp_all add: on_thread_def)

lemma clear_dead_hd: "clear_dead threads ts = t # rest \<Longrightarrow> \<not> IsDying (threads t)"
  by (induction ts) (auto split: if_splits)

lemma clear_dead_set: "set (clear_dead threads ts) \<subseteq> set ts"
  by (induction ts) auto

lemma clear_dead_distinct: "distinct ts \<Longrightarrow> distinct (clear_dead threads ts)"
  by (induction ts) auto

lemma clear_dead_live: "(\<forall>t \<in> set ts. \<not> IsDying (threads t)) \<Longrightarrow> clear_dead threads ts = ts"
  by (induction ts) auto

lemma live_in_state: "live_in threads t st \<Longrightarrow> \<not> IsDying (threads t) \<Longrightarrow> th_state (threads t) = st"
  by (auto simp: live_in_def)

lemma ClearDead_lists_inv: "lists_inv W k \<Longrightarrow> lists_inv W (ClearDeadThreadsFromFront k)"
  using clear_dead_set [of "k_threads k" "k_runnable_threads k"] clear_dead_distinct [of "k_runnable_threads k"]
  unfolding lists_inv_def ClearDeadThreadsFromFront_def by (simp; blast)

text \<open>
  Switching to the next thread.  The previous thread is in a list or dies.
\<close>

definition next_thread :: "'z Kernel_scheme \<Rightarrow> nat" where
  "next_thread k = (case clear_dead (k_threads k) (k_runnable_threads k) of [] \<Rightarrow> k_sleep_thread k | t # ts \<Rightarrow> t)"

definition switched :: "'z Kernel_scheme \<Rightarrow> 'z Kernel_scheme" where
  "switched k = on_thread (next_thread k) (\<lambda>th. th\<lparr>th_state := T_RUNNING\<rparr>)
     (k\<lparr>k_runnable_threads := tl (clear_dead (k_threads k) (k_runnable_threads k)), k_current_thread := next_thread k\<rparr>)"

lemma switched_inv:
  assumes "k_enabled k" and "lists_inv W k"
    and sleep: "th_state (k_threads k (k_sleep_thread k)) = T_RUNNABLE"
  shows "sched_inv W (switched k)" and "th_state (k_threads k (next_thread k)) = T_RUNNABLE" "\<not> IsDying (k_threads k (next_thread k))"
proof -
  let ?rs = "clear_dead (k_threads k) (k_runnable_threads k)" and ?t = "next_thread k"
  have inv: "lists_inv W (ClearDeadThreadsFromFront k)" by (rule ClearDead_lists_inv [OF assms(2)])
  show st: "th_state (k_threads k ?t) = T_RUNNABLE"
    using inv sleep clear_dead_hd [of "k_threads k" "k_runnable_threads k"]
    by (cases ?rs) (auto simp: next_thread_def lists_inv_def ClearDeadThreadsFromFront_def dest: live_in_state)
  then show "\<not> IsDying (k_threads k ?t)" by (simp add: IsDying_def)
  show "sched_inv W (switched k)"
  proof (cases ?rs)
    case Nil
    then show ?thesis using assms inv
      by (auto simp: sched_inv_def lists_inv_def switched_def next_thread_def ClearDeadThreadsFromFront_def live_in_def IsDying_def)
  next
    case (Cons t ts)
    then show ?thesis using assms inv st
      by (auto simp: sched_inv_def lists_inv_def switched_def next_thread_def ClearDeadThreadsFromFront_def live_in_def IsDying_def)
  qed
qed

lemma Yield_ok:
  assumes "k_enabled k" and "lists_inv W k" and "k_current_thread k \<noteq> k_sleep_thread k"
    and "th_state (k_threads k (k_sleep_thread k)) = T_RUNNABLE"
  shows "Yield k = Inr (switched k)"
  using switched_inv [OF assms(1,2,4)] assms(1,3,4)
  by (auto simp: Yield_def Let_def ClearDeadThreadsFromFront_def SwapToCurrent_def Thread_SetState_def switched_def
      next_thread_def IsDying_def on_thread_def split: list.splits)

section \<open>Suspending and waking\<close>

text \<open>
  What the mutex, the semaphore, the message queues and \<open>Thread::Wait\<close> use of the scheduler: the
  current thread gives up the processor and stands in a waiting list, and the first thread of a
  waiting list is made runnable again.
\<close>

definition suspend_current :: "'z Kernel_scheme \<Rightarrow> 'z Kernel_scheme run" where
  "suspend_current k = run_bind (Thread_SetState (k_current_thread k) T_BLOCKED k) Yield"

definition wake_thread :: "nat \<Rightarrow> 'z Kernel_scheme \<Rightarrow> 'z Kernel_scheme run" where
  "wake_thread t k = run_bind (Thread_SetState t T_RUNNABLE k) (Enqueue t)"

definition wait_on :: "('k \<Rightarrow> nat) \<Rightarrow> ('k \<Rightarrow> 'k run) \<Rightarrow> nat list \<Rightarrow> 'k \<Rightarrow> (nat list \<times> 'k) run" where
  "wait_on current suspend ws k = run_map (\<lambda>k'. (ws @ [current k], k')) (suspend k)"

definition wake_first :: "(nat \<Rightarrow> 'k \<Rightarrow> 'k run) \<Rightarrow> nat list \<Rightarrow> 'k \<Rightarrow> (nat list \<times> 'k) run" where
  "wake_first wake ws k = (case ws of [] \<Rightarrow> Inr ([], k) | t # ts \<Rightarrow> run_map (\<lambda>k'. (ts, k')) (wake t k))"

lemma Mutex_Lock_wait_on:
  "Mutex_Lock m k =
     (if mx_lock m = 1
      then run_map (\<lambda>(ws, k). (False, m\<lparr>mx_lock := 1, mx_blocked_threads := ws\<rparr>, k)) (wait_on k_current_thread suspend_current (mx_blocked_threads m) k)
      else Inr (True, m\<lparr>mx_lock := mx_lock m OR 1\<rparr>, k))"
  by (cases "IsDying (k_threads k (k_current_thread k))"; cases "Yield (on_thread (k_current_thread k) (\<lambda>th. th\<lparr>th_state := T_BLOCKED\<rparr>) k)")
     (simp_all add: Mutex_Lock_def Let_def wait_on_def suspend_current_def Thread_SetState_def)

lemma Mutex_Release_wake_first:
  "Mutex_Release m k =
     run_map (\<lambda>(ws, k). (m\<lparr>mx_lock := 0, mx_blocked_threads := ws\<rparr>, k)) (wake_first wake_thread (mx_blocked_threads m) k)"
  by (cases "mx_blocked_threads m"; cases m; cases "Thread_SetState (hd (mx_blocked_threads m)) T_RUNNABLE k";
      cases "Enqueue (hd (mx_blocked_threads m)) (projr (Thread_SetState (hd (mx_blocked_threads m)) T_RUNNABLE k))")
     (auto simp: Mutex_Release_def Let_def wake_first_def wake_thread_def)

lemma Semaphore_Wait_wait_on:
  "Semaphore_Wait m k =
     (if sem_lock m = 0
      then run_map (\<lambda>(ws, k). (False, m\<lparr>sem_blocked_threads := ws\<rparr>, k)) (wait_on k_current_thread suspend_current (sem_blocked_threads m) k)
      else Inr (True, m\<lparr>sem_lock := sem_lock m - 1\<rparr>, k))"
  by (cases "IsDying (k_threads k (k_current_thread k))"; cases "Yield (on_thread (k_current_thread k) (\<lambda>th. th\<lparr>th_state := T_BLOCKED\<rparr>) k)")
     (simp_all add: Semaphore_Wait_def Let_def wait_on_def suspend_current_def Thread_SetState_def)

lemma Semaphore_Signal_wake_first:
  "Semaphore_Signal m k =
     run_map (\<lambda>(ws, k). (m\<lparr>sem_lock := sem_lock m + 1, sem_blocked_threads := ws\<rparr>, k)) (wake_first wake_thread (sem_blocked_threads m) k)"
  by (cases "sem_blocked_threads m"; cases m; cases "Thread_SetState (hd (sem_blocked_threads m)) T_RUNNABLE k";
      cases "Enqueue (hd (sem_blocked_threads m)) (projr (Thread_SetState (hd (sem_blocked_threads m)) T_RUNNABLE k))")
     (auto simp: Semaphore_Signal_def Let_def wake_first_def wake_thread_def)

lemma suspend_current_ok:
  assumes "sched_inv W k" and "k_current_thread k \<noteq> k_sleep_thread k"
  shows "\<exists>k'. suspend_current k = Inr k' \<and> sched_inv (insert (k_current_thread k) W) k' \<and>
    k_current_thread k' = next_thread k \<and> k_sleep_thread k' = k_sleep_thread k"
proof -
  let ?c = "k_current_thread k" and ?k = "on_thread (k_current_thread k) (\<lambda>th. th\<lparr>th_state := T_BLOCKED\<rparr>) k"
  have live: "\<not> IsDying (k_threads k ?c)" using assms(1) by (simp add: sched_inv_def IsDying_def)
  have inv: "lists_inv (insert ?c W) ?k" "k_enabled ?k" "th_state (k_threads ?k (k_sleep_thread ?k)) = T_RUNNABLE"
    using assms by (auto simp: sched_inv_def lists_inv_def live_in_def IsDying_def)
  have "clear_dead (k_threads ?k) (k_runnable_threads k) = clear_dead (k_threads k) (k_runnable_threads k)"
  proof -
    have "?c \<notin> set ts \<Longrightarrow> clear_dead ((k_threads k)(?c := x)) ts = clear_dead (k_threads k) ts" for ts x
      by (induction ts) auto
    then show ?thesis using assms(1) by (simp add: sched_inv_def)
  qed
  then have "next_thread ?k = next_thread k" by (simp add: next_thread_def split: list.split)
  then show ?thesis
    using Yield_ok [OF inv(2,1) _ inv(3)] switched_inv(1) [OF inv(2,1,3)] assms(2) live
    by (simp add: suspend_current_def Thread_SetState_def switched_def)
qed

lemma wake_thread_ok:
  assumes "sched_inv W k" and "t \<in> W" and "\<not> IsDying (k_threads k t)" and "k_current_thread k \<noteq> k_sleep_thread k"
  shows "\<exists>k'. wake_thread t k = Inr k' \<and> sched_inv (W - {t}) k' \<and> k_current_thread k' = k_current_thread k \<and>
    k_runnable_threads k' = k_runnable_threads k @ [t] \<and> k_sleep_thread k' = k_sleep_thread k"
  using assms by (auto simp: wake_thread_def Thread_SetState_def Enqueue_def Let_def sched_inv_def lists_inv_def live_in_def IsDying_def)

text \<open>
  The interface between the scheduler and the objects threads wait on.  \<open>inv W k\<close> is the invariant
  with the set of waiting threads, \<open>dead\<close> tells which threads cannot be woken.
\<close>

locale thread_switching =
  fixes inv :: "nat set \<Rightarrow> 'k \<Rightarrow> bool" and current :: "'k \<Rightarrow> nat" and idle :: "'k \<Rightarrow> nat" and dead :: "'k \<Rightarrow> nat \<Rightarrow> bool"
    and suspend :: "'k \<Rightarrow> 'k run" and wake :: "nat \<Rightarrow> 'k \<Rightarrow> 'k run"
  assumes current_free: "inv W k \<Longrightarrow> current k \<notin> W"
    and suspend_ok: "inv W k \<Longrightarrow> current k \<noteq> idle k \<Longrightarrow> \<exists>k'. suspend k = Inr k' \<and> inv (insert (current k) W) k'"
    and wake_ok: "inv W k \<Longrightarrow> t \<in> W \<Longrightarrow> \<not> dead k t \<Longrightarrow> current k \<noteq> idle k \<Longrightarrow>
      \<exists>k'. wake t k = Inr k' \<and> inv (W - {t}) k' \<and> current k' = current k"
    and wake_dead: "dead k t \<Longrightarrow> \<exists>p. wake t k = Inl (Panic p)"
begin

lemma wait_on_ok:
  assumes "inv (set ws \<union> W) k" and "current k \<noteq> idle k" and "distinct ws" and "set ws \<inter> W = {}"
  shows "\<exists>k'. wait_on current suspend ws k = Inr (ws @ [current k], k') \<and> inv (set (ws @ [current k]) \<union> W) k' \<and>
    distinct (ws @ [current k]) \<and> set (ws @ [current k]) \<inter> W = {}"
  using suspend_ok [OF assms(1,2)] current_free [OF assms(1)] assms(3,4) by (auto simp: wait_on_def)

lemma wake_first_ok:
  assumes "inv (set ws \<union> W) k" and "current k \<noteq> idle k" and "distinct ws" and "set ws \<inter> W = {}"
    and "ws \<noteq> [] \<longrightarrow> \<not> dead k (hd ws)"
  shows "\<exists>k'. wake_first wake ws k = Inr (tl ws, k') \<and> inv (set (tl ws) \<union> W) k' \<and> current k' = current k \<and>
    distinct (tl ws) \<and> set (tl ws) \<inter> W = {}"
proof (cases ws)
  case (Cons t ts)
  have "(set ws \<union> W) - {t} = set ts \<union> W" using assms(3,4) Cons by auto
  then show ?thesis using wake_ok [OF assms(1), of t] assms(2-5) Cons by (auto simp: wake_first_def)
qed (use assms in \<open>auto simp: wake_first_def\<close>)

lemma wake_first_dead: "ws \<noteq> [] \<Longrightarrow> dead k (hd ws) \<Longrightarrow> \<exists>p. wake_first wake ws k = Inl (Panic p)"
  using wake_dead [of k "hd ws"] by (cases ws) (auto simp: wake_first_def)

end

interpretation sched: thread_switching sched_inv k_current_thread k_sleep_thread "\<lambda>k t. IsDying (k_threads k t)"
    suspend_current wake_thread
proof
  show "sched_inv W k \<Longrightarrow> k_current_thread k \<notin> W" for W and k :: "'a Kernel_scheme" by (simp add: sched_inv_def)
  show "\<exists>k'. suspend_current k = Inr k' \<and> sched_inv (insert (k_current_thread k) W) k'"
    if "sched_inv W k" "k_current_thread k \<noteq> k_sleep_thread k" for W and k :: "'a Kernel_scheme"
    using suspend_current_ok [OF that] by blast
  show "\<exists>k'. wake_thread t k = Inr k' \<and> sched_inv (W - {t}) k' \<and> k_current_thread k' = k_current_thread k"
    if "sched_inv W k" "t \<in> W" "\<not> IsDying (k_threads k t)" "k_current_thread k \<noteq> k_sleep_thread k"
    for W t and k :: "'a Kernel_scheme"
    using wake_thread_ok [OF that] by blast
  show "\<exists>p. wake_thread t k = Inl (Panic p)" if "IsDying (k_threads k t)" for t and k :: "'a Kernel_scheme"
    using that by (simp add: wake_thread_def Thread_SetState_def)
qed

section \<open>Timer ticks\<close>

text \<open>A sleeping thread that is due is live; otherwise waking it stops the kernel.\<close>

definition sleepers_live :: "'z Kernel_scheme \<Rightarrow> bool" where
  "sleepers_live k \<longleftrightarrow> (\<forall>t \<in> set (k_sleeping_threads k). \<not> IsDying (k_threads k t))"

definition due :: "'z Kernel_scheme \<Rightarrow> nat list" where
  "due k = filter (\<lambda>t. th_sleep_ticks (k_threads k t) = 1) (k_sleeping_threads k)"

lemma decrement_loop_ok:
  assumes "distinct ts" and "\<forall>t \<in> set ts. \<not> IsDying (k_threads k t)" and "distinct (k_sleeping_threads k)"
  shows "\<exists>k'. decrement_loop ts k = Inr k' \<and>
    k' = k\<lparr>k_threads := k_threads k',
           k_runnable_threads := k_runnable_threads k @ filter (\<lambda>t. th_sleep_ticks (k_threads k t) = 1) ts,
           k_sleeping_threads := filter (\<lambda>t. \<not> (t \<in> set ts \<and> th_sleep_ticks (k_threads k t) = 1)) (k_sleeping_threads k)\<rparr> \<and>
    (\<forall>t. k_threads k' t =
       (if t \<in> set ts
        then (k_threads k t)\<lparr>th_sleep_ticks := th_sleep_ticks (k_threads k t) - 1,
               th_state := if th_sleep_ticks (k_threads k t) = 1 then T_RUNNABLE else th_state (k_threads k t)\<rparr>
        else k_threads k t))"
  using assms
proof (induction ts arbitrary: k)
  case (Cons t ts)
  let ?th = "k_threads k t" and ?due = "th_sleep_ticks (k_threads k t) = 1"
  let ?th' = "?th\<lparr>th_sleep_ticks := th_sleep_ticks ?th - 1, th_state := if ?due then T_RUNNABLE else th_state ?th\<rparr>"
  let ?k = "k\<lparr>k_threads := (k_threads k)(t := ?th'),
      k_runnable_threads := k_runnable_threads k @ (if ?due then [t] else []),
      k_sleeping_threads := (if ?due then remove1 t (k_sleeping_threads k) else k_sleeping_threads k)\<rparr>"
  have step: "decrement_loop (t # ts) k = decrement_loop ts ?k"
    using Cons.prems(2) by (cases k) (auto simp: DecrementSleepTicks_def Let_def Thread_SetState_def IsDying_def on_thread_def)
  have dist: "distinct ts" "t \<notin> set ts" "distinct (k_sleeping_threads ?k)"
    using Cons.prems(1,3) by auto
  have same: "k_threads ?k x = k_threads k x" if "x \<in> set ts" for x using that dist(2) by auto
  have f: "filter (\<lambda>x. th_sleep_ticks (k_threads ?k x) = 1) ts = filter (\<lambda>x. th_sleep_ticks (k_threads k x) = 1) ts"
    by (rule filter_cong) (use same in auto)
  have g: "filter (\<lambda>x. \<not> (x \<in> set ts \<and> th_sleep_ticks (k_threads ?k x) = 1)) (k_sleeping_threads ?k) =
      filter (\<lambda>x. \<not> (x \<in> set (t # ts) \<and> th_sleep_ticks (k_threads k x) = 1)) (k_sleeping_threads k)"
    using dist(2) Cons.prems(3) by (auto simp: distinct_remove1_removeAll removeAll_filter_not_eq intro!: filter_cong)
  have "\<forall>x \<in> set ts. \<not> IsDying (k_threads ?k x)" using Cons.prems(2) same by auto
  from Cons.IH [OF dist(1) this dist(3), unfolded f g] obtain k' where k': "decrement_loop ts ?k = Inr k'"
      "k' = ?k\<lparr>k_threads := k_threads k', k_runnable_threads := k_runnable_threads ?k @ filter (\<lambda>x. th_sleep_ticks (k_threads k x) = 1) ts,
         k_sleeping_threads := filter (\<lambda>x. \<not> (x \<in> set (t # ts) \<and> th_sleep_ticks (k_threads k x) = 1)) (k_sleeping_threads k)\<rparr>"
      "\<And>x. k_threads k' x = (if x \<in> set ts then (k_threads ?k x)\<lparr>th_sleep_ticks := th_sleep_ticks (k_threads ?k x) - 1,
               th_state := if th_sleep_ticks (k_threads ?k x) = 1 then T_RUNNABLE else th_state (k_threads ?k x)\<rparr> else k_threads ?k x)"
    by blast
  show ?case unfolding step
  proof (intro exI conjI allI)
    show "decrement_loop ts ?k = Inr k'" by (rule k'(1))
    show "k' = k\<lparr>k_threads := k_threads k', k_runnable_threads := k_runnable_threads k @ filter (\<lambda>x. th_sleep_ticks (k_threads k x) = 1) (t # ts),
           k_sleeping_threads := filter (\<lambda>x. \<not> (x \<in> set (t # ts) \<and> th_sleep_ticks (k_threads k x) = 1)) (k_sleeping_threads k)\<rparr>"
      by (subst k'(2)) simp
    show "k_threads k' x = (if x \<in> set (t # ts) then (k_threads k x)\<lparr>th_sleep_ticks := th_sleep_ticks (k_threads k x) - 1,
               th_state := if th_sleep_ticks (k_threads k x) = 1 then T_RUNNABLE else th_state (k_threads k x)\<rparr> else k_threads k x)" for x
      unfolding k'(3) using dist(2) same by auto
  qed
qed simp

lemma clear_dead_cong: "(\<And>t. t \<in> set ts \<Longrightarrow> IsDying (f t) = IsDying (g t)) \<Longrightarrow> clear_dead f ts = clear_dead g ts"
  by (induction ts) auto

definition tick_queue :: "'z Kernel_scheme \<Rightarrow> nat list" where
  "tick_queue k = clear_dead (k_threads k) (k_runnable_threads k @ due k)"

lemma DecrementSleepingThreads_ok:
  assumes "sched_inv W k" and "sleepers_live k"
  shows "\<exists>k'. DecrementSleepingThreads k = Inr k' \<and> sched_inv W k' \<and> k_current_thread k' = k_current_thread k \<and>
    k_sleep_thread k' = k_sleep_thread k \<and> k_runnable_threads k' = k_runnable_threads k @ due k \<and>
    k_sleeping_threads k' = filter (\<lambda>t. th_sleep_ticks (k_threads k t) \<noteq> 1) (k_sleeping_threads k) \<and>
    (\<forall>t. IsDying (k_threads k' t) = IsDying (k_threads k t)) \<and>
    (\<forall>t \<in> set (k_sleeping_threads k). th_sleep_ticks (k_threads k' t) = th_sleep_ticks (k_threads k t) - 1)"
proof -
  have dist: "distinct (k_sleeping_threads k)" using assms(1) by (simp add: sched_inv_def lists_inv_def)
  obtain k' where k': "decrement_loop (k_sleeping_threads k) k = Inr k'"
      "k' = k\<lparr>k_threads := k_threads k', k_runnable_threads := k_runnable_threads k @ due k,
         k_sleeping_threads := filter (\<lambda>t. \<not> (t \<in> set (k_sleeping_threads k) \<and> th_sleep_ticks (k_threads k t) = 1)) (k_sleeping_threads k)\<rparr>"
      "\<And>t. k_threads k' t = (if t \<in> set (k_sleeping_threads k) then (k_threads k t)\<lparr>th_sleep_ticks := th_sleep_ticks (k_threads k t) - 1,
               th_state := if th_sleep_ticks (k_threads k t) = 1 then T_RUNNABLE else th_state (k_threads k t)\<rparr> else k_threads k t)"
    using decrement_loop_ok [OF dist _ dist] assms(2) unfolding sleepers_live_def due_def by blast
  have fields: "k_current_thread k' = k_current_thread k" "k_sleep_thread k' = k_sleep_thread k" "k_enabled k' = k_enabled k"
      "k_runnable_threads k' = k_runnable_threads k @ due k"
      "k_sleeping_threads k' = filter (\<lambda>t. th_sleep_ticks (k_threads k t) \<noteq> 1) (k_sleeping_threads k)"
    by (subst k'(2), simp cong: filter_cong)+
  have dying: "IsDying (k_threads k' t) = IsDying (k_threads k t)" for t
    using assms(2) by (auto simp: k'(3) IsDying_def sleepers_live_def)
  have "sched_inv W k'"
    using assms dist unfolding sched_inv_def lists_inv_def fields
    by (auto simp: k'(3) due_def live_in_def IsDying_def sleepers_live_def)
  then show ?thesis using k'(1,3) fields dying by (auto simp: DecrementSleepingThreads_def)
qed

lemma Preempt_ok:
  assumes "sched_inv W k" and "sleepers_live k"
  shows "\<exists>k'. Preempt k = Inr k' \<and> sched_inv W k' \<and> k_sleep_thread k' = k_sleep_thread k \<and>
    k_current_thread k' = (case tick_queue k of [] \<Rightarrow> k_current_thread k | t # ts \<Rightarrow> t) \<and>
    k_runnable_threads k' = (case tick_queue k of [] \<Rightarrow> [] | t # ts \<Rightarrow> ts @ [k_current_thread k]) \<and>
    k_sleeping_threads k' = filter (\<lambda>t. th_sleep_ticks (k_threads k t) \<noteq> 1) (k_sleeping_threads k) \<and>
    (\<forall>t. IsDying (k_threads k' t) = IsDying (k_threads k t)) \<and>
    (\<forall>t \<in> set (k_sleeping_threads k). th_sleep_ticks (k_threads k' t) = th_sleep_ticks (k_threads k t) - 1)"
proof -
  obtain k1 where k1: "DecrementSleepingThreads k = Inr k1" "sched_inv W k1" "k_current_thread k1 = k_current_thread k"
      "k_sleep_thread k1 = k_sleep_thread k" "k_runnable_threads k1 = k_runnable_threads k @ due k"
      "k_sleeping_threads k1 = filter (\<lambda>t. th_sleep_ticks (k_threads k t) \<noteq> 1) (k_sleeping_threads k)"
      "\<And>t. IsDying (k_threads k1 t) = IsDying (k_threads k t)"
      "\<And>t. t \<in> set (k_sleeping_threads k) \<Longrightarrow> th_sleep_ticks (k_threads k1 t) = th_sleep_ticks (k_threads k t) - 1"
    using DecrementSleepingThreads_ok [OF assms] by blast
  have q: "clear_dead (k_threads k1) (k_runnable_threads k1) = tick_queue k"
    unfolding tick_queue_def k1(5) by (rule clear_dead_cong) (simp add: k1(7))
  have inv: "lists_inv W (ClearDeadThreadsFromFront k1)" by (rule ClearDead_lists_inv) (use k1(2) in \<open>simp add: sched_inv_def\<close>)
  have on: "k_enabled k" "k_enabled k1" using assms(1) k1(2) by (simp_all add: sched_inv_def)
  show ?thesis
  proof (cases "tick_queue k")
    case Nil
    then show ?thesis using k1 on inv q
      by (auto simp: Preempt_def Let_def ClearDeadThreadsFromFront_def sched_inv_def)
  next
    case (Cons t ts)
    let ?c = "k_current_thread k"
    have live: "\<not> IsDying (k_threads k1 ?c)" "\<not> IsDying (k_threads k1 t)"
      using k1(2,3) clear_dead_hd [OF q [unfolded Cons]] by (auto simp: sched_inv_def IsDying_def)
    have t: "th_state (k_threads k1 t) = T_RUNNABLE" "t \<noteq> ?c"
      using inv live(2) q Cons k1(2,3) clear_dead_set [of "k_threads k1" "k_runnable_threads k1"]
      by (auto simp: lists_inv_def ClearDeadThreadsFromFront_def sched_inv_def dest: live_in_state)
    let ?k2 = "k1\<lparr>k_runnable_threads := ts @ [?c], k_current_thread := t,
        k_threads := (k_threads k1)(?c := (k_threads k1 ?c)\<lparr>th_state := T_RUNNABLE\<rparr>, t := (k_threads k1 t)\<lparr>th_state := T_RUNNING\<rparr>)\<rparr>"
    have "Preempt k = Inr ?k2" using k1(1,3) on q Cons live t
      by (simp add: Preempt_def Let_def ClearDeadThreadsFromFront_def Thread_SetState_def SwapToCurrent_def on_thread_def IsDying_def)
    moreover have "sched_inv W ?k2" using k1(2-4) inv q Cons t
      by (auto simp: sched_inv_def lists_inv_def ClearDeadThreadsFromFront_def live_in_def IsDying_def)
    moreover have "IsDying (k_threads ?k2 x) = IsDying (k_threads k x)" for x
      using live k1(7) [symmetric] by (auto simp: IsDying_def)
    moreover have "th_sleep_ticks (k_threads ?k2 x) = th_sleep_ticks (k_threads k1 x)" for x by simp
    ultimately show ?thesis using Cons k1(4,6,8) by auto
  qed
qed

section \<open>Every runnable thread runs\<close>

fun ticks :: "nat \<Rightarrow> 'z Kernel_scheme \<Rightarrow> 'z Kernel_scheme run" where
  "ticks 0 k = Inr k"
| "ticks (Suc n) k = run_bind (Preempt k) (ticks n)"

definition all_live :: "'z Kernel_scheme \<Rightarrow> bool" where
  "all_live k \<longleftrightarrow> (\<forall>t. \<not> IsDying (k_threads k t))"

lemma all_live_sleepers: "all_live k \<Longrightarrow> sleepers_live k"
  by (simp add: all_live_def sleepers_live_def)

lemma tick_live:
  assumes "sched_inv W k" and "all_live k"
  shows "\<exists>k'. Preempt k = Inr k' \<and> sched_inv W k' \<and> all_live k' \<and> k_sleep_thread k' = k_sleep_thread k \<and>
    k_current_thread k' # k_runnable_threads k' =
      (case k_runnable_threads k @ due k of [] \<Rightarrow> [k_current_thread k] | t # ts \<Rightarrow> t # ts @ [k_current_thread k]) \<and>
    k_sleeping_threads k' = filter (\<lambda>t. th_sleep_ticks (k_threads k t) \<noteq> 1) (k_sleeping_threads k) \<and>
    (\<forall>t \<in> set (k_sleeping_threads k). th_sleep_ticks (k_threads k' t) = th_sleep_ticks (k_threads k t) - 1)"
proof -
  have "tick_queue k = k_runnable_threads k @ due k"
    unfolding tick_queue_def by (rule clear_dead_live) (use assms(2) in \<open>simp add: all_live_def\<close>)
  then show ?thesis
    using Preempt_ok [OF assms(1) all_live_sleepers [OF assms(2)]] assms(2)
    by (auto simp: all_live_def split: list.splits)
qed

lemma tick_rotates:
  assumes "sched_inv W k" and "all_live k" and "k_runnable_threads k = t # ts"
  shows "\<exists>k' us. Preempt k = Inr k' \<and> sched_inv W k' \<and> all_live k' \<and> k_current_thread k' = t \<and> k_runnable_threads k' = ts @ us"
  using tick_live [OF assms(1,2)] assms(3) by auto

lemma queue_runs:
  assumes "sched_inv W k" and "all_live k" and "i < length (k_runnable_threads k)"
  shows "\<exists>k'. ticks (Suc i) k = Inr k' \<and> sched_inv W k' \<and> all_live k' \<and> k_current_thread k' = k_runnable_threads k ! i"
  using assms
proof (induction i arbitrary: k)
  case 0
  then obtain t ts where "k_runnable_threads k = t # ts" by (cases "k_runnable_threads k") auto
  with 0 tick_rotates [OF 0(1,2)] show ?case by fastforce
next
  case (Suc i)
  then obtain t ts where q: "k_runnable_threads k = t # ts" by (cases "k_runnable_threads k") auto
  obtain k1 us where k1: "Preempt k = Inr k1" "sched_inv W k1" "all_live k1" "k_runnable_threads k1 = ts @ us"
    using tick_rotates [OF Suc.prems(1,2) q] by blast
  have "i < length (k_runnable_threads k1)" using Suc.prems(3) q k1(4) by simp
  from Suc.IH [OF k1(2,3) this] obtain k' where "ticks (Suc i) k1 = Inr k'" "sched_inv W k'" "all_live k'"
      "k_current_thread k' = k_runnable_threads k1 ! i" by blast
  then show ?case using k1(1,4) q Suc.prems(3) by (auto simp: nth_append)
qed

lemma sleeper_wakes:
  assumes "sched_inv W k" and "all_live k" and "t \<in> set (k_sleeping_threads k)" and "unat (th_sleep_ticks (k_threads k t)) = Suc n"
  shows "\<exists>k'. ticks (Suc n) k = Inr k' \<and> sched_inv W k' \<and> all_live k' \<and> t \<in> insert (k_current_thread k') (set (k_runnable_threads k'))"
  using assms
proof (induction n arbitrary: k)
  case 0
  have "th_sleep_ticks (k_threads k t) = 1" using of_nat_unat_eq [OF 0(4)] by simp
  then have d: "t \<in> set (due k)" using 0(3) by (simp add: due_def)
  obtain k' where k': "Preempt k = Inr k'" "sched_inv W k'" "all_live k'"
      "k_current_thread k' # k_runnable_threads k' =
        (case k_runnable_threads k @ due k of [] \<Rightarrow> [k_current_thread k] | t # ts \<Rightarrow> t # ts @ [k_current_thread k])"
    using tick_live [OF 0(1,2)] by blast
  have "t \<in> set (k_current_thread k' # k_runnable_threads k')"
    unfolding k'(4) using d by (auto split: list.splits simp: append_eq_Cons_conv)
  then show ?case using k'(1-3) by auto
next
  case (Suc n)
  have "th_sleep_ticks (k_threads k t) \<noteq> 1" using Suc.prems(4) by auto
  moreover obtain k1 where k1: "Preempt k = Inr k1" "sched_inv W k1" "all_live k1"
      "k_sleeping_threads k1 = filter (\<lambda>t. th_sleep_ticks (k_threads k t) \<noteq> 1) (k_sleeping_threads k)"
      "\<And>t. t \<in> set (k_sleeping_threads k) \<Longrightarrow> th_sleep_ticks (k_threads k1 t) = th_sleep_ticks (k_threads k t) - 1"
    using tick_live [OF Suc.prems(1,2)] by blast
  moreover have "unat (th_sleep_ticks (k_threads k t) - 1) = Suc n"
    using Suc.prems(4) by (subst unat_sub_le) (simp_all add: word_le_unat)
  ultimately show ?case using Suc.IH [OF k1(2,3)] Suc.prems(3) by auto
qed

lemma Scheduler_Sleep_ok:
  assumes "sched_inv W k" and "k_current_thread k \<noteq> k_sleep_thread k"
  shows "\<exists>k'. Scheduler_Sleep millis k = Inr k' \<and> sched_inv W k' \<and> k_current_thread k \<in> set (k_sleeping_threads k') \<and>
    th_sleep_ticks (k_threads k' (k_current_thread k)) = millis div 50 + 1 \<and> (all_live k \<longrightarrow> all_live k')"
proof -
  let ?c = "k_current_thread k"
  let ?k = "on_thread ?c (\<lambda>th. th\<lparr>th_sleep_ticks := millis div 50 + 1, th_state := T_SLEEPING\<rparr>)
      (k\<lparr>k_sleeping_threads := k_sleeping_threads k @ [?c]\<rparr>)"
  have run: "Scheduler_Sleep millis k = Yield ?k"
    using assms(1) by (cases k) (auto simp: Scheduler_Sleep_def Let_def Thread_SetState_def SetSleepTicks_def IsDying_def sched_inv_def on_thread_def)
  have inv: "k_enabled ?k" "lists_inv W ?k" "th_state (k_threads ?k (k_sleep_thread ?k)) = T_RUNNABLE"
    using assms by (auto simp: sched_inv_def lists_inv_def live_in_def IsDying_def)
  have "all_live (switched ?k)" if "all_live k" using that by (auto simp: all_live_def switched_def IsDying_def)
  then show ?thesis
    using Yield_ok [OF inv(1,2) _ inv(3)] switched_inv(1) [OF inv] assms(2) unfolding run by (auto simp: switched_def)
qed

text \<open>
  C14. A thread that goes to sleep runs again: when the current thread calls \<open>Sleep\<close> on a system
  that keeps the scheduling invariant and has no dying thread, the call switches away, after the
  \<open>millis / 50 + 1\<close> timer ticks it asked for the thread is runnable or running, and a bounded number
  of further ticks later it is the current thread; no tick stops the kernel and the invariant holds
  at the end.
\<close>

theorem Sleep_runs_again:
  assumes "sched_inv W k" and "all_live k" and "k_current_thread k \<noteq> k_sleep_thread k"
  shows "\<exists>k1 k2 m k3. Scheduler_Sleep millis k = Inr k1 \<and> ticks (unat (millis div 50 + 1)) k1 = Inr k2 \<and>
    sched_inv W k2 \<and> m \<le> length (k_runnable_threads k2) \<and> ticks m k2 = Inr k3 \<and>
    k_current_thread k3 = k_current_thread k \<and> sched_inv W k3"
proof -
  let ?c = "k_current_thread k"
  obtain k1 where k1: "Scheduler_Sleep millis k = Inr k1" "sched_inv W k1" "?c \<in> set (k_sleeping_threads k1)"
      "th_sleep_ticks (k_threads k1 ?c) = millis div 50 + 1" "all_live k1"
    using Scheduler_Sleep_ok [OF assms(1,3)] assms(2) by blast
  have "unat (millis div 50) < 18446744073709551615"
    using unat_lt_64 [of millis] by (simp add: unat_div)
  then have n: "unat (millis div 50 + 1) = Suc (unat (millis div 50))" by (subst unat_add_noof) simp_all
  obtain k2 where k2: "ticks (unat (millis div 50 + 1)) k1 = Inr k2" "sched_inv W k2" "all_live k2"
      "?c \<in> insert (k_current_thread k2) (set (k_runnable_threads k2))"
    using sleeper_wakes [OF k1(2,5,3)] k1(4) n by auto
  show ?thesis
  proof (cases "?c = k_current_thread k2")
    case True
    have "ticks 0 k2 = Inr k2" by simp
    then show ?thesis using k1(1) k2 True by (metis le0)
  next
    case False
    then obtain i where i: "i < length (k_runnable_threads k2)" "k_runnable_threads k2 ! i = ?c"
      using k2(4) by (auto simp: in_set_conv_nth)
    obtain k3 where "ticks (Suc i) k2 = Inr k3" "sched_inv W k3" "k_current_thread k3 = ?c"
      using queue_runs [OF k2(2,3) i(1)] i(2) by auto
    then show ?thesis using k1(1) k2(1,2) i(1) by (metis Suc_leI)
  qed
qed

text \<open>A system with the sleep thread 0, the current thread 1 and the runnable thread 2.\<close>

definition example_thread :: "u64 \<Rightarrow> ThreadState \<Rightarrow> Thread" where
  "example_thread i st = \<lparr>th_process = 1, th_id = i, th_state = st, th_is_kernel = False, th_user_stack_base = 0, th_sleep_ticks = 0,
     th_rip = 0, th_arg1 = 0, th_arg2 = 0, th_rsp0_start = 0, th_blocked_threads = []\<rparr>"

definition example_kernel :: Kernel where
  "example_kernel = \<lparr>k_threads = (\<lambda>t. if t = 1 then example_thread 1 T_RUNNING else example_thread (of_nat t) T_RUNNABLE),
     k_enabled = True, k_current_thread = 1, k_runnable_threads = [2], k_sleeping_threads = [], k_sleep_thread = 0\<rparr>"

lemma example_kernel_ok:
  "sched_inv {} example_kernel" "all_live example_kernel" "k_current_thread example_kernel \<noteq> k_sleep_thread example_kernel"
  by (auto simp: example_kernel_def example_thread_def sched_inv_def lists_inv_def live_in_def IsDying_def all_live_def)

theorem Sleep_runs_again_witness:
  "\<exists>k1 k2 m k3. Scheduler_Sleep 100 example_kernel = Inr k1 \<and> ticks 3 k1 = Inr k2 \<and> ticks m k2 = Inr k3 \<and> k_current_thread k3 = 1"
  using Sleep_runs_again [OF example_kernel_ok, of 100] by (auto simp: example_kernel_def)

section \<open>Mutual exclusion\<close>

text \<open>
  One mutex and the threads that use it.  The current thread may try to lock the mutex, unless it
  owns it, and the owner may release it; a timer tick may come at any time.  \<open>ms_owner\<close> is the
  thread whose last \<open>Lock\<close> returned, \<open>ms_woken\<close> are the threads that were taken out of the waiting
  list and have not run their loop again.
\<close>

record MutexSystem =
  ms_mutex :: Mutex
  ms_kernel :: Kernel
  ms_owner :: "nat option"
  ms_woken :: "nat set"

inductive mutex_step :: "MutexSystem \<Rightarrow> MutexSystem \<Rightarrow> bool" where
  acquire: "k_current_thread k \<noteq> k_sleep_thread k \<Longrightarrow> ow \<noteq> Some (k_current_thread k) \<Longrightarrow> Mutex_Lock m k = Inr (True, m', k') \<Longrightarrow>
    mutex_step \<lparr>ms_mutex = m, ms_kernel = k, ms_owner = ow, ms_woken = w\<rparr>
      \<lparr>ms_mutex = m', ms_kernel = k', ms_owner = Some (k_current_thread k), ms_woken = w - {k_current_thread k}\<rparr>"
| wait: "k_current_thread k \<noteq> k_sleep_thread k \<Longrightarrow> ow \<noteq> Some (k_current_thread k) \<Longrightarrow> Mutex_Lock m k = Inr (False, m', k') \<Longrightarrow>
    mutex_step \<lparr>ms_mutex = m, ms_kernel = k, ms_owner = ow, ms_woken = w\<rparr>
      \<lparr>ms_mutex = m', ms_kernel = k', ms_owner = ow, ms_woken = w - {k_current_thread k}\<rparr>"
| release: "Mutex_Release m k = Inr (m', k') \<Longrightarrow>
    mutex_step \<lparr>ms_mutex = m, ms_kernel = k, ms_owner = Some (k_current_thread k), ms_woken = w\<rparr>
      \<lparr>ms_mutex = m', ms_kernel = k', ms_owner = None,
       ms_woken = w \<union> (set (mx_blocked_threads m) - set (mx_blocked_threads m'))\<rparr>"
| tick: "Preempt k = Inr k' \<Longrightarrow>
    mutex_step \<lparr>ms_mutex = m, ms_kernel = k, ms_owner = ow, ms_woken = w\<rparr>
      \<lparr>ms_mutex = m, ms_kernel = k', ms_owner = ow, ms_woken = w\<rparr>"

definition mutex_start :: "Kernel \<Rightarrow> MutexSystem" where
  "mutex_start k = \<lparr>ms_mutex = Mutex_Create, ms_kernel = k, ms_owner = None, ms_woken = {}\<rparr>"

definition mutex_inv :: "MutexSystem \<Rightarrow> bool" where
  "mutex_inv s \<longleftrightarrow> (let m = ms_mutex s; k = ms_kernel s in
     sched_inv (set (mx_blocked_threads m)) k \<and> all_live k \<and> distinct (mx_blocked_threads m) \<and>
     mx_lock m = (if ms_owner s = None then 0 else 1) \<and>
     (\<forall>t. ms_owner s = Some t \<longrightarrow> t \<notin> set (mx_blocked_threads m) \<and> t \<noteq> k_sleep_thread k) \<and>
     ms_woken s \<subseteq> insert (k_current_thread k) (set (k_runnable_threads k)) \<and>
     (mx_blocked_threads m \<noteq> [] \<longrightarrow> ms_owner s \<noteq> None \<or> ms_woken s \<noteq> {}))"

lemma mutex_inv_start: "sched_inv {} k \<Longrightarrow> all_live k \<Longrightarrow> mutex_inv (mutex_start k)"
  by (simp add: mutex_inv_def mutex_start_def Mutex_Create_def)

lemma all_live_state: "all_live k \<Longrightarrow> st \<noteq> T_CLEANUP \<Longrightarrow> st \<noteq> T_FINISHED \<Longrightarrow> all_live (on_thread t (\<lambda>th. th\<lparr>th_state := st\<rparr>) k)"
  by (simp add: all_live_def IsDying_def)

lemma all_live_switched: "all_live k \<Longrightarrow> all_live (switched k)"
  unfolding switched_def by (rule all_live_state) (simp_all add: all_live_def)

lemma suspend_live:
  assumes "sched_inv W k" and "all_live k" and "k_current_thread k \<noteq> k_sleep_thread k"
  shows "\<exists>k'. suspend_current k = Inr k' \<and> sched_inv (insert (k_current_thread k) W) k' \<and> all_live k' \<and>
    k_sleep_thread k' = k_sleep_thread k \<and>
    set (k_runnable_threads k) \<subseteq> insert (k_current_thread k') (set (k_runnable_threads k'))"
proof -
  obtain k' where k': "suspend_current k = Inr k'" "sched_inv (insert (k_current_thread k) W) k'" "k_sleep_thread k' = k_sleep_thread k"
    using suspend_current_ok [OF assms(1,3)] by blast
  let ?k = "on_thread (k_current_thread k) (\<lambda>th. th\<lparr>th_state := T_BLOCKED\<rparr>) k"
  have inv: "lists_inv (insert (k_current_thread k) W) ?k" "k_enabled ?k" "th_state (k_threads ?k (k_sleep_thread ?k)) = T_RUNNABLE"
    using assms(1,3) by (auto simp: sched_inv_def lists_inv_def live_in_def IsDying_def)
  have live: "all_live ?k" using assms(2) by (simp add: all_live_state)
  then have q: "clear_dead (k_threads ?k) (k_runnable_threads k) = k_runnable_threads k"
    by (intro clear_dead_live) (simp add: all_live_def)
  have "k' = switched ?k"
    using k'(1) Yield_ok [OF inv(2,1) _ inv(3)] assms(2,3) by (simp add: suspend_current_def Thread_SetState_def all_live_def)
  then have "all_live k'" "set (k_runnable_threads k) \<subseteq> insert (k_current_thread k') (set (k_runnable_threads k'))"
    using all_live_switched [OF live] q by (auto simp: switched_def next_thread_def split: list.splits)
  then show ?thesis using k' by blast
qed

lemma wake_live:
  assumes "sched_inv W k" and "all_live k" and "t \<in> W" and "k_current_thread k \<noteq> k_sleep_thread k"
  shows "\<exists>k'. wake_thread t k = Inr k' \<and> sched_inv (W - {t}) k' \<and> all_live k' \<and> k_current_thread k' = k_current_thread k \<and>
    k_runnable_threads k' = k_runnable_threads k @ [t] \<and> k_sleep_thread k' = k_sleep_thread k"
proof -
  have "all_live k'" if "wake_thread t k = Inr k'" for k'
    using that assms(2,4) by (auto simp: wake_thread_def Thread_SetState_def Enqueue_def Let_def all_live_def IsDying_def split: if_splits)
  then show ?thesis using wake_thread_ok [OF assms(1,3) _ assms(4)] assms(2) by (auto simp: all_live_def)
qed

lemma mutex_step_returns:
  assumes "mutex_inv s" and "k_current_thread (ms_kernel s) \<noteq> k_sleep_thread (ms_kernel s)"
  shows "\<exists>b m k. Mutex_Lock (ms_mutex s) (ms_kernel s) = Inr (b, m, k) \<and> (b \<longleftrightarrow> ms_owner s = None)"
    and "\<exists>m k. Mutex_Release (ms_mutex s) (ms_kernel s) = Inr (m, k)"
proof -
  let ?m = "ms_mutex s" and ?k = "ms_kernel s"
  have inv: "sched_inv (set (mx_blocked_threads ?m)) ?k" "all_live ?k" "distinct (mx_blocked_threads ?m)"
      "mx_lock ?m = (if ms_owner s = None then 0 else 1)"
    using assms(1) by (auto simp: mutex_inv_def Let_def)
  then show "\<exists>b m k. Mutex_Lock ?m ?k = Inr (b, m, k) \<and> (b \<longleftrightarrow> ms_owner s = None)"
    using sched.wait_on_ok [of "mx_blocked_threads ?m" "{}" ?k] assms(2) by (auto simp: Mutex_Lock_wait_on)
  show "\<exists>m k. Mutex_Release ?m ?k = Inr (m, k)"
    using sched.wake_first_ok [of "mx_blocked_threads ?m" "{}" ?k] inv assms(2)
    by (auto simp: Mutex_Release_wake_first all_live_def)
qed

lemma mutex_step_inv:
  assumes "mutex_step s s'" and "mutex_inv s"
  shows "mutex_inv s'"
  using assms
proof (cases rule: mutex_step.cases)
  case (acquire k ow m m' k' w)
  then show ?thesis using assms(2) by (auto simp: mutex_inv_def Let_def Mutex_Lock_wait_on run_map_eq_Inr sched_inv_def split: if_splits)
next
  case (wait k ow m m' k' w)
  then have m: "mx_lock m = 1" and ow: "ow \<noteq> None" using assms(2)
    by (auto simp: mutex_inv_def Let_def Mutex_Lock_wait_on run_map_eq_Inr split: if_splits)
  have inv: "sched_inv (set (mx_blocked_threads m)) k" "all_live k" "distinct (mx_blocked_threads m)" "k_current_thread k \<notin> set (mx_blocked_threads m)"
    using assms(2) wait(1) by (auto simp: mutex_inv_def Let_def sched_inv_def)
  obtain k1 where k1: "suspend_current k = Inr k1" "sched_inv (insert (k_current_thread k) (set (mx_blocked_threads m))) k1" "all_live k1"
      "k_sleep_thread k1 = k_sleep_thread k" "set (k_runnable_threads k) \<subseteq> insert (k_current_thread k1) (set (k_runnable_threads k1))"
    using suspend_live [OF inv(1,2) wait(3)] by blast
  have "k' = k1" "m' = m\<lparr>mx_lock := 1, mx_blocked_threads := mx_blocked_threads m @ [k_current_thread k]\<rparr>"
    using wait(5) m k1(1) by (auto simp: Mutex_Lock_wait_on wait_on_def)
  then show ?thesis using assms(2) wait(1,2,4) k1 inv ow by (auto simp: mutex_inv_def Let_def)
next
  case (release m k m' k' w)
  have inv: "sched_inv (set (mx_blocked_threads m)) k" "all_live k" "distinct (mx_blocked_threads m)" "k_current_thread k \<noteq> k_sleep_thread k"
      "w \<subseteq> insert (k_current_thread k) (set (k_runnable_threads k))"
    using assms(2) release(1) by (auto simp: mutex_inv_def Let_def)
  show ?thesis
  proof (cases "mx_blocked_threads m")
    case Nil
    then show ?thesis using assms(2) release by (auto simp: Mutex_Release_wake_first wake_first_def mutex_inv_def Let_def)
  next
    case (Cons t ts)
    obtain k1 where k1: "wake_thread t k = Inr k1" "sched_inv (set (mx_blocked_threads m) - {t}) k1" "all_live k1"
        "k_current_thread k1 = k_current_thread k" "k_runnable_threads k1 = k_runnable_threads k @ [t]"
      using wake_live [OF inv(1,2) _ inv(4), of t] Cons by auto
    moreover have "set (mx_blocked_threads m) - {t} = set ts" using Cons inv(3) by auto
    moreover have "k' = k1" "m' = m\<lparr>mx_lock := 0, mx_blocked_threads := ts\<rparr>"
      using release(3) k1(1) Cons by (auto simp: Mutex_Release_wake_first wake_first_def)
    ultimately show ?thesis using release(2) inv Cons by (auto simp: mutex_inv_def Let_def)
  qed
next
  case (tick k k' m ow w)
  have inv: "sched_inv (set (mx_blocked_threads m)) k" "all_live k" using assms(2) tick(1) by (auto simp: mutex_inv_def Let_def)
  have "set (k_current_thread k # k_runnable_threads k) \<subseteq> set (k_current_thread k' # k_runnable_threads k')"
    using tick_live [OF inv] tick(3) by (auto split: list.splits simp: append_eq_Cons_conv)
  then show ?thesis using tick_live [OF inv] tick assms(2) by (auto simp: mutex_inv_def Let_def)
qed



section \<open>The scheduler touches only its own part of the state\<close>

lemma on_thread_more [simp]: "Kernel.more (on_thread t f k) = Kernel.more k"
  by (simp add: on_thread_def)

lemma SetState_more: "Thread_SetState t st k = Inr k' \<Longrightarrow> Kernel.more k' = Kernel.more k"
  by (auto simp: Thread_SetState_def split: if_splits)

lemma SwapToCurrent_more: "SwapToCurrent k = Inr k' \<Longrightarrow> Kernel.more k' = Kernel.more k"
  by (auto simp: SwapToCurrent_def dest: SetState_more split: if_splits)

lemma Yield_more: "Yield k = Inr k' \<Longrightarrow> Kernel.more k' = Kernel.more k"
  by (auto simp: Yield_def Let_def ClearDeadThreadsFromFront_def run_bind_eq_Inr
      dest!: SwapToCurrent_more SetState_more split: if_splits list.splits)

lemma Enqueue_more: "Enqueue t k = Inr k' \<Longrightarrow> Kernel.more k' = Kernel.more k"
  by (auto simp: Enqueue_def Let_def dest!: Yield_more split: if_splits)

lemma suspend_current_more: "suspend_current k = Inr k' \<Longrightarrow> Kernel.more k' = Kernel.more k"
  by (auto simp: suspend_current_def run_bind_eq_Inr dest!: SetState_more Yield_more)

lemma wake_thread_more: "wake_thread t k = Inr k' \<Longrightarrow> Kernel.more k' = Kernel.more k"
  by (auto simp: wake_thread_def run_bind_eq_Inr dest!: SetState_more Enqueue_more)

lemma wait_on_more: "wait_on k_current_thread suspend_current ws k = Inr (ws', k') \<Longrightarrow> Kernel.more k' = Kernel.more k"
  by (auto simp: wait_on_def run_map_eq_Inr dest: suspend_current_more)

lemma wake_first_more: "wake_first wake_thread ws k = Inr (ws', k') \<Longrightarrow> Kernel.more k' = Kernel.more k"
  by (auto simp: wake_first_def run_map_eq_Inr dest: wake_thread_more split: list.splits)

lemma decrement_loop_more: "decrement_loop ts k = Inr k' \<Longrightarrow> Kernel.more k' = Kernel.more k"
proof (induction ts arbitrary: k)
  case (Cons t ts)
  obtain d th where d: "DecrementSleepTicks (k_threads k t) = (d, th)" by fastforce
  let ?k = "on_thread t (\<lambda>_. th) k"
  show ?case
  proof (cases d)
    case True
    with Cons.prems d obtain k1 where "Thread_SetState t T_RUNNABLE (?k\<lparr>k_sleeping_threads := remove1 t (k_sleeping_threads k)\<rparr>) = Inr k1"
        "decrement_loop ts (k1\<lparr>k_runnable_threads := k_runnable_threads k1 @ [t]\<rparr>) = Inr k'"
      by (auto simp: run_bind_eq_Inr)
    then show ?thesis using Cons.IH [of "k1\<lparr>k_runnable_threads := k_runnable_threads k1 @ [t]\<rparr>"] SetState_more [of t T_RUNNABLE _ k1] by simp
  next
    case False
    with Cons.prems d show ?thesis using Cons.IH [of ?k] by simp
  qed
qed simp

text \<open>The second half of a timer tick.\<close>

definition preempt_switch :: "'z Kernel_scheme \<Rightarrow> 'z Kernel_scheme run" where
  "preempt_switch k =
     (if k_runnable_threads k = [] then Inr k
      else run_bind (Thread_SetState (k_current_thread k) T_RUNNABLE k) (\<lambda>k'.
           case k_runnable_threads k' @ [k_current_thread k] of
             [] \<Rightarrow> Inl NullDeref
           | t # ts \<Rightarrow> SwapToCurrent (k'\<lparr>k_runnable_threads := ts, k_current_thread := t\<rparr>)))"

lemma Preempt_switch:
  "k_enabled k \<Longrightarrow> Preempt k = run_bind (DecrementSleepingThreads k) (\<lambda>k. preempt_switch (ClearDeadThreadsFromFront k))"
  unfolding Preempt_def preempt_switch_def Let_def by simp

lemma preempt_switch_more:
  assumes "preempt_switch k = Inr k'"
  shows "Kernel.more k' = Kernel.more k"
proof (cases "k_runnable_threads k = []")
  case False
  with assms obtain k2 where k2: "Thread_SetState (k_current_thread k) T_RUNNABLE k = Inr k2"
      "(case k_runnable_threads k2 @ [k_current_thread k] of
          [] \<Rightarrow> Inl NullDeref | t # ts \<Rightarrow> SwapToCurrent (k2\<lparr>k_runnable_threads := ts, k_current_thread := t\<rparr>)) = Inr k'"
    unfolding preempt_switch_def by (auto simp: run_bind_eq_Inr)
  obtain t ts where "k_runnable_threads k2 @ [k_current_thread k] = t # ts" by (cases "k_runnable_threads k2") auto
  with k2(2) have "SwapToCurrent (k2\<lparr>k_runnable_threads := ts, k_current_thread := t\<rparr>) = Inr k'" by simp
  from SwapToCurrent_more [OF this] SetState_more [OF k2(1)] show ?thesis by simp
qed (use assms in \<open>simp add: preempt_switch_def\<close>)

lemma Preempt_more: "Preempt k = Inr k' \<Longrightarrow> Kernel.more k' = Kernel.more k"
proof (cases "k_enabled k")
  case True
  assume "Preempt k = Inr k'"
  then obtain k1 where k1: "decrement_loop (k_sleeping_threads k) k = Inr k1" "preempt_switch (ClearDeadThreadsFromFront k1) = Inr k'"
    unfolding Preempt_switch [OF True] DecrementSleepingThreads_def run_bind_eq_Inr by blast
  from preempt_switch_more [OF this(2)] decrement_loop_more [OF this(1)] show ?thesis by (simp add: ClearDeadThreadsFromFront_def)
qed (simp add: Preempt_def)

lemma Thread_Wait_more: "Thread_Wait t k = Inr k' \<Longrightarrow> Kernel.more k' = Kernel.more k"
  by (auto simp: Thread_Wait_def Let_def run_bind_eq_Inr split: if_splits dest!: SetState_more Yield_more)

lemma Sleep_more: "Scheduler_Sleep millis k = Inr k' \<Longrightarrow> Kernel.more k' = Kernel.more k"
  by (auto simp: Scheduler_Sleep_def Let_def run_bind_eq_Inr dest!: SetState_more Yield_more)

lemmas scheduler_more = wait_on_more wake_first_more Preempt_more

end
