(* ===== verification/Zion_MessageQueue.thy ===== *)
theory Zion_MessageQueue
  imports Zion_Scheduler Zion_Capability
begin

text \<open>
  The message queues of the kernel (\<open>zion/lib/message_queue.h\<close>, \<open>zion/lib/message_queue.cpp\<close>):
  the unbounded queue of channels, ports and endpoints and the single message of a reply port.

  The array of bytes and the vector of capabilities of a message are the lists of their contents.
  The mutex of a queue is released before every context switch, so that it only serialises
  operations that are one step here.  A reader that finds nothing is put into the waiting list and
  suspended; the answer \<open>None\<close> says so, and the reader runs the loop again when it is next current.
\<close>

record IpcMessage =
  msg_data :: "u8 list"
  msg_caps :: "Capability option list"
  msg_reply_cap :: "Capability option"

definition IpcMessage_new :: IpcMessage where
  "IpcMessage_new = \<lparr>msg_data = [], msg_caps = [], msg_reply_cap = None\<rparr>"

record UnboundedMessageQueue =
  uq_pending_messages :: "IpcMessage list"
  uq_blocked_threads :: "nat list"

definition UnboundedMessageQueue_new :: UnboundedMessageQueue where
  "UnboundedMessageQueue_new = \<lparr>uq_pending_messages = [], uq_blocked_threads = []\<rparr>"

definition UnboundedMessageQueue_empty :: "UnboundedMessageQueue \<Rightarrow> bool" where
  "UnboundedMessageQueue_empty q \<longleftrightarrow> uq_pending_messages q = []"

definition UnboundedMessageQueue_PushBack ::
    "IpcMessage \<Rightarrow> UnboundedMessageQueue \<Rightarrow> 'z Kernel_scheme \<Rightarrow> (ErrorCode \<times> UnboundedMessageQueue \<times> 'z Kernel_scheme) run" where
  "UnboundedMessageQueue_PushBack message q k =
     (let q = q\<lparr>uq_pending_messages := uq_pending_messages q @ [message]\<rparr>
      in case uq_blocked_threads q of
           [] \<Rightarrow> Inr (OK, q, k)
         | t # ts \<Rightarrow>
             run_bind (Thread_SetState t T_RUNNABLE k) (\<lambda>k.
             run_map (\<lambda>k. (OK, q\<lparr>uq_blocked_threads := ts\<rparr>, k)) (Enqueue t k)))"

definition UnboundedMessageQueue_PopFront ::
    "u64 \<Rightarrow> u64 \<Rightarrow> UnboundedMessageQueue \<Rightarrow> 'z Kernel_scheme \<Rightarrow>
     ((ErrorCode + IpcMessage) option \<times> UnboundedMessageQueue \<times> 'z Kernel_scheme) run" where
  "UnboundedMessageQueue_PopFront data_buf_size cap_buf_size q k =
     (case uq_pending_messages q of
        [] \<Rightarrow>
          let thread = k_current_thread k
          in run_bind (Thread_SetState thread T_BLOCKED k) (\<lambda>k.
             run_map (\<lambda>k. (None, q\<lparr>uq_blocked_threads := uq_blocked_threads q @ [thread]\<rparr>, k)) (Yield k))
      | next_msg # rest \<Rightarrow>
          if of_nat (length (msg_data next_msg)) > data_buf_size then Inr (Some (Inl BUFFER_SIZE), q, k)
          else if of_nat (length (msg_caps next_msg)) > cap_buf_size then Inr (Some (Inl BUFFER_SIZE), q, k)
          else Inr (Some (Inr next_msg), q\<lparr>uq_pending_messages := rest\<rparr>, k))"

text \<open>The message the kernel itself leaves in the first port: the eight bytes of a number and a capability.\<close>

definition UnboundedMessageQueue_WriteKernel :: "u64 \<Rightarrow> Capability option \<Rightarrow> UnboundedMessageQueue \<Rightarrow> UnboundedMessageQueue" where
  "UnboundedMessageQueue_WriteKernel init cap q =
     q\<lparr>uq_pending_messages := uq_pending_messages q @
        [\<lparr>msg_data = map (\<lambda>i. ucast (drop_bit (8 * i) init)) [0..<8], msg_caps = [cap], msg_reply_cap = None\<rparr>]\<rparr>"

record SingleMessageQueue =
  sq_has_written :: bool
  sq_has_read :: bool
  sq_message :: IpcMessage
  sq_blocked_threads :: "nat list"

definition SingleMessageQueue_new :: SingleMessageQueue where
  "SingleMessageQueue_new = \<lparr>sq_has_written = False, sq_has_read = False, sq_message = IpcMessage_new, sq_blocked_threads = []\<rparr>"

definition SingleMessageQueue_empty :: "SingleMessageQueue \<Rightarrow> bool" where
  "SingleMessageQueue_empty q \<longleftrightarrow> sq_has_written q = False"

definition SingleMessageQueue_PushBack ::
    "IpcMessage \<Rightarrow> SingleMessageQueue \<Rightarrow> 'z Kernel_scheme \<Rightarrow> (ErrorCode \<times> SingleMessageQueue \<times> 'z Kernel_scheme) run" where
  "SingleMessageQueue_PushBack message q k =
     (if msg_reply_cap message \<noteq> None then Inr (INTERNAL, q, k)
      else if sq_has_written q then Inr (FAILED_PRECONDITION, q, k)
      else let q = q\<lparr>sq_message := message, sq_has_written := True\<rparr>
           in case sq_blocked_threads q of
                [] \<Rightarrow> Inr (OK, q, k)
              | t # ts \<Rightarrow>
                  run_bind (Thread_SetState t T_RUNNABLE k) (\<lambda>k.
                  run_map (\<lambda>k. (OK, q\<lparr>sq_blocked_threads := ts\<rparr>, k)) (Enqueue t k)))"

definition SingleMessageQueue_PopFront ::
    "u64 \<Rightarrow> u64 \<Rightarrow> SingleMessageQueue \<Rightarrow> 'z Kernel_scheme \<Rightarrow>
     ((ErrorCode + IpcMessage) option \<times> SingleMessageQueue \<times> 'z Kernel_scheme) run" where
  "SingleMessageQueue_PopFront data_buf_size cap_buf_size q k =
     (if \<not> sq_has_written q
      then let thread = k_current_thread k
           in run_bind (Thread_SetState thread T_BLOCKED k) (\<lambda>k.
              run_map (\<lambda>k. (None, q\<lparr>sq_blocked_threads := sq_blocked_threads q @ [thread]\<rparr>, k)) (Yield k))
      else if sq_has_read q then Inr (Some (Inl FAILED_PRECONDITION), q, k)
      else if of_nat (length (msg_data (sq_message q))) > data_buf_size then Inr (Some (Inl BUFFER_SIZE), q, k)
      else if of_nat (length (msg_caps (sq_message q))) > cap_buf_size then Inr (Some (Inl BUFFER_SIZE), q, k)
      else Inr (Some (Inr (sq_message q)), q\<lparr>sq_has_read := True, sq_message := IpcMessage_new\<rparr>, k))"

section \<open>Waiting readers\<close>

text \<open>The waiting lists of both queues are used as those of a mutex are.\<close>

lemma UnboundedMessageQueue_PushBack_wake_first:
  "UnboundedMessageQueue_PushBack message q k =
     run_map (\<lambda>(ws, k). (OK, q\<lparr>uq_pending_messages := uq_pending_messages q @ [message], uq_blocked_threads := ws\<rparr>, k))
       (wake_first wake_thread (uq_blocked_threads q) k)"
  by (cases "uq_blocked_threads q"; cases q; cases "Thread_SetState (hd (uq_blocked_threads q)) T_RUNNABLE k";
      cases "Enqueue (hd (uq_blocked_threads q)) (projr (Thread_SetState (hd (uq_blocked_threads q)) T_RUNNABLE k))")
     (auto simp: UnboundedMessageQueue_PushBack_def Let_def wake_first_def wake_thread_def)

lemma SingleMessageQueue_PushBack_wake_first:
  "SingleMessageQueue_PushBack message q k =
     (if msg_reply_cap message \<noteq> None then Inr (INTERNAL, q, k)
      else if sq_has_written q then Inr (FAILED_PRECONDITION, q, k)
      else run_map (\<lambda>(ws, k). (OK, q\<lparr>sq_message := message, sq_has_written := True, sq_blocked_threads := ws\<rparr>, k))
       (wake_first wake_thread (sq_blocked_threads q) k))"
  by (cases "sq_blocked_threads q"; cases q; cases "Thread_SetState (hd (sq_blocked_threads q)) T_RUNNABLE k";
      cases "Enqueue (hd (sq_blocked_threads q)) (projr (Thread_SetState (hd (sq_blocked_threads q)) T_RUNNABLE k))")
     (auto simp: SingleMessageQueue_PushBack_def Let_def wake_first_def wake_thread_def)

lemma UnboundedMessageQueue_PopFront_wait_on:
  "uq_pending_messages q = [] \<Longrightarrow> UnboundedMessageQueue_PopFront d c q k =
     run_map (\<lambda>(ws, k). (None, q\<lparr>uq_blocked_threads := ws\<rparr>, k)) (wait_on k_current_thread suspend_current (uq_blocked_threads q) k)"
  by (cases "IsDying (k_threads k (k_current_thread k))"; cases "Yield (on_thread (k_current_thread k) (\<lambda>th. th\<lparr>th_state := T_BLOCKED\<rparr>) k)")
     (simp_all add: UnboundedMessageQueue_PopFront_def Let_def wait_on_def suspend_current_def Thread_SetState_def)

lemma SingleMessageQueue_PopFront_wait_on:
  "\<not> sq_has_written q \<Longrightarrow> SingleMessageQueue_PopFront d c q k =
     run_map (\<lambda>(ws, k). (None, q\<lparr>sq_blocked_threads := ws\<rparr>, k)) (wait_on k_current_thread suspend_current (sq_blocked_threads q) k)"
  by (cases "IsDying (k_threads k (k_current_thread k))"; cases "Yield (on_thread (k_current_thread k) (\<lambda>th. th\<lparr>th_state := T_BLOCKED\<rparr>) k)")
     (simp_all add: SingleMessageQueue_PopFront_def Let_def wait_on_def suspend_current_def Thread_SetState_def)

section \<open>The interface of a queue\<close>

text \<open>
  Both classes implement \<open>MessageQueue\<close>.  \<open>content\<close> are the messages accepted and not yet read; a
  refused message and a failed or waiting read leave it alone.
\<close>

locale message_queue =
  fixes push :: "IpcMessage \<Rightarrow> 'q \<Rightarrow> 'k \<Rightarrow> (ErrorCode \<times> 'q \<times> 'k) run"
    and pop :: "u64 \<Rightarrow> u64 \<Rightarrow> 'q \<Rightarrow> 'k \<Rightarrow> ((ErrorCode + IpcMessage) option \<times> 'q \<times> 'k) run"
    and good :: "'q \<Rightarrow> bool" and content :: "'q \<Rightarrow> IpcMessage list"
  assumes push_content: "good q \<Longrightarrow> push m q k = Inr (e, q', k') \<Longrightarrow> good q' \<and> content q' = (if e = OK then content q @ [m] else content q)"
    and pop_message: "good q \<Longrightarrow> pop d c q k = Inr (Some (Inr m), q', k') \<Longrightarrow> good q' \<and> content q = m # content q' \<and>
      of_nat (length (msg_data m)) \<le> d \<and> of_nat (length (msg_caps m)) \<le> c"
    and pop_nothing: "good q \<Longrightarrow> pop d c q k = Inr (r, q', k') \<Longrightarrow> (\<And>m. r \<noteq> Some (Inr m)) \<Longrightarrow> good q' \<and> content q' = content q"

datatype queue_op = QPush IpcMessage | QPop u64 u64

text \<open>A run of writes and reads: the accepted messages, the messages read, and the queue at the end.\<close>

fun queue_run :: "(IpcMessage \<Rightarrow> 'q \<Rightarrow> 'k \<Rightarrow> (ErrorCode \<times> 'q \<times> 'k) run) \<Rightarrow>
    (u64 \<Rightarrow> u64 \<Rightarrow> 'q \<Rightarrow> 'k \<Rightarrow> ((ErrorCode + IpcMessage) option \<times> 'q \<times> 'k) run) \<Rightarrow>
    queue_op list \<Rightarrow> 'q \<Rightarrow> 'k \<Rightarrow> (IpcMessage list \<times> IpcMessage list \<times> 'q) run" where
  "queue_run push pop [] q k = Inr ([], [], q)"
| "queue_run push pop (QPush m # ops) q k =
     run_bind (push m q k) (\<lambda>(e, q, k).
     run_map (\<lambda>(sent, got, q). (if e = OK then m # sent else sent, got, q)) (queue_run push pop ops q k))"
| "queue_run push pop (QPop d c # ops) q k =
     run_bind (pop d c q k) (\<lambda>(r, q, k).
     run_map (\<lambda>(sent, got, q). (sent, case r of Some (Inr m) \<Rightarrow> m # got | _ \<Rightarrow> got, q)) (queue_run push pop ops q k))"

context message_queue
begin

lemma delivers_in_order:
  "queue_run push pop ops q k = Inr (sent, got, q') \<Longrightarrow> good q \<Longrightarrow> content q @ sent = got @ content q'"
proof (induction ops arbitrary: q k sent got)
  case (Cons op ops)
  show ?case
  proof (cases op)
    case (QPush m)
    with Cons.prems obtain e q1 k1 sent1 where 1: "push m q k = Inr (e, q1, k1)" "queue_run push pop ops q1 k1 = Inr (sent1, got, q')"
        "sent = (if e = OK then m # sent1 else sent1)"
      by (auto simp: run_bind_eq_Inr run_map_eq_Inr)
    then show ?thesis using Cons.IH [OF 1(2)] push_content [OF Cons.prems(2) 1(1)] by auto
  next
    case (QPop d c)
    with Cons.prems obtain r q1 k1 got1 where 1: "pop d c q k = Inr (r, q1, k1)" "queue_run push pop ops q1 k1 = Inr (sent, got1, q')"
        "got = (case r of Some (Inr m) \<Rightarrow> m # got1 | _ \<Rightarrow> got1)"
      by (auto simp: run_bind_eq_Inr run_map_eq_Inr)
    show ?thesis
    proof (cases "\<exists>m. r = Some (Inr m)")
      case True
      then obtain m where m: "r = Some (Inr m)" by blast
      show ?thesis using pop_message [OF Cons.prems(2) 1(1) [unfolded m]] Cons.IH [OF 1(2)] 1(3) m by auto
    next
      case False
      then have "content q1 = content q" "good q1" using pop_nothing [OF Cons.prems(2) 1(1)] by auto
      moreover have "got = got1" using False 1(3) by (auto split: option.splits sum.splits)
      ultimately show ?thesis using Cons.IH [OF 1(2)] by simp
    qed
  qed
qed simp

end

definition sq_content :: "SingleMessageQueue \<Rightarrow> IpcMessage list" where
  "sq_content q = (if sq_has_written q \<and> \<not> sq_has_read q then [sq_message q] else [])"

definition sq_good :: "SingleMessageQueue \<Rightarrow> bool" where
  "sq_good q \<longleftrightarrow> (sq_has_read q \<longrightarrow> sq_has_written q)"

lemma PopFront_empty: "uq_pending_messages q = [] \<Longrightarrow> UnboundedMessageQueue_PopFront d c q k = Inr (r, q', k') \<Longrightarrow>
    r = None \<and> uq_pending_messages q' = []"
  by (auto simp: UnboundedMessageQueue_PopFront_wait_on run_map_eq_Inr)

lemma PopFront_unwritten: "\<not> sq_has_written q \<Longrightarrow> SingleMessageQueue_PopFront d c q k = Inr (r, q', k') \<Longrightarrow>
    r = None \<and> sq_has_written q' = sq_has_written q \<and> sq_has_read q' = sq_has_read q \<and> sq_message q' = sq_message q"
  by (auto simp: SingleMessageQueue_PopFront_wait_on run_map_eq_Inr)

interpretation unbounded: message_queue UnboundedMessageQueue_PushBack UnboundedMessageQueue_PopFront "\<lambda>_. True" uq_pending_messages
proof
  show "True \<and> uq_pending_messages q' = (if e = OK then uq_pending_messages q @ [m] else uq_pending_messages q)"
    if "UnboundedMessageQueue_PushBack m q k = Inr (e, q', k')" for m q q' e and k k' :: "'a Kernel_scheme"
    using that by (auto simp: UnboundedMessageQueue_PushBack_wake_first run_map_eq_Inr)
  show "True \<and> uq_pending_messages q = m # uq_pending_messages q' \<and> of_nat (length (msg_data m)) \<le> d \<and> of_nat (length (msg_caps m)) \<le> c"
    if "UnboundedMessageQueue_PopFront d c q k = Inr (Some (Inr m), q', k')" for m q q' d c and k k' :: "'a Kernel_scheme"
    using that PopFront_empty [OF _ that] by (cases "uq_pending_messages q") (auto simp: UnboundedMessageQueue_PopFront_def not_less split: if_splits)
  show "True \<and> uq_pending_messages q' = uq_pending_messages q"
    if "UnboundedMessageQueue_PopFront d c q k = Inr (r, q', k')" "\<And>m. r \<noteq> Some (Inr m)" for r q q' d c and k k' :: "'a Kernel_scheme"
    using that(2,1) PopFront_empty [OF _ that(1)] by (cases "uq_pending_messages q") (auto simp: UnboundedMessageQueue_PopFront_def split: if_splits)
qed

interpretation single: message_queue SingleMessageQueue_PushBack SingleMessageQueue_PopFront sq_good sq_content
proof
  show "sq_good q' \<and> sq_content q' = (if e = OK then sq_content q @ [m] else sq_content q)"
    if "sq_good q" "SingleMessageQueue_PushBack m q k = Inr (e, q', k')" for m q q' e and k k' :: "'a Kernel_scheme"
    using that by (auto simp: SingleMessageQueue_PushBack_wake_first run_map_eq_Inr sq_content_def sq_good_def split: if_splits)
  show "sq_good q' \<and> sq_content q = m # sq_content q' \<and> of_nat (length (msg_data m)) \<le> d \<and> of_nat (length (msg_caps m)) \<le> c"
    if "sq_good q" "SingleMessageQueue_PopFront d c q k = Inr (Some (Inr m), q', k')" for m q q' d c and k k' :: "'a Kernel_scheme"
    using that PopFront_unwritten [OF _ that(2)]
    by (cases "sq_has_written q") (auto simp: SingleMessageQueue_PopFront_def sq_content_def sq_good_def not_less split: if_splits)
  show "sq_good q' \<and> sq_content q' = sq_content q"
    if "sq_good q" "SingleMessageQueue_PopFront d c q k = Inr (r, q', k')" "\<And>m. r \<noteq> Some (Inr m)" for r q q' d c and k k' :: "'a Kernel_scheme"
    using that(3,1,2) PopFront_unwritten [OF _ that(2)]
    by (cases "sq_has_written q") (auto simp: SingleMessageQueue_PopFront_def sq_content_def sq_good_def split: if_splits)
qed

text \<open>A reply port accepts one message, and none once it was written.\<close>

lemma written_accepts_nothing:
  "queue_run SingleMessageQueue_PushBack SingleMessageQueue_PopFront ops q k = Inr (sent, got, q') \<Longrightarrow> sq_has_written q \<Longrightarrow> sent = []"
proof (induction ops arbitrary: q k sent got)
  case (Cons op ops)
  show ?case
  proof (cases op)
    case (QPush m)
    then show ?thesis using Cons.prems Cons.IH by (auto simp: run_bind_eq_Inr run_map_eq_Inr SingleMessageQueue_PushBack_def split: if_splits)
  next
    case (QPop d c)
    with Cons.prems obtain r q1 k1 got1 where 1: "SingleMessageQueue_PopFront d c q k = Inr (r, q1, k1)"
        "queue_run SingleMessageQueue_PushBack SingleMessageQueue_PopFront ops q1 k1 = Inr (sent, got1, q')"
      by (auto simp: run_bind_eq_Inr run_map_eq_Inr)
    have "sq_has_written q1" using 1(1) Cons.prems(2) by (auto simp: SingleMessageQueue_PopFront_def split: if_splits)
    then show ?thesis by (rule Cons.IH [OF 1(2)])
  qed
qed simp

lemma single_accepts_one:
  "queue_run SingleMessageQueue_PushBack SingleMessageQueue_PopFront ops q k = Inr (sent, got, q') \<Longrightarrow> length sent \<le> 1"
proof (induction ops arbitrary: q k sent got)
  case (Cons op ops)
  show ?case
  proof (cases op)
    case (QPush m)
    with Cons.prems obtain e q1 k1 sent1 where 1: "SingleMessageQueue_PushBack m q k = Inr (e, q1, k1)"
        "queue_run SingleMessageQueue_PushBack SingleMessageQueue_PopFront ops q1 k1 = Inr (sent1, got, q')" "sent = (if e = OK then m # sent1 else sent1)"
      by (auto simp: run_bind_eq_Inr run_map_eq_Inr)
    have "sq_has_written q1" if "e = OK" using 1(1) that by (auto simp: SingleMessageQueue_PushBack_wake_first run_map_eq_Inr split: if_splits)
    then show ?thesis using Cons.IH [OF 1(2)] written_accepts_nothing [OF 1(2)] 1(3) by (cases "e = OK") auto
  next
    case (QPop d c)
    then show ?thesis using Cons.prems Cons.IH by (auto simp: run_bind_eq_Inr run_map_eq_Inr)
  qed
qed simp

text \<open>
  C16.  Messages arrive in the order in which they were accepted, none is lost, duplicated or
  invented: over any run of writes and reads with buffers of any sizes, what was in the queue followed by
  what was accepted is what was read followed by what is left.  This holds for the queue of ports,
  channels and endpoints and for that of reply ports, which accepts at most one message in its life.
\<close>

theorem message_queues_in_order:
  fixes k k' :: "'z Kernel_scheme"
  shows "(queue_run UnboundedMessageQueue_PushBack UnboundedMessageQueue_PopFront ops q k = Inr (sent, got, q') \<longrightarrow>
      uq_pending_messages q @ sent = got @ uq_pending_messages q') \<and>
    (queue_run SingleMessageQueue_PushBack SingleMessageQueue_PopFront ops SingleMessageQueue_new k' = Inr (sent1, got1, q1) \<longrightarrow>
      sent1 = got1 @ sq_content q1 \<and> length sent1 \<le> 1)"
proof (intro conjI impI)
  assume "queue_run UnboundedMessageQueue_PushBack UnboundedMessageQueue_PopFront ops q k = Inr (sent, got, q')"
  then show "uq_pending_messages q @ sent = got @ uq_pending_messages q'" by (rule unbounded.delivers_in_order) simp
next
  assume r: "queue_run SingleMessageQueue_PushBack SingleMessageQueue_PopFront ops SingleMessageQueue_new k' = Inr (sent1, got1, q1)"
  show "sent1 = got1 @ sq_content q1"
    using single.delivers_in_order [OF r] by (simp add: sq_good_def sq_content_def SingleMessageQueue_new_def)
  show "length sent1 \<le> 1" using single_accepts_one [OF r] by simp
qed

definition fifo_example :: "queue_op list" where
  "fifo_example = [QPush IpcMessage_new, QPush (IpcMessage_new\<lparr>msg_data := [1, 2]\<rparr>), QPop 0 0, QPop 0 0, QPop 8 0]"

theorem message_queues_in_order_witness:
  "queue_run UnboundedMessageQueue_PushBack UnboundedMessageQueue_PopFront fifo_example UnboundedMessageQueue_new example_kernel =
      Inr ([IpcMessage_new, IpcMessage_new\<lparr>msg_data := [1, 2]\<rparr>], [IpcMessage_new, IpcMessage_new\<lparr>msg_data := [1, 2]\<rparr>], UnboundedMessageQueue_new) \<and>
    (\<exists>sent got q. queue_run SingleMessageQueue_PushBack SingleMessageQueue_PopFront fifo_example SingleMessageQueue_new example_kernel = Inr (sent, got, q) \<and>
      sent = got @ sq_content q \<and> length sent \<le> 1)"
proof
  show "queue_run UnboundedMessageQueue_PushBack UnboundedMessageQueue_PopFront fifo_example UnboundedMessageQueue_new example_kernel =
      Inr ([IpcMessage_new, IpcMessage_new\<lparr>msg_data := [1, 2]\<rparr>], [IpcMessage_new, IpcMessage_new\<lparr>msg_data := [1, 2]\<rparr>], UnboundedMessageQueue_new)"
    by (simp add: fifo_example_def UnboundedMessageQueue_new_def UnboundedMessageQueue_PushBack_def UnboundedMessageQueue_PopFront_def IpcMessage_new_def)
  have "\<exists>sent got q. queue_run SingleMessageQueue_PushBack SingleMessageQueue_PopFront fifo_example SingleMessageQueue_new example_kernel = Inr (sent, got, q)"
    by (simp add: fifo_example_def SingleMessageQueue_new_def SingleMessageQueue_PushBack_def SingleMessageQueue_PopFront_def IpcMessage_new_def)
  then show "\<exists>sent got q. queue_run SingleMessageQueue_PushBack SingleMessageQueue_PopFront fifo_example SingleMessageQueue_new example_kernel = Inr (sent, got, q) \<and>
      sent = got @ sq_content q \<and> length sent \<le> 1"
    using message_queues_in_order [of fifo_example undefined example_kernel undefined undefined undefined example_kernel] by blast
qed

end
