(* ===== verification/Zion_Ipc.thy ===== *)
theory Zion_Ipc
  imports Zion_MessageQueue Glcr_Array
begin

text \<open>
  Inter-process communication, capability and synchronisation system calls
  (\<open>zion/object/ipc_object.h\<close>, \<open>channel.h\<close>, \<open>port.h\<close>, \<open>endpoint.h\<close>, \<open>reply_port.h\<close> and
  their sources, \<open>zion/interrupt/driver_manager.cpp\<close>, \<open>zion/syscall/ipc.cpp\<close>,
  \<open>zion/syscall/capability.cpp\<close>, \<open>zion/syscall/synchronization.cpp\<close>).

  The kernel state of the scheduler is extended by the capability table of each process and by the
  kernel objects, which are numbered in the order of their creation.  The memory behind a pointer of
  a request is the list of its cells; reading or writing outside of it is a fault.  A receiving call
  that suspends its thread answers \<open>None\<close>; the thread continues with the second half of the call,
  which is a definition of its own.
\<close>

section \<open>State\<close>

record IpcKernel = Kernel +
  ik_caps :: "u64 \<Rightarrow> CapabilityTable"
  ik_queues :: "nat \<Rightarrow> UnboundedMessageQueue"
  ik_peer :: "nat \<Rightarrow> nat"
  ik_replies :: "nat \<Rightarrow> SingleMessageQueue"
  ik_mutexes :: "nat \<Rightarrow> Mutex"
  ik_semaphores :: "nat \<Rightarrow> Semaphore"
  ik_drivers :: "(u64, nat option) HashMap"
  ik_next_object :: nat

definition CurrentProcess :: "IpcKernel \<Rightarrow> u64" where
  "CurrentProcess k = th_process (k_threads k (k_current_thread k))"

definition on_table :: "(CapabilityTable \<Rightarrow> ('a \<times> CapabilityTable) run) \<Rightarrow> IpcKernel \<Rightarrow> ('a \<times> IpcKernel) run" where
  "on_table f k =
     run_map (\<lambda>(x, t). (x, k\<lparr>ik_caps := (ik_caps k)(CurrentProcess k := t)\<rparr>)) (f (ik_caps k (CurrentProcess k)))"

section \<open>Kernel objects\<close>

definition queue_push :: "nat \<Rightarrow> IpcMessage \<Rightarrow> IpcKernel \<Rightarrow> (ErrorCode \<times> IpcKernel) run" where
  "queue_push qi m k =
     run_map (\<lambda>(e, q, k). (e, k\<lparr>ik_queues := (ik_queues k)(qi := q)\<rparr>)) (UnboundedMessageQueue_PushBack m (ik_queues k qi) k)"

definition queue_pop :: "nat \<Rightarrow> u64 \<Rightarrow> u64 \<Rightarrow> IpcKernel \<Rightarrow> ((ErrorCode + IpcMessage) option \<times> IpcKernel) run" where
  "queue_pop qi d c k =
     run_map (\<lambda>(r, q, k). (r, k\<lparr>ik_queues := (ik_queues k)(qi := q)\<rparr>)) (UnboundedMessageQueue_PopFront d c (ik_queues k qi) k)"

definition reply_push :: "nat \<Rightarrow> IpcMessage \<Rightarrow> IpcKernel \<Rightarrow> (ErrorCode \<times> IpcKernel) run" where
  "reply_push ri m k =
     run_map (\<lambda>(e, q, k). (e, k\<lparr>ik_replies := (ik_replies k)(ri := q)\<rparr>)) (SingleMessageQueue_PushBack m (ik_replies k ri) k)"

definition reply_pop :: "nat \<Rightarrow> u64 \<Rightarrow> u64 \<Rightarrow> IpcKernel \<Rightarrow> ((ErrorCode + IpcMessage) option \<times> IpcKernel) run" where
  "reply_pop ri d c k =
     run_map (\<lambda>(r, q, k). (r, k\<lparr>ik_replies := (ik_replies k)(ri := q)\<rparr>)) (SingleMessageQueue_PopFront d c (ik_replies k ri) k)"

text \<open>\<open>Send\<close> and \<open>Recv\<close> go to the queue the class of the object names.\<close>

definition IpcObject_Send :: "ObjectType \<Rightarrow> nat \<Rightarrow> IpcMessage \<Rightarrow> IpcKernel \<Rightarrow> (ErrorCode \<times> IpcKernel) run" where
  "IpcObject_Send T ob m k =
     (if T = REPLY_PORT then reply_push ob m k
      else if T = CHANNEL then queue_push (ik_peer k ob) m k
      else queue_push ob m k)"

definition IpcObject_Recv :: "ObjectType \<Rightarrow> nat \<Rightarrow> u64 \<Rightarrow> u64 \<Rightarrow> IpcKernel \<Rightarrow> ((ErrorCode + IpcMessage) option \<times> IpcKernel) run" where
  "IpcObject_Recv T ob d c k = (if T = REPLY_PORT then reply_pop ob d c k else queue_pop ob d c k)"

definition Port_HasMessages :: "nat \<Rightarrow> IpcKernel \<Rightarrow> bool" where
  "Port_HasMessages ob k \<longleftrightarrow> \<not> UnboundedMessageQueue_empty (ik_queues k ob)"

definition new_queue :: "IpcKernel \<Rightarrow> nat \<times> IpcKernel" where
  "new_queue k = (ik_next_object k, k\<lparr>ik_queues := (ik_queues k)(ik_next_object k := UnboundedMessageQueue_new), ik_next_object := Suc (ik_next_object k)\<rparr>)"

definition CreateChannelPair :: "IpcKernel \<Rightarrow> (nat \<times> nat) \<times> IpcKernel" where
  "CreateChannelPair k =
     (let (c1, k) = new_queue k; (c2, k) = new_queue k
      in ((c1, c2), k\<lparr>ik_peer := (ik_peer k)(c1 := c2, c2 := c1)\<rparr>))"

definition Endpoint_Create :: "IpcKernel \<Rightarrow> nat \<times> IpcKernel" where
  "Endpoint_Create k = new_queue k"

definition ReplyPort_Create :: "IpcKernel \<Rightarrow> nat \<times> IpcKernel" where
  "ReplyPort_Create k = (ik_next_object k, k\<lparr>ik_replies := (ik_replies k)(ik_next_object k := SingleMessageQueue_new), ik_next_object := Suc (ik_next_object k)\<rparr>)"

definition RegisterListener :: "u64 \<Rightarrow> nat \<Rightarrow> IpcKernel \<Rightarrow> (ErrorCode \<times> IpcKernel) run" where
  "RegisterListener irq_num port k =
     run_bind (HashMap_Contains Hash_u64 irq_num (ik_drivers k)) (\<lambda>b.
     if b then Inr (ALREADY_EXISTS, k)
     else run_map (\<lambda>(e, m). (e, k\<lparr>ik_drivers := m\<rparr>)) (HashMap_Insert Hash_u64 irq_num (Some port) (ik_drivers k)))"

definition DriverManager_WriteMessage :: "u64 \<Rightarrow> IpcMessage \<Rightarrow> IpcKernel \<Rightarrow> IpcKernel run" where
  "DriverManager_WriteMessage irq_num message k =
     run_bind (HashMap_Contains Hash_u64 irq_num (ik_drivers k)) (\<lambda>b.
     if \<not> b then Inr k
     else run_bind (HashMap_at Hash_u64 None irq_num (ik_drivers k)) (\<lambda>(port, m).
          case port of
            None \<Rightarrow> Inl NullDeref
          | Some port \<Rightarrow> run_map snd (IpcObject_Send PORT port message (k\<lparr>ik_drivers := m\<rparr>))))"

text \<open>The interrupt handlers that write to drivers; \<open>b\<close> is the byte read from the keyboard port.\<close>

definition kZIrqKbd :: u64 where "kZIrqKbd = 0x22"

definition interrupt_keyboard :: "u8 \<Rightarrow> IpcKernel \<Rightarrow> IpcKernel run" where
  "interrupt_keyboard b = DriverManager_WriteMessage kZIrqKbd (IpcMessage_new\<lparr>msg_data := [b]\<rparr>)"

definition interrupt_pci :: "u64 \<Rightarrow> IpcKernel \<Rightarrow> IpcKernel run" where
  "interrupt_pci line = DriverManager_WriteMessage line IpcMessage_new"

section \<open>Requests and messages\<close>

record SendReq =
  sr_cap :: u64
  sr_num_bytes :: u64
  sr_data :: "u8 list"
  sr_num_caps :: u64
  sr_caps :: "u64 list"

record RecvReq =
  rr_cap :: u64
  rr_num_bytes :: u64
  rr_data :: "u8 list"
  rr_num_caps :: u64
  rr_caps :: "u64 list"

text \<open>The array made from the view of \<open>num_bytes\<close> bytes.\<close>

definition Buffer :: "u8 list \<Rightarrow> u64 \<Rightarrow> u8 list run" where
  "Buffer bytes num_bytes = (if unat num_bytes \<le> length bytes then Inr (take (unat num_bytes) bytes) else Inl OutOfBounds)"

fun translate_caps :: "nat \<Rightarrow> u64 \<Rightarrow> u64 list \<Rightarrow> Capability option list \<Rightarrow> IpcKernel \<Rightarrow> ((ErrorCode + Capability option list) \<times> IpcKernel) run" where
  "translate_caps 0 i ids caps k = Inr (Inr caps, k)"
| "translate_caps (Suc n) i ids caps k =
     run_bind (cell_get (Some ids) i) (\<lambda>capid.
     run_bind (on_table (GetCapability capid) k) (\<lambda>(cap, k).
     case cap of
       None \<Rightarrow> Inr (Inl CAP_NOT_FOUND, k)
     | Some cap \<Rightarrow>
         if \<not> HasPermissions cap kZionPerm_Transmit then Inr (Inl CAP_PERMISSION_DENIED, k)
         else run_bind (on_table (ReleaseCapability capid) k) (\<lambda>(cap, k). translate_caps n (i + 1) ids (caps @ [cap]) k)))"

definition TranslateRequestToIpcMessage :: "SendReq \<Rightarrow> IpcKernel \<Rightarrow> ((ErrorCode + IpcMessage) \<times> IpcKernel) run" where
  "TranslateRequestToIpcMessage req k =
     (if sr_num_bytes req > 0x1000 then Inr (Inl UNIMPLEMENTED, k)
      else run_bind (Buffer (sr_data req) (sr_num_bytes req)) (\<lambda>bytes.
           run_map (\<lambda>(r, k). (map_sum (\<lambda>e. e) (\<lambda>caps. \<lparr>msg_data = bytes, msg_caps = caps, msg_reply_cap = None\<rparr>) r, k))
             (translate_caps (unat (sr_num_caps req)) 0 (sr_caps req) [] k)))"

fun write_bytes_out :: "u8 list \<Rightarrow> u64 \<Rightarrow> u8 list \<Rightarrow> u8 list run" where
  "write_bytes_out [] i out = Inr out"
| "write_bytes_out (x # xs) i out = run_bind (cell_set (Some out) i x) (\<lambda>out. write_bytes_out xs (i + 1) (the out))"

fun write_caps_out :: "Capability option list \<Rightarrow> u64 \<Rightarrow> u64 list \<Rightarrow> IpcKernel \<Rightarrow> (u64 list \<times> IpcKernel) run" where
  "write_caps_out [] i out k = Inr (out, k)"
| "write_caps_out (cap # caps) i out k =
     run_bind (on_table (AddExistingCapability cap) k) (\<lambda>(capid, k).
     run_bind (cell_set (Some out) i capid) (\<lambda>out. write_caps_out caps (i + 1) (the out) k))"

definition TranslateIpcMessageToResponse :: "IpcMessage \<Rightarrow> RecvReq \<Rightarrow> IpcKernel \<Rightarrow> (ErrorCode \<times> RecvReq \<times> IpcKernel) run" where
  "TranslateIpcMessageToResponse message resp k =
     (if of_nat (length (msg_data message)) > rr_num_bytes resp then Inr (BUFFER_SIZE, resp, k)
      else if of_nat (length (msg_caps message)) > rr_num_caps resp then Inr (BUFFER_SIZE, resp, k)
      else run_bind (write_bytes_out (msg_data message) 0 (rr_data resp)) (\<lambda>bytes.
           run_map (\<lambda>(ids, k). (OK, resp\<lparr>rr_num_bytes := of_nat (length (msg_data message)), rr_data := bytes,
                      rr_num_caps := of_nat (length (msg_caps message)), rr_caps := ids\<rparr>, k))
             (write_caps_out (msg_caps message) 0 (rr_caps resp) k)))"

definition TranslateIpcMessageToResponseWithReplyPort ::
    "IpcMessage \<Rightarrow> RecvReq \<Rightarrow> IpcKernel \<Rightarrow> (ErrorCode \<times> RecvReq \<times> u64 option \<times> IpcKernel) run" where
  "TranslateIpcMessageToResponseWithReplyPort message resp k =
     run_bind (TranslateIpcMessageToResponse message resp k) (\<lambda>(e, resp, k).
     if msg_reply_cap message = None then Inr (INTERNAL, resp, None, k)
     else run_map (\<lambda>(capid, k). (OK, resp, Some capid, k)) (on_table (AddExistingCapability (msg_reply_cap message)) k))"

section \<open>System calls\<close>

definition send_call :: "ObjectType \<Rightarrow> SendReq \<Rightarrow> IpcKernel \<Rightarrow> (ErrorCode \<times> IpcKernel) run" where
  "send_call T req k =
     run_bind (on_table (GetCapability (sr_cap req)) k) (\<lambda>(cap, k).
     let e = ValidateCapability T cap kZionPerm_Write
     in if e \<noteq> OK then Inr (e, k)
        else run_bind (Capability_obj T (the cap)) (\<lambda>ob.
             run_bind (TranslateRequestToIpcMessage req k) (\<lambda>(message, k).
             case message of
               Inl e \<Rightarrow> Inr (e, k)
             | Inr message \<Rightarrow> IpcObject_Send T ob message k)))"

text \<open>The part of a receiving call from \<open>Recv\<close> on.\<close>

definition recv_message :: "ObjectType \<Rightarrow> nat \<Rightarrow> RecvReq \<Rightarrow> IpcKernel \<Rightarrow> (ErrorCode option \<times> RecvReq \<times> IpcKernel) run" where
  "recv_message T ob req k =
     run_bind (IpcObject_Recv T ob (rr_num_bytes req) (rr_num_caps req) k) (\<lambda>(r, k).
     case r of
       None \<Rightarrow> Inr (None, req, k)
     | Some (Inl e) \<Rightarrow> Inr (Some e, req, k)
     | Some (Inr msg) \<Rightarrow> run_map (\<lambda>(e, req, k). (Some e, req, k)) (TranslateIpcMessageToResponse msg req k))"

definition recv_call :: "ObjectType \<Rightarrow> RecvReq \<Rightarrow> IpcKernel \<Rightarrow> (ErrorCode option \<times> RecvReq \<times> IpcKernel) run" where
  "recv_call T req k =
     run_bind (on_table (GetCapability (rr_cap req)) k) (\<lambda>(cap, k).
     let e = ValidateCapability T cap kZionPerm_Read
     in if e \<noteq> OK then Inr (Some e, req, k)
        else run_bind (Capability_obj T (the cap)) (\<lambda>ob. recv_message T ob req k))"

definition ChannelCreate :: "IpcKernel \<Rightarrow> (ErrorCode \<times> (u64 \<times> u64) \<times> IpcKernel) run" where
  "ChannelCreate k =
     (let ((c1, c2), k) = CreateChannelPair k
      in run_bind (on_table (AddNewCapability \<lparr>ob_type = CHANNEL, ob_ref = c1\<rparr> Channel_DefaultPermissions) k) (\<lambda>(i1, k).
         run_map (\<lambda>(i2, k). (OK, (i1, i2), k)) (on_table (AddNewCapability \<lparr>ob_type = CHANNEL, ob_ref = c2\<rparr> Channel_DefaultPermissions) k)))"

definition ChannelSend :: "SendReq \<Rightarrow> IpcKernel \<Rightarrow> (ErrorCode \<times> IpcKernel) run" where
  "ChannelSend = send_call CHANNEL"

definition ChannelRecv :: "RecvReq \<Rightarrow> IpcKernel \<Rightarrow> (ErrorCode option \<times> RecvReq \<times> IpcKernel) run" where
  "ChannelRecv = recv_call CHANNEL"

definition PortCreate :: "IpcKernel \<Rightarrow> (ErrorCode \<times> u64 \<times> IpcKernel) run" where
  "PortCreate k =
     (let (p, k) = new_queue k
      in run_map (\<lambda>(i, k). (OK, i, k)) (on_table (AddNewCapability \<lparr>ob_type = PORT, ob_ref = p\<rparr> Port_DefaultPermissions) k))"

definition PortSend :: "SendReq \<Rightarrow> IpcKernel \<Rightarrow> (ErrorCode \<times> IpcKernel) run" where
  "PortSend = send_call PORT"

definition PortRecv :: "RecvReq \<Rightarrow> IpcKernel \<Rightarrow> (ErrorCode option \<times> RecvReq \<times> IpcKernel) run" where
  "PortRecv = recv_call PORT"

definition PortPoll :: "RecvReq \<Rightarrow> IpcKernel \<Rightarrow> (ErrorCode option \<times> RecvReq \<times> IpcKernel) run" where
  "PortPoll req k =
     run_bind (on_table (GetCapability (rr_cap req)) k) (\<lambda>(cap, k).
     let e = ValidateCapability PORT cap kZionPerm_Read
     in if e \<noteq> OK then Inr (Some e, req, k)
        else run_bind (Capability_obj PORT (the cap)) (\<lambda>ob.
             if \<not> Port_HasMessages ob k then Inr (Some EMPTY, req, k) else recv_message PORT ob req k))"

definition IrqRegister :: "u64 \<Rightarrow> IpcKernel \<Rightarrow> (ErrorCode \<times> u64 \<times> IpcKernel) run" where
  "IrqRegister irq_num k =
     (let (p, k) = new_queue k
      in run_bind (on_table (AddNewCapability \<lparr>ob_type = PORT, ob_ref = p\<rparr> Port_DefaultPermissions) k) (\<lambda>(i, k).
         run_map (\<lambda>(e, k). (e, i, k)) (RegisterListener irq_num p k)))"

definition EndpointCreate :: "IpcKernel \<Rightarrow> (ErrorCode \<times> u64 \<times> IpcKernel) run" where
  "EndpointCreate k =
     (let (p, k) = Endpoint_Create k
      in run_map (\<lambda>(i, k). (OK, i, k)) (on_table (AddNewCapability \<lparr>ob_type = ENDPOINT, ob_ref = p\<rparr> Endpoint_DefaultPermissions) k))"

definition EndpointSend :: "SendReq \<Rightarrow> IpcKernel \<Rightarrow> (ErrorCode \<times> u64 option \<times> IpcKernel) run" where
  "EndpointSend req k =
     run_bind (on_table (GetCapability (sr_cap req)) k) (\<lambda>(cap, k).
     let e = ValidateCapability ENDPOINT cap kZionPerm_Write
     in if e \<noteq> OK then Inr (e, None, k)
        else run_bind (Capability_obj ENDPOINT (the cap)) (\<lambda>ob.
             let (reply_port, k) = ReplyPort_Create k
             in run_bind (on_table (AddNewCapability \<lparr>ob_type = REPLY_PORT, ob_ref = reply_port\<rparr> kZionPerm_Read) k) (\<lambda>(ri, k).
                run_bind (TranslateRequestToIpcMessage req k) (\<lambda>(message, k).
                case message of
                  Inl e \<Rightarrow> Inr (e, Some ri, k)
                | Inr message \<Rightarrow>
                    run_map (\<lambda>(e, k). (e, Some ri, k))
                      (IpcObject_Send ENDPOINT ob
                         (message\<lparr>msg_reply_cap := Some \<lparr>cap_obj = \<lparr>ob_type = REPLY_PORT, ob_ref = reply_port\<rparr>,
                                     cap_permissions = kZionPerm_Write OR kZionPerm_Transmit\<rparr>\<rparr>) k)))))"

text \<open>The part of \<open>EndpointRecv\<close> from \<open>Recv\<close> on.\<close>

definition recv_request :: "nat \<Rightarrow> RecvReq \<Rightarrow> IpcKernel \<Rightarrow> (ErrorCode option \<times> RecvReq \<times> u64 option \<times> IpcKernel) run" where
  "recv_request ob req k =
     run_bind (IpcObject_Recv ENDPOINT ob (rr_num_bytes req) (rr_num_caps req) k) (\<lambda>(r, k).
     case r of
       None \<Rightarrow> Inr (None, req, None, k)
     | Some (Inl e) \<Rightarrow> Inr (Some e, req, None, k)
     | Some (Inr msg) \<Rightarrow> run_map (\<lambda>(e, req, i, k). (Some e, req, i, k)) (TranslateIpcMessageToResponseWithReplyPort msg req k))"

definition EndpointRecv :: "RecvReq \<Rightarrow> IpcKernel \<Rightarrow> (ErrorCode option \<times> RecvReq \<times> u64 option \<times> IpcKernel) run" where
  "EndpointRecv req k =
     run_bind (on_table (GetCapability (rr_cap req)) k) (\<lambda>(cap, k).
     let e = ValidateCapability ENDPOINT cap kZionPerm_Read
     in if e \<noteq> OK then Inr (Some e, req, None, k)
        else run_bind (Capability_obj ENDPOINT (the cap)) (\<lambda>ob. recv_request ob req k))"

definition ReplyPortSend :: "SendReq \<Rightarrow> IpcKernel \<Rightarrow> (ErrorCode \<times> IpcKernel) run" where
  "ReplyPortSend = send_call REPLY_PORT"

definition ReplyPortRecv :: "RecvReq \<Rightarrow> IpcKernel \<Rightarrow> (ErrorCode option \<times> RecvReq \<times> IpcKernel) run" where
  "ReplyPortRecv = recv_call REPLY_PORT"

definition CapDuplicate :: "u64 \<Rightarrow> u64 \<Rightarrow> IpcKernel \<Rightarrow> (ErrorCode \<times> u64 option \<times> IpcKernel) run" where
  "CapDuplicate cap_in perm_mask k =
     run_bind (on_table (GetCapability cap_in) k) (\<lambda>(cap, k).
     case cap of
       None \<Rightarrow> Inr (CAP_NOT_FOUND, None, k)
     | Some cap \<Rightarrow>
         if cap_permissions cap AND kZionPerm_Duplicate = 0 then Inr (CAP_PERMISSION_DENIED, None, k)
         else run_map (\<lambda>(i, k). (OK, Some i, k)) (on_table (AddNewCapability (cap_obj cap) (cap_permissions cap AND perm_mask)) k))"

definition CapRelease :: "u64 \<Rightarrow> IpcKernel \<Rightarrow> (ErrorCode \<times> IpcKernel) run" where
  "CapRelease cap k =
     run_map (\<lambda>(c, k). (if c = None then CAP_NOT_FOUND else OK, k)) (on_table (ReleaseCapability cap) k)"

definition MutexCreate :: "IpcKernel \<Rightarrow> (ErrorCode \<times> u64 \<times> IpcKernel) run" where
  "MutexCreate k =
     (let n = ik_next_object k; k = k\<lparr>ik_mutexes := (ik_mutexes k)(n := Mutex_Create), ik_next_object := Suc n\<rparr>
      in run_map (\<lambda>(i, k). (OK, i, k)) (on_table (AddNewCapability \<lparr>ob_type = MUTEX, ob_ref = n\<rparr> Mutex_DefaultPermissions) k))"

definition lock_mutex :: "nat \<Rightarrow> IpcKernel \<Rightarrow> (ErrorCode option \<times> IpcKernel) run" where
  "lock_mutex n k =
     run_map (\<lambda>(b, m, k). (if b then Some OK else None, k\<lparr>ik_mutexes := (ik_mutexes k)(n := m)\<rparr>)) (Mutex_Lock (ik_mutexes k n) k)"

definition MutexLock :: "u64 \<Rightarrow> IpcKernel \<Rightarrow> (ErrorCode option \<times> IpcKernel) run" where
  "MutexLock mutex_cap k =
     run_bind (on_table (GetCapability mutex_cap) k) (\<lambda>(cap, k).
     let e = ValidateCapability MUTEX cap kZionPerm_Lock
     in if e \<noteq> OK then Inr (Some e, k) else run_bind (Capability_obj MUTEX (the cap)) (\<lambda>n. lock_mutex n k))"

definition MutexRelease :: "u64 \<Rightarrow> IpcKernel \<Rightarrow> (ErrorCode \<times> IpcKernel) run" where
  "MutexRelease mutex_cap k =
     run_bind (on_table (GetCapability mutex_cap) k) (\<lambda>(cap, k).
     let e = ValidateCapability MUTEX cap kZionPerm_Release
     in if e \<noteq> OK then Inr (e, k)
        else run_bind (Capability_obj MUTEX (the cap)) (\<lambda>n.
             run_map (\<lambda>(m, k). (OK, k\<lparr>ik_mutexes := (ik_mutexes k)(n := m)\<rparr>)) (Mutex_Release (ik_mutexes k n) k)))"

definition SemaphoreCreate :: "IpcKernel \<Rightarrow> (ErrorCode \<times> u64 \<times> IpcKernel) run" where
  "SemaphoreCreate k =
     (let n = ik_next_object k; k = k\<lparr>ik_semaphores := (ik_semaphores k)(n := Semaphore_Create), ik_next_object := Suc n\<rparr>
      in run_map (\<lambda>(i, k). (OK, i, k)) (on_table (AddNewCapability \<lparr>ob_type = SEMAPHORE, ob_ref = n\<rparr> Semaphore_DefaultPermissions) k))"

definition wait_semaphore :: "nat \<Rightarrow> IpcKernel \<Rightarrow> (ErrorCode option \<times> IpcKernel) run" where
  "wait_semaphore n k =
     run_map (\<lambda>(b, m, k). (if b then Some OK else None, k\<lparr>ik_semaphores := (ik_semaphores k)(n := m)\<rparr>)) (Semaphore_Wait (ik_semaphores k n) k)"

definition SemaphoreWait :: "u64 \<Rightarrow> IpcKernel \<Rightarrow> (ErrorCode option \<times> IpcKernel) run" where
  "SemaphoreWait semaphore_cap k =
     run_bind (on_table (GetCapability semaphore_cap) k) (\<lambda>(cap, k).
     let e = ValidateCapability SEMAPHORE cap kZionPerm_Wait
     in if e \<noteq> OK then Inr (Some e, k) else run_bind (Capability_obj SEMAPHORE (the cap)) (\<lambda>n. wait_semaphore n k))"

definition SemaphoreSignal :: "u64 \<Rightarrow> IpcKernel \<Rightarrow> (ErrorCode \<times> IpcKernel) run" where
  "SemaphoreSignal semaphore_cap k =
     run_bind (on_table (GetCapability semaphore_cap) k) (\<lambda>(cap, k).
     let e = ValidateCapability SEMAPHORE cap kZionPerm_Signal
     in if e \<noteq> OK then Inr (e, k)
        else run_bind (Capability_obj SEMAPHORE (the cap)) (\<lambda>n.
             run_map (\<lambda>(m, k). (OK, k\<lparr>ik_semaphores := (ik_semaphores k)(n := m)\<rparr>)) (Semaphore_Signal (ik_semaphores k n) k)))"

section \<open>The parts of the state an operation leaves alone\<close>

lemma ik_more:
  fixes k k' :: IpcKernel
  assumes "Kernel.more k' = Kernel.more k"
  shows "ik_caps k' = ik_caps k" "ik_queues k' = ik_queues k" "ik_peer k' = ik_peer k" "ik_replies k' = ik_replies k"
    "ik_mutexes k' = ik_mutexes k" "ik_semaphores k' = ik_semaphores k" "ik_drivers k' = ik_drivers k"
    "ik_next_object k' = ik_next_object k"
  using assms by (cases k; cases k'; simp)+

lemma ik_caps_same [simp]: "k\<lparr>ik_caps := ik_caps k\<rparr> = k"
  by (cases k) simp

lemma on_table_Get: "ct_inv (ik_caps k (CurrentProcess k)) \<Longrightarrow>
    on_table (GetCapability i) k = Inr (ct_lookup (ik_caps k (CurrentProcess k)) i, k)"
  by (simp add: on_table_def GetCapability_ok)

text \<open>The capabilities in a message, and all capabilities of the system.\<close>

definition caps_in :: "IpcMessage \<Rightarrow> Capability set" where
  "caps_in m = {cap. Some cap \<in> set (msg_caps m) \<or> msg_reply_cap m = Some cap}"

definition messages_of :: "IpcKernel \<Rightarrow> IpcMessage set" where
  "messages_of k = (\<Union>q. set (uq_pending_messages (ik_queues k q))) \<union> (\<Union>r. {sq_message (ik_replies k r)})"

definition caps_of :: "IpcKernel \<Rightarrow> Capability set" where
  "caps_of k = (\<Union>p. ran (ct_lookup (ik_caps k p))) \<union> (\<Union>m \<in> messages_of k. caps_in m)"

text \<open>
  \<open>c'\<close> gives no more than \<open>c\<close>: the same object and a part of the permissions.
\<close>

definition attenuates :: "Capability \<Rightarrow> Capability \<Rightarrow> bool" where
  "attenuates c' c \<longleftrightarrow> cap_obj c' = cap_obj c \<and> cap_permissions c' AND cap_permissions c = cap_permissions c'"

definition derived :: "nat \<Rightarrow> Capability set \<Rightarrow> Capability set \<Rightarrow> bool" where
  "derived n S S' \<longleftrightarrow> (\<forall>c' \<in> S'. ob_ref (cap_obj c') < n \<longrightarrow> (\<exists>c \<in> S. attenuates c' c))"

text \<open>
  The well-formedness of the system, with capabilities \<open>A\<close> in the hands of kernel code, and how it
  moves from one state to the next.  \<open>j\<close> bounds the capabilities added to a table.
\<close>

definition ipc_inv :: "Capability set \<Rightarrow> IpcKernel \<Rightarrow> bool" where
  "ipc_inv A k \<longleftrightarrow> (\<forall>p. ct_inv (ik_caps k p)) \<and> (\<forall>m \<in> messages_of k. None \<notin> set (msg_caps m)) \<and>
     (\<forall>c \<in> caps_of k \<union> A. ob_ref (cap_obj c) < ik_next_object k)"

definition flow :: "nat \<Rightarrow> Capability set \<Rightarrow> IpcKernel \<Rightarrow> Capability set \<Rightarrow> IpcKernel \<Rightarrow> bool" where
  "flow j A k B k' \<longleftrightarrow> (ipc_inv A k \<longrightarrow> ipc_inv B k' \<and> ik_next_object k \<le> ik_next_object k' \<and>
     derived (ik_next_object k) (caps_of k \<union> A) (caps_of k' \<union> B) \<and>
     (\<forall>p. ct_given (ik_caps k' p) \<le> ct_given (ik_caps k p) + j))"

lemma attenuates_refl [simp]: "attenuates c c"
  by (simp add: attenuates_def)

lemma attenuates_trans: "attenuates a b \<Longrightarrow> attenuates b c \<Longrightarrow> attenuates a c"
  unfolding attenuates_def by (metis and.assoc)

lemma attenuates_mask: "attenuates \<lparr>cap_obj = cap_obj c, cap_permissions = cap_permissions c AND m\<rparr> c"
  by (simp add: attenuates_def ac_simps)

lemma derived_trans: "derived n S T \<Longrightarrow> derived n' T U \<Longrightarrow> n \<le> n' \<Longrightarrow> derived n S U"
  unfolding derived_def by (metis attenuates_def attenuates_trans order_less_le_trans)

lemma derived_subset: "S' \<subseteq> S \<Longrightarrow> derived n S S'"
  unfolding derived_def using attenuates_refl by blast

lemma flow_trans:
  assumes "flow j A k B k1" and "flow j' B k1 C k2"
  shows "flow (j + j') A k C k2"
  unfolding flow_def
proof (intro impI conjI allI)
  assume "ipc_inv A k"
  with assms(1) have 1: "ipc_inv B k1" "ik_next_object k \<le> ik_next_object k1"
      "derived (ik_next_object k) (caps_of k \<union> A) (caps_of k1 \<union> B)" "\<And>p. ct_given (ik_caps k1 p) \<le> ct_given (ik_caps k p) + j"
    by (simp_all add: flow_def)
  with assms(2) have 2: "ipc_inv C k2" "ik_next_object k1 \<le> ik_next_object k2"
      "derived (ik_next_object k1) (caps_of k1 \<union> B) (caps_of k2 \<union> C)" "\<And>p. ct_given (ik_caps k2 p) \<le> ct_given (ik_caps k1 p) + j'"
    by (simp_all add: flow_def)
  show "ipc_inv C k2" by (rule 2(1))
  show "ik_next_object k \<le> ik_next_object k2" using 1(2) 2(2) by simp
  show "derived (ik_next_object k) (caps_of k \<union> A) (caps_of k2 \<union> C)" by (rule derived_trans [OF 1(3) 2(3) 1(2)])
  show "ct_given (ik_caps k2 p) \<le> ct_given (ik_caps k p) + (j + j')" for p using 1(4) [of p] 2(4) [of p] by simp
qed

lemma flow_refl: "B \<subseteq> A \<Longrightarrow> flow 0 A k B k"
  by (auto simp: flow_def ipc_inv_def intro!: derived_subset)

lemma flow_weaken:
  assumes "flow j A k B k'" and "B' \<subseteq> B" and "j \<le> j'"
  shows "flow j' A k B' k'"
proof -
  have "derived n S (caps_of k' \<union> B) \<Longrightarrow> derived n S (caps_of k' \<union> B')" for n S using assms(2) by (auto simp: derived_def)
  moreover have "ipc_inv B k' \<Longrightarrow> ipc_inv B' k'" using assms(2) by (auto simp: ipc_inv_def)
  ultimately show ?thesis using assms(1,3) unfolding flow_def by (meson add_left_mono order_trans)
qed

text \<open>A step that leaves the tables alone; \<open>F\<close> are capabilities to objects it creates.\<close>

lemma flow_quiet:
  assumes "ik_caps k' = ik_caps k" and "ik_next_object k \<le> ik_next_object k'" and "caps_of k' \<union> B \<subseteq> caps_of k \<union> A \<union> F"
    and msgs: "\<And>m. m \<in> messages_of k' \<Longrightarrow> m \<in> messages_of k \<or> None \<notin> set (msg_caps m)"
    and fresh: "\<And>c. c \<in> F \<Longrightarrow> ik_next_object k \<le> ob_ref (cap_obj c) \<and> ob_ref (cap_obj c) < ik_next_object k'"
  shows "flow 0 A k B k'"
  unfolding flow_def
proof (intro impI conjI)
  assume inv: "ipc_inv A k"
  have old: "c \<in> caps_of k \<union> A \<or> c \<in> F" if "c \<in> caps_of k' \<union> B" for c using that assms(3) by blast
  have "ob_ref (cap_obj c) < ik_next_object k'" if "c \<in> caps_of k' \<union> B" for c
    using old [OF that] fresh [of c] inv assms(2) unfolding ipc_inv_def by (meson order_less_le_trans)
  then show "ipc_inv B k'" using inv assms(1) msgs unfolding ipc_inv_def by auto
  show "derived (ik_next_object k) (caps_of k \<union> A) (caps_of k' \<union> B)"
    unfolding derived_def
  proof (intro ballI impI)
    fix c assume c: "c \<in> caps_of k' \<union> B" "ob_ref (cap_obj c) < ik_next_object k"
    then have "c \<notin> F" using fresh [of c] by auto
    then have "c \<in> caps_of k \<union> A" using old [OF c(1)] by simp
    then show "\<exists>c'\<in>caps_of k \<union> A. attenuates c c'" using attenuates_refl by blast
  qed
qed (simp_all add: assms(1,2))

lemma caps_of_cong:
  "ik_caps k' = ik_caps k \<Longrightarrow> ik_queues k' = ik_queues k \<Longrightarrow> ik_replies k' = ik_replies k \<Longrightarrow> caps_of k' = caps_of k \<and> messages_of k' = messages_of k"
  by (simp add: caps_of_def messages_of_def)

lemma flow_same:
  assumes "ik_caps k' = ik_caps k" "ik_queues k' = ik_queues k" "ik_replies k' = ik_replies k" "ik_next_object k' = ik_next_object k" "B \<subseteq> A"
  shows "flow 0 A k B k'"
  by (rule flow_quiet [where F = "{}"]) (use assms caps_of_cong [OF assms(1-3)] in auto)

text \<open>Queues.\<close>

lemma PushBack_more: "UnboundedMessageQueue_PushBack m q k = Inr (e, q', k') \<Longrightarrow> Kernel.more k' = Kernel.more k"
  by (auto simp: UnboundedMessageQueue_PushBack_wake_first run_map_eq_Inr dest: wake_first_more)

lemma PopFront_more: "UnboundedMessageQueue_PopFront d c q k = Inr (r, q', k') \<Longrightarrow> Kernel.more k' = Kernel.more k"
proof (cases "uq_pending_messages q")
  case Nil
  then show "UnboundedMessageQueue_PopFront d c q k = Inr (r, q', k') \<Longrightarrow> Kernel.more k' = Kernel.more k"
    by (auto simp: UnboundedMessageQueue_PopFront_wait_on run_map_eq_Inr dest: wait_on_more)
qed (auto simp: UnboundedMessageQueue_PopFront_def split: if_splits)

lemma PopFront_content: "UnboundedMessageQueue_PopFront d c q k = Inr (r, q', k') \<Longrightarrow>
    (case r of Some (Inr m) \<Rightarrow> uq_pending_messages q = m # uq_pending_messages q' | _ \<Rightarrow> uq_pending_messages q' = uq_pending_messages q)"
  using unbounded.pop_nothing [OF TrueI] unbounded.pop_message [OF TrueI] by (fastforce split: option.splits sum.splits)

lemma reply_PushBack_more: "SingleMessageQueue_PushBack m q k = Inr (e, q', k') \<Longrightarrow>
    Kernel.more k' = Kernel.more k \<and> (sq_message q' = m \<or> sq_message q' = sq_message q)"
  by (auto simp: SingleMessageQueue_PushBack_wake_first run_map_eq_Inr dest: wake_first_more split: if_splits)

lemma reply_PopFront_more:
  assumes "SingleMessageQueue_PopFront d c q k = Inr (r, q', k')"
  shows "Kernel.more k' = Kernel.more k \<and> (case r of Some (Inr m) \<Rightarrow> m = sq_message q \<and> sq_message q' = IpcMessage_new | _ \<Rightarrow> sq_message q' = sq_message q)"
proof (cases "sq_has_written q")
  case True
  then show ?thesis using assms by (auto simp: SingleMessageQueue_PopFront_def split: if_splits)
next
  case False
  then show ?thesis using assms by (auto simp: SingleMessageQueue_PopFront_wait_on run_map_eq_Inr dest: wait_on_more)
qed

lemma caps_in_new [simp]: "caps_in IpcMessage_new = {}" "msg_caps IpcMessage_new = []"
  by (simp_all add: caps_in_def IpcMessage_new_def)

lemma messages_queue: "messages_of (k\<lparr>ik_queues := (ik_queues k)(q := x)\<rparr>) \<subseteq> messages_of k \<union> set (uq_pending_messages x)"
  by (auto simp: messages_of_def split: if_splits)

lemma messages_reply: "messages_of (k\<lparr>ik_replies := (ik_replies k)(r := x)\<rparr>) \<subseteq> messages_of k \<union> {sq_message x}"
  by (auto simp: messages_of_def split: if_splits)

lemma caps_of_messages: "ik_caps k' = ik_caps k \<Longrightarrow> messages_of k' \<subseteq> messages_of k \<union> M \<Longrightarrow> caps_of k' \<subseteq> caps_of k \<union> (\<Union>m \<in> M. caps_in m)"
  by (auto simp: caps_of_def)

lemma message_caps: "m \<in> messages_of k \<Longrightarrow> caps_in m \<subseteq> caps_of k"
  by (auto simp: caps_of_def)

lemma pending_messages: "set (uq_pending_messages (ik_queues k q)) \<subseteq> messages_of k"
  by (auto simp: messages_of_def)

text \<open>A step that puts at most the message \<open>m\<close> into a queue.\<close>

lemma flow_message:
  assumes "ik_caps k' = ik_caps k" "ik_next_object k' = ik_next_object k" "messages_of k' \<subseteq> messages_of k \<union> {m}"
    "None \<notin> set (msg_caps m)" "B \<subseteq> A" "caps_in m \<subseteq> A"
  shows "flow 0 A k B k'"
  by (rule flow_quiet [where F = "{}"]) (use assms caps_of_messages [OF assms(1,3)] in auto)

lemma flow_IpcObject_Send:
  assumes "IpcObject_Send T ob m k = Inr (e, k')" and "None \<notin> set (msg_caps m)" and "caps_in m \<subseteq> A"
  shows "flow 0 A k A k'"
proof -
  have queue: "flow 0 A k A k'" if p: "queue_push qi m k = Inr (e, k')" for qi
  proof -
    obtain q k1 where q: "UnboundedMessageQueue_PushBack m (ik_queues k qi) k = Inr (e, q, k1)" "k' = k1\<lparr>ik_queues := (ik_queues k1)(qi := q)\<rparr>"
      using p by (auto simp: queue_push_def run_map_eq_Inr)
    have "set (uq_pending_messages q) \<subseteq> messages_of k \<union> {m}"
      using unbounded.push_content [OF _ q(1)] by (auto simp: messages_of_def split: if_splits)
    then show ?thesis using q ik_more [OF PushBack_more [OF q(1)]] messages_queue [of k1 qi q] caps_of_cong [of k1 k] assms(2,3)
      by (intro flow_message [where m = m]) auto
  qed
  have "flow 0 A k A k'" if r: "reply_push ob m k = Inr (e, k')"
  proof -
    obtain q k1 where q: "SingleMessageQueue_PushBack m (ik_replies k ob) k = Inr (e, q, k1)" "k' = k1\<lparr>ik_replies := (ik_replies k1)(ob := q)\<rparr>"
      using r by (auto simp: reply_push_def run_map_eq_Inr)
    have "sq_message q \<in> messages_of k \<union> {m}" using reply_PushBack_more [OF q(1)] by (auto simp: messages_of_def)
    then show ?thesis using q ik_more [OF conjunct1 [OF reply_PushBack_more [OF q(1)]]] messages_reply [of k1 ob q] caps_of_cong [of k1 k] assms(2,3)
      by (intro flow_message [where m = m]) auto
  qed
  then show ?thesis using assms(1) queue by (auto simp: IpcObject_Send_def split: if_splits)
qed

lemma flow_IpcObject_Recv:
  assumes "IpcObject_Recv T ob d c k = Inr (r, k')"
  shows "flow 0 A k A k'" and "r = Some (Inr m) \<Longrightarrow> m \<in> messages_of k \<and> flow 0 A k (A \<union> caps_in m) k'"
proof -
  have "ik_caps k' = ik_caps k \<and> ik_next_object k' = ik_next_object k \<and> messages_of k' \<subseteq> messages_of k \<union> {IpcMessage_new} \<and>
      (r = Some (Inr m) \<longrightarrow> m \<in> messages_of k)"
  proof (cases "T = REPLY_PORT")
    case True
    then obtain q k1 where q: "SingleMessageQueue_PopFront d c (ik_replies k ob) k = Inr (r, q, k1)" "k' = k1\<lparr>ik_replies := (ik_replies k1)(ob := q)\<rparr>"
      using assms by (auto simp: IpcObject_Recv_def reply_pop_def run_map_eq_Inr)
    note more = ik_more [OF conjunct1 [OF reply_PopFront_more [OF q(1)]]]
    have "sq_message q \<in> messages_of k \<union> {IpcMessage_new}" "r = Some (Inr m) \<longrightarrow> m \<in> messages_of k"
      using reply_PopFront_more [OF q(1)] by (auto simp: messages_of_def split: option.splits sum.splits)
    then show ?thesis using q(2) more messages_reply [of k1 ob q] caps_of_cong [OF more(1,2,4)] by auto
  next
    case False
    then obtain q k1 where q: "UnboundedMessageQueue_PopFront d c (ik_queues k ob) k = Inr (r, q, k1)" "k' = k1\<lparr>ik_queues := (ik_queues k1)(ob := q)\<rparr>"
      using assms by (auto simp: IpcObject_Recv_def queue_pop_def run_map_eq_Inr)
    note more = ik_more [OF PopFront_more [OF q(1)]]
    have "set (uq_pending_messages q) \<subseteq> messages_of k" "r = Some (Inr m) \<longrightarrow> m \<in> messages_of k"
      using PopFront_content [OF q(1)] pending_messages [of k ob] by (auto split: option.splits sum.splits)
    then show ?thesis using q(2) more messages_queue [of k1 ob q] caps_of_cong [OF more(1,2,4)] by auto
  qed
  then have same: "ik_caps k' = ik_caps k" "ik_next_object k' = ik_next_object k" "messages_of k' \<subseteq> messages_of k \<union> {IpcMessage_new}"
      "r = Some (Inr m) \<Longrightarrow> m \<in> messages_of k" by auto
  show "flow 0 A k A k'" by (rule flow_message [OF same(1-3)]) auto
  show "m \<in> messages_of k \<and> flow 0 A k (A \<union> caps_in m) k'" if "r = Some (Inr m)"
  proof
    show "flow 0 A k (A \<union> caps_in m) k'"
      by (rule flow_quiet [where F = "{}"])
         (use same caps_of_messages [OF same(1,3)] message_caps [OF same(4) [OF that]] in auto)
  qed (rule same(4) [OF that])
qed

text \<open>Capability tables.\<close>

lemma flowI: "(ipc_inv A k \<Longrightarrow> flow j A k B k') \<Longrightarrow> flow j A k B k'"
  by (auto simp: flow_def)

lemma flow_inv: "flow j A k B k' \<Longrightarrow> ipc_inv A k \<Longrightarrow> ipc_inv B k'"
  by (simp add: flow_def)

lemma flow_given: "flow j A k B k' \<Longrightarrow> ipc_inv A k \<Longrightarrow> ct_given (ik_caps k' p) \<le> ct_given (ik_caps k p) + j"
  by (simp add: flow_def)

lemma ipc_inv_table: "ipc_inv A k \<Longrightarrow> ct_inv (ik_caps k p)"
  by (simp add: ipc_inv_def)

lemma table_caps: "ran (ct_lookup (ik_caps k p)) \<subseteq> caps_of k" "ct_lookup (ik_caps k p) i = Some c \<Longrightarrow> c \<in> caps_of k"
  by (auto simp: caps_of_def ran_def)

lemma flow_table:
  assumes k': "k' = k\<lparr>ik_caps := (ik_caps k)(p := t)\<rparr>" and t: "ct_inv t" "ct_given t \<le> ct_given (ik_caps k p) + j"
    and caps: "ran (ct_lookup t) \<subseteq> caps_of k \<union> A" "B \<subseteq> caps_of k \<union> A"
  shows "flow j A k B k'"
  unfolding flow_def
proof (intro impI conjI allI)
  assume inv: "ipc_inv A k"
  have same: "messages_of k' = messages_of k" "ik_next_object k' = ik_next_object k" by (simp_all add: k' messages_of_def)
  have sub: "caps_of k' \<union> B \<subseteq> caps_of k \<union> A" using caps by (auto simp: k' caps_of_def messages_of_def split: if_splits)
  show "ipc_inv B k'" unfolding ipc_inv_def same using inv t(1) sub by (auto simp: ipc_inv_def k')
  show "derived (ik_next_object k) (caps_of k \<union> A) (caps_of k' \<union> B)" by (rule derived_subset [OF sub])
  show "ct_given (ik_caps k' q) \<le> ct_given (ik_caps k q) + j" for q using t(2) by (simp add: k')
qed (simp add: k')

definition room :: "nat \<Rightarrow> IpcKernel \<Rightarrow> bool" where
  "room n k \<longleftrightarrow> (\<forall>p. ct_given (ik_caps k p) + n \<le> hm_limit)"

lemma room_less: "room (Suc n) k \<Longrightarrow> ct_given (ik_caps k p) < hm_limit"
  by (auto simp: room_def Suc_le_eq dest: spec [of _ p])

lemma room_flow: "flow j A k B k' \<Longrightarrow> ipc_inv A k \<Longrightarrow> room (j + n) k \<Longrightarrow> room n k'"
  unfolding room_def by (metis flow_given add.assoc add_le_mono1 order_trans)

lemma room_weaken: "room n k \<Longrightarrow> m \<le> n \<Longrightarrow> room m k"
  unfolding room_def by (meson add_left_mono order_trans)

lemma flow_add:
  assumes "on_table (AddExistingCapability (Some cap)) k = Inr (i, k')" and "room (Suc n) k" and "cap \<in> A"
  shows "flow 1 A k A k'"
proof (rule flowI)
  let ?p = "CurrentProcess k"
  assume "ipc_inv A k"
  from AddExistingCapability_ok [OF ipc_inv_table [OF this] room_less [OF assms(2)], of cap ?p]
  obtain t where t: "AddExistingCapability (Some cap) (ik_caps k ?p) = Inr (ct_next_cap_id (ik_caps k ?p), t)" "ct_inv t"
      "ct_lookup t = (ct_lookup (ik_caps k ?p))(ct_next_cap_id (ik_caps k ?p) \<mapsto> cap)" "ct_given t = Suc (ct_given (ik_caps k ?p))"
    by blast
  have "ran (ct_lookup t) \<subseteq> caps_of k \<union> A" using table_caps(1) [of k ?p] assms(3) by (auto simp: t(3) ran_def split: if_splits)
  then show "flow 1 A k A k'" using assms(1) t(1,2,4) by (intro flow_table [where t = t and p = ?p]) (auto simp: on_table_def)
qed

lemma flow_new:
  assumes "on_table (AddNewCapability ob q) k = Inr (i, k')" and "room (Suc n) k" and "\<lparr>cap_obj = ob, cap_permissions = q\<rparr> \<in> A"
  shows "flow 1 A k A k'"
proof -
  have "on_table (AddExistingCapability (Some \<lparr>cap_obj = ob, cap_permissions = q\<rparr>)) k = Inr (i, k')"
    using assms(1) by (auto simp: on_table_def run_map_eq_Inr run_bind_eq_Inr AddNewCapability_def AddExistingCapability_def Let_def split: if_splits)
  then show ?thesis by (rule flow_add [OF _ assms(2,3)])
qed

lemma flow_release:
  assumes "on_table (ReleaseCapability i) k = Inr (c, k')"
  shows "flow 0 A k (A \<union> set_option c) k'"
proof (rule flowI)
  let ?p = "CurrentProcess k"
  assume "ipc_inv A k"
  from ReleaseCapability_ok [OF ipc_inv_table [OF this], of i ?p]
  obtain t where t: "ReleaseCapability i (ik_caps k ?p) = Inr (ct_lookup (ik_caps k ?p) i, t)" "ct_inv t"
      "ct_lookup t = (ct_lookup (ik_caps k ?p))(i := None)" "ct_given t = ct_given (ik_caps k ?p)"
    by blast
  have "ran (ct_lookup t) \<subseteq> caps_of k \<union> A" using table_caps(1) [of k ?p] by (auto simp: t(3) ran_def split: if_splits)
  moreover have "A \<union> set_option c \<subseteq> caps_of k \<union> A" using assms t(1) table_caps(2) [of k ?p i] by (auto simp: on_table_def)
  ultimately show "flow 0 A k (A \<union> set_option c) k'" using assms t(1,2,4) by (intro flow_table [where t = t and p = ?p]) (auto simp: on_table_def)
qed

lemma flow_attenuate:
  assumes "c \<in> caps_of k \<union> A" and "attenuates c' c"
  shows "flow 0 A k (insert c' A) k"
  using assms attenuates_refl unfolding flow_def ipc_inv_def derived_def by (auto simp: attenuates_def)

text \<open>The result of a \<open>GetCapability\<close>, and the capability check every call starts with.\<close>

lemma get_known:
  assumes "on_table (GetCapability i) k = Inr (c, k')" and "ipc_inv A k"
  shows "k' = k \<and> c = ct_lookup (ik_caps k (CurrentProcess k)) i"
  using assms on_table_Get [OF ipc_inv_table [OF assms(2)]] by auto

text \<open>A new object: no capability refers to it before, and its queue is empty.\<close>

lemma flow_fresh:
  assumes "ik_caps k' = ik_caps k" "messages_of k' \<subseteq> messages_of k \<union> {IpcMessage_new}" "ik_next_object k \<le> ik_next_object k'"
    and "\<And>c. c \<in> F \<Longrightarrow> ik_next_object k \<le> ob_ref (cap_obj c) \<and> ob_ref (cap_obj c) < ik_next_object k'"
  shows "flow 0 A k (A \<union> F) k'"
  by (rule flow_quiet [where F = F]) (use assms caps_of_messages [OF assms(1,2)] in auto)

section \<open>The flow of capabilities through the system calls\<close>

lemma flow_translate_caps:
  assumes "translate_caps n i ids caps k = Inr (r, k')" and "ipc_inv A k" and "None \<notin> set caps" and "{c. Some c \<in> set caps} \<subseteq> A"
  shows "\<exists>B. A \<subseteq> B \<and> flow 0 A k B k' \<and> (\<forall>caps'. r = Inr caps' \<longrightarrow> None \<notin> set caps' \<and> {c. Some c \<in> set caps'} \<subseteq> B)"
  using assms
proof (induction n i ids caps k arbitrary: A rule: translate_caps.induct)
  case (1 i ids caps k)
  then show ?case using flow_refl [of A A k] by auto
next
  case (2 n i ids caps k)
  from 2(2) obtain cid c k1 where g: "cell_get (Some ids) i = Inr cid" "on_table (GetCapability cid) k = Inr (c, k1)"
    by (auto simp: run_bind_eq_Inr)
  have k1: "k1 = k" and c: "c = ct_lookup (ik_caps k (CurrentProcess k)) cid" using get_known [OF g(2) 2(3)] by auto
  show ?case
  proof (cases "c = None \<or> \<not> HasPermissions (the c) kZionPerm_Transmit")
    case True
    then have "k' = k" "\<And>x. r \<noteq> Inr x" using 2(2) g k1 by (auto split: option.splits if_splits)
    then show ?thesis using flow_refl [of A A k] by auto
  next
    case False
    then obtain cap where cap: "c = Some cap" "HasPermissions cap kZionPerm_Transmit" by auto
    from ReleaseCapability_ok [OF ipc_inv_table [OF 2(3)], of cid "CurrentProcess k"]
    obtain k2 where rel: "on_table (ReleaseCapability cid) k = Inr (c, k2)" by (auto simp: on_table_def c)
    have rest: "translate_caps n (i + 1) ids (caps @ [c]) k2 = Inr (r, k')" using 2(2) g k1 cap rel by simp
    note f = flow_release [OF rel, of A]
    have "None \<notin> set (caps @ [c])" "{c'. Some c' \<in> set (caps @ [c])} \<subseteq> A \<union> set_option c" using 2(4,5) cap(1) by auto
    with 2(1) [OF g(1,2) refl cap(1) _ rel [folded k1] refl rest flow_inv [OF f 2(3)]] cap(2)
    obtain B where B: "A \<union> set_option c \<subseteq> B" "flow 0 (A \<union> set_option c) k2 B k'"
        "\<forall>caps'. r = Inr caps' \<longrightarrow> None \<notin> set caps' \<and> {c. Some c \<in> set caps'} \<subseteq> B"
      by blast
    show ?thesis by (intro exI [of _ B] conjI) (use flow_trans [OF f B(2)] B(1,3) in simp_all)
  qed
qed

lemma flow_TranslateRequest:
  assumes "TranslateRequestToIpcMessage req k = Inr (r, k')" and "ipc_inv A k"
  obtains B where "A \<subseteq> B" "flow 0 A k B k'" "\<And>m. r = Inr m \<Longrightarrow> None \<notin> set (msg_caps m) \<and> msg_reply_cap m = None \<and> caps_in m \<subseteq> B"
proof (cases "sr_num_bytes req > 0x1000")
  case True
  then show ?thesis using assms(1) that [of A] flow_refl [of A A k] by (auto simp: TranslateRequestToIpcMessage_def)
next
  case False
  then obtain bytes r' where t: "translate_caps (unat (sr_num_caps req)) 0 (sr_caps req) [] k = Inr (r', k')"
      "r = map_sum (\<lambda>e. e) (\<lambda>caps. \<lparr>msg_data = bytes, msg_caps = caps, msg_reply_cap = None\<rparr>) r'"
    using assms(1) by (auto simp: TranslateRequestToIpcMessage_def run_bind_eq_Inr run_map_eq_Inr)
  obtain B where B: "A \<subseteq> B" "flow 0 A k B k'" "\<forall>caps'. r' = Inr caps' \<longrightarrow> None \<notin> set caps' \<and> {c. Some c \<in> set caps'} \<subseteq> B"
    using flow_translate_caps [OF t(1) assms(2)] by auto
  show ?thesis by (rule that [OF B(1,2)]) (use B(3) in \<open>cases r'; auto simp: t(2) caps_in_def\<close>)
qed

lemma flow_write_caps_out:
  assumes "write_caps_out caps i out k = Inr (out', k')" and "ipc_inv A k" and "None \<notin> set caps" and "{c. Some c \<in> set caps} \<subseteq> A"
    and "room (length caps) k"
  shows "flow (length caps) A k A k'"
  using assms
proof (induction caps i out k rule: write_caps_out.induct)
  case (1 i out k)
  then show ?case by (simp add: flow_refl)
next
  case (2 cap caps i out k)
  from 2(2) obtain cid k1 out1 where s: "on_table (AddExistingCapability cap) k = Inr (cid, k1)" "cell_set (Some out) i cid = Inr out1"
      "write_caps_out caps (i + 1) (the out1) k1 = Inr (out', k')"
    by (auto simp: run_bind_eq_Inr)
  obtain c where c: "cap = Some c" "c \<in> A" using 2(4,5) by (cases cap) auto
  have f: "flow 1 A k A k1" using s(1) 2(6) c by (intro flow_add [where n = "length caps"]) auto
  have "flow (length caps) A k1 A k'"
    using 2(1) [OF s(1) refl s(2,3) flow_inv [OF f 2(3)]] 2(4,5) room_flow [OF f 2(3)] 2(6) by auto
  then show ?case using flow_trans [OF f] by simp
qed

lemma flow_TranslateResponse:
  assumes "TranslateIpcMessageToResponse m resp k = Inr (e, resp', k')" and "ipc_inv A k" and "None \<notin> set (msg_caps m)" and "caps_in m \<subseteq> A"
    and "room (length (msg_caps m)) k"
  shows "flow (length (msg_caps m)) A k A k'"
proof -
  have sub: "{c. Some c \<in> set (msg_caps m)} \<subseteq> A" using assms(4) by (auto simp: caps_in_def)
  have "k' = k \<or> (\<exists>i out out'. write_caps_out (msg_caps m) i out k = Inr (out', k'))"
    using assms(1) by (auto simp: TranslateIpcMessageToResponse_def run_bind_eq_Inr run_map_eq_Inr split: if_splits)
  then show ?thesis
    using flow_write_caps_out [OF _ assms(2,3) sub assms(5)] flow_weaken [OF flow_refl [of A A k]] by blast
qed

text \<open>Sending and receiving.\<close>

lemma flow_send_call:
  assumes "send_call T req k = Inr (e, k')" and inv: "ipc_inv A k"
  shows "flow 0 A k A k'"
proof -
  obtain cap k1 where g: "on_table (GetCapability (sr_cap req)) k = Inr (cap, k1)"
    using assms(1) by (auto simp: send_call_def run_bind_eq_Inr)
  have k1: "k1 = k" using get_known [OF g inv] by simp
  show ?thesis
  proof (cases "ValidateCapability T cap kZionPerm_Write = OK")
    case False
    then show ?thesis using assms(1) g k1 by (simp add: send_call_def Let_def flow_refl)
  next
    case True
    then obtain ob r k2 where t: "TranslateRequestToIpcMessage req k = Inr (r, k2)"
        "(case r of Inl e \<Rightarrow> Inr (e, k2) | Inr message \<Rightarrow> IpcObject_Send T ob message k2) = Inr (e, k')"
      using assms(1) g k1 by (auto simp: send_call_def run_bind_eq_Inr)
    obtain B where B: "A \<subseteq> B" "flow 0 A k B k2" "\<And>m. r = Inr m \<Longrightarrow> None \<notin> set (msg_caps m) \<and> msg_reply_cap m = None \<and> caps_in m \<subseteq> B"
      using flow_TranslateRequest [OF t(1) inv] by blast
    have "flow 0 B k2 B k'"
    proof (cases r)
      case (Inr m)
      then show ?thesis using t(2) B(3) [OF Inr] by (intro flow_IpcObject_Send [of T ob m]) simp_all
    qed (use t(2) in \<open>simp add: flow_refl\<close>)
    from flow_weaken [OF flow_trans [OF B(2) this] B(1)] show ?thesis by simp
  qed
qed

definition has_room :: "IpcKernel \<Rightarrow> bool" where
  "has_room k \<longleftrightarrow> room 3 k \<and> (\<forall>m \<in> messages_of k. room (Suc (length (msg_caps m))) k)"

text \<open>A message taken from its queue, with the room to hand its capabilities out.\<close>

lemma received:
  assumes "IpcObject_Recv T ob d c k = Inr (Some (Inr m), k')" and "ipc_inv A k" and "has_room k"
  shows "flow 0 A k (A \<union> caps_in m) k'" "ipc_inv (A \<union> caps_in m) k'" "None \<notin> set (msg_caps m)" "room (Suc (length (msg_caps m))) k'"
proof -
  from flow_IpcObject_Recv(2) [OF assms(1) refl, of A] have m: "m \<in> messages_of k" and f: "flow 0 A k (A \<union> caps_in m) k'" by auto
  show "flow 0 A k (A \<union> caps_in m) k'" by (rule f)
  show "ipc_inv (A \<union> caps_in m) k'" by (rule flow_inv [OF f assms(2)])
  show "None \<notin> set (msg_caps m)" using assms(2) m by (auto simp: ipc_inv_def)
  show "room (Suc (length (msg_caps m))) k'" using assms(3) m room_flow [OF f assms(2)] by (simp add: has_room_def)
qed

lemma flow_recv_message:
  assumes "recv_message T ob req k = Inr (e, req', k')" and inv: "ipc_inv A k" and rm: "has_room k"
  shows "\<exists>j. flow j A k A k'"
proof -
  obtain r k1 where r: "IpcObject_Recv T ob (rr_num_bytes req) (rr_num_caps req) k = Inr (r, k1)"
    using assms(1) by (auto simp: recv_message_def run_bind_eq_Inr)
  show ?thesis
  proof (cases "\<exists>m. r = Some (Inr m)")
    case False
    then have "k' = k1" using assms(1) r by (auto simp: recv_message_def split: option.splits sum.splits)
    then show ?thesis using flow_IpcObject_Recv(1) [OF r] by blast
  next
    case True
    then obtain m where m: "r = Some (Inr m)" by blast
    note rec = received [OF r [unfolded m] inv rm]
    obtain e' where t: "TranslateIpcMessageToResponse m req k1 = Inr (e', req', k')"
      using assms(1) r m by (auto simp: recv_message_def run_map_eq_Inr)
    have "flow (length (msg_caps m)) (A \<union> caps_in m) k1 (A \<union> caps_in m) k'"
      by (rule flow_TranslateResponse [OF t rec(2,3)]) (use room_weaken [OF rec(4)] in auto)
    from flow_weaken [OF flow_trans [OF rec(1) this], of A] show ?thesis by blast
  qed
qed

lemma flow_recv_call:
  assumes "recv_call T req k = Inr (e, req', k')" and inv: "ipc_inv A k" and "has_room k"
  shows "\<exists>j. flow j A k A k'"
proof -
  obtain cap k1 where g: "on_table (GetCapability (rr_cap req)) k = Inr (cap, k1)"
    using assms(1) by (auto simp: recv_call_def run_bind_eq_Inr)
  have "k1 = k" using get_known [OF g inv] by simp
  then have "k' = k \<or> (\<exists>ob. recv_message T ob req k = Inr (e, req', k'))"
    using assms(1) g by (auto simp: recv_call_def Let_def run_bind_eq_Inr split: if_splits)
  then show ?thesis using flow_recv_message [OF _ inv assms(3)] flow_refl [of A A k] by blast
qed

lemma flow_PortPoll:
  assumes "PortPoll req k = Inr (e, req', k')" and inv: "ipc_inv A k" and "has_room k"
  shows "\<exists>j. flow j A k A k'"
proof -
  obtain cap k1 where g: "on_table (GetCapability (rr_cap req)) k = Inr (cap, k1)"
    using assms(1) by (auto simp: PortPoll_def run_bind_eq_Inr)
  have "k1 = k" using get_known [OF g inv] by simp
  then have "k' = k \<or> (\<exists>ob. recv_message PORT ob req k = Inr (e, req', k'))"
    using assms(1) g by (auto simp: PortPoll_def Let_def run_bind_eq_Inr split: if_splits)
  then show ?thesis using flow_recv_message [OF _ inv assms(3)] flow_refl [of A A k] by blast
qed

lemma flow_recv_request:
  assumes "recv_request ob req k = Inr (e, req', i, k')" and inv: "ipc_inv A k" and rm: "has_room k"
  shows "\<exists>j. flow j A k A k'"
proof -
  obtain r k1 where r: "IpcObject_Recv ENDPOINT ob (rr_num_bytes req) (rr_num_caps req) k = Inr (r, k1)"
    using assms(1) by (auto simp: recv_request_def run_bind_eq_Inr)
  show ?thesis
  proof (cases "\<exists>m. r = Some (Inr m)")
    case False
    then have "k' = k1" using assms(1) r by (auto simp: recv_request_def split: option.splits sum.splits)
    then show ?thesis using flow_IpcObject_Recv(1) [OF r] by blast
  next
    case True
    then obtain m where m: "r = Some (Inr m)" by blast
    let ?B = "A \<union> caps_in m"
    note rec = received [OF r [unfolded m] inv rm]
    obtain e' req1 k2 where t: "TranslateIpcMessageToResponse m req k1 = Inr (e', req1, k2)"
        "k' = k2 \<or> (\<exists>cap i. msg_reply_cap m = Some cap \<and> on_table (AddExistingCapability (Some cap)) k2 = Inr (i, k'))"
      using assms(1) r m
      by (auto simp: recv_request_def TranslateIpcMessageToResponseWithReplyPort_def run_map_eq_Inr run_bind_eq_Inr split: if_splits)
    have f: "flow (length (msg_caps m)) ?B k1 ?B k2"
      by (rule flow_TranslateResponse [OF t(1) rec(2,3)]) (use room_weaken [OF rec(4)] in auto)
    have "room 1 k2" using room_flow [OF f rec(2), of 1] rec(4) by simp
    then have "flow 1 ?B k2 ?B k'"
      using t(2) flow_add [of _ k2 _ k' 0 ?B] flow_weaken [OF flow_refl [of ?B ?B k2]] by (auto simp: caps_in_def)
    from flow_weaken [OF flow_trans [OF rec(1) flow_trans [OF f this]], of A] show ?thesis by blast
  qed
qed

lemma flow_EndpointRecv:
  assumes "EndpointRecv req k = Inr (e, req', i, k')" and inv: "ipc_inv A k" and "has_room k"
  shows "\<exists>j. flow j A k A k'"
proof -
  obtain cap k1 where g: "on_table (GetCapability (rr_cap req)) k = Inr (cap, k1)"
    using assms(1) by (auto simp: EndpointRecv_def run_bind_eq_Inr)
  have "k1 = k" using get_known [OF g inv] by simp
  then have "k' = k \<or> (\<exists>ob. recv_request ob req k = Inr (e, req', i, k'))"
    using assms(1) g by (auto simp: EndpointRecv_def Let_def run_bind_eq_Inr split: if_splits)
  then show ?thesis using flow_recv_request [OF _ inv assms(3)] flow_refl [of A A k] by blast
qed

text \<open>Creating objects.\<close>

lemma flow_create:
  assumes add: "on_table (AddNewCapability \<lparr>ob_type = T, ob_ref = n\<rparr> q) k1 = Inr (i, k')"
    and k1: "ik_caps k1 = ik_caps k" "messages_of k1 \<subseteq> messages_of k \<union> {IpcMessage_new}" "ik_next_object k \<le> n" "n < ik_next_object k1"
    and "room (Suc m) k"
  shows "flow 1 A k (A \<union> {c. ik_next_object k \<le> ob_ref (cap_obj c) \<and> ob_ref (cap_obj c) < ik_next_object k1}) k'"
proof -
  let ?F = "{c. ik_next_object k \<le> ob_ref (cap_obj c) \<and> ob_ref (cap_obj c) < ik_next_object k1}"
  have "flow 0 A k (A \<union> ?F) k1" by (rule flow_fresh) (use k1 in auto)
  moreover have "flow 1 (A \<union> ?F) k1 (A \<union> ?F) k'" by (rule flow_new [OF add]) (use assms(6) k1 in \<open>auto simp: room_def\<close>)
  ultimately show ?thesis using flow_trans by fastforce
qed

lemma new_queue_messages:
  "new_queue k = (n, k1) \<Longrightarrow> n = ik_next_object k \<and> ik_caps k1 = ik_caps k \<and> messages_of k1 \<subseteq> messages_of k \<and> ik_next_object k1 = Suc n"
  by (auto simp: new_queue_def messages_of_def UnboundedMessageQueue_new_def split: if_splits)

lemma room_has: "has_room k \<Longrightarrow> room (Suc 0) k" "has_room k \<Longrightarrow> room (Suc (Suc 0)) k" "has_room k \<Longrightarrow> room (Suc (Suc (Suc 0))) k"
  by (auto simp: has_room_def numeral_3_eq_3 intro: room_weaken)

lemma flow_ChannelCreate:
  assumes "ChannelCreate k = Inr (e, c, k')" and inv: "ipc_inv A k" and "has_room k"
  shows "\<exists>j. flow j A k A k'"
proof -
  obtain c1 k1 where q1: "new_queue k = (c1, k1)" by fastforce
  obtain c2 k2 where q2: "new_queue k1 = (c2, k2)" by fastforce
  let ?k = "k2\<lparr>ik_peer := (ik_peer k2)(c1 := c2, c2 := c1)\<rparr>"
  let ?F = "{c. ik_next_object k \<le> ob_ref (cap_obj c) \<and> ob_ref (cap_obj c) < ik_next_object ?k}"
  obtain i1 k3 i2 where a: "on_table (AddNewCapability \<lparr>ob_type = CHANNEL, ob_ref = c1\<rparr> Channel_DefaultPermissions) ?k = Inr (i1, k3)"
      "on_table (AddNewCapability \<lparr>ob_type = CHANNEL, ob_ref = c2\<rparr> Channel_DefaultPermissions) k3 = Inr (i2, k')"
    using assms(1) q1 q2 by (auto simp: ChannelCreate_def CreateChannelPair_def run_bind_eq_Inr run_map_eq_Inr)
  note q = new_queue_messages [OF q1] new_queue_messages [OF q2]
  have m: "messages_of ?k = messages_of k2" by (simp add: messages_of_def)
  have f: "flow 1 A k (A \<union> ?F) k3"
    by (rule flow_create [OF a(1) _ _ _ _ room_has(2) [OF assms(3)]]) (use q m in auto)
  have "flow 1 (A \<union> ?F) k3 (A \<union> ?F) k'"
    by (rule flow_new [OF a(2) room_flow [OF f inv]]) (use q room_has(2) [OF assms(3)] in auto)
  from flow_weaken [OF flow_trans [OF f this], of A] show ?thesis by blast
qed

lemma flow_create_weak:
  assumes "on_table (AddNewCapability \<lparr>ob_type = T, ob_ref = n\<rparr> q) k1 = Inr (i, k')" and "has_room k"
    and "ik_caps k1 = ik_caps k" "messages_of k1 \<subseteq> messages_of k \<union> {IpcMessage_new}" "ik_next_object k \<le> n" "n < ik_next_object k1"
  shows "flow 1 A k A k'"
  by (rule flow_weaken [OF flow_create [OF assms(1,3-6) room_has(1) [OF assms(2)]]]) auto

lemma flow_PortCreate:
  assumes "PortCreate k = Inr (e, i, k')" and "has_room k"
  shows "flow 1 A k A k'"
proof -
  obtain n k1 where q: "new_queue k = (n, k1)" by fastforce
  have a: "on_table (AddNewCapability \<lparr>ob_type = PORT, ob_ref = n\<rparr> Port_DefaultPermissions) k1 = Inr (i, k')"
    using assms(1) q by (auto simp: PortCreate_def run_map_eq_Inr)
  show ?thesis by (rule flow_create_weak [OF a assms(2)]) (use new_queue_messages [OF q] in auto)
qed

lemma flow_EndpointCreate:
  assumes "EndpointCreate k = Inr (e, i, k')" and "has_room k"
  shows "flow 1 A k A k'"
proof -
  obtain n k1 where q: "new_queue k = (n, k1)" by fastforce
  have a: "on_table (AddNewCapability \<lparr>ob_type = ENDPOINT, ob_ref = n\<rparr> Endpoint_DefaultPermissions) k1 = Inr (i, k')"
    using assms(1) q by (auto simp: EndpointCreate_def Endpoint_Create_def run_map_eq_Inr)
  show ?thesis by (rule flow_create_weak [OF a assms(2)]) (use new_queue_messages [OF q] in auto)
qed

lemma RegisterListener_same: "RegisterListener irq p k = Inr (e, k') \<Longrightarrow> \<exists>m. k' = k\<lparr>ik_drivers := m\<rparr>"
  by (auto simp: RegisterListener_def run_bind_eq_Inr run_map_eq_Inr split: if_splits intro: exI [of _ "ik_drivers k"])

lemma flow_IrqRegister:
  assumes "IrqRegister irq k = Inr (e, i, k')" and "has_room k"
  shows "flow 1 A k A k'"
proof -
  obtain n k1 where q: "new_queue k = (n, k1)" by fastforce
  obtain k2 where a: "on_table (AddNewCapability \<lparr>ob_type = PORT, ob_ref = n\<rparr> Port_DefaultPermissions) k1 = Inr (i, k2)"
      "RegisterListener irq n k2 = Inr (e, k')"
    using assms(1) q by (auto simp: IrqRegister_def run_bind_eq_Inr run_map_eq_Inr)
  have "flow 1 A k A k2" by (rule flow_create_weak [OF a(1) assms(2)]) (use new_queue_messages [OF q] in auto)
  moreover have "flow 0 A k2 A k'" using RegisterListener_same [OF a(2)] by (auto intro: flow_same)
  ultimately show ?thesis using flow_trans by fastforce
qed

lemma flow_MutexCreate:
  assumes "MutexCreate k = Inr (e, i, k')" and "has_room k"
  shows "flow 1 A k A k'"
proof -
  let ?n = "ik_next_object k"
  let ?k = "k\<lparr>ik_mutexes := (ik_mutexes k)(?n := Mutex_Create), ik_next_object := Suc ?n\<rparr>"
  have "on_table (AddNewCapability \<lparr>ob_type = MUTEX, ob_ref = ?n\<rparr> Mutex_DefaultPermissions) ?k = Inr (i, k')"
    using assms(1) by (auto simp: MutexCreate_def Let_def run_map_eq_Inr)
  then show ?thesis by (rule flow_create_weak [OF _ assms(2)]) (auto simp: messages_of_def)
qed

lemma flow_SemaphoreCreate:
  assumes "SemaphoreCreate k = Inr (e, i, k')" and "has_room k"
  shows "flow 1 A k A k'"
proof -
  let ?n = "ik_next_object k"
  let ?k = "k\<lparr>ik_semaphores := (ik_semaphores k)(?n := Semaphore_Create), ik_next_object := Suc ?n\<rparr>"
  have "on_table (AddNewCapability \<lparr>ob_type = SEMAPHORE, ob_ref = ?n\<rparr> Semaphore_DefaultPermissions) ?k = Inr (i, k')"
    using assms(1) by (auto simp: SemaphoreCreate_def Let_def run_map_eq_Inr)
  then show ?thesis by (rule flow_create_weak [OF _ assms(2)]) (auto simp: messages_of_def)
qed

lemma flow_EndpointSend:
  assumes "EndpointSend req k = Inr (e, i, k')" and inv: "ipc_inv A k" and "has_room k"
  shows "flow 1 A k A k'"
proof -
  obtain cap k0 where g: "on_table (GetCapability (sr_cap req)) k = Inr (cap, k0)"
    using assms(1) by (auto simp: EndpointSend_def run_bind_eq_Inr)
  have k0: "k0 = k" using get_known [OF g inv] by simp
  show ?thesis
  proof (cases "ValidateCapability ENDPOINT cap kZionPerm_Write = OK")
    case False
    then show ?thesis using assms(1) g k0 flow_weaken [OF flow_refl [of A A k], of A 1] by (simp add: EndpointSend_def Let_def)
  next
    case True
    obtain n k1 where n: "ReplyPort_Create k = (n, k1)" by fastforce
    let ?F = "{c. ik_next_object k \<le> ob_ref (cap_obj c) \<and> ob_ref (cap_obj c) < ik_next_object k1}"
    let ?c = "\<lparr>cap_obj = \<lparr>ob_type = REPLY_PORT, ob_ref = n\<rparr>, cap_permissions = kZionPerm_Write OR kZionPerm_Transmit\<rparr>"
    obtain ob i1 k2 r k3 where s: "on_table (AddNewCapability \<lparr>ob_type = REPLY_PORT, ob_ref = n\<rparr> kZionPerm_Read) k1 = Inr (i1, k2)"
        "TranslateRequestToIpcMessage req k2 = Inr (r, k3)"
        "(case r of Inl e \<Rightarrow> Inr (e, Some i1, k3)
          | Inr m \<Rightarrow> run_map (\<lambda>(e, k). (e, Some i1, k)) (IpcObject_Send ENDPOINT ob (m\<lparr>msg_reply_cap := Some ?c\<rparr>) k3)) = Inr (e, i, k')"
      using assms(1) g k0 True n by (auto simp: EndpointSend_def run_bind_eq_Inr)
    have k1: "ik_caps k1 = ik_caps k" "messages_of k1 \<subseteq> messages_of k \<union> {IpcMessage_new}" "ik_next_object k \<le> n" "n < ik_next_object k1"
      using n by (auto simp: ReplyPort_Create_def messages_of_def SingleMessageQueue_new_def split: if_splits)
    have f: "flow 1 A k (A \<union> ?F) k2" by (rule flow_create [OF s(1) k1 room_has(1) [OF assms(3)]])
    obtain B where B: "A \<union> ?F \<subseteq> B" "flow 0 (A \<union> ?F) k2 B k3"
        "\<And>m. r = Inr m \<Longrightarrow> None \<notin> set (msg_caps m) \<and> msg_reply_cap m = None \<and> caps_in m \<subseteq> B"
      using flow_TranslateRequest [OF s(2) flow_inv [OF f inv]] by blast
    have "?c \<in> ?F" using k1 by simp
    then have c: "?c \<in> B" using B(1) by blast
    have "flow 0 B k3 B k'"
    proof (cases r)
      case (Inr m)
      have "IpcObject_Send ENDPOINT ob (m\<lparr>msg_reply_cap := Some ?c\<rparr>) k3 = Inr (e, k')" using s(3) Inr by (auto simp: run_map_eq_Inr)
      then show ?thesis by (rule flow_IpcObject_Send) (use B(3) [OF Inr] c in \<open>auto simp: caps_in_def\<close>)
    qed (use s(3) in \<open>simp add: flow_refl\<close>)
    from flow_weaken [OF flow_trans [OF f flow_trans [OF B(2) this]], of A 1] B(1) show ?thesis by simp
  qed
qed

text \<open>Duplicating and releasing capabilities.\<close>

lemma flow_CapDuplicate:
  assumes "CapDuplicate i msk k = Inr (e, i', k')" and inv: "ipc_inv A k" and "has_room k"
  shows "flow 1 A k A k'"
proof -
  obtain cap k1 where g: "on_table (GetCapability i) k = Inr (cap, k1)"
    using assms(1) by (auto simp: CapDuplicate_def run_bind_eq_Inr)
  have k1: "k1 = k" "cap = ct_lookup (ik_caps k (CurrentProcess k)) i" using get_known [OF g inv] by auto
  have "k' = k \<or> (\<exists>c j. cap = Some c \<and> on_table (AddNewCapability (cap_obj c) (cap_permissions c AND msk)) k = Inr (j, k'))"
    using assms(1) g k1(1) by (auto simp: CapDuplicate_def run_map_eq_Inr split: option.splits if_splits)
  then show ?thesis
  proof (elim disjE exE conjE)
    assume "k' = k"
    then show ?thesis using flow_weaken [OF flow_refl [of A A k], of A 1] by simp
  next
    fix c j
    assume c: "cap = Some c" and a: "on_table (AddNewCapability (cap_obj c) (cap_permissions c AND msk)) k = Inr (j, k')"
    let ?c = "\<lparr>cap_obj = cap_obj c, cap_permissions = cap_permissions c AND msk\<rparr>"
    have "c \<in> caps_of k" using table_caps(2) c k1(2) by metis
    then have "flow 0 A k (insert ?c A) k" by (intro flow_attenuate [OF _ attenuates_mask]) simp
    from flow_weaken [OF flow_trans [OF this flow_new [OF a room_has(1) [OF assms(3)]]], of A 1] show ?thesis by auto
  qed
qed

lemma flow_CapRelease: "CapRelease i k = Inr (e, k') \<Longrightarrow> flow 0 A k A k'"
  by (auto simp: CapRelease_def run_map_eq_Inr intro: flow_weaken [OF flow_release])

text \<open>Locks.\<close>

lemma Mutex_more:
  "Mutex_Lock m k = Inr (b, m', k') \<Longrightarrow> Kernel.more k' = Kernel.more k"
  "Mutex_Release m k = Inr (m', k') \<Longrightarrow> Kernel.more k' = Kernel.more k"
  by (auto simp: Mutex_Lock_wait_on Mutex_Release_wake_first run_map_eq_Inr dest: wait_on_more wake_first_more split: if_splits)

lemma Semaphore_more:
  "Semaphore_Wait s k = Inr (b, s', k') \<Longrightarrow> Kernel.more k' = Kernel.more k"
  "Semaphore_Signal s k = Inr (s', k') \<Longrightarrow> Kernel.more k' = Kernel.more k"
  by (auto simp: Semaphore_Wait_wait_on Semaphore_Signal_wake_first run_map_eq_Inr dest: wait_on_more wake_first_more split: if_splits)

lemma flow_scheduler: "Kernel.more k' = Kernel.more k \<Longrightarrow> flow 0 A k A k'"
  using ik_more [of k' k] by (intro flow_same) simp_all

lemma flow_objects: "Kernel.more k1 = Kernel.more k \<Longrightarrow> flow 0 A k A (k1\<lparr>ik_mutexes := mx\<rparr>)" "Kernel.more k1 = Kernel.more k \<Longrightarrow> flow 0 A k A (k1\<lparr>ik_semaphores := sx\<rparr>)"
  using ik_more [of k1 k] by (auto intro!: flow_same)

lemma flow_lock_mutex: "lock_mutex n k = Inr (e, k') \<Longrightarrow> flow 0 A k A k'"
  by (auto simp: lock_mutex_def run_map_eq_Inr intro: flow_objects Mutex_more)

lemma flow_wait_semaphore: "wait_semaphore n k = Inr (e, k') \<Longrightarrow> flow 0 A k A k'"
  by (auto simp: wait_semaphore_def run_map_eq_Inr intro: flow_objects Semaphore_more)

lemma flow_MutexLock: "MutexLock i k = Inr (e, k') \<Longrightarrow> ipc_inv A k \<Longrightarrow> flow 0 A k A k'"
  by (auto simp: MutexLock_def Let_def run_bind_eq_Inr split: if_splits dest!: get_known [of _ k _ _ A] intro: flow_refl flow_lock_mutex)

lemma flow_SemaphoreWait: "SemaphoreWait i k = Inr (e, k') \<Longrightarrow> ipc_inv A k \<Longrightarrow> flow 0 A k A k'"
  by (auto simp: SemaphoreWait_def Let_def run_bind_eq_Inr split: if_splits dest!: get_known [of _ k _ _ A] intro: flow_refl flow_wait_semaphore)

lemma flow_MutexRelease: "MutexRelease i k = Inr (e, k') \<Longrightarrow> ipc_inv A k \<Longrightarrow> flow 0 A k A k'"
  by (auto simp: MutexRelease_def Let_def run_bind_eq_Inr run_map_eq_Inr split: if_splits dest!: get_known [of _ k _ _ A]
      intro: flow_refl flow_objects Mutex_more)

lemma flow_SemaphoreSignal: "SemaphoreSignal i k = Inr (e, k') \<Longrightarrow> ipc_inv A k \<Longrightarrow> flow 0 A k A k'"
  by (auto simp: SemaphoreSignal_def Let_def run_bind_eq_Inr run_map_eq_Inr split: if_splits dest!: get_known [of _ k _ _ A]
      intro: flow_refl flow_objects Semaphore_more)

text \<open>Interrupts.\<close>

lemma flow_WriteMessage:
  assumes "DriverManager_WriteMessage irq m k = Inr k'" and "None \<notin> set (msg_caps m)" and "caps_in m \<subseteq> A"
  shows "flow 0 A k A k'"
proof -
  have "k' = k \<or> (\<exists>p d e. IpcObject_Send PORT p m (k\<lparr>ik_drivers := d\<rparr>) = Inr (e, k'))"
    using assms(1) by (auto simp: DriverManager_WriteMessage_def run_bind_eq_Inr run_map_eq_Inr split: if_splits option.splits)
  moreover have "flow 0 A k A (k\<lparr>ik_drivers := d\<rparr>)" for d by (rule flow_same) simp_all
  ultimately show ?thesis using flow_IpcObject_Send [OF _ assms(2,3)] flow_trans [of 0 A k A _ 0 A k'] flow_refl [of A A k] by fastforce
qed

section \<open>The dispatch of the calls\<close>

datatype ipc_call =
    CallChannelCreate | CallChannelSend SendReq | CallChannelRecv RecvReq
  | CallPortCreate | CallPortSend SendReq | CallPortRecv RecvReq | CallPortPoll RecvReq | CallIrqRegister u64
  | CallEndpointCreate | CallEndpointSend SendReq | CallEndpointRecv RecvReq
  | CallReplyPortSend SendReq | CallReplyPortRecv RecvReq
  | CallCapDuplicate u64 u64 | CallCapRelease u64
  | CallMutexCreate | CallMutexLock u64 | CallMutexRelease u64
  | CallSemaphoreCreate | CallSemaphoreWait u64 | CallSemaphoreSignal u64

text \<open>What a call writes through the pointers of its request.\<close>

datatype SysOut = OutWords "u64 list" | OutRecv RecvReq | OutRequest RecvReq "u64 option"

definition ipc_exec :: "ipc_call \<Rightarrow> IpcKernel \<Rightarrow> (ErrorCode option \<times> SysOut \<times> IpcKernel) run" where
  "ipc_exec c k =
     (case c of
        CallChannelCreate \<Rightarrow> run_map (\<lambda>(e, (i, j), k). (Some e, OutWords [i, j], k)) (ChannelCreate k)
      | CallChannelSend req \<Rightarrow> run_map (\<lambda>(e, k). (Some e, OutWords [], k)) (ChannelSend req k)
      | CallChannelRecv req \<Rightarrow> run_map (\<lambda>(e, r, k). (e, OutRecv r, k)) (ChannelRecv req k)
      | CallPortCreate \<Rightarrow> run_map (\<lambda>(e, i, k). (Some e, OutWords [i], k)) (PortCreate k)
      | CallPortSend req \<Rightarrow> run_map (\<lambda>(e, k). (Some e, OutWords [], k)) (PortSend req k)
      | CallPortRecv req \<Rightarrow> run_map (\<lambda>(e, r, k). (e, OutRecv r, k)) (PortRecv req k)
      | CallPortPoll req \<Rightarrow> run_map (\<lambda>(e, r, k). (e, OutRecv r, k)) (PortPoll req k)
      | CallIrqRegister irq_num \<Rightarrow> run_map (\<lambda>(e, i, k). (Some e, OutWords [i], k)) (IrqRegister irq_num k)
      | CallEndpointCreate \<Rightarrow> run_map (\<lambda>(e, i, k). (Some e, OutWords [i], k)) (EndpointCreate k)
      | CallEndpointSend req \<Rightarrow> run_map (\<lambda>(e, i, k). (Some e, OutWords (case i of None \<Rightarrow> [] | Some i \<Rightarrow> [i]), k)) (EndpointSend req k)
      | CallEndpointRecv req \<Rightarrow> run_map (\<lambda>(e, r, i, k). (e, OutRequest r i, k)) (EndpointRecv req k)
      | CallReplyPortSend req \<Rightarrow> run_map (\<lambda>(e, k). (Some e, OutWords [], k)) (ReplyPortSend req k)
      | CallReplyPortRecv req \<Rightarrow> run_map (\<lambda>(e, r, k). (e, OutRecv r, k)) (ReplyPortRecv req k)
      | CallCapDuplicate cap_in perm_mask \<Rightarrow> run_map (\<lambda>(e, i, k). (Some e, OutWords (case i of None \<Rightarrow> [] | Some i \<Rightarrow> [i]), k)) (CapDuplicate cap_in perm_mask k)
      | CallCapRelease cap \<Rightarrow> run_map (\<lambda>(e, k). (Some e, OutWords [], k)) (CapRelease cap k)
      | CallMutexCreate \<Rightarrow> run_map (\<lambda>(e, i, k). (Some e, OutWords [i], k)) (MutexCreate k)
      | CallMutexLock cap \<Rightarrow> run_map (\<lambda>(e, k). (e, OutWords [], k)) (MutexLock cap k)
      | CallMutexRelease cap \<Rightarrow> run_map (\<lambda>(e, k). (Some e, OutWords [], k)) (MutexRelease cap k)
      | CallSemaphoreCreate \<Rightarrow> run_map (\<lambda>(e, i, k). (Some e, OutWords [i], k)) (SemaphoreCreate k)
      | CallSemaphoreWait cap \<Rightarrow> run_map (\<lambda>(e, k). (e, OutWords [], k)) (SemaphoreWait cap k)
      | CallSemaphoreSignal cap \<Rightarrow> run_map (\<lambda>(e, k). (Some e, OutWords [], k)) (SemaphoreSignal cap k))"

text \<open>
  What happens besides the calls: the rest of a receiving or locking call when its thread runs
  again, an interrupt, or a timer tick.
\<close>

datatype kernel_event =
    ResumeRecv ObjectType nat RecvReq | ResumeEndpointRecv nat RecvReq | ResumeLock nat | ResumeWait nat
  | KeyboardInterrupt u8 | PciInterrupt u64 | TimerTick

fun event_exec :: "kernel_event \<Rightarrow> IpcKernel \<Rightarrow> IpcKernel run" where
  "event_exec (ResumeRecv T ob req) k = run_map (\<lambda>(e, req, k). k) (recv_message T ob req k)"
| "event_exec (ResumeEndpointRecv ob req) k = run_map (\<lambda>(e, req, i, k). k) (recv_request ob req k)"
| "event_exec (ResumeLock n) k = run_map snd (lock_mutex n k)"
| "event_exec (ResumeWait n) k = run_map snd (wait_semaphore n k)"
| "event_exec (KeyboardInterrupt b) k = interrupt_keyboard b k"
| "event_exec (PciInterrupt line) k = interrupt_pci line k"
| "event_exec TimerTick k = Preempt k"

lemma flow_exec:
  assumes "ipc_exec c k = Inr (e, out, k')" and inv: "ipc_inv A k" and rm: "has_room k"
  shows "\<exists>j. flow j A k A k'"
proof -
  note ex = exI [where P = "\<lambda>j. flow j A k A k'"]
  show ?thesis
    using assms(1) by (cases c)
      (auto simp: ipc_exec_def run_map_eq_Inr ChannelSend_def PortSend_def ReplyPortSend_def ChannelRecv_def PortRecv_def ReplyPortRecv_def
      dest: flow_send_call [OF _ inv] flow_recv_call [OF _ inv rm] flow_PortPoll [OF _ inv rm] flow_EndpointRecv [OF _ inv rm]
        flow_ChannelCreate [OF _ inv rm] flow_EndpointSend [OF _ inv rm] flow_CapDuplicate [OF _ inv rm]
        flow_MutexLock [OF _ inv] flow_MutexRelease [OF _ inv] flow_SemaphoreWait [OF _ inv] flow_SemaphoreSignal [OF _ inv]
      intro: ex flow_PortCreate [OF _ rm] flow_IrqRegister [OF _ rm] flow_EndpointCreate [OF _ rm] flow_MutexCreate [OF _ rm] flow_SemaphoreCreate [OF _ rm]
        flow_CapRelease)
qed

lemma flow_event:
  assumes "event_exec c k = Inr k'" and inv: "ipc_inv A k" and rm: "has_room k"
  shows "\<exists>j. flow j A k A k'"
proof -
  note ex = exI [where P = "\<lambda>j. flow j A k A k'"]
  show ?thesis
  proof (cases c)
    case (KeyboardInterrupt b)
    then show ?thesis using assms(1) flow_WriteMessage [of _ "IpcMessage_new\<lparr>msg_data := [b]\<rparr>" k k' A]
      by (intro ex [of 0]) (simp add: interrupt_keyboard_def caps_in_def IpcMessage_new_def)
  next
    case (PciInterrupt line)
    then show ?thesis using assms(1) flow_WriteMessage [of _ IpcMessage_new k k' A] by (intro ex [of 0]) (simp add: interrupt_pci_def)
  next
    case TimerTick
    then show ?thesis using assms(1) by (intro ex [of 0] flow_scheduler Preempt_more) simp
  qed (use assms(1) in \<open>auto simp: run_map_eq_Inr dest: flow_recv_message [OF _ inv rm] flow_recv_request [OF _ inv rm]
      intro: ex flow_lock_mutex flow_wait_semaphore\<close>)
qed

section \<open>An example\<close>

definition ipc_example :: IpcKernel where
  "ipc_example = Kernel.extend example_kernel
     \<lparr>ik_caps = (\<lambda>_. CapabilityTable_new),
      ik_queues = (\<lambda>q. UnboundedMessageQueue_new\<lparr>uq_pending_messages := if q = 0
         then [\<lparr>msg_data = [7], msg_caps = [Some \<lparr>cap_obj = \<lparr>ob_type = PORT, ob_ref = 0\<rparr>, cap_permissions = 0x33\<rparr>], msg_reply_cap = None\<rparr>] else []\<rparr>),
      ik_peer = (\<lambda>_. 0), ik_replies = (\<lambda>_. SingleMessageQueue_new), ik_mutexes = (\<lambda>_. Mutex_Create), ik_semaphores = (\<lambda>_. Semaphore_Create),
      ik_drivers = HashMap_new, ik_next_object = 1\<rparr>"

lemmas ipc_example_simps = ipc_example_def example_kernel_def example_thread_def Kernel.defs UnboundedMessageQueue_new_def SingleMessageQueue_new_def IpcMessage_new_def

lemma ipc_example_ok: "ipc_inv {} ipc_example" "has_room ipc_example"
proof -
  have m: "messages_of ipc_example = {\<lparr>msg_data = [7], msg_caps = [Some \<lparr>cap_obj = \<lparr>ob_type = PORT, ob_ref = 0\<rparr>, cap_permissions = 0x33\<rparr>], msg_reply_cap = None\<rparr>,
      IpcMessage_new}"
    by (auto simp: messages_of_def ipc_example_simps split: if_splits)
  have t: "ik_caps ipc_example p = CapabilityTable_new" "ik_next_object ipc_example = 1" for p by (simp_all add: ipc_example_simps)
  show "ipc_inv {} ipc_example" by (auto simp: ipc_inv_def m t caps_of_def caps_in_def IpcMessage_new_def)
  show "has_room ipc_example" by (auto simp: has_room_def m room_def t hm_limit_def)
qed

end
