(* ===== verification/Zion_Rpc.thy ===== *)
theory Zion_Rpc
  imports Zion_Ipc
begin

text \<open>
  What the system calls of \<open>zion/syscall/ipc.cpp\<close> deliver: the bytes and capabilities of a request
  arrive at the receiver, and a remote procedure call over an endpoint and its reply port comes back
  to the caller.
\<close>

section \<open>Copying bytes and capabilities\<close>

text \<open>The state in which the current process has the table \<open>t\<close>.\<close>

definition with_table :: "CapabilityTable \<Rightarrow> IpcKernel \<Rightarrow> IpcKernel" where
  "with_table t k = k\<lparr>ik_caps := (ik_caps k)(CurrentProcess k := t)\<rparr>"

abbreviation my_table :: "IpcKernel \<Rightarrow> CapabilityTable" where
  "my_table k \<equiv> ik_caps k (CurrentProcess k)"

lemma with_table_simps [simp]:
  "CurrentProcess (with_table t k) = CurrentProcess k" "ik_caps (with_table t k) = (ik_caps k)(CurrentProcess k := t)"
  "with_table t' (with_table t k) = with_table t' k" "with_table (my_table k) k = k"
  "ik_queues (with_table t k) = ik_queues k" "ik_replies (with_table t k) = ik_replies k" "ik_peer (with_table t k) = ik_peer k"
  "ik_next_object (with_table t k) = ik_next_object k" "k_threads (with_table t k) = k_threads k" "k_current_thread (with_table t k) = k_current_thread k"
  by (simp_all add: with_table_def CurrentProcess_def)

lemma on_table_with: "on_table f k = run_map (\<lambda>(x, t). (x, with_table t k)) (f (my_table k))"
  by (simp add: on_table_def with_table_def)

lemma unat_Suc_noof: "unat i + n < 2 ^ 64 \<Longrightarrow> 0 < n \<Longrightarrow> unat (i + 1 :: u64) = Suc (unat i)"
  by (subst unat_add_noof) simp_all

lemma write_bytes_out_ok:
  "unat i + length xs \<le> length out \<Longrightarrow> unat i + length xs < 2 ^ 64 \<Longrightarrow>
     write_bytes_out xs i out = Inr (take (unat i) out @ xs @ drop (unat i + length xs) out)"
proof (induction xs i out rule: write_bytes_out.induct)
  case (2 x xs i out)
  have s: "cell_set (Some out) i x = Inr (Some (out[unat i := x]))" using 2(2) by (simp add: cell_set_def)
  have i: "unat (i + 1) = Suc (unat i)" using unat_Suc_noof [OF 2(3)] by simp
  have "write_bytes_out xs (i + 1) (out[unat i := x]) =
      Inr (take (Suc (unat i)) (out[unat i := x]) @ xs @ drop (Suc (unat i) + length xs) (out[unat i := x]))"
    using 2(1) [OF s] 2(2,3) i by simp
  then show ?case using s 2(2) by (simp add: take_Suc_conv_app_nth)
qed simp

lemma translate_caps_ok:
  assumes "ct_inv (my_table k)" and "unat i + n \<le> length ids" and "unat i + n < 2 ^ 64"
    and "distinct (take n (drop (unat i) ids))"
    and "\<And>x. x \<in> set (take n (drop (unat i) ids)) \<Longrightarrow> \<exists>c. ct_lookup (my_table k) x = Some c \<and> HasPermissions c kZionPerm_Transmit"
  shows "\<exists>t. translate_caps n i ids caps k = Inr (Inr (caps @ map (ct_lookup (my_table k)) (take n (drop (unat i) ids))),
      with_table t k) \<and>
    ct_inv t \<and> ct_lookup t = ct_lookup (my_table k) |` (- set (take n (drop (unat i) ids))) \<and>
    ct_given t = ct_given (my_table k) \<and> ct_next_cap_id t = ct_next_cap_id (my_table k)"
  using assms
proof (induction n i ids caps k rule: translate_caps.induct)
  case (1 i ids caps k)
  then show ?case by (intro exI [of _ "my_table k"]) (simp add: restrict_map_def)
next
  case (2 n i ids caps k)
  let ?t = "my_table k" and ?x = "ids ! unat i" and ?xs = "take n (drop (Suc (unat i)) ids)"
  have i: "unat (i + 1) = Suc (unat i)" using unat_Suc_noof [OF 2(4)] by simp
  have split: "take (Suc n) (drop (unat i) ids) = ?x # ?xs" using 2(3) by (simp add: Cons_nth_drop_Suc [symmetric])
  have g: "cell_get (Some ids) i = Inr ?x" using 2(3) by (simp add: cell_get_def)
  obtain c where c: "ct_lookup ?t ?x = Some c" "HasPermissions c kZionPerm_Transmit" using 2(6) [of ?x] by (auto simp: split)
  obtain t where t: "ReleaseCapability ?x ?t = Inr (Some c, t)" "ct_inv t" "ct_lookup t = (ct_lookup ?t)(?x := None)"
      "ct_given t = ct_given ?t" "ct_next_cap_id t = ct_next_cap_id ?t"
    using ReleaseCapability_ok [OF 2(2), of ?x] c(1) by auto
  let ?k = "with_table t k"
  have get: "on_table (GetCapability ?x) k = Inr (Some c, k)" and rel: "on_table (ReleaseCapability ?x) k = Inr (Some c, ?k)"
    using on_table_Get [OF 2(2), of ?x] c(1) t(1) by (simp_all add: on_table_with)
  have other: "ct_lookup t x = ct_lookup ?t x" if "x \<in> set ?xs" for x using that 2(5) t(3) by (auto simp: split)
  have "\<exists>t'. translate_caps n (i + 1) ids (caps @ [Some c]) ?k = Inr (Inr ((caps @ [Some c]) @ map (ct_lookup t) ?xs),
        with_table t' k) \<and> ct_inv t' \<and> ct_lookup t' = ct_lookup t |` (- set ?xs) \<and>
      ct_given t' = ct_given t \<and> ct_next_cap_id t' = ct_next_cap_id t"
    using 2(1) [OF g get refl refl _ rel refl] 2(3-6) c(2) t(2) other by (simp add: i split)
  then obtain t' where t': "translate_caps n (i + 1) ids (caps @ [Some c]) ?k = Inr (Inr ((caps @ [Some c]) @ map (ct_lookup t) ?xs),
        with_table t' k)" "ct_inv t'" "ct_lookup t' = ct_lookup t |` (- set ?xs)"
      "ct_given t' = ct_given t" "ct_next_cap_id t' = ct_next_cap_id t" by blast
  have "ct_lookup t' = ct_lookup ?t |` (- set (?x # ?xs))" unfolding t'(3) t(3) by (auto simp: restrict_map_def)
  then show ?case using t' t(4,5) c g get rel other unfolding split by (intro exI [of _ t']) simp
qed

lemma write_caps_out_ok:
  assumes "ct_inv (my_table k)" and "unat i + length caps \<le> length out" and "unat i + length caps < 2 ^ 64"
    and "ct_given (my_table k) + length caps \<le> hm_limit"
  shows "\<exists>t ids. write_caps_out (map Some caps) i out k = Inr (take (unat i) out @ ids @ drop (unat i + length caps) out,
      with_table t k) \<and> length ids = length caps \<and>
    ct_inv t \<and> map (ct_lookup t) ids = map Some caps \<and> distinct ids \<and> set ids \<inter> dom (ct_lookup (my_table k)) = {} \<and>
    (\<forall>x. x \<notin> set ids \<longrightarrow> ct_lookup t x = ct_lookup (my_table k) x) \<and>
    ct_given t = ct_given (my_table k) + length caps"
  using assms
proof (induction caps arbitrary: i out k)
  case Nil
  show ?case by (rule exI [of _ "my_table k"], rule exI [of _ "[]"]) (use Nil in simp)
next
  case (Cons cap caps)
  let ?t = "my_table k" and ?n = "ct_next_cap_id (my_table k)"
  have i: "unat (i + 1) = Suc (unat i)" using unat_Suc_noof [OF Cons(4)] by simp
  obtain t where t: "AddExistingCapability (Some cap) ?t = Inr (?n, t)" "ct_inv t" "ct_lookup t = (ct_lookup ?t)(?n \<mapsto> cap)" "ct_given t = Suc (ct_given ?t)"
    using AddExistingCapability_ok [OF Cons(2), of cap] Cons(5) by auto
  let ?k = "with_table t k"
  have new: "ct_lookup ?t ?n = None" using ct_lookup_range [OF Cons(2), of ?n] by (cases "ct_lookup ?t ?n") auto
  have add: "on_table (AddExistingCapability (Some cap)) k = Inr (?n, ?k)" using t(1) by (simp add: on_table_with)
  have set: "cell_set (Some out) i ?n = Inr (Some (out[unat i := ?n]))" using Cons(3) by (simp add: cell_set_def)
  obtain t' ids where t': "write_caps_out (map Some caps) (i + 1) (out[unat i := ?n]) ?k =
        Inr (take (Suc (unat i)) (out[unat i := ?n]) @ ids @ drop (Suc (unat i) + length caps) (out[unat i := ?n]), with_table t' k)"
      "length ids = length caps" "ct_inv t'" "map (ct_lookup t') ids = map Some caps" "distinct ids" "set ids \<inter> dom (ct_lookup t) = {}"
      "\<forall>x. x \<notin> set ids \<longrightarrow> ct_lookup t' x = ct_lookup t x" "ct_given t' = ct_given t + length caps"
    using Cons(1) [of ?k "i + 1" "out[unat i := ?n]"] Cons(3-5) t(2,4) by (auto simp: i)
  have out: "write_caps_out (map Some (cap # caps)) i out k = Inr (take (unat i) out @ (?n # ids) @ drop (unat i + length (cap # caps)) out,
      with_table t' k)"
    using add set t'(1) Cons(3) by (simp add: take_Suc_conv_app_nth)
  have "ct_lookup t' ?n = Some cap" "?n \<notin> set ids" using t'(6,7) t(3) by auto
  then show ?case using out t' t(3,4) new by (intro exI [of _ t'] exI [of _ "?n # ids"]) auto
qed

section \<open>Requests and responses\<close>

text \<open>A request the kernel accepts: it fits, and its capabilities are held, distinct and transmittable.\<close>

definition request_ids :: "SendReq \<Rightarrow> u64 list" where
  "request_ids req = take (unat (sr_num_caps req)) (sr_caps req)"

definition request_ok :: "SendReq \<Rightarrow> CapabilityTable \<Rightarrow> bool" where
  "request_ok req t \<longleftrightarrow> sr_num_bytes req \<le> 0x1000 \<and> unat (sr_num_bytes req) \<le> length (sr_data req) \<and>
     unat (sr_num_caps req) \<le> length (sr_caps req) \<and> distinct (request_ids req) \<and>
     (\<forall>x \<in> set (request_ids req). \<exists>c. ct_lookup t x = Some c \<and> HasPermissions c kZionPerm_Transmit)"

definition request_message :: "SendReq \<Rightarrow> CapabilityTable \<Rightarrow> IpcMessage" where
  "request_message req t = \<lparr>msg_data = take (unat (sr_num_bytes req)) (sr_data req), msg_caps = map (ct_lookup t) (request_ids req), msg_reply_cap = None\<rparr>"

lemma TranslateRequest_ok:
  assumes "ct_inv (my_table k)" and "request_ok req (my_table k)"
  obtains t where "TranslateRequestToIpcMessage req k = Inr (Inr (request_message req (my_table k)), with_table t k)" "ct_inv t"
    "ct_lookup t = ct_lookup (my_table k) |` (- set (request_ids req))" "ct_given t = ct_given (my_table k)"
proof -
  have "\<not> 0x1000 < sr_num_bytes req" "Buffer (sr_data req) (sr_num_bytes req) = Inr (take (unat (sr_num_bytes req)) (sr_data req))"
    using assms(2) by (auto simp: request_ok_def Buffer_def)
  moreover obtain t where "translate_caps (unat (sr_num_caps req)) 0 (sr_caps req) [] k = Inr (Inr (map (ct_lookup (my_table k)) (request_ids req)), with_table t k)"
      "ct_inv t" "ct_lookup t = ct_lookup (my_table k) |` (- set (request_ids req))" "ct_given t = ct_given (my_table k)"
    using translate_caps_ok [OF assms(1), of 0 "unat (sr_num_caps req)" "sr_caps req" "[]"] assms(2) unat_lt_64 [of "sr_num_caps req"]
    by (auto simp: request_ok_def request_ids_def)
  ultimately show thesis using that by (simp add: TranslateRequestToIpcMessage_def request_message_def)
qed

definition fits :: "nat \<Rightarrow> nat \<Rightarrow> RecvReq \<Rightarrow> bool" where
  "fits n m req \<longleftrightarrow> n \<le> unat (rr_num_bytes req) \<and> n \<le> length (rr_data req) \<and> m \<le> unat (rr_num_caps req) \<and> m \<le> length (rr_caps req)"

definition holds :: "u8 list \<Rightarrow> Capability list \<Rightarrow> CapabilityTable \<Rightarrow> RecvReq \<Rightarrow> bool" where
  "holds bytes caps t req \<longleftrightarrow> rr_num_bytes req = of_nat (length bytes) \<and> take (length bytes) (rr_data req) = bytes \<and>
     rr_num_caps req = of_nat (length caps) \<and> map (ct_lookup t) (take (length caps) (rr_caps req)) = map Some caps"

lemma fits_words:
  assumes "fits n m req"
  shows "\<not> of_nat n > rr_num_bytes req" "\<not> of_nat m > rr_num_caps req" "n < 2 ^ 64" "m < 2 ^ 64"
proof -
  show lt: "n < 2 ^ 64" "m < 2 ^ 64" using assms unat_lt_64 [of "rr_num_bytes req"] unat_lt_64 [of "rr_num_caps req"] by (simp_all add: fits_def)
  show "\<not> of_nat n > rr_num_bytes req" "\<not> of_nat m > rr_num_caps req"
    using assms lt by (simp_all add: fits_def word_less_unat unat_of_nat_u64)
qed

lemma TranslateResponse_ok:
  assumes "ct_inv (my_table k)" and "msg_caps m = map Some caps" and "fits (length (msg_data m)) (length caps) resp"
    and "ct_given (my_table k) + length caps \<le> hm_limit"
  shows "\<exists>t resp'. TranslateIpcMessageToResponse m resp k = Inr (OK, resp', with_table t k) \<and> ct_inv t \<and>
    holds (msg_data m) caps t resp' \<and> ct_given t = ct_given (my_table k) + length caps \<and> ct_lookup (my_table k) \<subseteq>\<^sub>m ct_lookup t"
proof -
  note w = fits_words [OF assms(3)]
  have b: "write_bytes_out (msg_data m) 0 (rr_data resp) = Inr (msg_data m @ drop (length (msg_data m)) (rr_data resp))"
    using write_bytes_out_ok [of 0 "msg_data m" "rr_data resp"] assms(3) w(3) by (simp add: fits_def)
  obtain t ids where t: "write_caps_out (map Some caps) 0 (rr_caps resp) k = Inr (ids @ drop (length caps) (rr_caps resp), with_table t k)" "length ids = length caps"
      "ct_inv t" "map (ct_lookup t) ids = map Some caps" "set ids \<inter> dom (ct_lookup (my_table k)) = {}"
      "\<forall>x. x \<notin> set ids \<longrightarrow> ct_lookup t x = ct_lookup (my_table k) x" "ct_given t = ct_given (my_table k) + length caps"
    using write_caps_out_ok [OF assms(1), of 0 caps "rr_caps resp"] assms(3,4) w(4) by (auto simp: fits_def)
  let ?r = "resp\<lparr>rr_num_bytes := of_nat (length (msg_data m)), rr_data := msg_data m @ drop (length (msg_data m)) (rr_data resp),
      rr_num_caps := of_nat (length (msg_caps m)), rr_caps := ids @ drop (length caps) (rr_caps resp)\<rparr>"
  have tr: "TranslateIpcMessageToResponse m resp k = Inr (OK, ?r, with_table t k)"
    using b t(1) w(1,2) by (simp add: TranslateIpcMessageToResponse_def assms(2))
  have "ct_lookup (my_table k) \<subseteq>\<^sub>m ct_lookup t" using t(5,6) by (force simp: map_le_def)
  moreover have "holds (msg_data m) caps t ?r" using t assms(2) by (auto simp: holds_def)
  ultimately show ?thesis using tr t(3,7) by blast
qed

section \<open>The four calls of a remote procedure call\<close>

definition grants :: "CapabilityTable \<Rightarrow> u64 \<Rightarrow> ObjectType \<Rightarrow> nat \<Rightarrow> u64 \<Rightarrow> bool" where
  "grants t cid T ob p \<longleftrightarrow> (\<exists>c. ct_lookup t cid = Some c \<and> cap_obj c = \<lparr>ob_type = T, ob_ref = ob\<rparr> \<and> HasPermissions c p)"

lemma grants_checked:
  assumes "grants (my_table k) cid T ob p" and "ct_inv (my_table k)"
  obtains c where "on_table (GetCapability cid) k = Inr (Some c, k)" "ValidateCapability T (Some c) p = OK" "Capability_obj T c = Inr ob"
proof -
  obtain c where c: "ct_lookup (my_table k) cid = Some c" "cap_obj c = \<lparr>ob_type = T, ob_ref = ob\<rparr>" "HasPermissions c p"
    using assms(1) by (auto simp: grants_def)
  show thesis by (rule that [of c]) (use c on_table_Get [OF assms(2), of cid] in \<open>simp_all add: ValidateCapability_def Capability_obj_def TypeTag_def\<close>)
qed

lemma PushBack_idle: "uq_blocked_threads q = [] \<Longrightarrow> UnboundedMessageQueue_PushBack m q k = Inr (OK, q\<lparr>uq_pending_messages := uq_pending_messages q @ [m]\<rparr>, k)"
  by (cases q) (simp add: UnboundedMessageQueue_PushBack_def)

text \<open>The capability to the reply port that travels with a request.\<close>

definition reply_cap :: "nat \<Rightarrow> Capability" where
  "reply_cap n = \<lparr>cap_obj = \<lparr>ob_type = REPLY_PORT, ob_ref = n\<rparr>, cap_permissions = kZionPerm_Write OR kZionPerm_Transmit\<rparr>"

lemma EndpointSend_ok:
  assumes inv: "ct_inv (my_table k)" and cap: "grants (my_table k) (sr_cap req) ENDPOINT ep kZionPerm_Write"
    and req: "request_ok req (my_table k)" and rm: "ct_given (my_table k) < hm_limit" and idle: "uq_blocked_threads (ik_queues k ep) = []"
  obtains ri t where
    "EndpointSend req k = Inr (OK, Some ri, with_table t (k\<lparr>ik_replies := (ik_replies k)(ik_next_object k := SingleMessageQueue_new),
       ik_next_object := Suc (ik_next_object k),
       ik_queues := (ik_queues k)(ep := (ik_queues k ep)\<lparr>uq_pending_messages := uq_pending_messages (ik_queues k ep) @
         [(request_message req (my_table k))\<lparr>msg_reply_cap := Some (reply_cap (ik_next_object k))\<rparr>]\<rparr>)\<rparr>))"
    "ct_inv t" "grants t ri REPLY_PORT (ik_next_object k) kZionPerm_Read" "ct_given t = Suc (ct_given (my_table k))"
    "\<forall>x \<in> set (request_ids req). ct_lookup t x = None"
proof -
  obtain c where c: "on_table (GetCapability (sr_cap req)) k = Inr (Some c, k)" "ValidateCapability ENDPOINT (Some c) kZionPerm_Write = OK"
      "Capability_obj ENDPOINT c = Inr ep" by (rule grants_checked [OF cap inv])
  let ?n = "ik_next_object k" and ?i = "ct_next_cap_id (my_table k)"
  let ?k = "k\<lparr>ik_replies := (ik_replies k)(?n := SingleMessageQueue_new), ik_next_object := Suc ?n\<rparr>"
  have same: "my_table ?k = my_table k" "CurrentProcess ?k = CurrentProcess k" by (simp_all add: CurrentProcess_def)
  obtain t where t: "AddNewCapability \<lparr>ob_type = REPLY_PORT, ob_ref = ?n\<rparr> kZionPerm_Read (my_table k) = Inr (?i, t)" "ct_inv t"
      "ct_lookup t = (ct_lookup (my_table k))(?i \<mapsto> \<lparr>cap_obj = \<lparr>ob_type = REPLY_PORT, ob_ref = ?n\<rparr>, cap_permissions = kZionPerm_Read\<rparr>)"
      "ct_given t = Suc (ct_given (my_table k))"
    using AddNewCapability_ok [OF inv rm] by blast
  have new: "ct_lookup (my_table k) ?i = None" using ct_lookup_range [OF inv, of ?i] by (cases "ct_lookup (my_table k) ?i") auto
  have ids: "x \<noteq> ?i" if "x \<in> set (request_ids req)" for x using that req new by (auto simp: request_ok_def)
  then have rq: "request_ok req t" "request_message req t = request_message req (my_table k)" using req by (auto simp: request_ok_def request_message_def t(3))
  obtain t' where t': "TranslateRequestToIpcMessage req (with_table t ?k) = Inr (Inr (request_message req t), with_table t' (with_table t ?k))" "ct_inv t'"
      "ct_lookup t' = ct_lookup t |` (- set (request_ids req))" "ct_given t' = ct_given t"
    using TranslateRequest_ok [of "with_table t ?k" req] t(2) rq(1) by (auto simp: same)
  have look: "ct_lookup t' ?i = Some \<lparr>cap_obj = \<lparr>ob_type = REPLY_PORT, ob_ref = ?n\<rparr>, cap_permissions = kZionPerm_Read\<rparr>"
    using ids by (auto simp: t'(3) t(3) restrict_map_def)
  show thesis
  proof (rule that [of ?i t'])
    have send: "IpcObject_Send ENDPOINT ep m (with_table t' ?k) = Inr (OK, with_table t' (?k\<lparr>ik_queues := (ik_queues k)(ep :=
        (ik_queues k ep)\<lparr>uq_pending_messages := uq_pending_messages (ik_queues k ep) @ [m]\<rparr>)\<rparr>))" for m
      using idle by (simp add: IpcObject_Send_def queue_push_def PushBack_idle with_table_def CurrentProcess_def)
    have add: "on_table (AddNewCapability \<lparr>ob_type = REPLY_PORT, ob_ref = ?n\<rparr> kZionPerm_Read) ?k = Inr (?i, with_table t ?k)"
      using t(1) by (simp add: on_table_with same)
    show "EndpointSend req k = Inr (OK, Some ?i, with_table t' (?k\<lparr>ik_queues := (ik_queues k)(ep := (ik_queues k ep)\<lparr>uq_pending_messages :=
        uq_pending_messages (ik_queues k ep) @ [(request_message req (my_table k))\<lparr>msg_reply_cap := Some (reply_cap ?n)\<rparr>]\<rparr>)\<rparr>))"
      using c add t'(1) send by (simp add: EndpointSend_def ReplyPort_Create_def reply_cap_def rq(2))
    show "grants t' ?i REPLY_PORT ?n kZionPerm_Read" using look by (simp add: grants_def HasPermissions_def)
    show "\<forall>x \<in> set (request_ids req). ct_lookup t' x = None" by (simp add: t'(3))
    show "ct_given t' = Suc (ct_given (my_table k))" using t'(4) t(4) by simp
  qed (rule t'(2))
qed

lemma holds_extend: "holds bytes caps t req \<Longrightarrow> ct_lookup t \<subseteq>\<^sub>m ct_lookup t' \<Longrightarrow> holds bytes caps t' req"
proof -
  assume h: "holds bytes caps t req" and le: "ct_lookup t \<subseteq>\<^sub>m ct_lookup t'"
  have "ct_lookup t' x = ct_lookup t x" if "x \<in> set (take (length caps) (rr_caps req))" for x
  proof -
    have "ct_lookup t x \<in> set (map Some caps)" using h that unfolding holds_def by (metis image_eqI list.set_map)
    then show ?thesis using le by (auto simp: map_le_def dom_def)
  qed
  then have "map (ct_lookup t') (take (length caps) (rr_caps req)) = map (ct_lookup t) (take (length caps) (rr_caps req))"
    by (rule map_cong [OF refl])
  then show ?thesis using h unfolding holds_def by metis
qed

lemma EndpointRecv_ok:
  assumes inv: "ct_inv (my_table k)" and cap: "grants (my_table k) (rr_cap req) ENDPOINT ep kZionPerm_Read"
    and q: "uq_pending_messages (ik_queues k ep) = m # rest" and m: "msg_caps m = map Some caps" "msg_reply_cap m = Some rc"
    and fit: "fits (length (msg_data m)) (length caps) req" and rm: "ct_given (my_table k) + length caps < hm_limit"
  obtains req' si t where
    "EndpointRecv req k = Inr (Some OK, req', Some si, with_table t (k\<lparr>ik_queues := (ik_queues k)(ep := (ik_queues k ep)\<lparr>uq_pending_messages := rest\<rparr>)\<rparr>))"
    "ct_inv t" "holds (msg_data m) caps t req'" "ct_lookup t si = Some rc" "ct_lookup (my_table k) \<subseteq>\<^sub>m ct_lookup t"
    "ct_given t = Suc (ct_given (my_table k) + length caps)"
proof -
  obtain c where c: "on_table (GetCapability (rr_cap req)) k = Inr (Some c, k)" "ValidateCapability ENDPOINT (Some c) kZionPerm_Read = OK"
      "Capability_obj ENDPOINT c = Inr ep" by (rule grants_checked [OF cap inv])
  let ?k = "k\<lparr>ik_queues := (ik_queues k)(ep := (ik_queues k ep)\<lparr>uq_pending_messages := rest\<rparr>)\<rparr>"
  have same: "my_table ?k = my_table k" "CurrentProcess ?k = CurrentProcess k" by (simp_all add: CurrentProcess_def)
  have recv: "IpcObject_Recv ENDPOINT ep (rr_num_bytes req) (rr_num_caps req) k = Inr (Some (Inr m), ?k)"
    using q fits_words [OF fit] by (simp add: IpcObject_Recv_def queue_pop_def UnboundedMessageQueue_PopFront_def m(1))
  obtain t req' where t: "TranslateIpcMessageToResponse m req ?k = Inr (OK, req', with_table t ?k)" "ct_inv t" "holds (msg_data m) caps t req'"
      "ct_given t = ct_given (my_table k) + length caps" "ct_lookup (my_table k) \<subseteq>\<^sub>m ct_lookup t"
    using TranslateResponse_ok [of ?k, OF _ m(1) fit] inv rm by (auto simp: same)
  let ?i = "ct_next_cap_id t"
  obtain t' where t': "AddExistingCapability (Some rc) t = Inr (?i, t')" "ct_inv t'" "ct_lookup t' = (ct_lookup t)(?i \<mapsto> rc)" "ct_given t' = Suc (ct_given t)"
    using AddExistingCapability_ok [OF t(2), of rc] rm t(4) by auto
  have new: "ct_lookup t ?i = None" using ct_lookup_range [OF t(2), of ?i] by (cases "ct_lookup t ?i") auto
  then have le: "ct_lookup t \<subseteq>\<^sub>m ct_lookup t'" by (auto simp: map_le_def t'(3))
  show thesis
  proof (rule that [of req' ?i t'])
    have "on_table (AddExistingCapability (Some rc)) (with_table t ?k) = Inr (?i, with_table t' ?k)" using t'(1) by (simp add: on_table_with same)
    then show "EndpointRecv req k = Inr (Some OK, req', Some ?i, with_table t' ?k)"
      using c recv t(1) m(2) by (simp add: EndpointRecv_def recv_request_def TranslateIpcMessageToResponseWithReplyPort_def)
    show "holds (msg_data m) caps t' req'" by (rule holds_extend [OF t(3) le])
    show "ct_lookup (my_table k) \<subseteq>\<^sub>m ct_lookup t'" by (rule map_le_trans [OF t(5) le])
  qed (use t t' in simp_all)
qed

lemma ReplyPortSend_ok:
  assumes inv: "ct_inv (my_table k)" and cap: "grants (my_table k) (sr_cap req) REPLY_PORT n kZionPerm_Write" and req: "request_ok req (my_table k)"
  obtains t where "ct_inv t" "ct_lookup t = ct_lookup (my_table k) |` (- set (request_ids req))" "ct_given t = ct_given (my_table k)"
    "ik_replies k n = SingleMessageQueue_new \<Longrightarrow> ReplyPortSend req k = Inr (OK, with_table t (k\<lparr>ik_replies := (ik_replies k)(n :=
       \<lparr>sq_has_written = True, sq_has_read = False, sq_message = request_message req (my_table k), sq_blocked_threads = []\<rparr>)\<rparr>))"
    "sq_has_written (ik_replies k n) \<Longrightarrow> ReplyPortSend req k = Inr (FAILED_PRECONDITION, with_table t k)"
proof -
  obtain c where c: "on_table (GetCapability (sr_cap req)) k = Inr (Some c, k)" "ValidateCapability REPLY_PORT (Some c) kZionPerm_Write = OK"
      "Capability_obj REPLY_PORT c = Inr n" by (rule grants_checked [OF cap inv])
  obtain t where t: "TranslateRequestToIpcMessage req k = Inr (Inr (request_message req (my_table k)), with_table t k)" "ct_inv t"
      "ct_lookup t = ct_lookup (my_table k) |` (- set (request_ids req))" "ct_given t = ct_given (my_table k)"
    by (rule TranslateRequest_ok [OF inv req])
  have r: "msg_reply_cap (request_message req t) = None" for t by (simp add: request_message_def)
  have call: "ReplyPortSend req k = IpcObject_Send REPLY_PORT n (request_message req (my_table k)) (with_table t k)"
    using c t(1) by (simp add: ReplyPortSend_def send_call_def)
  show thesis
    by (rule that [OF t(2-4)])
       (simp_all add: call IpcObject_Send_def reply_push_def SingleMessageQueue_PushBack_def SingleMessageQueue_new_def r with_table_def CurrentProcess_def)
qed

lemma ReplyPortRecv_ok:
  assumes inv: "ct_inv (my_table k)" and cap: "grants (my_table k) (rr_cap req) REPLY_PORT n kZionPerm_Read"
    and q: "sq_has_written (ik_replies k n)" "\<not> sq_has_read (ik_replies k n)" and m: "msg_caps (sq_message (ik_replies k n)) = map Some caps"
    and fit: "fits (length (msg_data (sq_message (ik_replies k n)))) (length caps) req" and rm: "ct_given (my_table k) + length caps \<le> hm_limit"
  obtains req' k' where "ReplyPortRecv req k = Inr (Some OK, req', k')" "CurrentProcess k' = CurrentProcess k"
    "holds (msg_data (sq_message (ik_replies k n))) caps (my_table k') req'"
proof -
  obtain c where c: "on_table (GetCapability (rr_cap req)) k = Inr (Some c, k)" "ValidateCapability REPLY_PORT (Some c) kZionPerm_Read = OK"
      "Capability_obj REPLY_PORT c = Inr n" by (rule grants_checked [OF cap inv])
  let ?m = "sq_message (ik_replies k n)"
  let ?k = "k\<lparr>ik_replies := (ik_replies k)(n := (ik_replies k n)\<lparr>sq_has_read := True, sq_message := IpcMessage_new\<rparr>)\<rparr>"
  have same: "my_table ?k = my_table k" "CurrentProcess ?k = CurrentProcess k" by (simp_all add: CurrentProcess_def)
  have recv: "IpcObject_Recv REPLY_PORT n (rr_num_bytes req) (rr_num_caps req) k = Inr (Some (Inr ?m), ?k)"
    using q fits_words [OF fit] by (simp add: IpcObject_Recv_def reply_pop_def SingleMessageQueue_PopFront_def m)
  obtain t req' where t: "TranslateIpcMessageToResponse ?m req ?k = Inr (OK, req', with_table t ?k)" "holds (msg_data ?m) caps t req'"
    using TranslateResponse_ok [of ?k, OF _ m fit] inv rm by (auto simp: same)
  show thesis
    by (rule that [of req' "with_table t ?k"]) (use c recv t in \<open>simp_all add: ReplyPortRecv_def recv_call_def recv_message_def same\<close>)
qed

section \<open>The round trip\<close>

text \<open>Process \<open>p\<close> runs after other threads did things that leave tables, queues and objects alone.\<close>

definition later :: "u64 \<Rightarrow> IpcKernel \<Rightarrow> IpcKernel \<Rightarrow> bool" where
  "later p k k' \<longleftrightarrow> Kernel.more k' = Kernel.more k \<and> CurrentProcess k' = p"

definition plain_reply :: "u64 \<Rightarrow> SendReq \<Rightarrow> bool" where
  "plain_reply cid req \<longleftrightarrow> sr_cap req = cid \<and> sr_num_caps req = 0 \<and> sr_num_bytes req \<le> 0x1000 \<and> unat (sr_num_bytes req) \<le> length (sr_data req)"

lemma later_same:
  assumes "later p k k'"
  shows "CurrentProcess k' = p" "ik_caps k' = ik_caps k" "ik_queues k' = ik_queues k" "ik_replies k' = ik_replies k"
  using assms ik_more [of k' k] by (auto simp: later_def)

lemma plain_reply_ok:
  assumes "plain_reply cid req"
  shows "request_ids req = []" "request_ok req t" "request_message req t = \<lparr>msg_data = take (unat (sr_num_bytes req)) (sr_data req), msg_caps = [], msg_reply_cap = None\<rparr>"
  using assms by (auto simp: plain_reply_def request_ids_def request_ok_def request_message_def)

lemma grants_reply: "ct_lookup t cid = Some (reply_cap n) \<Longrightarrow> grants t cid REPLY_PORT n kZionPerm_Write"
  by (simp add: grants_def reply_cap_def HasPermissions_def kZionPerm_Write_def kZionPerm_Transmit_def)

text \<open>The second half: the server answers and the client receives the answer.\<close>

lemma reply_roundtrip:
  assumes server: "ct_inv (my_table k)" "ct_lookup (my_table k) si = Some (reply_cap n)" and port: "ik_replies k n = SingleMessageQueue_new"
    and client: "p \<noteq> CurrentProcess k" "ct_inv (ik_caps k p)" "grants (ik_caps k p) ri REPLY_PORT n kZionPerm_Read" "ct_given (ik_caps k p) \<le> hm_limit"
    and reply: "plain_reply si reply"
  shows "\<exists>k'. ReplyPortSend reply k = Inr (OK, k') \<and> (\<exists>k''. ReplyPortSend reply k' = Inr (FAILED_PRECONDITION, k'')) \<and>
    (\<forall>k2 creq. later p k' k2 \<longrightarrow> rr_cap creq = ri \<longrightarrow> fits (unat (sr_num_bytes reply)) 0 creq \<longrightarrow>
      (\<exists>creq' k3. ReplyPortRecv creq k2 = Inr (Some OK, creq', k3) \<and> holds (take (unat (sr_num_bytes reply)) (sr_data reply)) [] (my_table k3) creq'))"
proof -
  note r = plain_reply_ok [OF reply]
  have cap: "sr_cap reply = si" and len: "length (take (unat (sr_num_bytes reply)) (sr_data reply)) = unat (sr_num_bytes reply)"
    using reply by (auto simp: plain_reply_def)
  let ?q = "\<lparr>sq_has_written = True, sq_has_read = False, sq_message = request_message reply (my_table k), sq_blocked_threads = []\<rparr>"
  obtain t where t: "ct_inv t" "ct_lookup t = ct_lookup (my_table k)"
      "ReplyPortSend reply k = Inr (OK, with_table t (k\<lparr>ik_replies := (ik_replies k)(n := ?q)\<rparr>))"
    using ReplyPortSend_ok [OF server(1), of reply n] grants_reply [OF server(2)] r(1,2) port cap by (auto simp: restrict_map_def)
  define k' where "k' = with_table t (k\<lparr>ik_replies := (ik_replies k)(n := ?q)\<rparr>)"
  have same: "CurrentProcess k' = CurrentProcess k" "my_table k' = t" "ik_replies k' n = ?q" "ik_caps k' p = ik_caps k p"
    using client(1) by (simp_all add: k'_def CurrentProcess_def)
  have pre: "ct_inv (my_table k')" "grants (my_table k') (sr_cap reply) REPLY_PORT n kZionPerm_Write" "sq_has_written (ik_replies k' n)"
    using t(1,2) server(2) cap by (simp_all add: same(2,3) grants_reply)
  have again: "\<exists>k''. ReplyPortSend reply k' = Inr (FAILED_PRECONDITION, k'')"
    by (rule ReplyPortSend_ok [OF pre(1,2) r(2)]) (use pre(3) in blast)
  have "\<exists>creq' k3. ReplyPortRecv creq k2 = Inr (Some OK, creq', k3) \<and> holds (take (unat (sr_num_bytes reply)) (sr_data reply)) [] (my_table k3) creq'"
    if k2: "later p k' k2" "rr_cap creq = ri" "fits (unat (sr_num_bytes reply)) 0 creq" for k2 creq
  proof -
    note l = later_same [OF k2(1)]
    have q: "ik_replies k2 n = ?q" "my_table k2 = ik_caps k p" using l same by simp_all
    show ?thesis
      by (rule ReplyPortRecv_ok [of k2 creq n "[]"]) (use q client(2-4) k2(2,3) len r(3) in auto)
  qed
  then show ?thesis using t(3) again unfolding k'_def by blast
qed

text \<open>
  C7.  A remote procedure call.  A client that may write to an endpoint sends it a request; a server
  that may read from the endpoint receives exactly its bytes, owns exactly its capabilities, and gets a
  capability to a new reply port; what it sends there is what the client receives with the id it
  was given by the first call, and a second reply is refused.  The client no longer owns the
  capabilities it sent.
\<close>

theorem rpc_roundtrip:
  assumes tables: "\<And>p. ct_inv (ik_caps k p)" and client: "grants (my_table k) (sr_cap req) ENDPOINT ep kZionPerm_Write"
    and server: "ps \<noteq> CurrentProcess k" "grants (ik_caps k ps) (rr_cap rreq) ENDPOINT ep kZionPerm_Read"
    and idle: "ik_queues k ep = UnboundedMessageQueue_new"
    and req: "request_ok req (my_table k)" "map (ct_lookup (my_table k)) (request_ids req) = map Some caps"
    and fit: "fits (unat (sr_num_bytes req)) (length caps) rreq"
    and rm: "ct_given (my_table k) < hm_limit" "ct_given (ik_caps k ps) + length caps < hm_limit"
  shows "\<exists>ri k1. EndpointSend req k = Inr (OK, Some ri, k1) \<and> (\<forall>x \<in> set (request_ids req). ct_lookup (my_table k1) x = None) \<and>
    (\<forall>k2. later ps k1 k2 \<longrightarrow>
      (\<exists>rreq' si k3. EndpointRecv rreq k2 = Inr (Some OK, rreq', Some si, k3) \<and>
        holds (take (unat (sr_num_bytes req)) (sr_data req)) caps (my_table k3) rreq' \<and>
        (\<forall>reply. plain_reply si reply \<longrightarrow>
          (\<exists>k4. ReplyPortSend reply k3 = Inr (OK, k4) \<and> (\<exists>k'. ReplyPortSend reply k4 = Inr (FAILED_PRECONDITION, k')) \<and>
            (\<forall>k5 creq. later (CurrentProcess k) k4 k5 \<longrightarrow> rr_cap creq = ri \<longrightarrow> fits (unat (sr_num_bytes reply)) 0 creq \<longrightarrow>
              (\<exists>creq' k6. ReplyPortRecv creq k5 = Inr (Some OK, creq', k6) \<and>
                holds (take (unat (sr_num_bytes reply)) (sr_data reply)) [] (my_table k6) creq'))))))"
proof -
  let ?m = "(request_message req (my_table k))\<lparr>msg_reply_cap := Some (reply_cap (ik_next_object k))\<rparr>" and ?n = "ik_next_object k"
  let ?k = "k\<lparr>ik_replies := (ik_replies k)(?n := SingleMessageQueue_new), ik_next_object := Suc ?n,
      ik_queues := (ik_queues k)(ep := UnboundedMessageQueue_new\<lparr>uq_pending_messages := [?m]\<rparr>)\<rparr>"
  obtain ri t where t: "EndpointSend req k = Inr (OK, Some ri, with_table t ?k)" "ct_inv t" "grants t ri REPLY_PORT ?n kZionPerm_Read"
      "ct_given t = Suc (ct_given (my_table k))" "\<forall>x \<in> set (request_ids req). ct_lookup t x = None"
    by (rule EndpointSend_ok [OF tables client req(1) rm(1)]) (auto simp: idle UnboundedMessageQueue_new_def)
  define k1 where "k1 = with_table t ?k"
  have k1: "my_table k1 = t" "ik_caps k1 ps = ik_caps k ps" "ik_caps k1 (CurrentProcess k) = t" "CurrentProcess k1 = CurrentProcess k"
      "uq_pending_messages (ik_queues k1 ep) = [?m]" "ik_replies k1 ?n = SingleMessageQueue_new"
    using server(1) by (simp_all add: k1_def CurrentProcess_def)
  have m: "msg_caps ?m = map Some caps" "msg_reply_cap ?m = Some (reply_cap ?n)" "msg_data ?m = take (unat (sr_num_bytes req)) (sr_data req)"
      "length (msg_data ?m) = unat (sr_num_bytes req)"
    using req by (auto simp: request_message_def request_ok_def)
  have rest: "\<exists>rreq' si k3. EndpointRecv rreq k2 = Inr (Some OK, rreq', Some si, k3) \<and> holds (msg_data ?m) caps (my_table k3) rreq' \<and>
      (\<forall>reply. plain_reply si reply \<longrightarrow> (\<exists>k4. ReplyPortSend reply k3 = Inr (OK, k4) \<and> (\<exists>k'. ReplyPortSend reply k4 = Inr (FAILED_PRECONDITION, k')) \<and>
        (\<forall>k5 creq. later (CurrentProcess k) k4 k5 \<longrightarrow> rr_cap creq = ri \<longrightarrow> fits (unat (sr_num_bytes reply)) 0 creq \<longrightarrow>
          (\<exists>creq' k6. ReplyPortRecv creq k5 = Inr (Some OK, creq', k6) \<and> holds (take (unat (sr_num_bytes reply)) (sr_data reply)) [] (my_table k6) creq'))))"
    if "later ps k1 k2" for k2
  proof -
    note l = later_same [OF that]
    have my: "my_table k2 = ik_caps k ps" using l k1(2) by simp
    obtain rreq' si t2 where t2: "EndpointRecv rreq k2 = Inr (Some OK, rreq', Some si, with_table t2 (k2\<lparr>ik_queues := (ik_queues k2)(ep := (ik_queues k2 ep)\<lparr>uq_pending_messages := []\<rparr>)\<rparr>))"
        "ct_inv t2" "holds (msg_data ?m) caps t2 rreq'" "ct_lookup t2 si = Some (reply_cap ?n)"
      by (rule EndpointRecv_ok [of k2 rreq ep ?m "[]" caps "reply_cap ?n"]) (use my tables server(2) l(3) k1(5) m fit rm(2) in auto)
    define k3 where "k3 = with_table t2 (k2\<lparr>ik_queues := (ik_queues k2)(ep := (ik_queues k2 ep)\<lparr>uq_pending_messages := []\<rparr>)\<rparr>)"
    have k3: "my_table k3 = t2" "ik_caps k3 (CurrentProcess k) = t" "CurrentProcess k3 = ps" "ik_replies k3 ?n = SingleMessageQueue_new"
      using server(1) l k1 by (simp_all add: k3_def CurrentProcess_def)
    show ?thesis
      using t2 k3 t(2-4) rm(1) server(1) reply_roundtrip [of k3 si ?n "CurrentProcess k" ri]
      by (intro exI [of _ rreq'] exI [of _ si] exI [of _ k3] conjI) (auto simp: k3_def [symmetric])
  qed
  show ?thesis using t(1,5) k1(1) rest unfolding k1_def [symmetric] m(3) by blast
qed

text \<open>Threads of different processes: thread \<open>t\<close> belongs to process \<open>t\<close>.\<close>

definition rpc_example :: "CapabilityTable \<Rightarrow> CapabilityTable \<Rightarrow> IpcKernel" where
  "rpc_example tc ts = ipc_example\<lparr>k_threads := (\<lambda>t. (example_thread 0 T_RUNNABLE)\<lparr>th_process := of_nat t\<rparr>),
     ik_caps := (\<lambda>p. if p = 1 then tc else if p = 2 then ts else CapabilityTable_new), ik_queues := (\<lambda>_. UnboundedMessageQueue_new), ik_next_object := 6\<rparr>"

lemma add_to_table:
  assumes "ct_inv t" and "ct_given t < 10"
  shows "\<exists>t'. ct_inv t' \<and> ct_lookup t' = (ct_lookup t)(ct_next_cap_id t \<mapsto> c) \<and> ct_given t' = Suc (ct_given t) \<and> ct_next_cap_id t' = ct_next_cap_id t + 1"
  using AddExistingCapability_ok [OF assms(1), of c] assms(2) by (auto simp: hm_limit_def)

theorem rpc_roundtrip_witness:
  "\<exists>k k1 ri k2 rreq' si k3. ct_lookup (my_table k) 0x101 = Some \<lparr>cap_obj = \<lparr>ob_type = PORT, ob_ref = 4\<rparr>, cap_permissions = 0x33\<rparr> \<and>
    EndpointSend \<lparr>sr_cap = 0x100, sr_num_bytes = 2, sr_data = [1, 2], sr_num_caps = 1, sr_caps = [0x101]\<rparr> k = Inr (OK, Some ri, k1) \<and>
    ct_lookup (my_table k1) 0x101 = None \<and> later 2 k1 k2 \<and>
    EndpointRecv \<lparr>rr_cap = 0x100, rr_num_bytes = 8, rr_data = replicate 8 0, rr_num_caps = 2, rr_caps = [0, 0]\<rparr> k2 = Inr (Some OK, rreq', Some si, k3) \<and>
    holds [1, 2] [\<lparr>cap_obj = \<lparr>ob_type = PORT, ob_ref = 4\<rparr>, cap_permissions = 0x33\<rparr>] (my_table k3) rreq'"
proof -
  let ?e = "\<lparr>cap_obj = \<lparr>ob_type = ENDPOINT, ob_ref = 5\<rparr>, cap_permissions = 0x33\<rparr>" and ?c = "\<lparr>cap_obj = \<lparr>ob_type = PORT, ob_ref = 4\<rparr>, cap_permissions = 0x33\<rparr>"
  let ?req = "\<lparr>sr_cap = 0x100, sr_num_bytes = 2, sr_data = [1, 2], sr_num_caps = 1, sr_caps = [0x101]\<rparr>"
  let ?rreq = "\<lparr>rr_cap = 0x100, rr_num_bytes = 8, rr_data = replicate 8 0, rr_num_caps = 2, rr_caps = [0, 0]\<rparr>"
  have next0: "ct_next_cap_id CapabilityTable_new = 0x100" by (simp add: CapabilityTable_new_def)
  obtain ts where ts: "ct_inv ts" "ct_lookup ts = [0x100 \<mapsto> ?e]" "ct_given ts = 1" "ct_next_cap_id ts = 0x101"
    using add_to_table [of CapabilityTable_new ?e] by (auto simp: next0)
  obtain tc where tc: "ct_inv tc" "ct_lookup tc = [0x100 \<mapsto> ?e, 0x101 \<mapsto> ?c]" "ct_given tc = 2"
    using add_to_table [of ts ?c] ts by auto
  let ?k = "rpc_example tc ts"
  have k: "ik_caps ?k = (\<lambda>p. if p = 1 then tc else if p = 2 then ts else CapabilityTable_new)" "CurrentProcess ?k = 1" "ik_queues ?k 5 = UnboundedMessageQueue_new"
    by (simp_all add: rpc_example_def ipc_example_simps CurrentProcess_def)
  have h: "\<And>p. ct_inv (ik_caps ?k p)" "grants (my_table ?k) (sr_cap ?req) ENDPOINT 5 kZionPerm_Write" "2 \<noteq> CurrentProcess ?k"
      "grants (ik_caps ?k 2) (rr_cap ?rreq) ENDPOINT 5 kZionPerm_Read" "ik_queues ?k 5 = UnboundedMessageQueue_new"
    using ts tc by (simp_all add: k grants_def HasPermissions_def kZionPerm_Write_def kZionPerm_Read_def)
  have ids: "request_ids ?req = [0x101]" by (simp add: request_ids_def)
  have h2: "request_ok ?req (my_table ?k)" "map (ct_lookup (my_table ?k)) (request_ids ?req) = map Some [?c]"
    using tc by (simp_all add: request_ok_def ids k HasPermissions_def kZionPerm_Transmit_def)
  have h3: "fits (unat (sr_num_bytes ?req)) (length [?c]) ?rreq" "ct_given (my_table ?k) < hm_limit" "ct_given (ik_caps ?k 2) + length [?c] < hm_limit"
    using ts tc by (simp_all add: fits_def k hm_limit_def)
  from rpc_roundtrip [OF h h2 h3]
  obtain ri k1 where k1: "EndpointSend ?req ?k = Inr (OK, Some ri, k1)" "ct_lookup (my_table k1) 0x101 = None"
      "\<And>k2. later 2 k1 k2 \<Longrightarrow> \<exists>rreq' si k3. EndpointRecv ?rreq k2 = Inr (Some OK, rreq', Some si, k3) \<and> holds [1, 2] [?c] (my_table k3) rreq'"
    unfolding ids by fastforce
  let ?k2 = "k1\<lparr>k_threads := k_threads ?k, k_current_thread := 2\<rparr>"
  have "later 2 k1 ?k2" by (simp add: later_def CurrentProcess_def rpc_example_def)
  with k1(3) [OF this] k1(1,2) k tc(2) show ?thesis by (intro exI [of _ ?k] exI [of _ k1] exI [of _ ri] exI [of _ ?k2]) auto
qed

end
