(* ===== verification/Zion_Process.thy ===== *)
theory Zion_Process
  imports Zion_Ipc Zion_AddressSpace
begin

text \<open>
  Processes and the life of their threads (\<open>zion/object/process.h\<close>, \<open>zion/object/process.cpp\<close>,
  \<open>zion/object/thread.cpp\<close>, \<open>zion/scheduler/process_manager.cpp\<close>, \<open>zion/scheduler/cleanup.cpp\<close>).

  The state of the kernel is the IPC state together with the machine, the kernel's virtual memory
  manager, the memory objects, the address spaces and the processes.  Objects are numbered in the
  order of their creation; they are not destroyed when their last reference goes away.  A
  computation that does not end is \<open>None\<close>.
\<close>

section \<open>State\<close>

datatype ProcessState = P_UNSPECIFIED | P_SETUP | P_RUNNING | P_CLEANUP | P_FINISHED

record Process =
  pr_id :: u64
  pr_vmas :: "nat option"
  pr_state :: ProcessState
  pr_exit_code :: u64
  pr_next_thread_id :: u64
  pr_threads :: "nat list"

text \<open>The lists of the cleanup thread.\<close>

record ProcessCleanup =
  pc_semaphore :: Semaphore
  pc_thread_list :: "nat list"
  pc_process_list :: "nat list"

text \<open>
  \<open>sy_process_of\<close> gives the process a thread's reference \<open>process_\<close> refers to, by its id.
\<close>

record System =
  sy_kernel :: IpcKernel
  sy_machine :: Machine
  sy_vmm :: KernelVmm
  sy_objects :: MemObjs
  sy_spaces :: "nat \<Rightarrow> AddressSpace"
  sy_procs :: "nat \<Rightarrow> Process"
  sy_process_of :: "u64 \<Rightarrow> nat"
  sy_next_id :: u64
  sy_proc_map :: "(u64, nat option) HashMap"
  sy_cleanup :: ProcessCleanup

definition on_kernel :: "(IpcKernel \<Rightarrow> IpcKernel run) \<Rightarrow> System \<Rightarrow> System run" where
  "on_kernel f s = run_map (\<lambda>k. s\<lparr>sy_kernel := k\<rparr>) (f (sy_kernel s))"

definition on_kernel_value :: "(IpcKernel \<Rightarrow> ('a \<times> IpcKernel) run) \<Rightarrow> System \<Rightarrow> ('a \<times> System) run" where
  "on_kernel_value f s = run_map (\<lambda>(x, k). (x, s\<lparr>sy_kernel := k\<rparr>)) (f (sy_kernel s))"

definition on_process :: "nat \<Rightarrow> (Process \<Rightarrow> Process) \<Rightarrow> System \<Rightarrow> System" where
  "on_process p f s = s\<lparr>sy_procs := (sy_procs s)(p := f (sy_procs s p))\<rparr>"

definition update_thread :: "nat \<Rightarrow> (Thread \<Rightarrow> Thread) \<Rightarrow> System \<Rightarrow> System" where
  "update_thread t f s = s\<lparr>sy_kernel := on_thread t f (sy_kernel s)\<rparr>"

definition current_thread :: "System \<Rightarrow> nat" where
  "current_thread s = k_current_thread (sy_kernel s)"

definition thread_of :: "nat \<Rightarrow> System \<Rightarrow> Thread" where
  "thread_of t s = k_threads (sy_kernel s) t"

definition new_object :: "System \<Rightarrow> nat \<times> System" where
  "new_object s = (ik_next_object (sy_kernel s), s\<lparr>sy_kernel := (sy_kernel s)\<lparr>ik_next_object := Suc (ik_next_object (sy_kernel s))\<rparr>\<rparr>)"

section \<open>Creating processes and threads\<close>

definition Process_Create :: "System \<Rightarrow> (nat \<times> System) run" where
  "Process_Create s =
     (let pid = sy_next_id s; s = s\<lparr>sy_next_id := pid + 1\<rparr>
      in run_map (\<lambda>(a, st).
           let (v, s) = new_object (s\<lparr>sy_machine := st\<rparr>);
               (p, s) = new_object s;
               k = sy_kernel s
           in (p, s\<lparr>sy_kernel := k\<lparr>ik_caps := (ik_caps k)(pid := CapabilityTable_new)\<rparr>,
                    sy_spaces := (sy_spaces s)(v := a),
                    sy_procs := (sy_procs s)(p := \<lparr>pr_id = pid, pr_vmas = Some v, pr_state = P_RUNNING, pr_exit_code = - 1,
                                                  pr_next_thread_id = 0, pr_threads = []\<rparr>),
                    sy_process_of := (sy_process_of s)(pid := p)\<rparr>))
         (AddressSpace_new (sy_machine s)))"

text \<open>
  The constructor of a thread writes its fields over the memory \<open>raw\<close> it gets; it leaves
  \<open>user_stack_base_\<close>, \<open>sleep_ticks_\<close> and the entry point as they are there.  The initial words of the
  kernel stack are not part of the model.
\<close>

definition Thread_new :: "Thread \<Rightarrow> nat \<Rightarrow> u64 \<Rightarrow> System \<Rightarrow> (nat \<times> System) run option" where
  "Thread_new raw p tid s =
     (if pr_vmas (sy_procs s p) = None then Some (Inl NullDeref)
      else map_option (run_map (\<lambda>(stack_ptr, v, st).
             let (t, s) = new_object (s\<lparr>sy_vmm := v, sy_machine := st\<rparr>)
             in (t, update_thread t (\<lambda>_. raw\<lparr>th_process := pr_id (sy_procs s p), th_id := tid, th_state := T_CREATED, th_is_kernel := False,
                                              th_rsp0_start := stack_ptr, th_blocked_threads := []\<rparr>) s)))
             (AcquireKernelStack (sy_vmm s) (sy_machine s)))"

definition Process_CreateThread :: "Thread \<Rightarrow> nat \<Rightarrow> System \<Rightarrow> (nat \<times> System) run option" where
  "Process_CreateThread raw p s =
     (let tid = pr_next_thread_id (sy_procs s p)
      in map_option (run_map (\<lambda>(t, s). (t, on_process p (\<lambda>pr. pr\<lparr>pr_threads := pr_threads pr @ [t]\<rparr>) s)))
           (Thread_new raw p tid (on_process p (\<lambda>pr. pr\<lparr>pr_next_thread_id := tid + 1\<rparr>) s)))"

definition Process_GetThread :: "nat \<Rightarrow> u64 \<Rightarrow> System \<Rightarrow> nat run" where
  "Process_GetThread p tid s =
     (if tid \<ge> of_nat (length (pr_threads (sy_procs s p))) then Inl (Panic ''Bad thread access {} on process {} with {} threads.'')
      else Inr (pr_threads (sy_procs s p) ! unat tid))"

definition Thread_Start :: "nat \<Rightarrow> u64 \<Rightarrow> u64 \<Rightarrow> u64 \<Rightarrow> System \<Rightarrow> System run" where
  "Thread_Start t entry arg1 arg2 s =
     (let s = update_thread t (\<lambda>th. th\<lparr>th_rip := entry, th_arg1 := arg1, th_arg2 := arg2, th_state := T_RUNNABLE\<rparr>) s
      in run_bind (Process_GetThread (sy_process_of s (th_process (thread_of t s))) (th_id (thread_of t s)) s) (\<lambda>u.
         on_kernel (Enqueue u) s))"

text \<open>
  The first code a thread runs.  A kernel thread calls its entry point with one argument; a user thread
  gets a stack and jumps to its entry point with the top of the stack and two arguments.
\<close>

datatype ThreadEntry = KernelEntry u64 u64 | UserEntry u64 u64 u64 u64

definition Thread_Init :: "nat \<Rightarrow> System \<Rightarrow> (ThreadEntry \<times> System) run option" where
  "Thread_Init t s =
     (let th = thread_of t s
      in if th_is_kernel th then Some (Inr (KernelEntry (th_rip th) (th_arg1 th), s))
         else case pr_vmas (sy_procs s (sy_process_of s (th_process th))) of
                None \<Rightarrow> Some (Inl NullDeref)
              | Some v \<Rightarrow>
                  let (n, s) = new_object s
                  in map_option (\<lambda>r. run_bind r (\<lambda>(stack_or, objs, a).
                       case stack_or of
                         Inl e \<Rightarrow> Inl (Panic ''Unable to allocate user stack: {}'')
                       | Inr base \<Rightarrow>
                           Inr (UserEntry (th_rip th) (base + kUserStackSize - 8) (th_arg1 th) (th_arg2 th),
                                update_thread t (\<lambda>th. th\<lparr>th_user_stack_base := base\<rparr>)
                                  (s\<lparr>sy_objects := objs, sy_spaces := (sy_spaces s)(v := a)\<rparr>))))
                       (AllocateUserStack n (sy_objects s) (sy_spaces s v)))"

section \<open>The process manager\<close>

definition InsertProcess :: "nat \<Rightarrow> System \<Rightarrow> System run" where
  "InsertProcess p s =
     run_bind (HashMap_Insert Hash_u64 (pr_id (sy_procs s p)) (Some p) (sy_proc_map s)) (\<lambda>(e, m).
     if e \<noteq> OK then Inl (Panic ''Reinserting process'') else Inr (s\<lparr>sy_proc_map := m\<rparr>))"

definition ProcessManager_FromId :: "u64 \<Rightarrow> System \<Rightarrow> (nat \<times> System) run" where
  "ProcessManager_FromId pid s =
     run_bind (HashMap_Contains Hash_u64 pid (sy_proc_map s)) (\<lambda>b.
     if \<not> b then Inl (Panic ''Bad proc access {}, have {} processes'')
     else run_bind (HashMap_at Hash_u64 None pid (sy_proc_map s)) (\<lambda>(p, m).
          case p of None \<Rightarrow> Inl NullDeref | Some p \<Rightarrow> Inr (p, s\<lparr>sy_proc_map := m\<rparr>)))"

text \<open>Handing a process or a thread to the cleanup thread.\<close>

definition signal_cleanup :: "System \<Rightarrow> System run" where
  "signal_cleanup s =
     run_map (\<lambda>(sem, k). s\<lparr>sy_kernel := k, sy_cleanup := (sy_cleanup s)\<lparr>pc_semaphore := sem\<rparr>\<rparr>)
       (Semaphore_Signal (pc_semaphore (sy_cleanup s)) (sy_kernel s))"

definition ProcessCleanup_CleanupProcess :: "nat \<Rightarrow> System \<Rightarrow> System run" where
  "ProcessCleanup_CleanupProcess p s =
     signal_cleanup (s\<lparr>sy_cleanup := (sy_cleanup s)\<lparr>pc_process_list := pc_process_list (sy_cleanup s) @ [p]\<rparr>\<rparr>)"

definition ProcessCleanup_CleanupThread :: "nat \<Rightarrow> System \<Rightarrow> System run" where
  "ProcessCleanup_CleanupThread t s =
     signal_cleanup (s\<lparr>sy_cleanup := (sy_cleanup s)\<lparr>pc_thread_list := pc_thread_list (sy_cleanup s) @ [t]\<rparr>\<rparr>)"

definition ProcessManager_CleanupProcess :: "u64 \<Rightarrow> System \<Rightarrow> System run" where
  "ProcessManager_CleanupProcess pid s =
     run_bind (HashMap_Contains Hash_u64 pid (sy_proc_map s)) (\<lambda>b.
     if \<not> b then Inl (Panic ''Bad proc access {}, have {} processes'')
     else run_bind (HashMap_at Hash_u64 None pid (sy_proc_map s)) (\<lambda>(p, m).
          case p of None \<Rightarrow> Inl NullDeref | Some p \<Rightarrow> ProcessCleanup_CleanupProcess p (s\<lparr>sy_proc_map := m\<rparr>)))"

definition ProcessManager_CleanupThread :: "nat \<Rightarrow> System \<Rightarrow> System run" where
  "ProcessManager_CleanupThread t s = ProcessCleanup_CleanupThread t s"

text \<open>The cleanup thread itself, a thread of the root process; \<open>entry\<close> and \<open>arg\<close> are the addresses of its function and of its lists.\<close>

definition InitCleanup :: "Thread \<Rightarrow> u64 \<Rightarrow> u64 \<Rightarrow> System \<Rightarrow> System run option" where
  "InitCleanup raw entry arg s =
     opt_run_bind (Some (ProcessManager_FromId 0 s)) (\<lambda>(p, s).
     opt_run_bind (Process_CreateThread raw p s) (\<lambda>(t, s).
     Some (Thread_Start t entry arg 0 (update_thread t (\<lambda>th. th\<lparr>th_is_kernel := True\<rparr>) s))))"

section \<open>Exit and cleanup\<close>

definition Thread_Exit :: "nat \<Rightarrow> System \<Rightarrow> System run" where
  "Thread_Exit t s =
     (let curr_thread = current_thread s
      in if th_id (thread_of curr_thread s) \<noteq> th_id (thread_of t s) then Inl (Panic ''Thread::Exit called from [{}.{}] on [{}.{}]'')
         else run_bind (ProcessManager_CleanupThread curr_thread s) (\<lambda>s.
              on_kernel Yield (update_thread t (\<lambda>th. th\<lparr>th_state := T_CLEANUP\<rparr>) s)))"

fun unblock_threads :: "nat \<Rightarrow> nat list \<Rightarrow> IpcKernel \<Rightarrow> IpcKernel run" where
  "unblock_threads t [] k = Inr k"
| "unblock_threads t (w # ws) k =
     run_bind (Thread_SetState w T_RUNNABLE (on_thread t (\<lambda>th. th\<lparr>th_blocked_threads := ws\<rparr>) k)) (\<lambda>k.
     run_bind (Enqueue w k) (unblock_threads t ws))"

definition Thread_Cleanup :: "nat \<Rightarrow> System \<Rightarrow> System run option" where
  "Thread_Cleanup t s =
     (if current_thread s = t then Some (Inl (Panic ''Cannot cleanup thread from itself.''))
      else let s = (if th_state (thread_of t s) \<noteq> T_CLEANUP then update_thread t (\<lambda>th. th\<lparr>th_state := T_CLEANUP\<rparr>) s else s);
               th = thread_of t s
           in case pr_vmas (sy_procs s (sy_process_of s (th_process th))) of
                None \<Rightarrow> Some (Inl NullDeref)
              | Some v \<Rightarrow>
                  map_option (\<lambda>(e, a, st).
                    if e \<noteq> OK then Inl (Panic ''Unable to free user stack.'')
                    else run_map (\<lambda>s.
                           let vmm = sy_vmm s
                           in update_thread t (\<lambda>th. th\<lparr>th_state := T_FINISHED\<rparr>)
                                (s\<lparr>sy_vmm := vmm\<lparr>vmm_stack_manager := FreeKernelStack (th_rsp0_start th) (vmm_stack_manager vmm)\<rparr>\<rparr>))
                           (on_kernel (unblock_threads t (th_blocked_threads th)) (s\<lparr>sy_spaces := (sy_spaces s)(v := a), sy_machine := st\<rparr>)))
                    (AddressSpace_FreeUserStack (th_user_stack_base th) (sy_spaces s v) (sy_machine s)))"

fun stop_threads :: "nat list \<Rightarrow> IpcKernel \<Rightarrow> IpcKernel run" where
  "stop_threads [] k = Inr k"
| "stop_threads (t # ts) k =
     run_bind (if \<not> IsDying (k_threads k t) then Thread_SetState t T_CLEANUP k else Inr k) (stop_threads ts)"

definition Process_Exit :: "nat \<Rightarrow> u64 \<Rightarrow> System \<Rightarrow> System run" where
  "Process_Exit p exit_code s =
     run_bind (on_kernel (stop_threads (pr_threads (sy_procs s p))) (on_process p (\<lambda>pr. pr\<lparr>pr_state := P_CLEANUP, pr_exit_code := exit_code\<rparr>) s)) (\<lambda>s.
     run_bind (ProcessManager_CleanupProcess (pr_id (sy_procs s p)) s) (\<lambda>s.
     if CurrentProcess (sy_kernel s) = pr_id (sy_procs s p) then on_kernel Yield s else Inr s))"

fun cleanup_each :: "nat list \<Rightarrow> System \<Rightarrow> System run option" where
  "cleanup_each [] s = Some (Inr s)"
| "cleanup_each (t # ts) s =
     opt_run_bind (if th_state (thread_of t s) = T_CLEANUP then Thread_Cleanup t s else Some (Inr s)) (cleanup_each ts)"

definition Process_Cleanup :: "nat \<Rightarrow> System \<Rightarrow> System run option" where
  "Process_Cleanup p s =
     (if CurrentProcess (sy_kernel s) = pr_id (sy_procs s p) then Some (Inl (Panic ''Can't clean up process from itself.''))
      else let s = (if pr_state (sy_procs s p) \<noteq> P_CLEANUP then on_process p (\<lambda>pr. pr\<lparr>pr_state := P_CLEANUP\<rparr>) s else s)
           in opt_run_bind (cleanup_each (pr_threads (sy_procs s p)) s) (\<lambda>s.
              let pid = pr_id (sy_procs s p); k = sy_kernel s
              in opt_run_bind (Some (CapabilityTable_ReleaseAll (ik_caps k pid))) (\<lambda>t.
                 let s = s\<lparr>sy_kernel := k\<lparr>ik_caps := (ik_caps k)(pid := t)\<rparr>\<rparr>
                 in case pr_vmas (sy_procs s p) of
                      None \<Rightarrow> Some (Inl NullDeref)
                    | Some v \<Rightarrow>
                        map_option (\<lambda>(e, a, st).
                          if e \<noteq> OK then Inl (Panic ''Failed to cleanup userspace mappings in process exit.'')
                          else Inr (on_process p (\<lambda>pr. pr\<lparr>pr_vmas := None, pr_state := P_FINISHED\<rparr>)
                                      (s\<lparr>sy_spaces := (sy_spaces s)(v := a), sy_machine := st\<rparr>)))
                          (FreeAddressRange 0 kUserSpaceMax True (sy_spaces s v) (sy_machine s)))))"

text \<open>
  One round of the loop of the cleanup thread.  With nothing to do it waits for the semaphore.
\<close>

partial_function (option) cleanup_processes :: "System \<Rightarrow> System run option" where
  "cleanup_processes s =
     (case pc_process_list (sy_cleanup s) of
        [] \<Rightarrow> Some (Inr s)
      | p # ps \<Rightarrow>
          Option.bind (Process_Cleanup p (s\<lparr>sy_cleanup := (sy_cleanup s)\<lparr>pc_process_list := ps\<rparr>\<rparr>)) (\<lambda>r.
          case r of Inl f \<Rightarrow> Some (Inl f) | Inr s \<Rightarrow> cleanup_processes s))"

partial_function (option) cleanup_threads :: "System \<Rightarrow> System run option" where
  "cleanup_threads s =
     (case pc_thread_list (sy_cleanup s) of
        [] \<Rightarrow> Some (Inr s)
      | t # ts \<Rightarrow>
          Option.bind (Thread_Cleanup t (s\<lparr>sy_cleanup := (sy_cleanup s)\<lparr>pc_thread_list := ts\<rparr>\<rparr>)) (\<lambda>r.
          case r of Inl f \<Rightarrow> Some (Inl f) | Inr s \<Rightarrow> cleanup_threads s))"

definition CleanupLoop :: "System \<Rightarrow> System run option" where
  "CleanupLoop s =
     (if pc_process_list (sy_cleanup s) = [] \<and> pc_thread_list (sy_cleanup s) = []
      then Some (run_map (\<lambda>(b, sem, k). s\<lparr>sy_kernel := k, sy_cleanup := (sy_cleanup s)\<lparr>pc_semaphore := sem\<rparr>\<rparr>)
                   (Semaphore_Wait (pc_semaphore (sy_cleanup s)) (sy_kernel s)))
      else opt_run_bind (cleanup_processes s) cleanup_threads)"

section \<open>The flow of capabilities\<close>

text \<open>Most of the operations leave the tables, the messages and the numbering of objects alone.\<close>

definition quiet :: "System \<Rightarrow> System \<Rightarrow> bool" where
  "quiet s s' \<longleftrightarrow> Kernel.more (sy_kernel s') = Kernel.more (sy_kernel s)"

lemma quiet_refl [simp]: "quiet s s"
  by (simp add: quiet_def)

lemma quiet_trans: "quiet s s1 \<Longrightarrow> quiet s1 s2 \<Longrightarrow> quiet s s2"
  by (simp add: quiet_def)

lemma quiet_flow: "quiet s s' \<Longrightarrow> flow 0 A (sy_kernel s) A (sy_kernel s')"
  by (rule flow_scheduler) (simp add: quiet_def)

lemma quiet_updates [simp]:
  "quiet s (update_thread t f s') = quiet s s'" "quiet s (on_process p g s') = quiet s s'"
  "quiet s (s'\<lparr>sy_vmm := v\<rparr>) = quiet s s'" "quiet s (s'\<lparr>sy_cleanup := c\<rparr>) = quiet s s'" "quiet s (s'\<lparr>sy_proc_map := m\<rparr>) = quiet s s'"
  "quiet s (s'\<lparr>sy_spaces := as\<rparr>) = quiet s s'" "quiet s (s'\<lparr>sy_machine := st\<rparr>) = quiet s s'" "quiet s (s'\<lparr>sy_objects := ob\<rparr>) = quiet s s'"
  by (simp_all add: quiet_def update_thread_def on_process_def)

lemma quiet_on_kernel: "on_kernel f s = Inr s' \<Longrightarrow> (\<And>k k'. f k = Inr k' \<Longrightarrow> Kernel.more k' = Kernel.more k) \<Longrightarrow> quiet s s'"
  by (auto simp: on_kernel_def run_map_eq_Inr quiet_def)

lemma stop_threads_more: "stop_threads ts k = Inr k' \<Longrightarrow> Kernel.more k' = Kernel.more k"
proof (induction ts arbitrary: k)
  case (Cons t ts)
  then obtain k1 where "(if \<not> IsDying (k_threads k t) then Thread_SetState t T_CLEANUP k else Inr k) = Inr k1" "stop_threads ts k1 = Inr k'"
    by (auto simp: run_bind_eq_Inr)
  then show ?case using Cons.IH SetState_more by (metis sum.inject(2))
qed simp

lemma unblock_threads_more: "unblock_threads t ws k = Inr k' \<Longrightarrow> Kernel.more k' = Kernel.more k"
proof (induction ws arbitrary: k)
  case (Cons w ws)
  then obtain k1 k2 where "Thread_SetState w T_RUNNABLE (on_thread t (\<lambda>th. th\<lparr>th_blocked_threads := ws\<rparr>) k) = Inr k1" "Enqueue w k1 = Inr k2" "unblock_threads t ws k2 = Inr k'"
    by (auto simp: run_bind_eq_Inr)
  then show ?case using Cons.IH SetState_more Enqueue_more on_thread_more by metis
qed simp

lemma quiet_signal_cleanup: "signal_cleanup s = Inr s' \<Longrightarrow> quiet s s'"
  by (auto simp: signal_cleanup_def run_map_eq_Inr quiet_def dest: Semaphore_more)

lemma quiet_CleanupProcess: "ProcessManager_CleanupProcess pid s = Inr s' \<Longrightarrow> quiet s s'"
  by (auto simp: ProcessManager_CleanupProcess_def ProcessCleanup_CleanupProcess_def run_bind_eq_Inr quiet_def
      dest!: quiet_signal_cleanup split: if_splits option.splits)

lemma quiet_CleanupThread: "ProcessManager_CleanupThread t s = Inr s' \<Longrightarrow> quiet s s'"
  by (auto simp: ProcessManager_CleanupThread_def ProcessCleanup_CleanupThread_def quiet_def dest!: quiet_signal_cleanup)

lemma quiet_Thread_Exit:
  assumes "Thread_Exit t s = Inr s'"
  shows "quiet s s'"
proof -
  obtain s1 where "ProcessManager_CleanupThread (current_thread s) s = Inr s1" "on_kernel Yield (update_thread t (\<lambda>th. th\<lparr>th_state := T_CLEANUP\<rparr>) s1) = Inr s'"
    using assms by (auto simp: Thread_Exit_def Let_def run_bind_eq_Inr split: if_splits)
  then show ?thesis using quiet_CleanupThread quiet_on_kernel [OF _ Yield_more] quiet_trans by (metis quiet_refl quiet_updates(1))
qed

lemma quiet_Process_Exit:
  assumes "Process_Exit p code s = Inr s'"
  shows "quiet s s'"
proof -
  obtain s1 s2 where 1: "on_kernel (stop_threads (pr_threads (sy_procs s p))) (on_process p (\<lambda>pr. pr\<lparr>pr_state := P_CLEANUP, pr_exit_code := code\<rparr>) s) = Inr s1"
      and 2: "ProcessManager_CleanupProcess (pr_id (sy_procs s1 p)) s1 = Inr s2" and 3: "s' = s2 \<or> on_kernel Yield s2 = Inr s'"
    using assms by (auto simp: Process_Exit_def run_bind_eq_Inr split: if_splits)
  have "quiet s s1" using quiet_on_kernel [OF 1 stop_threads_more] quiet_trans [of s "on_process p _ s" s1] by (metis quiet_refl quiet_updates(2))
  moreover have "quiet s1 s2" by (rule quiet_CleanupProcess [OF 2])
  moreover have "quiet s2 s'" using 3 quiet_on_kernel [OF _ Yield_more] by auto
  ultimately show ?thesis using quiet_trans by blast
qed

lemma quiet_Thread_Start:
  assumes "Thread_Start t entry a b s = Inr s'"
  shows "quiet s s'"
proof -
  obtain u where "on_kernel (Enqueue u) (update_thread t (\<lambda>th. th\<lparr>th_rip := entry, th_arg1 := a, th_arg2 := b, th_state := T_RUNNABLE\<rparr>) s) = Inr s'"
    using assms by (auto simp: Thread_Start_def Let_def run_bind_eq_Inr)
  from quiet_on_kernel [OF this Enqueue_more] show ?thesis using quiet_trans [of s _ s'] by (metis quiet_refl quiet_updates(1))
qed

lemma quiet_Thread_Cleanup:
  assumes "Thread_Cleanup t s = Some (Inr s')"
  shows "quiet s s'"
proof -
  define s1 where "s1 = (if th_state (thread_of t s) \<noteq> T_CLEANUP then update_thread t (\<lambda>th. th\<lparr>th_state := T_CLEANUP\<rparr>) s else s)"
  have s1: "quiet s s1" by (simp add: s1_def)
  obtain v a st s2 f c where "on_kernel (unblock_threads t (th_blocked_threads (thread_of t s1))) (s1\<lparr>sy_spaces := (sy_spaces s1)(v := a), sy_machine := st\<rparr>) = Inr s2"
      "s' = update_thread t f (s2\<lparr>sy_vmm := c\<rparr>)"
    using assms by (auto simp: Thread_Cleanup_def Let_def s1_def [symmetric] run_map_eq_Inr split: if_splits option.splits)
  from quiet_on_kernel [OF this(1) unblock_threads_more] this(2) s1 show ?thesis
    using quiet_trans [of s s1 s2] quiet_trans [of s1 "s1\<lparr>sy_spaces := (sy_spaces s1)(v := a), sy_machine := st\<rparr>" s2] by simp
qed

lemma quiet_cleanup_each: "cleanup_each ts s = Some (Inr s') \<Longrightarrow> quiet s s'"
proof (induction ts arbitrary: s)
  case (Cons t ts)
  then obtain s1 where s1: "(if th_state (thread_of t s) = T_CLEANUP then Thread_Cleanup t s else Some (Inr s)) = Some (Inr s1)" "cleanup_each ts s1 = Some (Inr s')"
    by (auto simp: opt_run_bind_eq_Inr)
  then have "quiet s s1" using quiet_Thread_Cleanup by (auto split: if_splits)
  then show ?case using Cons.IH [OF s1(2)] quiet_trans by blast
qed simp

lemma flow_trans0: "flow 0 A k B k1 \<Longrightarrow> flow 0 B k1 C k2 \<Longrightarrow> flow 0 A k C k2"
  using flow_trans by fastforce

lemma flow_Process_Cleanup:
  assumes "Process_Cleanup p s = Some (Inr s')"
  shows "flow 0 A (sy_kernel s) A (sy_kernel s')"
proof (rule flowI)
  assume inv: "ipc_inv A (sy_kernel s)"
  define s1 where "s1 = (if pr_state (sy_procs s p) \<noteq> P_CLEANUP then on_process p (\<lambda>pr. pr\<lparr>pr_state := P_CLEANUP\<rparr>) s else s)"
  obtain s2 t where s2: "cleanup_each (pr_threads (sy_procs s1 p)) s1 = Some (Inr s2)"
      and t: "CapabilityTable_ReleaseAll (ik_caps (sy_kernel s2) (pr_id (sy_procs s2 p))) = Inr t"
      and s': "sy_kernel s' = (sy_kernel s2)\<lparr>ik_caps := (ik_caps (sy_kernel s2))(pr_id (sy_procs s2 p) := t)\<rparr>"
    using assms by (auto simp: Process_Cleanup_def Let_def s1_def [symmetric] opt_run_bind_eq_Inr on_process_def split: if_splits option.splits)
  have "quiet s s1" by (simp add: s1_def)
  then have f: "flow 0 A (sy_kernel s) A (sy_kernel s2)" by (rule quiet_flow [OF quiet_trans [OF _ quiet_cleanup_each [OF s2]]])
  have ct: "ct_inv (ik_caps (sy_kernel s2) (pr_id (sy_procs s2 p)))" by (rule ipc_inv_table [OF flow_inv [OF f inv]])
  have "ct_inv t" "ct_lookup t = Map.empty" "ct_given t = ct_given (ik_caps (sy_kernel s2) (pr_id (sy_procs s2 p)))"
    using ReleaseAll_ok [OF ct] t by (cases "ct_used (ik_caps (sy_kernel s2) (pr_id (sy_procs s2 p)))"; force)+
  then have "flow 0 A (sy_kernel s2) A (sy_kernel s')" by (intro flow_table [OF s']) auto
  then show "flow 0 A (sy_kernel s) A (sy_kernel s')" by (rule flow_trans0 [OF f])
qed

lemma flow_cleanup_processes:
  assumes "cleanup_processes s = Some r"
  shows "\<forall>s'. r = Inr s' \<longrightarrow> flow 0 A (sy_kernel s) A (sy_kernel s')"
proof (rule cleanup_processes.raw_induct [OF _ assms], intro allI impI)
  fix f and s :: System and r s'
  assume IH: "\<And>s r. f s = Some r \<Longrightarrow> \<forall>s'. r = Inr s' \<longrightarrow> flow 0 A (sy_kernel s) A (sy_kernel s')" and r: "r = Inr s'"
    and body: "(case pc_process_list (sy_cleanup s) of [] \<Rightarrow> Some (Inr s) | p # ps \<Rightarrow>
      Option.bind (Process_Cleanup p (s\<lparr>sy_cleanup := (sy_cleanup s)\<lparr>pc_process_list := ps\<rparr>\<rparr>)) (\<lambda>r. case r of Inl f \<Rightarrow> Some (Inl f) | Inr s \<Rightarrow> f s)) = Some r"
  show "flow 0 A (sy_kernel s) A (sy_kernel s')"
  proof (cases "pc_process_list (sy_cleanup s)")
    case Nil
    then show ?thesis using body r by (simp add: flow_refl)
  next
    case (Cons p ps)
    let ?s = "s\<lparr>sy_cleanup := (sy_cleanup s)\<lparr>pc_process_list := ps\<rparr>\<rparr>"
    have "opt_run_bind (Process_Cleanup p ?s) f = Some (Inr s')" using body r Cons by (simp add: opt_run_bind_def)
    then obtain s1 where s1: "Process_Cleanup p ?s = Some (Inr s1)" "f s1 = Some (Inr s')" by (auto simp: opt_run_bind_eq_Inr)
    have "flow 0 A (sy_kernel s) A (sy_kernel s1)" using flow_Process_Cleanup [OF s1(1)] by simp
    then show ?thesis using flow_trans0 IH [OF s1(2)] by blast
  qed
qed

lemma quiet_cleanup_threads:
  assumes "cleanup_threads s = Some r"
  shows "\<forall>s'. r = Inr s' \<longrightarrow> quiet s s'"
proof (rule cleanup_threads.raw_induct [OF _ assms], intro allI impI)
  fix f and s :: System and r s'
  assume IH: "\<And>s r. f s = Some r \<Longrightarrow> \<forall>s'. r = Inr s' \<longrightarrow> quiet s s'" and r: "r = Inr s'"
    and body: "(case pc_thread_list (sy_cleanup s) of [] \<Rightarrow> Some (Inr s) | t # ts \<Rightarrow>
      Option.bind (Thread_Cleanup t (s\<lparr>sy_cleanup := (sy_cleanup s)\<lparr>pc_thread_list := ts\<rparr>\<rparr>)) (\<lambda>r. case r of Inl f \<Rightarrow> Some (Inl f) | Inr s \<Rightarrow> f s)) = Some r"
  show "quiet s s'"
  proof (cases "pc_thread_list (sy_cleanup s)")
    case Nil
    then show ?thesis using body r by (simp)
  next
    case (Cons t ts)
    let ?s = "s\<lparr>sy_cleanup := (sy_cleanup s)\<lparr>pc_thread_list := ts\<rparr>\<rparr>"
    have "opt_run_bind (Thread_Cleanup t ?s) f = Some (Inr s')" using body r Cons by (simp add: opt_run_bind_def)
    then obtain s1 where s1: "Thread_Cleanup t ?s = Some (Inr s1)" "f s1 = Some (Inr s')" by (auto simp: opt_run_bind_eq_Inr)
    have "quiet s s1" using quiet_Thread_Cleanup [OF s1(1)] by (simp add: quiet_def)
    then show ?thesis using quiet_trans IH [OF s1(2)] by blast
  qed
qed

lemma flow_CleanupLoop:
  assumes "CleanupLoop s = Some (Inr s')"
  shows "flow 0 A (sy_kernel s) A (sy_kernel s')"
proof (cases "pc_process_list (sy_cleanup s) = [] \<and> pc_thread_list (sy_cleanup s) = []")
  case True
  then show ?thesis using assms by (auto simp: CleanupLoop_def run_map_eq_Inr dest!: Semaphore_more intro: flow_scheduler)
next
  case False
  then obtain s1 where "cleanup_processes s = Some (Inr s1)" "cleanup_threads s1 = Some (Inr s')"
    using assms by (auto simp: CleanupLoop_def opt_run_bind_eq_Inr split: if_splits)
  then show ?thesis using flow_cleanup_processes quiet_cleanup_threads quiet_flow flow_trans0 by metis
qed

text \<open>Creating processes and threads adds capabilities to new objects only.\<close>

definition fresh_caps :: "IpcKernel \<Rightarrow> IpcKernel \<Rightarrow> Capability set" where
  "fresh_caps k k' = {c. ik_next_object k \<le> ob_ref (cap_obj c) \<and> ob_ref (cap_obj c) < ik_next_object k'}"

lemma flow_new_object:
  assumes "ik_caps k' = ik_caps k" "ik_queues k' = ik_queues k" "ik_replies k' = ik_replies k" "ik_next_object k \<le> ik_next_object k'"
  shows "flow 0 A k (A \<union> fresh_caps k k') k'"
  by (rule flow_fresh) (use assms caps_of_cong [OF assms(1-3)] in \<open>auto simp: fresh_caps_def\<close>)

lemma new_object_kernel: "new_object s = (n, s') \<Longrightarrow> n = ik_next_object (sy_kernel s) \<and> sy_kernel s' = (sy_kernel s)\<lparr>ik_next_object := Suc n\<rparr> \<and>
    sy_procs s' = sy_procs s \<and> sy_spaces s' = sy_spaces s \<and> sy_process_of s' = sy_process_of s"
  by (auto simp: new_object_def)

lemma Process_Create_kernel:
  assumes "Process_Create s = Inr (p, s')"
  shows "sy_kernel s' = (sy_kernel s)\<lparr>ik_caps := (ik_caps (sy_kernel s))(sy_next_id s := CapabilityTable_new), ik_next_object := ik_next_object (sy_kernel s) + 2\<rparr>"
    "p = Suc (ik_next_object (sy_kernel s))" "pr_vmas (sy_procs s' p) = Some (ik_next_object (sy_kernel s))" "pr_id (sy_procs s' p) = sy_next_id s"
    "pr_threads (sy_procs s' p) = []"
  using assms by (auto simp: Process_Create_def Let_def new_object_def run_map_eq_Inr split: prod.splits)

lemma flow_Process_Create:
  assumes "Process_Create s = Inr (p, s')"
  shows "flow 0 A (sy_kernel s) (A \<union> fresh_caps (sy_kernel s) (sy_kernel s')) (sy_kernel s')"
proof -
  note k = Process_Create_kernel(1) [OF assms]
  let ?k = "(sy_kernel s)\<lparr>ik_caps := (ik_caps (sy_kernel s))(sy_next_id s := CapabilityTable_new)\<rparr>"
  have "flow 0 A (sy_kernel s) A ?k" by (rule flow_table) auto
  moreover have "fresh_caps (sy_kernel s) (sy_kernel s') = fresh_caps ?k (sy_kernel s')" by (simp add: fresh_caps_def)
  moreover have "flow 0 A ?k (A \<union> fresh_caps ?k (sy_kernel s')) (sy_kernel s')" by (rule flow_new_object) (simp_all add: k)
  ultimately show ?thesis using flow_trans0 by metis
qed

lemma flow_CreateThread:
  assumes "Process_CreateThread raw p s = Some (Inr (t, s'))"
  shows "flow 0 A (sy_kernel s) (A \<union> fresh_caps (sy_kernel s) (sy_kernel s')) (sy_kernel s')"
    and "t = ik_next_object (sy_kernel s)" "ik_next_object (sy_kernel s') = Suc t"
proof -
  have k: "t = ik_next_object (sy_kernel s) \<and> ik_caps (sy_kernel s') = ik_caps (sy_kernel s) \<and> ik_queues (sy_kernel s') = ik_queues (sy_kernel s) \<and>
      ik_replies (sy_kernel s') = ik_replies (sy_kernel s) \<and> ik_next_object (sy_kernel s') = Suc t"
    using assms by (auto simp: Process_CreateThread_def Thread_new_def Let_def run_map_eq_Inr new_object_def update_thread_def on_process_def on_thread_def split: if_splits)
  then show "t = ik_next_object (sy_kernel s)" "ik_next_object (sy_kernel s') = Suc t" by auto
  show "flow 0 A (sy_kernel s) (A \<union> fresh_caps (sy_kernel s) (sy_kernel s')) (sy_kernel s')"
    by (rule flow_new_object) (use k in auto)
qed

lemma flow_Thread_Init:
  assumes "Thread_Init t s = Some (Inr (e, s'))"
  shows "flow 0 A (sy_kernel s) A (sy_kernel s')"
proof (cases "th_is_kernel (thread_of t s)")
  case True
  then show ?thesis using assms by (simp add: Thread_Init_def Let_def flow_refl)
next
  case False
  then obtain v z where v: "pr_vmas (sy_procs s (sy_process_of s (th_process (thread_of t s)))) = Some v"
      "AllocateUserStack (ik_next_object (sy_kernel s)) (sy_objects s) (sy_spaces s v) = Some z"
    using assms by (auto simp: Thread_Init_def Let_def new_object_def split: option.splits)
  obtain r objs a where z: "z = Inr (r, objs, a)" using assms False v by (cases z) (auto simp: Thread_Init_def Let_def new_object_def)
  have k: "ik_caps (sy_kernel s') = ik_caps (sy_kernel s) \<and> ik_queues (sy_kernel s') = ik_queues (sy_kernel s) \<and>
      ik_replies (sy_kernel s') = ik_replies (sy_kernel s) \<and> ik_next_object (sy_kernel s') = Suc (ik_next_object (sy_kernel s))"
    using assms False v z by (cases r) (auto simp: Thread_Init_def Let_def update_thread_def on_thread_def new_object_def)
  show ?thesis by (rule flow_weaken [OF flow_new_object]) (use k in auto)
qed

end
