(* ===== verification/Zion_Syscall.thy ===== *)
theory Zion_Syscall
  imports Zion_Process Zion_Rpc
begin

text \<open>
  The system calls on processes, threads, address spaces and memory objects
  (\<open>zion/syscall/process.cpp\<close>, \<open>thread.cpp\<close>, \<open>address_space.cpp\<close>, \<open>memory_object.cpp\<close>), the dispatch
  of all calls (\<open>zion/syscall/syscall.cpp\<close>) and the interrupt handlers of
  \<open>zion/interrupt/interrupt.cpp\<close> that reach the scheduler and the drivers.

  What a call writes through the pointers of its request is part of its result.  A call that suspends
  its thread answers \<open>None\<close> in place of an error code.
\<close>

section \<open>Capability checks\<close>

text \<open>
  \<open>auto cap = curr_proc.GetCapability(id); RET_ERR(ValidateCapability<T>(cap, permissions))\<close> and
  \<open>cap->obj<T>()\<close>: the error or the capability with its object.
\<close>

definition checked_cap :: "ObjectType \<Rightarrow> u64 \<Rightarrow> u64 \<Rightarrow> System \<Rightarrow> ((ErrorCode + Capability \<times> nat) \<times> System) run" where
  "checked_cap T cid permissions s =
     run_bind (on_kernel_value (on_table (GetCapability cid)) s) (\<lambda>(cap, s).
     let e = ValidateCapability T cap permissions
     in if e \<noteq> OK then Inr (Inl e, s)
        else run_map (\<lambda>ob. (Inr (the cap, ob), s)) (Capability_obj T (the cap)))"

definition add_capability :: "ObjectType \<Rightarrow> nat \<Rightarrow> u64 \<Rightarrow> System \<Rightarrow> (u64 \<times> System) run" where
  "add_capability T n permissions = on_kernel_value (on_table (AddNewCapability \<lparr>ob_type = T, ob_ref = n\<rparr> permissions))"

section \<open>Processes\<close>

definition AddressSpace_DefaultPermissions :: u64 where
  "AddressSpace_DefaultPermissions = kZionPerm_Write OR kZionPerm_Transmit"

definition MemoryObject_DefaultPermissions :: u64 where
  "MemoryObject_DefaultPermissions = kZionPerm_Write OR kZionPerm_Read OR kZionPerm_Duplicate OR kZionPerm_Transmit"

text \<open>A thread that exits does not run again; where its call returns to it, because scheduling is off, the kernel panics.\<close>

definition ProcessExit :: "u64 \<Rightarrow> System \<Rightarrow> System run" where
  "ProcessExit code s =
     run_bind (Process_Exit (sy_process_of s (th_process (thread_of (current_thread s) s))) code s) (\<lambda>s'.
     if current_thread s' = current_thread s then Inl (Panic ''Returned from thread exit'') else Inr s')"

text \<open>The end of \<open>ProcessSpawn\<close>: the bootstrap capability moves to the new process.\<close>

definition move_bootstrap :: "u64 \<Rightarrow> nat \<Rightarrow> u64 list \<Rightarrow> System \<Rightarrow> (ErrorCode \<times> u64 list \<times> System) run" where
  "move_bootstrap bootstrap_cap p ids s =
     run_bind (on_kernel_value (on_table (GetCapability bootstrap_cap)) s) (\<lambda>(cap, s).
     case cap of
       None \<Rightarrow> Inr (CAP_NOT_FOUND, ids, s)
     | Some cap \<Rightarrow>
         if \<not> HasPermissions cap kZionPerm_Transmit then Inr (CAP_PERMISSION_DENIED, ids, s)
         else run_bind (on_kernel_value (on_table (ReleaseCapability bootstrap_cap)) s) (\<lambda>(cap, s).
              let pid = pr_id (sy_procs s p); k = sy_kernel s
              in run_map (\<lambda>(new_bootstrap_cap, t). (OK, ids @ [new_bootstrap_cap], s\<lparr>sy_kernel := k\<lparr>ik_caps := (ik_caps k)(pid := t)\<rparr>\<rparr>))
                   (AddExistingCapability cap (ik_caps k pid))))"

definition ProcessSpawn :: "u64 \<Rightarrow> u64 \<Rightarrow> System \<Rightarrow> (ErrorCode \<times> u64 list \<times> System) run" where
  "ProcessSpawn proc_cap bootstrap_cap s =
     run_bind (checked_cap PROCESS proc_cap kZionPerm_SpawnProcess s) (\<lambda>(r, s).
     case r of
       Inl e \<Rightarrow> Inr (e, [], s)
     | Inr _ \<Rightarrow>
         run_bind (Process_Create s) (\<lambda>(p, s).
         run_bind (InsertProcess p s) (\<lambda>s.
         run_bind (add_capability PROCESS p Process_DefaultPermissions s) (\<lambda>(new_proc_cap, s).
         run_bind (add_capability ADDRESS_SPACE (the (pr_vmas (sy_procs s p))) AddressSpace_DefaultPermissions s) (\<lambda>(new_vmas_cap, s).
         if bootstrap_cap = 0 then Inr (OK, [new_proc_cap, new_vmas_cap], s)
         else move_bootstrap bootstrap_cap p [new_proc_cap, new_vmas_cap] s)))))"

text \<open>The exit code is read when the waiting thread runs again.\<close>

definition ProcessWait :: "u64 \<Rightarrow> System \<Rightarrow> (ErrorCode option \<times> u64 list \<times> System) run" where
  "ProcessWait proc_cap s =
     run_bind (checked_cap PROCESS proc_cap kZionPerm_Read s) (\<lambda>(r, s).
     case r of
       Inl e \<Rightarrow> Inr (Some e, [], s)
     | Inr (_, p) \<Rightarrow>
         if pr_id (sy_procs s p) = CurrentProcess (sy_kernel s) then Inr (Some INVALID_ARGUMENT, [], s)
         else run_bind (Process_GetThread p 0 s) (\<lambda>t.
              if IsDying (thread_of t s) then Inr (Some OK, [pr_exit_code (sy_procs s p)], s)
              else run_map (\<lambda>s. (None, [], s)) (on_kernel (Thread_Wait t) s)))"

definition ProcessWait_resume :: "nat \<Rightarrow> System \<Rightarrow> ErrorCode option \<times> u64 list \<times> System" where
  "ProcessWait_resume p s = (Some OK, [pr_exit_code (sy_procs s p)], s)"

section \<open>Threads\<close>

definition IsKernel :: "u64 \<Rightarrow> bool" where
  "IsKernel addr \<longleftrightarrow> addr AND 0xFFFF800000000000 \<noteq> 0"

definition ThreadCreate :: "Thread \<Rightarrow> u64 \<Rightarrow> System \<Rightarrow> (ErrorCode \<times> u64 list \<times> System) run option" where
  "ThreadCreate raw proc_cap s =
     opt_run_bind (Some (checked_cap PROCESS proc_cap kZionPerm_SpawnThread s)) (\<lambda>(r, s).
     case r of
       Inl e \<Rightarrow> Some (Inr (e, [], s))
     | Inr (_, parent_proc) \<Rightarrow>
         opt_run_bind (Process_CreateThread raw parent_proc s) (\<lambda>(t, s).
         Some (run_map (\<lambda>(i, s). (OK, [i], s)) (add_capability THREAD t Thread_DefaultPermissions s))))"

definition ThreadStart :: "u64 \<Rightarrow> u64 \<Rightarrow> u64 \<Rightarrow> u64 \<Rightarrow> System \<Rightarrow> (ErrorCode \<times> System) run" where
  "ThreadStart thread_cap entry arg1 arg2 s =
     run_bind (checked_cap THREAD thread_cap kZionPerm_Write s) (\<lambda>(r, s).
     case r of
       Inl e \<Rightarrow> Inr (e, s)
     | Inr (_, t) \<Rightarrow>
         if IsKernel entry \<or> IsKernel arg1 \<or> IsKernel arg2 then Inr (INVALID_ARGUMENT, s)
         else run_map (\<lambda>s. (OK, s)) (Thread_Start t entry arg1 arg2 s))"

definition ThreadExit :: "System \<Rightarrow> System run" where
  "ThreadExit s =
     run_bind (Thread_Exit (current_thread s) s) (\<lambda>s'.
     if current_thread s' = current_thread s then Inl (Panic ''Returned from thread exit'') else Inr s')"

definition ThreadWait :: "u64 \<Rightarrow> System \<Rightarrow> (ErrorCode option \<times> System) run" where
  "ThreadWait thread_cap s =
     run_bind (checked_cap THREAD thread_cap kZionPerm_Read s) (\<lambda>(r, s).
     case r of
       Inl e \<Rightarrow> Inr (Some e, s)
     | Inr (_, t) \<Rightarrow>
         if IsDying (thread_of t s) then Inr (Some OK, s)
         else run_map (\<lambda>s. (None, s)) (on_kernel (Thread_Wait t) s))"

definition ThreadSleep :: "u64 \<Rightarrow> System \<Rightarrow> System run" where
  "ThreadSleep millis = on_kernel (Scheduler_Sleep millis)"

section \<open>Memory objects\<close>

definition new_memory_object :: "MemoryObject \<Rightarrow> u64 \<Rightarrow> System \<Rightarrow> (u64 \<times> System) run" where
  "new_memory_object obj permissions s =
     (let (n, s) = new_object s
      in add_capability MEMORY_OBJECT n permissions (s\<lparr>sy_objects := (sy_objects s)(n := obj)\<rparr>))"

definition MemoryObjectCreate :: "u64 \<Rightarrow> System \<Rightarrow> (ErrorCode \<times> u64 list \<times> System) run" where
  "MemoryObjectCreate sz s =
     run_bind (VariableMemoryObject_new sz) (\<lambda>obj.
     run_map (\<lambda>(i, s). (OK, [i], s)) (new_memory_object obj MemoryObject_DefaultPermissions s))"

definition MemoryObjectCreatePhysical :: "u64 \<Rightarrow> u64 \<Rightarrow> System \<Rightarrow> (ErrorCode \<times> u64 list \<times> System) run" where
  "MemoryObjectCreatePhysical paddr sz s =
     run_map (\<lambda>(i, s). (OK, [i], s)) (new_memory_object (ViewMemoryObject sz paddr) MemoryObject_DefaultPermissions s)"

definition MemoryObjectCreateContiguous :: "u64 \<Rightarrow> System \<Rightarrow> (ErrorCode \<times> u64 list \<times> System) run" where
  "MemoryObjectCreateContiguous sz s =
     (let num_pages = (sz - 1) div 0x1000 + 1; st = sy_machine s
      in run_bind (AllocateContinuous num_pages (mc_phys st)) (\<lambda>(paddr, phys).
         run_map (\<lambda>(i, s). (OK, [i, paddr], s))
           (new_memory_object (FixedMemoryObject sz paddr) MemoryObject_DefaultPermissions (s\<lparr>sy_machine := st\<lparr>mc_phys := phys\<rparr>\<rparr>))))"

definition MemoryObjectDuplicate :: "u64 \<Rightarrow> u64 \<Rightarrow> u64 \<Rightarrow> System \<Rightarrow> (ErrorCode \<times> u64 list \<times> System) run" where
  "MemoryObjectDuplicate vmmo_cap base_offset len s =
     run_bind (checked_cap MEMORY_OBJECT vmmo_cap kZionPerm_Duplicate s) (\<lambda>(r, s).
     case r of
       Inl e \<Rightarrow> Inr (e, [], s)
     | Inr (cap, n) \<Rightarrow>
         (case MemoryObject_Duplicate base_offset len (sy_objects s n) of
            Inl e \<Rightarrow> Inr (e, [], s)
          | Inr obj \<Rightarrow> run_map (\<lambda>(i, s). (OK, [i], s)) (new_memory_object obj (cap_permissions cap) s)))"

definition MemoryObjectInspect :: "u64 \<Rightarrow> System \<Rightarrow> (ErrorCode \<times> u64 list \<times> System) run" where
  "MemoryObjectInspect vmmo_cap s =
     run_bind (checked_cap MEMORY_OBJECT vmmo_cap kZionPerm_Read s) (\<lambda>(r, s).
     case r of
       Inl e \<Rightarrow> Inr (e, [], s)
     | Inr (_, n) \<Rightarrow> Inr (OK, [MemoryObject_size (sy_objects s n)], s))"

section \<open>Address spaces\<close>

definition AddressSpaceMap :: "u64 \<Rightarrow> u64 \<Rightarrow> u64 \<Rightarrow> u64 \<Rightarrow> System \<Rightarrow> (ErrorCode \<times> u64 list \<times> System) run option" where
  "AddressSpaceMap vmas_cap vmas_offset vmmo_cap align s =
     opt_run_bind (Some (on_kernel_value (on_table (GetCapability vmas_cap)) s)) (\<lambda>(vmas, s).
     opt_run_bind (Some (on_kernel_value (on_table (GetCapability vmmo_cap)) s)) (\<lambda>(vmmo, s).
     let e1 = ValidateCapability ADDRESS_SPACE vmas kZionPerm_Write; e2 = ValidateCapability MEMORY_OBJECT vmmo kZionPerm_Write
     in if e1 \<noteq> OK then Some (Inr (e1, [], s))
        else if e2 \<noteq> OK then Some (Inr (e2, [], s))
        else opt_run_bind (Some (Capability_obj ADDRESS_SPACE (the vmas))) (\<lambda>v.
             opt_run_bind (Some (Capability_obj MEMORY_OBJECT (the vmmo))) (\<lambda>n.
             if vmas_offset \<noteq> 0
             then map_option (\<lambda>(e, a). Inr (e, if e \<noteq> OK then [] else [vmas_offset], s\<lparr>sy_spaces := (sy_spaces s)(v := a)\<rparr>))
                    (MapInMemoryObjectAt (sy_objects s) vmas_offset n (sy_spaces s v))
             else map_option (run_map (\<lambda>(r, a).
                      (case r of Inl e \<Rightarrow> e | Inr _ \<Rightarrow> OK, case r of Inl _ \<Rightarrow> [] | Inr vaddr \<Rightarrow> [vaddr], s\<lparr>sy_spaces := (sy_spaces s)(v := a)\<rparr>)))
                    (MapInMemoryObject (sy_objects s) n align (sy_spaces s v))))))"

definition AddressSpaceUnmap :: "u64 \<Rightarrow> u64 \<Rightarrow> u64 \<Rightarrow> System \<Rightarrow> (ErrorCode \<times> System) run option" where
  "AddressSpaceUnmap vmas_cap lower_addr upper_addr s =
     opt_run_bind (Some (checked_cap ADDRESS_SPACE vmas_cap kZionPerm_Write s)) (\<lambda>(r, s).
     case r of
       Inl e \<Rightarrow> Some (Inr (e, s))
     | Inr (_, v) \<Rightarrow>
         map_option (\<lambda>(e, a, st). Inr (e, s\<lparr>sy_spaces := (sy_spaces s)(v := a), sy_machine := st\<rparr>))
           (FreeAddressRange lower_addr upper_addr True (sy_spaces s v) (sy_machine s)))"

section \<open>The dispatch\<close>

datatype Syscall =
    SysProcessExit u64 | SysProcessSpawn u64 u64 | SysProcessWait u64
  | SysThreadCreate u64 | SysThreadStart u64 u64 u64 u64 | SysThreadExit | SysThreadWait u64 | SysThreadSleep u64
  | SysAddressSpaceMap u64 u64 u64 u64 | SysAddressSpaceUnmap u64 u64 u64
  | SysMemoryObjectCreate u64 | SysMemoryObjectCreatePhysical u64 u64 | SysMemoryObjectCreateContiguous u64
  | SysMemoryObjectDuplicate u64 u64 u64 | SysMemoryObjectInspect u64
  | SysIpc ipc_call | SysDebug "u8 list" | SysUnknown u64

definition SyscallHandler :: "Thread \<Rightarrow> Syscall \<Rightarrow> System \<Rightarrow> (ErrorCode option \<times> SysOut \<times> System) run option" where
  "SyscallHandler raw c s =
     (case c of
        SysProcessExit code \<Rightarrow> Some (run_map (\<lambda>s. (None, OutWords [], s)) (ProcessExit code s))
      | SysProcessSpawn proc_cap bootstrap_cap \<Rightarrow> Some (run_map (\<lambda>(e, ws, s). (Some e, OutWords ws, s)) (ProcessSpawn proc_cap bootstrap_cap s))
      | SysProcessWait proc_cap \<Rightarrow> Some (run_map (\<lambda>(e, ws, s). (e, OutWords ws, s)) (ProcessWait proc_cap s))
      | SysThreadCreate proc_cap \<Rightarrow> map_option (run_map (\<lambda>(e, ws, s). (Some e, OutWords ws, s))) (ThreadCreate raw proc_cap s)
      | SysThreadStart thread_cap entry arg1 arg2 \<Rightarrow> Some (run_map (\<lambda>(e, s). (Some e, OutWords [], s)) (ThreadStart thread_cap entry arg1 arg2 s))
      | SysThreadExit \<Rightarrow> Some (run_map (\<lambda>s. (None, OutWords [], s)) (ThreadExit s))
      | SysThreadWait thread_cap \<Rightarrow> Some (run_map (\<lambda>(e, s). (e, OutWords [], s)) (ThreadWait thread_cap s))
      | SysThreadSleep millis \<Rightarrow> Some (run_map (\<lambda>s. (None, OutWords [], s)) (ThreadSleep millis s))
      | SysAddressSpaceMap vmas_cap vmas_offset vmmo_cap align \<Rightarrow> map_option (run_map (\<lambda>(e, ws, s). (Some e, OutWords ws, s))) (AddressSpaceMap vmas_cap vmas_offset vmmo_cap align s)
      | SysAddressSpaceUnmap vmas_cap lower_addr upper_addr \<Rightarrow> map_option (run_map (\<lambda>(e, s). (Some e, OutWords [], s))) (AddressSpaceUnmap vmas_cap lower_addr upper_addr s)
      | SysMemoryObjectCreate sz \<Rightarrow> Some (run_map (\<lambda>(e, ws, s). (Some e, OutWords ws, s)) (MemoryObjectCreate sz s))
      | SysMemoryObjectCreatePhysical paddr sz \<Rightarrow> Some (run_map (\<lambda>(e, ws, s). (Some e, OutWords ws, s)) (MemoryObjectCreatePhysical paddr sz s))
      | SysMemoryObjectCreateContiguous sz \<Rightarrow> Some (run_map (\<lambda>(e, ws, s). (Some e, OutWords ws, s)) (MemoryObjectCreateContiguous sz s))
      | SysMemoryObjectDuplicate vmmo_cap base_offset len \<Rightarrow> Some (run_map (\<lambda>(e, ws, s). (Some e, OutWords ws, s)) (MemoryObjectDuplicate vmmo_cap base_offset len s))
      | SysMemoryObjectInspect vmmo_cap \<Rightarrow> Some (run_map (\<lambda>(e, ws, s). (Some e, OutWords ws, s)) (MemoryObjectInspect vmmo_cap s))
      | SysIpc call \<Rightarrow> Some (run_map (\<lambda>(e, out, k). (e, out, s\<lparr>sy_kernel := k\<rparr>)) (ipc_exec call (sy_kernel s)))
      | SysDebug message \<Rightarrow> Some (Inr (Some OK, OutWords [], s))
      | SysUnknown call_id \<Rightarrow> Some (Inr (Some UNIMPLEMENTED, OutWords [], s)))"

section \<open>The flow of capabilities through the calls\<close>

lemma checked_cap_same:
  assumes "checked_cap T cid p s = Inr (r, s')" and "ipc_inv A (sy_kernel s)"
  shows "s' = s"
proof -
  obtain c k where g: "on_table (GetCapability cid) (sy_kernel s) = Inr (c, k)" and s': "s' = s\<lparr>sy_kernel := k\<rparr>"
    using assms(1) by (auto simp: checked_cap_def on_kernel_value_def Let_def run_bind_eq_Inr run_map_eq_Inr split: if_splits)
  show ?thesis using get_known [OF g assms(2)] s' by simp
qed

lemma flow_add_capability:
  assumes "add_capability T n p s = Inr (i, s')" and "room (Suc m) (sy_kernel s)" and "\<lparr>cap_obj = \<lparr>ob_type = T, ob_ref = n\<rparr>, cap_permissions = p\<rparr> \<in> A"
  shows "flow 1 A (sy_kernel s) A (sy_kernel s')"
  using assms by (auto simp: add_capability_def on_kernel_value_def run_map_eq_Inr intro: flow_new [unfolded One_nat_def])

lemma add_capability_same: "add_capability T n p s = Inr (i, s') \<Longrightarrow> \<exists>k. s' = s\<lparr>sy_kernel := k\<rparr>"
  by (auto simp: add_capability_def on_kernel_value_def run_map_eq_Inr)

lemma fresh_cap: "ik_next_object k \<le> n \<Longrightarrow> n < ik_next_object k' \<Longrightarrow> \<lparr>cap_obj = \<lparr>ob_type = T, ob_ref = n\<rparr>, cap_permissions = p\<rparr> \<in> A \<union> fresh_caps k k'"
  by (simp add: fresh_caps_def)

lemma flow_new_memory_object:
  assumes "new_memory_object obj p s = Inr (i, s')" and rm: "has_room (sy_kernel s)"
  shows "flow 1 A (sy_kernel s) A (sy_kernel s')"
proof -
  obtain n s1 where n: "new_object s = (n, s1)" by fastforce
  note k = new_object_kernel [OF n]
  have f: "flow 0 A (sy_kernel s) (A \<union> fresh_caps (sy_kernel s) (sy_kernel s1)) (sy_kernel s1)" by (rule flow_new_object) (use k in auto)
  have "room (Suc 0) (sy_kernel s1)" using room_has(1) [OF rm] k by (simp add: room_def)
  moreover have "add_capability MEMORY_OBJECT n p (s1\<lparr>sy_objects := (sy_objects s1)(n := obj)\<rparr>) = Inr (i, s')"
    using assms(1) n by (simp add: new_memory_object_def)
  ultimately have "flow 1 (A \<union> fresh_caps (sy_kernel s) (sy_kernel s1)) (sy_kernel s1) (A \<union> fresh_caps (sy_kernel s) (sy_kernel s1)) (sy_kernel s')"
    using flow_add_capability [of MEMORY_OBJECT n p "s1\<lparr>sy_objects := (sy_objects s1)(n := obj)\<rparr>" i s' 0 "A \<union> fresh_caps (sy_kernel s) (sy_kernel s1)"] k
    by (simp add: fresh_caps_def)
  from flow_weaken [OF flow_trans [OF f this], of A 1] show ?thesis by simp
qed

lemma flow_ThreadCreate:
  assumes "ThreadCreate raw cid s = Some (Inr (e, ws, s'))" and inv: "ipc_inv A (sy_kernel s)" and rm: "has_room (sy_kernel s)"
  shows "flow 1 A (sy_kernel s) A (sy_kernel s')"
proof -
  obtain r s1 where r: "checked_cap PROCESS cid kZionPerm_SpawnThread s = Inr (r, s1)"
    using assms(1) by (auto simp: ThreadCreate_def opt_run_bind_eq_Inr)
  have s1: "s1 = s" by (rule checked_cap_same [OF r inv])
  show ?thesis
  proof (cases r)
    case (Inl e')
    then show ?thesis using assms(1) r s1 flow_weaken [OF flow_refl [of A A "sy_kernel s"], of A 1] by (simp add: ThreadCreate_def)
  next
    case (Inr c)
    obtain t s2 i where t: "Process_CreateThread raw (snd c) s = Some (Inr (t, s2))" "add_capability THREAD t Thread_DefaultPermissions s2 = Inr (i, s')"
      using assms(1) r s1 Inr by (cases c) (auto simp: ThreadCreate_def opt_run_bind_eq_Inr run_map_eq_Inr)
    note f = flow_CreateThread [OF t(1)]
    have g: "flow 1 (A \<union> fresh_caps (sy_kernel s) (sy_kernel s2)) (sy_kernel s2) (A \<union> fresh_caps (sy_kernel s) (sy_kernel s2)) (sy_kernel s')"
      by (rule flow_add_capability [OF t(2) room_flow [OF f(1) inv]])
         (use room_has(1) [OF rm] f(2,3) in \<open>simp_all add: fresh_caps_def\<close>)
    from flow_weaken [OF flow_trans [OF f(1) g], of A 1] show ?thesis by simp
  qed
qed

lemma flow_bootstrap:
  assumes rel: "on_table (ReleaseCapability cid) k = Inr (c, k1)" and c: "c = Some cap"
    and add: "AddExistingCapability c (ik_caps k1 pid) = Inr (i, t)" and inv: "ipc_inv A k" and rm: "room (Suc m) k"
  shows "flow 1 A k A (k1\<lparr>ik_caps := (ik_caps k1)(pid := t)\<rparr>)"
proof -
  have f: "flow 0 A k (insert cap A) k1" using flow_release [OF rel, of A] c by simp
  have inv1: "ct_inv (ik_caps k1 pid)" and rm1: "ct_given (ik_caps k1 pid) < hm_limit"
    using ipc_inv_table [OF flow_inv [OF f inv]] room_less [OF room_flow [OF f inv]] rm by auto
  from AddExistingCapability_ok [OF inv1 rm1, of cap] add c
  have t: "ct_inv t" "ct_lookup t = (ct_lookup (ik_caps k1 pid))(ct_next_cap_id (ik_caps k1 pid) \<mapsto> cap)" "ct_given t = Suc (ct_given (ik_caps k1 pid))"
    by auto
  have "flow 1 (insert cap A) k1 (insert cap A) (k1\<lparr>ik_caps := (ik_caps k1)(pid := t)\<rparr>)"
    by (rule flow_table [OF refl t(1)]) (use t table_caps(1) [of k1 pid] in \<open>auto simp: ran_def split: if_splits\<close>)
  from flow_weaken [OF flow_trans [OF f this], of A 1] show ?thesis by auto
qed

lemma flow_move_bootstrap:
  assumes "move_bootstrap cid p ids s = Inr (e, ws, s')" and inv: "ipc_inv A (sy_kernel s)" and rm: "room (Suc m) (sy_kernel s)"
  shows "\<exists>j. flow j A (sy_kernel s) A (sy_kernel s')"
proof -
  obtain c k1 where g: "on_table (GetCapability cid) (sy_kernel s) = Inr (c, k1)"
    using assms(1) by (auto simp: move_bootstrap_def on_kernel_value_def run_bind_eq_Inr run_map_eq_Inr)
  have k1: "k1 = sy_kernel s" and c: "c = ct_lookup (ik_caps (sy_kernel s) (CurrentProcess (sy_kernel s))) cid" using get_known [OF g inv] by auto
  show ?thesis
  proof (cases "\<exists>cap. c = Some cap \<and> HasPermissions cap kZionPerm_Transmit")
    case False
    then have "s' = s" using assms(1) g k1
      by (cases c) (auto simp: move_bootstrap_def on_kernel_value_def run_bind_eq_Inr run_map_eq_Inr split: if_splits)
    then show ?thesis using flow_refl [of A A "sy_kernel s"] by blast
  next
    case True
    then obtain cap where cap: "c = Some cap" "HasPermissions cap kZionPerm_Transmit" by blast
    from ReleaseCapability_ok [OF ipc_inv_table [OF inv], of cid "CurrentProcess (sy_kernel s)"]
    obtain k2 where rel: "on_table (ReleaseCapability cid) (sy_kernel s) = Inr (c, k2)" by (auto simp: on_table_def c)
    obtain i t where t: "AddExistingCapability c (ik_caps k2 (pr_id (sy_procs s p))) = Inr (i, t)"
        "sy_kernel s' = k2\<lparr>ik_caps := (ik_caps k2)(pr_id (sy_procs s p) := t)\<rparr>"
      using assms(1) g k1 rel cap by (auto simp: move_bootstrap_def on_kernel_value_def run_map_eq_Inr Let_def)
    show ?thesis using flow_bootstrap [OF rel cap(1) t(1) inv rm] t(2) by auto
  qed
qed

lemma flow_ProcessSpawn:
  assumes "ProcessSpawn cid boot s = Inr (e, ws, s')" and inv: "ipc_inv A (sy_kernel s)" and rm: "has_room (sy_kernel s)"
  shows "\<exists>j. flow j A (sy_kernel s) A (sy_kernel s')"
proof -
  obtain r s0 where r: "checked_cap PROCESS cid kZionPerm_SpawnProcess s = Inr (r, s0)"
    using assms(1) by (auto simp: ProcessSpawn_def run_bind_eq_Inr)
  have s0: "s0 = s" by (rule checked_cap_same [OF r inv])
  show ?thesis
  proof (cases r)
    case (Inl e')
    then show ?thesis using assms(1) r s0 flow_refl [of A A "sy_kernel s"] by (auto simp: ProcessSpawn_def)
  next
    case (Inr c)
    obtain p s1 s2 i1 s3 i2 s4 where p: "Process_Create s = Inr (p, s1)" "InsertProcess p s1 = Inr s2"
        "add_capability PROCESS p Process_DefaultPermissions s2 = Inr (i1, s3)"
        "add_capability ADDRESS_SPACE (the (pr_vmas (sy_procs s3 p))) AddressSpace_DefaultPermissions s3 = Inr (i2, s4)"
      using assms(1) r s0 Inr by (auto simp: ProcessSpawn_def run_bind_eq_Inr)
    let ?F = "A \<union> fresh_caps (sy_kernel s) (sy_kernel s1)"
    have s2: "sy_kernel s2 = sy_kernel s1" "sy_procs s2 = sy_procs s1" using p(2) by (auto simp: InsertProcess_def run_bind_eq_Inr split: if_splits)
    have s3: "sy_procs s3 = sy_procs s1" using add_capability_same [OF p(3)] s2 by auto
    note pk = Process_Create_kernel [OF p(1)]
    note f = flow_Process_Create [OF p(1), of A]
    have rm1: "room (Suc (Suc (Suc 0))) (sy_kernel s2)" using room_flow [OF f inv] room_has(3) [OF rm] by (simp add: s2)
    have f1: "flow 1 ?F (sy_kernel s2) ?F (sy_kernel s3)" by (rule flow_add_capability [OF p(3) rm1]) (simp add: fresh_caps_def pk)
    have inv2: "ipc_inv ?F (sy_kernel s2)" using flow_inv [OF f inv] by (simp add: s2)
    have rm2: "room (Suc (Suc 0)) (sy_kernel s3)" using room_flow [OF f1 inv2] rm1 by simp
    have f2: "flow 1 ?F (sy_kernel s3) ?F (sy_kernel s4)" by (rule flow_add_capability [OF p(4) rm2]) (use pk(3) in \<open>simp add: s3 fresh_caps_def pk(1)\<close>)
    note inv4 = flow_inv [OF f2 flow_inv [OF f1 inv2]]
    have rm4: "room (Suc 0) (sy_kernel s4)" using room_flow [OF f2 flow_inv [OF f1 inv2]] rm2 by simp
    have all: "flow (0 + (1 + 1)) A (sy_kernel s) ?F (sy_kernel s4)" by (rule flow_trans [OF f flow_trans [OF f1 [unfolded s2] f2]])
    have "\<exists>j. flow j ?F (sy_kernel s4) ?F (sy_kernel s')"
      using assms(1) r s0 Inr p flow_move_bootstrap [OF _ inv4 rm4] flow_refl [of ?F ?F "sy_kernel s4"]
      by (auto simp: ProcessSpawn_def run_bind_eq_Inr split: if_splits)
    then show ?thesis using flow_weaken [OF flow_trans [OF all]] by blast
  qed
qed

lemma flow_checked:
  assumes "checked_cap T cid p s = Inr (r, s1)" and inv: "ipc_inv A (sy_kernel s)"
    and "\<And>e. r = Inl e \<Longrightarrow> s' = s1" and "\<And>c n. s1 = s \<Longrightarrow> r = Inr (c, n) \<Longrightarrow> \<exists>j. flow j A (sy_kernel s) A (sy_kernel s')"
  shows "\<exists>j. flow j A (sy_kernel s) A (sy_kernel s')"
proof (cases r)
  case (Inl e)
  then show ?thesis using assms(3) checked_cap_same [OF assms(1) inv] flow_refl [of A A "sy_kernel s"] by auto
next
  case (Inr c)
  then show ?thesis using assms(4) checked_cap_same [OF assms(1) inv] by (cases c) auto
qed

lemma quiet_ex: "quiet s s' \<Longrightarrow> \<exists>j. flow j A (sy_kernel s) A (sy_kernel s')"
  using quiet_flow by blast

lemma flow_ProcessWait:
  assumes "ProcessWait cid s = Inr (e, ws, s')" and inv: "ipc_inv A (sy_kernel s)"
  shows "\<exists>j. flow j A (sy_kernel s) A (sy_kernel s')"
proof -
  obtain r s1 where r: "checked_cap PROCESS cid kZionPerm_Read s = Inr (r, s1)" using assms(1) by (auto simp: ProcessWait_def run_bind_eq_Inr)
  show ?thesis
  proof (rule flow_checked [OF r inv])
    show "s' = s1" if "r = Inl e'" for e' using assms(1) r that by (simp add: ProcessWait_def)
    show "\<exists>j. flow j A (sy_kernel s) A (sy_kernel s')" if "s1 = s" "r = Inr (c, p)" for c p
      using assms(1) r that quiet_on_kernel [OF _ Thread_Wait_more]
      by (auto simp: ProcessWait_def run_bind_eq_Inr run_map_eq_Inr split: if_splits intro!: quiet_ex)
  qed
qed

lemma flow_ThreadStart:
  assumes "ThreadStart cid entry a b s = Inr (e, s')" and inv: "ipc_inv A (sy_kernel s)"
  shows "\<exists>j. flow j A (sy_kernel s) A (sy_kernel s')"
proof -
  obtain r s1 where r: "checked_cap THREAD cid kZionPerm_Write s = Inr (r, s1)" using assms(1) by (auto simp: ThreadStart_def run_bind_eq_Inr)
  show ?thesis
  proof (rule flow_checked [OF r inv])
    show "s' = s1" if "r = Inl e'" for e' using assms(1) r that by (simp add: ThreadStart_def)
    show "\<exists>j. flow j A (sy_kernel s) A (sy_kernel s')" if "s1 = s" "r = Inr (c, t)" for c t
      using assms(1) r that quiet_Thread_Start
      by (auto simp: ThreadStart_def run_map_eq_Inr split: if_splits intro!: quiet_ex)
  qed
qed

lemma flow_ThreadWait:
  assumes "ThreadWait cid s = Inr (e, s')" and inv: "ipc_inv A (sy_kernel s)"
  shows "\<exists>j. flow j A (sy_kernel s) A (sy_kernel s')"
proof -
  obtain r s1 where r: "checked_cap THREAD cid kZionPerm_Read s = Inr (r, s1)" using assms(1) by (auto simp: ThreadWait_def run_bind_eq_Inr)
  show ?thesis
  proof (rule flow_checked [OF r inv])
    show "s' = s1" if "r = Inl e'" for e' using assms(1) r that by (simp add: ThreadWait_def)
    show "\<exists>j. flow j A (sy_kernel s) A (sy_kernel s')" if "s1 = s" "r = Inr (c, t)" for c t
      using assms(1) r that quiet_on_kernel [OF _ Thread_Wait_more]
      by (auto simp: ThreadWait_def run_map_eq_Inr split: if_splits intro!: quiet_ex)
  qed
qed

lemma flow_MemoryObjectDuplicate:
  assumes "MemoryObjectDuplicate cid off len s = Inr (e, ws, s')" and inv: "ipc_inv A (sy_kernel s)" and rm: "has_room (sy_kernel s)"
  shows "\<exists>j. flow j A (sy_kernel s) A (sy_kernel s')"
proof -
  obtain r s1 where r: "checked_cap MEMORY_OBJECT cid kZionPerm_Duplicate s = Inr (r, s1)" using assms(1) by (auto simp: MemoryObjectDuplicate_def run_bind_eq_Inr)
  show ?thesis
  proof (rule flow_checked [OF r inv])
    show "s' = s1" if "r = Inl e'" for e' using assms(1) r that by (simp add: MemoryObjectDuplicate_def)
    show "\<exists>j. flow j A (sy_kernel s) A (sy_kernel s')" if "s1 = s" "r = Inr (c, n)" for c n
    proof (cases "MemoryObject_Duplicate off len (sy_objects s n)")
      case (Inl e')
      then show ?thesis using assms(1) r that by (auto simp: MemoryObjectDuplicate_def intro: quiet_ex)
    next
      case (Inr obj)
      then show ?thesis using assms(1) r that flow_new_memory_object [OF _ rm] by (auto simp: MemoryObjectDuplicate_def run_map_eq_Inr) blast
    qed
  qed
qed

lemma flow_MemoryObjectInspect:
  assumes "MemoryObjectInspect cid s = Inr (e, ws, s')" and inv: "ipc_inv A (sy_kernel s)"
  shows "\<exists>j. flow j A (sy_kernel s) A (sy_kernel s')"
proof -
  obtain r s1 where r: "checked_cap MEMORY_OBJECT cid kZionPerm_Read s = Inr (r, s1)" using assms(1) by (auto simp: MemoryObjectInspect_def run_bind_eq_Inr)
  show ?thesis by (rule flow_checked [OF r inv]) (use assms(1) r in \<open>auto simp: MemoryObjectInspect_def intro: quiet_ex\<close>)
qed

lemma flow_AddressSpaceMap:
  assumes "AddressSpaceMap cid off mid align s = Some (Inr (e, ws, s'))" and inv: "ipc_inv A (sy_kernel s)"
  shows "\<exists>j. flow j A (sy_kernel s) A (sy_kernel s')"
proof -
  obtain c1 k1 where g1: "on_table (GetCapability cid) (sy_kernel s) = Inr (c1, k1)"
    using assms(1) by (auto simp: AddressSpaceMap_def on_kernel_value_def opt_run_bind_eq_Inr run_map_eq_Inr)
  have k1: "k1 = sy_kernel s" using get_known [OF g1 inv] by simp
  obtain c2 k2 where g2: "on_table (GetCapability mid) (sy_kernel s) = Inr (c2, k2)"
    using assms(1) g1 k1 by (auto simp: AddressSpaceMap_def on_kernel_value_def opt_run_bind_eq_Inr run_map_eq_Inr)
  have k2: "k2 = sy_kernel s" using get_known [OF g2 inv] by simp
  have "sy_kernel s' = sy_kernel s"
    using assms(1) g1 g2 k1 k2
    by (auto simp: AddressSpaceMap_def on_kernel_value_def opt_run_bind_eq_Inr run_map_eq_Inr Let_def split: if_splits)
  then show ?thesis using flow_refl [of A A "sy_kernel s"] by auto
qed

lemma flow_AddressSpaceUnmap:
  assumes "AddressSpaceUnmap cid lo hi s = Some (Inr (e, s'))" and inv: "ipc_inv A (sy_kernel s)"
  shows "\<exists>j. flow j A (sy_kernel s) A (sy_kernel s')"
proof -
  obtain r s1 where r: "checked_cap ADDRESS_SPACE cid kZionPerm_Write s = Inr (r, s1)" using assms(1) by (auto simp: AddressSpaceUnmap_def opt_run_bind_eq_Inr)
  show ?thesis by (rule flow_checked [OF r inv]) (use assms(1) r in \<open>auto simp: AddressSpaceUnmap_def intro!: quiet_ex\<close>)
qed

lemma flow_syscall:
  assumes "SyscallHandler raw c s = Some (Inr (e, out, s'))" and inv: "ipc_inv A (sy_kernel s)" and rm: "has_room (sy_kernel s)"
  shows "\<exists>j. flow j A (sy_kernel s) A (sy_kernel s')"
proof -
  note ex = exI [where P = "\<lambda>j. flow j A (sy_kernel s) A (sy_kernel s')"]
  show ?thesis
  proof (cases c)
    case (SysIpc call)
    then obtain k where "ipc_exec call (sy_kernel s) = Inr (e, out, k)" "s' = s\<lparr>sy_kernel := k\<rparr>"
      using assms(1) by (auto simp: SyscallHandler_def run_map_eq_Inr)
    then show ?thesis using flow_exec [OF _ inv rm] by auto
  next
    case (SysMemoryObjectCreateContiguous sz)
    then obtain i ob st where "new_memory_object ob MemoryObject_DefaultPermissions (s\<lparr>sy_machine := st\<rparr>) = Inr (i, s')"
      using assms(1) by (auto simp: SyscallHandler_def MemoryObjectCreateContiguous_def Let_def run_bind_eq_Inr run_map_eq_Inr)
    from flow_new_memory_object [OF this] rm show ?thesis by (intro ex [of 1]) simp
  next
    case (SysProcessExit code)
    then show ?thesis using assms(1) quiet_Process_Exit
      by (intro quiet_ex) (auto simp: SyscallHandler_def ProcessExit_def run_map_eq_Inr run_bind_eq_Inr split: if_splits)
  next
    case SysThreadExit
    then show ?thesis using assms(1) quiet_Thread_Exit
      by (intro quiet_ex) (auto simp: SyscallHandler_def ThreadExit_def run_map_eq_Inr run_bind_eq_Inr split: if_splits)
  next
    case (SysThreadSleep millis)
    then show ?thesis using assms(1) quiet_on_kernel [OF _ Sleep_more]
      by (intro quiet_ex) (auto simp: SyscallHandler_def ThreadSleep_def run_map_eq_Inr)
  qed (use assms(1) in \<open>auto simp: SyscallHandler_def run_map_eq_Inr MemoryObjectCreate_def MemoryObjectCreatePhysical_def run_bind_eq_Inr
      dest: flow_ProcessSpawn [OF _ inv rm] flow_ProcessWait [OF _ inv] flow_ThreadStart [OF _ inv] flow_ThreadWait [OF _ inv]
        flow_AddressSpaceMap [OF _ inv] flow_AddressSpaceUnmap [OF _ inv] flow_MemoryObjectDuplicate [OF _ inv rm] flow_MemoryObjectInspect [OF _ inv]
      intro: ex [OF flow_ThreadCreate [OF _ inv rm]] ex [OF flow_new_memory_object [OF _ rm]] quiet_ex\<close>)
qed

section \<open>Permissions never grow\<close>

text \<open>
  A step of the system: a system call, the rest of a call whose thread runs again, an interrupt or a tick,
  a round of the cleanup thread, the start of a thread, or a page fault.
\<close>

inductive sys_step :: "System \<Rightarrow> System \<Rightarrow> bool" where
  call: "has_room (sy_kernel s) \<Longrightarrow> SyscallHandler raw c s = Some (Inr (e, out, s')) \<Longrightarrow> sys_step s s'"
| event: "has_room (sy_kernel s) \<Longrightarrow> event_exec ev (sy_kernel s) = Inr k \<Longrightarrow> sys_step s (s\<lparr>sy_kernel := k\<rparr>)"
| cleanup: "CleanupLoop s = Some (Inr s') \<Longrightarrow> sys_step s s'"
| start: "Thread_Init t s = Some (Inr (entry, s')) \<Longrightarrow> sys_step s s'"
| fault: "HandlePageFault vaddr (sy_spaces s v) (sy_objects s) (sy_machine s) = Some (Inr (b, objs, st)) \<Longrightarrow>
    sys_step s (s\<lparr>sy_objects := objs, sy_machine := st\<rparr>)"

lemma flow_step: "sys_step s s' \<Longrightarrow> ipc_inv A (sy_kernel s) \<Longrightarrow> \<exists>j. flow j A (sy_kernel s) A (sy_kernel s')"
proof (induction rule: sys_step.induct)
  case (event s ev k)
  then show ?case using flow_event by simp
next
  case (fault vaddr s v b objs st)
  then show ?case by (intro quiet_ex) simp
qed (blast intro: flow_syscall flow_CleanupLoop flow_Thread_Init)+

lemma steps_flow: "sys_step\<^sup>*\<^sup>* s s' \<Longrightarrow> ipc_inv A (sy_kernel s) \<Longrightarrow> \<exists>j. flow j A (sy_kernel s) A (sy_kernel s')"
proof (induction rule: rtranclp_induct)
  case base
  then show ?case using flow_refl [of A A "sy_kernel s"] by blast
next
  case (step s1 s2)
  then obtain j where j: "flow j A (sy_kernel s) A (sy_kernel s1)" by blast
  then obtain j' where "flow j' A (sy_kernel s1) A (sy_kernel s2)" using flow_step [OF step(2) flow_inv [OF j step(4)]] by blast
  then show ?case using flow_trans [OF j] by blast
qed

text \<open>
  C5.  Whatever system calls, resumed calls, interrupts, timer ticks, page faults and rounds of the cleanup thread
  happen, in any order: every capability found afterwards in a table or in a message in transit,
  if it refers to an object that existed before, comes from a capability to the same object that was
  in the system before, and has no permission that one did not have.  The capability tables and
  messages stay well formed.
\<close>

theorem permissions_never_grow:
  assumes "sys_step\<^sup>*\<^sup>* s s'" and "ipc_inv {} (sy_kernel s)"
  shows "ipc_inv {} (sy_kernel s') \<and> (\<forall>c' \<in> caps_of (sy_kernel s'). ob_ref (cap_obj c') < ik_next_object (sy_kernel s) \<longrightarrow>
    (\<exists>c \<in> caps_of (sy_kernel s). cap_obj c' = cap_obj c \<and> (\<forall>p. HasPermissions c' p \<longrightarrow> HasPermissions c p)))"
proof -
  have mono: "HasPermissions c' p \<Longrightarrow> HasPermissions c p" if "attenuates c' c" for c' c p
    using that unfolding attenuates_def HasPermissions_def by (metis and.assoc and.commute)
  obtain j where "flow j {} (sy_kernel s) {} (sy_kernel s')" using steps_flow [OF assms] by blast
  then have "ipc_inv {} (sy_kernel s')" "derived (ik_next_object (sy_kernel s)) (caps_of (sy_kernel s)) (caps_of (sy_kernel s'))"
    using assms(2) by (simp_all add: flow_def)
  then show ?thesis using mono unfolding derived_def attenuates_def by metis
qed

definition system_example :: "IpcKernel \<Rightarrow> System" where
  "system_example k = \<lparr>sy_kernel = k, sy_machine = machine_example, sy_vmm = \<lparr>vmm_next_slab_heap_page = kKernelSlabHeapStart, vmm_stack_manager = KernelStackManager_new\<rparr>,
     sy_objects = (\<lambda>_. ViewMemoryObject 0 0), sy_spaces = (\<lambda>_. AddressSpace_of_cr3 0),
     sy_procs = (\<lambda>_. \<lparr>pr_id = 1, pr_vmas = None, pr_state = P_RUNNING, pr_exit_code = 0, pr_next_thread_id = 0, pr_threads = []\<rparr>),
     sy_process_of = (\<lambda>_. 0), sy_next_id = 2, sy_proc_map = HashMap_new,
     sy_cleanup = \<lparr>pc_semaphore = Semaphore_Create, pc_thread_list = [], pc_process_list = []\<rparr>\<rparr>"

text \<open>The current thread receives a capability from a queue and duplicates it without the permission to do so again.\<close>

lemma system_example_run:
  "\<exists>s'. sys_step\<^sup>*\<^sup>* (system_example ipc_example) s' \<and> ct_lookup (ik_caps (sy_kernel s') (CurrentProcess ipc_example)) 0x101 =
     Some \<lparr>cap_obj = \<lparr>ob_type = PORT, ob_ref = 0\<rparr>, cap_permissions = 0x3\<rparr>"
proof -
  let ?k = ipc_example and ?p = "CurrentProcess ipc_example" and ?c = "\<lparr>cap_obj = \<lparr>ob_type = PORT, ob_ref = 0\<rparr>, cap_permissions = 0x33\<rparr>"
  let ?req = "\<lparr>rr_cap = 0x100, rr_num_bytes = 1, rr_data = [0], rr_num_caps = 1, rr_caps = [0]\<rparr>"
  let ?ka = "?k\<lparr>ik_queues := (\<lambda>_. UnboundedMessageQueue_new)\<rparr>"
  have next0: "ct_next_cap_id CapabilityTable_new = 0x100" by (simp add: CapabilityTable_new_def)
  obtain t where t: "AddExistingCapability (Some ?c) CapabilityTable_new = Inr (0x100, t)" "ct_inv t" "ct_lookup t = [0x100 \<mapsto> ?c]" "ct_given t = 1"
      "ct_next_cap_id t = 0x101"
    using AddExistingCapability_ok [of CapabilityTable_new ?c] by (auto simp: hm_limit_def next0)
  obtain t' where t': "AddNewCapability (cap_obj ?c) 0x3 t = Inr (0x101, t')" "ct_lookup t' 0x101 = Some \<lparr>cap_obj = cap_obj ?c, cap_permissions = 0x3\<rparr>"
    using AddNewCapability_ok [OF t(2), of "cap_obj ?c" "0x3"] t(4,5) by (auto simp: hm_limit_def)
  let ?kb = "?ka\<lparr>ik_caps := (ik_caps ?k)(?p := t)\<rparr>"
  let ?kc = "?kb\<lparr>ik_caps := (ik_caps ?kb)(?p := t')\<rparr>"
  have recv: "IpcObject_Recv PORT 0 1 1 ?k = Inr (Some (Inr \<lparr>msg_data = [7], msg_caps = [Some ?c], msg_reply_cap = None\<rparr>), ?ka)"
    by (auto simp: IpcObject_Recv_def queue_pop_def UnboundedMessageQueue_PopFront_def ipc_example_simps)
  have p: "CurrentProcess ?ka = ?p" "CurrentProcess ?kb = ?p" "ik_caps ?k = (\<lambda>_. CapabilityTable_new)" by (simp_all add: CurrentProcess_def ipc_example_simps)
  have add: "on_table (AddExistingCapability (Some ?c)) ?ka = Inr (0x100, ?kb)" using t(1) p by (simp add: on_table_def)
  have "event_exec (ResumeRecv PORT 0 ?req) ?k = Inr ?kb"
    by (simp add: recv_message_def recv TranslateIpcMessageToResponse_def add cell_set_def)
  then have s1: "sys_step (system_example ?k) (system_example ?kb)"
    using sys_step.event [of "system_example ?k" "ResumeRecv PORT 0 ?req" ?kb] ipc_example_ok(2) by (simp add: system_example_def)
  have m: "messages_of ?kb = {IpcMessage_new}" by (auto simp: messages_of_def ipc_example_simps)
  have r: "has_room ?kb" unfolding has_room_def m using t(4) by (auto simp: room_def p(3) hm_limit_def)
  have "ipc_exec (CallCapDuplicate 0x100 0x3) ?kb = Inr (Some OK, OutWords [0x101], ?kc)"
    using t t'(1) p(2) by (simp add: ipc_exec_def CapDuplicate_def GetCapability_ok on_table_def kZionPerm_Duplicate_def)
  then have "sys_step (system_example ?kb) (system_example ?kc)"
    using sys_step.call [of "system_example ?kb" _ "SysIpc (CallCapDuplicate 0x100 0x3)" "Some OK" "OutWords [0x101]" "system_example ?kc"] r
    by (simp add: system_example_def SyscallHandler_def)
  with s1 have "sys_step\<^sup>*\<^sup>* (system_example ?k) (system_example ?kc)" by auto
  then show ?thesis using t'(2) by (intro exI [of _ "system_example ?kc"]) (simp add: system_example_def)
qed

theorem permissions_never_grow_witness:
  "\<exists>(s' :: System) c. ipc_inv {} (sy_kernel s') \<and> ct_lookup (ik_caps (sy_kernel s') (CurrentProcess ipc_example)) 0x101 = Some \<lparr>cap_obj = \<lparr>ob_type = PORT, ob_ref = 0\<rparr>, cap_permissions = 0x3\<rparr> \<and>
    c \<in> caps_of ipc_example \<and> cap_obj c = \<lparr>ob_type = PORT, ob_ref = 0\<rparr> \<and> HasPermissions c 0x3"
proof -
  let ?d = "\<lparr>cap_obj = \<lparr>ob_type = PORT, ob_ref = 0\<rparr>, cap_permissions = 0x3\<rparr>"
  have k: "sy_kernel (system_example ipc_example) = ipc_example" by (simp add: system_example_def)
  obtain s' where s': "sys_step\<^sup>*\<^sup>* (system_example ipc_example) s'" "ct_lookup (ik_caps (sy_kernel s') (CurrentProcess ipc_example)) 0x101 = Some ?d"
    using system_example_run by blast
  have "?d \<in> caps_of (sy_kernel s')" "ob_ref (cap_obj ?d) < ik_next_object ipc_example" "HasPermissions ?d 0x3"
    using table_caps(2) [OF s'(2)] by (simp_all add: ipc_example_simps HasPermissions_def)
  moreover note grow = permissions_never_grow [OF s'(1), unfolded k, OF ipc_example_ok(1)]
  ultimately obtain c where "c \<in> caps_of ipc_example" "cap_obj ?d = cap_obj c" "HasPermissions c 0x3" by blast
  then have "cap_obj c = \<lparr>ob_type = PORT, ob_ref = 0\<rparr>" "c \<in> caps_of ipc_example" "HasPermissions c 0x3" by simp_all
  with s'(2) conjunct1 [OF grow] show ?thesis by blast
qed

end
