(* ===== verification/Zion_Lifecycle.thy ===== *)
theory Zion_Lifecycle
  imports Zion_Syscall
begin

text \<open>
  What the system calls on processes and the cleanup thread achieve together: the cleanup of a process
  that has exited, a thread that exits just before its process, the authority a new process starts
  with, and the unmapping of memory.
\<close>

section \<open>Waking the threads that wait for an ended thread\<close>

text \<open>
  The threads of \<open>ts\<close> that are to be cleaned up, the threads that wait for one of them, and the
  kernel after all of them are finished.
\<close>

definition ending :: "nat list \<Rightarrow> 'z Kernel_scheme \<Rightarrow> nat list" where
  "ending ts k = filter (\<lambda>t. th_state (k_threads k t) = T_CLEANUP) ts"

definition waiting_for :: "nat list \<Rightarrow> 'z Kernel_scheme \<Rightarrow> nat list" where
  "waiting_for ts k = concat (map (\<lambda>t. th_blocked_threads (k_threads k t)) (ending ts k))"

definition settled :: "nat list \<Rightarrow> 'z Kernel_scheme \<Rightarrow> 'z Kernel_scheme" where
  "settled ts k = k\<lparr>k_threads := \<lambda>x.
       if x \<in> set (ending ts k) then (k_threads k x)\<lparr>th_state := T_FINISHED, th_blocked_threads := []\<rparr>
       else if x \<in> set (waiting_for ts k) then (k_threads k x)\<lparr>th_state := T_RUNNABLE\<rparr> else k_threads k x,
     k_runnable_threads := k_runnable_threads k @ waiting_for ts k\<rparr>"

lemma settled_none: "ending ts k = [] \<Longrightarrow> settled ts k = k"
  by (simp add: settled_def waiting_for_def)

lemma settled_fields [simp]:
  "k_current_thread (settled ts k) = k_current_thread k" "k_sleep_thread (settled ts k) = k_sleep_thread k"
  "Kernel.more (settled ts k) = Kernel.more k" "th_process (k_threads (settled ts k) x) = th_process (k_threads k x)"
  "th_user_stack_base (k_threads (settled ts k) x) = th_user_stack_base (k_threads k x)"
  by (simp_all add: settled_def)

lemma unblock_threads_ok:
  fixes k :: IpcKernel
  assumes "th_blocked_threads (k_threads k t) = ws" and "t \<notin> set ws" and "\<forall>w \<in> set ws. \<not> IsDying (k_threads k w)"
    and "k_current_thread k \<noteq> k_sleep_thread k"
  shows "unblock_threads t ws k = Inr (k\<lparr>k_threads := \<lambda>x. if x = t then (k_threads k t)\<lparr>th_blocked_threads := []\<rparr>
      else if x \<in> set ws then (k_threads k x)\<lparr>th_state := T_RUNNABLE\<rparr> else k_threads k x,
    k_runnable_threads := k_runnable_threads k @ ws\<rparr>)"
  using assms
proof (induction ws arbitrary: k)
  case Nil
  then have e: "(\<lambda>x. if x = t then (k_threads k t)\<lparr>th_blocked_threads := []\<rparr>
      else if x \<in> set [] then (k_threads k x)\<lparr>th_state := T_RUNNABLE\<rparr> else k_threads k x) = k_threads k" by auto
  show ?case unfolding e by simp
next
  case (Cons w ws)
  let ?k = "k\<lparr>k_threads := (k_threads k)(t := (k_threads k t)\<lparr>th_blocked_threads := ws\<rparr>, w := (k_threads k w)\<lparr>th_state := T_RUNNABLE\<rparr>),
    k_runnable_threads := k_runnable_threads k @ [w]\<rparr>"
  have step: "unblock_threads t (w # ws) k = unblock_threads t ws ?k"
    using Cons.prems by (simp add: Thread_SetState_def on_thread_def Enqueue_def)
  have "\<not> IsDying (k_threads ?k x)" if "x \<in> set ws" for x
    using that Cons.prems(2,3) by (cases "x = w") (auto simp: IsDying_def)
  then have "unblock_threads t ws ?k = Inr (?k\<lparr>k_threads := \<lambda>x. if x = t then (k_threads ?k t)\<lparr>th_blocked_threads := []\<rparr>
      else if x \<in> set ws then (k_threads ?k x)\<lparr>th_state := T_RUNNABLE\<rparr> else k_threads ?k x,
    k_runnable_threads := k_runnable_threads ?k @ ws\<rparr>)"
    using Cons.prems by (intro Cons.IH) auto
  then show ?case unfolding step using Cons.prems(2) by (simp add: fun_eq_iff)
qed

section \<open>The memory of an exited process\<close>

lemma unmap_loop_returns:
  assumes "l \<le> kUserSpaceMax"
  shows "\<exists>st'. unmap_loop cr3 addr l st = Some st'"
proof (induction "unat l - unat addr" arbitrary: addr st rule: less_induct)
  case less
  show ?case
  proof (cases "addr < l")
    case True
    then have "unat (addr + kPageSize) = unat addr + 0x1000"
      using assms by (subst unat_add_noof) (auto simp: kPageSize_def kUserSpaceMax_def word_less_nat_alt word_le_nat_alt)
    then show ?thesis using less [of "addr + kPageSize"] True by (subst unmap_loop.simps) (simp add: word_less_nat_alt)
  qed (simp add: unmap_loop.simps)
qed

lemma FreeAddressRange_live:
  assumes "mt_entries objs (as_mapping_tree a) es" and "b < l" "l \<le> kUserSpaceMax" and "\<not> range_straddled b es" "\<not> range_straddled l es"
  shows "\<exists>t' st' es'. FreeAddressRange b l False a st = Some (OK, a\<lparr>as_mapping_tree := t'\<rparr>, UnmapPage (as_cr3 a) l st') \<and>
    unmap_loop (as_cr3 a) b l st = Some st' \<and> mt_entries objs t' es' \<and> set es' \<subseteq> set es"
proof -
  have bl: "\<not> l \<le> b" using assms(2) by simp
  obtain t' es' where t': "FreeMemoryRange b l (as_mapping_tree a) = Some (OK, t')" "mt_entries objs t' es'" "set es' \<subseteq> set es"
    using FreeMemoryRange_ok [OF assms(1), of l b] bl assms(4,5) by auto
  then show ?thesis using unmap_loop_returns [OF assms(3), of "as_cr3 a" b st] by (auto simp: FreeAddressRange_def Let_def)
qed

lemma FreeAddressRange_dying:
  assumes "mt_entries objs (as_mapping_tree a) es" and "b < l" and "\<not> range_straddled b es" "\<not> range_straddled l es"
  shows "\<exists>t' es'. FreeAddressRange b l True a st = Some (OK, a\<lparr>as_mapping_tree := t'\<rparr>, st) \<and> mt_entries objs t' es' \<and>
    set es' \<subseteq> {e \<in> set es. \<not> (b \<le> fst e \<and> fst e < l)}"
proof -
  have bl: "\<not> l \<le> b" using assms(2) by simp
  show ?thesis using FreeMemoryRange_ok [OF assms(1), of l b] bl assms(3,4) by (auto simp: FreeAddressRange_def Let_def)
qed

text \<open>A stack that lies whole between the mappings \<open>es\<close>.\<close>

definition stack_whole :: "(u64 \<times> MemoryMapping) list \<Rightarrow> u64 \<Rightarrow> bool" where
  "stack_whole es base \<longleftrightarrow> base < base + kUserStackSize \<and> base + kUserStackSize \<le> kUserSpaceMax \<and>
     \<not> range_straddled base es \<and> \<not> range_straddled (base + kUserStackSize) es"

lemma stack_whole_subset: "stack_whole es b \<Longrightarrow> set es' \<subseteq> set es \<Longrightarrow> stack_whole es' b"
  by (auto simp: stack_whole_def range_straddled_def)

text \<open>The address space \<open>v\<close> of process \<open>p\<close> with the mappings \<open>es\<close>.\<close>

definition space_ok :: "nat \<Rightarrow> nat \<Rightarrow> (u64 \<times> MemoryMapping) list \<Rightarrow> System \<Rightarrow> bool" where
  "space_ok p v es s \<longleftrightarrow> pr_vmas (sy_procs s p) = Some v \<and>
     mt_entries (sy_objects s) (as_mapping_tree (sy_spaces s v)) es"

text \<open>A thread of \<open>p\<close> that can be cleaned up if it is to be: nobody who waits for it is itself ending.\<close>

definition can_end :: "nat \<Rightarrow> (u64 \<times> MemoryMapping) list \<Rightarrow> System \<Rightarrow> nat \<Rightarrow> bool" where
  "can_end p es s t \<longleftrightarrow> current_thread s \<noteq> t \<and> sy_process_of s (th_process (thread_of t s)) = p \<and>
     (th_state (thread_of t s) = T_CLEANUP \<longrightarrow> stack_whole es (th_user_stack_base (thread_of t s)) \<and>
        (\<forall>w \<in> set (th_blocked_threads (thread_of t s)). \<not> IsDying (thread_of w s)))"

text \<open>What cleaning up threads leaves alone.\<close>

definition threads_gone :: "nat list \<Rightarrow> System \<Rightarrow> System \<Rightarrow> bool" where
  "threads_gone ts s s' \<longleftrightarrow> sy_kernel s' = settled ts (sy_kernel s) \<and> sy_procs s' = sy_procs s \<and> sy_process_of s' = sy_process_of s \<and>
     sy_cleanup s' = sy_cleanup s \<and> sy_objects s' = sy_objects s \<and> sy_proc_map s' = sy_proc_map s"

lemma Thread_Cleanup_ok:
  assumes sp: "space_ok p v es s" and ce: "can_end p es s t" and st: "th_state (thread_of t s) = T_CLEANUP"
    and sl: "k_current_thread (sy_kernel s) \<noteq> k_sleep_thread (sy_kernel s)"
  shows "\<exists>s' es'. Thread_Cleanup t s = Some (Inr s') \<and> threads_gone [t] s s' \<and> space_ok p v es' s' \<and> set es' \<subseteq> set es"
proof -
  let ?k = "sy_kernel s" and ?b = "th_user_stack_base (thread_of t s)" and ?ws = "th_blocked_threads (thread_of t s)"
  have whole: "stack_whole es ?b" and ws: "\<forall>w \<in> set ?ws. \<not> IsDying (k_threads ?k w)" and p: "sy_process_of s (th_process (thread_of t s)) = p" "current_thread s \<noteq> t"
    using ce st by (auto simp: can_end_def thread_of_def)
  have "t \<notin> set ?ws" using ws st by (auto simp: IsDying_def thread_of_def)
  then have un: "unblock_threads t ?ws ?k = Inr (?k\<lparr>k_threads := \<lambda>x. if x = t then (k_threads ?k t)\<lparr>th_blocked_threads := []\<rparr>
      else if x \<in> set ?ws then (k_threads ?k x)\<lparr>th_state := T_RUNNABLE\<rparr> else k_threads ?k x, k_runnable_threads := k_runnable_threads ?k @ ?ws\<rparr>)"
    using ws sl by (intro unblock_threads_ok) (simp_all add: thread_of_def)
  obtain a st' es' where a: "FreeAddressRange ?b (?b + kUserStackSize) False (sy_spaces s v) (sy_machine s) = Some (OK, a, st')"
      "mt_entries (sy_objects s) (as_mapping_tree a) es'" "set es' \<subseteq> set es"
    using FreeAddressRange_live [of "sy_objects s" "sy_spaces s v" es ?b "?b + kUserStackSize" "sy_machine s"] sp whole
    by (auto simp: space_ok_def stack_whole_def)
  have "k_threads (settled [t] ?k) = (\<lambda>x. if x = t then (k_threads ?k t)\<lparr>th_state := T_FINISHED, th_blocked_threads := []\<rparr>
      else if x \<in> set ?ws then (k_threads ?k x)\<lparr>th_state := T_RUNNABLE\<rparr> else k_threads ?k x)"
    using st by (auto simp: settled_def ending_def waiting_for_def thread_of_def)
  then have "\<exists>s'. Thread_Cleanup t s = Some (Inr s') \<and> threads_gone [t] s s' \<and> space_ok p v es' s'"
    using p st sp a un
    by (auto simp: Thread_Cleanup_def space_ok_def AddressSpace_FreeUserStack_def on_kernel_def threads_gone_def update_thread_def on_thread_def
        Let_def settled_def ending_def waiting_for_def thread_of_def current_thread_def fun_eq_iff)
  then show ?thesis using a(3) by blast
qed

text \<open>The loop over the threads of the process.\<close>

lemma settled_twice:
  "(settled ts k)\<lparr>k_threads := f, k_runnable_threads := r\<rparr> = k\<lparr>k_threads := f, k_runnable_threads := r\<rparr>"
  by (simp add: settled_def)

lemma settled_shape: "settled ts k = k\<lparr>k_threads := k_threads (settled ts k), k_runnable_threads := k_runnable_threads (settled ts k)\<rparr>"
  by (simp add: settled_def)

lemma settled_Cons:
  fixes k :: IpcKernel
  assumes "th_state (k_threads k t) = T_CLEANUP" and "t \<notin> set ts" and "\<forall>w \<in> set (waiting_for (t # ts) k). \<not> IsDying (k_threads k w)"
  shows "settled (t # ts) k = settled ts (settled [t] k)"
proof -
  let ?k = "settled [t] k"
  have i: "ending (t # ts) k = t # ending ts k" "waiting_for (t # ts) k = th_blocked_threads (k_threads k t) @ waiting_for ts k"
    "ending [t] k = [t]" "waiting_for [t] k = th_blocked_threads (k_threads k t)"
    using assms(1) by (simp_all add: ending_def waiting_for_def)
  have e: "ending ts ?k = ending ts k"
    unfolding ending_def by (rule filter_cong [OF refl]) (use assms(2,3) i in \<open>auto simp: settled_def IsDying_def\<close>)
  have "th_blocked_threads (k_threads ?k x) = th_blocked_threads (k_threads k x)" if "x \<in> set (ending ts k)" for x
    using that assms(2) by (auto simp: settled_def ending_def)
  then have w: "waiting_for ts ?k = waiting_for ts k" unfolding waiting_for_def e by (metis (no_types, lifting) map_eq_conv)
  have n: "t \<notin> set (ending ts k)" using assms(2) by (simp add: ending_def)
  have d: "w \<notin> set (waiting_for (t # ts) k)" if "w \<in> set (ending ts k) \<or> w = t" for w
    using that assms(1,3) by (auto simp: ending_def IsDying_def)
  have "k_threads (settled (t # ts) k) x = k_threads (settled ts ?k) x" for x
    using n d [of x] unfolding settled_def [of ts] e w by (auto simp: settled_def i)
  then have "k_threads (settled (t # ts) k) = k_threads (settled ts ?k)" by auto
  moreover have "k_runnable_threads (settled (t # ts) k) = k_runnable_threads (settled ts ?k)"
    unfolding settled_def [of ts] e w by (simp add: settled_def i)
  ultimately show ?thesis using settled_shape [of "t # ts" k] settled_shape [of ts ?k] settled_twice [where ts = "[t]" and k = k] by simp
qed

lemma can_end_after:
  assumes g: "threads_gone [t] s s1" and es: "set es1 \<subseteq> set es" and c: "can_end p es s t'" and ne: "t' \<noteq> t"
    and st: "th_state (thread_of t s) = T_CLEANUP" and ct: "can_end p es s t"
  shows "can_end p es1 s1 t'"
proof -
  have th: "thread_of x s1 = (if x = t then (thread_of t s)\<lparr>th_state := T_FINISHED, th_blocked_threads := []\<rparr>
      else if x \<in> set (th_blocked_threads (thread_of t s)) then (thread_of x s)\<lparr>th_state := T_RUNNABLE\<rparr> else thread_of x s)" for x
    using g st by (auto simp: threads_gone_def settled_def ending_def waiting_for_def thread_of_def)
  have "\<not> IsDying (thread_of w s1)" if "\<not> IsDying (thread_of w s)" for w
    using that st th [of w] by (auto simp: IsDying_def)
  then show ?thesis using c ne g stack_whole_subset [OF _ es] th [of t']
    by (auto simp: can_end_def threads_gone_def current_thread_def)
qed

lemma waiting_alive:
  assumes "\<forall>t \<in> set ts. can_end p es s t" and "w \<in> set (waiting_for ts (sy_kernel s))"
  shows "\<not> IsDying (k_threads (sy_kernel s) w)"
  using assms by (auto simp: waiting_for_def ending_def can_end_def thread_of_def)

lemma cleanup_each_ok:
  assumes "space_ok p v es s" and "\<forall>t \<in> set ts. can_end p es s t" and "distinct ts"
    and "k_current_thread (sy_kernel s) \<noteq> k_sleep_thread (sy_kernel s)"
  shows "\<exists>s' es'. cleanup_each ts s = Some (Inr s') \<and> threads_gone ts s s' \<and> space_ok p v es' s' \<and> set es' \<subseteq> set es"
  using assms
proof (induction ts arbitrary: s es)
  case Nil
  then show ?case by (auto simp: threads_gone_def settled_none ending_def)
next
  case (Cons t ts)
  show ?case
  proof (cases "th_state (thread_of t s) = T_CLEANUP")
    case True
    obtain s1 es1 where s1: "Thread_Cleanup t s = Some (Inr s1)" "threads_gone [t] s s1" "space_ok p v es1 s1" "set es1 \<subseteq> set es"
      using Thread_Cleanup_ok [OF Cons.prems(1) _ True Cons.prems(4)] Cons.prems(2) by auto
    have "\<forall>t' \<in> set ts. can_end p es1 s1 t'"
      using can_end_after [OF s1(2,4) _ _ True] Cons.prems(2,3) by auto
    then obtain s' es' where s': "cleanup_each ts s1 = Some (Inr s')" "threads_gone ts s1 s'" "space_ok p v es' s'" "set es' \<subseteq> set es1"
      using Cons.IH [OF s1(3)] Cons.prems(3,4) s1(2) by (auto simp: threads_gone_def)
    have "settled (t # ts) (sy_kernel s) = settled ts (settled [t] (sy_kernel s))"
      by (rule settled_Cons) (use True Cons.prems(2,3) waiting_alive [OF Cons.prems(2)] in \<open>auto simp: thread_of_def\<close>)
    then show ?thesis using True s1 s' by (auto simp: threads_gone_def)
  next
    case False
    have "settled (t # ts) (sy_kernel s) = settled ts (sy_kernel s)"
    proof -
      have e: "ending (t # ts) (sy_kernel s) = ending ts (sy_kernel s)" using False by (simp add: ending_def thread_of_def)
      show ?thesis by (simp only: settled_def waiting_for_def e)
    qed
    then show ?thesis using False Cons.IH [OF Cons.prems(1)] Cons.prems(2-4) by (simp add: threads_gone_def)
  qed
qed

section \<open>The cleanup of a process\<close>

definition cleanup_ready :: "nat \<Rightarrow> nat \<Rightarrow> (u64 \<times> MemoryMapping) list \<Rightarrow> System \<Rightarrow> bool" where
  "cleanup_ready p v es s \<longleftrightarrow> CurrentProcess (sy_kernel s) \<noteq> pr_id (sy_procs s p) \<and> k_current_thread (sy_kernel s) \<noteq> k_sleep_thread (sy_kernel s) \<and>
     space_ok p v es s \<and> distinct (pr_threads (sy_procs s p)) \<and> (\<forall>t \<in> set (pr_threads (sy_procs s p)). can_end p es s t) \<and>
     (\<forall>e \<in> set es. fst e < kUserSpaceMax \<and> mm_limit (snd e) \<le> kUserSpaceMax) \<and>
     ct_inv (ik_caps (sy_kernel s) (pr_id (sy_procs s p))) \<and> ct_used (ik_caps (sy_kernel s) (pr_id (sy_procs s p)))"

lemma Process_Cleanup_ok:
  assumes "cleanup_ready p v es s"
  defines "k \<equiv> sy_kernel s" and "ts \<equiv> pr_threads (sy_procs s p)" and "pid \<equiv> pr_id (sy_procs s p)"
  shows "\<exists>s' t. Process_Cleanup p s = Some (Inr s') \<and> sy_kernel s' = (settled ts k)\<lparr>ik_caps := (ik_caps k)(pid := t)\<rparr> \<and> ct_lookup t = Map.empty \<and>
    sy_procs s' = (sy_procs s)(p := (sy_procs s p)\<lparr>pr_vmas := None, pr_state := P_FINISHED\<rparr>) \<and>
    sy_process_of s' = sy_process_of s \<and> sy_cleanup s' = sy_cleanup s \<and>
    mt_entries (sy_objects s') (as_mapping_tree (sy_spaces s' v)) []"
proof -
  let ?s = "if pr_state (sy_procs s p) \<noteq> P_CLEANUP then on_process p (\<lambda>pr. pr\<lparr>pr_state := P_CLEANUP\<rparr>) s else s"
  have r: "space_ok p v es ?s" "\<forall>t \<in> set ts. can_end p es ?s t" "distinct ts" "k_current_thread (sy_kernel ?s) \<noteq> k_sleep_thread (sy_kernel ?s)"
      "pr_threads (sy_procs ?s p) = ts" "CurrentProcess k \<noteq> pid"
    using assms(1) by (auto simp: cleanup_ready_def space_ok_def can_end_def on_process_def current_thread_def thread_of_def ts_def pid_def k_def)
  obtain s1 es1 where s1: "cleanup_each ts ?s = Some (Inr s1)" "threads_gone ts ?s s1" "space_ok p v es1 s1" "set es1 \<subseteq> set es"
    using cleanup_each_ok [OF r(1-4)] by blast
  have more: "ik_caps (sy_kernel s1) = ik_caps k" and pr: "pr_id (sy_procs s1 p) = pid"
    using s1(2) by (auto simp: threads_gone_def settled_def on_process_def k_def pid_def)
  obtain t where t: "CapabilityTable_ReleaseAll (ik_caps k pid) = Inr t" "ct_lookup t = Map.empty"
    using ReleaseAll_ok(2) [of "ik_caps k pid"] assms(1) by (auto simp: cleanup_ready_def k_def pid_def)
  have low: "fst e < kUserSpaceMax \<and> mm_limit (snd e) \<le> kUserSpaceMax" if "e \<in> set es1" for e
    using assms(1) s1(4) that by (auto simp: cleanup_ready_def)
  then have "\<not> range_straddled 0 es1" "\<not> range_straddled kUserSpaceMax es1"
    by (fastforce simp: range_straddled_def)+
  then obtain t' es' where t': "FreeAddressRange 0 kUserSpaceMax True (sy_spaces s1 v) (sy_machine s1) = Some (OK, (sy_spaces s1 v)\<lparr>as_mapping_tree := t'\<rparr>, sy_machine s1)"
      "mt_entries (sy_objects s1) t' es'" "set es' \<subseteq> {e \<in> set es1. \<not> (0 \<le> fst e \<and> fst e < kUserSpaceMax)}"
    using FreeAddressRange_dying [of "sy_objects s1" "sy_spaces s1 v" es1 0 kUserSpaceMax "sy_machine s1"] s1(3)
    by (auto simp: space_ok_def kUserSpaceMax_def)
  have "es' = []" using t'(3) low by (cases es') auto
  then show ?thesis using r(5,6) s1 more pr t t'(1,2)
    by (auto simp: Process_Cleanup_def Let_def on_process_def threads_gone_def space_ok_def k_def pid_def ts_def intro: exI [of _ t])
qed

text \<open>
  C10.  Cleaning up a process that has exited returns, when the cleanup thread is not a thread of that process, the
  capability table has been used, every mapping lies in user space and no thread that waits for an ending
  one is ending itself.  Then the process is finished and holds no capability and no mapping, every
  thread of it that was ending is finished, exactly the threads that waited for one of them are
  runnable and appended to the run queue in the order in which they waited, and a call that waited for the
  process answers the exit code.  The tables of all other processes, the other processes and all other threads
  are as before.
\<close>

theorem Process_Cleanup_releases:
  assumes "cleanup_ready p v es s"
  shows "\<exists>s'. Process_Cleanup p s = Some (Inr s') \<and>
    pr_state (sy_procs s' p) = P_FINISHED \<and> pr_vmas (sy_procs s' p) = None \<and> (\<forall>q. q \<noteq> p \<longrightarrow> sy_procs s' q = sy_procs s q) \<and>
    ct_lookup (ik_caps (sy_kernel s') (pr_id (sy_procs s p))) = Map.empty \<and>
    (\<forall>q. q \<noteq> pr_id (sy_procs s p) \<longrightarrow> ik_caps (sy_kernel s') q = ik_caps (sy_kernel s) q) \<and>
    mt_entries (sy_objects s') (as_mapping_tree (sy_spaces s' v)) [] \<and>
    (let ended = ending (pr_threads (sy_procs s p)) (sy_kernel s); woken = waiting_for (pr_threads (sy_procs s p)) (sy_kernel s)
     in (\<forall>t. th_state (thread_of t s') =
           (if t \<in> set ended then T_FINISHED else if t \<in> set woken then T_RUNNABLE else th_state (thread_of t s))) \<and>
        k_runnable_threads (sy_kernel s') = k_runnable_threads (sy_kernel s) @ woken) \<and>
    ProcessWait_resume p s' = (Some OK, [pr_exit_code (sy_procs s p)], s')"
  using Process_Cleanup_ok [OF assms] by (auto simp: Let_def thread_of_def ProcessWait_resume_def settled_def)

text \<open>Process 0, with id 7 and one thread 5 that has exited and for which thread 6 waits; the cleanup thread is thread 1.\<close>

definition exit_example :: "CapabilityTable \<Rightarrow> System" where
  "exit_example c = (system_example (ipc_example\<lparr>k_threads := (\<lambda>t.
         if t = 5 then (example_thread 0 T_CLEANUP)\<lparr>th_process := 7, th_user_stack_base := 0x7FFFFFF00000, th_blocked_threads := [6]\<rparr>
         else if t = 6 then (example_thread 0 T_BLOCKED)\<lparr>th_process := 8\<rparr> else (example_thread 0 T_RUNNING)\<lparr>th_process := 0\<rparr>),
       k_current_thread := 1, k_sleep_thread := 0, k_runnable_threads := [], ik_caps := (\<lambda>_. c)\<rparr>))
     \<lparr>sy_spaces := (\<lambda>_. AddressSpace_of_cr3 0x100000),
      sy_procs := (\<lambda>_. \<lparr>pr_id = 7, pr_vmas = Some 0, pr_state = P_CLEANUP, pr_exit_code = 42, pr_next_thread_id = 1, pr_threads = [5]\<rparr>),
      sy_cleanup := \<lparr>pc_semaphore = Semaphore_Create, pc_thread_list = [5], pc_process_list = [0]\<rparr>\<rparr>"

lemma exit_example_ready:
  assumes "ct_inv c" and "ct_used c"
  shows "cleanup_ready 0 0 [] (exit_example c)"
proof -
  have "mt_entries (\<lambda>_. ViewMemoryObject 0 0) (as_mapping_tree (AddressSpace_of_cr3 0x100000)) []"
    using mt_entries_new by (simp add: AddressSpace_of_cr3_def)
  then show ?thesis using assms
    by (simp add: cleanup_ready_def space_ok_def can_end_def stack_whole_def range_straddled_def exit_example_def system_example_def
        CurrentProcess_def current_thread_def thread_of_def example_thread_def kUserStackSize_def kUserSpaceMax_def IsDying_def)
qed

lemma used_table: "\<exists>c. ct_inv c \<and> ct_used c"
  using AddNewCapability_ok [of CapabilityTable_new] by (auto simp: hm_limit_def)

theorem Process_Cleanup_releases_witness:
  "\<exists>c s'. Process_Cleanup 0 (exit_example c) = Some (Inr s') \<and> th_state (thread_of 5 s') = T_FINISHED \<and> th_state (thread_of 6 s') = T_RUNNABLE \<and>
     k_runnable_threads (sy_kernel s') = [6] \<and> ProcessWait_resume 0 s' = (Some OK, [42], s')"
proof -
  obtain c where "ct_inv c" "ct_used c" using used_table by blast
  note e = Process_Cleanup_releases [OF exit_example_ready [OF this]]
  have v: "ending (pr_threads (sy_procs (exit_example c) 0)) (sy_kernel (exit_example c)) = [5]" "waiting_for (pr_threads (sy_procs (exit_example c) 0)) (sy_kernel (exit_example c)) = [6]"
    "k_runnable_threads (sy_kernel (exit_example c)) = []" "pr_exit_code (sy_procs (exit_example c) 0) = 42"
    by (simp_all add: exit_example_def system_example_def ending_def waiting_for_def example_thread_def)
  show ?thesis using e unfolding v Let_def by fastforce
qed

text \<open>
  C36.  A thread that exits and whose process exits before the cleanup thread has run: the round of the cleanup
  thread first cleans up the process with all its threads and drops its address space, and
  then dereferences the null pointer to it for the thread.
\<close>

theorem exit_after_thread_exit_faults:
  assumes "cleanup_ready p v es s" and "pc_process_list (sy_cleanup s) = [p]" and "pc_thread_list (sy_cleanup s) = t # ts"
    and "t \<in> set (pr_threads (sy_procs s p))"
  shows "CleanupLoop s = Some (Inl NullDeref)"
proof -
  let ?s = "s\<lparr>sy_cleanup := (sy_cleanup s)\<lparr>pc_process_list := []\<rparr>\<rparr>"
  have r: "cleanup_ready p v es ?s"
    using assms(1) by (simp add: cleanup_ready_def space_ok_def can_end_def current_thread_def thread_of_def)
  obtain s1 where s1: "Process_Cleanup p ?s = Some (Inr s1)" "th_process (thread_of t s1) = th_process (thread_of t s)" "current_thread s1 = current_thread s"
      "pr_vmas (sy_procs s1 p) = None" "sy_process_of s1 = sy_process_of s" "sy_cleanup s1 = (sy_cleanup s)\<lparr>pc_process_list := []\<rparr>"
    using Process_Cleanup_ok [OF r] by (auto simp: thread_of_def current_thread_def)
  have t: "sy_process_of s (th_process (thread_of t s)) = p" "current_thread s \<noteq> t" using assms(1,4) by (auto simp: cleanup_ready_def can_end_def)
  have "cleanup_processes s = Some (Inr s1)"
    using s1(1,6) assms(2) by (simp add: cleanup_processes.simps [of s] cleanup_processes.simps [of s1])
  moreover have "cleanup_threads s1 = Some (Inl NullDeref)"
    using s1 t assms(3) by (simp add: cleanup_threads.simps [of s1] Thread_Cleanup_def Let_def thread_of_def current_thread_def update_thread_def on_thread_def)
  ultimately show ?thesis using assms(2) by (simp add: CleanupLoop_def)
qed

theorem exit_after_thread_exit_faults_witness:
  "\<exists>c. ct_inv c \<and> CleanupLoop (exit_example c) = Some (Inl NullDeref)"
proof -
  obtain c where c: "ct_inv c" "ct_used c" using used_table by blast
  have "CleanupLoop (exit_example c) = Some (Inl NullDeref)"
    by (rule exit_after_thread_exit_faults [OF exit_example_ready [OF c]]) (simp_all add: exit_example_def)
  then show ?thesis using c by blast
qed

section \<open>The stack of the first thread\<close>

lemma unmapped_not_resident: "PagePhysIfResident cr3 v (UnmapPage cr3 v st) = 0"
proof -
  have clr: "\<not> present (e AND NOT PRESENT_BIT)" for e by (simp add: present_def and.assoc)
  show ?thesis
    by (auto simp: PagePhysIfResident_def UnmapPage_def Let_def Pml4Entry_def PageDirectoryPointerEntry_def PageDirectoryEntry_def PageTableEntry_def clr)
qed

text \<open>The tables are indexed with bits 12 to 47 of an address, so the end of user space and the start of the higher half share their entries.\<close>

lemma higher_half_entries:
  "Pml4Entry st cr3 0x800000000000 = Pml4Entry st cr3 0xFFFF800000000000"
  "PageDirectoryPointerEntry st e 0x800000000000 = PageDirectoryPointerEntry st e 0xFFFF800000000000"
  "PageDirectoryEntry st e 0x800000000000 = PageDirectoryEntry st e 0xFFFF800000000000"
  "PageTableEntry st e 0x800000000000 = PageTableEntry st e 0xFFFF800000000000"
  by (simp_all add: Pml4Entry_def PageDirectoryPointerEntry_def PageDirectoryEntry_def PageTableEntry_def ShiftForEntryIndexing_def)

text \<open>
  C35.  Freeing the stack of the first thread of a process, which ends where user space ends: the call answers \<open>OK\<close>, and
  unmapping the page of the limit as well has taken the first page of the higher half, where the
  kernel's direct map of physical memory starts, out of the page tables.
\<close>

theorem first_stack_unmaps_kernel_page:
  assumes "NewUserStack UserStackManager_new = Inr (base, m)" and "mt_entries objs (as_mapping_tree a) es" and "stack_whole es base"
  shows "\<exists>a' st'. AddressSpace_FreeUserStack base a st = Some (OK, a', st') \<and> PagePhysIfResident (as_cr3 a) 0xFFFF800000000000 st' = 0"
proof -
  have b: "base + kUserStackSize = kUserSpaceMax"
    using assms(1) by (simp add: NewUserStack_def UserStackManager_new_def LinkedList_empty_def LinkedList_new_def kUserStackMax_def kUserStackSize_def kUserStackMin_def kUserSpaceMax_def Let_def)
  have "UnmapPage c 0x800000000000 st = UnmapPage c 0xFFFF800000000000 st" for c st unfolding UnmapPage_def higher_half_entries ..
  then obtain t' st' where "FreeAddressRange base kUserSpaceMax False a st = Some (OK, a\<lparr>as_mapping_tree := t'\<rparr>, UnmapPage (as_cr3 a) 0xFFFF800000000000 st')"
    using FreeAddressRange_live [OF assms(2), of base kUserSpaceMax st] assms(3) by (auto simp: stack_whole_def b kUserSpaceMax_def)
  then show ?thesis by (simp add: AddressSpace_FreeUserStack_def b unmapped_not_resident)
qed

theorem first_stack_unmaps_kernel_page_witness:
  "\<exists>a' st'. AddressSpace_FreeUserStack 0x7FFFFFF00000 (AddressSpace_of_cr3 0x100000) machine_example = Some (OK, a', st') \<and> PagePhysIfResident 0x100000 0xFFFF800000000000 st' = 0"
proof -
  have "\<exists>m. NewUserStack UserStackManager_new = Inr (0x7FFFFFF00000, m)"
    by (simp add: NewUserStack_def UserStackManager_new_def LinkedList_empty_def LinkedList_new_def kUserStackMax_def kUserStackSize_def kUserStackMin_def Let_def)
  moreover have "mt_entries (\<lambda>_. ViewMemoryObject 0 0) (as_mapping_tree (AddressSpace_of_cr3 0x100000)) []" "as_cr3 (AddressSpace_of_cr3 0x100000) = 0x100000"
    using mt_entries_new by (simp_all add: AddressSpace_of_cr3_def)
  moreover have "stack_whole [] 0x7FFFFFF00000" by (simp add: stack_whole_def range_straddled_def kUserStackSize_def kUserSpaceMax_def)
  ultimately show ?thesis using first_stack_unmaps_kernel_page [of "0x7FFFFFF00000" _ _ "AddressSpace_of_cr3 0x100000" "[]" machine_example] by metis
qed

section \<open>The authority of a new process\<close>

lemma checked_cap_ok:
  assumes "grants (my_table (sy_kernel s)) cid T ob p" and "ct_inv (my_table (sy_kernel s))"
  shows "\<exists>c. checked_cap T cid p s = Inr (Inr (c, ob), s)"
proof -
  obtain c where "on_table (GetCapability cid) (sy_kernel s) = Inr (Some c, sy_kernel s)" "ValidateCapability T (Some c) p = OK" "Capability_obj T c = Inr ob"
    by (rule grants_checked [OF assms])
  then show ?thesis by (simp add: checked_cap_def on_kernel_value_def)
qed

lemma add_capability_ok:
  assumes "my_table (sy_kernel s) = t" and "ct_inv t" and "ct_given t < hm_limit"
  shows "\<exists>t'. add_capability T n p s = Inr (ct_next_cap_id t, s\<lparr>sy_kernel := with_table t' (sy_kernel s)\<rparr>) \<and> ct_inv t' \<and>
    ct_lookup t' = (ct_lookup t)(ct_next_cap_id t \<mapsto> \<lparr>cap_obj = \<lparr>ob_type = T, ob_ref = n\<rparr>, cap_permissions = p\<rparr>) \<and>
    ct_given t' = Suc (ct_given t) \<and> ct_next_cap_id t' = ct_next_cap_id t + 1"
  using AddNewCapability_ok [OF assms(2,3), of "\<lparr>ob_type = T, ob_ref = n\<rparr>" p] assms(1)
  by (auto simp: add_capability_def on_kernel_value_def on_table_with)

lemma move_bootstrap_ok:
  assumes inv: "ct_inv (my_table (sy_kernel s))" and cap: "ct_lookup (my_table (sy_kernel s)) b = Some cap" "HasPermissions cap kZionPerm_Transmit"
    and child: "ik_caps (sy_kernel s) (pr_id (sy_procs s p)) = CapabilityTable_new" "pr_id (sy_procs s p) \<noteq> CurrentProcess (sy_kernel s)"
  shows "\<exists>t tc. move_bootstrap b p ids s = Inr (OK, ids @ [0x100], s\<lparr>sy_kernel := (sy_kernel s)\<lparr>ik_caps :=
      (ik_caps (sy_kernel s))(CurrentProcess (sy_kernel s) := t, pr_id (sy_procs s p) := tc)\<rparr>\<rparr>) \<and>
    ct_lookup t = (ct_lookup (my_table (sy_kernel s)))(b := None) \<and> ct_lookup tc = [0x100 \<mapsto> cap]"
proof -
  let ?k = "sy_kernel s"
  obtain t where t: "ReleaseCapability b (my_table ?k) = Inr (Some cap, t)" "ct_lookup t = (ct_lookup (my_table ?k))(b := None)"
    using ReleaseCapability_ok [OF inv, of b] cap by auto
  have "ct_next_cap_id CapabilityTable_new = 0x100" by (simp add: CapabilityTable_new_def)
  then obtain tc where tc: "AddExistingCapability (Some cap) CapabilityTable_new = Inr (0x100, tc)" "ct_lookup tc = [0x100 \<mapsto> cap]"
    using AddExistingCapability_ok [of CapabilityTable_new cap] by (auto simp: hm_limit_def)
  show ?thesis using t tc cap child on_table_Get [OF inv, of b]
    by (auto simp: move_bootstrap_def on_kernel_value_def on_table_with Let_def with_table_def)
qed

lemma spawn_steps:
  assumes "checked_cap PROCESS proc_cap kZionPerm_SpawnProcess s = Inr (Inr c, s)" and "Process_Create s = Inr (p, s1)" and "InsertProcess p s1 = Inr s2"
    and "add_capability PROCESS p Process_DefaultPermissions s2 = Inr (i, s3)"
    and "add_capability ADDRESS_SPACE (the (pr_vmas (sy_procs s3 p))) AddressSpace_DefaultPermissions s3 = Inr (j, s4)" and "bootstrap_cap \<noteq> 0"
  shows "ProcessSpawn proc_cap bootstrap_cap s = move_bootstrap bootstrap_cap p [i, j] s4"
  using assms by (simp add: ProcessSpawn_def)

text \<open>
  C11.  Spawning a process with a bootstrap capability, where the caller may spawn and may transmit that
  capability, a frame for the page tables can be had and the id is not in use: the call returns,
  the new process is running without threads, its table holds exactly the bootstrap capability, with
  the permissions it had, and the table of the caller has lost it and has gained capabilities to the new process
  and to its address space under fresh ids.  No other table changes.
\<close>

theorem ProcessSpawn_grants:
  assumes inv: "ct_inv (my_table (sy_kernel s))" and rm: "Suc (ct_given (my_table (sy_kernel s))) < hm_limit"
    and may: "grants (my_table (sy_kernel s)) proc_cap PROCESS q kZionPerm_SpawnProcess"
    and boot: "bootstrap_cap \<noteq> 0" "ct_lookup (my_table (sy_kernel s)) bootstrap_cap = Some cap" "HasPermissions cap kZionPerm_Transmit"
    and space: "AddressSpace_new (sy_machine s) = Inr (a, st)"
    and map: "hm_inv Hash_u64 n (sy_proc_map s)" "n < hm_limit" "hm_lookup Hash_u64 (sy_proc_map s) (sy_next_id s) = None"
    and fresh: "sy_next_id s \<noteq> CurrentProcess (sy_kernel s)"
  shows "\<exists>i j b s'. ProcessSpawn proc_cap bootstrap_cap s = Inr (OK, [i, j, b], s') \<and>
    ct_lookup (ik_caps (sy_kernel s') (sy_next_id s)) = [b \<mapsto> cap] \<and>
    ct_lookup (my_table (sy_kernel s')) = ((ct_lookup (my_table (sy_kernel s)))
      (i \<mapsto> \<lparr>cap_obj = \<lparr>ob_type = PROCESS, ob_ref = Suc (ik_next_object (sy_kernel s))\<rparr>, cap_permissions = Process_DefaultPermissions\<rparr>,
       j \<mapsto> \<lparr>cap_obj = \<lparr>ob_type = ADDRESS_SPACE, ob_ref = ik_next_object (sy_kernel s)\<rparr>, cap_permissions = AddressSpace_DefaultPermissions\<rparr>))
      (bootstrap_cap := None) \<and>
    distinct [bootstrap_cap, i, j] \<and> ct_lookup (my_table (sy_kernel s)) i = None \<and> ct_lookup (my_table (sy_kernel s)) j = None \<and>
    (\<forall>pid. pid \<noteq> sy_next_id s \<longrightarrow> pid \<noteq> CurrentProcess (sy_kernel s) \<longrightarrow> ik_caps (sy_kernel s') pid = ik_caps (sy_kernel s) pid) \<and>
    sy_procs s' (Suc (ik_next_object (sy_kernel s))) = \<lparr>pr_id = sy_next_id s, pr_vmas = Some (ik_next_object (sy_kernel s)), pr_state = P_RUNNING,
      pr_exit_code = - 1, pr_next_thread_id = 0, pr_threads = []\<rparr> \<and>
    hm_lookup Hash_u64 (sy_proc_map s') = (hm_lookup Hash_u64 (sy_proc_map s))(sy_next_id s \<mapsto> Some (Suc (ik_next_object (sy_kernel s))))"
proof -
  let ?k = "sy_kernel s" and ?pid = "sy_next_id s" and ?v = "ik_next_object (sy_kernel s)" and ?t = "my_table (sy_kernel s)"
  let ?p = "Suc ?v" and ?i = "ct_next_cap_id ?t"
  let ?pr = "\<lparr>pr_id = ?pid, pr_vmas = Some ?v, pr_state = P_RUNNING, pr_exit_code = - 1, pr_next_thread_id = 0, pr_threads = []\<rparr>"
  obtain c where chk: "checked_cap PROCESS proc_cap kZionPerm_SpawnProcess s = Inr (Inr (c, q), s)" using checked_cap_ok [OF may inv] by blast
  obtain s1 where s1: "Process_Create s = Inr (?p, s1)" "sy_kernel s1 = ?k\<lparr>ik_next_object := Suc ?p, ik_caps := (ik_caps ?k)(?pid := CapabilityTable_new)\<rparr>"
      "sy_procs s1 = (sy_procs s)(?p := ?pr)" "sy_proc_map s1 = sy_proc_map s"
    using space by (simp add: Process_Create_def Let_def new_object_def)
  obtain m where m: "InsertProcess ?p s1 = Inr (s1\<lparr>sy_proc_map := m\<rparr>)" "hm_lookup Hash_u64 m = (hm_lookup Hash_u64 (sy_proc_map s))(?pid \<mapsto> Some ?p)"
    using hm.insert_fresh [OF map, of "Some ?p"] s1(3,4) by (auto simp: InsertProcess_def)
  let ?s2 = "s1\<lparr>sy_proc_map := m\<rparr>"
  have k2: "CurrentProcess (sy_kernel ?s2) = CurrentProcess ?k" "my_table (sy_kernel ?s2) = ?t" using s1(2) fresh by (simp_all add: CurrentProcess_def)
  obtain t1 where t1: "add_capability PROCESS ?p Process_DefaultPermissions ?s2 = Inr (?i, ?s2\<lparr>sy_kernel := with_table t1 (sy_kernel ?s2)\<rparr>)" "ct_inv t1"
      "ct_lookup t1 = (ct_lookup ?t)(?i \<mapsto> \<lparr>cap_obj = \<lparr>ob_type = PROCESS, ob_ref = ?p\<rparr>, cap_permissions = Process_DefaultPermissions\<rparr>)"
      "ct_given t1 = Suc (ct_given ?t)" "ct_next_cap_id t1 = ?i + 1"
    using add_capability_ok [OF k2(2) inv, of PROCESS ?p Process_DefaultPermissions] rm by auto
  let ?s3 = "?s2\<lparr>sy_kernel := with_table t1 (sy_kernel ?s2)\<rparr>"
  have k3: "CurrentProcess (sy_kernel ?s3) = CurrentProcess ?k" "my_table (sy_kernel ?s3) = t1" "the (pr_vmas (sy_procs ?s3 ?p)) = ?v"
    using k2 s1(3) by simp_all
  obtain t2 where t2: "add_capability ADDRESS_SPACE ?v AddressSpace_DefaultPermissions ?s3 = Inr (?i + 1, ?s3\<lparr>sy_kernel := with_table t2 (sy_kernel ?s3)\<rparr>)" "ct_inv t2"
      "ct_lookup t2 = (ct_lookup t1)(?i + 1 \<mapsto> \<lparr>cap_obj = \<lparr>ob_type = ADDRESS_SPACE, ob_ref = ?v\<rparr>, cap_permissions = AddressSpace_DefaultPermissions\<rparr>)"
    using add_capability_ok [OF k3(2) t1(2), of ADDRESS_SPACE ?v AddressSpace_DefaultPermissions] t1(4,5) rm by auto
  let ?s4 = "?s3\<lparr>sy_kernel := with_table t2 (sy_kernel ?s3)\<rparr>"
  have lt: "ct_lookup ?t x = Some d \<Longrightarrow> x \<noteq> ?i" for x d using ct_lookup_range [OF inv] by auto
  have lt1: "ct_lookup t1 x = Some d \<Longrightarrow> x \<noteq> ?i + 1" for x d using ct_lookup_range [OF t1(2)] unfolding t1(5) by auto
  have b: "bootstrap_cap \<noteq> ?i" "bootstrap_cap \<noteq> ?i + 1" using lt [OF boot(2)] lt1 [of bootstrap_cap cap] boot(2) t1(3) by auto
  have ne: "?i \<noteq> ?i + 1" by simp
  have none: "ct_lookup ?t ?i = None" "ct_lookup t1 (?i + 1) = None" using lt lt1 by (metis option.exhaust)+
  have none': "ct_lookup ?t (?i + 1) = None" using none(2) ne unfolding t1(3) by (simp split: if_splits)
  have b4: "my_table (sy_kernel ?s4) = t2" "ik_caps (sy_kernel ?s4) (pr_id (sy_procs ?s4 ?p)) = CapabilityTable_new" "pr_id (sy_procs ?s4 ?p) = ?pid" "CurrentProcess (sy_kernel ?s4) = CurrentProcess ?k"
    using k3 s1(2,3) fresh by (simp_all add: CurrentProcess_def)
  have "ct_lookup t2 bootstrap_cap = Some cap" using b t2(3) t1(3) boot(2) by simp
  then obtain t3 tc where mv: "move_bootstrap bootstrap_cap ?p [?i, ?i + 1] ?s4 = Inr (OK, [?i, ?i + 1, 0x100], ?s4\<lparr>sy_kernel := (sy_kernel ?s4)\<lparr>ik_caps :=
      (ik_caps (sy_kernel ?s4))(CurrentProcess (sy_kernel ?s4) := t3, pr_id (sy_procs ?s4 ?p) := tc)\<rparr>\<rparr>)"
      "ct_lookup t3 = (ct_lookup t2)(bootstrap_cap := None)" "ct_lookup tc = [0x100 \<mapsto> cap]"
    using move_bootstrap_ok [of ?s4 bootstrap_cap cap ?p "[?i, ?i + 1]"] t2(2) boot(3) b4 fresh by auto
  show ?thesis
    unfolding spawn_steps [OF chk s1(1) m(1) t1(1) _ boot(1), unfolded k3, OF t2(1)] mv(1)
    by (intro exI conjI, rule refl)
       (use mv(2,3) t1(3) t2(3) b ne none none' s1(2,3) m(2) fresh in \<open>simp_all add: CurrentProcess_def\<close>)
qed

section \<open>Unmapping memory\<close>

text \<open>
  C37.  \<open>AddressSpaceUnmap\<close> on a range that cuts no mapping answers \<open>OK\<close>, and no address of the range has a
  mapping any more; but because the call passes \<open>is_dying_proc\<close>, every page of the range that was resident
  still is, so the process goes on reading and writing the frames.
\<close>

theorem AddressSpaceUnmap_keeps_pages:
  assumes inv: "ct_inv (my_table (sy_kernel s))" and may: "grants (my_table (sy_kernel s)) vmas_cap ADDRESS_SPACE v kZionPerm_Write"
    and es: "mt_entries (sy_objects s) (as_mapping_tree (sy_spaces s v)) es"
    and rng: "lower_addr < upper_addr" "\<not> range_straddled lower_addr es" "\<not> range_straddled upper_addr es"
  shows "\<exists>s'. AddressSpaceUnmap vmas_cap lower_addr upper_addr s = Some (Inr (OK, s')) \<and>
    (\<forall>a < 0xFFFFFFFFFFFFFFFF. lower_addr \<le> a \<longrightarrow> a < upper_addr \<longrightarrow>
       GetMemoryMappingForAddr (sy_objects s') a (as_mapping_tree (sy_spaces s' v)) = Some None) \<and>
    (\<forall>a. PagePhysIfResident (as_cr3 (sy_spaces s' v)) a (sy_machine s') = PagePhysIfResident (as_cr3 (sy_spaces s v)) a (sy_machine s))"
proof -
  obtain c where chk: "checked_cap ADDRESS_SPACE vmas_cap kZionPerm_Write s = Inr (Inr (c, v), s)" using checked_cap_ok [OF may inv] by blast
  have bl: "\<not> upper_addr \<le> lower_addr" using rng(1) by simp
  obtain t' where t': "FreeMemoryRange lower_addr upper_addr (as_mapping_tree (sy_spaces s v)) = Some (OK, t')"
    using FreeMemoryRange_ok [OF es, of upper_addr lower_addr] bl rng(2,3) by auto
  have rep: "mt_rep (sy_objects s) (as_mapping_tree (sy_spaces s v)) (mt_lookup es)" using es by (auto simp: mt_rep_def)
  show ?thesis using chk t' mt.free_then_find [OF rep t'] by (auto simp: AddressSpaceUnmap_def FreeAddressRange_def Let_def)
qed

section \<open>An example\<close>

text \<open>A process with a capability to itself, one to its address space and one to a port.\<close>

definition spawn_example :: "CapabilityTable \<Rightarrow> System" where
  "spawn_example t = (system_example (with_table t ipc_example))\<lparr>sy_spaces := (\<lambda>_. AddressSpace_of_cr3 0x100000)\<rparr>"

abbreviation port_cap :: Capability where
  "port_cap \<equiv> \<lparr>cap_obj = \<lparr>ob_type = PORT, ob_ref = 0\<rparr>, cap_permissions = kZionPerm_Transmit\<rparr>"

lemma example_table:
  "\<exists>t. ct_inv t \<and> ct_given t = 3 \<and> ct_lookup t 0x102 = Some port_cap \<and>
     grants t 0x100 PROCESS 0 kZionPerm_SpawnProcess \<and> grants t 0x101 ADDRESS_SPACE 0 kZionPerm_Write"
proof -
  let ?pc = "\<lparr>cap_obj = \<lparr>ob_type = PROCESS, ob_ref = 0\<rparr>, cap_permissions = kZionPerm_SpawnProcess\<rparr>"
  let ?ac = "\<lparr>cap_obj = \<lparr>ob_type = ADDRESS_SPACE, ob_ref = 0\<rparr>, cap_permissions = kZionPerm_Write\<rparr>"
  have n: "ct_next_cap_id CapabilityTable_new = 0x100" by (simp add: CapabilityTable_new_def)
  obtain t1 where t1: "ct_inv t1" "ct_lookup t1 = [0x100 \<mapsto> ?pc]" "ct_given t1 = 1" "ct_next_cap_id t1 = 0x101"
    using AddExistingCapability_ok [of CapabilityTable_new ?pc] by (auto simp: hm_limit_def n)
  obtain t2 where t2: "ct_inv t2" "ct_lookup t2 = [0x100 \<mapsto> ?pc, 0x101 \<mapsto> ?ac]" "ct_given t2 = 2" "ct_next_cap_id t2 = 0x102"
    using AddExistingCapability_ok [of t1 ?ac] t1 by (auto simp: hm_limit_def)
  obtain t3 where "ct_inv t3" "ct_lookup t3 = [0x100 \<mapsto> ?pc, 0x101 \<mapsto> ?ac, 0x102 \<mapsto> port_cap]" "ct_given t3 = 3"
    using AddExistingCapability_ok [of t2 port_cap] t2 by (auto simp: hm_limit_def)
  then show ?thesis by (intro exI [of _ t3]) (simp add: grants_def HasPermissions_def)
qed

lemma spawn_example_simps [simp]:
  "ik_caps (sy_kernel (spawn_example t)) 1 = t" "sy_next_id (spawn_example t) = 2" "CurrentProcess (sy_kernel (spawn_example t)) = 1"
  "sy_machine (spawn_example t) = machine_example" "sy_proc_map (spawn_example t) = HashMap_new" "sy_objects (spawn_example t) = (\<lambda>_. ViewMemoryObject 0 0)"
  "sy_spaces (spawn_example t) v = AddressSpace_of_cr3 0x100000"
  by (simp_all add: spawn_example_def system_example_def CurrentProcess_def ipc_example_simps)

theorem ProcessSpawn_grants_witness:
  "\<exists>t i j b s'. ProcessSpawn 0x100 0x102 (spawn_example t) = Inr (OK, [i, j, b], s') \<and> ct_lookup (ik_caps (sy_kernel s') 2) = [b \<mapsto> port_cap] \<and>
     ct_lookup (my_table (sy_kernel s')) 0x102 = None"
proof -
  obtain t where t: "ct_inv t" "ct_given t = 3" "ct_lookup t 0x102 = Some port_cap" "grants t 0x100 PROCESS 0 kZionPerm_SpawnProcess" using example_table by blast
  have "\<exists>a st. AddressSpace_new machine_example = Inr (a, st)"
    by (simp add: AddressSpace_new_def AllocateAndZeroPage_def machine_example_def AllocatePage_def Pmm_AllocatePage_def AddMemoryRegion_def Pmm_empty_def
        LinkedList_new_def LinkedList_PushFront_def PhysMem_boot_def skip_empty_blocks.simps LinkedList_PeekFront_def set_front_def Let_def)
  then obtain a st where a: "AddressSpace_new machine_example = Inr (a, st)" by blast
  have none: "hm_lookup Hash_u64 HashMap_new (2 :: u64) = (None :: nat option option)" by simp
  show ?thesis
    using ProcessSpawn_grants [of "spawn_example t" "0x100" 0 "0x102" port_cap a st 0] t a none
    by (fastforce simp: hm_limit_def HasPermissions_def)
qed

theorem AddressSpaceUnmap_keeps_pages_witness:
  "\<exists>t s'. AddressSpaceUnmap 0x101 0x400000 0x402000 (spawn_example t) = Some (Inr (OK, s')) \<and>
     PagePhysIfResident (as_cr3 (sy_spaces s' 0)) 0x400000 (sy_machine s') = PagePhysIfResident 0x100000 0x400000 machine_example"
proof -
  obtain t where t: "ct_inv t" "grants t 0x101 ADDRESS_SPACE 0 kZionPerm_Write" using example_table by blast
  have "mt_entries (\<lambda>_. ViewMemoryObject 0 0) (as_mapping_tree (AddressSpace_of_cr3 0x100000)) []" "as_cr3 (AddressSpace_of_cr3 0x100000) = 0x100000"
    using mt_entries_new by (simp_all add: AddressSpace_of_cr3_def)
  then show ?thesis
    using AddressSpaceUnmap_keeps_pages [of "spawn_example t" "0x101" 0 "[]" "0x400000" "0x402000"] t by (auto simp: range_straddled_def)
qed

end
