(* ===== verification/Zion_KernelHeap.thy ===== *)
theory Zion_KernelHeap
  imports Zion_AddressSpace
begin

text \<open>
  The kernel heap (\<open>zion/memory/kernel_heap.h\<close>, \<open>zion/memory/kernel_heap.cpp\<close>) and its slab allocators
  (\<open>zion/memory/slab_allocator.h\<close>, \<open>zion/memory/slab_allocator.cpp\<close>).

  The memory of the heap is a function from addresses to bytes.  The list of free elements of a slab runs
  through the elements themselves, so it is part of that memory; the fields of the slab object at the start
  of its page are kept in a record for each slab, named by the address of the page.  The list of
  slabs of an allocator is a HOL list.
\<close>

section \<open>Slabs\<close>

definition load_ptr :: "(u64 \<Rightarrow> u8) \<Rightarrow> u64 \<Rightarrow> u64" where
  "load_ptr m a = of_le (map (\<lambda>i. m (a + of_nat i)) [0..<8])"

definition store_ptr :: "u64 \<Rightarrow> u64 \<Rightarrow> (u64 \<Rightarrow> u8) \<Rightarrow> u64 \<Rightarrow> u8" where
  "store_ptr a v m = (\<lambda>x. if unat (x - a) < 8 then to_le 8 v ! unat (x - a) else m x)"

definition kSlabSize :: u64 where "kSlabSize = 4 * 0x400"
definition kSlabMask :: u64 where "kSlabMask = NOT (kSlabSize - 1)"

text \<open>A slab object: the pointer to its virtual functions, its reference count, two links and three fields of eight bytes each.\<close>

definition sizeof_Slab :: u64 where "sizeof_Slab = 56"

record Slab =
  sl_elem_size :: u64
  sl_num_allocated :: u64
  sl_first_free :: u64

record SlabMem =
  sm_bytes :: "u64 \<Rightarrow> u8"
  sm_slab :: "u64 \<Rightarrow> Slab"

partial_function (option) slab_init_loop :: "u64 \<Rightarrow> u64 \<Rightarrow> u64 \<Rightarrow> u64 \<Rightarrow> (u64 \<Rightarrow> u8) \<Rightarrow> (u64 \<Rightarrow> u8) option" where
  "slab_init_loop elem_size max_entry entry entry_addr m =
     (if entry_addr < max_entry
      then slab_init_loop elem_size max_entry entry_addr (entry_addr + elem_size) (store_ptr entry entry_addr (store_ptr entry_addr 0 m))
      else Some m)"

definition Slab_new :: "u64 \<Rightarrow> u64 \<Rightarrow> SlabMem \<Rightarrow> SlabMem run option" where
  "Slab_new this elem_size sm =
     (if elem_size = 0 then Some (Inl DivByZero)
      else let first_elem_offset = (sizeof_Slab - 1) div elem_size + 1;
               entry_addr = this + first_elem_offset * elem_size;
               max_entry = this + kSlabSize
           in map_option (\<lambda>m. Inr (sm\<lparr>sm_bytes := m,
                  sm_slab := (sm_slab sm)(this := \<lparr>sl_elem_size = elem_size, sl_num_allocated = 0, sl_first_free = entry_addr\<rparr>)\<rparr>))
                (slab_init_loop elem_size max_entry entry_addr (entry_addr + elem_size) (sm_bytes sm)))"

definition Slab_IsFull :: "Slab \<Rightarrow> bool" where
  "Slab_IsFull sl \<longleftrightarrow> sl_first_free sl = 0"

definition Slab_IsContained :: "u64 \<Rightarrow> u64 \<Rightarrow> bool" where
  "Slab_IsContained this uaddr \<longleftrightarrow> uaddr > this + 8 \<and> uaddr < this + kSlabSize"

definition Slab_Allocate :: "u64 \<Rightarrow> SlabMem \<Rightarrow> (u64 \<times> SlabMem) run" where
  "Slab_Allocate this sm =
     (let sl = sm_slab sm this; to_return = sl_first_free sl
      in if Slab_IsFull sl then Inl (Panic ''Allocating from full slab.'')
         else Inr (to_return, sm\<lparr>sm_slab := (sm_slab sm)(this := sl\<lparr>sl_first_free := load_ptr (sm_bytes sm) to_return, sl_num_allocated := sl_num_allocated sl + 1\<rparr>)\<rparr>))"

definition Slab_Free :: "u64 \<Rightarrow> u64 \<Rightarrow> SlabMem \<Rightarrow> SlabMem run" where
  "Slab_Free this vaddr sm =
     (let sl = sm_slab sm this
      in if \<not> Slab_IsContained this vaddr then Inl (Panic ''Freeing non-contained address from slab.'')
         else if vaddr AND NOT (sl_elem_size sl - 1) \<noteq> vaddr then Inl (Panic ''Freeing non-aligned address'')
         else Inr (sm\<lparr>sm_bytes := store_ptr vaddr (sl_first_free sl) (sm_bytes sm),
                     sm_slab := (sm_slab sm)(this := sl\<lparr>sl_first_free := vaddr, sl_num_allocated := sl_num_allocated sl - 1\<rparr>)\<rparr>))"

section \<open>Slab allocators\<close>

record SlabAllocator =
  sa_elem_size :: u64
  sa_slabs :: "u64 list"

definition SlabAllocator_new :: "u64 \<Rightarrow> SlabAllocator" where
  "SlabAllocator_new elem_size = \<lparr>sa_elem_size = elem_size, sa_slabs = []\<rparr>"

fun find_slab :: "SlabMem \<Rightarrow> u64 list \<Rightarrow> u64 option" where
  "find_slab sm [] = None"
| "find_slab sm (b # bs) = (if Slab_IsFull (sm_slab sm b) then find_slab sm bs else Some b)"

text \<open>What an allocation needs beside the allocator: the memory, the manager of the kernel's address space and the machine.\<close>

type_synonym Backing = "SlabMem \<times> KernelVmm \<times> Machine"

definition SlabAllocator_Allocate :: "SlabAllocator \<Rightarrow> Backing \<Rightarrow> ((ErrorCode + u64) \<times> SlabAllocator \<times> Backing) run option" where
  "SlabAllocator_Allocate sa = (\<lambda>(sm, v, st).
     case find_slab sm (sa_slabs sa) of
       Some slab \<Rightarrow> Some (run_map (\<lambda>(p, sm). (Inr p, sa, sm, v, st)) (Slab_Allocate slab sm))
     | None \<Rightarrow>
         opt_run_bind (AcquireSlabHeapRegion kSlabSize v st) (\<lambda>(next_slab, v, st).
         opt_run_bind (Slab_new next_slab (sa_elem_size sa) sm) (\<lambda>sm.
         let sa = sa\<lparr>sa_slabs := next_slab # sa_slabs sa\<rparr>
         in Some (run_map (\<lambda>(p, sm). (Inr p, sa, sm, v, st)) (Slab_Allocate next_slab sm)))))"

definition SlabCount :: "SlabAllocator \<Rightarrow> u64" where
  "SlabCount sa = fold (\<lambda>_ count. count + 1) (sa_slabs sa) 0"

definition SlabAllocator_Allocations :: "SlabAllocator \<Rightarrow> SlabMem \<Rightarrow> u64" where
  "SlabAllocator_Allocations sa sm = fold (\<lambda>b count. count + sl_num_allocated (sm_slab sm b)) (sa_slabs sa) 0"

definition SlabFree :: "u64 \<Rightarrow> SlabMem \<Rightarrow> SlabMem run" where
  "SlabFree addr = Slab_Free (addr AND kSlabMask) addr"

section \<open>The heap\<close>

record KernelHeap =
  kh_next_addr :: u64
  kh_upper_bound :: u64
  kh_alloc_count :: u64
  kh_slab_8 :: SlabAllocator
  kh_slab_16 :: SlabAllocator
  kh_slab_32 :: SlabAllocator
  kh_slab_64 :: SlabAllocator
  kh_slab_128 :: SlabAllocator

definition KernelHeap_new :: KernelHeap where
  "KernelHeap_new = \<lparr>kh_next_addr = kKernelBuddyHeapStart, kh_upper_bound = kKernelBuddyHeapEnd, kh_alloc_count = 0,
     kh_slab_8 = SlabAllocator_new 8, kh_slab_16 = SlabAllocator_new 16, kh_slab_32 = SlabAllocator_new 32,
     kh_slab_64 = SlabAllocator_new 64, kh_slab_128 = SlabAllocator_new 128\<rparr>"

text \<open>One of the five attempts to take an element from a slab allocator.\<close>

definition try_slab ::
    "u64 \<Rightarrow> (KernelHeap \<Rightarrow> SlabAllocator) \<Rightarrow> (SlabAllocator \<Rightarrow> KernelHeap \<Rightarrow> KernelHeap) \<Rightarrow> u64 \<Rightarrow>
     (KernelHeap \<times> Backing \<Rightarrow> (u64 \<times> KernelHeap \<times> Backing) run option) \<Rightarrow> KernelHeap \<times> Backing \<Rightarrow> (u64 \<times> KernelHeap \<times> Backing) run option" where
  "try_slab n get put sz rest = (\<lambda>(h, bk).
     if sz \<le> n
     then opt_run_bind (SlabAllocator_Allocate (get h) bk) (\<lambda>(ptr_or, sa, bk).
          case ptr_or of Inr p \<Rightarrow> Some (Inr (p, put sa h, bk)) | Inl _ \<Rightarrow> rest (put sa h, bk))
     else rest (h, bk))"

definition bump_allocate :: "u64 \<Rightarrow> KernelHeap \<times> Backing \<Rightarrow> (u64 \<times> KernelHeap \<times> Backing) run option" where
  "bump_allocate sz = (\<lambda>(h, sm, v, st).
     if kh_next_addr h + sz \<ge> kh_upper_bound h then Some (Inl (Panic ''Kernel Heap Overrun (next, size, max): {x}, {x}, {x}''))
     else opt_run_bind (EnsureResident (kh_next_addr h) sz st) (\<lambda>st.
          let address = kh_next_addr h;
              n = kh_next_addr h + sz;
              n = (if n AND 0x7 \<noteq> 0 then (n AND NOT 0x7) + 0x8 else n)
          in Some (Inr (address, h\<lparr>kh_alloc_count := kh_alloc_count h + 1, kh_next_addr := n\<rparr>, sm, v, st))))"

definition KernelHeap_Allocate :: "u64 \<Rightarrow> KernelHeap \<times> Backing \<Rightarrow> (u64 \<times> KernelHeap \<times> Backing) run option" where
  "KernelHeap_Allocate sz =
     try_slab 8 kh_slab_8 (\<lambda>sa h. h\<lparr>kh_slab_8 := sa\<rparr>) sz
     (try_slab 16 kh_slab_16 (\<lambda>sa h. h\<lparr>kh_slab_16 := sa\<rparr>) sz
     (try_slab 32 kh_slab_32 (\<lambda>sa h. h\<lparr>kh_slab_32 := sa\<rparr>) sz
     (try_slab 64 kh_slab_64 (\<lambda>sa h. h\<lparr>kh_slab_64 := sa\<rparr>) sz
     (try_slab 128 kh_slab_128 (\<lambda>sa h. h\<lparr>kh_slab_128 := sa\<rparr>) sz
     (bump_allocate sz)))))"

text \<open>The bucket of the statistics a size is counted in.\<close>

function record_index :: "u64 \<Rightarrow> nat \<Rightarrow> nat" where
  "record_index sz index = (if sz \<noteq> 0 \<and> index < 5 then record_index (drop_bit 1 sz) (Suc index) else index)"
  by pat_completeness auto

termination
  by (relation "measure (\<lambda>(sz, index). 5 - index)") auto

declare record_index.simps [simp del]

definition RecordSize :: "u64 \<Rightarrow> u64 list \<Rightarrow> u64 list" where
  "RecordSize sz distributions = (let index = record_index (drop_bit 8 (sz - 1)) 0 in distributions[index := distributions ! index + 1])"

text \<open>The operators of the language.  \<open>None\<close> is a heap that does not exist yet.\<close>

definition GetKernelHeap :: "KernelHeap option \<Rightarrow> KernelHeap run" where
  "GetKernelHeap h = (case h of None \<Rightarrow> Inl (Panic ''Kernel Heap not initialized.'') | Some h \<Rightarrow> Inr h)"

definition InitMemory :: "u64 \<Rightarrow> u64 \<Rightarrow> (u64 \<Rightarrow> u8) \<Rightarrow> u64 \<Rightarrow> u8" where
  "InitMemory addr sz m = fold (\<lambda>i m. m(addr + of_nat i := 0xAB)) [0..<unat sz] m"

definition IsSlab :: "u64 \<Rightarrow> bool" where
  "IsSlab uaddr \<longleftrightarrow> uaddr \<ge> kKernelSlabHeapStart \<and> uaddr < kKernelSlabHeapEnd"

definition operator_new :: "u64 \<Rightarrow> KernelHeap option \<times> Backing \<Rightarrow> (u64 \<times> KernelHeap option \<times> Backing) run option" where
  "operator_new sz = (\<lambda>(g, bk).
     opt_run_bind (Some (GetKernelHeap g)) (\<lambda>h.
     opt_run_bind (KernelHeap_Allocate sz (h, bk)) (\<lambda>(addr, h, sm, v, st).
     Some (Inr (addr, Some h, sm\<lparr>sm_bytes := InitMemory addr sz (sm_bytes sm)\<rparr>, v, st)))))"

definition operator_delete :: "u64 \<Rightarrow> SlabMem \<Rightarrow> SlabMem run" where
  "operator_delete addr sm = (if IsSlab addr then SlabFree addr sm else Inr sm)"

section \<open>Pointers in memory\<close>

definition in_block :: "u64 \<Rightarrow> nat \<Rightarrow> u64 \<Rightarrow> bool" where
  "in_block a n x \<longleftrightarrow> unat a \<le> unat x \<and> unat x < unat a + n"

lemma unat_add_small: "unat (a :: u64) + i < 2 ^ 64 \<Longrightarrow> unat (a + of_nat i) = unat a + i"
  by (subst unat_add_noof) (simp_all add: unat_of_nat_u64)

lemma load_store: "load_ptr (store_ptr a v m) a = v"
proof -
  have "map (\<lambda>i. store_ptr a v m (a + of_nat i)) [0..<8] = map (\<lambda>i. to_le 8 v ! i) [0..<8]"
    by (rule map_cong) (auto simp: store_ptr_def unat_of_nat_u64)
  also have "\<dots> = to_le 8 v" using map_nth [of "to_le 8 v"] by simp
  finally show ?thesis using take_bit_word_eq_self [of 64 v] by (simp add: load_ptr_def of_to_le)
qed

lemma load_agree:
  assumes "\<And>x. in_block a 8 x \<Longrightarrow> m' x = m x" and "unat a + 8 \<le> 2 ^ 64"
  shows "load_ptr m' a = load_ptr m a"
proof -
  have "m' (a + of_nat i) = m (a + of_nat i)" if "i < 8" for i
    using assms unat_add_small [of a i] that by (intro assms(1)) (simp add: in_block_def)
  then have "map (\<lambda>i. m' (a + of_nat i)) [0..<8] = map (\<lambda>i. m (a + of_nat i)) [0..<8]" by (intro map_cong) auto
  then show ?thesis by (simp only: load_ptr_def)
qed

lemma store_outside:
  assumes "\<not> in_block a 8 x" and "unat a + 8 \<le> 2 ^ 64"
  shows "store_ptr a v m x = m x"
proof -
  have "8 \<le> unat (x - a)"
  proof (cases "a \<le> x")
    case True
    then show ?thesis using assms(1) by (simp add: unat_sub_le in_block_def word_le_nat_alt)
  next
    case False
    then have "unat (x - a) = 2 ^ 64 + unat x - unat a"
      by (simp add: unat_sub_if' word_le_nat_alt)
    then show ?thesis using assms(2) False unat_lt_64 [of a] by (simp add: word_le_nat_alt)
  qed
  then show ?thesis by (simp add: store_ptr_def)
qed

fun free_path :: "(u64 \<Rightarrow> u8) \<Rightarrow> u64 \<Rightarrow> u64 list \<Rightarrow> bool" where
  "free_path m p [] \<longleftrightarrow> p = 0"
| "free_path m p (a # as) \<longleftrightarrow> p = a \<and> a \<noteq> 0 \<and> free_path m (load_ptr m a) as"

lemma free_path_agree:
  assumes "free_path m p as" and "\<And>a x. a \<in> set as \<Longrightarrow> in_block a 8 x \<Longrightarrow> m' x = m x" and "\<And>a. a \<in> set as \<Longrightarrow> unat a + 8 \<le> 2 ^ 64"
  shows "free_path m' p as"
  using assms
proof (induction as arbitrary: p)
  case (Cons a as)
  have "load_ptr m' a = load_ptr m a" by (rule load_agree) (use Cons.prems(2,3) [of a] in \<open>simp_all\<close>)
  moreover have "free_path m' (load_ptr m a) as" by (rule Cons.IH) (use Cons.prems in auto)
  ultimately show ?case using Cons.prems(1) by simp
qed simp

section \<open>A new slab\<close>

fun addrs :: "u64 \<Rightarrow> u64 \<Rightarrow> nat \<Rightarrow> u64 list" where
  "addrs p e 0 = []"
| "addrs p e (Suc k) = p # addrs (p + e) e k"

lemma addrs_at:
  assumes "a \<in> set (addrs p e k)" and "unat p + unat e * k < 2 ^ 64"
  shows "\<exists>i < k. unat a = unat p + unat e * i"
  using assms
proof (induction k arbitrary: p)
  case (Suc k)
  have p: "unat (p + e) = unat p + unat e" using Suc.prems(2) by (intro unat_add_noof) simp
  show ?case
  proof (cases "a = p")
    case False
    then obtain i where "i < k" "unat a = unat (p + e) + unat e * i" using Suc p by force
    then show ?thesis using p by (intro exI [of _ "Suc i"]) simp
  qed auto
qed simp

lemma distinct_addrs: "0 < unat e \<Longrightarrow> unat p + unat e * k < 2 ^ 64 \<Longrightarrow> distinct (addrs p e k)"
proof (induction k arbitrary: p)
  case (Suc k)
  have p: "unat (p + e) = unat p + unat e" using Suc.prems(2) by (intro unat_add_noof) simp
  have "p \<notin> set (addrs (p + e) e k)" using addrs_at [of p "p + e" e k] Suc.prems p by auto
  then show ?case using Suc p by simp
qed simp

lemma slab_init_ok:
  assumes "8 \<le> unat e" and "0 < unat p" and "unat p + unat e * Suc k = unat M" and "unat M + unat e < 2 ^ 64" and "k = 0 \<Longrightarrow> load_ptr m p = 0"
  shows "\<exists>m'. slab_init_loop e M p (p + e) m = Some m' \<and> free_path m' p (addrs p e (Suc k)) \<and>
    (\<forall>x. \<not> (unat p \<le> unat x \<and> unat x < unat M) \<longrightarrow> m' x = m x)"
  using assms
proof (induction k arbitrary: p m)
  case 0
  have "unat (p + e) = unat p + unat e" using 0 by (intro unat_add_noof) simp
  then have "\<not> p + e < M" using 0(3) by (simp add: word_less_nat_alt)
  then show ?case using 0 by (simp add: slab_init_loop.simps word_gt_0_no unat_gt_0)
next
  case (Suc k)
  let ?m = "store_ptr p (p + e) (store_ptr (p + e) 0 m)"
  have q: "unat (p + e) = unat p + unat e" using Suc.prems by (intro unat_add_noof) simp
  then have less: "p + e < M" using Suc.prems(1,3) by (simp add: word_less_nat_alt)
  have far: "unat p + 8 \<le> 2 ^ 64" "unat (p + e) + 8 \<le> 2 ^ 64" using q Suc.prems(1,3,4) by simp_all
  have "load_ptr ?m (p + e) = load_ptr (store_ptr (p + e) 0 m) (p + e)"
    by (rule load_agree [OF store_outside]) (use q far Suc.prems(1) in \<open>auto simp: in_block_def\<close>)
  then have "load_ptr ?m (p + e) = 0" by (simp add: load_store)
  then obtain m' where m': "slab_init_loop e M (p + e) (p + e + e) ?m = Some m'" "free_path m' (p + e) (addrs (p + e) e (Suc k))"
      "\<forall>x. \<not> (unat (p + e) \<le> unat x \<and> unat x < unat M) \<longrightarrow> m' x = ?m x"
    using Suc.IH [of "p + e" ?m] Suc.prems q by auto
  have "load_ptr m' p = load_ptr ?m p" by (rule load_agree) (use m'(3) q far Suc.prems(1) in \<open>auto simp: in_block_def\<close>)
  then have "load_ptr m' p = p + e" by (simp add: load_store)
  moreover have "m' x = m x" if "\<not> (unat p \<le> unat x \<and> unat x < unat M)" for x
  proof -
    have "?m x = m x" using that q far Suc.prems(1,3) by (subst store_outside, auto simp: in_block_def)+
    then show ?thesis using that m'(3) q by simp
  qed
  ultimately show ?case using m'(1,2) less Suc.prems(2) by (subst slab_init_loop.simps) (auto simp: unat_gt_0)
qed

text \<open>The elements of a slab of element size \<open>e\<close> in the page \<open>b\<close>: the multiples of \<open>e\<close> behind the slab object.\<close>

definition elem_at :: "nat \<Rightarrow> u64 \<Rightarrow> u64 \<Rightarrow> bool" where
  "elem_at e b a \<longleftrightarrow> unat b + 56 \<le> unat a \<and> unat a + e \<le> unat b + 4096 \<and> e dvd unat a - unat b"

definition slab_sizes :: "nat set" where
  "slab_sizes = {8, 16, 32, 64, 128}"

definition slab_inv :: "nat \<Rightarrow> u64 \<Rightarrow> SlabMem \<Rightarrow> u64 list \<Rightarrow> bool" where
  "slab_inv e b sm F \<longleftrightarrow> sl_elem_size (sm_slab sm b) = of_nat e \<and> free_path (sm_bytes sm) (sl_first_free (sm_slab sm b)) F \<and>
     distinct F \<and> (\<forall>a \<in> set F. elem_at e b a)"

lemma elem_apart:
  assumes "elem_at e b a" and "elem_at e b a'" and "a \<noteq> a'"
  shows "unat a + e \<le> unat a' \<or> unat a' + e \<le> unat a"
proof -
  obtain i j where i: "unat a = unat b + e * i" and j: "unat a' = unat b + e * j"
    using assms(1,2) unfolding elem_at_def dvd_def by (metis add_leD1 le_add_diff_inverse)
  then have "i \<noteq> j" using assms(3) by (auto simp: word_unat_eq_iff)
  then have "Suc i \<le> j \<or> Suc j \<le> i" by auto
  then have "e * Suc i \<le> e * j \<or> e * Suc j \<le> e * i" by (metis mult_le_mono2)
  then show ?thesis unfolding i j by auto
qed

lemma Slab_new_ok:
  assumes e: "e \<in> slab_sizes" and b: "0 < unat b" "unat b + 4096 + 128 < 2 ^ 64"
  shows "\<exists>m' F. Slab_new b (of_nat e) sm = Some (Inr (sm\<lparr>sm_bytes := m',
      sm_slab := (sm_slab sm)(b := \<lparr>sl_elem_size = of_nat e, sl_num_allocated = 0, sl_first_free = hd F\<rparr>)\<rparr>)) \<and>
    F \<noteq> [] \<and> free_path m' (hd F) F \<and> distinct F \<and> (\<forall>a \<in> set F. elem_at e b a) \<and> (\<forall>x. \<not> in_block b 4096 x \<longrightarrow> m' x = sm_bytes sm x)"
proof -
  obtain off k where off: "((sizeof_Slab - 1) div of_nat e + 1) * of_nat e = (of_nat off :: u64)" "off + e * Suc k = 4096" "0 < k" "56 \<le> off" "e dvd off"
  proof -
    show thesis if "\<And>off k. ((sizeof_Slab - 1) div of_nat e + 1) * of_nat e = (of_nat off :: u64) \<Longrightarrow> off + e * Suc k = 4096 \<Longrightarrow> 0 < k \<Longrightarrow> 56 \<le> off \<Longrightarrow> e dvd off \<Longrightarrow> thesis"
      using e that [of 56 504] that [of 64 251] that [of 64 125] that [of 64 62] that [of 128 30] by (auto simp: slab_sizes_def sizeof_Slab_def)
  qed
  let ?e = "of_nat e :: u64" and ?p = "b + of_nat off :: u64"
  have ue: "unat ?e = e" "8 \<le> e" "e \<le> 128" "?e \<noteq> 0" using e by (auto simp: slab_sizes_def)
  have up: "unat ?p = unat b + off" using b off(2) by (intro unat_add_small) simp
  have um: "unat (b + kSlabSize) = unat b + 4096" using b by (simp add: unat_add_noof kSlabSize_def)
  obtain m' where m': "slab_init_loop ?e (b + kSlabSize) ?p (?p + ?e) (sm_bytes sm) = Some m'" "free_path m' ?p (addrs ?p ?e (Suc k))"
      "\<forall>x. \<not> (unat ?p \<le> unat x \<and> unat x < unat (b + kSlabSize)) \<longrightarrow> m' x = sm_bytes sm x"
    using slab_init_ok [of ?e ?p k "b + kSlabSize" "sm_bytes sm"] ue up um off b by auto
  have room: "unat ?p + unat ?e * Suc k < 2 ^ 64" using up ue(1) off(2) b(2) by simp
  have "elem_at e b a" if a: "a \<in> set (addrs ?p ?e (Suc k))" for a
  proof -
    obtain i where i: "i < Suc k" "unat a = unat b + off + e * i" using addrs_at [OF a room] up ue(1) by auto
    then have "e * Suc i \<le> e * Suc k" by (metis Suc_leI mult_le_mono2)
    then have "off + (e * i + e) \<le> 4096" using off(2) by (metis add.commute add_le_cancel_left mult_Suc_right)
    then show ?thesis using i off(4,5) by (simp add: elem_at_def)
  qed
  moreover have "distinct (addrs ?p ?e (Suc k))" using distinct_addrs [OF _ room] ue by simp
  moreover have "m' x = sm_bytes sm x" if "\<not> in_block b 4096 x" for x using m'(3) that up um by (auto simp: in_block_def)
  ultimately show ?thesis using m'(1,2) ue(4) off(1)
    by (intro exI [of _ m'] exI [of _ "addrs ?p ?e (Suc k)"]) (auto simp: Slab_new_def Let_def)
qed

section \<open>The invariant of the heap\<close>

text \<open>
  \<open>S\<close> holds the element size and the page of every slab, \<open>FL\<close> gives the free elements of a slab, \<open>live\<close> the
  size of every block that is allocated, \<open>np\<close> and \<open>na\<close> are the ends of the two regions in use.
\<close>

definition apart :: "u64 \<Rightarrow> u64 \<Rightarrow> u64 \<Rightarrow> u64 \<Rightarrow> bool" where
  "apart a n a' n' \<longleftrightarrow> unat a + unat n \<le> unat a' \<or> unat a' + unat n' \<le> unat a"

definition pages_inv :: "(nat \<times> u64) set \<Rightarrow> (u64 \<Rightarrow> u64 list) \<Rightarrow> SlabMem \<Rightarrow> u64 \<Rightarrow> bool" where
  "pages_inv S FL sm np \<longleftrightarrow> 4096 dvd unat np \<and> kKernelSlabHeapStart \<le> np \<and> np \<le> kKernelSlabHeapEnd \<and>
     (\<forall>e b. (e, b) \<in> S \<longrightarrow> e \<in> slab_sizes \<and> 4096 dvd unat b \<and> kKernelSlabHeapStart \<le> b \<and> unat b + 4096 \<le> unat np \<and> slab_inv e b sm (FL b)) \<and>
     (\<forall>e e' b. (e, b) \<in> S \<longrightarrow> (e', b) \<in> S \<longrightarrow> e = e')"

definition slab_block :: "(nat \<times> u64) set \<Rightarrow> (u64 \<Rightarrow> u64 list) \<Rightarrow> u64 \<Rightarrow> u64 \<Rightarrow> bool" where
  "slab_block S FL a n \<longleftrightarrow> (\<exists>e b. (e, b) \<in> S \<and> elem_at e b a \<and> a \<notin> set (FL b) \<and> unat n \<le> e)"

definition live_inv :: "(nat \<times> u64) set \<Rightarrow> (u64 \<Rightarrow> u64 list) \<Rightarrow> (u64 \<rightharpoonup> u64) \<Rightarrow> u64 \<Rightarrow> bool" where
  "live_inv S FL live na \<longleftrightarrow> kKernelBuddyHeapStart \<le> na \<and> na \<le> kKernelBuddyHeapEnd \<and>
     (\<forall>a n. live a = Some n \<longrightarrow> slab_block S FL a n \<or> kKernelBuddyHeapStart \<le> a \<and> 0 < n \<and> unat a + unat n \<le> unat na) \<and>
     (\<forall>a n a' n'. live a = Some n \<longrightarrow> live a' = Some n' \<longrightarrow> a \<noteq> a' \<longrightarrow> apart a n a' n')"

lemma pagesD:
  assumes "pages_inv S FL sm np" and "(e, b) \<in> S"
  shows "e \<in> slab_sizes" "8 \<le> e" "4096 dvd unat b" "unat kKernelSlabHeapStart \<le> unat b" "unat b + 4096 \<le> unat kKernelSlabHeapEnd" "unat b + 4096 \<le> unat np" "slab_inv e b sm (FL b)"
  using assms unfolding pages_inv_def slab_sizes_def word_le_nat_alt by fastforce+

text \<open>Elements of different slabs, and different elements of one slab, do not overlap.\<close>

lemma elems_apart:
  assumes inv: "pages_inv S FL sm np" and a: "(e, b) \<in> S" "elem_at e b a" and a': "(e', b') \<in> S" "elem_at e' b' a'" and ne: "a \<noteq> a'"
  shows "unat a + e \<le> unat a' \<or> unat a' + e' \<le> unat a"
proof (cases "b = b'")
  case True
  then have "e = e'" using inv a(1) a'(1) unfolding pages_inv_def by blast
  then show ?thesis using True elem_apart a(2) a'(2) ne by blast
next
  case False
  obtain i j where i: "unat b = 4096 * i" and j: "unat b' = 4096 * j" using pagesD(3) [OF inv] a(1) a'(1) by (metis dvdE)
  then have "Suc i \<le> j \<or> Suc j \<le> i" using False by (metis word_unat_eq_iff Suc_leI linorder_neqE_nat)
  then show ?thesis using a(2) a'(2) i j unfolding elem_at_def by linarith
qed

text \<open>Bytes outside the free elements do not matter.\<close>

lemma pages_bytes:
  assumes inv: "pages_inv S FL sm np" and out: "\<And>e b a x. (e, b) \<in> S \<Longrightarrow> a \<in> set (FL b) \<Longrightarrow> in_block a 8 x \<Longrightarrow> m' x = sm_bytes sm x"
  shows "pages_inv S FL (sm\<lparr>sm_bytes := m'\<rparr>) np"
proof -
  have "slab_inv e b (sm\<lparr>sm_bytes := m'\<rparr>) (FL b)" if S: "(e, b) \<in> S" for e b
  proof -
    have "unat a + 8 \<le> 2 ^ 64" if "a \<in> set (FL b)" for a
      using pagesD [OF inv S] that by (auto simp: slab_inv_def elem_at_def kKernelSlabHeapEnd_def)
    then show ?thesis using pagesD(7) [OF inv S] out [OF S] free_path_agree [of "sm_bytes sm" _ "FL b" m'] by (simp add: slab_inv_def)
  qed
  then show ?thesis using inv unfolding pages_inv_def by simp
qed

lemma page_unique:
  assumes "pages_inv S FL sm np" and "(e, b) \<in> S" "elem_at e b a" and "(e', b') \<in> S" "elem_at e' b' a"
  shows "b = b'"
proof -
  obtain i j where i: "unat b = 4096 * i" and j: "unat b' = 4096 * j" using pagesD(3) [OF assms(1)] assms(2,4) by (metis dvdE)
  then have "i = j" using assms(3,5) pagesD(2) [OF assms(1)] assms(2,4) unfolding elem_at_def by fastforce
  then show ?thesis using i j by (simp add: word_unat_eq_iff)
qed

text \<open>Taking an element from a slab.\<close>

lemma Slab_Allocate_ok:
  assumes inv: "pages_inv S FL sm np" and S: "(e, b) \<in> S" and nf: "\<not> Slab_IsFull (sm_slab sm b)"
  shows "\<exists>p F sm'. FL b = p # F \<and> Slab_Allocate b sm = Inr (p, sm') \<and> pages_inv S (FL(b := F)) sm' np \<and> sm_bytes sm' = sm_bytes sm"
proof -
  note d = pagesD [OF inv S]
  obtain p F where F: "FL b = p # F" using d(7) nf by (cases "FL b") (auto simp: slab_inv_def Slab_IsFull_def)
  let ?sl = "sm_slab sm b"
  let ?sm = "sm\<lparr>sm_slab := (sm_slab sm)(b := ?sl\<lparr>sl_first_free := load_ptr (sm_bytes sm) p, sl_num_allocated := sl_num_allocated ?sl + 1\<rparr>)\<rparr>"
  have p: "sl_first_free ?sl = p" using d(7) F by (simp add: slab_inv_def)
  have "slab_inv e' b' ?sm ((FL(b := F)) b')" if "(e', b') \<in> S" for e' b'
    using pagesD(7) [OF inv that] F by (cases "b' = b") (auto simp: slab_inv_def)
  then have "pages_inv S (FL(b := F)) ?sm np" using inv unfolding pages_inv_def by blast
  then show ?thesis using F p nf by (intro exI [of _ p] exI [of _ F] exI [of _ ?sm]) (simp add: Slab_Allocate_def Let_def)
qed

lemma live_inv_add:
  assumes live: "live_inv S FL live na" and old: "\<And>a k. slab_block S FL a k \<Longrightarrow> slab_block S FL' a k" and na: "na \<le> na'" "na' \<le> kKernelBuddyHeapEnd"
    and new: "slab_block S FL' p n \<or> kKernelBuddyHeapStart \<le> p \<and> 0 < n \<and> unat p + unat n \<le> unat na'"
    and ap: "\<And>a k. live a = Some k \<Longrightarrow> apart a k p n"
  shows "live_inv S FL' (live(p \<mapsto> n)) na'"
  unfolding live_inv_def
proof (intro conjI allI impI)
  show "kKernelBuddyHeapStart \<le> na'" using live na(1) by (auto simp: live_inv_def)
  show "slab_block S FL' a k \<or> kKernelBuddyHeapStart \<le> a \<and> 0 < k \<and> unat a + unat k \<le> unat na'" if "(live(p \<mapsto> n)) a = Some k" for a k
  proof (cases "a = p")
    case False
    then have "live a = Some k" using that by simp
    then have "slab_block S FL a k \<or> kKernelBuddyHeapStart \<le> a \<and> 0 < k \<and> unat a + unat k \<le> unat na" using live by (simp add: live_inv_def)
    then show ?thesis using old na(1) by (auto simp: word_le_nat_alt)
  qed (use that new in simp)
  have sym: "apart c l a k" if "apart a k c l" for a k c l using that by (auto simp: apart_def)
  show "apart a k c l" if "(live(p \<mapsto> n)) a = Some k" "(live(p \<mapsto> n)) c = Some l" "a \<noteq> c" for a k c l
    using that live ap sym unfolding live_inv_def by (cases "a = p"; cases "c = p") auto
qed (use na(2) in simp)

lemma live_slab_new:
  assumes inv: "pages_inv S FL sm np" and live: "live_inv S FL live na" and S: "(e, b) \<in> S" and F: "FL b = p # F" and n: "unat n \<le> e"
  shows "live p = None" and "live_inv S (FL(b := F)) (live(p \<mapsto> n)) na"
proof -
  note d = pagesD [OF inv S]
  have p: "elem_at e b p" "p \<notin> set F" using d(7) F by (auto simp: slab_inv_def)
  have slab: "a \<noteq> p \<and> slab_block S (FL(b := F)) a k \<and> apart a k p n" if sb: "slab_block S FL a k" for a k
  proof -
    obtain e' b' where b': "(e', b') \<in> S" "elem_at e' b' a" "a \<notin> set (FL b')" "unat k \<le> e'" using sb by (auto simp: slab_block_def)
    have "a \<noteq> p" using page_unique [OF inv S p(1) b'(1)] b'(2,3) F by auto
    moreover have "slab_block S (FL(b := F)) a k" unfolding slab_block_def using b' F by (intro exI [of _ e'] exI [of _ b']) auto
    ultimately show ?thesis using elems_apart [OF inv b'(1,2) S p(1)] b'(4) n by (auto simp: apart_def)
  qed
  have buddy: "a \<noteq> p \<and> apart a k p n" if "kKernelBuddyHeapStart \<le> a" for a k
    using that p(1) d(2,5) n by (auto simp: elem_at_def apart_def kKernelBuddyHeapStart_def kKernelSlabHeapEnd_def word_le_nat_alt)
  have other: "a \<noteq> p \<and> apart a k p n" if "live a = Some k" for a k
    using live that slab buddy unfolding live_inv_def by blast
  then show "live p = None" by (cases "live p") auto
  have "slab_block S (FL(b := F)) p n" unfolding slab_block_def using S p n by (intro exI [of _ e] exI [of _ b]) auto
  then show "live_inv S (FL(b := F)) (live(p \<mapsto> n)) na"
    using slab other live by (intro live_inv_add [OF live]) (auto simp: live_inv_def)
qed

text \<open>A new slab in the next page.\<close>

lemma pages_new_slab:
  assumes inv: "pages_inv S FL sm np" and e: "e \<in> slab_sizes" and np: "unat np + 4096 \<le> unat kKernelSlabHeapEnd"
  shows "\<exists>F sm'. Slab_new np (of_nat e) sm = Some (Inr sm') \<and> F \<noteq> [] \<and> pages_inv (insert (e, np) S) (FL(np := F)) sm' (np + kSlabSize) \<and>
    \<not> Slab_IsFull (sm_slab sm' np) \<and> (\<forall>x. \<not> in_block np 4096 x \<longrightarrow> sm_bytes sm' x = sm_bytes sm x)"
proof -
  have st: "unat kKernelSlabHeapStart \<le> unat np" "4096 dvd unat np" using inv by (auto simp: pages_inv_def word_le_nat_alt)
  have u: "unat (np + kSlabSize) = unat np + 4096" using np by (subst unat_add_noof) (simp_all add: kSlabSize_def kKernelSlabHeapEnd_def)
  obtain m' F where F: "Slab_new np (of_nat e) sm = Some (Inr (sm\<lparr>sm_bytes := m',
        sm_slab := (sm_slab sm)(np := \<lparr>sl_elem_size = of_nat e, sl_num_allocated = 0, sl_first_free = hd F\<rparr>)\<rparr>))" "F \<noteq> []"
      "free_path m' (hd F) F" "distinct F" "\<forall>a \<in> set F. elem_at e np a" "\<forall>x. \<not> in_block np 4096 x \<longrightarrow> m' x = sm_bytes sm x"
    using Slab_new_ok [OF e, of np sm] st np by (auto simp: kKernelSlabHeapStart_def kKernelSlabHeapEnd_def)
  let ?sm = "sm\<lparr>sm_bytes := m', sm_slab := (sm_slab sm)(np := \<lparr>sl_elem_size = of_nat e, sl_num_allocated = 0, sl_first_free = hd F\<rparr>)\<rparr>"
  have old: "b \<noteq> np \<and> slab_inv k b ?sm (FL b)" if S: "(k, b) \<in> S" for k b
  proof -
    note d = pagesD [OF inv S]
    have "b \<noteq> np" using d(6) by auto
    moreover have "pages_inv S FL (sm\<lparr>sm_bytes := m'\<rparr>) np"
    proof (rule pages_bytes [OF inv])
      fix e' b' a x assume "(e', b') \<in> S" "a \<in> set (FL b')" "in_block a 8 x"
      then have "unat x < unat np" using pagesD [OF inv \<open>(e', b') \<in> S\<close>] by (auto simp: slab_inv_def elem_at_def in_block_def)
      then show "m' x = sm_bytes sm x" using F(6) by (simp add: in_block_def)
    qed
    ultimately show ?thesis using pagesD(7) [OF _ S, of FL "sm\<lparr>sm_bytes := m'\<rparr>" np] by (simp add: slab_inv_def)
  qed
  have new: "slab_inv e np ?sm F" using F by (simp add: slab_inv_def)
  have nn: "(k, np) \<notin> S" for k using old by blast
  have slab: "k \<in> slab_sizes \<and> 4096 dvd unat b \<and> kKernelSlabHeapStart \<le> b \<and> unat b + 4096 \<le> unat (np + kSlabSize) \<and> slab_inv k b ?sm ((FL(np := F)) b)"
    if "(k, b) \<in> insert (e, np) S" for k b
    using that e new st old [of k b] pagesD [OF inv, of k b] u by (auto simp: word_le_nat_alt)
  have "pages_inv (insert (e, np) S) (FL(np := F)) ?sm (np + kSlabSize)"
    unfolding pages_inv_def
  proof (intro conjI allI impI)
    show "k = k'" if "(k, b) \<in> insert (e, np) S" "(k', b) \<in> insert (e, np) S" for k k' b
      using that nn inv unfolding pages_inv_def by blast
  qed (use u st np slab in \<open>simp_all add: word_le_nat_alt\<close>)
  moreover have "hd F \<noteq> 0" using F(2,3) by (cases F) auto
  ultimately show ?thesis using F by (intro exI [of _ F] exI [of _ ?sm]) (simp add: Slab_IsFull_def)
qed

lemma live_more_slabs:
  assumes "live_inv S FL live na" and "\<And>e b. (e, b) \<in> S \<Longrightarrow> b \<noteq> np"
  shows "live_inv (insert (e, np) S) (FL(np := F)) live na"
proof -
  have "slab_block (insert (e, np) S) (FL(np := F)) a n" if "slab_block S FL a n" for a n
    using that assms(2) unfolding slab_block_def by fastforce
  then show ?thesis using assms(1) unfolding live_inv_def by blast
qed

lemma find_slab_Some: "find_slab sm bs = Some b \<Longrightarrow> b \<in> set bs \<and> \<not> Slab_IsFull (sm_slab sm b)"
  by (induction bs) (auto split: if_splits)

abbreviation next_page :: "KernelVmm \<Rightarrow> u64" where
  "next_page \<equiv> vmm_next_slab_heap_page"

definition kept :: "(u64 \<rightharpoonup> u64) \<Rightarrow> SlabMem \<Rightarrow> SlabMem \<Rightarrow> bool" where
  "kept live sm sm' \<longleftrightarrow> (\<forall>a n x. live a = Some n \<longrightarrow> in_block a (unat n) x \<longrightarrow> sm_bytes sm' x = sm_bytes sm x)"

lemma take_element:
  assumes inv: "pages_inv S FL sm np" and live: "live_inv S FL live na" and S: "(e, b) \<in> S" and nf: "\<not> Slab_IsFull (sm_slab sm b)" and n: "unat n \<le> e"
  shows "\<exists>p FL' sm'. Slab_Allocate b sm = Inr (p, sm') \<and> live p = None \<and> pages_inv S FL' sm' np \<and> live_inv S FL' (live(p \<mapsto> n)) na \<and> sm_bytes sm' = sm_bytes sm"
proof -
  obtain p F sm' where a: "FL b = p # F" "Slab_Allocate b sm = Inr (p, sm')" "pages_inv S (FL(b := F)) sm' np" "sm_bytes sm' = sm_bytes sm"
    using Slab_Allocate_ok [OF inv S nf] by blast
  then show ?thesis using live_slab_new [OF inv live S a(1) n] by blast
qed

lemma SlabAllocator_Allocate_ok:
  assumes inv: "pages_inv S FL sm (next_page v)" and live: "live_inv S FL live na"
    and sa: "e \<in> slab_sizes" "sa_elem_size sa = of_nat e" "\<forall>b \<in> set (sa_slabs sa). (e, b) \<in> S"
    and run: "SlabAllocator_Allocate sa (sm, v, st) = Some (Inr (r, sa', sm', v', st'))" and room: "next_page v' \<le> kKernelSlabHeapEnd" and n: "unat n \<le> e"
  shows "\<exists>p S' FL'. r = Inr p \<and> live p = None \<and> S \<subseteq> S' \<and> (\<forall>b \<in> set (sa_slabs sa'). (e, b) \<in> S') \<and> sa_elem_size sa' = of_nat e \<and>
    pages_inv S' FL' sm' (next_page v') \<and> live_inv S' FL' (live(p \<mapsto> n)) na \<and> kept live sm sm'"
proof (cases "find_slab sm (sa_slabs sa)")
  case (Some b)
  then have b: "(e, b) \<in> S" "\<not> Slab_IsFull (sm_slab sm b)" using find_slab_Some [OF Some] sa(3) by auto
  obtain p FL' sm1 where a: "Slab_Allocate b sm = Inr (p, sm1)" "live p = None" "pages_inv S FL' sm1 (next_page v)" "live_inv S FL' (live(p \<mapsto> n)) na" "sm_bytes sm1 = sm_bytes sm"
    using take_element [OF inv live b n] by blast
  then have "r = Inr p" "sa' = sa" "sm' = sm1" "v' = v" using run Some by (simp_all add: SlabAllocator_Allocate_def)
  then show ?thesis using a sa by (intro exI [of _ p] exI [of _ S] exI [of _ FL']) (auto simp: kept_def)
next
  case None
  let ?np = "next_page v"
  obtain st1 where acq: "AcquireSlabHeapRegion kSlabSize v st = Some (Inr (?np, v\<lparr>vmm_next_slab_heap_page := ?np + kSlabSize\<rparr>, st1))"
      and v': "v' = v\<lparr>vmm_next_slab_heap_page := ?np + kSlabSize\<rparr>"
    using run None by (auto simp: SlabAllocator_Allocate_def opt_run_bind_eq_Inr AcquireSlabHeapRegion_def Let_def run_map_eq_Inr split: if_splits)
  have np: "unat ?np \<le> unat kKernelSlabHeapEnd" using inv by (simp add: pages_inv_def word_le_nat_alt)
  have "unat (?np + kSlabSize) = unat ?np + 4096" using np by (subst unat_add_noof) (simp_all add: kSlabSize_def kKernelSlabHeapEnd_def)
  then have rm: "unat ?np + 4096 \<le> unat kKernelSlabHeapEnd" using room v' by (simp add: word_le_nat_alt)
  obtain F sm1 where s: "Slab_new ?np (of_nat e) sm = Some (Inr sm1)" "pages_inv (insert (e, ?np) S) (FL(?np := F)) sm1 (?np + kSlabSize)"
      "\<not> Slab_IsFull (sm_slab sm1 ?np)" "\<forall>x. \<not> in_block ?np 4096 x \<longrightarrow> sm_bytes sm1 x = sm_bytes sm x"
    using pages_new_slab [OF inv sa(1) rm] by blast
  have l: "live_inv (insert (e, ?np) S) (FL(?np := F)) live na" by (rule live_more_slabs [OF live]) (use pagesD(6) [OF inv] in fastforce)
  obtain p FL' sm2 where a: "Slab_Allocate ?np sm1 = Inr (p, sm2)" "live p = None" "pages_inv (insert (e, ?np) S) FL' sm2 (?np + kSlabSize)"
      "live_inv (insert (e, ?np) S) FL' (live(p \<mapsto> n)) na" "sm_bytes sm2 = sm_bytes sm1"
    using take_element [OF s(2) l _ s(3) n] by blast
  have "r = Inr p" "sa' = sa\<lparr>sa_slabs := ?np # sa_slabs sa\<rparr>" "sm' = sm2" using run None acq s(1) a(1) sa(2) by (simp_all add: SlabAllocator_Allocate_def)
  moreover have "kept live sm sm2"
    unfolding kept_def
  proof (intro allI impI)
    fix c k x assume c: "live c = Some k" "in_block c (unat k) x"
    then have "slab_block S FL c k \<or> kKernelBuddyHeapStart \<le> c" using live by (auto simp: live_inv_def)
    then have "\<not> in_block ?np 4096 x"
      using c(2) rm pagesD(6) [OF inv]
      by (fastforce simp: slab_block_def elem_at_def in_block_def kKernelBuddyHeapStart_def kKernelSlabHeapEnd_def word_le_nat_alt)
    then show "sm_bytes sm2 x = sm_bytes sm x" using s(4) a(5) by simp
  qed
  ultimately show ?thesis using a sa v' by (intro exI [of _ p] exI [of _ "insert (e, ?np) S"] exI [of _ FL']) auto
qed

section \<open>The operations keep the invariant\<close>

definition allocators :: "KernelHeap \<Rightarrow> (nat \<times> SlabAllocator) set" where
  "allocators h = {(8, kh_slab_8 h), (16, kh_slab_16 h), (32, kh_slab_32 h), (64, kh_slab_64 h), (128, kh_slab_128 h)}"

definition heap_inv :: "KernelHeap \<Rightarrow> SlabMem \<Rightarrow> KernelVmm \<Rightarrow> (u64 \<rightharpoonup> u64) \<Rightarrow> bool" where
  "heap_inv h sm v live \<longleftrightarrow> kh_upper_bound h = kKernelBuddyHeapEnd \<and>
     (\<exists>S FL. pages_inv S FL sm (next_page v) \<and> live_inv S FL live (kh_next_addr h) \<and>
        (\<forall>(e, sa) \<in> allocators h. sa_elem_size sa = of_nat e \<and> (\<forall>b \<in> set (sa_slabs sa). (e, b) \<in> S)))"

lemma heap_invI:
  "kh_upper_bound h = kKernelBuddyHeapEnd \<Longrightarrow> pages_inv S FL sm (next_page v) \<Longrightarrow> live_inv S FL live (kh_next_addr h) \<Longrightarrow>
   \<forall>(e, sa) \<in> allocators h. sa_elem_size sa = of_nat e \<and> (\<forall>b \<in> set (sa_slabs sa). (e, b) \<in> S) \<Longrightarrow> heap_inv h sm v live"
  unfolding heap_inv_def by blast

lemma heap_slab:
  assumes inv: "heap_inv h sm v live" and e: "(e, sa) \<in> allocators h" "e \<in> slab_sizes" "unat n \<le> e"
    and run: "SlabAllocator_Allocate sa (sm, v, st) = Some (Inr (r, sa', sm', v', st'))" and room: "next_page v' \<le> kKernelSlabHeapEnd"
  shows "\<exists>p. r = Inr p \<and> live p = None \<and> kept live sm sm' \<and>
    (\<forall>h'. kh_upper_bound h' = kh_upper_bound h \<and> kh_next_addr h' = kh_next_addr h \<and> allocators h' \<subseteq> insert (e, sa') (allocators h) \<longrightarrow>
       heap_inv h' sm' v' (live(p \<mapsto> n)))"
proof -
  obtain S FL where S: "pages_inv S FL sm (next_page v)" "live_inv S FL live (kh_next_addr h)" "kh_upper_bound h = kKernelBuddyHeapEnd"
      "\<forall>(e, sa) \<in> allocators h. sa_elem_size sa = of_nat e \<and> (\<forall>b \<in> set (sa_slabs sa). (e, b) \<in> S)"
    using inv unfolding heap_inv_def by blast
  have sa: "sa_elem_size sa = of_nat e" "\<forall>b \<in> set (sa_slabs sa). (e, b) \<in> S" using S(4) e(1) by auto
  obtain p S' FL' where p: "r = Inr p" "live p = None" "S \<subseteq> S'" "\<forall>b \<in> set (sa_slabs sa'). (e, b) \<in> S'" "sa_elem_size sa' = of_nat e"
      "pages_inv S' FL' sm' (next_page v')" "live_inv S' FL' (live(p \<mapsto> n)) (kh_next_addr h)" "kept live sm sm'"
    using SlabAllocator_Allocate_ok [OF S(1,2) e(2) sa run room e(3)] by blast
  have "heap_inv h' sm' v' (live(p \<mapsto> n))"
    if h': "kh_upper_bound h' = kh_upper_bound h" "kh_next_addr h' = kh_next_addr h" "allocators h' \<subseteq> insert (e, sa') (allocators h)" for h'
  proof -
    have "\<forall>(k, sb) \<in> allocators h'. sa_elem_size sb = of_nat k \<and> (\<forall>b \<in> set (sa_slabs sb). (k, b) \<in> S')"
      using h'(3) S(4) p(3-5) by fast
    then show ?thesis using h'(1,2) S(3) p(6,7) unfolding heap_inv_def by auto
  qed
  then show ?thesis using p(1,2,8) by blast
qed

lemma SlabAllocator_Allocate_value: "SlabAllocator_Allocate sa bk = Some (Inr (r, x)) \<Longrightarrow> \<exists>p. r = Inr p"
  by (cases bk) (auto simp: SlabAllocator_Allocate_def opt_run_bind_eq_Inr run_map_eq_Inr Let_def split: option.splits)

lemma try_slab_run:
  assumes "try_slab n get put sz rest (h, bk) = Some (Inr (p, h', bk'))"
  shows "sz \<le> n \<Longrightarrow> \<exists>sa. SlabAllocator_Allocate (get h) bk = Some (Inr (Inr p, sa, bk')) \<and> h' = put sa h"
    and "\<not> sz \<le> n \<Longrightarrow> rest (h, bk) = Some (Inr (p, h', bk'))"
proof -
  show "\<exists>sa. SlabAllocator_Allocate (get h) bk = Some (Inr (Inr p, sa, bk')) \<and> h' = put sa h" if "sz \<le> n"
  proof -
    obtain r sa bk1 where a: "SlabAllocator_Allocate (get h) bk = Some (Inr (r, sa, bk1))"
        "(case r of Inr p \<Rightarrow> Some (Inr (p, put sa h, bk1)) | Inl _ \<Rightarrow> rest (put sa h, bk1)) = Some (Inr (p, h', bk'))"
      using assms \<open>sz \<le> n\<close> by (auto simp: try_slab_def opt_run_bind_eq_Inr)
    then show ?thesis using SlabAllocator_Allocate_value [OF a(1)] by auto
  qed
  show "rest (h, bk) = Some (Inr (p, h', bk'))" if "\<not> sz \<le> n" using assms that by (simp add: try_slab_def)
qed

lemma unat_and_not_mask: "unat (a AND NOT (mask k) :: u64) = unat a div 2 ^ k * 2 ^ k"
proof (cases "k < 64")
  case True
  have "a AND NOT (mask k) = push_bit k (drop_bit k a)" by (rule bit_word_eqI) (auto simp: bit_simps)
  moreover have "unat a div 2 ^ k * 2 ^ k < 2 ^ 64" using unat_lt_64 [of a] by (simp add: le_less_trans [OF div_times_less_eq_dividend])
  moreover have "unat a div 2 ^ k < 2 ^ 64" using unat_lt_64 [of a] by (simp add: le_less_trans [OF div_le_dividend])
  moreover have "unat (2 ^ k :: u64) = 2 ^ k"
    using unat_of_nat_u64 [of "2 ^ k"] power_strict_increasing [OF True, of "2 :: nat"] by simp
  ultimately show ?thesis by (simp add: push_bit_eq_mult drop_bit_eq_div unat_word_ariths unat_div)
next
  case False
  then have "(2 :: nat) ^ 64 \<le> 2 ^ k" by (intro power_increasing) simp_all
  then have "unat a div 2 ^ k = 0" using unat_lt_64 [of a] by simp
  moreover have "a AND NOT (mask k) = 0" using False by (intro bit_word_eqI) (auto simp: bit_simps)
  ultimately show ?thesis by simp
qed

lemma round_up_8:
  fixes n :: u64
  assumes "n < kKernelBuddyHeapEnd"
  defines "k \<equiv> if n AND 0x7 \<noteq> 0 then (n AND NOT 0x7) + 0x8 else n"
  shows "unat n \<le> unat k" "unat k \<le> unat kKernelBuddyHeapEnd" "unat k \<le> unat n + 8"
proof -
  have d: "unat (n AND - 8) = unat n div 8 * 8" using unat_and_not_mask [of n 3] by (simp add: mask_eq_exp_minus_1)
  have e: "unat n < 18446744071562067968" using assms(1) by (simp add: kKernelBuddyHeapEnd_def word_less_nat_alt)
  then have "unat ((n AND NOT 0x7) + 0x8) = unat n div 8 * 8 + 8" by (subst unat_add_noof) (simp_all add: d)
  then show "unat n \<le> unat k" "unat k \<le> unat kKernelBuddyHeapEnd" "unat k \<le> unat n + 8"
    using e by (auto simp: k_def kKernelBuddyHeapEnd_def)
qed

lemma bump_allocate_ok:
  assumes inv: "heap_inv h sm v live" and run: "bump_allocate sz (h, sm, v, st) = Some (Inr (p, h', sm', v', st'))"
    and sz: "0 < sz" "unat (kh_next_addr h) + unat sz < 2 ^ 64"
  shows "live p = None \<and> sm' = sm \<and> heap_inv h' sm' v' (live(p \<mapsto> sz))"
proof -
  let ?na = "kh_next_addr h"
  let ?n = "if (?na + sz) AND 0x7 \<noteq> 0 then ((?na + sz) AND NOT 0x7) + 0x8 else ?na + sz"
  obtain S FL where S: "pages_inv S FL sm (next_page v)" "live_inv S FL live ?na" "kh_upper_bound h = kKernelBuddyHeapEnd"
      "\<forall>(e, sa) \<in> allocators h. sa_elem_size sa = of_nat e \<and> (\<forall>b \<in> set (sa_slabs sa). (e, b) \<in> S)"
    using inv unfolding heap_inv_def by blast
  have r: "?na + sz < kKernelBuddyHeapEnd" "p = ?na" "sm' = sm" "v' = v" "h' = h\<lparr>kh_alloc_count := kh_alloc_count h + 1, kh_next_addr := ?n\<rparr>"
    using run S(3) by (auto simp: bump_allocate_def opt_run_bind_eq_Inr Let_def not_le split: if_splits)
  have up: "unat ?na + unat sz \<le> unat ?n" "unat ?n \<le> unat kKernelBuddyHeapEnd" using round_up_8 [OF r(1)] unat_add_noof [of ?na sz] sz(2) by simp_all
  have na: "unat kKernelBuddyHeapStart \<le> unat ?na" using S(2) by (simp add: live_inv_def word_le_nat_alt)
  have old: "unat a + unat k \<le> unat ?na \<and> a \<noteq> ?na" if "live a = Some k" for a k
  proof -
    have "slab_block S FL a k \<or> kKernelBuddyHeapStart \<le> a \<and> 0 < k \<and> unat a + unat k \<le> unat ?na" using S(2) that by (simp add: live_inv_def)
    then show ?thesis
    proof
      assume "slab_block S FL a k"
      then obtain e b where b: "(e, b) \<in> S" "elem_at e b a" "unat k \<le> e" by (auto simp: slab_block_def)
      then show ?thesis using pagesD(2,5) [OF S(1) b(1)] na by (auto simp: elem_at_def kKernelBuddyHeapStart_def kKernelSlabHeapEnd_def)
    qed (auto simp: word_less_nat_alt)
  qed
  have "live_inv S FL (live(?na \<mapsto> sz)) ?n"
    by (rule live_inv_add [OF S(2)]) (use up na sz(1) old in \<open>auto simp: word_le_nat_alt apart_def\<close>)
  moreover have "live ?na = None" using old [of ?na] by (cases "live ?na") auto
  moreover have h': "allocators h' = allocators h" "kh_next_addr h' = ?n" "kh_upper_bound h' = kKernelBuddyHeapEnd"
    using r(5) S(3) by (simp_all add: allocators_def)
  ultimately have "live_inv S FL (live(?na \<mapsto> sz)) (kh_next_addr h')" by (simp only:)
  then have "heap_inv h' sm v (live(?na \<mapsto> sz))" using heap_invI [OF h'(3) S(1)] S(4) h'(1) by (simp only:)
  then show ?thesis using r(2-4) \<open>live ?na = None\<close> by blast
qed

lemma try_slab_ok:
  assumes inv: "heap_inv h sm v live" and room: "next_page v' \<le> kKernelSlabHeapEnd"
    and run: "try_slab (of_nat e) get put sz rest (h, sm, v, st) = Some (Inr (p, h', sm', v', st'))" "sz \<le> of_nat e"
    and e: "(e, get h) \<in> allocators h" "e \<in> slab_sizes"
    and put: "\<And>sa. kh_upper_bound (put sa h) = kh_upper_bound h \<and> kh_next_addr (put sa h) = kh_next_addr h \<and> allocators (put sa h) \<subseteq> insert (e, sa) (allocators h)"
  shows "live p = None \<and> kept live sm sm' \<and> heap_inv h' sm' v' (live(p \<mapsto> sz))"
proof -
  obtain sa where sa: "SlabAllocator_Allocate (get h) (sm, v, st) = Some (Inr (Inr p, sa, sm', v', st'))" "h' = put sa h" using try_slab_run(1) [OF run] by blast
  have "unat sz \<le> e" using run(2) e(2) by (auto simp: slab_sizes_def word_le_nat_alt)
  then show ?thesis using heap_slab [OF inv e _ sa(1) room] put [of sa] sa(2) by auto
qed

lemma KernelHeap_Allocate_ok:
  assumes inv: "heap_inv h sm v live" and run: "KernelHeap_Allocate sz (h, sm, v, st) = Some (Inr (p, h', sm', v', st'))"
    and room: "next_page v' \<le> kKernelSlabHeapEnd" and sz: "unat (kh_next_addr h) + unat sz < 2 ^ 64"
  shows "live p = None \<and> kept live sm sm' \<and> heap_inv h' sm' v' (live(p \<mapsto> sz))"
proof -
  note sim = allocators_def slab_sizes_def
  note r8 = run [unfolded KernelHeap_Allocate_def]
  consider "sz \<le> 8" | "\<not> sz \<le> 8" "sz \<le> 16" | "\<not> sz \<le> 8" "\<not> sz \<le> 16" "sz \<le> 32" | "\<not> sz \<le> 8" "\<not> sz \<le> 16" "\<not> sz \<le> 32" "sz \<le> 64"
    | "\<not> sz \<le> 8" "\<not> sz \<le> 16" "\<not> sz \<le> 32" "\<not> sz \<le> 64" "sz \<le> 128" | "\<not> sz \<le> 8" "\<not> sz \<le> 16" "\<not> sz \<le> 32" "\<not> sz \<le> 64" "\<not> sz \<le> 128" by blast
  then show ?thesis
  proof cases
    case 1
    then show ?thesis using try_slab_ok [OF inv room, of 8] r8 by (simp add: sim insert_commute subset_insertI2)
  next
    case 2
    note r = try_slab_run(2) [OF r8 2(1)]
    show ?thesis by (rule try_slab_ok [OF inv room, of 16, simplified, OF r 2(2)]) (auto simp: sim)
  next
    case 3
    note r = try_slab_run(2) [OF try_slab_run(2) [OF r8 3(1)] 3(2)]
    show ?thesis by (rule try_slab_ok [OF inv room, of 32, simplified, OF r 3(3)]) (auto simp: sim)
  next
    case 4
    note r = try_slab_run(2) [OF try_slab_run(2) [OF try_slab_run(2) [OF r8 4(1)] 4(2)] 4(3)]
    show ?thesis by (rule try_slab_ok [OF inv room, of 64, simplified, OF r 4(4)]) (auto simp: sim)
  next
    case 5
    note r = try_slab_run(2) [OF try_slab_run(2) [OF try_slab_run(2) [OF try_slab_run(2) [OF r8 5(1)] 5(2)] 5(3)] 5(4)]
    show ?thesis by (rule try_slab_ok [OF inv room, of 128, simplified, OF r 5(5)]) (auto simp: sim)
  next
    case 6
    note r = try_slab_run(2) [OF try_slab_run(2) [OF try_slab_run(2) [OF try_slab_run(2) [OF try_slab_run(2) [OF r8 6(1)] 6(2)] 6(3)] 6(4)] 6(5)]
    have "0 < sz" using 6(1) by (simp add: word_gt_0) auto
    then show ?thesis using bump_allocate_ok [OF inv r _ sz] by (auto simp: kept_def)
  qed
qed

text \<open>Writing to allocated blocks.\<close>

lemma elem_not_live:
  assumes inv: "pages_inv S FL sm np" and live: "live_inv S FL live na" and f: "(e, b) \<in> S" "elem_at e b a" "in_block a 8 x" and l: "live c = Some n" "c \<noteq> a"
  shows "\<not> in_block c (unat n) x"
proof -
  note d = pagesD [OF inv f(1)]
  have "slab_block S FL c n \<or> kKernelBuddyHeapStart \<le> c" using live l(1) by (auto simp: live_inv_def)
  then show ?thesis
  proof
    assume "slab_block S FL c n"
    then obtain e' b' where c: "(e', b') \<in> S" "elem_at e' b' c" "unat n \<le> e'" by (auto simp: slab_block_def)
    then show ?thesis using elems_apart [OF inv f(1,2) c(1,2)] l(2) d(2) f(3) by (auto simp: in_block_def)
  next
    assume "kKernelBuddyHeapStart \<le> c"
    then show ?thesis using f(2,3) d(2,5) by (auto simp: elem_at_def in_block_def kKernelBuddyHeapStart_def kKernelSlabHeapEnd_def word_le_nat_alt)
  qed
qed

lemma free_not_live:
  assumes inv: "pages_inv S FL sm np" and live: "live_inv S FL live na" and f: "(e, b) \<in> S" "a \<in> set (FL b)" "in_block a 8 x" and l: "live c = Some n"
  shows "\<not> in_block c (unat n) x"
proof -
  have a: "elem_at e b a" using pagesD(7) [OF inv f(1)] f(2) by (simp add: slab_inv_def)
  have "c \<noteq> a"
  proof
    assume "c = a"
    then have "slab_block S FL a n \<or> kKernelBuddyHeapStart \<le> a" using live l by (auto simp: live_inv_def)
    moreover have "\<not> kKernelBuddyHeapStart \<le> a"
      using a pagesD(2,5) [OF inv f(1)] by (auto simp: elem_at_def kKernelBuddyHeapStart_def kKernelSlabHeapEnd_def word_le_nat_alt)
    moreover have "\<not> slab_block S FL a n" using page_unique [OF inv f(1) a] f(2) unfolding slab_block_def by blast
    ultimately show False by blast
  qed
  then show ?thesis using elem_not_live [OF inv live f(1) a f(3) l] by blast
qed

lemma heap_write:
  assumes inv: "heap_inv h sm v live" and wr: "\<And>x. m' x \<noteq> sm_bytes sm x \<Longrightarrow> \<exists>a n. live a = Some n \<and> in_block a (unat n) x"
  shows "heap_inv h (sm\<lparr>sm_bytes := m'\<rparr>) v live"
proof -
  obtain S FL where S: "pages_inv S FL sm (next_page v)" "live_inv S FL live (kh_next_addr h)" "kh_upper_bound h = kKernelBuddyHeapEnd"
      "\<forall>(e, sa) \<in> allocators h. sa_elem_size sa = of_nat e \<and> (\<forall>b \<in> set (sa_slabs sa). (e, b) \<in> S)"
    using inv unfolding heap_inv_def by blast
  have "pages_inv S FL (sm\<lparr>sm_bytes := m'\<rparr>) (next_page v)"
    by (rule pages_bytes [OF S(1)]) (use free_not_live [OF S(1,2)] wr in blast)
  then show ?thesis using S by (intro heap_invI [of h S FL])
qed

lemma InitMemory_outside:
  assumes "unat addr + unat sz \<le> 2 ^ 64" and "\<not> in_block addr (unat sz) x"
  shows "InitMemory addr sz m x = m x"
proof -
  have "fold (\<lambda>i m. m(addr + of_nat i := 0xAB)) [0..<k] m x = m x" if "k \<le> unat sz" for k
    using that
  proof (induction k)
    case (Suc k)
    have "unat (addr + of_nat k) = unat addr + k" using Suc.prems assms(1) by (intro unat_add_small) simp
    then have "x \<noteq> addr + of_nat k" using assms(2) Suc.prems by (auto simp: in_block_def)
    then show ?case using Suc by simp
  qed simp
  then show ?thesis by (simp add: InitMemory_def)
qed

lemma live_block_fits:
  assumes "heap_inv h sm v live" and "live a = Some n"
  shows "unat a + unat n \<le> 2 ^ 64"
proof -
  obtain S FL where S: "pages_inv S FL sm (next_page v)" "live_inv S FL live (kh_next_addr h)" using assms(1) unfolding heap_inv_def by blast
  then have "slab_block S FL a n \<or> unat a + unat n \<le> unat (kh_next_addr h)" using assms(2) by (auto simp: live_inv_def)
  then show ?thesis
  proof
    assume "slab_block S FL a n"
    then obtain e b where b: "(e, b) \<in> S" "elem_at e b a" "unat n \<le> e" by (auto simp: slab_block_def)
    then show ?thesis using pagesD(5) [OF S(1) b(1)] by (simp add: elem_at_def kKernelSlabHeapEnd_def)
  qed (use unat_lt_64 [of "kh_next_addr h"] in simp)
qed

lemma operator_new_ok:
  assumes inv: "heap_inv h sm v live" and run: "operator_new sz (Some h, sm, v, st) = Some (Inr (p, g', sm', v', st'))"
    and room: "next_page v' \<le> kKernelSlabHeapEnd" and sz: "unat (kh_next_addr h) + unat sz < 2 ^ 64"
  shows "\<exists>h'. g' = Some h' \<and> live p = None \<and> kept live sm sm' \<and> heap_inv h' sm' v' (live(p \<mapsto> sz))"
proof -
  obtain h' sm1 where a: "KernelHeap_Allocate sz (h, sm, v, st) = Some (Inr (p, h', sm1, v', st'))" "g' = Some h'"
      "sm' = sm1\<lparr>sm_bytes := InitMemory p sz (sm_bytes sm1)\<rparr>"
    using run by (auto simp: operator_new_def GetKernelHeap_def opt_run_bind_eq_Inr)
  note ok = KernelHeap_Allocate_ok [OF inv a(1) room sz]
  have i: "heap_inv h' sm1 v' (live(p \<mapsto> sz))" using ok by blast
  have out: "InitMemory p sz (sm_bytes sm1) x = sm_bytes sm1 x" if "\<not> in_block p (unat sz) x" for x
    using InitMemory_outside [OF _ that] live_block_fits [OF i, of p sz] by simp
  have "heap_inv h' sm' v' (live(p \<mapsto> sz))" unfolding a(3)
    by (rule heap_write [OF i]) (use out in \<open>force intro: exI [of _ p]\<close>)
  moreover have "kept live sm sm'"
    unfolding kept_def
  proof (intro allI impI)
    fix c n x assume c: "live c = Some n" "in_block c (unat n) x"
    obtain S FL where "live_inv S FL (live(p \<mapsto> sz)) (kh_next_addr h')" using i unfolding heap_inv_def by blast
    then have "apart c n p sz" using c(1) ok unfolding live_inv_def by (metis fun_upd_other fun_upd_same option.distinct(1))
    then have "\<not> in_block p (unat sz) x" using c(2) by (auto simp: apart_def in_block_def)
    then show "sm_bytes sm' x = sm_bytes sm x" using out ok c a(3) by (simp add: kept_def)
  qed
  ultimately show ?thesis using ok a(2) by blast
qed

text \<open>Giving an element back.\<close>

lemma slab_of_elem:
  assumes e: "e \<in> slab_sizes" and b: "4096 dvd unat b" "unat b + 4096 \<le> unat kKernelSlabHeapEnd" and a: "elem_at e b a"
  shows "a AND kSlabMask = b" "Slab_IsContained b a" "a AND NOT (of_nat e - 1) = a"
proof -
  have e8: "8 \<le> e" using e by (auto simp: slab_sizes_def)
  obtain i where i: "unat b = 4096 * i" using b(1) by (metis dvdE)
  have "unat a div 4096 = i" using a i e8 by (auto simp: elem_at_def)
  then have "unat (a AND NOT (mask 12)) = unat b" using unat_and_not_mask [of a 12] i by simp
  moreover have "kSlabMask = NOT (mask 12)" by (simp add: kSlabMask_def kSlabSize_def mask_eq_exp_minus_1)
  ultimately show "a AND kSlabMask = b" by (simp add: word_unat_eq_iff)
  have "unat (b + 8) = unat b + 8" "unat (b + kSlabSize) = unat b + 4096"
    using b(2) by (simp_all add: unat_add_noof kSlabSize_def kKernelSlabHeapEnd_def)
  then show "Slab_IsContained b a" using a e8 by (auto simp: Slab_IsContained_def elem_at_def word_less_nat_alt)
  obtain k where k: "e = 2 ^ k" "of_nat e - 1 = (mask k :: u64)"
  proof -
    show thesis if "\<And>k. e = 2 ^ k \<Longrightarrow> of_nat e - 1 = (mask k :: u64) \<Longrightarrow> thesis"
      using e that [of 3] that [of 4] that [of 5] that [of 6] that [of 7] by (auto simp: slab_sizes_def mask_eq_exp_minus_1)
  qed
  have "e dvd 4096" using e by (auto simp: slab_sizes_def)
  then have "e dvd unat b" using b(1) by (rule dvd_trans)
  then have "e dvd unat a" using a by (auto simp: elem_at_def dest: dvd_diffD)
  then have "unat (a AND NOT (mask k)) = unat a" using unat_and_not_mask [of a k] k(1) by simp
  then show "a AND NOT (of_nat e - 1) = a" unfolding k(2) by (simp only: word_unat_eq_iff)
qed

lemma live_inv_remove:
  assumes live: "live_inv S FL live na" and old: "\<And>c k. c \<noteq> a \<Longrightarrow> slab_block S FL c k \<Longrightarrow> slab_block S FL' c k"
  shows "live_inv S FL' (live(a := None)) na"
proof -
  have rest: "live c = Some k \<and> c \<noteq> a" if "(live(a := None)) c = Some k" for c k using that by (auto split: if_splits)
  show ?thesis
    unfolding live_inv_def
  proof (intro conjI allI impI)
    show "slab_block S FL' c k \<or> kKernelBuddyHeapStart \<le> c \<and> 0 < k \<and> unat c + unat k \<le> unat na" if "(live(a := None)) c = Some k" for c k
      using rest [OF that] live old unfolding live_inv_def by blast
    show "apart c k c' k'" if "(live(a := None)) c = Some k" "(live(a := None)) c' = Some k'" "c \<noteq> c'" for c k c' k'
      using rest [OF that(1)] rest [OF that(2)] that(3) live unfolding live_inv_def by blast
  qed (use live in \<open>simp_all add: live_inv_def\<close>)
qed

lemma slab_delete:
  assumes inv: "pages_inv S FL sm np" and live: "live_inv S FL live na" and b: "(e, b) \<in> S" "elem_at e b a" "a \<notin> set (FL b)" and l: "live a = Some n"
  shows "\<exists>sm'. SlabFree a sm = Inr sm' \<and> pages_inv S (FL(b := a # FL b)) sm' np \<and> live_inv S (FL(b := a # FL b)) (live(a := None)) na \<and> kept (live(a := None)) sm sm'"
proof -
  note d = pagesD [OF inv b(1)]
  note s = slab_of_elem [OF d(1,3,5) b(2)]
  let ?sl = "sm_slab sm b" and ?m = "store_ptr a (sl_first_free (sm_slab sm b)) (sm_bytes sm)"
  let ?sm = "sm\<lparr>sm_bytes := ?m, sm_slab := (sm_slab sm)(b := ?sl\<lparr>sl_first_free := a, sl_num_allocated := sl_num_allocated ?sl - 1\<rparr>)\<rparr>"
  have free: "SlabFree a sm = Inr ?sm" using d(7) s by (simp add: SlabFree_def Slab_Free_def Let_def slab_inv_def)
  have fit: "unat a + 8 \<le> 2 ^ 64" "a \<noteq> 0" using b(2) d(2,5) by (auto simp: elem_at_def kKernelSlabHeapEnd_def)
  have same: "?m x = sm_bytes sm x" if "\<not> in_block a 8 x" for x by (rule store_outside [OF that fit(1)])
  have "pages_inv S FL (sm\<lparr>sm_bytes := ?m\<rparr>) np"
  proof (rule pages_bytes [OF inv], rule same)
    fix e' b' c x assume c: "(e', b') \<in> S" "c \<in> set (FL b')" "in_block c 8 x"
    have c': "elem_at e' b' c" "8 \<le> e'" using pagesD [OF inv c(1)] c(2) by (auto simp: slab_inv_def)
    have "a \<noteq> c" using page_unique [OF inv b(1,2) c(1)] c' c(2) b(3) by auto
    then show "\<not> in_block a 8 x" using elems_apart [OF inv b(1,2) c(1) c'(1)] c'(2) d(2) c(3) by (auto simp: in_block_def)
  qed
  then have old: "slab_inv e' b' (sm\<lparr>sm_bytes := ?m\<rparr>) (FL b')" if "(e', b') \<in> S" for e' b' using pagesD(7) that by blast
  have new: "slab_inv e b ?sm (a # FL b)" using old [OF b(1)] b(2,3) fit(2) by (simp add: slab_inv_def load_store)
  have "slab_inv e' b' ?sm ((FL(b := a # FL b)) b')" if S: "(e', b') \<in> S" for e' b'
  proof (cases "b' = b")
    case True
    then have "e' = e" using inv b(1) S unfolding pages_inv_def by blast
    then show ?thesis using True new by simp
  qed (use old [OF S] in \<open>simp add: slab_inv_def\<close>)
  then have "pages_inv S (FL(b := a # FL b)) ?sm np" using inv unfolding pages_inv_def by blast
  moreover have "live_inv S (FL(b := a # FL b)) (live(a := None)) na"
    by (rule live_inv_remove [OF live]) (fastforce simp: slab_block_def)
  moreover have "kept (live(a := None)) sm ?sm"
    unfolding kept_def
  proof (intro allI impI)
    fix c k x assume c: "(live(a := None)) c = Some k" "in_block c (unat k) x"
    then have "live c = Some k" "c \<noteq> a" by (auto split: if_splits)
    then have "\<not> in_block a 8 x" using elem_not_live [OF inv live b(1,2)] c(2) by blast
    then show "sm_bytes ?sm x = sm_bytes sm x" using same by simp
  qed
  ultimately show ?thesis using free by blast
qed

lemma operator_delete_ok:
  assumes inv: "heap_inv h sm v live" and l: "live a = Some n"
  shows "\<exists>sm'. operator_delete a sm = Inr sm' \<and> heap_inv h sm' v (live(a := None)) \<and> kept (live(a := None)) sm sm'"
proof -
  obtain S FL where S: "pages_inv S FL sm (next_page v)" "live_inv S FL live (kh_next_addr h)" "kh_upper_bound h = kKernelBuddyHeapEnd"
      "\<forall>(e, sa) \<in> allocators h. sa_elem_size sa = of_nat e \<and> (\<forall>b \<in> set (sa_slabs sa). (e, b) \<in> S)"
    using inv unfolding heap_inv_def by blast
  have "slab_block S FL a n \<or> kKernelBuddyHeapStart \<le> a" using S(2) l by (auto simp: live_inv_def)
  then show ?thesis
  proof
    assume "slab_block S FL a n"
    then obtain e b where b: "(e, b) \<in> S" "elem_at e b a" "a \<notin> set (FL b)" by (auto simp: slab_block_def)
    obtain sm' where sm': "SlabFree a sm = Inr sm'" "pages_inv S (FL(b := a # FL b)) sm' (next_page v)" "live_inv S (FL(b := a # FL b)) (live(a := None)) (kh_next_addr h)"
        "kept (live(a := None)) sm sm'" using slab_delete [OF S(1,2) b l] by blast
    have "IsSlab a" using pagesD [OF S(1) b(1)] b(2) by (auto simp: IsSlab_def elem_at_def word_le_nat_alt word_less_nat_alt)
    then show ?thesis using sm' heap_invI [OF S(3) sm'(2,3) S(4)] by (simp add: operator_delete_def)
  next
    assume "kKernelBuddyHeapStart \<le> a"
    then have "\<not> IsSlab a" by (simp add: IsSlab_def kKernelBuddyHeapStart_def kKernelSlabHeapEnd_def not_less)
    moreover have "live_inv S FL (live(a := None)) (kh_next_addr h)" by (rule live_inv_remove [OF S(2)])
    ultimately show ?thesis using heap_invI [OF S(3,1) _ S(4)] by (simp add: operator_delete_def kept_def)
  qed
qed

section \<open>Runs of the heap\<close>

text \<open>
  The heap with the blocks that are allocated.  A step allocates a block, frees a block that is
  allocated, or changes bytes of allocated blocks.  The slabs stay in their region, and a size does not
  reach around the end of the address space.
\<close>

inductive heap_step :: "(KernelHeap \<times> Backing) \<times> (u64 \<rightharpoonup> u64) \<Rightarrow> (KernelHeap \<times> Backing) \<times> (u64 \<rightharpoonup> u64) \<Rightarrow> bool" where
  alloc: "operator_new sz (Some h, sm, v, st) = Some (Inr (p, Some h', sm', v', st')) \<Longrightarrow> next_page v' \<le> kKernelSlabHeapEnd \<Longrightarrow>
    unat (kh_next_addr h) + unat sz < 2 ^ 64 \<Longrightarrow> heap_step ((h, sm, v, st), live) ((h', sm', v', st'), live(p \<mapsto> sz))"
| release: "live a = Some n \<Longrightarrow> operator_delete a sm = Inr sm' \<Longrightarrow> heap_step ((h, sm, v, st), live) ((h, sm', v, st), live(a := None))"
| store: "\<forall>x. m' x \<noteq> sm_bytes sm x \<longrightarrow> (\<exists>a n. live a = Some n \<and> in_block a (unat n) x) \<Longrightarrow>
    heap_step ((h, sm, v, st), live) ((h, sm\<lparr>sm_bytes := m'\<rparr>, v, st), live)"

inductive_cases heap_stepE: "heap_step ((h, sm, v, st), live) c'"

definition run_inv :: "(KernelHeap \<times> Backing) \<times> (u64 \<rightharpoonup> u64) \<Rightarrow> bool" where
  "run_inv c = (case c of ((h, sm, v, st), live) \<Rightarrow> heap_inv h sm v live)"

lemma run_inv_step: "heap_step c c' \<Longrightarrow> run_inv c \<Longrightarrow> run_inv c'"
proof (induction rule: heap_step.induct)
  case (alloc sz h sm v st p h' sm' v' st' live)
  then show ?case using operator_new_ok [of h sm v live sz st p "Some h'" sm' v' st'] by (simp add: run_inv_def)
next
  case (release live a n sm sm' h v st)
  then show ?case using operator_delete_ok [of h sm v live a n] by (simp add: run_inv_def)
next
  case (store m' sm live h v st)
  then show ?case using heap_write [of h sm v live m'] by (simp add: run_inv_def)
qed

lemma run_inv_steps: "heap_step\<^sup>*\<^sup>* c c' \<Longrightarrow> run_inv c \<Longrightarrow> run_inv c'"
  by (induction rule: rtranclp_induct) (auto intro: run_inv_step)

lemma run_inv_new:
  assumes "next_page v = kKernelSlabHeapStart"
  shows "run_inv ((KernelHeap_new, sm, v, st), Map.empty)"
  unfolding run_inv_def prod.case
  by (rule heap_invI [of _ "{}" "\<lambda>_. []"])
     (auto simp: assms KernelHeap_new_def allocators_def SlabAllocator_new_def pages_inv_def live_inv_def kKernelSlabHeapStart_def kKernelSlabHeapEnd_def
       kKernelBuddyHeapStart_def kKernelBuddyHeapEnd_def)

text \<open>Small allocations return as long as a page can be had.\<close>

lemma SlabAllocator_Allocate_returns:
  assumes inv: "pages_inv S FL sm (next_page v)" and sa: "e \<in> slab_sizes" "sa_elem_size sa = of_nat e" "\<forall>b \<in> set (sa_slabs sa). (e, b) \<in> S"
    and page: "unat (next_page v) + 4096 \<le> unat kKernelSlabHeapEnd" "EnsureResident (next_page v) kSlabSize st = Some (Inr st')"
  shows "\<exists>x. SlabAllocator_Allocate sa (sm, v, st) = Some (Inr x)"
proof (cases "find_slab sm (sa_slabs sa)")
  case (Some b)
  then have "(e, b) \<in> S" "\<not> Slab_IsFull (sm_slab sm b)" using find_slab_Some [OF Some] sa(3) by auto
  then obtain p sm' where "Slab_Allocate b sm = Inr (p, sm')" using Slab_Allocate_ok [OF inv] by blast
  then show ?thesis using Some by (simp add: SlabAllocator_Allocate_def)
next
  case None
  obtain F sm1 where s: "Slab_new (next_page v) (of_nat e) sm = Some (Inr sm1)" "pages_inv (insert (e, next_page v) S) (FL(next_page v := F)) sm1 (next_page v + kSlabSize)"
      "\<not> Slab_IsFull (sm_slab sm1 (next_page v))" using pages_new_slab [OF inv sa(1) page(1)] by blast
  have "next_page v < kKernelBuddyHeapEnd" using page(1) by (simp add: word_less_nat_alt kKernelSlabHeapEnd_def kKernelBuddyHeapEnd_def)
  then have "AcquireSlabHeapRegion kSlabSize v st = Some (Inr (next_page v, v\<lparr>vmm_next_slab_heap_page := next_page v + kSlabSize\<rparr>, st'))"
    using page(2) by (simp add: AcquireSlabHeapRegion_def Let_def)
  moreover obtain p sm' where "Slab_Allocate (next_page v) sm1 = Inr (p, sm')" using Slab_Allocate_ok [OF s(2) _ s(3)] by blast
  ultimately show ?thesis using None s(1) sa(2) by (simp add: SlabAllocator_Allocate_def)
qed

lemma try_slab_returns:
  assumes a: "\<exists>x. SlabAllocator_Allocate (get h) bk = Some (Inr x)" and r: "\<not> sz \<le> n \<Longrightarrow> \<exists>x. rest (h, bk) = Some (Inr x)"
  shows "\<exists>x. try_slab n get put sz rest (h, bk) = Some (Inr x)"
proof (cases "sz \<le> n")
  case True
  obtain r sa bk' where x: "SlabAllocator_Allocate (get h) bk = Some (Inr (r, sa, bk'))" using a by (metis prod.collapse)
  then show ?thesis using SlabAllocator_Allocate_value [OF x] True by (cases bk') (auto simp: try_slab_def)
qed (use r in \<open>simp add: try_slab_def\<close>)

lemma operator_new_returns:
  assumes inv: "heap_inv h sm v live" and page: "unat (next_page v) + 4096 \<le> unat kKernelSlabHeapEnd" "EnsureResident (next_page v) kSlabSize st = Some (Inr st')"
    and sz: "sz \<le> 128"
  shows "\<exists>x. operator_new sz (Some h, sm, v, st) = Some (Inr x)"
proof -
  obtain S FL where S: "pages_inv S FL sm (next_page v)"
      "\<forall>(e, sa) \<in> allocators h. sa_elem_size sa = of_nat e \<and> (\<forall>b \<in> set (sa_slabs sa). (e, b) \<in> S)"
    using inv unfolding heap_inv_def by blast
  have a: "\<exists>x. SlabAllocator_Allocate sa (sm, v, st) = Some (Inr x)" if sa: "sa \<in> snd ` allocators h" for sa
  proof -
    obtain e where e: "(e, sa) \<in> allocators h" using sa by auto
    then have "e \<in> slab_sizes" by (auto simp: allocators_def slab_sizes_def)
    then show ?thesis using SlabAllocator_Allocate_returns [OF S(1) _ _ _ page] S(2) e by blast
  qed
  have "\<exists>y. KernelHeap_Allocate sz (h, sm, v, st) = Some (Inr y)"
    unfolding KernelHeap_Allocate_def
    by (intro try_slab_returns a) (use sz in \<open>simp_all add: allocators_def slab_sizes_def\<close>)
  then show ?thesis by (auto simp: operator_new_def GetKernelHeap_def)
qed

text \<open>
  C6.  However blocks are allocated, freed and written to, from the heap as it is constructed on, as long as the slabs
  stay in their region and no size reaches around the end of the address space: no two allocated blocks
  overlap; freeing any of them returns and leaves the bytes of all the others alone; an allocation that returns gives
  a block apart from all of them and leaves their bytes alone; and an allocation of at most 128 bytes
  does return if a page for a new slab can be had.
\<close>

theorem heap_blocks_apart:
  assumes "heap_step\<^sup>*\<^sup>* ((KernelHeap_new, sm0, v0, st0), Map.empty) ((h, sm, v, st), live)" and "next_page v0 = kKernelSlabHeapStart"
  shows "(\<forall>a n a' n'. live a = Some n \<longrightarrow> live a' = Some n' \<longrightarrow> a \<noteq> a' \<longrightarrow> apart a n a' n') \<and>
    (\<forall>a n. live a = Some n \<longrightarrow> (\<exists>sm'. operator_delete a sm = Inr sm' \<and> kept (live(a := None)) sm sm')) \<and>
    (\<forall>sz p g sm' v' st'. operator_new sz (Some h, sm, v, st) = Some (Inr (p, g, sm', v', st')) \<longrightarrow> next_page v' \<le> kKernelSlabHeapEnd \<longrightarrow>
       unat (kh_next_addr h) + unat sz < 2 ^ 64 \<longrightarrow> live p = None \<and> kept live sm sm' \<and> (\<forall>a n. live a = Some n \<longrightarrow> apart a n p sz)) \<and>
    (\<forall>sz st'. sz \<le> 128 \<longrightarrow> unat (next_page v) + 4096 \<le> unat kKernelSlabHeapEnd \<longrightarrow> EnsureResident (next_page v) kSlabSize st = Some (Inr st') \<longrightarrow>
       (\<exists>x. operator_new sz (Some h, sm, v, st) = Some (Inr x)))"
proof -
  have inv: "heap_inv h sm v live" using run_inv_steps [OF assms(1) run_inv_new [OF assms(2)]] by (simp add: run_inv_def)
  have ap: "apart a n a' n'" if "heap_inv h1 sm1 v1 l" "l a = Some n" "l a' = Some n'" "a \<noteq> a'" for h1 sm1 v1 l a n a' n'
    using that unfolding heap_inv_def live_inv_def by blast
  have "live p = None \<and> kept live sm sm' \<and> (\<forall>a n. live a = Some n \<longrightarrow> apart a n p sz)"
    if new: "operator_new sz (Some h, sm, v, st) = Some (Inr (p, g, sm', v', st'))" "next_page v' \<le> kKernelSlabHeapEnd" "unat (kh_next_addr h) + unat sz < 2 ^ 64"
    for sz p g sm' v' st'
  proof -
    obtain h' where h': "live p = None" "kept live sm sm'" "heap_inv h' sm' v' (live(p \<mapsto> sz))" using operator_new_ok [OF inv new] by blast
    have "apart a n p sz" if "live a = Some n" for a n using ap [OF h'(3), of a n p sz] that h'(1) by (cases "a = p") auto
    then show ?thesis using h' by blast
  qed
  then show ?thesis using ap [OF inv] operator_delete_ok [OF inv] operator_new_returns [OF inv] by blast
qed

text \<open>The first allocation, on a machine where every page is resident.\<close>

definition resident_machine :: Machine where
  "resident_machine = machine_example\<lparr>mc_mem := (\<lambda>_. 0x1001)\<rparr>"

definition fresh_vmm :: KernelVmm where
  "fresh_vmm = \<lparr>vmm_next_slab_heap_page = kKernelSlabHeapStart, vmm_stack_manager = KernelStackManager_new\<rparr>"

lemma next_page_Allocate:
  "SlabAllocator_Allocate sa (sm, v, st) = Some (Inr (r, sa', sm', v', st')) \<Longrightarrow> next_page v' = next_page v \<or> next_page v' = next_page v + kSlabSize"
  by (auto simp: SlabAllocator_Allocate_def AcquireSlabHeapRegion_def opt_run_bind_eq_Inr run_map_eq_Inr Let_def split: option.splits if_splits)

lemma resident_page: "EnsureResident kKernelSlabHeapStart kSlabSize resident_machine = Some (Inr resident_machine)"
proof -
  have "AllocatePageIfNecessary a resident_machine = Inr (0x1000, resident_machine)" for a
    by (simp add: AllocatePageIfNecessary_def PagePhysIfResident_def resident_machine_def present_def PRESENT_BIT_def Let_def)
  then show ?thesis
    by (simp add: EnsureResident_def PageAlign_def kKernelSlabHeapStart_def kSlabSize_def ensure_loop.simps)
qed

lemma first_block:
  "\<exists>p h sm v st. heap_step\<^sup>*\<^sup>* ((KernelHeap_new, sm0, fresh_vmm, resident_machine), Map.empty) ((h, sm, v, st), [p \<mapsto> 8])"
proof -
  have v: "next_page fresh_vmm = kKernelSlabHeapStart" by (simp add: fresh_vmm_def)
  have inv: "heap_inv KernelHeap_new sm0 fresh_vmm Map.empty" using run_inv_new [OF v] by (simp add: run_inv_def)
  obtain x where x: "operator_new 8 (Some KernelHeap_new, sm0, fresh_vmm, resident_machine) = Some (Inr x)"
    using operator_new_returns [OF inv _ resident_page [folded v], of 8] by (auto simp: v kKernelSlabHeapStart_def kKernelSlabHeapEnd_def)
  obtain p g sm v st where x': "x = (p, g, sm, v, st)" by (cases x)
  obtain h sm1 where a: "KernelHeap_Allocate 8 (KernelHeap_new, sm0, fresh_vmm, resident_machine) = Some (Inr (p, h, sm1, v, st))"
    using x x' by (auto simp: operator_new_def GetKernelHeap_def opt_run_bind_eq_Inr)
  have room: "next_page v \<le> kKernelSlabHeapEnd"
    using try_slab_run(1) [OF a [unfolded KernelHeap_Allocate_def]] next_page_Allocate by (fastforce simp: fresh_vmm_def kKernelSlabHeapStart_def kKernelSlabHeapEnd_def kSlabSize_def)
  have sz: "unat (kh_next_addr KernelHeap_new) + unat (8 :: u64) < 2 ^ 64" by (simp add: KernelHeap_new_def kKernelBuddyHeapStart_def)
  obtain h' where "g = Some h'" using operator_new_ok [OF inv x [unfolded x'] room sz] by blast
  then show ?thesis using heap_step.alloc [OF x [unfolded x' \<open>g = Some h'\<close>] room sz, of Map.empty] by blast
qed

definition fresh_mem :: SlabMem where
  "fresh_mem = \<lparr>sm_bytes = (\<lambda>_. 0), sm_slab = (\<lambda>_. \<lparr>sl_elem_size = 0, sl_num_allocated = 0, sl_first_free = 0\<rparr>)\<rparr>"

theorem heap_blocks_apart_witness:
  "\<exists>p h sm v st sm'. heap_step\<^sup>*\<^sup>* ((KernelHeap_new, fresh_mem, fresh_vmm, resident_machine), Map.empty) ((h, sm, v, st), [p \<mapsto> 8]) \<and> operator_delete p sm = Inr sm'"
proof -
  obtain p h sm v st where r: "heap_step\<^sup>*\<^sup>* ((KernelHeap_new, fresh_mem, fresh_vmm, resident_machine), Map.empty) ((h, sm, v, st), [p \<mapsto> 8])" using first_block by blast
  have "next_page fresh_vmm = kKernelSlabHeapStart" by (simp add: fresh_vmm_def)
  from conjunct1 [OF conjunct2 [OF heap_blocks_apart [OF r this]]] have "\<exists>sm'. operator_delete p sm = Inr sm'" by (metis fun_upd_same)
  then show ?thesis using r by blast
qed

lemma try_slab_skip: "n < sz \<Longrightarrow> try_slab n get put sz rest (h, bk) = rest (h, bk)"
  by (auto simp: try_slab_def)

text \<open>
  C38.  A size that reaches around the end of the address space passes the test against the end of the heap: the
  allocation returns the next address without mapping a single page, and the heap goes on allocating from a
  lower address than before.
\<close>

theorem huge_allocation_wraps:
  assumes h: "kKernelBuddyHeapStart \<le> kh_next_addr h" "kh_next_addr h \<le> kKernelBuddyHeapEnd" "kh_upper_bound h = kKernelBuddyHeapEnd"
    and sz: "2 ^ 64 \<le> unat (kh_next_addr h) + unat sz" "unat sz \<le> 2 ^ 64 - 0x2000"
  shows "\<exists>h'. KernelHeap_Allocate sz (h, sm, v, st) = Some (Inr (kh_next_addr h, h', sm, v, st)) \<and> kh_next_addr h' < kh_next_addr h"
proof -
  let ?na = "kh_next_addr h"
  have na: "unat kKernelBuddyHeapStart \<le> unat ?na" "unat ?na \<le> unat kKernelBuddyHeapEnd" using h by (simp_all add: word_le_nat_alt)
  have w: "unat (?na + sz) = unat ?na + unat sz - 2 ^ 64" using sz(1) unat_lt_64 [of ?na] unat_lt_64 [of sz] by (simp add: unat_word_ariths mod_if)
  have low: "?na + sz < kKernelBuddyHeapEnd" using w na(2) unat_lt_64 [of sz] sz(2) by (simp add: word_less_nat_alt kKernelBuddyHeapEnd_def)
  have "\<not> PageAlign ?na < ?na + sz" using w sz(2) by (simp add: word_less_nat_alt unat_PageAlign)
  then have res: "EnsureResident ?na sz st = Some (Inr st)" by (simp add: EnsureResident_def ensure_loop.simps)
  have big: "\<not> sz \<le> 8" "\<not> sz \<le> 16" "\<not> sz \<le> 32" "\<not> sz \<le> 64" "\<not> sz \<le> 128"
    using sz(1) na(2) by (simp_all add: word_le_nat_alt kKernelBuddyHeapEnd_def)
  let ?n = "if (?na + sz) AND 0x7 \<noteq> 0 then ((?na + sz) AND NOT 0x7) + 0x8 else ?na + sz"
  have "unat ?n \<le> unat (?na + sz) + 8" by (rule round_up_8(3) [OF low])
  moreover have "unat (?na + sz) + 0x2000 \<le> unat ?na" using w sz by simp
  ultimately have "unat ?n < unat ?na" by linarith
  then have "?n < ?na" by (simp only: word_less_nat_alt)
  moreover have "KernelHeap_Allocate sz (h, sm, v, st) = Some (Inr (?na, h\<lparr>kh_alloc_count := kh_alloc_count h + 1, kh_next_addr := ?n\<rparr>, sm, v, st))"
    using low res big h(3) by (simp add: KernelHeap_Allocate_def try_slab_skip bump_allocate_def Let_def not_le)
  ultimately show ?thesis by (intro exI conjI) auto
qed

theorem huge_allocation_wraps_witness:
  "\<exists>h'. KernelHeap_Allocate 0xFFFFFFFFFFFF0000 (KernelHeap_new, fresh_mem, fresh_vmm, machine_example) = Some (Inr (0xFFFFFFFF60000000, h', fresh_mem, fresh_vmm, machine_example)) \<and> kh_next_addr h' < 0xFFFFFFFF60000000"
  using huge_allocation_wraps [of KernelHeap_new "0xFFFFFFFFFFFF0000" fresh_mem fresh_vmm machine_example]
  by (simp add: KernelHeap_new_def kKernelBuddyHeapStart_def kKernelBuddyHeapEnd_def)

end
