(* ===== verification/Glcr_String.thy ===== *)
theory Glcr_String
  imports Glcr_Status Glcr_Array Glcr_HashMap "HOL-Library.Monad_Syntax"
begin

text \<open>
  The strings of glacier (\<open>lib/glacier/string\<close>): the owning \<open>String\<close>, the borrowed
  \<open>StringView\<close>, splitting, the two string builders and formatting, and the hash of a string
  (\<open>lib/glacier/util/hash.cpp\<close>).

  A \<open>char\<close> is a byte.  A \<open>String\<close> is its allocation, \<open>None\<close> for the null pointer, and its
  length; a \<open>StringView\<close> is an address and a length, and its characters are those of a memory
  \<open>m\<close>.  What \<open>new char[n]\<close> leaves in a fresh cell is the argument \<open>d\<close>.
\<close>

type_synonym Mem = "u64 \<Rightarrow> u8"

definition ch :: "char \<Rightarrow> u8" where
  "ch c = of_nat (of_char c)"

definition npos :: u64 where
  "npos = -1"

section \<open>String\<close>

record String =
  str_cstr :: "u8 list option"
  str_length :: u64

partial_function (option) cstrlen :: "Mem \<Rightarrow> u64 \<Rightarrow> u64 \<Rightarrow> u64 option" where
  "cstrlen m cstr len = (if m cstr \<noteq> 0 then cstrlen m (cstr + 1) (len + 1) else Some len)"

definition String_new :: String where
  "String_new = \<lparr>str_cstr = None, str_length = 0\<rparr>"

text \<open>The constructor from a pointer and a length; \<open>from\<close> are the cells behind the pointer.\<close>

definition String_of_ptr :: "u8 \<Rightarrow> u8 list option \<Rightarrow> u64 \<Rightarrow> String run" where
  "String_of_ptr d from str_len =
     run_bind (copy_cells (unat str_len) 0 from (Some (replicate (unat (str_len + 1)) d))) (\<lambda>p.
     run_map (\<lambda>p. \<lparr>str_cstr = p, str_length = str_len\<rparr>) (cell_set p str_len 0))"

definition String_copy :: "u8 \<Rightarrow> String \<Rightarrow> String run" where
  "String_copy d other = String_of_ptr d (str_cstr other) (str_length other)"

text \<open>The assignment from another object; the object assigned to only loses its allocation.\<close>

definition String_assign :: "u8 \<Rightarrow> String \<Rightarrow> String run" where
  "String_assign d other =
     (let length = str_length other
      in run_bind (copy_cells (unat length) 0 (str_cstr other) (Some (replicate (unat (length + 1)) d))) (\<lambda>p.
         run_map (\<lambda>p. \<lparr>str_cstr = p, str_length = length\<rparr>) (cell_set p length 0)))"

text \<open>The move constructor and the move assignment: the new value and what is left behind.\<close>

definition String_move :: "String \<Rightarrow> String \<times> String" where
  "String_move other = (other, other\<lparr>str_cstr := None, str_length := 0\<rparr>)"

fun eq_loop :: "nat \<Rightarrow> u64 \<Rightarrow> (u64 \<Rightarrow> u8 run) \<Rightarrow> (u64 \<Rightarrow> u8 run) \<Rightarrow> bool run" where
  "eq_loop 0 i a b = Inr True"
| "eq_loop (Suc n) i a b =
     run_bind (a i) (\<lambda>x. run_bind (b i) (\<lambda>y. if x \<noteq> y then Inr False else eq_loop n (i + 1) a b))"

definition String_at :: "String \<Rightarrow> u64 \<Rightarrow> u8 run" where
  "String_at s offset = cell_get (str_cstr s) offset"

definition String_eq :: "String \<Rightarrow> String \<Rightarrow> bool run" where
  "String_eq s other =
     (if str_length other \<noteq> str_length s then Inr False
      else eq_loop (unat (str_length s)) 0 (String_at s) (String_at other))"

section \<open>StringView\<close>

record StringView =
  sv_value :: u64
  sv_size :: u64

partial_function (option) StringView_cstrlen :: "Mem \<Rightarrow> u64 \<Rightarrow> u64 \<Rightarrow> u64 option" where
  "StringView_cstrlen m ptr len = (if m (ptr + len) \<noteq> 0 then StringView_cstrlen m ptr (len + 1) else Some len)"

definition StringView_new :: StringView where
  "StringView_new = \<lparr>sv_value = 0, sv_size = 0\<rparr>"

definition StringView_of_cstr :: "Mem \<Rightarrow> u64 \<Rightarrow> StringView option" where
  "StringView_of_cstr m str = map_option (\<lambda>n. \<lparr>sv_value = str, sv_size = n\<rparr>) (StringView_cstrlen m str 0)"

definition StringView_empty :: "StringView \<Rightarrow> bool" where
  "StringView_empty v \<longleftrightarrow> sv_size v = 0"

definition StringView_at :: "Mem \<Rightarrow> StringView \<Rightarrow> u64 \<Rightarrow> u8" where
  "StringView_at m v pos = m (sv_value v + pos)"

function find_char_loop :: "Mem \<Rightarrow> StringView \<Rightarrow> u8 \<Rightarrow> u64 \<Rightarrow> u64" where
  "find_char_loop m v c i =
     (if i < sv_size v then if StringView_at m v i = c then i else find_char_loop m v c (i + 1) else npos)"
  by pat_completeness auto

termination
proof (relation "measure (\<lambda>(m, v, c, i). unat (sv_size v) - unat i)")
  fix m v c i
  assume "(i :: u64) < sv_size v"
  then have "unat i < unat (sv_size v)" by (simp add: word_less_unat)
  moreover from this have "unat (i + 1) = Suc (unat i)"
    using unat_lt_64 [of "sv_size v"] by (subst unat_add_noof) simp_all
  ultimately show "((m, v, c, i + 1), (m, v, c, i)) \<in> measure (\<lambda>(m, v, c, i). unat (sv_size v) - unat i)" by simp
qed simp

declare find_char_loop.simps [simp del]

definition StringView_find :: "Mem \<Rightarrow> u8 \<Rightarrow> u64 \<Rightarrow> StringView \<Rightarrow> u64" where
  "StringView_find m c pos v = find_char_loop m v c pos"

definition StringView_substr :: "u64 \<Rightarrow> u64 \<Rightarrow> StringView \<Rightarrow> StringView" where
  "StringView_substr start count v =
     (if start \<ge> sv_size v then StringView_new
      else let count = (if start + count > sv_size v then sv_size v - start else count)
           in \<lparr>sv_value = sv_value v + start, sv_size = count\<rparr>)"

definition StringView_eq :: "Mem \<Rightarrow> StringView \<Rightarrow> StringView \<Rightarrow> bool" where
  "StringView_eq m str1 str2 =
     (if StringView_empty str1 \<and> StringView_empty str2 then True
      else if sv_size str1 \<noteq> sv_size str2 then False
      else if sv_value str1 = sv_value str2 then True
      else eq_loop (unat (sv_size str1)) 0 (\<lambda>i. Inr (StringView_at m str1 i)) (\<lambda>i. Inr (StringView_at m str2 i)) = Inr True)"

text \<open>The characters of a view.\<close>

definition sv_chars :: "Mem \<Rightarrow> StringView \<Rightarrow> u8 list" where
  "sv_chars m v = map (\<lambda>i. m (sv_value v + of_nat i)) [0..<unat (sv_size v)]"

text \<open>The constructor of a \<open>String\<close> from a view, and from a C string.\<close>

definition String_of_view :: "u8 \<Rightarrow> Mem \<Rightarrow> StringView \<Rightarrow> String run" where
  "String_of_view d m str = String_of_ptr d (Some (sv_chars m str)) (sv_size str)"

definition String_of_cstr :: "u8 \<Rightarrow> Mem \<Rightarrow> u64 \<Rightarrow> String run option" where
  "String_of_cstr d m str =
     map_option (\<lambda>n. String_of_view d m \<lparr>sv_value = str, sv_size = n\<rparr>) (cstrlen m str 0)"

section \<open>Searching a view\<close>

lemma unat_Suc_u64: "unat (i :: u64) < n \<Longrightarrow> n \<le> 18446744073709551615 \<Longrightarrow> unat (i + 1) = Suc (unat i)"
  by (subst unat_add_noof) simp_all

lemma sv_size_bound: "unat (sv_size v) \<le> 18446744073709551615"
  using unat_lt_64 [of "sv_size v"] by simp

lemma length_sv_chars [simp]: "length (sv_chars m v) = unat (sv_size v)"
  by (simp add: sv_chars_def)

lemma sv_chars_nth: "unat i < unat (sv_size v) \<Longrightarrow> sv_chars m v ! unat i = StringView_at m v i"
  by (simp add: sv_chars_def StringView_at_def)

text \<open>\<open>find\<close> gives the first position from \<open>pos\<close> on, or \<open>npos\<close>, which is no position.\<close>

lemma find_char_loop_spec:
  "(let r = find_char_loop m v c i in
      (r = npos \<and> (\<forall>j. unat i \<le> j \<longrightarrow> j < unat (sv_size v) \<longrightarrow> sv_chars m v ! j \<noteq> c)) \<or>
      (unat i \<le> unat r \<and> unat r < unat (sv_size v) \<and> sv_chars m v ! unat r = c \<and>
        (\<forall>j. unat i \<le> j \<longrightarrow> j < unat r \<longrightarrow> sv_chars m v ! j \<noteq> c)))"
proof (induction m v c i rule: find_char_loop.induct)
  case (1 m v c i)
  show ?case
  proof (cases "i < sv_size v")
    case True
    then have lt: "unat i < unat (sv_size v)" by (simp add: word_less_unat)
    note suc = unat_Suc_u64 [OF lt sv_size_bound]
    show ?thesis
    proof (cases "StringView_at m v i = c")
      case True
      then show ?thesis using \<open>i < sv_size v\<close> lt sv_chars_nth [OF lt, of m] by (subst find_char_loop.simps) auto
    next
      case False
      have first: "sv_chars m v ! unat i \<noteq> c" using False sv_chars_nth [OF lt, of m] by simp
      have split: "(\<forall>j. unat i \<le> j \<longrightarrow> P j) \<longleftrightarrow> P (unat i) \<and> (\<forall>j. Suc (unat i) \<le> j \<longrightarrow> P j)" for P
        by (metis Suc_leD Suc_leI le_eq_less_or_eq order_refl)
      have "find_char_loop m v c i = find_char_loop m v c (i + 1)" using True False by (subst find_char_loop.simps) simp
      then show ?thesis using 1 [OF True False] first unfolding Let_def suc by (auto simp: split)
    qed
  next
    case False
    then show ?thesis by (subst find_char_loop.simps) (auto simp: word_less_unat)
  qed
qed

lemma unat_npos: "unat npos = 18446744073709551615"
  by (simp add: npos_def unsigned_minus_1_eq_mask mask_eq_exp_minus_1)

lemma StringView_find_cases:
  obtains "StringView_find m c pos v = npos" and "\<And>j. unat pos \<le> j \<Longrightarrow> j < unat (sv_size v) \<Longrightarrow> sv_chars m v ! j \<noteq> c"
  | r where "StringView_find m c pos v = r" and "r \<noteq> npos" and "unat pos \<le> unat r" and "unat r < unat (sv_size v)"
    and "sv_chars m v ! unat r = c" and "\<And>j. unat pos \<le> j \<Longrightarrow> j < unat r \<Longrightarrow> sv_chars m v ! j \<noteq> c"
proof -
  have "r \<noteq> npos" if "unat r < unat (sv_size v)" for r
    using that sv_size_bound [of v] unat_npos by auto
  then show ?thesis
    using find_char_loop_spec [of m v c pos] that unfolding Let_def StringView_find_def by blast
qed

lemma StringView_find_le:
  "StringView_find m c pos v \<noteq> npos \<Longrightarrow> unat pos \<le> unat (StringView_find m c pos v) \<and>
     unat (StringView_find m c pos v) < unat (sv_size v)"
  by (cases rule: StringView_find_cases [of m c pos v]) auto

section \<open>Splitting\<close>

function split_loop :: "StringView \<Rightarrow> Mem \<Rightarrow> StringView \<Rightarrow> u8 \<Rightarrow> u64 \<Rightarrow> StringView Vector \<Rightarrow> (u64 \<times> StringView Vector) run" where
  "split_loop d m str delimiter cur_pos strings =
     (let next_pos = StringView_find m delimiter cur_pos str
      in if next_pos \<noteq> npos
         then run_bind (Vector_PushBack d (StringView_substr cur_pos (next_pos - cur_pos) str) strings)
                (split_loop d m str delimiter (next_pos + 1))
         else Inr (cur_pos, strings))"
  by pat_completeness auto

termination
proof (relation "measure (\<lambda>(d, m, str, delimiter, cur_pos, strings). unat (sv_size str) - unat cur_pos)")
  fix d m str delimiter cur_pos and strings x :: "StringView Vector" and next_pos
  assume n: "next_pos = StringView_find m delimiter cur_pos str" "next_pos \<noteq> npos"
  then have "unat cur_pos \<le> unat next_pos" "unat next_pos < unat (sv_size str)"
    using StringView_find_le [of m delimiter cur_pos str] by simp_all
  moreover from this have "unat (next_pos + 1) = Suc (unat next_pos)" using unat_Suc_u64 sv_size_bound by blast
  ultimately show "((d, m, str, delimiter, next_pos + 1, x), (d, m, str, delimiter, cur_pos, strings)) \<in>
      measure (\<lambda>(d, m, str, delimiter, cur_pos, strings). unat (sv_size str) - unat cur_pos)" by simp
qed simp

declare split_loop.simps [simp del]

definition StrSplit :: "StringView \<Rightarrow> Mem \<Rightarrow> StringView \<Rightarrow> u8 \<Rightarrow> StringView Vector run" where
  "StrSplit d m str delimiter =
     run_bind (split_loop d m str delimiter 0 Vector_new) (\<lambda>(cur_pos, strings).
     Vector_PushBack d (StringView_substr cur_pos (sv_size str - cur_pos) str) strings)"

text \<open>What a substring holds, when its bounds do not wrap around.\<close>

lemma sv_chars_substr:
  assumes "unat start + unat count \<le> unat (sv_size v)"
  shows "sv_chars m (StringView_substr start count v) = take (unat count) (drop (unat start) (sv_chars m v))"
proof (cases "start \<ge> sv_size v")
  case True
  then have "unat start = unat (sv_size v)" "unat count = 0" using assms by (auto simp: word_le_unat)
  then show ?thesis using True by (simp add: StringView_substr_def StringView_new_def sv_chars_def)
next
  case False
  have "unat (start + count) = unat start + unat count"
    using assms sv_size_bound [of v] by (subst unat_add_noof) simp_all
  then have "\<not> start + count > sv_size v" using assms by (simp add: word_less_unat)
  then have "sv_chars m (StringView_substr start count v) =
      map (\<lambda>i. m (sv_value v + start + of_nat i)) [0..<unat count]"
    using False by (simp add: StringView_substr_def sv_chars_def)
  also have "\<dots> = take (unat count) (drop (unat start) (sv_chars m v))"
    using assms by (intro nth_equalityI) (simp_all add: sv_chars_def add.assoc)
  finally show ?thesis .
qed

text \<open>Putting the pieces together again.\<close>

fun join :: "u8 \<Rightarrow> u8 list list \<Rightarrow> u8 list" where
  "join d [] = []"
| "join d [p] = p"
| "join d (p # q # ps) = p @ d # join d (q # ps)"

lemma join_snoc: "join d (ps @ [p]) = concat (map (\<lambda>q. q @ [d]) ps) @ p"
  by (induction ps rule: induct_list012) auto

lemma split_loop_ok:
  assumes "vec_inv strings" and "unat cur_pos \<le> unat (sv_size str)"
    and "length (vec_list strings) + (unat (sv_size str) - unat cur_pos) < 9223372036854775808"
  shows "\<exists>cur' strings' ws. split_loop d m str c cur_pos strings = Inr (cur', strings') \<and> vec_inv strings' \<and>
    vec_list strings' = vec_list strings @ ws \<and> unat cur' \<le> unat (sv_size str) \<and>
    length (vec_list strings') < 9223372036854775808 \<and>
    concat (map (\<lambda>w. sv_chars m w @ [c]) ws) @ drop (unat cur') (sv_chars m str) = drop (unat cur_pos) (sv_chars m str) \<and>
    (\<forall>w \<in> set ws. c \<notin> set (sv_chars m w)) \<and> c \<notin> set (drop (unat cur') (sv_chars m str))"
  using assms
proof (induction "unat (sv_size str) - unat cur_pos" arbitrary: cur_pos strings rule: less_induct)
  case less
  let ?n = "unat (sv_size str)" and ?s = "sv_chars m str"
  show ?case
  proof (cases rule: StringView_find_cases [of m c cur_pos str])
    case 1
    have "?s ! (unat cur_pos + i) \<noteq> c" if "i < ?n - unat cur_pos" for i using 1(2) [of "unat cur_pos + i"] that by simp
    then have "c \<notin> set (drop (unat cur_pos) ?s)" by (auto simp: in_set_conv_nth)
    then show ?thesis using 1(1) less.prems by (subst split_loop.simps) simp
  next
    case (2 r)
    have suc: "unat (r + 1) = Suc (unat r)" using unat_Suc_u64 2(4) sv_size_bound by blast
    have le: "cur_pos \<le> r" using 2(3) by (simp add: word_le_unat)
    then have cnt: "unat (r - cur_pos) = unat r - unat cur_pos" by (rule unat_sub_le)
    let ?w = "StringView_substr cur_pos (r - cur_pos) str"
    have w: "sv_chars m ?w = take (unat r - unat cur_pos) (drop (unat cur_pos) ?s)"
      using sv_chars_substr [of cur_pos "r - cur_pos" str m] cnt 2(3,4) by simp
    have "?s ! (unat cur_pos + i) \<noteq> c" if "i < unat r - unat cur_pos" for i
      using 2(6) [of "unat cur_pos + i"] that by simp
    then have "c \<notin> set (sv_chars m ?w)" unfolding w using 2(3,4) by (auto simp: in_set_conv_nth)
    moreover have "sv_chars m ?w @ c # drop (Suc (unat r)) ?s = drop (unat cur_pos) ?s"
    proof -
      have "drop (unat cur_pos) ?s = take (unat r - unat cur_pos) (drop (unat cur_pos) ?s) @ drop (unat r) ?s"
      proof -
        have "drop (unat r) ?s = drop (unat r - unat cur_pos) (drop (unat cur_pos) ?s)" using 2(3) by simp
        then show ?thesis by (simp only: append_take_drop_id)
      qed
      moreover have "drop (unat r) ?s = c # drop (Suc (unat r)) ?s" using 2(4,5) by (simp add: Cons_nth_drop_Suc [symmetric])
      ultimately show ?thesis unfolding w by simp
    qed
    moreover obtain strings1 where s1: "Vector_PushBack d ?w strings = Inr strings1" "vec_inv strings1"
        "vec_list strings1 = vec_list strings @ [?w]"
      using vec.push_ok [OF less.prems(1), of d ?w] less.prems(3) by auto
    moreover have dec: "?n - unat (r + 1) < ?n - unat cur_pos" and le': "unat (r + 1) \<le> ?n"
      and room: "length (vec_list strings1) + (?n - unat (r + 1)) < 9223372036854775808"
      using suc 2(3,4) less.prems(3) s1(3) by simp_all
    moreover have "split_loop d m str c cur_pos strings = split_loop d m str c (r + 1) strings1"
      using 2(1,2) s1(1) by (subst split_loop.simps) simp
    moreover obtain cur' strings' ws where
      "split_loop d m str c (r + 1) strings1 = Inr (cur', strings')" "vec_inv strings'"
      "vec_list strings' = vec_list strings1 @ ws" "unat cur' \<le> ?n" "length (vec_list strings') < 9223372036854775808"
      "concat (map (\<lambda>w. sv_chars m w @ [c]) ws) @ drop (unat cur') ?s = drop (Suc (unat r)) ?s"
      "\<forall>w \<in> set ws. c \<notin> set (sv_chars m w)" "c \<notin> set (drop (unat cur') ?s)"
      using less.hyps [OF dec s1(2) le' room] unfolding suc by blast
    ultimately show ?thesis by (intro exI [of _ cur'] exI [of _ strings'] exI [of _ "?w # ws"]) auto
  qed
qed

lemma StrSplit_ok:
  assumes "unat (sv_size str) < 9223372036854775807"
  shows "\<exists>v. StrSplit d m str c = Inr v \<and> vec_inv v \<and> vec_list v \<noteq> [] \<and>
    join c (map (sv_chars m) (vec_list v)) = sv_chars m str \<and> (\<forall>w \<in> set (vec_list v). c \<notin> set (sv_chars m w))"
proof -
  obtain cur' strings' where l: "split_loop d m str c 0 Vector_new = Inr (cur', strings')" "vec_inv strings'"
      "unat cur' \<le> unat (sv_size str)" "length (vec_list strings') < 9223372036854775808"
      "concat (map (\<lambda>w. sv_chars m w @ [c]) (vec_list strings')) @ drop (unat cur') (sv_chars m str) = sv_chars m str"
      "\<forall>w \<in> set (vec_list strings'). c \<notin> set (sv_chars m w)" "c \<notin> set (drop (unat cur') (sv_chars m str))"
    using split_loop_ok [of Vector_new 0 str d m c] assms by auto
  let ?w = "StringView_substr cur' (sv_size str - cur') str"
  have "unat (sv_size str - cur') = unat (sv_size str) - unat cur'"
    using l(3) by (intro unat_sub_le) (simp add: word_le_unat)
  then have w: "sv_chars m ?w = drop (unat cur') (sv_chars m str)"
    using sv_chars_substr [of cur' "sv_size str - cur'" str m] l(3) by simp
  obtain v where "Vector_PushBack d ?w strings' = Inr v" "vec_inv v" "vec_list v = vec_list strings' @ [?w]"
    using vec.push_ok [OF l(2,4), of d ?w] by auto
  then show ?thesis
    using l(1,5,6,7) w by (auto simp: StrSplit_def join_snoc comp_def)
qed

text \<open>
  C33.  Splitting and joining.  \<open>StrSplit\<close> returns for every view of fewer than 2^63 characters;
  no piece contains the delimiter, and the pieces joined by the delimiter are the characters of
  the view.  In particular an empty view gives one empty piece.
\<close>

theorem StrSplit_join:
  assumes "unat (sv_size str) < 9223372036854775807"
  shows "\<exists>v. StrSplit d m str c = Inr v \<and> vec_inv v \<and>
    join c (map (sv_chars m) (vec_list v)) = sv_chars m str \<and> (\<forall>w \<in> set (vec_list v). c \<notin> set (sv_chars m w))"
  using StrSplit_ok [OF assms, of d m c] by blast

theorem StrSplit_join_witness:
  "\<exists>v. StrSplit StringView_new (\<lambda>a. if a = 0x1002 then 0x2F else 0x61) \<lparr>sv_value = 0x1000, sv_size = 5\<rparr> 0x2F = Inr v \<and>
     join 0x2F (map (sv_chars (\<lambda>a. if a = 0x1002 then 0x2F else 0x61)) (vec_list v)) = [0x61, 0x61, 0x2F, 0x61, 0x61]"
proof -
  have "[0..<5] = [0, 1, 2, 3, 4 :: nat]" by (simp add: upt_rec)
  then have "sv_chars (\<lambda>a. if a = 0x1002 then 0x2F else 0x61) \<lparr>sv_value = 0x1000, sv_size = 5\<rparr> =
      [0x61, 0x61, 0x2F, 0x61, 0x61]"
    by (simp add: sv_chars_def)
  then show ?thesis
    using StrSplit_join [of "\<lparr>sv_value = 0x1000, sv_size = 5\<rparr>" StringView_new "\<lambda>a. if a = 0x1002 then 0x2F else 0x61" "0x2F"]
    by auto
qed

section \<open>String builders\<close>

text \<open>
  The two classes behind the interface \<open>StringBuilder\<close>: one over a \<open>Vector<char>\<close>, one over a
  buffer of the caller with its capacity and size.  A view is passed to a builder as its
  characters.
\<close>

datatype StringBuilder =
    VariableStringBuilder "u8 Vector"
  | FixedStringBuilder "u8 list option" u64 u64

definition VariableStringBuilder_new :: StringBuilder where
  "VariableStringBuilder_new = VariableStringBuilder Vector_new"

definition FixedStringBuilder_new :: "u8 list option \<Rightarrow> u64 \<Rightarrow> StringBuilder" where
  "FixedStringBuilder_new buffer capacity = FixedStringBuilder buffer capacity 0"

fun StringBuilder_size :: "StringBuilder \<Rightarrow> u64" where
  "StringBuilder_size (VariableStringBuilder data) = vec_size data"
| "StringBuilder_size (FixedStringBuilder buffer capacity sz) = sz"

text \<open>\<open>PushBack\<close> of one character.\<close>

fun StringBuilder_PushBack_char :: "u8 \<Rightarrow> u8 \<Rightarrow> StringBuilder \<Rightarrow> StringBuilder run" where
  "StringBuilder_PushBack_char d str (VariableStringBuilder data) =
     run_map VariableStringBuilder (Vector_PushBack d str data)"
| "StringBuilder_PushBack_char d str (FixedStringBuilder buffer capacity sz) =
     (if sz \<ge> capacity
      then run_bind (cell_set buffer (capacity - 1) (ch CHR ''>'')) (\<lambda>buffer.
           run_map (\<lambda>buffer. FixedStringBuilder buffer capacity sz) (cell_set buffer (capacity - 2) (ch CHR ''!'')))
      else run_map (\<lambda>buffer. FixedStringBuilder buffer capacity (sz + 1)) (cell_set buffer sz str))"

text \<open>\<open>PushBack\<close> of a view.  The loop that doubles the new capacity need not end.\<close>

partial_function (option) grow_capacity :: "u64 \<Rightarrow> u64 \<Rightarrow> u64 option" where
  "grow_capacity needed new_capacity =
     (if new_capacity < needed then grow_capacity needed (new_capacity * 2) else Some new_capacity)"

fun StringBuilder_PushBack :: "u8 \<Rightarrow> u8 list \<Rightarrow> StringBuilder \<Rightarrow> StringBuilder run option" where
  "StringBuilder_PushBack d str (VariableStringBuilder data) =
     (let needed = vec_size data + of_nat (length str)
      in map_option (\<lambda>data. run_bind data (\<lambda>data. push_each (StringBuilder_PushBack_char d) str (VariableStringBuilder data)))
           (if vec_capacity data < needed
            then map_option (\<lambda>new_capacity. Vector_Resize d new_capacity data)
                   (grow_capacity needed (if vec_capacity data = 0 then 1 else vec_capacity data * 2))
            else Some (Inr data)))"
| "StringBuilder_PushBack d str (FixedStringBuilder buffer capacity sz) =
     Some (push_each (StringBuilder_PushBack_char d) str (FixedStringBuilder buffer capacity sz))"

fun StringBuilder_DeleteLast :: "StringBuilder \<Rightarrow> StringBuilder run" where
  "StringBuilder_DeleteLast (VariableStringBuilder data) =
     (if vec_size data > 0 then run_map (\<lambda>(_, data). VariableStringBuilder data) (Vector_PopBack data)
      else Inr (VariableStringBuilder data))"
| "StringBuilder_DeleteLast (FixedStringBuilder buffer capacity sz) =
     Inr (FixedStringBuilder buffer capacity (if sz > 0 then sz - 1 else sz))"

fun StringBuilder_Reset :: "StringBuilder \<Rightarrow> StringBuilder" where
  "StringBuilder_Reset (VariableStringBuilder data) = VariableStringBuilder Vector_new"
| "StringBuilder_Reset (FixedStringBuilder buffer capacity sz) = FixedStringBuilder buffer capacity 0"

fun StringBuilder_ToString :: "u8 \<Rightarrow> StringBuilder \<Rightarrow> String run" where
  "StringBuilder_ToString d (VariableStringBuilder data) = String_of_ptr d (vec_data data) (vec_size data)"
| "StringBuilder_ToString d (FixedStringBuilder buffer capacity sz) = String_of_ptr d buffer sz"

section \<open>Formatting\<close>

definition kHexCharacters :: "u8 list" where
  "kHexCharacters = map ch ''0123456789ABCDEF'' @ [0]"

partial_function (option) StrFormatNumber :: "u8 \<Rightarrow> StringBuilder \<Rightarrow> u64 \<Rightarrow> u64 \<Rightarrow> StringBuilder run option" where
  "StrFormatNumber d builder v base =
     (if v < base
      then Some (run_bind (cell_get (Some kHexCharacters) v) (\<lambda>c. StringBuilder_PushBack_char d c builder))
      else if base = 0 then Some (Inl DivByZero)
      else Option.bind (StrFormatNumber d builder (v div base) base) (\<lambda>r.
        Some (run_bind r (\<lambda>builder. run_bind (cell_get (Some kHexCharacters) (v mod base)) (\<lambda>c.
          StringBuilder_PushBack_char d c builder)))))"

datatype FormatValue =
    Fmt_uint8 u8
  | Fmt_uint16 u16
  | Fmt_int32 u32
  | Fmt_uint32 u32
  | Fmt_uint64 u64
  | Fmt_ErrorCode ErrorCode
  | Fmt_char u8
  | Fmt_cstr u64
  | Fmt_String String
  | Fmt_StringView StringView

definition StrFormat_uint64 :: "u8 \<Rightarrow> Mem \<Rightarrow> StringBuilder \<Rightarrow> u64 \<Rightarrow> StringView \<Rightarrow> StringBuilder run option" where
  "StrFormat_uint64 d m builder v opts =
     (if StringView_find m (ch CHR ''x'') 0 opts \<noteq> npos
      then opt_run_bind (StringBuilder_PushBack d (map ch ''0x'') builder) (\<lambda>builder. StrFormatNumber d builder v 16)
      else StrFormatNumber d builder v 10)"

text \<open>The specialisations of \<open>StrFormatValue\<close>; a \<open>String\<close> is read from its allocation.\<close>

fun StrFormatValue :: "u8 \<Rightarrow> Mem \<Rightarrow> StringBuilder \<Rightarrow> FormatValue \<Rightarrow> StringView \<Rightarrow> StringBuilder run option" where
  "StrFormatValue d m builder (Fmt_uint8 v) opts = StrFormat_uint64 d m builder (ucast v) opts"
| "StrFormatValue d m builder (Fmt_uint16 v) opts = StrFormat_uint64 d m builder (ucast v) opts"
| "StrFormatValue d m builder (Fmt_int32 v) opts = StrFormat_uint64 d m builder (scast v) opts"
| "StrFormatValue d m builder (Fmt_uint32 v) opts = StrFormat_uint64 d m builder (ucast v) opts"
| "StrFormatValue d m builder (Fmt_uint64 v) opts = StrFormat_uint64 d m builder v opts"
| "StrFormatValue d m builder (Fmt_ErrorCode v) opts =
     StringBuilder_PushBack d (map ch (ErrorCodeToStr (ErrorCode_value v))) builder"
| "StrFormatValue d m builder (Fmt_char v) opts = Some (StringBuilder_PushBack_char d v builder)"
| "StrFormatValue d m builder (Fmt_cstr v) opts =
     Option.bind (StringView_of_cstr m v) (\<lambda>v. StringBuilder_PushBack d (sv_chars m v) builder)"
| "StrFormatValue d m builder (Fmt_String v) opts =
     (case str_cstr v of
        None \<Rightarrow> if str_length v = 0 then StringBuilder_PushBack d [] builder else Some (Inl NullDeref)
      | Some cs \<Rightarrow> if unat (str_length v) \<le> length cs
                   then StringBuilder_PushBack d (take (unat (str_length v)) cs) builder
                   else Some (Inl OutOfBounds))"
| "StrFormatValue d m builder (Fmt_StringView v) opts = StringBuilder_PushBack d (sv_chars m v) builder"

fun StrFormatInternal ::
    "u8 \<Rightarrow> Mem \<Rightarrow> StringBuilder \<Rightarrow> StringView \<Rightarrow> FormatValue list \<Rightarrow> StringBuilder run option" where
  "StrFormatInternal d m builder format [] = StringBuilder_PushBack d (sv_chars m format) builder"
| "StrFormatInternal d m builder format (v # args) =
     (let posl = StringView_find m (ch CHR ''{'') 0 format;
          posr = StringView_find m (ch CHR ''}'') posl format
      in if posl = npos \<or> posr = npos then StringBuilder_PushBack d (sv_chars m format) builder
         else opt_run_bind (StringBuilder_PushBack d (sv_chars m (StringView_substr 0 posl format)) builder) (\<lambda>builder.
              opt_run_bind (StrFormatValue d m builder v (StringView_substr (posl + 1) (posr - posl - 1) format)) (\<lambda>builder.
              StrFormatInternal d m builder (StringView_substr (posr + 1) (sv_size format - posr - 1) format) args)))"

definition StrFormat :: "u8 \<Rightarrow> Mem \<Rightarrow> StringView \<Rightarrow> FormatValue list \<Rightarrow> String run option" where
  "StrFormat d m format args =
     opt_run_bind (StrFormatInternal d m VariableStringBuilder_new format args) (\<lambda>builder.
     Some (StringBuilder_ToString d builder))"

section \<open>Hashing\<close>

text \<open>
  The index is a \<open>uint8_t\<close>, compared with a 64-bit length; the character is signed and is
  converted to 64 bits with its sign.
\<close>

partial_function (option) hash_loop :: "String \<Rightarrow> u8 \<Rightarrow> u64 \<Rightarrow> u64 run option" where
  "hash_loop s i hash =
     (if ucast i < str_length s
      then (case String_at s (ucast i) of
              Inl f \<Rightarrow> Some (Inl f)
            | Inr c \<Rightarrow> hash_loop s (i + 1) ((hash * kFnvPrime) XOR scast c))
      else Some (Inr hash))"

definition Hash_String :: "String \<Rightarrow> u64 run option" where
  "Hash_String s = hash_loop s 0 kFnvOffset"

section \<open>Builders hold what is pushed\<close>

lemma grow_capacity_ends:
  assumes "0 < unat c" and "unat needed \<le> 0x4000000000000000"
  shows "\<exists>r. grow_capacity needed c = Some r \<and> needed \<le> r"
  using assms
proof (induction "unat needed - unat c" arbitrary: c rule: less_induct)
  case less
  show ?case
  proof (cases "c < needed")
    case True
    then have lt: "unat c < unat needed" by (simp add: word_less_unat)
    then have u: "unat (c * 2) = unat c * 2" using less.prems by (simp add: unat_word_ariths)
    have "unat needed - unat (c * 2) < unat needed - unat c" "0 < unat (c * 2)" unfolding u using lt less.prems by simp_all
    from less.hyps [OF this less.prems(2)] show ?thesis using True by (subst grow_capacity.simps) simp
  next
    case False
    then show ?thesis by (subst grow_capacity.simps) simp
  qed
qed

lemma push_each_variable:
  "push_each (StringBuilder_PushBack_char d) str (VariableStringBuilder v) =
     run_map VariableStringBuilder (push_each (Vector_PushBack d) str v)"
proof (induction str arbitrary: v)
  case (Cons c str)
  then show ?case by (cases "Vector_PushBack d c v") simp_all
qed simp

lemma variable_PushBack_char:
  assumes "vec_inv v" and "length (vec_list v) < 0x4000000000000000"
  shows "\<exists>v'. StringBuilder_PushBack_char d c (VariableStringBuilder v) = Inr (VariableStringBuilder v') \<and>
    vec_inv v' \<and> vec_list v' = vec_list v @ [c]"
  using vec.push_ok [OF assms(1), of d c] assms(2) by auto

lemma variable_PushBack:
  assumes "vec_inv v" and "length (vec_list v) + length str \<le> 0x4000000000000000"
  shows "\<exists>v'. StringBuilder_PushBack d str (VariableStringBuilder v) = Some (Inr (VariableStringBuilder v')) \<and>
    vec_inv v' \<and> vec_list v' = vec_list v @ str"
proof -
  let ?needed = "vec_size v + of_nat (length str)"
  have n: "unat (vec_size v) + length str \<le> 0x4000000000000000" using assms vec_size_unat [OF assms(1)] by simp
  then have u: "unat ?needed = unat (vec_size v) + length str"
    by (subst unat_add_noof) (simp_all add: unat_of_nat_u64)
  have "\<exists>w. (if vec_capacity v < ?needed
        then map_option (\<lambda>c. Vector_Resize d c v) (grow_capacity ?needed (if vec_capacity v = 0 then 1 else vec_capacity v * 2))
        else Some (Inr v)) = Some (Inr w) \<and> vec_inv w \<and> vec_list w = vec_list v"
  proof (cases "vec_capacity v < ?needed")
    case True
    let ?c = "if vec_capacity v = 0 then 1 else vec_capacity v * 2"
    have "unat (vec_capacity v) < 0x4000000000000000" using True u n by (simp add: word_less_unat)
    then have "unat (vec_capacity v * 2) = unat (vec_capacity v) * 2" by (simp add: unat_word_ariths)
    then have "0 < unat ?c" by (cases "vec_capacity v = 0") (simp_all add: unat_gt_0 [symmetric] del: unat_gt_0)
    then obtain r where r: "grow_capacity ?needed ?c = Some r" "?needed \<le> r"
      using grow_capacity_ends [of ?c ?needed] n u by auto
    have "vec_size v \<le> r" using r(2) u by (simp add: word_le_unat)
    from Vector_Resize_ok [OF assms(1) this, of d] show ?thesis using True r(1) by auto
  qed (use assms in auto)
  then obtain w where w: "(if vec_capacity v < ?needed
        then map_option (\<lambda>c. Vector_Resize d c v) (grow_capacity ?needed (if vec_capacity v = 0 then 1 else vec_capacity v * 2))
        else Some (Inr v)) = Some (Inr w)" "vec_inv w" "vec_list w = vec_list v" by blast
  obtain v' where "push_each (Vector_PushBack d) str w = Inr v'" "vec_inv v'" "vec_list v' = vec_list w @ str"
    using vec.push_each_ok [OF w(2), of str d] w(3) assms(2) by auto
  then show ?thesis using w(1,3) by (simp add: Let_def push_each_variable)
qed

text \<open>A string is well formed when its allocation holds its characters; \<open>str_chars\<close> are these.\<close>

definition str_wf :: "String \<Rightarrow> bool" where
  "str_wf s \<longleftrightarrow> (case str_cstr s of None \<Rightarrow> str_length s = 0 | Some cs \<Rightarrow> unat (str_length s) < length cs)"

definition str_chars :: "String \<Rightarrow> u8 list" where
  "str_chars s = (case str_cstr s of None \<Rightarrow> [] | Some cs \<Rightarrow> take (unat (str_length s)) cs)"

lemma length_str_chars [simp]: "str_wf s \<Longrightarrow> length (str_chars s) = unat (str_length s)"
  by (auto simp: str_wf_def str_chars_def split: option.splits)

lemma drop_replicate_Suc: "drop k (replicate (Suc k) d) = [d]"
  by (induction k) auto

lemma String_of_ptr_text:
  assumes "unat n \<le> length xs" and "unat n < 18446744073709551615"
  shows "String_of_ptr d (Some xs) n = Inr \<lparr>str_cstr = Some (take (unat n) xs @ [0]), str_length = n\<rparr>"
proof -
  have u: "unat (n + 1) = Suc (unat n)" using assms(2) by (subst unat_add_noof) simp_all
  have "copy_cells (unat n) 0 (Some xs) (Some (replicate (unat (n + 1)) d)) = Inr (Some (take (unat n) xs @ [d]))"
    using assms u drop_replicate_Suc [of "unat n" d] by (subst copy_cells_ok) auto
  then show ?thesis using assms(1) by (auto simp: String_of_ptr_def cell_set_def list_update_append)
qed

lemma String_of_ptr_ok:
  assumes "unat n \<le> length xs" and "unat n < 18446744073709551615"
  shows "\<exists>s. String_of_ptr d (Some xs) n = Inr s \<and> str_wf s \<and> str_chars s = take (unat n) xs \<and> str_length s = n"
  using assms by (simp add: String_of_ptr_text str_wf_def str_chars_def)

text \<open>Comparison decides whether two strings have the same characters.\<close>

lemma eq_loop_ok:
  assumes "\<And>j. unat j < length xs \<Longrightarrow> a j = Inr (xs ! unat j)" and "\<And>j. unat j < length xs \<Longrightarrow> b j = Inr (ys ! unat j)"
    and "length ys = length xs" and "unat i + n = length xs" and "length xs < 18446744073709551616"
  shows "eq_loop n i a b = Inr (drop (unat i) xs = drop (unat i) ys)"
  using assms(4)
proof (induction n arbitrary: i)
  case (Suc n)
  have i: "unat i < length xs" "unat i < length ys" using Suc.prems assms(3) by simp_all
  have u: "unat (i + 1) = Suc (unat i)" using i assms(5) by (intro unat_Suc_u64 [where n = "length xs"]) simp_all
  have "drop (unat i) xs = xs ! unat i # drop (Suc (unat i)) xs" "drop (unat i) ys = ys ! unat i # drop (Suc (unat i)) ys"
    using i by (simp_all add: Cons_nth_drop_Suc)
  then show ?case using assms(1,2) [OF i(1)] Suc.IH [of "i + 1"] Suc.prems u by simp
qed (use assms(3) in simp)

lemma String_at_ok: "str_wf s \<Longrightarrow> unat i < unat (str_length s) \<Longrightarrow> String_at s i = Inr (str_chars s ! unat i)"
  by (auto simp: String_at_def cell_get_def str_wf_def str_chars_def split: option.splits)

lemma String_eq_iff:
  assumes "str_wf s" and "str_wf t"
  shows "String_eq s t = Inr (str_chars s = str_chars t)"
proof (cases "str_length t = str_length s")
  case True
  then have "eq_loop (unat (str_length s)) 0 (String_at s) (String_at t) = Inr (drop 0 (str_chars s) = drop 0 (str_chars t))"
    using eq_loop_ok [of "str_chars s" "String_at s" "String_at t" "str_chars t" 0 "unat (str_length s)"] assms
      unat_lt_64 [of "str_length s"] by (simp add: String_at_ok)
  then show ?thesis using True by (simp add: String_eq_def)
next
  case False
  then have "unat (str_length s) \<noteq> unat (str_length t)" by (metis of_nat_unat_eq)
  then have "str_chars s \<noteq> str_chars t" using length_str_chars [OF assms(1)] length_str_chars [OF assms(2)] by metis
  then show ?thesis using False by (simp add: String_eq_def)
qed

lemma StringView_eq_iff: "StringView_eq m v w \<longleftrightarrow> sv_chars m v = sv_chars m w"
proof (cases "sv_size v = sv_size w \<and> sv_value v \<noteq> sv_value w \<and> sv_size v \<noteq> 0")
  case True
  then have "eq_loop (unat (sv_size v)) 0 (\<lambda>i. Inr (StringView_at m v i)) (\<lambda>i. Inr (StringView_at m w i)) =
      Inr (drop 0 (sv_chars m v) = drop 0 (sv_chars m w))"
    using eq_loop_ok [of "sv_chars m v" "\<lambda>i. Inr (StringView_at m v i)" "\<lambda>i. Inr (StringView_at m w i)" "sv_chars m w" 0
        "unat (sv_size v)"] unat_lt_64 [of "sv_size v"] by (simp add: sv_chars_nth)
  then show ?thesis using True by (auto simp: StringView_eq_def StringView_empty_def)
next
  case False
  have "sv_size v = sv_size w" if "sv_chars m v = sv_chars m w"
    using arg_cong [OF that, of length] of_nat_unat_eq [of "sv_size v" "unat (sv_size w)"] by simp
  then show ?thesis
    using False by (auto simp: StringView_eq_def StringView_empty_def) (auto simp: sv_chars_def)
qed

section \<open>Formatted text\<close>

text \<open>The digits of a number, most significant first, and the number that digits denote.\<close>

fun digit_chars :: "nat \<Rightarrow> nat \<Rightarrow> u8 list" where
  "digit_chars base n =
     (if n < base \<or> base < 2 then [kHexCharacters ! n]
      else digit_chars base (n div base) @ [kHexCharacters ! (n mod base)])"

declare digit_chars.simps [simp del]

definition digit_value :: "u8 \<Rightarrow> nat" where
  "digit_value c = (if c < 0x3A then unat c - 0x30 else unat c - 0x37)"

definition number_of_digits :: "nat \<Rightarrow> u8 list \<Rightarrow> nat" where
  "number_of_digits base cs = foldl (\<lambda>n c. n * base + digit_value c) 0 cs"

lemma hex_digit_value: "i < 16 \<Longrightarrow> digit_value (kHexCharacters ! i) = i"
proof -
  have "\<forall>i \<in> set [0..<16]. digit_value (kHexCharacters ! i) = i" by code_simp
  then show "i < 16 \<Longrightarrow> ?thesis" by simp
qed

lemma number_of_digit_chars: "2 \<le> base \<Longrightarrow> base \<le> 16 \<Longrightarrow> number_of_digits base (digit_chars base n) = n"
proof (induction base n rule: digit_chars.induct)
  case (1 base n)
  show ?case
  proof (cases "n < base")
    case True
    then show ?thesis
      using 1(2,3) hex_digit_value [of n] by (subst digit_chars.simps) (simp add: number_of_digits_def)
  next
    case False
    have "n mod base < 16" using 1(2,3) mod_less_divisor [of base n] by linarith
    then show ?thesis
      using False 1 hex_digit_value [of "n mod base"] by (subst digit_chars.simps) (simp add: number_of_digits_def)
  qed
qed

lemma StrFormatNumber_ok:
  assumes "vec_inv w" and "2 \<le> unat base" and "unat base \<le> 16"
    and "length (vec_list w) + length (digit_chars (unat base) (unat v)) \<le> 0x4000000000000000"
  shows "\<exists>w'. StrFormatNumber d (VariableStringBuilder w) v base = Some (Inr (VariableStringBuilder w')) \<and>
    vec_inv w' \<and> vec_list w' = vec_list w @ digit_chars (unat base) (unat v)"
  using assms(4)
proof (induction "unat v" arbitrary: v rule: less_induct)
  case less
  have hex: "cell_get (Some kHexCharacters) x = Inr (kHexCharacters ! unat x)" if "unat x < 16" for x
    using that by (simp add: cell_get_def kHexCharacters_def)
  show ?case
  proof (cases "v < base")
    case True
    then have lt: "unat v < unat base" by (simp add: word_less_unat)
    then have dc: "digit_chars (unat base) (unat v) = [kHexCharacters ! unat v]" by (subst digit_chars.simps) simp
    have "unat v < 16" using lt assms(3) by simp
    moreover obtain w' where "StringBuilder_PushBack_char d (kHexCharacters ! unat v) (VariableStringBuilder w) =
        Inr (VariableStringBuilder w')" "vec_inv w'" "vec_list w' = vec_list w @ [kHexCharacters ! unat v]"
      using variable_PushBack_char [OF assms(1), of d] less.prems dc by fastforce
    ultimately show ?thesis
      using True dc by (subst StrFormatNumber.simps) (simp add: hex del: StringBuilder_PushBack_char.simps)
  next
    case False
    have b: "base \<noteq> 0" using assms(2) by auto
    have ge: "unat base \<le> unat v" using False by (simp add: word_less_unat)
    have dc: "digit_chars (unat base) (unat v) =
        digit_chars (unat base) (unat v div unat base) @ [kHexCharacters ! (unat v mod unat base)]"
      using ge assms(2) by (subst digit_chars.simps) simp
    have u: "unat (v div base) = unat v div unat base" "unat (v mod base) = unat v mod unat base"
      by (simp_all add: unat_div unat_mod)
    have "unat v div unat base < unat v" using ge assms(2) by (intro div_less_dividend) simp_all
    then obtain w1 where w1: "StrFormatNumber d (VariableStringBuilder w) (v div base) base = Some (Inr (VariableStringBuilder w1))"
        "vec_inv w1" "vec_list w1 = vec_list w @ digit_chars (unat base) (unat v div unat base)"
      using less.hyps [of "v div base"] less.prems dc u(1) by auto
    have m: "unat (v mod base) < 16"
      unfolding u(2) using mod_less_divisor [of "unat base" "unat v"] assms(2,3) by linarith
    obtain w' where "StringBuilder_PushBack_char d (kHexCharacters ! unat (v mod base)) (VariableStringBuilder w1) =
        Inr (VariableStringBuilder w')" "vec_inv w'" "vec_list w' = vec_list w1 @ [kHexCharacters ! unat (v mod base)]"
      using variable_PushBack_char [OF w1(2), of d] less.prems dc w1(3) by fastforce
    then show ?thesis
      using False b w1 dc m u(2)
      by (subst StrFormatNumber.simps) (simp add: hex del: StringBuilder_PushBack_char.simps)
  qed
qed

text \<open>The text of a value, and the reference for formatting.\<close>

definition number_chars :: "u64 \<Rightarrow> u8 list \<Rightarrow> u8 list" where
  "number_chars v opts =
     (if ch CHR ''x'' \<in> set opts then map ch ''0x'' @ digit_chars 16 (unat v) else digit_chars 10 (unat v))"

fun value_chars :: "Mem \<Rightarrow> FormatValue \<Rightarrow> u8 list \<Rightarrow> u8 list" where
  "value_chars m (Fmt_uint8 v) opts = number_chars (ucast v) opts"
| "value_chars m (Fmt_uint16 v) opts = number_chars (ucast v) opts"
| "value_chars m (Fmt_int32 v) opts = number_chars (scast v) opts"
| "value_chars m (Fmt_uint32 v) opts = number_chars (ucast v) opts"
| "value_chars m (Fmt_uint64 v) opts = number_chars v opts"
| "value_chars m (Fmt_ErrorCode v) opts = map ch (ErrorCodeToStr (ErrorCode_value v))"
| "value_chars m (Fmt_char v) opts = [v]"
| "value_chars m (Fmt_cstr v) opts = (case StringView_of_cstr m v of None \<Rightarrow> [] | Some v \<Rightarrow> sv_chars m v)"
| "value_chars m (Fmt_String v) opts = str_chars v"
| "value_chars m (Fmt_StringView v) opts = sv_chars m v"

fun value_wf :: "Mem \<Rightarrow> FormatValue \<Rightarrow> bool" where
  "value_wf m (Fmt_cstr v) = (StringView_of_cstr m v \<noteq> None)"
| "value_wf m (Fmt_String v) = str_wf v"
| "value_wf m v = True"

text \<open>The first pair of braces: what is before, between and behind it.\<close>

definition split_braces :: "u8 list \<Rightarrow> (u8 list \<times> u8 list \<times> u8 list) option" where
  "split_braces f =
     (let pre = takeWhile (\<lambda>c. c \<noteq> ch CHR ''{'') f; rest = drop (Suc (length pre)) f;
          opts = takeWhile (\<lambda>c. c \<noteq> ch CHR ''}'') rest
      in if ch CHR ''{'' \<in> set f \<and> ch CHR ''}'' \<in> set rest
         then Some (pre, opts, drop (Suc (length opts)) rest) else None)"

fun format_chars :: "Mem \<Rightarrow> u8 list \<Rightarrow> FormatValue list \<Rightarrow> u8 list" where
  "format_chars m f [] = f"
| "format_chars m f (v # args) =
     (case split_braces f of
        None \<Rightarrow> f
      | Some (pre, opts, post) \<Rightarrow> pre @ value_chars m v opts @ format_chars m post args)"

lemma find_from_start:
  "StringView_find m c pos v = (if c \<in> set (drop (unat pos) (sv_chars m v))
     then pos + of_nat (length (takeWhile (\<lambda>x. x \<noteq> c) (drop (unat pos) (sv_chars m v)))) else npos)"
proof (cases rule: StringView_find_cases [of m c pos v])
  case 1
  then have "c \<notin> set (drop (unat pos) (sv_chars m v))"
    by (auto simp: in_set_conv_nth)
  then show ?thesis using 1(1) by simp
next
  case (2 r)
  let ?xs = "drop (unat pos) (sv_chars m v)"
  have n: "unat r - unat pos < length ?xs" using 2(3,4) by simp
  have "?xs ! (unat r - unat pos) = c" using 2(3,4,5) by simp
  moreover have "?xs ! j \<noteq> c" if "j < unat r - unat pos" for j using 2(3,4) 2(6) [of "unat pos + j"] that by simp
  ultimately have "takeWhile (\<lambda>x. x \<noteq> c) ?xs = take (unat r - unat pos) ?xs"
    using n by (intro takeWhile_eq_take_P_nth) auto
  then have "length (takeWhile (\<lambda>x. x \<noteq> c) ?xs) = unat r - unat pos" using n by simp
  moreover have "pos + of_nat (unat r - unat pos) = r" using 2(3) by (simp add: of_nat_diff)
  moreover have "c \<in> set ?xs" using n \<open>?xs ! (unat r - unat pos) = c\<close> nth_mem by metis
  ultimately show ?thesis using 2(1) by simp
qed

lemma StringView_find_opts: "StringView_find m c 0 v \<noteq> npos \<longleftrightarrow> c \<in> set (sv_chars m v)"
  by (cases rule: StringView_find_cases [of m c 0 v]) (auto simp: in_set_conv_nth)

lemma StrFormat_uint64_ok:
  assumes "vec_inv w" and "length (vec_list w) + length (number_chars v (sv_chars m opts)) \<le> 0x4000000000000000"
  shows "\<exists>w'. StrFormat_uint64 d m (VariableStringBuilder w) v opts = Some (Inr (VariableStringBuilder w')) \<and>
    vec_inv w' \<and> vec_list w' = vec_list w @ number_chars v (sv_chars m opts)"
proof (cases "ch CHR ''x'' \<in> set (sv_chars m opts)")
  case True
  then have len: "length (vec_list w) + length (map ch ''0x'') + length (digit_chars 16 (unat v)) \<le> 0x4000000000000000"
    using assms(2) by (simp add: number_chars_def)
  then obtain w1 where w1: "StringBuilder_PushBack d (map ch ''0x'') (VariableStringBuilder w) = Some (Inr (VariableStringBuilder w1))"
      "vec_inv w1" "vec_list w1 = vec_list w @ map ch ''0x''"
    using variable_PushBack [OF assms(1), of "map ch ''0x''" d] by auto
  then show ?thesis
    using StrFormatNumber_ok [OF w1(2), of 16 v d] len True
    by (simp add: StrFormat_uint64_def StringView_find_opts number_chars_def del: StringBuilder_PushBack.simps)
next
  case False
  then show ?thesis
    using StrFormatNumber_ok [OF assms(1), of 10 v d] assms(2)
    by (simp add: StrFormat_uint64_def StringView_find_opts number_chars_def)
qed

lemma StrFormatValue_ok:
  assumes "vec_inv w" and "value_wf m v" and "length (vec_list w) + length (value_chars m v (sv_chars m opts)) \<le> 0x4000000000000000"
  shows "\<exists>w'. StrFormatValue d m (VariableStringBuilder w) v opts = Some (Inr (VariableStringBuilder w')) \<and>
    vec_inv w' \<and> vec_list w' = vec_list w @ value_chars m v (sv_chars m opts)"
proof (cases v)
  case (Fmt_cstr a)
  then show ?thesis
    using assms variable_PushBack [OF assms(1)] by (auto simp del: StringBuilder_PushBack.simps)
next
  case (Fmt_String s)
  then show ?thesis
    using assms variable_PushBack [OF assms(1), of "str_chars s" d]
    by (cases "str_cstr s") (auto simp: str_wf_def str_chars_def simp del: StringBuilder_PushBack.simps)
next
  case (Fmt_char c)
  then show ?thesis
    using assms variable_PushBack_char [OF assms(1), of d c] by (simp del: StringBuilder_PushBack_char.simps)
qed (use assms StrFormat_uint64_ok [OF assms(1)] variable_PushBack [OF assms(1)] in
      \<open>simp_all del: StringBuilder_PushBack.simps\<close>)

lemma length_takeWhile_in: "x \<in> set xs \<Longrightarrow> length (takeWhile (\<lambda>c. c \<noteq> x) xs) < length xs"
  by (induction xs) auto

text \<open>The positions that \<open>StrFormatInternal\<close> computes are those of the first pair of braces.\<close>

lemma format_positions:
  fixes format :: StringView and m :: Mem
  defines "posl \<equiv> StringView_find m (ch CHR ''{'') 0 format"
  defines "posr \<equiv> StringView_find m (ch CHR ''}'') posl format"
  shows "if posl = npos \<or> posr = npos then split_braces (sv_chars m format) = None
    else split_braces (sv_chars m format) = Some (sv_chars m (StringView_substr 0 posl format),
      sv_chars m (StringView_substr (posl + 1) (posr - posl - 1) format),
      sv_chars m (StringView_substr (posr + 1) (sv_size format - posr - 1) format))"
proof (cases "ch CHR ''{'' \<in> set (sv_chars m format)")
  case False
  then show ?thesis by (simp add: posl_def find_from_start [of _ _ 0] split_braces_def Let_def)
next
  case True
  let ?f = "sv_chars m format" and ?l = "ch CHR ''{''" and ?r = "ch CHR ''}''"
  define pre where "pre = takeWhile (\<lambda>c. c \<noteq> ?l) ?f"
  define rest where "rest = drop (Suc (length pre)) ?f"
  define opts where "opts = takeWhile (\<lambda>c. c \<noteq> ?r) rest"
  have lt: "length pre < length ?f" and at: "?f ! length pre = ?l"
    unfolding pre_def using length_takeWhile_in [OF True] nth_length_takeWhile [of "\<lambda>c. c \<noteq> ?l" ?f] by simp_all
  have pre: "take (length pre) ?f = pre" unfolding pre_def by (metis takeWhile_eq_take)
  have dl: "drop (length pre) ?f = ?l # rest" unfolding rest_def using lt at by (metis Cons_nth_drop_Suc)
  have l: "posl = of_nat (length pre)" using True by (simp add: posl_def find_from_start [of _ _ 0] pre_def)
  then have ul: "unat posl = length pre" using lt sv_size_bound [of format] by (simp add: unat_of_nat_u64)
  have nl: "posl \<noteq> npos" using ul lt sv_size_bound [of format] unat_npos by auto
  have lr: "?l \<noteq> ?r" by (simp add: ch_def)
  show ?thesis
  proof (cases "?r \<in> set rest")
    case False
    then have "posr = npos" using lr by (simp add: posr_def find_from_start [of _ _ posl] ul dl)
    then show ?thesis using False by (simp add: split_braces_def Let_def rest_def pre_def)
  next
    case True
    have ol: "length opts < length rest" unfolding opts_def using True by (rule length_takeWhile_in)
    have op: "take (length opts) rest = opts" unfolding opts_def by (metis takeWhile_eq_take)
    have r: "posr = posl + of_nat (Suc (length opts))"
      using True lr by (simp add: posr_def find_from_start [of _ _ posl] ul dl opts_def)
    have bound: "length pre + Suc (length opts) < unat (sv_size format)" using ol lt by (simp add: rest_def)
    have ur: "unat posr = length pre + Suc (length opts)"
      unfolding r using bound sv_size_bound [of format] ul
      by (subst unat_add_noof) (simp_all add: unat_of_nat_u64 del: of_nat_Suc)
    have nr: "posr \<noteq> npos" using ur bound sv_size_bound [of format] unat_npos by auto
    have u: "unat (posl + 1) = Suc (length pre)" "unat (posr - posl - 1) = length opts"
      "unat (posr + 1) = Suc (unat posr)" "unat (sv_size format - posr - 1) = unat (sv_size format) - Suc (unat posr)"
    proof -
      show "unat (posl + 1) = Suc (length pre)" using unat_Suc_u64 [OF _ sv_size_bound, of posl format] ul lt by simp
      show "unat (posr - posl - 1) = length opts"
        using bound sv_size_bound [of format] unfolding r by (simp add: unat_of_nat_u64)
      show "unat (posr + 1) = Suc (unat posr)" using unat_Suc_u64 [OF _ sv_size_bound, of posr format] ur bound by simp
      have "unat (sv_size format - posr) = unat (sv_size format) - unat posr"
        using ur bound by (intro unat_sub_le) (simp add: word_le_unat)
      moreover from this have "unat (sv_size format - posr - 1) = unat (sv_size format - posr) - 1"
        using ur bound by (subst unat_sub_le) (simp_all add: word_le_unat)
      ultimately show "unat (sv_size format - posr - 1) = unat (sv_size format) - Suc (unat posr)" by simp
    qed
    have "sv_chars m (StringView_substr 0 posl format) = pre"
      using sv_chars_substr [of 0 posl format m] ul lt pre by simp
    moreover have "sv_chars m (StringView_substr (posl + 1) (posr - posl - 1) format) = opts"
      using sv_chars_substr [of "posl + 1" "posr - posl - 1" format m] u bound op by (simp add: rest_def)
    moreover have "sv_chars m (StringView_substr (posr + 1) (sv_size format - posr - 1) format) = drop (Suc (length opts)) rest"
      using sv_chars_substr [of "posr + 1" "sv_size format - posr - 1" format m] u ur bound
      by (simp add: rest_def add.commute)
    moreover have "split_braces ?f = Some (pre, opts, drop (Suc (length opts)) rest)"
      using \<open>?l \<in> set ?f\<close> True by (simp add: split_braces_def Let_def rest_def pre_def opts_def)
    ultimately show ?thesis using nl nr by simp
  qed
qed

lemma StrFormatInternal_ok:
  assumes "vec_inv w" and "list_all (value_wf m) args"
    and "length (vec_list w) + length (format_chars m (sv_chars m format) args) \<le> 0x4000000000000000"
  shows "\<exists>w'. StrFormatInternal d m (VariableStringBuilder w) format args = Some (Inr (VariableStringBuilder w')) \<and>
    vec_inv w' \<and> vec_list w' = vec_list w @ format_chars m (sv_chars m format) args"
  using assms
proof (induction args arbitrary: w format)
  case Nil
  then show ?case using variable_PushBack [of w "sv_chars m format" d] by (simp del: StringBuilder_PushBack.simps)
next
  case (Cons v args)
  let ?posl = "StringView_find m (ch CHR ''{'') 0 format"
  let ?posr = "StringView_find m (ch CHR ''}'') ?posl format"
  show ?case
  proof (cases "?posl = npos \<or> ?posr = npos")
    case True
    then show ?thesis
      using format_positions [of m format] Cons.prems variable_PushBack [OF Cons.prems(1), of "sv_chars m format" d]
      by (auto simp: Let_def simp del: StringBuilder_PushBack.simps)
  next
    case False
    let ?pre = "StringView_substr 0 ?posl format" and ?opts = "StringView_substr (?posl + 1) (?posr - ?posl - 1) format"
      and ?post = "StringView_substr (?posr + 1) (sv_size format - ?posr - 1) format"
    have sb: "split_braces (sv_chars m format) = Some (sv_chars m ?pre, sv_chars m ?opts, sv_chars m ?post)"
      using format_positions [of m format] False by simp
    obtain w1 where w1: "StringBuilder_PushBack d (sv_chars m ?pre) (VariableStringBuilder w) = Some (Inr (VariableStringBuilder w1))"
        "vec_inv w1" "vec_list w1 = vec_list w @ sv_chars m ?pre"
      using variable_PushBack [OF Cons.prems(1), of "sv_chars m ?pre" d] Cons.prems(3) sb by auto
    obtain w2 where w2: "StrFormatValue d m (VariableStringBuilder w1) v ?opts = Some (Inr (VariableStringBuilder w2))"
        "vec_inv w2" "vec_list w2 = vec_list w1 @ value_chars m v (sv_chars m ?opts)"
      using StrFormatValue_ok [OF w1(2), of m v ?opts d] Cons.prems(2,3) sb w1(3) by auto
    obtain w3 where "StrFormatInternal d m (VariableStringBuilder w2) ?post args = Some (Inr (VariableStringBuilder w3))"
        "vec_inv w3" "vec_list w3 = vec_list w2 @ format_chars m (sv_chars m ?post) args"
      using Cons.IH [OF w2(2), of ?post] Cons.prems(2,3) sb w1(3) w2(3) by auto
    then show ?thesis
      using False w1 w2 sb by (simp add: Let_def del: StringBuilder_PushBack.simps StrFormatValue.simps)
  qed
qed

lemma String_of_vector:
  assumes "vec_inv w" and "length (vec_list w) \<le> 0x4000000000000000"
  shows "\<exists>s. String_of_ptr d (vec_data w) (vec_size w) = Inr s \<and> str_wf s \<and> str_chars s = vec_list w"
proof (cases "vec_data w")
  case None
  then have "unat (vec_size w) = 0" using assms(1) by (auto simp: vec_inv_def word_le_unat)
  then have "vec_size w = 0" by (simp add: unat_eq_zero)
  then show ?thesis using None
    by (auto simp: String_of_ptr_def cell_set_def str_wf_def str_chars_def vec_list_def)
next
  case (Some xs)
  have "unat (vec_size w) \<le> 0x4000000000000000" using assms(2) vec_size_unat [OF assms(1)] by simp
  then show ?thesis
    using Some assms(1) String_of_ptr_ok [of "vec_size w" xs d] by (auto simp: vec_inv_def vec_list_def word_le_unat)
qed

text \<open>
  C32.  Formatting.  Whenever its arguments are well-formed strings and numbers and the text has at
  most 2^62 characters, \<open>StrFormat\<close> returns the reference text: the braces of the format are
  replaced, in order, by the texts of the arguments, numbers in decimal or, with the option
  \<open>x\<close>, in hexadecimal behind \<open>0x\<close>; arguments without braces are dropped.  The digits of a number
  denote it.
\<close>

theorem StrFormat_text:
  assumes "list_all (value_wf m) args" and "length (format_chars m (sv_chars m format) args) \<le> 0x4000000000000000"
  shows "\<exists>s. StrFormat d m format args = Some (Inr s) \<and> str_wf s \<and> str_chars s = format_chars m (sv_chars m format) args \<and>
    number_of_digits 10 (digit_chars 10 n) = n \<and> number_of_digits 16 (digit_chars 16 n) = n"
proof -
  obtain w where w: "StrFormatInternal d m VariableStringBuilder_new format args = Some (Inr (VariableStringBuilder w))"
      "vec_inv w" "vec_list w = format_chars m (sv_chars m format) args"
    using StrFormatInternal_ok [OF vec_inv_new assms(1), of format d] assms(2)
    by (auto simp: VariableStringBuilder_new_def)
  have "\<exists>s. String_of_ptr d (vec_data w) (vec_size w) = Inr s \<and> str_wf s \<and> str_chars s = vec_list w"
    using w assms(2) by (intro String_of_vector) simp_all
  then show ?thesis
    using w number_of_digit_chars [of 10 n] number_of_digit_chars [of 16 n] by (auto simp: StrFormat_def)
qed

theorem StrFormat_text_witness:
  "\<exists>s. StrFormat 0 (\<lambda>a. [0x61, 0x7B, 0x78, 0x7D, 0x62] ! unat a) \<lparr>sv_value = 0, sv_size = 5\<rparr> [Fmt_uint64 0x2A] = Some (Inr s) \<and>
     str_chars s = map ch ''a0x2Ab''"
proof -
  have "[0..<5] = [0, 1, 2, 3, 4 :: nat]" by (simp add: upt_rec)
  then have f: "sv_chars (\<lambda>a. [0x61, 0x7B, 0x78, 0x7D, 0x62] ! unat a) \<lparr>sv_value = 0, sv_size = 5\<rparr> = [0x61, 0x7B, 0x78, 0x7D, 0x62]"
    by (simp add: sv_chars_def)
  have "format_chars m [0x61, 0x7B, 0x78, 0x7D, 0x62] [Fmt_uint64 0x2A] = map ch ''a0x2Ab''" for m
    by (simp add: split_braces_def number_chars_def digit_chars.simps kHexCharacters_def ch_def)
  with StrFormat_text [of "\<lambda>a. [0x61, 0x7B, 0x78, 0x7D, 0x62] ! unat a" "[Fmt_uint64 0x2A]" "\<lparr>sv_value = 0, sv_size = 5\<rparr>" 0 0]
  show ?thesis unfolding f by (auto simp del: format_chars.simps)
qed

section \<open>A builder over a fixed buffer\<close>

lemma push_each_append: "push_each push (xs @ ys) v = run_bind (push_each push xs v) (push_each push ys)"
proof (induction xs arbitrary: v)
  case (Cons x xs)
  then show ?case by (cases "push x v") simp_all
qed simp

lemma fixed_push_fits:
  assumes "length buf = unat cap" and "unat sz + length str \<le> unat cap"
  shows "push_each (StringBuilder_PushBack_char d) str (FixedStringBuilder (Some buf) cap sz) =
    Inr (FixedStringBuilder (Some (take (unat sz) buf @ str @ drop (unat sz + length str) buf)) cap (sz + of_nat (length str)))"
  using assms
proof (induction str arbitrary: buf sz)
  case (Cons c str)
  have lt: "unat sz < unat cap" using Cons.prems(2) by simp
  then have "\<not> sz \<ge> cap" by (simp add: word_le_unat)
  moreover have u: "unat (sz + 1) = Suc (unat sz)" using lt unat_lt_64 [of cap] by (intro unat_Suc_u64) auto
  ultimately show ?case
    using Cons.prems lt Cons.IH [of "buf[unat sz := c]" "sz + 1"]
    by (simp add: cell_set_def take_Suc_conv_app_nth add.assoc)
qed simp

lemma fixed_push_over:
  assumes "length buf = unat cap" and "2 \<le> unat cap" and "str \<noteq> []"
  shows "push_each (StringBuilder_PushBack_char d) str (FixedStringBuilder (Some buf) cap cap) =
    Inr (FixedStringBuilder (Some (take (unat cap - 2) buf @ [ch CHR ''!'', ch CHR ''>''])) cap cap)"
  using assms
proof (induction str arbitrary: buf)
  case (Cons c str)
  let ?n = "unat cap" and ?buf = "take (unat cap - 2) buf @ [ch CHR ''!'', ch CHR ''>'']"
  have u: "unat (cap - 1) = ?n - 1" "unat (cap - 2) = ?n - 2"
    using Cons.prems(2) unat_sub_le [of 1 cap] unat_sub_le [of 2 cap] by (simp_all add: word_le_unat)
  obtain k where k: "?n = Suc (Suc k)" using Cons.prems(2) by (metis Suc_le_D numeral_2_eq_2 Suc_le_mono)
  obtain xs a b where xs: "buf = xs @ [a, b]" "length xs = k"
  proof -
    have "buf = take k buf @ [buf ! k, buf ! Suc k]"
      using Cons.prems(1) k by (metis Cons_nth_drop_Suc append_take_drop_id drop_all lessI less_Suc_eq order_refl)
    then show ?thesis using that Cons.prems(1) k by simp
  qed
  have push: "StringBuilder_PushBack_char d c (FixedStringBuilder (Some buf) cap cap) = Inr (FixedStringBuilder (Some ?buf) cap cap)"
    using xs k u by (simp add: cell_set_def list_update_append)
  show ?case
  proof (cases "str = []")
    case True
    then show ?thesis using push by (simp del: StringBuilder_PushBack_char.simps)
  next
    case False
    then show ?thesis
      using push Cons.IH [of ?buf] Cons.prems(1,2) by (simp del: StringBuilder_PushBack_char.simps)
  qed
qed simp

text \<open>
  A fixed builder stays inside its buffer.  Over a buffer of at least two cells, pushing a
  text returns; the builder then holds the text if it fits, and otherwise as much of it as leaves
  room for the mark \<open>!>\<close> at the end.  A buffer of one cell, or none, is written outside of when
  the text does not fit.
\<close>

theorem FixedStringBuilder_bounds:
  assumes "length buf = unat cap"
  shows "if length str \<le> unat cap \<or> 2 \<le> unat cap
    then \<exists>buf'. StringBuilder_PushBack d str (FixedStringBuilder_new (Some buf) cap) =
        Some (Inr (FixedStringBuilder (Some buf') cap (of_nat (min (unat cap) (length str))))) \<and>
      length buf' = unat cap \<and> take (min (unat cap) (length str)) buf' =
        (if length str \<le> unat cap then str else take (unat cap - 2) str @ [ch CHR ''!'', ch CHR ''>''])
    else StringBuilder_PushBack d str (FixedStringBuilder_new (Some buf) cap) = Some (Inl OutOfBounds)"
proof (cases "length str \<le> unat cap")
  case True
  then show ?thesis
    using assms fixed_push_fits [OF assms, of 0 str d] by (auto simp: FixedStringBuilder_new_def)
next
  case False
  let ?s1 = "take (unat cap) str" and ?s2 = "drop (unat cap) str"
  have s1: "push_each (StringBuilder_PushBack_char d) ?s1 (FixedStringBuilder (Some buf) cap 0) =
      Inr (FixedStringBuilder (Some ?s1) cap cap)"
    using fixed_push_fits [OF assms, of 0 ?s1 d] assms False by simp
  have eq: "push_each (StringBuilder_PushBack_char d) str (FixedStringBuilder (Some buf) cap 0) =
      push_each (StringBuilder_PushBack_char d) ?s2 (FixedStringBuilder (Some ?s1) cap cap)"
    using push_each_append [of "StringBuilder_PushBack_char d" ?s1 ?s2] s1 by simp
  show ?thesis
  proof (cases "2 \<le> unat cap")
    case True
    have len: "length ?s1 = unat cap" using False by simp
    have "?s2 \<noteq> []" using False by simp
    from fixed_push_over [OF len True this, of d] show ?thesis
      using eq False True by (auto simp: FixedStringBuilder_new_def min_def)
  next
    case small: False
    obtain c cs where cs: "?s2 = c # cs" using False by (cases ?s2) auto
    have "unat cap = 0 \<or> unat cap = 1" using small by auto
    then have "cap = 0 \<or> cap = 1" by (auto dest: of_nat_unat_eq)
    then have "StringBuilder_PushBack_char d c (FixedStringBuilder (Some ?s1) cap cap) = Inl OutOfBounds"
      using False by (auto simp: cell_set_def unsigned_minus_1_eq_mask mask_eq_exp_minus_1)
    then show ?thesis using eq cs False small by (simp add: FixedStringBuilder_new_def del: StringBuilder_PushBack_char.simps)
  qed
qed

theorem FixedStringBuilder_bounds_witness:
  "\<exists>buf'. StringBuilder_PushBack 0 [1, 2, 3, 4, 5] (FixedStringBuilder_new (Some [9, 9, 9]) 3) =
     Some (Inr (FixedStringBuilder (Some buf') 3 3)) \<and> buf' = [1, ch CHR ''!'', ch CHR ''>'']"
  using FixedStringBuilder_bounds [of "[9, 9, 9]" 3 "[1, 2, 3, 4, 5]" 0]
  by (auto simp del: StringBuilder_PushBack.simps)

section \<open>The hash of a string\<close>

definition fnv_hash :: "u8 list \<Rightarrow> u64" where
  "fnv_hash cs = foldl (\<lambda>hash c. (hash * kFnvPrime) XOR scast c) kFnvOffset cs"

lemma unat_ucast_8_64: "unat (ucast (i :: u8) :: u64) = unat i"
  by (simp add: unsigned_ucast_eq take_bit_nat_eq_self order_less_le_trans [OF unsigned_less])

lemma hash_loop_never:
  assumes "hash_loop s i hash = Some r" and "str_wf s" and "255 < unat (str_length s)"
  shows False
proof -
  have "str_wf s \<longrightarrow> 255 < unat (str_length s) \<longrightarrow> False"
  proof (rule hash_loop.raw_induct [OF _ assms(1)], intro impI)
    fix loop s' and i' :: u8 and hash' r'
    assume ih: "\<And>s i hash r. loop s i hash = Some r \<Longrightarrow> str_wf s \<longrightarrow> 255 < unat (str_length s) \<longrightarrow> False"
      and body: "(if ucast i' < str_length s'
          then case String_at s' (ucast i') of Inl f \<Rightarrow> Some (Inl f)
            | Inr c \<Rightarrow> loop s' (i' + 1) (hash' * kFnvPrime XOR scast c)
          else Some (Inr hash')) = Some r'"
      and wf: "str_wf s'" "255 < unat (str_length s')"
    have "unat i' < 2 ^ LENGTH(8)" by (rule unsigned_less)
    then have i: "unat (ucast i' :: u64) < unat (str_length s')" using wf(2) unat_ucast_8_64 [of i'] by simp
    then have "ucast i' < str_length s'" by (simp add: word_less_unat)
    moreover have "String_at s' (ucast i') = Inr (str_chars s' ! unat (ucast i' :: u64))"
      using i wf(1) by (simp add: String_at_ok)
    ultimately show False using body ih wf by auto
  qed
  then show False using assms(2,3) by blast
qed

lemma hash_loop_ends:
  assumes "str_wf s" and "unat (str_length s) \<le> 255" and "unat i \<le> unat (str_length s)"
  shows "hash_loop s i hash =
    Some (Inr (foldl (\<lambda>hash c. (hash * kFnvPrime) XOR scast c) hash (drop (unat i) (str_chars s))))"
  using assms(3)
proof (induction "unat (str_length s) - unat i" arbitrary: i hash rule: less_induct)
  case less
  have u: "unat (ucast i :: u64) = unat i" by (rule unat_ucast_8_64)
  show ?case
  proof (cases "unat i < unat (str_length s)")
    case True
    then have "ucast i < str_length s" using u by (simp add: word_less_unat)
    moreover have "String_at s (ucast i) = Inr (str_chars s ! unat i)"
      using True u assms(1) by (simp add: String_at_ok)
    moreover have suc: "unat (i + 1) = Suc (unat i)" using True assms(2) by (subst unat_add_noof) simp_all
    moreover have "drop (unat i) (str_chars s) = str_chars s ! unat i # drop (Suc (unat i)) (str_chars s)"
      using True assms(1) by (intro Cons_nth_drop_Suc [symmetric]) simp
    ultimately show ?thesis
      using less.hyps [of "i + 1"] True by (subst hash_loop.simps) simp
  next
    case False
    then show ?thesis
      using less.prems u assms(1) by (subst hash_loop.simps) (simp add: word_less_unat)
  qed
qed



end
