(* ===== verification/Yunq_Message.thy ===== *)
theory Yunq_Message
  imports Glcr_String
begin

text \<open>
  The yunq message format: the buffers of glacier (\<open>lib/glacier/buffer\<close>), the \<open>Serializer\<close>
  (\<open>lib/yunq/serialize.h\<close>, \<open>serialize.cpp\<close>) and the \<open>MessageView\<close>
  (\<open>lib/yunq/message_view.h\<close>, \<open>message_view.cpp\<close>).

  A byte buffer is its allocation; an access that leaves it is the fault \<open>OutOfBounds\<close>.
  Numbers are stored with the least significant byte first.  A message is a header, one cell of
  eight bytes for each field, and behind them the extensions that the cells point to.  The class
  of a message enters the templates through its functions \<open>SerializeToBytes\<close> and
  \<open>ParseFromBytes\<close>; the overloads with and without a buffer for capabilities are one function
  of an optional buffer.
\<close>

section \<open>Buffers\<close>

type_synonym ByteBuffer = "u8 list"

definition write_bytes :: "u64 \<Rightarrow> u8 list \<Rightarrow> ByteBuffer \<Rightarrow> ByteBuffer run" where
  "write_bytes offset bs b =
     (if unat offset + length bs \<le> length b
      then Inr (take (unat offset) b @ bs @ drop (unat offset + length bs) b) else Inl OutOfBounds)"

definition read_bytes :: "u64 \<Rightarrow> nat \<Rightarrow> ByteBuffer \<Rightarrow> u8 list run" where
  "read_bytes offset n b =
     (if unat offset + n \<le> length b then Inr (take n (drop (unat offset) b)) else Inl OutOfBounds)"

definition WriteAt_u32 :: "u64 \<Rightarrow> u32 \<Rightarrow> ByteBuffer \<Rightarrow> ByteBuffer run" where
  "WriteAt_u32 offset v b = write_bytes offset (to_le 4 (ucast v)) b"

definition WriteAt_u64 :: "u64 \<Rightarrow> u64 \<Rightarrow> ByteBuffer \<Rightarrow> ByteBuffer run" where
  "WriteAt_u64 offset v b = write_bytes offset (to_le 8 v) b"

definition At_u32 :: "u64 \<Rightarrow> ByteBuffer \<Rightarrow> u32 run" where
  "At_u32 offset b = run_map (\<lambda>bs. ucast (of_le bs)) (read_bytes offset 4 b)"

definition At_u64 :: "u64 \<Rightarrow> ByteBuffer \<Rightarrow> u64 run" where
  "At_u64 offset b = run_map of_le (read_bytes offset 8 b)"

fun write_string_loop :: "nat \<Rightarrow> u64 \<Rightarrow> u64 \<Rightarrow> String \<Rightarrow> ByteBuffer \<Rightarrow> ByteBuffer run" where
  "write_string_loop 0 i offset string b = Inr b"
| "write_string_loop (Suc n) i offset string b =
     run_bind (String_at string i) (\<lambda>c.
     run_bind (write_bytes (offset + i) [c] b) (write_string_loop n (i + 1) offset string))"

definition WriteStringAt :: "u64 \<Rightarrow> String \<Rightarrow> ByteBuffer \<Rightarrow> ByteBuffer run" where
  "WriteStringAt offset string b = write_string_loop (unat (str_length string)) 0 offset string b"

definition StringAt :: "u8 \<Rightarrow> u64 \<Rightarrow> u64 \<Rightarrow> ByteBuffer \<Rightarrow> String run" where
  "StringAt d offset len b = String_of_ptr d (Some (drop (unat offset) b)) len"

record CapBuffer =
  cb_buffer :: "u64 list"
  cb_used_slots :: u64

definition CapBuffer_Reset :: "CapBuffer \<Rightarrow> CapBuffer" where
  "CapBuffer_Reset c = c\<lparr>cb_used_slots := 0\<rparr>"

definition CapBuffer_At :: "u64 \<Rightarrow> CapBuffer \<Rightarrow> u64 run" where
  "CapBuffer_At offset c = cell_get (Some (cb_buffer c)) offset"

definition CapBuffer_WriteAt :: "u64 \<Rightarrow> u64 \<Rightarrow> CapBuffer \<Rightarrow> CapBuffer run" where
  "CapBuffer_WriteAt offset cap c =
     (if unat offset < length (cb_buffer c)
      then let c = c\<lparr>cb_buffer := (cb_buffer c)[unat offset := cap]\<rparr>
           in Inr (if cb_used_slots c < offset + 1 then c\<lparr>cb_used_slots := offset + 1\<rparr> else c)
      else Inl OutOfBounds)"

section \<open>The format\<close>

definition kHeaderSize :: u64 where
  "kHeaderSize = 24"

definition kIdentByte :: u64 where
  "kIdentByte = 0x33441122"

record ExtensionPointer =
  ptr_offset :: u32
  ptr_length :: u32

definition WriteAt_ext :: "u64 \<Rightarrow> ExtensionPointer \<Rightarrow> ByteBuffer \<Rightarrow> ByteBuffer run" where
  "WriteAt_ext offset p b = write_bytes offset (to_le 4 (ucast (ptr_offset p)) @ to_le 4 (ucast (ptr_length p))) b"

definition At_ext :: "u64 \<Rightarrow> ByteBuffer \<Rightarrow> ExtensionPointer run" where
  "At_ext offset b =
     run_map (\<lambda>bs. \<lparr>ptr_offset = ucast (of_le (take 4 bs)), ptr_length = ucast (of_le (drop 4 bs))\<rparr>) (read_bytes offset 8 b)"

section \<open>Serializer\<close>

record Serializer =
  ser_buffer :: ByteBuffer
  ser_offset :: u64
  ser_next_extension :: u64
  ser_core_size :: u64
  ser_next_cap :: u64
  ser_caps :: "CapBuffer option"

definition Serializer_new :: "ByteBuffer \<Rightarrow> u64 \<Rightarrow> u64 \<Rightarrow> CapBuffer option \<Rightarrow> Serializer" where
  "Serializer_new bytes offset num_fields caps =
     \<lparr>ser_buffer = bytes, ser_offset = offset, ser_next_extension = kHeaderSize + (8 * num_fields),
      ser_core_size = kHeaderSize + (8 * num_fields), ser_next_cap = 0, ser_caps = caps\<rparr>"

definition field_offset :: "Serializer \<Rightarrow> u64 \<Rightarrow> u64" where
  "field_offset s field_index = ser_offset s + kHeaderSize + (8 * field_index)"

definition on_buffer :: "(ByteBuffer \<Rightarrow> ByteBuffer run) \<Rightarrow> Serializer \<Rightarrow> Serializer run" where
  "on_buffer f s = run_map (\<lambda>b. s\<lparr>ser_buffer := b\<rparr>) (f (ser_buffer s))"

definition WriteHeader :: "Serializer \<Rightarrow> Serializer run" where
  "WriteHeader s =
     run_bind (on_buffer (WriteAt_u32 (ser_offset s + 0) (ucast kIdentByte)) s) (\<lambda>s.
     run_bind (on_buffer (WriteAt_u32 (ser_offset s + 4) (ucast (ser_core_size s))) s) (\<lambda>s.
     run_bind (on_buffer (WriteAt_u32 (ser_offset s + 8) (ucast (ser_next_extension s))) s) (\<lambda>s.
     on_buffer (WriteAt_u32 (ser_offset s + 12) 0) s)))"

definition WriteField_u64 :: "u64 \<Rightarrow> u64 \<Rightarrow> Serializer \<Rightarrow> Serializer run" where
  "WriteField_u64 field_index v s = on_buffer (WriteAt_u64 (field_offset s field_index) v) s"

text \<open>A signed number is written as the word with its bits.\<close>

definition WriteField_i64 :: "u64 \<Rightarrow> u64 \<Rightarrow> Serializer \<Rightarrow> Serializer run" where
  "WriteField_i64 field_index v s = on_buffer (WriteAt_u64 (field_offset s field_index) v) s"

definition WriteField_String :: "u64 \<Rightarrow> String \<Rightarrow> Serializer \<Rightarrow> Serializer run" where
  "WriteField_String field_index v s =
     (let ptr = \<lparr>ptr_offset = ucast (ser_next_extension s), ptr_length = ucast (str_length v)\<rparr>
      in run_bind (on_buffer (WriteStringAt (ser_offset s + ser_next_extension s) v) s) (\<lambda>s.
         let s = s\<lparr>ser_next_extension := ser_next_extension s + ucast (ptr_length ptr)\<rparr>
         in on_buffer (WriteAt_ext (field_offset s field_index) ptr) s))"

fun write_repeated_loop :: "nat \<Rightarrow> u64 \<Rightarrow> u32 \<Rightarrow> u64 Vector \<Rightarrow> Serializer \<Rightarrow> Serializer run" where
  "write_repeated_loop 0 i poff v s = Inr s"
| "write_repeated_loop (Suc n) i poff v s =
     (let offset32 = ucast (ser_offset s + ucast poff + i * 8) :: u32
      in run_bind (Vector_at v i) (\<lambda>x.
         run_bind (on_buffer (WriteAt_u64 (ucast offset32) x) s) (write_repeated_loop n (i + 1) poff v)))"

definition WriteRepeated_u64 :: "u64 \<Rightarrow> u64 Vector \<Rightarrow> Serializer \<Rightarrow> Serializer run" where
  "WriteRepeated_u64 field_index v s =
     (let ptr = \<lparr>ptr_offset = ucast (ser_next_extension s), ptr_length = ucast (vec_size v * 8)\<rparr>;
          s = s\<lparr>ser_next_extension := ser_next_extension s + ucast (ptr_length ptr)\<rparr>
      in run_bind (on_buffer (WriteAt_ext (field_offset s field_index) ptr) s)
           (write_repeated_loop (unat (vec_size v)) 0 (ptr_offset ptr) v))"

definition WriteCapability :: "u64 \<Rightarrow> u64 \<Rightarrow> Serializer \<Rightarrow> Serializer run" where
  "WriteCapability field_index v s =
     (case ser_caps s of
        None \<Rightarrow> WriteField_u64 field_index v s
      | Some caps \<Rightarrow>
          run_bind (on_buffer (WriteAt_u64 (field_offset s field_index) (ser_next_cap s)) s) (\<lambda>s.
          run_map (\<lambda>caps. s\<lparr>ser_caps := Some caps, ser_next_cap := ser_next_cap s + 1\<rparr>)
            (CapBuffer_WriteAt (ser_next_cap s) v caps)))"

text \<open>The body of \<open>WriteRepeatedCapability\<close> is empty.\<close>

definition WriteRepeatedCapability :: "u64 \<Rightarrow> u64 Vector \<Rightarrow> Serializer \<Rightarrow> Serializer run" where
  "WriteRepeatedCapability field_index v s = Inr s"

type_synonym serialize_fn = "ByteBuffer \<Rightarrow> u64 \<Rightarrow> CapBuffer option \<Rightarrow> (u64 \<times> ByteBuffer \<times> CapBuffer option) run"

definition WriteMessage :: "u64 \<Rightarrow> serialize_fn \<Rightarrow> Serializer \<Rightarrow> Serializer run" where
  "WriteMessage field_index SerializeToBytes s =
     run_bind (SerializeToBytes (ser_buffer s) (ser_offset s + ser_next_extension s) (ser_caps s)) (\<lambda>(len, b, caps).
     let ptr = \<lparr>ptr_offset = ucast (ser_next_extension s), ptr_length = ucast len\<rparr>;
         s = s\<lparr>ser_buffer := b, ser_caps := caps, ser_next_extension := ser_next_extension s + len\<rparr>
     in on_buffer (WriteAt_ext (field_offset s field_index) ptr) s)"

text \<open>The loop over the messages: \<open>is\<close> are the positions that the range-based for loop visits.\<close>

fun write_messages_loop ::
    "('m \<Rightarrow> serialize_fn) \<Rightarrow> 'm Vector \<Rightarrow> nat list \<Rightarrow> u64 \<Rightarrow> u64 \<Rightarrow> Serializer \<Rightarrow> (u64 \<times> Serializer) run" where
  "write_messages_loop SerializeToBytes v [] nptr_offset len s = Inr (len, s)"
| "write_messages_loop SerializeToBytes v (i # is) nptr_offset len s =
     run_bind (cell_get (vec_data v) (of_nat i)) (\<lambda>message.
     run_bind (SerializeToBytes message (ser_buffer s) (ser_offset s + nptr_offset) (ser_caps s)) (\<lambda>(msg_length, b, caps).
     write_messages_loop SerializeToBytes v is (nptr_offset + msg_length) (len + msg_length)
       (s\<lparr>ser_buffer := b, ser_caps := caps\<rparr>)))"

definition WriteRepeatedMessage :: "u64 \<Rightarrow> ('m \<Rightarrow> serialize_fn) \<Rightarrow> 'm Vector \<Rightarrow> Serializer \<Rightarrow> Serializer run" where
  "WriteRepeatedMessage field_index SerializeToBytes v s =
     run_bind (write_messages_loop SerializeToBytes v (iter_visits (Vector_begin v)) (ser_next_extension s) 0 s) (\<lambda>(len, s).
     let ptr = \<lparr>ptr_offset = ucast (ser_next_extension s), ptr_length = ucast len\<rparr>;
         s = s\<lparr>ser_next_extension := ser_next_extension s + len\<rparr>
     in on_buffer (WriteAt_ext (field_offset s field_index) ptr) s)"

section \<open>MessageView\<close>

record MessageView =
  mv_buffer :: ByteBuffer
  mv_offset :: u64

definition mv_field_offset :: "MessageView \<Rightarrow> u64 \<Rightarrow> u64" where
  "mv_field_offset v field_index = mv_offset v + kHeaderSize + (8 * field_index)"

definition CheckHeader :: "MessageView \<Rightarrow> Status run" where
  "CheckHeader v =
     run_map (\<lambda>ident. if ucast ident \<noteq> kIdentByte then InvalidArgument ''Trying to parse an invalid yunq message.''
                      else Status_Ok) (At_u32 (mv_offset v + 0) (mv_buffer v))"

definition MessageLength :: "MessageView \<Rightarrow> u32 run" where
  "MessageLength v = At_u32 (mv_offset v + 8) (mv_buffer v)"

definition ReadField_u64 :: "u64 \<Rightarrow> MessageView \<Rightarrow> u64 ErrorOr run" where
  "ReadField_u64 field_index v = run_map Inr (At_u64 (mv_field_offset v field_index) (mv_buffer v))"

definition ReadField_i64 :: "u64 \<Rightarrow> MessageView \<Rightarrow> u64 ErrorOr run" where
  "ReadField_i64 field_index v = run_map Inr (At_u64 (mv_field_offset v field_index) (mv_buffer v))"

definition ReadField_String :: "u8 \<Rightarrow> u64 \<Rightarrow> MessageView \<Rightarrow> String ErrorOr run" where
  "ReadField_String d field_index v =
     run_bind (At_ext (mv_field_offset v field_index) (mv_buffer v)) (\<lambda>ptr.
     run_map Inr (StringAt d (mv_offset v + ucast (ptr_offset ptr)) (ucast (ptr_length ptr)) (mv_buffer v)))"

partial_function (option) read_repeated_loop :: "u64 \<Rightarrow> u64 \<Rightarrow> ByteBuffer \<Rightarrow> u64 Vector \<Rightarrow> u64 Vector run option" where
  "read_repeated_loop i limit b v =
     (if i < limit
      then (case run_bind (At_u64 i b) (\<lambda>x. Vector_PushBack 0 x v) of
              Inl f \<Rightarrow> Some (Inl f)
            | Inr v \<Rightarrow> read_repeated_loop (i + 8) limit b v)
      else Some (Inr v))"

definition ReadRepeated_u64 :: "u64 \<Rightarrow> MessageView \<Rightarrow> u64 Vector ErrorOr run option" where
  "ReadRepeated_u64 field_index mv =
     (case run_bind (At_ext (mv_field_offset mv field_index) (mv_buffer mv)) (\<lambda>pointer.
        run_map (\<lambda>v. (pointer, v)) (Vector_Resize 0 (ucast (ptr_length pointer) div 8) Vector_new)) of
        Inl f \<Rightarrow> Some (Inl f)
      | Inr (pointer, v) \<Rightarrow>
          map_option (run_map Inr)
            (read_repeated_loop (mv_offset mv + ucast (ptr_offset pointer))
               (mv_offset mv + ucast (ptr_offset pointer) + ucast (ptr_length pointer)) (mv_buffer mv) v))"

definition ReadCapability :: "u64 \<Rightarrow> CapBuffer option \<Rightarrow> MessageView \<Rightarrow> u64 ErrorOr run" where
  "ReadCapability field_index caps v =
     run_bind (At_u64 (mv_field_offset v field_index) (mv_buffer v)) (\<lambda>x.
     case caps of None \<Rightarrow> Inr (Inr x) | Some caps \<Rightarrow> run_map Inr (CapBuffer_At x caps))"

type_synonym 'm parse_fn = "MessageView \<Rightarrow> 'm \<Rightarrow> (Status \<times> 'm) run"

definition ReadMessage :: "u64 \<Rightarrow> 'm parse_fn \<Rightarrow> MessageView \<Rightarrow> 'm \<Rightarrow> (Status \<times> 'm) run" where
  "ReadMessage field_index ParseFromBytes v message =
     run_bind (At_ext (mv_field_offset v field_index) (mv_buffer v)) (\<lambda>ptr.
     ParseFromBytes (v\<lparr>mv_offset := mv_offset v + ucast (ptr_offset ptr)\<rparr>) message)"

text \<open>
  The loop over the messages.  Each one is built in place at the back of the vector by the default
  constructor, whose result is \<open>fresh\<close>, and then parsed.  The end of the loop is computed in 32
  bits; a message whose header gives the length zero is read again and again.
\<close>

definition read_message :: "'m \<Rightarrow> 'm parse_fn \<Rightarrow> MessageView \<Rightarrow> 'm Vector \<Rightarrow> (Status \<times> 'm Vector) run" where
  "read_message fresh ParseFromBytes subview messages =
     run_bind (Vector_PushBack fresh fresh messages) (\<lambda>messages.
     run_bind (Vector_PeekBack messages) (\<lambda>message.
     run_bind (ParseFromBytes subview message) (\<lambda>(s, message).
     run_map (\<lambda>p. (s, messages\<lparr>vec_data := p\<rparr>)) (cell_set (vec_data messages) (vec_size messages - 1) message))))"

partial_function (option) read_messages_loop ::
    "'m \<Rightarrow> 'm parse_fn \<Rightarrow> MessageView \<Rightarrow> u64 \<Rightarrow> u64 \<Rightarrow> 'm Vector \<Rightarrow> (Status \<times> 'm Vector) run option" where
  "read_messages_loop fresh ParseFromBytes v ext_offset limit messages =
     (if ext_offset < limit
      then let subview = v\<lparr>mv_offset := mv_offset v + ext_offset\<rparr>
           in (case run_bind (read_message fresh ParseFromBytes subview messages) (\<lambda>(s, messages).
                 run_map (\<lambda>n. (s, messages, n)) (if Status_ok s then MessageLength subview else Inr 0)) of
                 Inl f \<Rightarrow> Some (Inl f)
               | Inr (s, messages, n) \<Rightarrow>
                   if \<not> Status_ok s then Some (Inr (s, messages))
                   else read_messages_loop fresh ParseFromBytes v (ext_offset + ucast n) limit messages)
      else Some (Inr (Status_Ok, messages)))"

definition ReadRepeatedMessage ::
    "u64 \<Rightarrow> 'm \<Rightarrow> 'm parse_fn \<Rightarrow> MessageView \<Rightarrow> 'm Vector \<Rightarrow> (Status \<times> 'm Vector) run option" where
  "ReadRepeatedMessage field_index fresh ParseFromBytes v messages =
     (case At_ext (mv_field_offset v field_index) (mv_buffer v) of
        Inl f \<Rightarrow> Some (Inl f)
      | Inr ptr \<Rightarrow>
          read_messages_loop fresh ParseFromBytes v (ucast (ptr_offset ptr)) (ucast (ptr_offset ptr + ptr_length ptr)) messages)"

section \<open>Shapes of generated code\<close>

text \<open>The statements of \<open>SerializeInternal\<close> one after the other.\<close>

fun steps :: "('s \<Rightarrow> 's run) list \<Rightarrow> 's \<Rightarrow> 's run" where
  "steps [] s = Inr s"
| "steps (f # fs) s = run_bind (f s) (steps fs)"

definition serialize_with :: "(Serializer \<Rightarrow> (u64 \<times> Serializer) run) \<Rightarrow> u64 \<Rightarrow> serialize_fn" where
  "serialize_with SerializeInternal num_fields bytes offset caps =
     run_map (\<lambda>(n, s). (n, ser_buffer s, ser_caps s)) (SerializeInternal (Serializer_new bytes offset num_fields caps))"

text \<open>
  A statement of a parser changes the message and gives a status; \<open>RETURN_ERROR\<close> and
  \<open>ASSIGN_OR_RETURN\<close> leave the parser when the status is an error.
\<close>

definition return_error :: "Status run \<Rightarrow> 'm \<Rightarrow> (Status \<times> 'm) run" where
  "return_error r message = run_map (\<lambda>s. (s, message)) r"

definition assign_field :: "('a \<Rightarrow> 'm \<Rightarrow> 'm) \<Rightarrow> 'a ErrorOr run \<Rightarrow> 'm \<Rightarrow> (Status \<times> 'm) run" where
  "assign_field set_field r message =
     run_map (\<lambda>e. case e of Inl code \<Rightarrow> (Status_of_code code, message) | Inr x \<Rightarrow> (Status_Ok, set_field x message)) r"

text \<open>A nested message is read in place and the status of the read is dropped.\<close>

definition ignore_status :: "('a \<Rightarrow> 'm \<Rightarrow> 'm) \<Rightarrow> (Status \<times> 'a) run \<Rightarrow> 'm \<Rightarrow> (Status \<times> 'm) run" where
  "ignore_status set_field r message = run_map (\<lambda>(s, x). (Status_Ok, set_field x message)) r"

fun parse_steps :: "('m \<Rightarrow> (Status \<times> 'm) run) list \<Rightarrow> 'm \<Rightarrow> (Status \<times> 'm) run" where
  "parse_steps [] message = Inr (Status_Ok, message)"
| "parse_steps (p # ps) message =
     run_bind (p message) (\<lambda>(s, message). if Status_ok s then parse_steps ps message else Inr (s, message))"

section \<open>Bytes in a buffer\<close>

text \<open>The bytes \<open>bs\<close> are in the buffer at a position; two buffers agree in a range or outside of it.\<close>

definition bytes_in :: "ByteBuffer \<Rightarrow> nat \<Rightarrow> u8 list \<Rightarrow> bool" where
  "bytes_in b lo bs \<longleftrightarrow> lo + length bs \<le> length b \<and> (\<forall>i < length bs. b ! (lo + i) = bs ! i)"

definition agree :: "nat \<Rightarrow> nat \<Rightarrow> ByteBuffer \<Rightarrow> ByteBuffer \<Rightarrow> bool" where
  "agree lo hi b b' \<longleftrightarrow> hi \<le> length b' \<and> (\<forall>k. lo \<le> k \<longrightarrow> k < hi \<longrightarrow> b' ! k = b ! k)"

definition same_outside :: "nat \<Rightarrow> nat \<Rightarrow> ByteBuffer \<Rightarrow> ByteBuffer \<Rightarrow> bool" where
  "same_outside lo hi b b' \<longleftrightarrow> length b' = length b \<and> (\<forall>k < length b. k < lo \<or> hi \<le> k \<longrightarrow> b' ! k = b ! k)"

lemma bytes_in_agree:
  "bytes_in b p bs \<Longrightarrow> agree lo hi b b' \<Longrightarrow> lo \<le> p \<Longrightarrow> p + length bs \<le> hi \<Longrightarrow> bytes_in b' p bs"
  unfolding bytes_in_def agree_def by auto

lemma bytes_in_append: "bytes_in b p (xs @ ys) \<longleftrightarrow> bytes_in b p xs \<and> bytes_in b (p + length xs) ys"
proof
  assume "bytes_in b p (xs @ ys)"
  then have len: "p + (length xs + length ys) \<le> length b" and at: "\<And>i. i < length xs + length ys \<Longrightarrow> b ! (p + i) = (xs @ ys) ! i"
    by (auto simp: bytes_in_def)
  show "bytes_in b p xs \<and> bytes_in b (p + length xs) ys"
    unfolding bytes_in_def using len at [of "length xs + i" for i] at [of i for i] by (auto simp: nth_append add.assoc)
next
  assume "bytes_in b p xs \<and> bytes_in b (p + length xs) ys"
  then show "bytes_in b p (xs @ ys)"
    by (auto simp: bytes_in_def nth_append) (metis add.assoc le_add_diff_inverse less_diff_conv2 not_less nat_add_left_cancel_less)
qed

lemma read_bytes_in: "bytes_in b (unat off) bs \<Longrightarrow> read_bytes off (length bs) b = Inr bs"
  unfolding read_bytes_def bytes_in_def by (auto intro: nth_equalityI)

lemma write_bytes_ok:
  assumes "unat off + length bs \<le> length b"
  shows "\<exists>b'. write_bytes off bs b = Inr b' \<and> bytes_in b' (unat off) bs \<and> same_outside (unat off) (unat off + length bs) b b'"
  using assms
  by (auto simp: write_bytes_def bytes_in_def same_outside_def nth_append min_def)

lemma ucast_take_32: "ucast (take_bit 32 (ucast (v :: u32) :: u64)) = v"
  by (rule bit_word_eqI) (simp add: bit_simps)

lemma At_u64_in: "bytes_in b (unat off) (to_le 8 v) \<Longrightarrow> At_u64 off b = Inr v"
  using read_bytes_in [of b off "to_le 8 v"] by (simp add: At_u64_def of_to_le take_bit_word_eq_self)

lemma At_u32_in: "bytes_in b (unat off) (to_le 4 (ucast v)) \<Longrightarrow> At_u32 off b = Inr v"
  using read_bytes_in [of b off "to_le 4 (ucast v)"]
  by (simp add: At_u32_def of_to_le ucast_take_32)

lemma At_ext_in:
  "bytes_in b (unat off) (to_le 4 (ucast (ptr_offset p)) @ to_le 4 (ucast (ptr_length p))) \<Longrightarrow> At_ext off b = Inr p"
  using read_bytes_in [of b off "to_le 4 (ucast (ptr_offset p)) @ to_le 4 (ucast (ptr_length p))"]
  by (simp add: At_ext_def of_to_le ucast_take_32)

lemma StringAt_in:
  assumes "bytes_in b (unat off) cs" and "length cs < 18446744073709551615"
  shows "StringAt d off (of_nat (length cs)) b = Inr \<lparr>str_cstr = Some (cs @ [0]), str_length = of_nat (length cs)\<rparr>"
proof -
  have u: "unat (of_nat (length cs) :: u64) = length cs" using assms(2) by (intro unat_of_nat_u64) simp
  have "take (length cs) (drop (unat off) b) = cs"
    using assms(1) by (auto simp: bytes_in_def intro: nth_equalityI)
  moreover have "length cs \<le> length (drop (unat off) b)" using assms(1) by (auto simp: bytes_in_def)
  ultimately show ?thesis
    using assms(2) u by (simp add: StringAt_def String_of_ptr_text)
qed

lemma same_outside_trans:
  assumes "same_outside lo hi b b'" and "same_outside lo' hi' b' b''" and "lo'' \<le> lo" "lo'' \<le> lo'" "hi \<le> hi''" "hi' \<le> hi''"
  shows "same_outside lo'' hi'' b b''"
  using assms unfolding same_outside_def by auto

text \<open>The loop that writes a string.\<close>

lemma write_string_loop_ok:
  assumes "str_wf s" and "unat i + n = unat (str_length s)" and "unat off + unat (str_length s) \<le> length b"
    and "length b < 18446744073709551616"
  shows "\<exists>b'. write_string_loop n i off s b = Inr b' \<and> bytes_in b' (unat off + unat i) (drop (unat i) (str_chars s)) \<and>
    same_outside (unat off + unat i) (unat off + unat (str_length s)) b b'"
  using assms(2-4)
proof (induction n arbitrary: i b)
  case 0
  then show ?case using assms(1) by (simp add: bytes_in_def same_outside_def)
next
  case (Suc n)
  let ?L = "unat (str_length s)" and ?c = "str_chars s ! unat i"
  have i: "unat i < ?L" using Suc.prems(1) by simp
  have si: "unat (i + 1) = Suc (unat i)" using i unat_lt_64 [of "str_length s"] by (intro unat_Suc_u64 [where n = ?L]) simp_all
  have oi: "unat (off + i) = unat off + unat i" using i Suc.prems(2,3) by (intro unat_add_noof) simp
  obtain b1 where b1: "write_bytes (off + i) [?c] b = Inr b1" "bytes_in b1 (unat off + unat i) [?c]"
      "same_outside (unat off + unat i) (unat off + unat i + 1) b b1"
    using write_bytes_ok [of "off + i" "[?c]" b] oi i Suc.prems(2) by auto
  then have len: "length b1 = length b" by (simp add: same_outside_def)
  obtain b2 where b2: "write_string_loop n (i + 1) off s b1 = Inr b2"
      "bytes_in b2 (unat off + Suc (unat i)) (drop (Suc (unat i)) (str_chars s))"
      "same_outside (unat off + Suc (unat i)) (unat off + ?L) b1 b2"
    using Suc.IH [of "i + 1" b1] Suc.prems len si by auto
  have "drop (unat i) (str_chars s) = [?c] @ drop (Suc (unat i)) (str_chars s)"
    using i assms(1) by (simp add: Cons_nth_drop_Suc)
  moreover have "bytes_in b2 (unat off + unat i) [?c]"
    using b1(2) b2(3) len by (simp add: bytes_in_def same_outside_def)
  ultimately have "bytes_in b2 (unat off + unat i) (drop (unat i) (str_chars s))"
    using b2(2) by (simp add: bytes_in_append del: append_Cons append_Nil)
  moreover have "same_outside (unat off + unat i) (unat off + ?L) b b2"
    using same_outside_trans [OF b1(3) b2(3)] i by simp
  ultimately show ?case using b1(1) b2(1) String_at_ok [OF assms(1) i] by simp
qed

section \<open>Writing the fields of a message\<close>

text \<open>
  A serializer for \<open>n\<close> fields whose message lies inside a buffer of less than 4 GiB.
\<close>

definition ser_lo :: "Serializer \<Rightarrow> nat" where
  "ser_lo s = unat (ser_offset s)"

definition ser_end :: "Serializer \<Rightarrow> nat" where
  "ser_end s = unat (ser_offset s) + unat (ser_next_extension s)"

definition ser_ok :: "nat \<Rightarrow> Serializer \<Rightarrow> bool" where
  "ser_ok n s \<longleftrightarrow> unat (ser_core_size s) = 24 + 8 * n \<and> 24 + 8 * n \<le> unat (ser_next_extension s) \<and>
     ser_end s \<le> length (ser_buffer s) \<and> length (ser_buffer s) < 0x100000000"

text \<open>Room for \<open>k\<close> more capabilities, and buffers for capabilities with the same first \<open>k\<close> slots.\<close>

definition caps_room :: "nat \<Rightarrow> CapBuffer option \<Rightarrow> bool" where
  "caps_room k c \<longleftrightarrow> (case c of None \<Rightarrow> True | Some c \<Rightarrow> k \<le> length (cb_buffer c) \<and> length (cb_buffer c) < 18446744073709551616)"

definition caps_match :: "nat \<Rightarrow> nat \<Rightarrow> CapBuffer option \<Rightarrow> CapBuffer option \<Rightarrow> bool" where
  "caps_match tot k c c' \<longleftrightarrow> tot = 0 \<or>
     (case c of
        None \<Rightarrow> c' = None
      | Some a \<Rightarrow> (\<exists>b. c' = Some b \<and> k \<le> length (cb_buffer b) \<and> take k (cb_buffer b) = take k (cb_buffer a)))"

definition caps_frame :: "nat \<Rightarrow> nat \<Rightarrow> CapBuffer option \<Rightarrow> CapBuffer option \<Rightarrow> bool" where
  "caps_frame lo hi c c' \<longleftrightarrow>
     (case c of
        None \<Rightarrow> c' = None
      | Some a \<Rightarrow> (\<exists>b. c' = Some b \<and> length (cb_buffer b) = length (cb_buffer a) \<and>
          (\<forall>k < length (cb_buffer a). k < lo \<or> hi \<le> k \<longrightarrow> cb_buffer b ! k = cb_buffer a ! k)))"

text \<open>
  The effect of writing field \<open>j\<close>: its cell and an extension of \<open>len\<close> bytes are written, and
  \<open>nc\<close> slots of the buffer for capabilities are taken.
\<close>

definition ser_frame :: "nat \<Rightarrow> nat \<Rightarrow> nat \<Rightarrow> Serializer \<Rightarrow> Serializer \<Rightarrow> bool" where
  "ser_frame j len nc s s' \<longleftrightarrow> ser_offset s' = ser_offset s \<and> ser_core_size s' = ser_core_size s \<and>
     length (ser_buffer s') = length (ser_buffer s) \<and>
     unat (ser_next_extension s') = unat (ser_next_extension s) + len \<and>
     unat (ser_next_cap s') = unat (ser_next_cap s) + (if ser_caps s = None then 0 else nc) \<and>
     (\<forall>k < length (ser_buffer s). \<not> (ser_lo s + 24 + 8 * j \<le> k \<and> k < ser_lo s + 32 + 8 * j) \<longrightarrow>
        \<not> (ser_end s \<le> k \<and> k < ser_end s + len) \<longrightarrow> ser_buffer s' ! k = ser_buffer s ! k) \<and>
     caps_frame (unat (ser_next_cap s)) (unat (ser_next_cap s) + nc) (ser_caps s) (ser_caps s')"

text \<open>
  A property of buffers that rests on the cell of field \<open>j\<close>, on the extensions so far and on the
  capabilities so far.
\<close>

definition holds :: "nat \<Rightarrow> Serializer \<Rightarrow> nat \<Rightarrow> (ByteBuffer \<Rightarrow> CapBuffer option \<Rightarrow> bool) \<Rightarrow> bool" where
  "holds tot s j P \<longleftrightarrow> (\<forall>b c.
     agree (ser_lo s + 24 + 8 * j) (ser_lo s + 32 + 8 * j) (ser_buffer s) b \<longrightarrow>
     agree (ser_lo s + unat (ser_core_size s)) (ser_end s) (ser_buffer s) b \<longrightarrow>
     caps_match tot (unat (ser_next_cap s)) (ser_caps s) c \<longrightarrow> P b c)"

lemma caps_match_frame:
  assumes "caps_match tot k' c' d" and "caps_frame k hi c c'" and "k \<le> k'" and "caps_room k c"
  shows "caps_match tot k c d"
proof (cases "tot = 0 \<or> c = None")
  case True
  then show ?thesis using assms(1,2) by (auto simp: caps_match_def caps_frame_def)
next
  case False
  then obtain a where a: "c = Some a" and t: "tot \<noteq> 0" by auto
  then obtain b where b: "c' = Some b" "length (cb_buffer b) = length (cb_buffer a)"
      "\<And>i. i < length (cb_buffer a) \<Longrightarrow> i < k \<Longrightarrow> cb_buffer b ! i = cb_buffer a ! i"
    using assms(2) by (auto simp: caps_frame_def)
  then obtain e where e: "d = Some e" "k' \<le> length (cb_buffer e)" "take k' (cb_buffer e) = take k' (cb_buffer b)"
    using assms(1) t by (auto simp: caps_match_def)
  have "take k (cb_buffer e) = take k (cb_buffer b)" using e(3) assms(3) by (metis min.absorb1 take_take)
  also have "\<dots> = take k (cb_buffer a)" using b(2,3) by (auto intro: nth_equalityI)
  finally show ?thesis using a e assms(3) by (simp add: caps_match_def)
qed

lemma ser_frame_ok:
  "ser_frame j len nc s s' \<Longrightarrow> ser_ok n s \<Longrightarrow> ser_end s + len \<le> length (ser_buffer s) \<Longrightarrow> ser_ok n s'"
  by (simp add: ser_frame_def ser_ok_def ser_end_def)

lemma holds_frame:
  assumes "holds tot s i P" and "ser_frame j len nc s s'" and "ser_ok n s" and "ser_end s + len \<le> length (ser_buffer s)"
    and "i < n" and "j < n" and "i \<noteq> j" and "caps_room (unat (ser_next_cap s)) (ser_caps s)"
  shows "holds tot s' i P"
  unfolding holds_def
proof (intro allI impI)
  fix b c
  note f = assms(2) [unfolded ser_frame_def]
  have lo: "ser_lo s' = ser_lo s" and e: "ser_end s' = ser_end s + len" using f by (auto simp: ser_lo_def ser_end_def)
  have core: "unat (ser_core_size s') = 24 + 8 * n" "unat (ser_core_size s) = 24 + 8 * n"
    and le: "ser_lo s + 24 + 8 * n \<le> ser_end s" using f assms(3) by (auto simp: ser_ok_def ser_lo_def ser_end_def)
  have b: "length (ser_buffer s') = length (ser_buffer s)"
    "\<And>k. k < length (ser_buffer s) \<Longrightarrow> \<not> (ser_lo s + 24 + 8 * j \<le> k \<and> k < ser_lo s + 32 + 8 * j) \<Longrightarrow>
       \<not> (ser_end s \<le> k \<and> k < ser_end s + len) \<Longrightarrow> ser_buffer s' ! k = ser_buffer s ! k"
    using f by blast+
  assume a1: "agree (ser_lo s' + 24 + 8 * i) (ser_lo s' + 32 + 8 * i) (ser_buffer s') b"
    and a2: "agree (ser_lo s' + unat (ser_core_size s')) (ser_end s') (ser_buffer s') b"
    and c: "caps_match tot (unat (ser_next_cap s')) (ser_caps s') c"
  have "agree (ser_lo s + 24 + 8 * i) (ser_lo s + 32 + 8 * i) (ser_buffer s) b"
    unfolding agree_def
  proof (intro conjI allI impI)
    fix k assume k: "ser_lo s + 24 + 8 * i \<le> k" "k < ser_lo s + 32 + 8 * i"
    then have "b ! k = ser_buffer s' ! k" using a1 lo by (auto simp: agree_def)
    moreover have "ser_buffer s' ! k = ser_buffer s ! k" using k le assms(4-7) by (intro b(2)) linarith+
    ultimately show "b ! k = ser_buffer s ! k" by simp
  qed (use a1 lo in \<open>simp add: agree_def\<close>)
  moreover have "agree (ser_lo s + unat (ser_core_size s)) (ser_end s) (ser_buffer s) b"
    unfolding agree_def core
  proof (intro conjI allI impI)
    fix k assume k: "ser_lo s + (24 + 8 * n) \<le> k" "k < ser_end s"
    then have "b ! k = ser_buffer s' ! k" using a2 lo core e by (auto simp: agree_def)
    moreover have "ser_buffer s' ! k = ser_buffer s ! k" using k assms(4,6) by (intro b(2)) linarith+
    ultimately show "b ! k = ser_buffer s ! k" by simp
  qed (use a2 e in \<open>simp add: agree_def\<close>)
  moreover have "caps_match tot (unat (ser_next_cap s)) (ser_caps s) c"
    using f by (intro caps_match_frame [OF c _ _ assms(8)]) auto
  ultimately show "P b c" using assms(1) by (simp add: holds_def)
qed

text \<open>
  What it means that a statement writes a field: the length of the extension, the number of
  capabilities, and what can be read back afterwards.
\<close>

record field =
  f_write :: "Serializer \<Rightarrow> Serializer run"
  f_len :: nat
  f_caps :: nat
  f_read :: "u64 \<Rightarrow> ByteBuffer \<Rightarrow> CapBuffer option \<Rightarrow> bool"

definition field_ok :: "nat \<Rightarrow> nat \<Rightarrow> nat \<Rightarrow> field \<Rightarrow> bool" where
  "field_ok tot n j f \<longleftrightarrow> (\<forall>s. ser_ok n s \<longrightarrow> ser_end s + f_len f \<le> length (ser_buffer s) \<longrightarrow>
     caps_room (unat (ser_next_cap s) + f_caps f) (ser_caps s) \<longrightarrow>
     (\<exists>s'. f_write f s = Inr s' \<and> ser_frame j (f_len f) (f_caps f) s s' \<and> holds tot s' j (f_read f (ser_offset s))))"

lemma field_okE:
  assumes "field_ok tot n j f" and "ser_ok n s" and "ser_end s + f_len f \<le> length (ser_buffer s)"
    and "caps_room (unat (ser_next_cap s) + f_caps f) (ser_caps s)"
  obtains s' where "f_write f s = Inr s'" and "ser_frame j (f_len f) (f_caps f) s s'"
    and "holds tot s' j (f_read f (ser_offset s))"
  using assms unfolding field_ok_def by blast

lemma caps_room_mono: "caps_room k c \<Longrightarrow> k' \<le> k \<Longrightarrow> caps_room k' c"
  by (auto simp: caps_room_def split: option.splits)

lemma caps_room_frame: "caps_room k c \<Longrightarrow> caps_frame lo hi c c' \<Longrightarrow> caps_room k c'"
  by (auto simp: caps_room_def caps_frame_def split: option.splits)

lemma caps_frame_trans:
  "caps_frame lo mid c c' \<Longrightarrow> caps_frame mid hi c' c'' \<Longrightarrow> lo \<le> mid \<Longrightarrow> mid \<le> hi \<Longrightarrow> caps_frame lo hi c c''"
  by (cases c) (auto simp: caps_frame_def)

lemma caps_frame_None: "caps_frame lo hi None c \<longleftrightarrow> c = None" "caps_frame lo hi c None \<longleftrightarrow> c = None"
  by (auto simp: caps_frame_def split: option.splits)

text \<open>The effect of writing all the fields from \<open>i\<close> on.\<close>

definition fields_written :: "nat \<Rightarrow> nat \<Rightarrow> field list \<Rightarrow> Serializer \<Rightarrow> Serializer \<Rightarrow> bool" where
  "fields_written tot i fs s s' \<longleftrightarrow>
     ser_offset s' = ser_offset s \<and> ser_core_size s' = ser_core_size s \<and>
     ser_end s' = ser_end s + sum_list (map f_len fs) \<and> length (ser_buffer s') = length (ser_buffer s) \<and>
     unat (ser_next_cap s') = unat (ser_next_cap s) + (if ser_caps s = None then 0 else sum_list (map f_caps fs)) \<and>
     (\<forall>k < length (ser_buffer s). k < ser_lo s + 24 + 8 * i \<or> ser_end s' \<le> k \<longrightarrow> ser_buffer s' ! k = ser_buffer s ! k) \<and>
     caps_frame (unat (ser_next_cap s)) (unat (ser_next_cap s) + sum_list (map f_caps fs)) (ser_caps s) (ser_caps s') \<and>
     (\<forall>j < length fs. holds tot s' (i + j) (f_read (fs ! j) (ser_offset s)))"

lemma steps_fields:
  assumes "\<forall>j < length fs. field_ok tot n (i + j) (fs ! j)" and "i + length fs \<le> n" and "ser_ok n s"
    and "ser_end s + sum_list (map f_len fs) \<le> length (ser_buffer s)"
    and "caps_room (unat (ser_next_cap s) + sum_list (map f_caps fs)) (ser_caps s)"
  shows "\<exists>s'. steps (map f_write fs) s = Inr s' \<and> ser_ok n s' \<and> fields_written tot i fs s s' \<and>
    (\<forall>j < i. \<forall>Q. holds tot s j Q \<longrightarrow> holds tot s' j Q)"
  using assms
proof (induction fs arbitrary: i s)
  case Nil
  then show ?case by (auto simp: fields_written_def caps_frame_def split: option.splits)
next
  case (Cons f fs)
  have fok: "field_ok tot n i f" using Cons.prems(1) by fastforce
  have room: "ser_end s + f_len f \<le> length (ser_buffer s)" "caps_room (unat (ser_next_cap s) + f_caps f) (ser_caps s)"
    using Cons.prems(4,5) caps_room_mono by auto
  obtain s1 where s1: "f_write f s = Inr s1" "ser_frame i (f_len f) (f_caps f) s s1"
      "holds tot s1 i (f_read f (ser_offset s))"
    by (rule field_okE [OF fok Cons.prems(3) room])
  have ok1: "ser_ok n s1" by (rule ser_frame_ok [OF s1(2) Cons.prems(3) room(1)])
  note fr = s1(2) [unfolded ser_frame_def]
  have e1: "ser_end s1 = ser_end s + f_len f" "ser_lo s1 = ser_lo s" using fr by (auto simp: ser_end_def ser_lo_def)
  have nc: "unat (ser_next_cap s1) + sum_list (map f_caps fs) \<le> unat (ser_next_cap s) + sum_list (map f_caps (f # fs))"
    using fr by simp
  have room1: "ser_end s1 + sum_list (map f_len fs) \<le> length (ser_buffer s1)"
      "caps_room (unat (ser_next_cap s1) + sum_list (map f_caps fs)) (ser_caps s1)"
    using Cons.prems(4) e1 fr caps_room_frame [OF caps_room_mono [OF Cons.prems(5) nc]] by auto
  have "\<forall>j < length fs. field_ok tot n (Suc i + j) (fs ! j)" using Cons.prems(1) by fastforce
  then obtain s2 where s2: "steps (map f_write fs) s1 = Inr s2" "ser_ok n s2" "fields_written tot (Suc i) fs s1 s2"
      "\<forall>j < Suc i. \<forall>Q. holds tot s1 j Q \<longrightarrow> holds tot s2 j Q"
    using Cons.IH [of "Suc i" s1] Cons.prems(2) ok1 room1 by auto
  note fw = s2(3) [unfolded fields_written_def]
  have i: "i < n" using Cons.prems(2) by simp
  have old: "holds tot s2 j Q" if "j < i" "holds tot s j Q" for j Q
    using s2(4) that holds_frame [OF that(2) s1(2) Cons.prems(3) room(1) _ i _ caps_room_mono [OF room(2)]] i by simp
  have "\<forall>j < length (f # fs). holds tot s2 (i + j) (f_read ((f # fs) ! j) (ser_offset s))"
  proof (intro allI impI)
    fix j assume "j < length (f # fs)"
    then show "holds tot s2 (i + j) (f_read ((f # fs) ! j) (ser_offset s))"
      using s1(3) s2(4) fw fr by (cases j) auto
  qed
  moreover have "caps_frame (unat (ser_next_cap s)) (unat (ser_next_cap s) + sum_list (map f_caps (f # fs))) (ser_caps s) (ser_caps s2)"
  proof (cases "ser_caps s = None")
    case True
    then show ?thesis using fr fw by (simp add: caps_frame_None)
  next
    case False
    then have n1: "unat (ser_next_cap s1) = unat (ser_next_cap s) + f_caps f" using fr by auto
    have "caps_frame (unat (ser_next_cap s)) (unat (ser_next_cap s) + f_caps f) (ser_caps s) (ser_caps s1)"
      "caps_frame (unat (ser_next_cap s) + f_caps f) (unat (ser_next_cap s) + f_caps f + sum_list (map f_caps fs)) (ser_caps s1) (ser_caps s2)"
      using fr fw unfolding n1 by blast+
    from caps_frame_trans [OF this] show ?thesis by (simp add: add.assoc)
  qed
  moreover have "ser_buffer s2 ! k = ser_buffer s ! k"
    if "k < length (ser_buffer s)" "k < ser_lo s + 24 + 8 * i \<or> ser_end s2 \<le> k" for k
  proof -
    have "ser_buffer s2 ! k = ser_buffer s1 ! k" using fw fr e1 that by auto
    moreover have "ser_lo s + 24 + 8 * n \<le> ser_end s" using Cons.prems(3) by (simp add: ser_ok_def ser_end_def ser_lo_def)
    then have "ser_buffer s1 ! k = ser_buffer s ! k" using fr fw e1 that i by auto
    ultimately show ?thesis by simp
  qed
  ultimately have "fields_written tot i (f # fs) s s2"
    using fr fw e1 unfolding fields_written_def by (auto simp: caps_frame_None)
  then show ?case using s1(1) s2(1,2) old by auto
qed

section \<open>The kinds of fields\<close>

lemma ser_cell:
  assumes "ser_ok n s" and "j < n"
  shows "unat (field_offset s (of_nat j)) = ser_lo s + 24 + 8 * j" and "ser_lo s + 32 + 8 * j \<le> ser_end s"
    and "ser_end s < 0x100000000"
proof -
  have b: "ser_lo s + (24 + 8 * n) \<le> ser_end s" "ser_end s < 0x100000000"
    using assms(1) by (auto simp: ser_ok_def ser_end_def ser_lo_def)
  then show "ser_end s < 0x100000000" "ser_lo s + 32 + 8 * j \<le> ser_end s" using assms(2) by auto
  have j: "j < 0x100000000" using b assms(2) by linarith
  then have uj: "unat (8 * of_nat j :: u64) = 8 * j"
    by (simp add: unat_word_ariths unat_of_nat_u64 take_bit_nat_eq_self)
  have "unat (ser_offset s + kHeaderSize) = ser_lo s + 24"
    using b by (subst unat_add_noof) (simp_all add: kHeaderSize_def ser_lo_def)
  then show "unat (field_offset s (of_nat j)) = ser_lo s + 24 + 8 * j"
    unfolding field_offset_def using b assms(2) uj by (subst unat_add_noof) simp_all
qed

lemma mv_cell:
  "mv_field_offset \<lparr>mv_buffer = b, mv_offset = ser_offset s\<rparr> j = field_offset s j"
  by (simp add: mv_field_offset_def field_offset_def)

lemma holdsI:
  assumes "bytes_in (ser_buffer s) (ser_lo s + 24 + 8 * j) cell" and "length cell = 8"
    and "\<And>b c. bytes_in b (ser_lo s + 24 + 8 * j) cell \<Longrightarrow>
      agree (ser_lo s + unat (ser_core_size s)) (ser_end s) (ser_buffer s) b \<Longrightarrow>
      caps_match tot (unat (ser_next_cap s)) (ser_caps s) c \<Longrightarrow> P b c"
  shows "holds tot s j P"
  unfolding holds_def
proof (intro allI impI)
  fix b c
  assume a: "agree (ser_lo s + 24 + 8 * j) (ser_lo s + 32 + 8 * j) (ser_buffer s) b"
    and rest: "agree (ser_lo s + unat (ser_core_size s)) (ser_end s) (ser_buffer s) b"
      "caps_match tot (unat (ser_next_cap s)) (ser_caps s) c"
  have "bytes_in b (ser_lo s + 24 + 8 * j) cell" by (rule bytes_in_agree [OF assms(1) a]) (simp_all add: assms(2))
  then show "P b c" using rest assms(3) by blast
qed

text \<open>Writing one cell.\<close>

lemma write_cell:
  assumes "ser_ok n s" and "j < n" and "length cell = 8"
  obtains b where "write_bytes (field_offset s (of_nat j)) cell (ser_buffer s) = Inr b"
    and "bytes_in b (ser_lo s + 24 + 8 * j) cell" and "same_outside (ser_lo s + 24 + 8 * j) (ser_lo s + 32 + 8 * j) (ser_buffer s) b"
proof -
  note c = ser_cell [OF assms(1,2)]
  have "unat (field_offset s (of_nat j)) + length cell \<le> length (ser_buffer s)"
    using c assms(1,3) by (simp add: ser_ok_def)
  from write_bytes_ok [OF this] show ?thesis
    using that assms(3) by (auto simp: c(1) add.assoc)
qed

lemma ser_frame_cell:
  assumes "same_outside (ser_lo s + 24 + 8 * j) (ser_lo s + 32 + 8 * j) (ser_buffer s) b"
  shows "ser_frame j 0 0 s (s\<lparr>ser_buffer := b\<rparr>)"
  using assms by (auto simp: ser_frame_def same_outside_def ser_end_def caps_frame_def split: option.splits)

definition u64_field :: "nat \<Rightarrow> u64 \<Rightarrow> field" where
  "u64_field j v = \<lparr>f_write = WriteField_u64 (of_nat j) v, f_len = 0, f_caps = 0,
     f_read = (\<lambda>off b c. ReadField_u64 (of_nat j) \<lparr>mv_buffer = b, mv_offset = off\<rparr> = Inr (Inr v))\<rparr>"

lemma u64_field_ok: "j < n \<Longrightarrow> field_ok tot n j (u64_field j v)"
  unfolding field_ok_def
proof (intro allI impI)
  fix s assume j: "j < n" and s: "ser_ok n s"
  obtain b where b: "write_bytes (field_offset s (of_nat j)) (to_le 8 v) (ser_buffer s) = Inr b"
      "bytes_in b (ser_lo s + 24 + 8 * j) (to_le 8 v)"
      "same_outside (ser_lo s + 24 + 8 * j) (ser_lo s + 32 + 8 * j) (ser_buffer s) b"
    by (rule write_cell [OF s j length_to_le])
  let ?s = "s\<lparr>ser_buffer := b\<rparr>"
  have "f_write (u64_field j v) s = Inr ?s"
    using b(1) by (simp add: u64_field_def WriteField_u64_def on_buffer_def WriteAt_u64_def)
  moreover have "holds tot ?s j (f_read (u64_field j v) (ser_offset s))"
  proof (rule holdsI [where cell = "to_le 8 v"])
    fix b' c assume "bytes_in b' (ser_lo ?s + 24 + 8 * j) (to_le 8 v)"
    then show "f_read (u64_field j v) (ser_offset s) b' c"
      using ser_cell(1) [OF s j] by (simp add: u64_field_def ReadField_u64_def mv_cell ser_lo_def At_u64_in)
  qed (use b(2) in \<open>simp_all add: ser_lo_def\<close>)
  ultimately show "\<exists>s'. f_write (u64_field j v) s = Inr s' \<and>
      ser_frame j (f_len (u64_field j v)) (f_caps (u64_field j v)) s s' \<and> holds tot s' j (f_read (u64_field j v) (ser_offset s))"
    using ser_frame_cell [OF b(3)] by (auto simp: u64_field_def)
qed

lemma ucast_u32_id:
  assumes "unat (x :: u64) < 0x100000000"
  shows "ucast (ucast x :: u32) = x"
proof -
  have "ucast (ucast x :: u32) = take_bit 32 x" by (rule bit_word_eqI) (simp add: bit_simps)
  also have "\<dots> = x" using assms by (simp add: take_bit_eq_mod word_less_nat_alt mod_word_less)
  finally show ?thesis .
qed

text \<open>A field whose cell points to an extension of \<open>len\<close> bytes behind the message so far.\<close>

lemma ext_field_caps:
  assumes s: "ser_ok n s" "j < n" and room: "ser_end s + len \<le> length (ser_buffer s)"
    and b: "same_outside (ser_end s) (ser_end s + len) (ser_buffer s) b"
    and ptr: "ptr = \<lparr>ptr_offset = ucast (ser_next_extension s), ptr_length = ucast (of_nat len :: u64)\<rparr>"
    and s1: "s1 = s\<lparr>ser_buffer := b, ser_caps := cp, ser_next_extension := ser_next_extension s + of_nat len\<rparr>"
    and cp: "caps_frame (unat (ser_next_cap s)) (unat (ser_next_cap s)) (ser_caps s) cp"
    and P: "\<And>b' c. agree (ser_end s) (ser_end s + len) b b' \<Longrightarrow>
      At_ext (field_offset s (of_nat j)) b' = Inr ptr \<Longrightarrow> P b' c"
  shows "\<exists>s'. on_buffer (WriteAt_ext (field_offset s (of_nat j)) ptr) s1 = Inr s' \<and> ser_frame j len 0 s s' \<and> holds tot s' j P"
proof -
  let ?cell = "to_le 4 (ucast (ptr_offset ptr)) @ to_le 4 (ucast (ptr_length ptr))"
  have lt: "ser_end s + len < 0x100000000" using s(1) room by (simp add: ser_ok_def)
  have un: "unat (ser_next_extension s + of_nat len) = unat (ser_next_extension s) + len"
    using lt by (subst unat_add_noof) (simp_all add: ser_end_def unat_of_nat_u64)
  have lb: "length b = length (ser_buffer s)" using b by (simp add: same_outside_def)
  have ok1: "ser_ok n s1" using s(1) room un lb by (simp add: s1 ser_ok_def ser_end_def)
  have lo: "ser_lo s1 = ser_lo s" and fo: "field_offset s1 k = field_offset s k" and e1: "ser_end s1 = ser_end s + len" for k
    using un by (simp_all add: s1 ser_lo_def field_offset_def ser_end_def)
  have c8: "length ?cell = 8" by simp
  obtain b2 where b2: "write_bytes (field_offset s1 (of_nat j)) ?cell (ser_buffer s1) = Inr b2"
      "bytes_in b2 (ser_lo s1 + 24 + 8 * j) ?cell"
      "same_outside (ser_lo s1 + 24 + 8 * j) (ser_lo s1 + 32 + 8 * j) (ser_buffer s1) b2"
    by (rule write_cell [OF ok1 s(2) c8])
  let ?s = "s1\<lparr>ser_buffer := b2\<rparr>"
  note cell = ser_cell [OF s]
  have out: "same_outside (ser_lo s + 24 + 8 * j) (ser_lo s + 32 + 8 * j) b b2" using b2(3) unfolding lo by (simp add: s1)
  have "ser_frame j len 0 s ?s"
    using b out lb un cell(2) cp by (auto simp: ser_frame_def s1 same_outside_def)
  moreover have "on_buffer (WriteAt_ext (field_offset s (of_nat j)) ptr) s1 = Inr ?s"
    using b2(1) by (simp add: on_buffer_def WriteAt_ext_def fo)
  moreover have "holds tot ?s j P"
  proof (rule holdsI [where cell = ?cell])
    fix b' c
    assume cellb: "bytes_in b' (ser_lo ?s + 24 + 8 * j) ?cell"
      and ext: "agree (ser_lo ?s + unat (ser_core_size ?s)) (ser_end ?s) (ser_buffer ?s) b'"
    have "At_ext (field_offset s (of_nat j)) b' = Inr ptr"
      using cellb cell(1) lo by (intro At_ext_in) (simp add: ser_lo_def)
    moreover have "agree (ser_end s) (ser_end s + len) b b'"
    proof -
      have "ser_lo s + unat (ser_core_size s) \<le> ser_end s" using s(1) by (simp add: ser_ok_def ser_lo_def ser_end_def)
      moreover have "b2 ! k = b ! k" if "ser_end s \<le> k" "k < ser_end s + len" for k
        using out that cell(2) room lb by (simp add: same_outside_def)
      ultimately show ?thesis using ext e1 by (auto simp: agree_def s1 ser_lo_def ser_end_def)
    qed
    ultimately show "P b' c" using P by blast
  qed (use b2(2) in \<open>simp_all add: ser_lo_def\<close>)
  ultimately show ?thesis by blast
qed

lemma ext_field:
  assumes "ser_ok n s" "j < n" and "ser_end s + len \<le> length (ser_buffer s)"
    and "same_outside (ser_end s) (ser_end s + len) (ser_buffer s) b"
    and "ptr = \<lparr>ptr_offset = ucast (ser_next_extension s), ptr_length = ucast (of_nat len :: u64)\<rparr>"
    and "s1 = s\<lparr>ser_buffer := b, ser_next_extension := ser_next_extension s + of_nat len\<rparr>"
    and "\<And>b' c. agree (ser_end s) (ser_end s + len) b b' \<Longrightarrow>
      At_ext (field_offset s (of_nat j)) b' = Inr ptr \<Longrightarrow> P b' c"
  shows "\<exists>s'. on_buffer (WriteAt_ext (field_offset s (of_nat j)) ptr) s1 = Inr s' \<and> ser_frame j len 0 s s' \<and> holds tot s' j P"
  by (rule ext_field_caps [OF assms(1-5), where cp = "ser_caps s"])
     (use assms(6,7) in \<open>cases s, auto simp: caps_frame_def split: option.splits\<close>)

text \<open>The string with the characters \<open>cs\<close>, as every constructor but the default one leaves it.\<close>

definition text_of :: "u8 list \<Rightarrow> String" where
  "text_of cs = \<lparr>str_cstr = Some (cs @ [0]), str_length = of_nat (length cs)\<rparr>"

lemma text_of_ok:
  assumes "length cs < 0x100000000"
  shows "str_wf (text_of cs)" "str_chars (text_of cs) = cs" "str_length (text_of cs) = of_nat (length cs)"
    "unat (str_length (text_of cs)) = length cs"
  using assms by (simp_all add: text_of_def str_wf_def str_chars_def unat_of_nat_u64)

definition string_field :: "nat \<Rightarrow> u8 list \<Rightarrow> field" where
  "string_field j cs = \<lparr>f_write = WriteField_String (of_nat j) (text_of cs), f_len = length cs, f_caps = 0,
     f_read = (\<lambda>off b c. \<forall>d. ReadField_String d (of_nat j) \<lparr>mv_buffer = b, mv_offset = off\<rparr> = Inr (Inr (text_of cs)))\<rparr>"

lemma string_field_ok: "j < n \<Longrightarrow> field_ok tot n j (string_field j cs)"
  unfolding field_ok_def
proof (intro allI impI)
  fix s assume j: "j < n" and s: "ser_ok n s" and "ser_end s + f_len (string_field j cs) \<le> length (ser_buffer s)"
  then have room: "ser_end s + length cs \<le> length (ser_buffer s)" by (simp add: string_field_def)
  then have lt: "ser_end s + length cs < 0x100000000" using s by (simp add: ser_ok_def)
  then have cs: "length cs < 0x100000000" by simp
  note t = text_of_ok [OF cs]
  have off: "unat (ser_offset s + ser_next_extension s) = ser_end s"
    using lt unfolding ser_end_def by (intro unat_add_noof) simp
  obtain b where b: "WriteStringAt (ser_offset s + ser_next_extension s) (text_of cs) (ser_buffer s) = Inr b"
      "bytes_in b (ser_end s) cs" "same_outside (ser_end s) (ser_end s + length cs) (ser_buffer s) b"
    using write_string_loop_ok [OF t(1), of 0 "length cs" "ser_offset s + ser_next_extension s" "ser_buffer s"]
      room s t off by (auto simp: WriteStringAt_def ser_ok_def)
  let ?ptr = "\<lparr>ptr_offset = ucast (ser_next_extension s), ptr_length = ucast (of_nat (length cs) :: u64)\<rparr>"
  have len: "ucast (ucast (of_nat (length cs) :: u64) :: u32) = (of_nat (length cs) :: u64)"
    using cs by (intro ucast_u32_id) (simp add: unat_of_nat_u64)
  have nxt: "ucast (ucast (ser_next_extension s) :: u32) = ser_next_extension s"
    using lt by (intro ucast_u32_id) (simp add: ser_end_def)
  have read: "f_read (string_field j cs) (ser_offset s) b' c"
    if a: "agree (ser_end s) (ser_end s + length cs) b b'" and p: "At_ext (field_offset s (of_nat j)) b' = Inr ?ptr" for b' c
  proof -
    have "bytes_in b' (unat (ser_offset s + ser_next_extension s)) cs"
      unfolding off by (rule bytes_in_agree [OF b(2) a]) simp_all
    from StringAt_in [OF this] show ?thesis
      using p cs by (simp add: string_field_def ReadField_String_def mv_cell len nxt text_of_def)
  qed
  from ext_field [OF s j room b(3) refl refl read, where tot = tot]
  show "\<exists>s'. f_write (string_field j cs) s = Inr s' \<and>
      ser_frame j (f_len (string_field j cs)) (f_caps (string_field j cs)) s s' \<and>
      holds tot s' j (f_read (string_field j cs) (ser_offset s))"
    using b(1) t(3) len by (auto simp: string_field_def WriteField_String_def on_buffer_def Let_def field_offset_def)
qed

definition cap_field :: "nat \<Rightarrow> u64 \<Rightarrow> field" where
  "cap_field j v = \<lparr>f_write = WriteCapability (of_nat j) v, f_len = 0, f_caps = 1,
     f_read = (\<lambda>off b c. ReadCapability (of_nat j) c \<lparr>mv_buffer = b, mv_offset = off\<rparr> = Inr (Inr v))\<rparr>"

lemma cap_field_ok: "j < n \<Longrightarrow> 0 < tot \<Longrightarrow> field_ok tot n j (cap_field j v)"
  unfolding field_ok_def
proof (intro allI impI)
  fix s assume j: "j < n" and tot: "0 < tot" and s: "ser_ok n s"
    and room: "caps_room (unat (ser_next_cap s) + f_caps (cap_field j v)) (ser_caps s)"
  let ?x = "if ser_caps s = None then v else ser_next_cap s"
  obtain b where b: "write_bytes (field_offset s (of_nat j)) (to_le 8 ?x) (ser_buffer s) = Inr b"
      "bytes_in b (ser_lo s + 24 + 8 * j) (to_le 8 ?x)"
      "same_outside (ser_lo s + 24 + 8 * j) (ser_lo s + 32 + 8 * j) (ser_buffer s) b"
    by (rule write_cell [OF s j length_to_le])
  show "\<exists>s'. f_write (cap_field j v) s = Inr s' \<and>
      ser_frame j (f_len (cap_field j v)) (f_caps (cap_field j v)) s s' \<and> holds tot s' j (f_read (cap_field j v) (ser_offset s))"
  proof (cases "ser_caps s")
    case None
    let ?s = "s\<lparr>ser_buffer := b\<rparr>"
    have "holds tot ?s j (f_read (cap_field j v) (ser_offset s))"
    proof (rule holdsI [where cell = "to_le 8 v"])
      fix b' c assume "bytes_in b' (ser_lo ?s + 24 + 8 * j) (to_le 8 v)"
        and "caps_match tot (unat (ser_next_cap ?s)) (ser_caps ?s) c"
      then show "f_read (cap_field j v) (ser_offset s) b' c"
        using ser_cell(1) [OF s j] None tot by (simp add: cap_field_def ReadCapability_def mv_cell ser_lo_def At_u64_in caps_match_def)
    qed (use b(2) None in \<open>simp_all add: ser_lo_def\<close>)
    moreover have "ser_frame j 0 1 s ?s" using ser_frame_cell [OF b(3)] None by (simp add: ser_frame_def caps_frame_def)
    ultimately show ?thesis
      using b(1) None by (auto simp: cap_field_def WriteCapability_def WriteField_u64_def on_buffer_def WriteAt_u64_def)
  next
    case (Some caps)
    let ?k = "ser_next_cap s"
    have k: "unat ?k < length (cb_buffer caps)" "length (cb_buffer caps) < 18446744073709551616"
      using room Some by (auto simp: caps_room_def cap_field_def)
    have uk: "unat (?k + 1) = Suc (unat ?k)" using k by (intro unat_Suc_u64 [where n = "length (cb_buffer caps)"]) simp_all
    obtain caps' where caps': "CapBuffer_WriteAt ?k v caps = Inr caps'" "cb_buffer caps' = (cb_buffer caps)[unat ?k := v]"
      using k by (auto simp: CapBuffer_WriteAt_def Let_def)
    let ?s = "s\<lparr>ser_buffer := b, ser_caps := Some caps', ser_next_cap := ?k + 1\<rparr>"
    have "holds tot ?s j (f_read (cap_field j v) (ser_offset s))"
    proof (rule holdsI [where cell = "to_le 8 ?k"])
      fix b' c assume cb: "bytes_in b' (ser_lo ?s + 24 + 8 * j) (to_le 8 ?k)"
        and "caps_match tot (unat (ser_next_cap ?s)) (ser_caps ?s) c"
      then obtain e where e: "c = Some e" "Suc (unat ?k) \<le> length (cb_buffer e)"
          "take (Suc (unat ?k)) (cb_buffer e) = take (Suc (unat ?k)) (cb_buffer caps')"
        using tot uk by (auto simp: caps_match_def)
      have "cb_buffer e ! unat ?k = cb_buffer caps' ! unat ?k" using e(3) by (metis lessI nth_take)
      then have "CapBuffer_At ?k e = Inr v" using e(2) caps'(2) k(1) by (simp add: CapBuffer_At_def cell_get_def)
      then show "f_read (cap_field j v) (ser_offset s) b' c"
        using cb e(1) ser_cell(1) [OF s j] by (simp add: cap_field_def ReadCapability_def mv_cell ser_lo_def At_u64_in)
    qed (use b(2) Some in \<open>simp_all add: ser_lo_def\<close>)
    moreover have "ser_frame j 0 1 s ?s"
      using ser_frame_cell [OF b(3)] Some caps'(2) uk by (auto simp: ser_frame_def caps_frame_def)
    ultimately show ?thesis
      using b(1) Some caps'(1) by (auto simp: cap_field_def WriteCapability_def on_buffer_def WriteAt_u64_def)
  qed
qed

section \<open>Whole messages\<close>

lemma write_u32_in:
  assumes "p = unat off" and "p + 4 \<le> length b"
  obtains b' where "WriteAt_u32 off v b = Inr b'" and "bytes_in b' p (to_le 4 (ucast v))" and "same_outside p (p + 4) b b'"
  using write_bytes_ok [of off "to_le 4 (ucast v)" b] assms that by (auto simp: WriteAt_u32_def)

lemma bytes_in_outside:
  "bytes_in b p bs \<Longrightarrow> same_outside lo hi b b' \<Longrightarrow> p + length bs \<le> lo \<or> hi \<le> p \<Longrightarrow> bytes_in b' p bs"
  by (auto simp: bytes_in_def same_outside_def)

lemma WriteHeader_ok:
  assumes "ser_ok n s"
  obtains b where "WriteHeader s = Inr (s\<lparr>ser_buffer := b\<rparr>)"
    and "bytes_in b (ser_lo s) (to_le 4 (ucast (ucast kIdentByte :: u32)))"
    and "bytes_in b (ser_lo s + 8) (to_le 4 (ucast (ucast (ser_next_extension s) :: u32)))"
    and "same_outside (ser_lo s) (ser_lo s + 16) (ser_buffer s) b"
proof -
  have len: "ser_lo s + 24 \<le> length (ser_buffer s)" "length (ser_buffer s) < 0x100000000"
    using assms by (auto simp: ser_ok_def ser_lo_def ser_end_def)
  have u: "ser_lo s = unat (ser_offset s)" "ser_lo s + 4 = unat (ser_offset s + 4)" "ser_lo s + 8 = unat (ser_offset s + 8)"
    "ser_lo s + 12 = unat (ser_offset s + 12)"
    using len by (simp_all add: ser_lo_def unat_add_noof)
  obtain b1 where b1: "WriteAt_u32 (ser_offset s) (ucast kIdentByte) (ser_buffer s) = Inr b1"
      "bytes_in b1 (ser_lo s) (to_le 4 (ucast (ucast kIdentByte :: u32)))" "same_outside (ser_lo s) (ser_lo s + 4) (ser_buffer s) b1"
    by (rule write_u32_in [OF u(1)]) (use len in auto)
  have l1: "length b1 = length (ser_buffer s)" using b1(3) by (simp add: same_outside_def)
  obtain b2 where b2: "WriteAt_u32 (ser_offset s + 4) (ucast (ser_core_size s)) b1 = Inr b2"
      "same_outside (ser_lo s + 4) (ser_lo s + 4 + 4) b1 b2"
    by (rule write_u32_in [OF u(2)]) (use len l1 in auto)
  have l2: "length b2 = length (ser_buffer s)" using b2(2) l1 by (simp add: same_outside_def)
  obtain b3 where b3: "WriteAt_u32 (ser_offset s + 8) (ucast (ser_next_extension s)) b2 = Inr b3"
      "bytes_in b3 (ser_lo s + 8) (to_le 4 (ucast (ucast (ser_next_extension s) :: u32)))"
      "same_outside (ser_lo s + 8) (ser_lo s + 8 + 4) b2 b3"
    by (rule write_u32_in [OF u(3)]) (use len l2 in auto)
  have l3: "length b3 = length (ser_buffer s)" using b3(3) l2 by (simp add: same_outside_def)
  obtain b4 where b4: "WriteAt_u32 (ser_offset s + 12) 0 b3 = Inr b4" "same_outside (ser_lo s + 12) (ser_lo s + 12 + 4) b3 b4"
    by (rule write_u32_in [OF u(4)]) (use len l3 in auto)
  have "WriteHeader s = Inr (s\<lparr>ser_buffer := b4\<rparr>)"
    using b1(1) b2(1) b3(1) b4(1) by (simp add: WriteHeader_def on_buffer_def)
  moreover have "bytes_in b4 (ser_lo s) (to_le 4 (ucast (ucast kIdentByte :: u32)))"
    using bytes_in_outside [OF bytes_in_outside [OF bytes_in_outside [OF b1(2) b2(2)] b3(3)] b4(2)] by simp
  moreover have "bytes_in b4 (ser_lo s + 8) (to_le 4 (ucast (ucast (ser_next_extension s) :: u32)))"
    using bytes_in_outside [OF b3(2) b4(2)] by simp
  moreover have "same_outside (ser_lo s) (ser_lo s + 16) (ser_buffer s) b4"
    using b1(3) b2(2) b3(3) b4(2) l1 l2 l3 by (auto simp: same_outside_def)
  ultimately show ?thesis using that by blast
qed

lemma steps_append: "steps (xs @ ys) s = run_bind (steps xs s) (steps ys)"
proof (induction xs arbitrary: s)
  case (Cons f xs)
  then show ?case by (cases "f s") simp_all
qed simp

text \<open>The effect of a generated \<open>SerializeToBytes\<close>.\<close>

definition SerializeInternal_of :: "field list \<Rightarrow> Serializer \<Rightarrow> (u64 \<times> Serializer) run" where
  "SerializeInternal_of fs s = run_map (\<lambda>s. (ser_next_extension s, s)) (steps (map f_write fs @ [WriteHeader]) s)"

lemma Serializer_new_ok:
  assumes "unat off + (24 + 8 * n) \<le> length b" and "length b < 0x100000000"
  shows "ser_ok n (Serializer_new b off (of_nat n) c)"
    and "ser_end (Serializer_new b off (of_nat n) c) = unat off + (24 + 8 * n)"
proof -
  have "unat (8 * of_nat n :: u64) = 8 * n"
    using assms by (simp add: unat_word_ariths unat_of_nat_u64 take_bit_nat_eq_self)
  then have "unat (kHeaderSize + 8 * of_nat n) = 24 + 8 * n"
    using assms by (subst unat_add_noof) (simp_all add: kHeaderSize_def)
  then show "ser_ok n (Serializer_new b off (of_nat n) c)" "ser_end (Serializer_new b off (of_nat n) c) = unat off + (24 + 8 * n)"
    using assms by (simp_all add: ser_ok_def Serializer_new_def ser_end_def)
qed

lemma serialize_fields:
  assumes fields: "\<forall>j < length fs. field_ok tot (length fs) j (fs ! j)"
    and L: "L = 24 + 8 * length fs + sum_list (map f_len fs)"
    and room: "unat off + L \<le> length b" "length b < 0x100000000" and caps: "caps_room (sum_list (map f_caps fs)) c"
  shows "\<exists>b' c'. serialize_with (SerializeInternal_of fs) (of_nat (length fs)) b off c = Inr (of_nat L, b', c') \<and>
    same_outside (unat off) (unat off + L) b b' \<and> caps_frame 0 (sum_list (map f_caps fs)) c c' \<and>
    (\<forall>b'' c''. agree (unat off) (unat off + L) b' b'' \<longrightarrow> caps_match tot (sum_list (map f_caps fs)) c' c'' \<longrightarrow>
       CheckHeader \<lparr>mv_buffer = b'', mv_offset = off\<rparr> = Inr Status_Ok \<and>
       MessageLength \<lparr>mv_buffer = b'', mv_offset = off\<rparr> = Inr (of_nat L) \<and>
       (\<forall>j < length fs. f_read (fs ! j) off b'' c''))"
proof -
  let ?n = "length fs" and ?s = "Serializer_new b off (of_nat (length fs)) c"
  have fit: "unat off + (24 + 8 * ?n) \<le> length b" using room(1) L by simp
  note s0 = Serializer_new_ok [OF fit room(2), of c]
  have s0_simps [simp]: "ser_buffer ?s = b" "ser_offset ?s = off" "ser_caps ?s = c" "ser_next_cap ?s = 0" "ser_lo ?s = unat off"
    by (simp_all add: Serializer_new_def ser_lo_def)
  have "\<exists>s'. steps (map f_write fs) ?s = Inr s' \<and> ser_ok ?n s' \<and> fields_written tot 0 fs ?s s' \<and>
      (\<forall>j < 0. \<forall>Q. holds tot ?s j Q \<longrightarrow> holds tot s' j Q)"
  proof (rule steps_fields [OF _ _ s0(1)])
    show "\<forall>j < ?n. field_ok tot ?n (0 + j) (fs ! j)" using fields by simp
    show "ser_end ?s + sum_list (map f_len fs) \<le> length (ser_buffer ?s)" using room(1) L s0(2) by simp
    show "caps_room (unat (ser_next_cap ?s) + sum_list (map f_caps fs)) (ser_caps ?s)" using caps by simp
  qed simp
  then obtain s' where s': "steps (map f_write fs) ?s = Inr s'" "ser_ok ?n s'" "fields_written tot 0 fs ?s s'" by blast
  obtain b' where h: "WriteHeader s' = Inr (s'\<lparr>ser_buffer := b'\<rparr>)"
      "bytes_in b' (ser_lo s') (to_le 4 (ucast (ucast kIdentByte :: u32)))"
      "bytes_in b' (ser_lo s' + 8) (to_le 4 (ucast (ucast (ser_next_extension s') :: u32)))"
      "same_outside (ser_lo s') (ser_lo s' + 16) (ser_buffer s') b'"
    by (rule WriteHeader_ok [OF s'(2)])
  note fw = s'(3) [unfolded fields_written_def s0_simps s0(2)]
  have off: "ser_offset s' = off" "ser_lo s' = unat off" using fw by (simp_all add: ser_lo_def)
  have e: "ser_end s' = unat off + L" using fw L by simp
  have nx: "unat (ser_next_extension s') = L" using e off by (simp add: ser_end_def)
  then have nL: "ser_next_extension s' = of_nat L" by (rule of_nat_unat_eq)
  have L32: "L < 0x100000000" using room by simp
  have u32: "ucast (of_nat L :: u64) = (of_nat L :: u32)" using L32 by (simp add: unsigned_of_nat take_bit_nat_eq_self)
  have "serialize_with (SerializeInternal_of fs) (of_nat ?n) b off c = Inr (of_nat L, b', ser_caps s')"
    using s'(1) h(1) nL by (simp add: serialize_with_def SerializeInternal_of_def steps_append)
  moreover have "same_outside (unat off) (unat off + L) b b'"
    using fw h(4) off e L by (auto simp: same_outside_def)
  moreover have "caps_frame 0 (sum_list (map f_caps fs)) c (ser_caps s')" using fw by simp
  moreover have "CheckHeader \<lparr>mv_buffer = b'', mv_offset = off\<rparr> = Inr Status_Ok \<and>
       MessageLength \<lparr>mv_buffer = b'', mv_offset = off\<rparr> = Inr (of_nat L) \<and> (\<forall>j < ?n. f_read (fs ! j) off b'' c'')"
    if a: "agree (unat off) (unat off + L) b' b''" and m: "caps_match tot (sum_list (map f_caps fs)) (ser_caps s') c''" for b'' c''
  proof (intro conjI allI impI)
    have "bytes_in b'' (unat off) (to_le 4 (ucast (ucast kIdentByte :: u32)))"
      using h(2) off L by (intro bytes_in_agree [OF _ a]) simp_all
    from At_u32_in [OF this] show "CheckHeader \<lparr>mv_buffer = b'', mv_offset = off\<rparr> = Inr Status_Ok"
      by (simp add: CheckHeader_def kIdentByte_def)
    have "unat (off + 8) = unat off + 8" using room L by (subst unat_add_noof) simp_all
    moreover have "bytes_in b'' (unat off + 8) (to_le 4 (ucast (ucast (ser_next_extension s') :: u32)))"
      using h(3) off L by (intro bytes_in_agree [OF _ a]) simp_all
    ultimately show "MessageLength \<lparr>mv_buffer = b'', mv_offset = off\<rparr> = Inr (of_nat L)"
      by (simp add: MessageLength_def At_u32_in nL u32)
    fix j assume j: "j < ?n"
    have hj: "holds tot s' j (f_read (fs ! j) off)" using fw j by auto
    have same: "ser_buffer s' ! k = b' ! k" if "unat off + 16 \<le> k" "k < length b" for k
      using h(4) that off fw by (simp add: same_outside_def)
    have sub: "agree lo hi (ser_buffer s') b''" if "unat off + 16 \<le> lo" "hi \<le> unat off + L" for lo hi
      using a that same room(1) by (auto simp: agree_def)
    have core: "unat (ser_core_size s') = 24 + 8 * ?n" using s'(2) by (simp add: ser_ok_def)
    have "caps_match tot (unat (ser_next_cap s')) (ser_caps s') c''"
      using m fw by (cases c) (auto simp: caps_match_def caps_frame_None split: option.splits)
    then show "f_read (fs ! j) off b'' c''"
      using hj sub [of "unat off + 24 + 8 * j" "unat off + 32 + 8 * j"] sub [of "unat off + (24 + 8 * ?n)" "unat off + L"] j L
      unfolding holds_def off core e by (auto simp: add.assoc)
  qed
  ultimately show ?thesis by blast
qed

section \<open>The interface of a message class\<close>

text \<open>
  What a message class promises: inside a large enough buffer the message is written to exactly
  its \<open>msize\<close> bytes, its capabilities to the first \<open>ncaps\<close> slots, and parsing any buffer with the
  same bytes and slots gives the message back.
\<close>

definition message_field :: "nat \<Rightarrow> serialize_fn \<Rightarrow> 'm parse_fn \<Rightarrow> nat \<Rightarrow> 'm \<Rightarrow> field" where
  "message_field j ser parse len m = \<lparr>f_write = WriteMessage (of_nat j) ser, f_len = len, f_caps = 0,
     f_read = (\<lambda>off b c. \<forall>m0. ReadMessage (of_nat j) parse \<lparr>mv_buffer = b, mv_offset = off\<rparr> m0 = Inr (Status_Ok, m))\<rparr>"

definition messages_field :: "nat \<Rightarrow> ('m \<Rightarrow> serialize_fn) \<Rightarrow> 'm parse_fn \<Rightarrow> nat \<Rightarrow> 'm \<Rightarrow> 'm Vector \<Rightarrow> field" where
  "messages_field j ser parse len fresh v = \<lparr>f_write = WriteRepeatedMessage (of_nat j) ser v, f_len = len, f_caps = 0,
     f_read = (\<lambda>off b c. \<exists>v'. ReadRepeatedMessage (of_nat j) fresh parse \<lparr>mv_buffer = b, mv_offset = off\<rparr> Vector_new =
       Some (Inr (Status_Ok, v')) \<and> vec_inv v' \<and> vec_list v' = vec_list v)\<rparr>"

lemma caps_room_0: "caps_room k c \<Longrightarrow> caps_room 0 c"
  by (auto simp: caps_room_def split: option.splits)

lemma caps_frame_none: "caps_frame 0 0 c c' \<Longrightarrow> caps_frame k k c c'"
  by (auto simp: caps_frame_def split: option.splits)

lemma caps_frame_refl: "caps_frame k k' c c"
  by (auto simp: caps_frame_def split: option.splits)

lemma read_message_ok:
  assumes "vec_inv v" and "unat (vec_size v) < 9223372036854775808" and "parse subview fresh = Inr (Status_Ok, m)"
  shows "\<exists>v'. read_message fresh parse subview v = Inr (Status_Ok, v') \<and> vec_inv v' \<and> vec_list v' = vec_list v @ [m]"
proof -
  obtain w where w: "Vector_PushBack fresh fresh v = Inr w" "vec_inv w" "vec_list w = vec_list v @ [fresh]" "vec_size w = vec_size v + 1"
    using Vector_PushBack_ok [OF assms(1,2), of fresh fresh] by auto
  let ?n = "unat (vec_size v)"
  have n: "unat (vec_size w) = Suc ?n" "unat (vec_size w - 1) = ?n" "length (vec_list v) = ?n"
    using vec_size_unat [OF w(2)] w(3,4) vec_size_unat [OF assms(1)] by simp_all
  obtain xs where xs: "vec_data w = Some xs" using w(3) by (auto simp: vec_list_def split: option.splits)
  have tk: "take (Suc ?n) xs = vec_list v @ [fresh]" using w(3) xs n(1) by (simp add: vec_list_def)
  have len: "?n < length xs" using arg_cong [OF tk, of length] n(3) by simp
  then have "xs ! ?n = fresh" "take ?n xs = vec_list v" using tk n(3) by (auto simp: take_Suc_conv_app_nth)
  then show ?thesis
    using w xs n len assms(3)
    by (auto simp: read_message_def Vector_PeekBack_def cell_get_def cell_set_def vec_inv_def vec_list_def take_Suc_conv_app_nth)
qed

locale yunq_message =
  fixes ser :: "'m \<Rightarrow> serialize_fn" and parse :: "CapBuffer option \<Rightarrow> 'm parse_fn" and msize :: "'m \<Rightarrow> nat"
    and wf :: "'m \<Rightarrow> bool" and ncaps :: nat
  assumes serialize_ok: "wf m \<Longrightarrow> unat off + msize m \<le> length b \<Longrightarrow> length b < 0x100000000 \<Longrightarrow> caps_room ncaps c \<Longrightarrow>
      \<exists>b' c'. ser m b off c = Inr (of_nat (msize m), b', c') \<and> same_outside (unat off) (unat off + msize m) b b' \<and>
        caps_frame 0 ncaps c c' \<and>
        (\<forall>b'' c'' m0. agree (unat off) (unat off + msize m) b' b'' \<longrightarrow> caps_match ncaps ncaps c' c'' \<longrightarrow>
           parse c'' \<lparr>mv_buffer = b'', mv_offset = off\<rparr> m0 = Inr (Status_Ok, m) \<and>
           MessageLength \<lparr>mv_buffer = b'', mv_offset = off\<rparr> = Inr (of_nat (msize m)))"
    and msize_pos: "24 \<le> msize m"
begin

lemma message_field_ok:
  assumes "ncaps = 0" and "wf m" and "j < n"
  shows "field_ok tot n j (message_field j (ser m) (parse None) (msize m) m)"
  unfolding field_ok_def
proof (intro allI impI)
  fix s assume s: "ser_ok n s"
    and "ser_end s + f_len (message_field j (ser m) (parse None) (msize m) m) \<le> length (ser_buffer s)"
    and c: "caps_room (unat (ser_next_cap s) + f_caps (message_field j (ser m) (parse None) (msize m) m)) (ser_caps s)"
  then have room: "ser_end s + msize m \<le> length (ser_buffer s)" and lt: "length (ser_buffer s) < 0x100000000"
    by (simp_all add: message_field_def ser_ok_def)
  let ?off = "ser_offset s + ser_next_extension s"
  have off: "unat ?off = ser_end s" using room lt unfolding ser_end_def by (intro unat_add_noof) simp
  obtain b c1 where b: "ser m (ser_buffer s) ?off (ser_caps s) = Inr (of_nat (msize m), b, c1)"
      "same_outside (ser_end s) (ser_end s + msize m) (ser_buffer s) b" "caps_frame 0 0 (ser_caps s) c1"
      and r: "\<And>b'' c'' m0. agree (ser_end s) (ser_end s + msize m) b b'' \<Longrightarrow> caps_match 0 0 c1 c'' \<Longrightarrow>
           parse c'' \<lparr>mv_buffer = b'', mv_offset = ?off\<rparr> m0 = Inr (Status_Ok, m)"
    using serialize_ok [OF assms(2), of ?off "ser_buffer s" "ser_caps s"] room lt caps_room_0 [OF c] unfolding off assms(1) by blast
  let ?ptr = "\<lparr>ptr_offset = ucast (ser_next_extension s), ptr_length = ucast (of_nat (msize m) :: u64)\<rparr>"
  have nxt: "ucast (ucast (ser_next_extension s) :: u32) = ser_next_extension s"
    using room lt by (intro ucast_u32_id) (simp add: ser_end_def)
  have read: "f_read (message_field j (ser m) (parse None) (msize m) m) (ser_offset s) b' c"
    if "agree (ser_end s) (ser_end s + msize m) b b'" "At_ext (field_offset s (of_nat j)) b' = Inr ?ptr" for b' c
    using r [OF that(1), of None] that(2) by (simp add: message_field_def ReadMessage_def mv_cell nxt caps_match_def)
  have "\<exists>s'. on_buffer (WriteAt_ext (field_offset s (of_nat j)) ?ptr)
        (s\<lparr>ser_buffer := b, ser_caps := c1, ser_next_extension := ser_next_extension s + of_nat (msize m)\<rparr>) = Inr s' \<and>
      ser_frame j (msize m) 0 s s' \<and> holds tot s' j (f_read (message_field j (ser m) (parse None) (msize m) m) (ser_offset s))"
    by (rule ext_field_caps [OF s assms(3) room b(2) refl refl caps_frame_none [OF b(3)]]) (rule read)
  then show "\<exists>s'. f_write (message_field j (ser m) (parse None) (msize m) m) s = Inr s' \<and>
      ser_frame j (f_len (message_field j (ser m) (parse None) (msize m) m)) (f_caps (message_field j (ser m) (parse None) (msize m) m)) s s' \<and>
      holds tot s' j (f_read (message_field j (ser m) (parse None) (msize m) m) (ser_offset s))"
    using b(1) by (simp add: message_field_def WriteMessage_def Let_def field_offset_def)
qed

text \<open>Messages one after the other, and the loops over them.\<close>

lemma write_messages_ok:
  assumes "ncaps = 0" and "list_all2 (\<lambda>i m. cell_get (vec_data v) (of_nat i) = Inr m \<and> wf m) is ms"
    and "unat (ser_offset s) + unat nxt + sum_list (map msize ms) \<le> length (ser_buffer s)"
    and "length (ser_buffer s) < 0x100000000" and "caps_room 0 (ser_caps s)"
  shows "\<exists>b c. write_messages_loop ser v is nxt len s =
      Inr (len + of_nat (sum_list (map msize ms)), s\<lparr>ser_buffer := b, ser_caps := c\<rparr>) \<and>
    same_outside (unat (ser_offset s) + unat nxt) (unat (ser_offset s) + unat nxt + sum_list (map msize ms)) (ser_buffer s) b \<and>
    caps_frame 0 0 (ser_caps s) c \<and>
    (\<forall>b' k. agree (unat (ser_offset s) + unat nxt) (unat (ser_offset s) + unat nxt + sum_list (map msize ms)) b b' \<longrightarrow>
       k < length ms \<longrightarrow> (\<forall>m0. parse None \<lparr>mv_buffer = b', mv_offset = ser_offset s + nxt + of_nat (sum_list (map msize (take k ms)))\<rparr> m0 =
         Inr (Status_Ok, ms ! k)) \<and>
       MessageLength \<lparr>mv_buffer = b', mv_offset = ser_offset s + nxt + of_nat (sum_list (map msize (take k ms)))\<rparr> =
         Inr (of_nat (msize (ms ! k))))"
  using assms(2-5)
proof (induction "is" ms arbitrary: nxt len s rule: list_all2_induct)
  case Nil
  show ?case
    by (intro exI [of _ "ser_buffer s"] exI [of _ "ser_caps s"]) (cases s, simp add: same_outside_def caps_frame_refl)
next
  case (Cons i "is" m ms)
  let ?S = "sum_list (map msize ms)" and ?p = "unat (ser_offset s) + unat nxt"
  have bound: "?p + msize m + ?S \<le> length (ser_buffer s)" using Cons.prems(1) by simp
  have off: "unat (ser_offset s + nxt) = ?p" using bound Cons.prems(2) by (intro unat_add_noof) simp
  obtain b c where b: "ser m (ser_buffer s) (ser_offset s + nxt) (ser_caps s) = Inr (of_nat (msize m), b, c)"
      "same_outside ?p (?p + msize m) (ser_buffer s) b" "caps_frame 0 0 (ser_caps s) c"
      and r: "\<And>b' c' m0. agree ?p (?p + msize m) b b' \<Longrightarrow> caps_match 0 0 c c' \<Longrightarrow>
          parse c' \<lparr>mv_buffer = b', mv_offset = ser_offset s + nxt\<rparr> m0 = Inr (Status_Ok, m) \<and>
          MessageLength \<lparr>mv_buffer = b', mv_offset = ser_offset s + nxt\<rparr> = Inr (of_nat (msize m))"
    using serialize_ok [of m "ser_offset s + nxt" "ser_buffer s" "ser_caps s"] Cons.hyps(1) bound Cons.prems(2,3)
    unfolding off assms(1) by auto
  let ?s = "s\<lparr>ser_buffer := b, ser_caps := c\<rparr>" and ?nxt = "nxt + of_nat (msize m)"
  have len: "length b = length (ser_buffer s)" using b(2) by (simp add: same_outside_def)
  have nx: "unat ?nxt = unat nxt + msize m"
    using bound Cons.prems(2) by (subst unat_add_noof) (simp_all add: unat_of_nat_u64)
  have p: "unat (ser_offset ?s) + unat ?nxt = ?p + msize m" using nx by simp
  obtain b2 c2 where b2: "write_messages_loop ser v is ?nxt (len + of_nat (msize m)) ?s =
        Inr (len + of_nat (msize m) + of_nat ?S, ?s\<lparr>ser_buffer := b2, ser_caps := c2\<rparr>)"
      "same_outside (?p + msize m) (?p + msize m + ?S) b b2" "caps_frame 0 0 c c2"
      and r2: "\<And>b' k. agree (?p + msize m) (?p + msize m + ?S) b2 b' \<Longrightarrow> k < length ms \<Longrightarrow>
        (\<forall>m0. parse None \<lparr>mv_buffer = b', mv_offset = ser_offset s + ?nxt + of_nat (sum_list (map msize (take k ms)))\<rparr> m0 =
           Inr (Status_Ok, ms ! k)) \<and>
        MessageLength \<lparr>mv_buffer = b', mv_offset = ser_offset s + ?nxt + of_nat (sum_list (map msize (take k ms)))\<rparr> =
           Inr (of_nat (msize (ms ! k)))"
    using Cons.IH [of ?s ?nxt "len + of_nat (msize m)"] bound len Cons.prems(2) caps_room_frame [OF Cons.prems(3) b(3)]
    unfolding p by auto
  have loop: "write_messages_loop ser v (i # is) nxt len s =
      Inr (len + of_nat (sum_list (map msize (m # ms))), s\<lparr>ser_buffer := b2, ser_caps := c2\<rparr>)"
    using Cons.hyps(1) b(1) b2(1) by (simp add: add.assoc)
  have out: "same_outside ?p (?p + sum_list (map msize (m # ms))) (ser_buffer s) b2"
    using same_outside_trans [OF b(2) b2(2)] by (simp add: add.assoc)
  have caps: "caps_frame 0 0 (ser_caps s) c2" by (rule caps_frame_trans [OF b(3) b2(3)]) simp_all
  have read: "(\<forall>m0. parse None \<lparr>mv_buffer = b', mv_offset = ser_offset s + nxt + of_nat (sum_list (map msize (take k (m # ms))))\<rparr> m0 =
        Inr (Status_Ok, (m # ms) ! k)) \<and>
      MessageLength \<lparr>mv_buffer = b', mv_offset = ser_offset s + nxt + of_nat (sum_list (map msize (take k (m # ms))))\<rparr> =
        Inr (of_nat (msize ((m # ms) ! k)))"
    if a: "agree ?p (?p + sum_list (map msize (m # ms))) b2 b'" and k: "k < length (m # ms)" for b' k
  proof (cases k)
    case 0
    have "agree ?p (?p + msize m) b b'"
      using a b2(2) len bound by (auto simp: agree_def same_outside_def)
    from r [OF this, of None] show ?thesis using 0 by (simp add: caps_match_def)
  next
    case (Suc k')
    have "agree (?p + msize m) (?p + msize m + ?S) b2 b'" using a by (auto simp: agree_def add.assoc)
    from r2 [OF this, of k'] show ?thesis using Suc k by (simp add: add.assoc)
  qed
  show ?case using loop out caps read by blast
qed

lemma read_messages_ok:
  assumes "\<And>k m0. k < length ms \<Longrightarrow> parse None \<lparr>mv_buffer = b, mv_offset = off + nxt + of_nat (sum_list (map msize (take k ms)))\<rparr> m0 =
      Inr (Status_Ok, ms ! k)"
    and "\<And>k. k < length ms \<Longrightarrow> MessageLength \<lparr>mv_buffer = b, mv_offset = off + nxt + of_nat (sum_list (map msize (take k ms)))\<rparr> =
      Inr (of_nat (msize (ms ! k)))"
    and "unat nxt + sum_list (map msize ms) < 0x100000000" and "vec_inv v" and "length (vec_list v) + length ms < 9223372036854775808"
  shows "\<exists>v'. read_messages_loop fresh (parse None) \<lparr>mv_buffer = b, mv_offset = off\<rparr> nxt (nxt + of_nat (sum_list (map msize ms))) v =
    Some (Inr (Status_Ok, v')) \<and> vec_inv v' \<and> vec_list v' = vec_list v @ ms"
  using assms
proof (induction ms arbitrary: nxt v)
  case Nil
  then show ?case by (subst read_messages_loop.simps) simp
next
  case (Cons m ms)
  let ?S = "sum_list (map msize ms)" and ?nxt = "nxt + of_nat (msize m)"
  have tot: "unat (nxt + of_nat (sum_list (map msize (m # ms)))) = unat nxt + msize m + ?S"
    using Cons.prems(3) by (subst unat_add_noof) (simp_all add: unat_of_nat_u64 del: of_nat_add)
  have nx: "unat ?nxt = unat nxt + msize m" using Cons.prems(3) by (subst unat_add_noof) (simp_all add: unat_of_nat_u64)
  have lt: "nxt < nxt + of_nat (sum_list (map msize (m # ms)))"
    unfolding word_less_nat_alt tot using msize_pos [of m] by simp
  have m: "parse None \<lparr>mv_buffer = b, mv_offset = off + nxt\<rparr> fresh = Inr (Status_Ok, m)"
      "MessageLength \<lparr>mv_buffer = b, mv_offset = off + nxt\<rparr> = Inr (of_nat (msize m))"
    using Cons.prems(1) [of 0 fresh] Cons.prems(2) [of 0] by simp_all
  have "unat (vec_size v) < 9223372036854775808" using Cons.prems(5) vec_size_unat [OF Cons.prems(4)] by simp
  with read_message_ok [OF Cons.prems(4), of "parse None" "\<lparr>mv_buffer = b, mv_offset = off + nxt\<rparr>" fresh m] m(1)
  obtain v1 where v1: "read_message fresh (parse None) \<lparr>mv_buffer = b, mv_offset = off + nxt\<rparr> v = Inr (Status_Ok, v1)"
      "vec_inv v1" "vec_list v1 = vec_list v @ [m]" by blast
  have u32: "ucast (of_nat (msize m) :: u32) = (of_nat (msize m) :: u64)"
    using Cons.prems(3) by (simp add: unsigned_of_nat take_bit_nat_eq_self)
  have eq: "nxt + of_nat (sum_list (map msize (m # ms))) = ?nxt + of_nat ?S" by (simp add: add.assoc)
  obtain v' where v': "read_messages_loop fresh (parse None) \<lparr>mv_buffer = b, mv_offset = off\<rparr> ?nxt (?nxt + of_nat ?S) v1 =
      Some (Inr (Status_Ok, v'))" "vec_inv v'" "vec_list v' = vec_list v1 @ ms"
  proof -
    have "\<exists>v'. read_messages_loop fresh (parse None) \<lparr>mv_buffer = b, mv_offset = off\<rparr> ?nxt (?nxt + of_nat ?S) v1 =
      Some (Inr (Status_Ok, v')) \<and> vec_inv v' \<and> vec_list v' = vec_list v1 @ ms"
    proof (rule Cons.IH)
      fix k m0 assume k: "k < length ms"
      show "parse None \<lparr>mv_buffer = b, mv_offset = off + ?nxt + of_nat (sum_list (map msize (take k ms)))\<rparr> m0 = Inr (Status_Ok, ms ! k)"
        using Cons.prems(1) [of "Suc k" m0] k by (simp add: add.assoc)
      show "MessageLength \<lparr>mv_buffer = b, mv_offset = off + ?nxt + of_nat (sum_list (map msize (take k ms)))\<rparr> = Inr (of_nat (msize (ms ! k)))"
        using Cons.prems(2) [of "Suc k"] k by (simp add: add.assoc)
    qed (use Cons.prems(3,5) v1(2,3) nx in simp_all)
    then show ?thesis using that by blast
  qed
  have "read_messages_loop fresh (parse None) \<lparr>mv_buffer = b, mv_offset = off\<rparr> nxt (nxt + of_nat (sum_list (map msize (m # ms)))) v =
      read_messages_loop fresh (parse None) \<lparr>mv_buffer = b, mv_offset = off\<rparr> ?nxt (?nxt + of_nat ?S) v1"
    using lt m(2) v1(1) unfolding eq by (subst read_messages_loop.simps) (simp add: u32 Status_ok_def Status_Ok_def)
  then show ?case using v' v1(3) by simp
qed

lemma messages_field_ok:
  assumes "ncaps = 0" and "j < n" and "vec_inv v" and "vec_list v \<noteq> [] \<or> vec_data v = None" and "\<forall>m \<in> set (vec_list v). wf m"
  shows "field_ok tot n j (messages_field j ser (parse None) (sum_list (map msize (vec_list v))) fresh v)"
  unfolding field_ok_def
proof (intro allI impI)
  let ?ms = "vec_list v" and ?S = "sum_list (map msize (vec_list v))"
  let ?f = "messages_field j ser (parse None) ?S fresh v"
  fix s assume s: "ser_ok n s" and "ser_end s + f_len ?f \<le> length (ser_buffer s)"
    and c: "caps_room (unat (ser_next_cap s) + f_caps ?f) (ser_caps s)"
  then have room: "ser_end s + ?S \<le> length (ser_buffer s)" and lt: "length (ser_buffer s) < 0x100000000"
    by (simp_all add: messages_field_def ser_ok_def)
  have len: "length ?ms = unat (vec_size v)" by (rule vec_size_unat [OF assms(3)])
  have "vec_data v = None \<Longrightarrow> ?ms = []" by (simp add: vec_list_def)
  then have visits: "iter_visits (Vector_begin v) = [0..<length ?ms]"
    using assms(4) len by (cases ?ms) (auto simp: Vector_visits max_def)
  have "cell_get (vec_data v) (of_nat i) = Inr (?ms ! i)" if "i < length ?ms" for i
  proof -
    have "unat (of_nat i :: u64) = i" using that len unat_lt_64 [of "vec_size v"] by (intro unat_of_nat_u64) simp
    then show ?thesis using Vector_at_ok [OF assms(3), of "of_nat i"] that by (simp add: Vector_at_def)
  qed
  then have cells: "list_all2 (\<lambda>i m. cell_get (vec_data v) (of_nat i) = Inr m \<and> wf m) (iter_visits (Vector_begin v)) ?ms"
    unfolding visits using assms(5) by (auto simp: list_all2_conv_all_nth)
  have room': "unat (ser_offset s) + unat (ser_next_extension s) + ?S \<le> length (ser_buffer s)" using room by (simp add: ser_end_def)
  obtain b cp where b: "write_messages_loop ser v (iter_visits (Vector_begin v)) (ser_next_extension s) 0 s =
        Inr (0 + of_nat ?S, s\<lparr>ser_buffer := b, ser_caps := cp\<rparr>)"
      "same_outside (ser_end s) (ser_end s + ?S) (ser_buffer s) b" "caps_frame 0 0 (ser_caps s) cp"
      and r: "\<And>b' k. agree (ser_end s) (ser_end s + ?S) b b' \<Longrightarrow> k < length ?ms \<Longrightarrow>
        (\<forall>m0. parse None \<lparr>mv_buffer = b', mv_offset = ser_offset s + ser_next_extension s + of_nat (sum_list (map msize (take k ?ms)))\<rparr> m0 =
           Inr (Status_Ok, ?ms ! k)) \<and>
        MessageLength \<lparr>mv_buffer = b', mv_offset = ser_offset s + ser_next_extension s + of_nat (sum_list (map msize (take k ?ms)))\<rparr> =
           Inr (of_nat (msize (?ms ! k)))"
    using write_messages_ok [OF assms(1) cells room' lt caps_room_0 [OF c], of 0] unfolding ser_end_def by blast
  let ?ptr = "\<lparr>ptr_offset = ucast (ser_next_extension s), ptr_length = ucast (of_nat ?S :: u64)\<rparr>"
  have small: "unat (ser_next_extension s) + ?S < 0x100000000" using room lt by (simp add: ser_end_def)
  have nxt: "ucast (ucast (ser_next_extension s) :: u32) = ser_next_extension s" using small by (intro ucast_u32_id) simp
  have "unat (ucast (ser_next_extension s) + ucast (of_nat ?S :: u64) :: u32) = unat (ser_next_extension s) + ?S"
    using small by (simp add: unat_word_ariths unsigned_of_nat unsigned_ucast_eq take_bit_nat_eq_self)
  from arg_cong [where f = "of_nat :: nat \<Rightarrow> u64", OF this]
  have lim: "ucast (ucast (ser_next_extension s) + ucast (of_nat ?S :: u64) :: u32) = ser_next_extension s + of_nat ?S"
    by (simp only: of_nat_add of_nat_unat) simp
  have "length ?ms \<le> ?S"
  proof -
    have "length ms \<le> sum_list (map msize ms)" for ms
    proof (induction ms)
      case (Cons m ms)
      then show ?case using msize_pos [of m] by simp
    qed simp
    then show ?thesis .
  qed
  then have few: "length (vec_list (Vector_new :: 'm Vector)) + length ?ms < 9223372036854775808" using small by simp
  have read: "f_read ?f (ser_offset s) b' c"
    if "agree (ser_end s) (ser_end s + ?S) b b'" "At_ext (field_offset s (of_nat j)) b' = Inr ?ptr" for b' c
    using read_messages_ok [of ?ms b' "ser_offset s" "ser_next_extension s", OF _ _ small vec_inv_new few, of fresh] r [OF that(1)] that(2)
    by (simp add: messages_field_def ReadRepeatedMessage_def mv_cell nxt lim)
  have "\<exists>s'. on_buffer (WriteAt_ext (field_offset s (of_nat j)) ?ptr)
        (s\<lparr>ser_buffer := b, ser_caps := cp, ser_next_extension := ser_next_extension s + of_nat ?S\<rparr>) = Inr s' \<and>
      ser_frame j ?S 0 s s' \<and> holds tot s' j (f_read ?f (ser_offset s))"
    by (rule ext_field_caps [OF s assms(2) room b(2) refl refl caps_frame_none [OF b(3)]]) (rule read)
  then show "\<exists>s'. f_write ?f s = Inr s' \<and> ser_frame j (f_len ?f) (f_caps ?f) s s' \<and> holds tot s' j (f_read ?f (ser_offset s))"
    using b(1) by (simp add: messages_field_def WriteRepeatedMessage_def Let_def field_offset_def)
qed

end

text \<open>The law of the interface from the fields of a message.\<close>

fun fields_ok :: "nat \<Rightarrow> nat \<Rightarrow> nat \<Rightarrow> field list \<Rightarrow> bool" where
  "fields_ok tot n i [] = True"
| "fields_ok tot n i (f # fs) = (field_ok tot n i f \<and> fields_ok tot n (Suc i) fs)"

lemma fields_ok_nth: "fields_ok tot n i fs \<Longrightarrow> j < length fs \<Longrightarrow> field_ok tot n (i + j) (fs ! j)"
proof (induction fs arbitrary: i j)
  case (Cons f fs)
  then show ?case by (cases j) fastforce+
qed simp

lemma u64_field_okI: "i = j \<Longrightarrow> j < n \<Longrightarrow> field_ok tot n i (u64_field j v)"
  by (simp add: u64_field_ok)

lemma string_field_okI: "i = j \<Longrightarrow> j < n \<Longrightarrow> field_ok tot n i (string_field j cs)"
  by (simp add: string_field_ok)

lemma cap_field_okI: "i = j \<Longrightarrow> j < n \<Longrightarrow> 0 < tot \<Longrightarrow> field_ok tot n i (cap_field j v)"
  by (simp add: cap_field_ok)

lemma message_of_fields_gen:
  assumes "ser = serialize_with (SerializeInternal_of fs) (of_nat (length fs))" and "fields_ok tot (length fs) 0 fs"
    and "sum_list (map f_caps fs) = tot" and "L = 24 + 8 * length fs + sum_list (map f_len fs)"
    and "unat off + L \<le> length b" and "length b < 0x100000000" and "caps_room tot c"
    and "\<And>b c. CheckHeader \<lparr>mv_buffer = b, mv_offset = off\<rparr> = Inr Status_Ok \<Longrightarrow> list_all (\<lambda>f. f_read f off b c) fs \<Longrightarrow> P b c"
  shows "\<exists>b' c'. ser b off c = Inr (of_nat L, b', c') \<and> same_outside (unat off) (unat off + L) b b' \<and> caps_frame 0 tot c c' \<and>
    (\<forall>b'' c''. agree (unat off) (unat off + L) b' b'' \<longrightarrow> caps_match tot tot c' c'' \<longrightarrow>
       P b'' c'' \<and> MessageLength \<lparr>mv_buffer = b'', mv_offset = off\<rparr> = Inr (of_nat L))"
proof -
  have "\<forall>j < length fs. field_ok tot (length fs) j (fs ! j)" using fields_ok_nth [OF assms(2)] by simp
  from serialize_fields [OF this assms(4,5,6), of c, unfolded assms(3), OF assms(7)]
  obtain b' c' where w: "serialize_with (SerializeInternal_of fs) (of_nat (length fs)) b off c = Inr (of_nat L, b', c')"
      "same_outside (unat off) (unat off + L) b b'" "caps_frame 0 tot c c'"
      and r: "\<And>b'' c''. agree (unat off) (unat off + L) b' b'' \<Longrightarrow> caps_match tot tot c' c'' \<Longrightarrow>
        CheckHeader \<lparr>mv_buffer = b'', mv_offset = off\<rparr> = Inr Status_Ok \<and>
        MessageLength \<lparr>mv_buffer = b'', mv_offset = off\<rparr> = Inr (of_nat L) \<and> (\<forall>j < length fs. f_read (fs ! j) off b'' c'')"
    by blast
  then have "P b'' c'' \<and> MessageLength \<lparr>mv_buffer = b'', mv_offset = off\<rparr> = Inr (of_nat L)"
    if "agree (unat off) (unat off + L) b' b''" "caps_match tot tot c' c''" for b'' c''
    using r [OF that] assms(8) unfolding list_all_length by blast
  then show ?thesis using w unfolding assms(1) by blast
qed

text \<open>
  The contract of the generated classes: a message written to a buffer with room is given back by
  the parser from every buffer and capability buffer that keep what was written, and nothing outside
  of its bytes and slots changes.
\<close>

definition roundtrips ::
    "('m \<Rightarrow> serialize_fn) \<Rightarrow> (CapBuffer option \<Rightarrow> 'm parse_fn) \<Rightarrow> ('m \<Rightarrow> nat) \<Rightarrow> ('m \<Rightarrow> bool) \<Rightarrow> nat \<Rightarrow> bool" where
  "roundtrips ser parse msize ok ncaps \<longleftrightarrow>
     (\<forall>m off b c. ok m \<longrightarrow> unat off + msize m \<le> length b \<longrightarrow> length b < 0x100000000 \<longrightarrow> caps_room ncaps c \<longrightarrow>
        (\<exists>b' c'. ser m b off c = Inr (of_nat (msize m), b', c') \<and> same_outside (unat off) (unat off + msize m) b b' \<and>
           caps_frame 0 ncaps c c' \<and>
           (\<forall>b'' c'' m0. agree (unat off) (unat off + msize m) b' b'' \<longrightarrow> caps_match ncaps ncaps c' c'' \<longrightarrow>
              parse c'' \<lparr>mv_buffer = b'', mv_offset = off\<rparr> m0 = Inr (Status_Ok, m))))"

context yunq_message
begin

lemma roundtrips: "roundtrips ser parse msize wf ncaps"
  unfolding roundtrips_def
proof (intro allI impI)
  fix m and off :: u64 and b :: ByteBuffer and c
  assume "wf m" and "unat off + msize m \<le> length b" and "length b < 0x100000000" and "caps_room ncaps c"
  from serialize_ok [OF this]
  show "\<exists>b' c'. ser m b off c = Inr (of_nat (msize m), b', c') \<and> same_outside (unat off) (unat off + msize m) b b' \<and>
      caps_frame 0 ncaps c c' \<and>
      (\<forall>b'' c'' m0. agree (unat off) (unat off + msize m) b' b'' \<longrightarrow> caps_match ncaps ncaps c' c'' \<longrightarrow>
         parse c'' \<lparr>mv_buffer = b'', mv_offset = off\<rparr> m0 = Inr (Status_Ok, m))" by blast
qed

end

text \<open>A class whose functions write and read a list of fields meets the contract.\<close>

locale yunq_fields =
  fixes ser :: "'m \<Rightarrow> serialize_fn" and parse :: "CapBuffer option \<Rightarrow> 'm parse_fn" and msize :: "'m \<Rightarrow> nat"
    and wf :: "'m \<Rightarrow> bool" and ncaps :: nat and fields :: "'m \<Rightarrow> field list"
  assumes ser_fields: "wf m \<Longrightarrow> ser m = serialize_with (SerializeInternal_of (fields m)) (of_nat (length (fields m)))"
    and fields_each: "wf m \<Longrightarrow> fields_ok ncaps (length (fields m)) 0 (fields m)"
    and fields_caps: "wf m \<Longrightarrow> sum_list (map f_caps (fields m)) = ncaps"
    and fields_size: "msize m = 24 + 8 * length (fields m) + sum_list (map f_len (fields m))"
    and parse_fields: "wf m \<Longrightarrow> CheckHeader \<lparr>mv_buffer = b, mv_offset = off\<rparr> = Inr Status_Ok \<Longrightarrow>
      list_all (\<lambda>f. f_read f off b c) (fields m) \<Longrightarrow> parse c \<lparr>mv_buffer = b, mv_offset = off\<rparr> m0 = Inr (Status_Ok, m)"

sublocale yunq_fields \<subseteq> yunq_message
proof
  fix m and off :: u64 and b :: ByteBuffer and c
  assume wf: "wf m" and room: "unat off + msize m \<le> length b" "length b < 0x100000000" "caps_room ncaps c"
  show "\<exists>b' c'. ser m b off c = Inr (of_nat (msize m), b', c') \<and> same_outside (unat off) (unat off + msize m) b b' \<and>
      caps_frame 0 ncaps c c' \<and>
      (\<forall>b'' c'' m0. agree (unat off) (unat off + msize m) b' b'' \<longrightarrow> caps_match ncaps ncaps c' c'' \<longrightarrow>
         parse c'' \<lparr>mv_buffer = b'', mv_offset = off\<rparr> m0 = Inr (Status_Ok, m) \<and>
         MessageLength \<lparr>mv_buffer = b'', mv_offset = off\<rparr> = Inr (of_nat (msize m)))"
    using message_of_fields_gen [OF ser_fields [OF wf] fields_each [OF wf] fields_caps [OF wf] fields_size room,
      where P = "\<lambda>b c. \<forall>m0. parse c \<lparr>mv_buffer = b, mv_offset = off\<rparr> m0 = Inr (Status_Ok, m)"] parse_fields [OF wf] by blast
qed (simp add: fields_size)

text \<open>A string as the constructors from characters leave it: its characters are followed by a zero.\<close>

definition is_text :: "String \<Rightarrow> bool" where
  "is_text s \<longleftrightarrow> s = text_of (str_chars s)"

lemma is_text_eq: "is_text s \<Longrightarrow> text_of (str_chars s) = s"
  by (simp add: is_text_def)

lemmas parse_step_simps = return_error_def assign_field_def ignore_status_def Status_ok_def Status_Ok_def

lemmas field_simps_yunq = u64_field_def string_field_def cap_field_def message_field_def messages_field_def

end
