(* ===== verification/Yunq_Denali.thy ===== *)
theory Yunq_Denali
  imports Yunq_Message
begin

text \<open>
  The generated message classes of the disk service (sys/denali/lib/denali/denali.yunq.h and denali.yunq.cpp).  A class is a
  record of its members; its four generated functions are the definitions with the same names.  The
  overloads with and without capabilities are one definition on an optional capability buffer.
  The statuses of the nested reads are dropped, as they are in the code; \<open>fresh\<close> is what the
  default constructor leaves in the members of a new \<open>DiskBlock\<close>.
\<close>

section \<open>The message classes\<close>

record DiskBlock =
  DiskBlock_lba :: u64
  DiskBlock_size :: u64

definition DiskBlock_SerializeInternal :: "DiskBlock \<Rightarrow> Serializer \<Rightarrow> (u64 \<times> Serializer) run" where
  "DiskBlock_SerializeInternal m s =
     run_map (\<lambda>s. (ser_next_extension s, s))
       (steps
         [WriteField_u64 0 (DiskBlock_lba m),
          WriteField_u64 1 (DiskBlock_size m),
          WriteHeader] s)"

definition DiskBlock_SerializeToBytes :: "DiskBlock \<Rightarrow> serialize_fn" where
  "DiskBlock_SerializeToBytes m = serialize_with (DiskBlock_SerializeInternal m) 2"

definition DiskBlock_ParseFromBytesInternal :: "DiskBlock parse_fn" where
  "DiskBlock_ParseFromBytesInternal message m =
     parse_steps
       [return_error (CheckHeader message),
        assign_field (\<lambda>x m. m\<lparr>DiskBlock_lba := x\<rparr>) (ReadField_u64 0 message),
        assign_field (\<lambda>x m. m\<lparr>DiskBlock_size := x\<rparr>) (ReadField_u64 1 message)] m"

definition DiskBlock_ParseFromBytes :: "CapBuffer option \<Rightarrow> DiskBlock parse_fn" where
  "DiskBlock_ParseFromBytes caps message m =
     parse_steps
       [DiskBlock_ParseFromBytesInternal message] m"

record ReadRequest =
  ReadRequest_device_id :: u64
  ReadRequest_block :: DiskBlock

definition ReadRequest_SerializeInternal :: "ReadRequest \<Rightarrow> Serializer \<Rightarrow> (u64 \<times> Serializer) run" where
  "ReadRequest_SerializeInternal m s =
     run_map (\<lambda>s. (ser_next_extension s, s))
       (steps
         [WriteField_u64 0 (ReadRequest_device_id m),
          WriteMessage 1 (DiskBlock_SerializeToBytes (ReadRequest_block m)),
          WriteHeader] s)"

definition ReadRequest_SerializeToBytes :: "ReadRequest \<Rightarrow> serialize_fn" where
  "ReadRequest_SerializeToBytes m = serialize_with (ReadRequest_SerializeInternal m) 2"

definition ReadRequest_ParseFromBytesInternal :: "ReadRequest parse_fn" where
  "ReadRequest_ParseFromBytesInternal message m =
     parse_steps
       [return_error (CheckHeader message),
        assign_field (\<lambda>x m. m\<lparr>ReadRequest_device_id := x\<rparr>) (ReadField_u64 0 message),
        (\<lambda>m. ignore_status (\<lambda>x m. m\<lparr>ReadRequest_block := x\<rparr>)
                (ReadMessage 1 (DiskBlock_ParseFromBytes None) message (ReadRequest_block m)) m)] m"

definition ReadRequest_ParseFromBytes :: "CapBuffer option \<Rightarrow> ReadRequest parse_fn" where
  "ReadRequest_ParseFromBytes caps message m =
     parse_steps
       [ReadRequest_ParseFromBytesInternal message] m"

record ReadManyRequest =
  ReadManyRequest_device_id :: u64
  ReadManyRequest_blocks :: "DiskBlock Vector"

definition ReadManyRequest_SerializeInternal :: "ReadManyRequest \<Rightarrow> Serializer \<Rightarrow> (u64 \<times> Serializer) run" where
  "ReadManyRequest_SerializeInternal m s =
     run_map (\<lambda>s. (ser_next_extension s, s))
       (steps
         [WriteField_u64 0 (ReadManyRequest_device_id m),
          WriteRepeatedMessage 1 DiskBlock_SerializeToBytes (ReadManyRequest_blocks m),
          WriteHeader] s)"

definition ReadManyRequest_SerializeToBytes :: "ReadManyRequest \<Rightarrow> serialize_fn" where
  "ReadManyRequest_SerializeToBytes m = serialize_with (ReadManyRequest_SerializeInternal m) 2"

definition ReadManyRequest_ParseFromBytesInternal :: "DiskBlock \<Rightarrow> MessageView \<Rightarrow> ReadManyRequest \<Rightarrow> (Status \<times> ReadManyRequest) run option" where
  "ReadManyRequest_ParseFromBytesInternal fresh message m =
     (case parse_steps
       [return_error (CheckHeader message),
        assign_field (\<lambda>x m. m\<lparr>ReadManyRequest_device_id := x\<rparr>) (ReadField_u64 0 message)] m of
        Inl f \<Rightarrow> Some (Inl f)
      | Inr (s, m) \<Rightarrow>
          if \<not> Status_ok s then Some (Inr (s, m))
          else map_option (run_map (\<lambda>(s, x). (Status_Ok, m\<lparr>ReadManyRequest_blocks := x\<rparr>)))
                 (ReadRepeatedMessage 1 fresh (DiskBlock_ParseFromBytes None) message (ReadManyRequest_blocks m)))"

definition ReadManyRequest_ParseFromBytes :: "DiskBlock \<Rightarrow> CapBuffer option \<Rightarrow> MessageView \<Rightarrow> ReadManyRequest \<Rightarrow> (Status \<times> ReadManyRequest) run option" where
  "ReadManyRequest_ParseFromBytes fresh caps message m = ReadManyRequest_ParseFromBytesInternal fresh message m"

record ReadResponse =
  ReadResponse_device_id :: u64
  ReadResponse_size :: u64
  ReadResponse_memory :: u64

definition ReadResponse_SerializeInternal :: "ReadResponse \<Rightarrow> Serializer \<Rightarrow> (u64 \<times> Serializer) run" where
  "ReadResponse_SerializeInternal m s =
     run_map (\<lambda>s. (ser_next_extension s, s))
       (steps
         [WriteField_u64 0 (ReadResponse_device_id m),
          WriteField_u64 1 (ReadResponse_size m),
          WriteCapability 2 (ReadResponse_memory m),
          WriteHeader] s)"

definition ReadResponse_SerializeToBytes :: "ReadResponse \<Rightarrow> serialize_fn" where
  "ReadResponse_SerializeToBytes m = serialize_with (ReadResponse_SerializeInternal m) 3"

definition ReadResponse_ParseFromBytesInternal :: "ReadResponse parse_fn" where
  "ReadResponse_ParseFromBytesInternal message m =
     parse_steps
       [return_error (CheckHeader message),
        assign_field (\<lambda>x m. m\<lparr>ReadResponse_device_id := x\<rparr>) (ReadField_u64 0 message),
        assign_field (\<lambda>x m. m\<lparr>ReadResponse_size := x\<rparr>) (ReadField_u64 1 message)] m"

definition ReadResponse_ParseFromBytes :: "CapBuffer option \<Rightarrow> ReadResponse parse_fn" where
  "ReadResponse_ParseFromBytes caps message m =
     parse_steps
       [ReadResponse_ParseFromBytesInternal message,
        assign_field (\<lambda>x m. m\<lparr>ReadResponse_memory := x\<rparr>) (ReadCapability 2 caps message)] m"

section \<open>The messages as lists of fields\<close>

definition DiskBlock_fields :: "DiskBlock \<Rightarrow> field list" where
  "DiskBlock_fields m =
     [u64_field 0 (DiskBlock_lba m),
      u64_field 1 (DiskBlock_size m)]"

interpretation DiskBlock_message: yunq_fields DiskBlock_SerializeToBytes "DiskBlock_ParseFromBytes" "\<lambda>_. 40"
  "\<lambda>_. True" 0 DiskBlock_fields
proof (unfold_locales, goal_cases)
  case (1 m)
  then show ?case
    by (simp add: DiskBlock_SerializeToBytes_def serialize_with_def DiskBlock_SerializeInternal_def SerializeInternal_of_def DiskBlock_fields_def
        field_simps_yunq fun_eq_iff)
next
  case (2 m)
  then show ?case by (simp add: DiskBlock_fields_def) (intro conjI u64_field_okI; simp)
next
  case (5 m)
  then show ?case
    by (simp add: DiskBlock_ParseFromBytes_def DiskBlock_ParseFromBytesInternal_def DiskBlock_fields_def field_simps_yunq parse_step_simps)
qed (simp_all add: DiskBlock_fields_def field_simps_yunq)

lemma DiskBlock_field_okI:
  "i = j \<Longrightarrow> j < n \<Longrightarrow> field_ok tot n i (message_field j (DiskBlock_SerializeToBytes m) (DiskBlock_ParseFromBytes None) 40 m)"
  using DiskBlock_message.message_field_ok [OF refl TrueI] by simp

definition ReadRequest_fields :: "ReadRequest \<Rightarrow> field list" where
  "ReadRequest_fields m =
     [u64_field 0 (ReadRequest_device_id m),
      message_field 1 (DiskBlock_SerializeToBytes (ReadRequest_block m)) (DiskBlock_ParseFromBytes None) 40 (ReadRequest_block m)]"

interpretation ReadRequest_message: yunq_fields ReadRequest_SerializeToBytes "ReadRequest_ParseFromBytes" "\<lambda>_. 80"
  "\<lambda>_. True" 0 ReadRequest_fields
proof (unfold_locales, goal_cases)
  case (1 m)
  then show ?case
    by (simp add: ReadRequest_SerializeToBytes_def serialize_with_def ReadRequest_SerializeInternal_def SerializeInternal_of_def ReadRequest_fields_def
        field_simps_yunq fun_eq_iff)
next
  case (2 m)
  then show ?case by (simp add: ReadRequest_fields_def) (intro conjI DiskBlock_field_okI u64_field_okI; simp)
next
  case (5 m)
  then show ?case
    by (simp add: ReadRequest_ParseFromBytes_def ReadRequest_ParseFromBytesInternal_def ReadRequest_fields_def field_simps_yunq parse_step_simps)
qed (simp_all add: ReadRequest_fields_def field_simps_yunq)

definition ReadResponse_fields :: "ReadResponse \<Rightarrow> field list" where
  "ReadResponse_fields m =
     [u64_field 0 (ReadResponse_device_id m),
      u64_field 1 (ReadResponse_size m),
      cap_field 2 (ReadResponse_memory m)]"

interpretation ReadResponse_message: yunq_fields ReadResponse_SerializeToBytes "ReadResponse_ParseFromBytes" "\<lambda>_. 48"
  "\<lambda>_. True" 1 ReadResponse_fields
proof (unfold_locales, goal_cases)
  case (1 m)
  then show ?case
    by (simp add: ReadResponse_SerializeToBytes_def serialize_with_def ReadResponse_SerializeInternal_def SerializeInternal_of_def ReadResponse_fields_def
        field_simps_yunq fun_eq_iff)
next
  case (2 m)
  then show ?case by (simp add: ReadResponse_fields_def) (intro conjI cap_field_okI u64_field_okI; simp)
next
  case (5 m)
  then show ?case
    by (simp add: ReadResponse_ParseFromBytes_def ReadResponse_ParseFromBytesInternal_def ReadResponse_fields_def field_simps_yunq parse_step_simps)
qed (simp_all add: ReadResponse_fields_def field_simps_yunq)
section \<open>Repeated blocks\<close>

definition ReadManyRequest_fields :: "DiskBlock \<Rightarrow> ReadManyRequest \<Rightarrow> field list" where
  "ReadManyRequest_fields fresh m =
     [u64_field 0 (ReadManyRequest_device_id m),
      messages_field 1 DiskBlock_SerializeToBytes (DiskBlock_ParseFromBytes None)
        (40 * length (vec_list (ReadManyRequest_blocks m))) fresh (ReadManyRequest_blocks m)]"

lemma DiskBlocks_field_okI:
  assumes "vec_inv v" and "vec_list v \<noteq> [] \<or> vec_data v = None" and "i = j" and "j < n"
  shows "field_ok tot n i
    (messages_field j DiskBlock_SerializeToBytes (DiskBlock_ParseFromBytes None) (40 * length (vec_list v)) fresh v)"
proof -
  have "sum_list (map (\<lambda>_. 40) (vec_list v)) = 40 * length (vec_list v)" by (simp add: sum_list_triv)
  then show ?thesis
    using DiskBlock_message.messages_field_ok [OF refl assms(4,1,2), of tot fresh] assms(3) by simp
qed

lemma ReadManyRequest_parses:
  assumes "CheckHeader \<lparr>mv_buffer = b, mv_offset = off\<rparr> = Inr Status_Ok"
    and "list_all (\<lambda>f. f_read f off b c) (ReadManyRequest_fields fresh m)" and "ReadManyRequest_blocks m0 = Vector_new"
  shows "\<exists>m'. ReadManyRequest_ParseFromBytes fresh c \<lparr>mv_buffer = b, mv_offset = off\<rparr> m0 = Some (Inr (Status_Ok, m')) \<and>
    ReadManyRequest_device_id m' = ReadManyRequest_device_id m \<and>
    vec_list (ReadManyRequest_blocks m') = vec_list (ReadManyRequest_blocks m)"
  using assms
  by (fastforce simp: ReadManyRequest_ParseFromBytes_def ReadManyRequest_ParseFromBytesInternal_def ReadManyRequest_fields_def
      field_simps_yunq parse_step_simps)

text \<open>
  C18. A request for many disk blocks goes through the wire format unchanged: for a request whose
  vector of blocks is well formed and, when it is empty, has never been given storage, the generated
  serialiser writes exactly \<open>40 + 40 n\<close> bytes at the offset and nothing else, and the generated
  parser, run on any buffer that holds these bytes, returns (its loop over the nested messages ends)
  with status ok, the same device and the same blocks in the same order.
\<close>

theorem ReadManyRequest_roundtrip:
  assumes "vec_inv (ReadManyRequest_blocks m)"
    and "vec_list (ReadManyRequest_blocks m) \<noteq> [] \<or> vec_data (ReadManyRequest_blocks m) = None"
    and "n = length (vec_list (ReadManyRequest_blocks m))"
    and "unat off + (40 + 40 * n) \<le> length b" and "length b < 0x100000000" and "caps_room 0 c"
  shows "\<exists>b' c'. ReadManyRequest_SerializeToBytes m b off c = Inr (of_nat (40 + 40 * n), b', c') \<and>
    same_outside (unat off) (unat off + (40 + 40 * n)) b b' \<and> caps_frame 0 0 c c' \<and>
    (\<forall>b'' c'' m0. agree (unat off) (unat off + (40 + 40 * n)) b' b'' \<longrightarrow> ReadManyRequest_blocks m0 = Vector_new \<longrightarrow>
       (\<exists>m'. ReadManyRequest_ParseFromBytes fresh c'' \<lparr>mv_buffer = b'', mv_offset = off\<rparr> m0 = Some (Inr (Status_Ok, m')) \<and>
          ReadManyRequest_device_id m' = ReadManyRequest_device_id m \<and>
          vec_list (ReadManyRequest_blocks m') = vec_list (ReadManyRequest_blocks m)))"
proof -
  let ?fs = "ReadManyRequest_fields fresh m"
  have ser: "ReadManyRequest_SerializeToBytes m = serialize_with (SerializeInternal_of ?fs) (of_nat (length ?fs))"
    by (simp add: ReadManyRequest_SerializeToBytes_def serialize_with_def ReadManyRequest_SerializeInternal_def
        SerializeInternal_of_def ReadManyRequest_fields_def field_simps_yunq fun_eq_iff)
  have ok: "fields_ok 0 (length ?fs) 0 ?fs"
    using assms(1,2) by (simp add: ReadManyRequest_fields_def) (intro conjI u64_field_okI DiskBlocks_field_okI; simp)
  have caps: "sum_list (map f_caps ?fs) = 0" and len: "40 + 40 * n = 24 + 8 * length ?fs + sum_list (map f_len ?fs)"
    by (simp_all add: ReadManyRequest_fields_def field_simps_yunq assms(3))
  have m: "caps_match 0 0 c' c''" for c' c'' by (simp add: caps_match_def)
  show ?thesis
    using message_of_fields_gen [OF ser ok caps len assms(4-6), where P = "\<lambda>b c. \<forall>m0. ReadManyRequest_blocks m0 = Vector_new \<longrightarrow>
        (\<exists>m'. ReadManyRequest_ParseFromBytes fresh c \<lparr>mv_buffer = b, mv_offset = off\<rparr> m0 = Some (Inr (Status_Ok, m')) \<and>
          ReadManyRequest_device_id m' = ReadManyRequest_device_id m \<and>
          vec_list (ReadManyRequest_blocks m') = vec_list (ReadManyRequest_blocks m))"]
      ReadManyRequest_parses m by blast
qed

definition two_blocks :: ReadManyRequest where
  "two_blocks = \<lparr>ReadManyRequest_device_id = 7, ReadManyRequest_blocks =
     \<lparr>vec_data = Some [\<lparr>DiskBlock_lba = 1, DiskBlock_size = 2\<rparr>, \<lparr>DiskBlock_lba = 5, DiskBlock_size = 1\<rparr>], vec_size = 2, vec_capacity = 2\<rparr>\<rparr>"

theorem ReadManyRequest_roundtrip_witness:
  "\<exists>b' c'. ReadManyRequest_SerializeToBytes two_blocks (replicate 200 0) 16 None = Inr (120, b', c') \<and>
    (\<exists>m'. ReadManyRequest_ParseFromBytes \<lparr>DiskBlock_lba = 0, DiskBlock_size = 0\<rparr> None \<lparr>mv_buffer = b', mv_offset = 16\<rparr>
         \<lparr>ReadManyRequest_device_id = 0, ReadManyRequest_blocks = Vector_new\<rparr> = Some (Inr (Status_Ok, m')) \<and>
       vec_list (ReadManyRequest_blocks m') = [\<lparr>DiskBlock_lba = 1, DiskBlock_size = 2\<rparr>, \<lparr>DiskBlock_lba = 5, DiskBlock_size = 1\<rparr>])"
proof -
  let ?fresh = "\<lparr>DiskBlock_lba = 0, DiskBlock_size = 0\<rparr>" and ?m0 = "\<lparr>ReadManyRequest_device_id = 0, ReadManyRequest_blocks = Vector_new\<rparr>"
  have l: "vec_list (ReadManyRequest_blocks two_blocks) = [\<lparr>DiskBlock_lba = 1, DiskBlock_size = 2\<rparr>, \<lparr>DiskBlock_lba = 5, DiskBlock_size = 1\<rparr>]"
    by (simp add: two_blocks_def vec_list_def)
  obtain b' c' where w: "ReadManyRequest_SerializeToBytes two_blocks (replicate 200 0) 16 None = Inr (120, b', c')"
      "same_outside 16 136 (replicate 200 0) b'"
      and r: "\<And>b'' c'' m0. agree 16 136 b' b'' \<Longrightarrow> ReadManyRequest_blocks m0 = Vector_new \<Longrightarrow>
       \<exists>m'. ReadManyRequest_ParseFromBytes ?fresh c'' \<lparr>mv_buffer = b'', mv_offset = 16\<rparr> m0 = Some (Inr (Status_Ok, m')) \<and>
          vec_list (ReadManyRequest_blocks m') = vec_list (ReadManyRequest_blocks two_blocks)"
    using ReadManyRequest_roundtrip [of two_blocks 2 16 "replicate 200 0" None ?fresh] l
    by (fastforce simp: two_blocks_def vec_inv_def caps_room_def)
  have "agree 16 136 b' b'" using w(2) by (simp add: same_outside_def agree_def)
  from r [OF this, of ?m0 None] show ?thesis using w(1) l by fastforce
qed

end
