(* ===== verification/Yunq_VictoriaFalls.thy ===== *)
theory Yunq_VictoriaFalls
  imports Yunq_Message
begin

text \<open>
  The generated message classes of the file system service (sys/victoriafalls/lib/victoriafalls/victoriafalls.yunq.h and .cpp).  A class is a
  record of its members; its four generated functions are the definitions with the same names.  The
  overloads with and without capabilities are one definition on an optional capability buffer.
  The parameter \<open>d\<close> fills the bytes that \<open>new\<close> leaves unset in a string.
\<close>

section \<open>The message classes\<close>

record OpenFileRequest =
  OpenFileRequest_path :: String

definition OpenFileRequest_SerializeInternal :: "OpenFileRequest \<Rightarrow> Serializer \<Rightarrow> (u64 \<times> Serializer) run" where
  "OpenFileRequest_SerializeInternal m s =
     run_map (\<lambda>s. (ser_next_extension s, s))
       (steps
         [WriteField_String 0 (OpenFileRequest_path m),
          WriteHeader] s)"

definition OpenFileRequest_SerializeToBytes :: "OpenFileRequest \<Rightarrow> serialize_fn" where
  "OpenFileRequest_SerializeToBytes m = serialize_with (OpenFileRequest_SerializeInternal m) 1"

definition OpenFileRequest_ParseFromBytesInternal :: "u8 \<Rightarrow> OpenFileRequest parse_fn" where
  "OpenFileRequest_ParseFromBytesInternal d message m =
     parse_steps
       [return_error (CheckHeader message),
        assign_field (\<lambda>x m. m\<lparr>OpenFileRequest_path := x\<rparr>) (ReadField_String d 0 message)] m"

definition OpenFileRequest_ParseFromBytes :: "u8 \<Rightarrow> CapBuffer option \<Rightarrow> OpenFileRequest parse_fn" where
  "OpenFileRequest_ParseFromBytes d caps message m =
     parse_steps
       [OpenFileRequest_ParseFromBytesInternal d message] m"

record OpenFileResponse =
  OpenFileResponse_path :: String
  OpenFileResponse_size :: u64
  OpenFileResponse_memory :: u64

definition OpenFileResponse_SerializeInternal :: "OpenFileResponse \<Rightarrow> Serializer \<Rightarrow> (u64 \<times> Serializer) run" where
  "OpenFileResponse_SerializeInternal m s =
     run_map (\<lambda>s. (ser_next_extension s, s))
       (steps
         [WriteField_String 0 (OpenFileResponse_path m),
          WriteField_u64 1 (OpenFileResponse_size m),
          WriteCapability 2 (OpenFileResponse_memory m),
          WriteHeader] s)"

definition OpenFileResponse_SerializeToBytes :: "OpenFileResponse \<Rightarrow> serialize_fn" where
  "OpenFileResponse_SerializeToBytes m = serialize_with (OpenFileResponse_SerializeInternal m) 3"

definition OpenFileResponse_ParseFromBytesInternal :: "u8 \<Rightarrow> OpenFileResponse parse_fn" where
  "OpenFileResponse_ParseFromBytesInternal d message m =
     parse_steps
       [return_error (CheckHeader message),
        assign_field (\<lambda>x m. m\<lparr>OpenFileResponse_path := x\<rparr>) (ReadField_String d 0 message),
        assign_field (\<lambda>x m. m\<lparr>OpenFileResponse_size := x\<rparr>) (ReadField_u64 1 message)] m"

definition OpenFileResponse_ParseFromBytes :: "u8 \<Rightarrow> CapBuffer option \<Rightarrow> OpenFileResponse parse_fn" where
  "OpenFileResponse_ParseFromBytes d caps message m =
     parse_steps
       [OpenFileResponse_ParseFromBytesInternal d message,
        assign_field (\<lambda>x m. m\<lparr>OpenFileResponse_memory := x\<rparr>) (ReadCapability 2 caps message)] m"

record GetDirectoryRequest =
  GetDirectoryRequest_path :: String

definition GetDirectoryRequest_SerializeInternal :: "GetDirectoryRequest \<Rightarrow> Serializer \<Rightarrow> (u64 \<times> Serializer) run" where
  "GetDirectoryRequest_SerializeInternal m s =
     run_map (\<lambda>s. (ser_next_extension s, s))
       (steps
         [WriteField_String 0 (GetDirectoryRequest_path m),
          WriteHeader] s)"

definition GetDirectoryRequest_SerializeToBytes :: "GetDirectoryRequest \<Rightarrow> serialize_fn" where
  "GetDirectoryRequest_SerializeToBytes m = serialize_with (GetDirectoryRequest_SerializeInternal m) 1"

definition GetDirectoryRequest_ParseFromBytesInternal :: "u8 \<Rightarrow> GetDirectoryRequest parse_fn" where
  "GetDirectoryRequest_ParseFromBytesInternal d message m =
     parse_steps
       [return_error (CheckHeader message),
        assign_field (\<lambda>x m. m\<lparr>GetDirectoryRequest_path := x\<rparr>) (ReadField_String d 0 message)] m"

definition GetDirectoryRequest_ParseFromBytes :: "u8 \<Rightarrow> CapBuffer option \<Rightarrow> GetDirectoryRequest parse_fn" where
  "GetDirectoryRequest_ParseFromBytes d caps message m =
     parse_steps
       [GetDirectoryRequest_ParseFromBytesInternal d message] m"

record Directory =
  Directory_filenames :: String

definition Directory_SerializeInternal :: "Directory \<Rightarrow> Serializer \<Rightarrow> (u64 \<times> Serializer) run" where
  "Directory_SerializeInternal m s =
     run_map (\<lambda>s. (ser_next_extension s, s))
       (steps
         [WriteField_String 0 (Directory_filenames m),
          WriteHeader] s)"

definition Directory_SerializeToBytes :: "Directory \<Rightarrow> serialize_fn" where
  "Directory_SerializeToBytes m = serialize_with (Directory_SerializeInternal m) 1"

definition Directory_ParseFromBytesInternal :: "u8 \<Rightarrow> Directory parse_fn" where
  "Directory_ParseFromBytesInternal d message m =
     parse_steps
       [return_error (CheckHeader message),
        assign_field (\<lambda>x m. m\<lparr>Directory_filenames := x\<rparr>) (ReadField_String d 0 message)] m"

definition Directory_ParseFromBytes :: "u8 \<Rightarrow> CapBuffer option \<Rightarrow> Directory parse_fn" where
  "Directory_ParseFromBytes d caps message m =
     parse_steps
       [Directory_ParseFromBytesInternal d message] m"

section \<open>The messages as lists of fields\<close>

definition OpenFileRequest_fields :: "OpenFileRequest \<Rightarrow> field list" where
  "OpenFileRequest_fields m =
     [string_field 0 (str_chars (OpenFileRequest_path m))]"

interpretation OpenFileRequest_message: yunq_fields OpenFileRequest_SerializeToBytes "OpenFileRequest_ParseFromBytes d" "\<lambda>m. 32 + length (str_chars (OpenFileRequest_path m))"
  "\<lambda>m. is_text (OpenFileRequest_path m)" 0 OpenFileRequest_fields
proof (unfold_locales, goal_cases)
  case (1 m)
  then show ?case
    by (simp add: OpenFileRequest_SerializeToBytes_def serialize_with_def OpenFileRequest_SerializeInternal_def SerializeInternal_of_def OpenFileRequest_fields_def
        field_simps_yunq is_text_eq fun_eq_iff)
next
  case (2 m)
  then show ?case by (simp add: OpenFileRequest_fields_def) (intro conjI string_field_okI u64_field_okI; simp)
next
  case (5 m)
  then show ?case
    by (simp add: OpenFileRequest_ParseFromBytes_def OpenFileRequest_ParseFromBytesInternal_def OpenFileRequest_fields_def field_simps_yunq is_text_eq parse_step_simps)
qed (simp_all add: OpenFileRequest_fields_def field_simps_yunq is_text_eq)

definition OpenFileResponse_fields :: "OpenFileResponse \<Rightarrow> field list" where
  "OpenFileResponse_fields m =
     [string_field 0 (str_chars (OpenFileResponse_path m)),
      u64_field 1 (OpenFileResponse_size m),
      cap_field 2 (OpenFileResponse_memory m)]"

interpretation OpenFileResponse_message: yunq_fields OpenFileResponse_SerializeToBytes "OpenFileResponse_ParseFromBytes d" "\<lambda>m. 48 + length (str_chars (OpenFileResponse_path m))"
  "\<lambda>m. is_text (OpenFileResponse_path m)" 1 OpenFileResponse_fields
proof (unfold_locales, goal_cases)
  case (1 m)
  then show ?case
    by (simp add: OpenFileResponse_SerializeToBytes_def serialize_with_def OpenFileResponse_SerializeInternal_def SerializeInternal_of_def OpenFileResponse_fields_def
        field_simps_yunq is_text_eq fun_eq_iff)
next
  case (2 m)
  then show ?case by (simp add: OpenFileResponse_fields_def) (intro conjI cap_field_okI string_field_okI u64_field_okI; simp)
next
  case (5 m)
  then show ?case
    by (simp add: OpenFileResponse_ParseFromBytes_def OpenFileResponse_ParseFromBytesInternal_def OpenFileResponse_fields_def field_simps_yunq is_text_eq parse_step_simps)
qed (simp_all add: OpenFileResponse_fields_def field_simps_yunq is_text_eq)

definition GetDirectoryRequest_fields :: "GetDirectoryRequest \<Rightarrow> field list" where
  "GetDirectoryRequest_fields m =
     [string_field 0 (str_chars (GetDirectoryRequest_path m))]"

interpretation GetDirectoryRequest_message: yunq_fields GetDirectoryRequest_SerializeToBytes "GetDirectoryRequest_ParseFromBytes d" "\<lambda>m. 32 + length (str_chars (GetDirectoryRequest_path m))"
  "\<lambda>m. is_text (GetDirectoryRequest_path m)" 0 GetDirectoryRequest_fields
proof (unfold_locales, goal_cases)
  case (1 m)
  then show ?case
    by (simp add: GetDirectoryRequest_SerializeToBytes_def serialize_with_def GetDirectoryRequest_SerializeInternal_def SerializeInternal_of_def GetDirectoryRequest_fields_def
        field_simps_yunq is_text_eq fun_eq_iff)
next
  case (2 m)
  then show ?case by (simp add: GetDirectoryRequest_fields_def) (intro conjI string_field_okI u64_field_okI; simp)
next
  case (5 m)
  then show ?case
    by (simp add: GetDirectoryRequest_ParseFromBytes_def GetDirectoryRequest_ParseFromBytesInternal_def GetDirectoryRequest_fields_def field_simps_yunq is_text_eq parse_step_simps)
qed (simp_all add: GetDirectoryRequest_fields_def field_simps_yunq is_text_eq)

definition Directory_fields :: "Directory \<Rightarrow> field list" where
  "Directory_fields m =
     [string_field 0 (str_chars (Directory_filenames m))]"

interpretation Directory_message: yunq_fields Directory_SerializeToBytes "Directory_ParseFromBytes d" "\<lambda>m. 32 + length (str_chars (Directory_filenames m))"
  "\<lambda>m. is_text (Directory_filenames m)" 0 Directory_fields
proof (unfold_locales, goal_cases)
  case (1 m)
  then show ?case
    by (simp add: Directory_SerializeToBytes_def serialize_with_def Directory_SerializeInternal_def SerializeInternal_of_def Directory_fields_def
        field_simps_yunq is_text_eq fun_eq_iff)
next
  case (2 m)
  then show ?case by (simp add: Directory_fields_def) (intro conjI string_field_okI u64_field_okI; simp)
next
  case (5 m)
  then show ?case
    by (simp add: Directory_ParseFromBytes_def Directory_ParseFromBytesInternal_def Directory_fields_def field_simps_yunq is_text_eq parse_step_simps)
qed (simp_all add: Directory_fields_def field_simps_yunq is_text_eq)

end
