(* ===== verification/Yunq_Voyageurs.thy ===== *)
theory Yunq_Voyageurs
  imports Yunq_Message
begin

text \<open>
  The generated message classes of the input service (sys/voyageurs/lib/voyageurs/voyageurs.yunq.h and .cpp).  A class is a
  record of its members; its four generated functions are the definitions with the same names.  The
  overloads with and without capabilities are one definition on an optional capability buffer.
  The only message carries one capability.
\<close>

section \<open>The message classes\<close>

record KeyboardListener =
  KeyboardListener_port_capability :: u64

definition KeyboardListener_SerializeInternal :: "KeyboardListener \<Rightarrow> Serializer \<Rightarrow> (u64 \<times> Serializer) run" where
  "KeyboardListener_SerializeInternal m s =
     run_map (\<lambda>s. (ser_next_extension s, s))
       (steps
         [WriteCapability 0 (KeyboardListener_port_capability m),
          WriteHeader] s)"

definition KeyboardListener_SerializeToBytes :: "KeyboardListener \<Rightarrow> serialize_fn" where
  "KeyboardListener_SerializeToBytes m = serialize_with (KeyboardListener_SerializeInternal m) 1"

definition KeyboardListener_ParseFromBytesInternal :: "KeyboardListener parse_fn" where
  "KeyboardListener_ParseFromBytesInternal message m =
     parse_steps
       [return_error (CheckHeader message)] m"

definition KeyboardListener_ParseFromBytes :: "CapBuffer option \<Rightarrow> KeyboardListener parse_fn" where
  "KeyboardListener_ParseFromBytes caps message m =
     parse_steps
       [KeyboardListener_ParseFromBytesInternal message,
        assign_field (\<lambda>x m. m\<lparr>KeyboardListener_port_capability := x\<rparr>) (ReadCapability 0 caps message)] m"

section \<open>The messages as lists of fields\<close>

definition KeyboardListener_fields :: "KeyboardListener \<Rightarrow> field list" where
  "KeyboardListener_fields m =
     [cap_field 0 (KeyboardListener_port_capability m)]"

interpretation KeyboardListener_message: yunq_fields KeyboardListener_SerializeToBytes "KeyboardListener_ParseFromBytes" "\<lambda>_. 32"
  "\<lambda>_. True" 1 KeyboardListener_fields
proof (unfold_locales, goal_cases)
  case (1 m)
  then show ?case
    by (simp add: KeyboardListener_SerializeToBytes_def serialize_with_def KeyboardListener_SerializeInternal_def SerializeInternal_of_def KeyboardListener_fields_def
        field_simps_yunq fun_eq_iff)
next
  case (2 m)
  then show ?case by (simp add: KeyboardListener_fields_def) (intro conjI cap_field_okI u64_field_okI; simp)
next
  case (5 m)
  then show ?case
    by (simp add: KeyboardListener_ParseFromBytes_def KeyboardListener_ParseFromBytesInternal_def KeyboardListener_fields_def field_simps_yunq parse_step_simps)
qed (simp_all add: KeyboardListener_fields_def field_simps_yunq)

end
