(* ===== verification/Yunq_Yellowstone.thy ===== *)
theory Yunq_Yellowstone
  imports Yunq_Message
begin

text \<open>
  The generated message classes of the service registry service (sys/yellowstone/lib/yellowstone/yellowstone.yunq.h and .cpp).  A class is a
  record of its members; its four generated functions are the definitions with the same names.  The
  overloads with and without capabilities are one definition on an optional capability buffer.
  The parameter \<open>d\<close> fills the bytes that \<open>new\<close> leaves unset in a string.
\<close>

section \<open>The message classes\<close>

record RegisterEndpointRequest =
  RegisterEndpointRequest_endpoint_name :: String
  RegisterEndpointRequest_endpoint_capability :: u64

definition RegisterEndpointRequest_SerializeInternal :: "RegisterEndpointRequest \<Rightarrow> Serializer \<Rightarrow> (u64 \<times> Serializer) run" where
  "RegisterEndpointRequest_SerializeInternal m s =
     run_map (\<lambda>s. (ser_next_extension s, s))
       (steps
         [WriteField_String 0 (RegisterEndpointRequest_endpoint_name m),
          WriteCapability 1 (RegisterEndpointRequest_endpoint_capability m),
          WriteHeader] s)"

definition RegisterEndpointRequest_SerializeToBytes :: "RegisterEndpointRequest \<Rightarrow> serialize_fn" where
  "RegisterEndpointRequest_SerializeToBytes m = serialize_with (RegisterEndpointRequest_SerializeInternal m) 2"

definition RegisterEndpointRequest_ParseFromBytesInternal :: "u8 \<Rightarrow> RegisterEndpointRequest parse_fn" where
  "RegisterEndpointRequest_ParseFromBytesInternal d message m =
     parse_steps
       [return_error (CheckHeader message),
        assign_field (\<lambda>x m. m\<lparr>RegisterEndpointRequest_endpoint_name := x\<rparr>) (ReadField_String d 0 message)] m"

definition RegisterEndpointRequest_ParseFromBytes :: "u8 \<Rightarrow> CapBuffer option \<Rightarrow> RegisterEndpointRequest parse_fn" where
  "RegisterEndpointRequest_ParseFromBytes d caps message m =
     parse_steps
       [RegisterEndpointRequest_ParseFromBytesInternal d message,
        assign_field (\<lambda>x m. m\<lparr>RegisterEndpointRequest_endpoint_capability := x\<rparr>) (ReadCapability 1 caps message)] m"

record GetEndpointRequest =
  GetEndpointRequest_endpoint_name :: String

definition GetEndpointRequest_SerializeInternal :: "GetEndpointRequest \<Rightarrow> Serializer \<Rightarrow> (u64 \<times> Serializer) run" where
  "GetEndpointRequest_SerializeInternal m s =
     run_map (\<lambda>s. (ser_next_extension s, s))
       (steps
         [WriteField_String 0 (GetEndpointRequest_endpoint_name m),
          WriteHeader] s)"

definition GetEndpointRequest_SerializeToBytes :: "GetEndpointRequest \<Rightarrow> serialize_fn" where
  "GetEndpointRequest_SerializeToBytes m = serialize_with (GetEndpointRequest_SerializeInternal m) 1"

definition GetEndpointRequest_ParseFromBytesInternal :: "u8 \<Rightarrow> GetEndpointRequest parse_fn" where
  "GetEndpointRequest_ParseFromBytesInternal d message m =
     parse_steps
       [return_error (CheckHeader message),
        assign_field (\<lambda>x m. m\<lparr>GetEndpointRequest_endpoint_name := x\<rparr>) (ReadField_String d 0 message)] m"

definition GetEndpointRequest_ParseFromBytes :: "u8 \<Rightarrow> CapBuffer option \<Rightarrow> GetEndpointRequest parse_fn" where
  "GetEndpointRequest_ParseFromBytes d caps message m =
     parse_steps
       [GetEndpointRequest_ParseFromBytesInternal d message] m"

record Endpoint =
  Endpoint_endpoint :: u64

definition Endpoint_SerializeInternal :: "Endpoint \<Rightarrow> Serializer \<Rightarrow> (u64 \<times> Serializer) run" where
  "Endpoint_SerializeInternal m s =
     run_map (\<lambda>s. (ser_next_extension s, s))
       (steps
         [WriteCapability 0 (Endpoint_endpoint m),
          WriteHeader] s)"

definition Endpoint_SerializeToBytes :: "Endpoint \<Rightarrow> serialize_fn" where
  "Endpoint_SerializeToBytes m = serialize_with (Endpoint_SerializeInternal m) 1"

definition Endpoint_ParseFromBytesInternal :: "Endpoint parse_fn" where
  "Endpoint_ParseFromBytesInternal message m =
     parse_steps
       [return_error (CheckHeader message)] m"

definition Endpoint_ParseFromBytes :: "CapBuffer option \<Rightarrow> Endpoint parse_fn" where
  "Endpoint_ParseFromBytes caps message m =
     parse_steps
       [Endpoint_ParseFromBytesInternal message,
        assign_field (\<lambda>x m. m\<lparr>Endpoint_endpoint := x\<rparr>) (ReadCapability 0 caps message)] m"

record AhciInfo =
  AhciInfo_ahci_region :: u64
  AhciInfo_region_length :: u64

definition AhciInfo_SerializeInternal :: "AhciInfo \<Rightarrow> Serializer \<Rightarrow> (u64 \<times> Serializer) run" where
  "AhciInfo_SerializeInternal m s =
     run_map (\<lambda>s. (ser_next_extension s, s))
       (steps
         [WriteCapability 0 (AhciInfo_ahci_region m),
          WriteField_u64 1 (AhciInfo_region_length m),
          WriteHeader] s)"

definition AhciInfo_SerializeToBytes :: "AhciInfo \<Rightarrow> serialize_fn" where
  "AhciInfo_SerializeToBytes m = serialize_with (AhciInfo_SerializeInternal m) 2"

definition AhciInfo_ParseFromBytesInternal :: "AhciInfo parse_fn" where
  "AhciInfo_ParseFromBytesInternal message m =
     parse_steps
       [return_error (CheckHeader message),
        assign_field (\<lambda>x m. m\<lparr>AhciInfo_region_length := x\<rparr>) (ReadField_u64 1 message)] m"

definition AhciInfo_ParseFromBytes :: "CapBuffer option \<Rightarrow> AhciInfo parse_fn" where
  "AhciInfo_ParseFromBytes caps message m =
     parse_steps
       [AhciInfo_ParseFromBytesInternal message,
        assign_field (\<lambda>x m. m\<lparr>AhciInfo_ahci_region := x\<rparr>) (ReadCapability 0 caps message)] m"

record XhciInfo =
  XhciInfo_xhci_region :: u64
  XhciInfo_region_length :: u64

definition XhciInfo_SerializeInternal :: "XhciInfo \<Rightarrow> Serializer \<Rightarrow> (u64 \<times> Serializer) run" where
  "XhciInfo_SerializeInternal m s =
     run_map (\<lambda>s. (ser_next_extension s, s))
       (steps
         [WriteCapability 0 (XhciInfo_xhci_region m),
          WriteField_u64 1 (XhciInfo_region_length m),
          WriteHeader] s)"

definition XhciInfo_SerializeToBytes :: "XhciInfo \<Rightarrow> serialize_fn" where
  "XhciInfo_SerializeToBytes m = serialize_with (XhciInfo_SerializeInternal m) 2"

definition XhciInfo_ParseFromBytesInternal :: "XhciInfo parse_fn" where
  "XhciInfo_ParseFromBytesInternal message m =
     parse_steps
       [return_error (CheckHeader message),
        assign_field (\<lambda>x m. m\<lparr>XhciInfo_region_length := x\<rparr>) (ReadField_u64 1 message)] m"

definition XhciInfo_ParseFromBytes :: "CapBuffer option \<Rightarrow> XhciInfo parse_fn" where
  "XhciInfo_ParseFromBytes caps message m =
     parse_steps
       [XhciInfo_ParseFromBytesInternal message,
        assign_field (\<lambda>x m. m\<lparr>XhciInfo_xhci_region := x\<rparr>) (ReadCapability 0 caps message)] m"

record FramebufferInfo =
  FramebufferInfo_address_phys :: u64
  FramebufferInfo_width :: u64
  FramebufferInfo_height :: u64
  FramebufferInfo_pitch :: u64
  FramebufferInfo_bpp :: u64
  FramebufferInfo_memory_model :: u64
  FramebufferInfo_red_mask_size :: u64
  FramebufferInfo_red_mask_shift :: u64
  FramebufferInfo_green_mask_size :: u64
  FramebufferInfo_green_mask_shift :: u64
  FramebufferInfo_blue_mask_size :: u64
  FramebufferInfo_blue_mask_shift :: u64

definition FramebufferInfo_SerializeInternal :: "FramebufferInfo \<Rightarrow> Serializer \<Rightarrow> (u64 \<times> Serializer) run" where
  "FramebufferInfo_SerializeInternal m s =
     run_map (\<lambda>s. (ser_next_extension s, s))
       (steps
         [WriteField_u64 0 (FramebufferInfo_address_phys m),
          WriteField_u64 1 (FramebufferInfo_width m),
          WriteField_u64 2 (FramebufferInfo_height m),
          WriteField_u64 3 (FramebufferInfo_pitch m),
          WriteField_u64 4 (FramebufferInfo_bpp m),
          WriteField_u64 5 (FramebufferInfo_memory_model m),
          WriteField_u64 6 (FramebufferInfo_red_mask_size m),
          WriteField_u64 7 (FramebufferInfo_red_mask_shift m),
          WriteField_u64 8 (FramebufferInfo_green_mask_size m),
          WriteField_u64 9 (FramebufferInfo_green_mask_shift m),
          WriteField_u64 10 (FramebufferInfo_blue_mask_size m),
          WriteField_u64 11 (FramebufferInfo_blue_mask_shift m),
          WriteHeader] s)"

definition FramebufferInfo_SerializeToBytes :: "FramebufferInfo \<Rightarrow> serialize_fn" where
  "FramebufferInfo_SerializeToBytes m = serialize_with (FramebufferInfo_SerializeInternal m) 12"

definition FramebufferInfo_ParseFromBytesInternal :: "FramebufferInfo parse_fn" where
  "FramebufferInfo_ParseFromBytesInternal message m =
     parse_steps
       [return_error (CheckHeader message),
        assign_field (\<lambda>x m. m\<lparr>FramebufferInfo_address_phys := x\<rparr>) (ReadField_u64 0 message),
        assign_field (\<lambda>x m. m\<lparr>FramebufferInfo_width := x\<rparr>) (ReadField_u64 1 message),
        assign_field (\<lambda>x m. m\<lparr>FramebufferInfo_height := x\<rparr>) (ReadField_u64 2 message),
        assign_field (\<lambda>x m. m\<lparr>FramebufferInfo_pitch := x\<rparr>) (ReadField_u64 3 message),
        assign_field (\<lambda>x m. m\<lparr>FramebufferInfo_bpp := x\<rparr>) (ReadField_u64 4 message),
        assign_field (\<lambda>x m. m\<lparr>FramebufferInfo_memory_model := x\<rparr>) (ReadField_u64 5 message),
        assign_field (\<lambda>x m. m\<lparr>FramebufferInfo_red_mask_size := x\<rparr>) (ReadField_u64 6 message),
        assign_field (\<lambda>x m. m\<lparr>FramebufferInfo_red_mask_shift := x\<rparr>) (ReadField_u64 7 message),
        assign_field (\<lambda>x m. m\<lparr>FramebufferInfo_green_mask_size := x\<rparr>) (ReadField_u64 8 message),
        assign_field (\<lambda>x m. m\<lparr>FramebufferInfo_green_mask_shift := x\<rparr>) (ReadField_u64 9 message),
        assign_field (\<lambda>x m. m\<lparr>FramebufferInfo_blue_mask_size := x\<rparr>) (ReadField_u64 10 message),
        assign_field (\<lambda>x m. m\<lparr>FramebufferInfo_blue_mask_shift := x\<rparr>) (ReadField_u64 11 message)] m"

definition FramebufferInfo_ParseFromBytes :: "CapBuffer option \<Rightarrow> FramebufferInfo parse_fn" where
  "FramebufferInfo_ParseFromBytes caps message m =
     parse_steps
       [FramebufferInfo_ParseFromBytesInternal message] m"

record DenaliInfo =
  DenaliInfo_denali_endpoint :: u64
  DenaliInfo_device_id :: u64
  DenaliInfo_lba_offset :: u64

definition DenaliInfo_SerializeInternal :: "DenaliInfo \<Rightarrow> Serializer \<Rightarrow> (u64 \<times> Serializer) run" where
  "DenaliInfo_SerializeInternal m s =
     run_map (\<lambda>s. (ser_next_extension s, s))
       (steps
         [WriteCapability 0 (DenaliInfo_denali_endpoint m),
          WriteField_u64 1 (DenaliInfo_device_id m),
          WriteField_u64 2 (DenaliInfo_lba_offset m),
          WriteHeader] s)"

definition DenaliInfo_SerializeToBytes :: "DenaliInfo \<Rightarrow> serialize_fn" where
  "DenaliInfo_SerializeToBytes m = serialize_with (DenaliInfo_SerializeInternal m) 3"

definition DenaliInfo_ParseFromBytesInternal :: "DenaliInfo parse_fn" where
  "DenaliInfo_ParseFromBytesInternal message m =
     parse_steps
       [return_error (CheckHeader message),
        assign_field (\<lambda>x m. m\<lparr>DenaliInfo_device_id := x\<rparr>) (ReadField_u64 1 message),
        assign_field (\<lambda>x m. m\<lparr>DenaliInfo_lba_offset := x\<rparr>) (ReadField_u64 2 message)] m"

definition DenaliInfo_ParseFromBytes :: "CapBuffer option \<Rightarrow> DenaliInfo parse_fn" where
  "DenaliInfo_ParseFromBytes caps message m =
     parse_steps
       [DenaliInfo_ParseFromBytesInternal message,
        assign_field (\<lambda>x m. m\<lparr>DenaliInfo_denali_endpoint := x\<rparr>) (ReadCapability 0 caps message)] m"

section \<open>The messages as lists of fields\<close>

definition RegisterEndpointRequest_fields :: "RegisterEndpointRequest \<Rightarrow> field list" where
  "RegisterEndpointRequest_fields m =
     [string_field 0 (str_chars (RegisterEndpointRequest_endpoint_name m)),
      cap_field 1 (RegisterEndpointRequest_endpoint_capability m)]"

interpretation RegisterEndpointRequest_message: yunq_fields RegisterEndpointRequest_SerializeToBytes "RegisterEndpointRequest_ParseFromBytes d" "\<lambda>m. 40 + length (str_chars (RegisterEndpointRequest_endpoint_name m))"
  "\<lambda>m. is_text (RegisterEndpointRequest_endpoint_name m)" 1 RegisterEndpointRequest_fields
proof (unfold_locales, goal_cases)
  case (1 m)
  then show ?case
    by (simp add: RegisterEndpointRequest_SerializeToBytes_def serialize_with_def RegisterEndpointRequest_SerializeInternal_def SerializeInternal_of_def RegisterEndpointRequest_fields_def
        field_simps_yunq is_text_eq fun_eq_iff)
next
  case (2 m)
  then show ?case by (simp add: RegisterEndpointRequest_fields_def) (intro conjI cap_field_okI string_field_okI u64_field_okI; simp)
next
  case (5 m)
  then show ?case
    by (simp add: RegisterEndpointRequest_ParseFromBytes_def RegisterEndpointRequest_ParseFromBytesInternal_def RegisterEndpointRequest_fields_def field_simps_yunq is_text_eq parse_step_simps)
qed (simp_all add: RegisterEndpointRequest_fields_def field_simps_yunq is_text_eq)

definition GetEndpointRequest_fields :: "GetEndpointRequest \<Rightarrow> field list" where
  "GetEndpointRequest_fields m =
     [string_field 0 (str_chars (GetEndpointRequest_endpoint_name m))]"

interpretation GetEndpointRequest_message: yunq_fields GetEndpointRequest_SerializeToBytes "GetEndpointRequest_ParseFromBytes d" "\<lambda>m. 32 + length (str_chars (GetEndpointRequest_endpoint_name m))"
  "\<lambda>m. is_text (GetEndpointRequest_endpoint_name m)" 0 GetEndpointRequest_fields
proof (unfold_locales, goal_cases)
  case (1 m)
  then show ?case
    by (simp add: GetEndpointRequest_SerializeToBytes_def serialize_with_def GetEndpointRequest_SerializeInternal_def SerializeInternal_of_def GetEndpointRequest_fields_def
        field_simps_yunq is_text_eq fun_eq_iff)
next
  case (2 m)
  then show ?case by (simp add: GetEndpointRequest_fields_def) (intro conjI string_field_okI u64_field_okI; simp)
next
  case (5 m)
  then show ?case
    by (simp add: GetEndpointRequest_ParseFromBytes_def GetEndpointRequest_ParseFromBytesInternal_def GetEndpointRequest_fields_def field_simps_yunq is_text_eq parse_step_simps)
qed (simp_all add: GetEndpointRequest_fields_def field_simps_yunq is_text_eq)

definition Endpoint_fields :: "Endpoint \<Rightarrow> field list" where
  "Endpoint_fields m =
     [cap_field 0 (Endpoint_endpoint m)]"

interpretation Endpoint_message: yunq_fields Endpoint_SerializeToBytes "Endpoint_ParseFromBytes" "\<lambda>_. 32"
  "\<lambda>_. True" 1 Endpoint_fields
proof (unfold_locales, goal_cases)
  case (1 m)
  then show ?case
    by (simp add: Endpoint_SerializeToBytes_def serialize_with_def Endpoint_SerializeInternal_def SerializeInternal_of_def Endpoint_fields_def
        field_simps_yunq fun_eq_iff)
next
  case (2 m)
  then show ?case by (simp add: Endpoint_fields_def) (intro conjI cap_field_okI u64_field_okI; simp)
next
  case (5 m)
  then show ?case
    by (simp add: Endpoint_ParseFromBytes_def Endpoint_ParseFromBytesInternal_def Endpoint_fields_def field_simps_yunq parse_step_simps)
qed (simp_all add: Endpoint_fields_def field_simps_yunq)

definition AhciInfo_fields :: "AhciInfo \<Rightarrow> field list" where
  "AhciInfo_fields m =
     [cap_field 0 (AhciInfo_ahci_region m),
      u64_field 1 (AhciInfo_region_length m)]"

interpretation AhciInfo_message: yunq_fields AhciInfo_SerializeToBytes "AhciInfo_ParseFromBytes" "\<lambda>_. 40"
  "\<lambda>_. True" 1 AhciInfo_fields
proof (unfold_locales, goal_cases)
  case (1 m)
  then show ?case
    by (simp add: AhciInfo_SerializeToBytes_def serialize_with_def AhciInfo_SerializeInternal_def SerializeInternal_of_def AhciInfo_fields_def
        field_simps_yunq fun_eq_iff)
next
  case (2 m)
  then show ?case by (simp add: AhciInfo_fields_def) (intro conjI cap_field_okI u64_field_okI; simp)
next
  case (5 m)
  then show ?case
    by (simp add: AhciInfo_ParseFromBytes_def AhciInfo_ParseFromBytesInternal_def AhciInfo_fields_def field_simps_yunq parse_step_simps)
qed (simp_all add: AhciInfo_fields_def field_simps_yunq)

definition XhciInfo_fields :: "XhciInfo \<Rightarrow> field list" where
  "XhciInfo_fields m =
     [cap_field 0 (XhciInfo_xhci_region m),
      u64_field 1 (XhciInfo_region_length m)]"

interpretation XhciInfo_message: yunq_fields XhciInfo_SerializeToBytes "XhciInfo_ParseFromBytes" "\<lambda>_. 40"
  "\<lambda>_. True" 1 XhciInfo_fields
proof (unfold_locales, goal_cases)
  case (1 m)
  then show ?case
    by (simp add: XhciInfo_SerializeToBytes_def serialize_with_def XhciInfo_SerializeInternal_def SerializeInternal_of_def XhciInfo_fields_def
        field_simps_yunq fun_eq_iff)
next
  case (2 m)
  then show ?case by (simp add: XhciInfo_fields_def) (intro conjI cap_field_okI u64_field_okI; simp)
next
  case (5 m)
  then show ?case
    by (simp add: XhciInfo_ParseFromBytes_def XhciInfo_ParseFromBytesInternal_def XhciInfo_fields_def field_simps_yunq parse_step_simps)
qed (simp_all add: XhciInfo_fields_def field_simps_yunq)

definition FramebufferInfo_fields :: "FramebufferInfo \<Rightarrow> field list" where
  "FramebufferInfo_fields m =
     [u64_field 0 (FramebufferInfo_address_phys m),
      u64_field 1 (FramebufferInfo_width m),
      u64_field 2 (FramebufferInfo_height m),
      u64_field 3 (FramebufferInfo_pitch m),
      u64_field 4 (FramebufferInfo_bpp m),
      u64_field 5 (FramebufferInfo_memory_model m),
      u64_field 6 (FramebufferInfo_red_mask_size m),
      u64_field 7 (FramebufferInfo_red_mask_shift m),
      u64_field 8 (FramebufferInfo_green_mask_size m),
      u64_field 9 (FramebufferInfo_green_mask_shift m),
      u64_field 10 (FramebufferInfo_blue_mask_size m),
      u64_field 11 (FramebufferInfo_blue_mask_shift m)]"

interpretation FramebufferInfo_message: yunq_fields FramebufferInfo_SerializeToBytes "FramebufferInfo_ParseFromBytes" "\<lambda>_. 120"
  "\<lambda>_. True" 0 FramebufferInfo_fields
proof (unfold_locales, goal_cases)
  case (1 m)
  then show ?case
    by (simp add: FramebufferInfo_SerializeToBytes_def serialize_with_def FramebufferInfo_SerializeInternal_def SerializeInternal_of_def FramebufferInfo_fields_def
        field_simps_yunq fun_eq_iff)
next
  case (2 m)
  then show ?case by (simp add: FramebufferInfo_fields_def) (intro conjI u64_field_okI; simp)
next
  case (5 m)
  then show ?case
    by (simp add: FramebufferInfo_ParseFromBytes_def FramebufferInfo_ParseFromBytesInternal_def FramebufferInfo_fields_def field_simps_yunq parse_step_simps)
qed (simp_all add: FramebufferInfo_fields_def field_simps_yunq)

definition DenaliInfo_fields :: "DenaliInfo \<Rightarrow> field list" where
  "DenaliInfo_fields m =
     [cap_field 0 (DenaliInfo_denali_endpoint m),
      u64_field 1 (DenaliInfo_device_id m),
      u64_field 2 (DenaliInfo_lba_offset m)]"

interpretation DenaliInfo_message: yunq_fields DenaliInfo_SerializeToBytes "DenaliInfo_ParseFromBytes" "\<lambda>_. 48"
  "\<lambda>_. True" 1 DenaliInfo_fields
proof (unfold_locales, goal_cases)
  case (1 m)
  then show ?case
    by (simp add: DenaliInfo_SerializeToBytes_def serialize_with_def DenaliInfo_SerializeInternal_def SerializeInternal_of_def DenaliInfo_fields_def
        field_simps_yunq fun_eq_iff)
next
  case (2 m)
  then show ?case by (simp add: DenaliInfo_fields_def) (intro conjI cap_field_okI u64_field_okI; simp)
next
  case (5 m)
  then show ?case
    by (simp add: DenaliInfo_ParseFromBytes_def DenaliInfo_ParseFromBytesInternal_def DenaliInfo_fields_def field_simps_yunq parse_step_simps)
qed (simp_all add: DenaliInfo_fields_def field_simps_yunq)
section \<open>Registering an endpoint\<close>

text \<open>
  The message that registers an endpoint, with a name and a capability, goes through the wire
  format unchanged: the generated serialiser writes \<open>40\<close> bytes and the name at the offset and takes
  one slot of the capability buffer, nothing else of the buffers changes, and the generated parser,
  run with any buffers that hold these bytes and this slot, gives the message back with status ok.
  Without a capability buffer the capability travels in the bytes.
\<close>

theorem RegisterEndpointRequest_roundtrip:
  assumes "is_text (RegisterEndpointRequest_endpoint_name m)"
    and "n = length (str_chars (RegisterEndpointRequest_endpoint_name m))"
    and "unat off + (40 + n) \<le> length b" and "length b < 0x100000000" and "caps_room 1 c"
  shows "\<exists>b' c'. RegisterEndpointRequest_SerializeToBytes m b off c = Inr (of_nat (40 + n), b', c') \<and>
    same_outside (unat off) (unat off + (40 + n)) b b' \<and> caps_frame 0 1 c c' \<and>
    (\<forall>b'' c'' m0. agree (unat off) (unat off + (40 + n)) b' b'' \<longrightarrow> caps_match 1 1 c' c'' \<longrightarrow>
       RegisterEndpointRequest_ParseFromBytes d c'' \<lparr>mv_buffer = b'', mv_offset = off\<rparr> m0 = Inr (Status_Ok, m))"
  using RegisterEndpointRequest_message.serialize_ok [OF assms(1) assms(3) [unfolded assms(2)] assms(4,5), of d]
  unfolding assms(2) by blast

definition denali_registration :: RegisterEndpointRequest where
  "denali_registration = \<lparr>RegisterEndpointRequest_endpoint_name = text_of (map ch ''denali''), RegisterEndpointRequest_endpoint_capability = 9\<rparr>"

theorem RegisterEndpointRequest_roundtrip_witness:
  "\<exists>b' c'. RegisterEndpointRequest_SerializeToBytes denali_registration (replicate 64 0) 16 (Some \<lparr>cb_buffer = [0, 0], cb_used_slots = 0\<rparr>) = Inr (46, b', c') \<and>
    RegisterEndpointRequest_ParseFromBytes 1 c' \<lparr>mv_buffer = b', mv_offset = 16\<rparr>
      \<lparr>RegisterEndpointRequest_endpoint_name = String_new, RegisterEndpointRequest_endpoint_capability = 0\<rparr> = Inr (Status_Ok, denali_registration)"
proof -
  let ?c = "Some \<lparr>cb_buffer = [0, 0], cb_used_slots = 0\<rparr>"
  have t: "str_chars (RegisterEndpointRequest_endpoint_name denali_registration) = map ch ''denali''"
    by (simp add: denali_registration_def text_of_ok ch_def)
  obtain b' c' where w: "RegisterEndpointRequest_SerializeToBytes denali_registration (replicate 64 0) 16 ?c = Inr (46, b', c')"
      "same_outside 16 62 (replicate 64 0) b'" "caps_frame 0 1 ?c c'"
      and r: "\<And>b'' c'' m0. agree 16 62 b' b'' \<Longrightarrow> caps_match 1 1 c' c'' \<Longrightarrow>
        RegisterEndpointRequest_ParseFromBytes 1 c'' \<lparr>mv_buffer = b'', mv_offset = 16\<rparr> m0 = Inr (Status_Ok, denali_registration)"
    using RegisterEndpointRequest_roundtrip [of denali_registration 6 16 "replicate 64 0" ?c 1] t
    by (fastforce simp: denali_registration_def is_text_def text_of_ok caps_room_def ch_def)
  have "agree 16 62 b' b'" "caps_match 1 1 c' c'" using w(2,3) by (auto simp: same_outside_def agree_def caps_match_def caps_frame_def)
  then show ?thesis using w(1) r by blast
qed

end
