(* ===== verification/Ext2_Driver.thy ===== *)
theory Ext2_Driver
  imports Glcr_Status Glcr_HashMap "HOL-Library.Sublist"
begin

text \<open>
  The ext2 file system of Victoria Falls (\<open>sys/victoriafalls/fs/ext2\<close>): the reader that translates
  blocks to sectors, the table of inodes, and the driver that reads files and directories.

  The service that reads the sectors answers remote procedure calls; its client is the parameter \<open>Denali\<close>
  of the model.  A memory region is the bytes that are mapped, whole pages, with what was read at their
  start; a region that was default constructed is \<open>None\<close>.  Its duplicates share these bytes, which the driver
  never writes; the model takes them as values, so it says nothing of a client that writes to a file it was handed.  The structures of the disk
  are records of the fields that the code reads.  The vectors of the code are lists here.  Where the
  exponent of the block size makes a shift undefined nothing is claimed.
\<close>

section \<open>Structures on the disk\<close>

type_synonym Region = "u8 list"

definition le :: "nat \<Rightarrow> nat \<Rightarrow> Region \<Rightarrow> u64" where
  "le n off r = of_le (take n (drop off r))"

record Superblock =
  sb_blocks_count :: u32
  sb_log_block_size :: u32
  sb_blocks_per_group :: u32
  sb_inodes_per_group :: u32
  sb_magic :: u16
  sb_rev_level :: u32
  sb_inode_size :: u16

definition Superblock_at :: "Region \<Rightarrow> Superblock run" where
  "Superblock_at r =
     (if 90 \<le> length r
      then Inr \<lparr>sb_blocks_count = ucast (le 4 4 r), sb_log_block_size = ucast (le 4 24 r), sb_blocks_per_group = ucast (le 4 32 r),
                sb_inodes_per_group = ucast (le 4 40 r), sb_magic = ucast (le 2 56 r), sb_rev_level = ucast (le 4 76 r), sb_inode_size = ucast (le 2 88 r)\<rparr>
      else Inl OutOfBounds)"

text \<open>The field \<open>inode_table\<close> of the block group descriptor with the given number; a descriptor has 32 bytes.\<close>

definition bgd_inode_table :: "nat \<Rightarrow> Region \<Rightarrow> u32 run" where
  "bgd_inode_table i r = (if 32 * i + 32 \<le> length r then Inr (ucast (le 4 (32 * i + 8) r)) else Inl OutOfBounds)"

record Inode =
  in_mode :: u16
  in_size :: u32
  in_blocks :: u32
  in_block :: "u32 list"

definition Inode_at :: "nat \<Rightarrow> Region \<Rightarrow> Inode run" where
  "Inode_at off r =
     (if off + 128 \<le> length r
      then Inr \<lparr>in_mode = ucast (le 2 off r), in_size = ucast (le 4 (off + 4) r), in_blocks = ucast (le 4 (off + 28) r),
                in_block = map (\<lambda>i. ucast (le 4 (off + 40 + 4 * i) r)) [0..<15]\<rparr>
      else Inl OutOfBounds)"

record DirEntry =
  de_inode :: u32
  de_record_length :: u16
  de_name_len :: u8
  de_file_type :: u8
  de_name :: "u8 list"

definition DirEntry_at :: "nat \<Rightarrow> Region \<Rightarrow> DirEntry run" where
  "DirEntry_at off r =
     (if off + 264 \<le> length r
      then Inr \<lparr>de_inode = ucast (le 4 off r), de_record_length = ucast (le 2 (off + 4) r), de_name_len = ucast (le 1 (off + 6) r),
                de_file_type = ucast (le 1 (off + 7) r), de_name = take 256 (drop (off + 8) r)\<rparr>
      else Inl OutOfBounds)"

section \<open>The block reader\<close>

text \<open>The calls of the client: sectors from one address on, or from a list of addresses with their numbers of sectors.\<close>

record Denali =
  dn_read :: "u64 \<Rightarrow> u64 \<Rightarrow> u64 \<Rightarrow> Region ErrorOr"
  dn_read_many :: "u64 \<Rightarrow> (u64 \<times> u64) list \<Rightarrow> Region ErrorOr"

record Ext2BlockReader =
  br_denali :: Denali
  br_device_id :: u64
  br_lba_offset :: u64
  br_super :: Superblock

definition SectorsPerBlock :: "Ext2BlockReader \<Rightarrow> u64" where
  "SectorsPerBlock rd = scast (push_bit (unat (sb_log_block_size (br_super rd) + 1)) (1 :: u32))"

definition BlockSize :: "Ext2BlockReader \<Rightarrow> u64" where
  "BlockSize rd = scast (push_bit (unat (sb_log_block_size (br_super rd))) (1024 :: u32))"

definition div_run :: "u64 \<Rightarrow> u64 \<Rightarrow> u64 run" where
  "div_run a b = (if b = 0 then Inl DivByZero else Inr (a div b))"

definition NumberOfBlockGroups :: "Ext2BlockReader \<Rightarrow> u64 run" where
  "NumberOfBlockGroups rd =
     (let sb = br_super rd
      in if sb_blocks_per_group sb = 0 then Inl DivByZero
         else Inr (ucast ((sb_blocks_count sb - 1) div sb_blocks_per_group sb + 1)))"

definition BgdtBlockNum :: "Ext2BlockReader \<Rightarrow> u64" where
  "BgdtBlockNum rd = (if BlockSize rd = 1024 then 2 else 1)"

definition BgdtBlockSize :: "Ext2BlockReader \<Rightarrow> u64 run" where
  "BgdtBlockSize rd =
     run_bind (NumberOfBlockGroups rd) (\<lambda>n. run_map (\<lambda>q. q + 1) (div_run (n * 32 - 1) (BlockSize rd)))"

definition InodeSize :: "Ext2BlockReader \<Rightarrow> u64" where
  "InodeSize rd = (if sb_rev_level (br_super rd) \<ge> 1 then ucast (sb_inode_size (br_super rd)) else 0x80)"

definition InodeTableBlockSize :: "Ext2BlockReader \<Rightarrow> u64 run" where
  "InodeTableBlockSize rd = div_run (InodeSize rd * ucast (sb_inodes_per_group (br_super rd))) (BlockSize rd)"

definition ReadBlocks :: "u64 \<Rightarrow> u64 \<Rightarrow> Ext2BlockReader \<Rightarrow> Region ErrorOr" where
  "ReadBlocks block_number num_blocks rd =
     dn_read (br_denali rd) (br_device_id rd) (br_lba_offset rd + block_number * SectorsPerBlock rd) (num_blocks * SectorsPerBlock rd)"

definition ReadBlock :: "u64 \<Rightarrow> Ext2BlockReader \<Rightarrow> Region ErrorOr" where
  "ReadBlock block_number rd = ReadBlocks block_number 1 rd"

text \<open>A list of blocks: each run of consecutive blocks is one request.\<close>

fun take_run :: "u64 \<Rightarrow> u64 \<Rightarrow> u64 list \<Rightarrow> u64 \<times> u64 list" where
  "take_run b curr_run_len [] = (curr_run_len, [])"
| "take_run b curr_run_len (c # cs) = (if c = b + 1 then take_run c (curr_run_len + 1) cs else (curr_run_len, c # cs))"

lemma take_run_length: "take_run b n cs = (len, rest) \<Longrightarrow> length rest \<le> length cs"
  by (induction cs arbitrary: b n) (force split: if_splits)+

function merge_runs :: "Ext2BlockReader \<Rightarrow> u64 list \<Rightarrow> (u64 \<times> u64) list" where
  "merge_runs rd [] = []"
| "merge_runs rd (b # bs) =
     (let (curr_run_len, rest) = take_run b 1 bs
      in (br_lba_offset rd + b * SectorsPerBlock rd, curr_run_len * SectorsPerBlock rd) # merge_runs rd rest)"
  by pat_completeness auto

termination
  by (relation "measure (length \<circ> snd)") (auto dest: take_run_length [OF sym])

definition ReadBlocks_list :: "u64 list \<Rightarrow> Ext2BlockReader \<Rightarrow> Region ErrorOr" where
  "ReadBlocks_list block_list rd = dn_read_many (br_denali rd) (br_device_id rd) (merge_runs rd block_list)"

definition Ext2BlockReader_Init :: "Denali \<Rightarrow> u64 \<Rightarrow> u64 \<Rightarrow> Ext2BlockReader ErrorOr run" where
  "Ext2BlockReader_Init dn device_id lba_offset =
     (case dn_read dn device_id (lba_offset + 2) 2 of
        Inl e \<Rightarrow> Inr (Inl e)
      | Inr r \<Rightarrow> run_map (\<lambda>sb. Inr \<lparr>br_denali = dn, br_device_id = device_id, br_lba_offset = lba_offset, br_super = sb\<rparr>) (Superblock_at r))"

section \<open>The table of inodes\<close>

record Ext2Driver =
  dr_reader :: Ext2BlockReader
  dr_bgdt :: Region
  dr_inode_tables :: "Region option list"
  dr_inode_cache :: "(u64, Region) HashMap"

definition GetRootOfInodeTable :: "u64 \<Rightarrow> Ext2Driver \<Rightarrow> (Region ErrorOr \<times> Ext2Driver) run" where
  "GetRootOfInodeTable block_group_num dr =
     run_bind (NumberOfBlockGroups (dr_reader dr)) (\<lambda>n.
     if block_group_num > n then Inr (Inl INVALID_ARGUMENT, dr)
     else if length (dr_inode_tables dr) \<le> unat block_group_num then Inl OutOfBounds
     else case dr_inode_tables dr ! unat block_group_num of
            Some r \<Rightarrow> Inr (Inr r, dr)
          | None \<Rightarrow>
              run_bind (bgd_inode_table (unat block_group_num) (dr_bgdt dr)) (\<lambda>b.
              run_map (\<lambda>k. case ReadBlocks (ucast b) k (dr_reader dr) of
                             Inl e \<Rightarrow> (Inl e, dr)
                           | Inr r \<Rightarrow> (Inr r, dr\<lparr>dr_inode_tables := (dr_inode_tables dr)[unat block_group_num := Some r]\<rparr>))
                (InodeTableBlockSize (dr_reader dr))))"

definition GetInode :: "u32 \<Rightarrow> Ext2Driver \<Rightarrow> (Inode ErrorOr \<times> Ext2Driver) run" where
  "GetInode inode_num dr =
     (let inodes_per_group = ucast (sb_inodes_per_group (br_super (dr_reader dr))); i = ucast (inode_num - 1)
      in if inodes_per_group = 0 then Inl DivByZero
         else run_bind (GetRootOfInodeTable (i div inodes_per_group) dr) (\<lambda>(root, dr).
              case root of
                Inl e \<Rightarrow> Inr (Inl e, dr)
              | Inr r \<Rightarrow> run_map (\<lambda>ino. (Inr ino, dr)) (Inode_at (unat (i mod inodes_per_group * InodeSize (dr_reader dr))) r)))"

section \<open>The driver\<close>

definition Ext2Driver_Init :: "Denali \<Rightarrow> u64 \<Rightarrow> u64 \<Rightarrow> Ext2Driver ErrorOr run" where
  "Ext2Driver_Init dn device_id lba_offset =
     run_bind (Ext2BlockReader_Init dn device_id lba_offset) (\<lambda>r.
     case r of
       Inl e \<Rightarrow> Inr (Inl e)
     | Inr rd \<Rightarrow>
         run_bind (BgdtBlockSize rd) (\<lambda>k.
         case ReadBlocks (BgdtBlockNum rd) k rd of
           Inl e \<Rightarrow> Inr (Inl e)
         | Inr bgdt \<Rightarrow>
             run_map (\<lambda>n. Inr \<lparr>dr_reader = rd, dr_bgdt = bgdt, dr_inode_tables = replicate (unat n) None, dr_inode_cache = HashMap_new\<rparr>)
               (NumberOfBlockGroups rd)))"

definition ProbePartition :: "Ext2Driver \<Rightarrow> ErrorCode" where
  "ProbePartition dr = (if sb_magic (br_super (dr_reader dr)) \<noteq> 0xEF53 then INVALID_ARGUMENT else OK)"

text \<open>The blocks of a file.  A region that was not read is at the null address.\<close>

definition block_entry :: "Region option \<Rightarrow> nat \<Rightarrow> u64 run" where
  "block_entry r i =
     (case r of None \<Rightarrow> Inl NullDeref
      | Some r \<Rightarrow> if 4 * i + 4 \<le> length r then Inr (le 4 (4 * i) r) else Inl OutOfBounds)"

fun indirect_loop :: "Region option \<Rightarrow> nat list \<Rightarrow> u64 list \<Rightarrow> u64 list run" where
  "indirect_loop r [] bs = Inr bs"
| "indirect_loop r (i # is) bs = run_bind (block_entry r i) (\<lambda>b. indirect_loop r is (bs @ [b]))"

fun inner_loop :: "Region \<Rightarrow> nat \<Rightarrow> nat \<Rightarrow> nat list \<Rightarrow> u64 list \<Rightarrow> u64 list run" where
  "inner_loop r block cnt [] bs = Inr bs"
| "inner_loop r block cnt (j # js) bs =
     (if block + j \<ge> cnt then Inr bs
      else run_bind (block_entry (Some r) j) (\<lambda>b. inner_loop r block cnt js (if b \<noteq> 0 then bs @ [b] else bs)))"

fun double_loop :: "Ext2BlockReader \<Rightarrow> Region option \<Rightarrow> nat \<Rightarrow> nat list \<Rightarrow> u64 list \<Rightarrow> u64 list ErrorOr run" where
  "double_loop rd r cnt [] bs = Inr (Inr bs)"
| "double_loop rd r cnt (i # is) bs =
     (let block = 268 + 256 * i
      in if block \<ge> cnt then Inr (Inr bs)
         else run_bind (block_entry r i) (\<lambda>b.
              case ReadBlock b rd of
                Inl e \<Rightarrow> Inr (Inl e)
              | Inr r1 \<Rightarrow> run_bind (inner_loop r1 block cnt [0..<256] bs) (double_loop rd r cnt is)))"

definition read_if :: "u32 \<Rightarrow> Ext2BlockReader \<Rightarrow> Region option ErrorOr" where
  "read_if b rd = (if b = 0 then Inr None else assign_or_return (ReadBlock (ucast b) rd) (\<lambda>r. Inr (Some r)))"

definition inode_blocks :: "Inode \<Rightarrow> u64 \<Rightarrow> Ext2BlockReader \<Rightarrow> u64 list ErrorOr run" where
  "inode_blocks inode real_block_cnt rd =
     (case read_if (in_block inode ! 13) rd of
        Inl e \<Rightarrow> Inr (Inl e)
      | Inr double_indirect_block \<Rightarrow>
          (case read_if (in_block inode ! 12) rd of
             Inl e \<Rightarrow> Inr (Inl e)
           | Inr indirect_block \<Rightarrow>
               let cnt = unat real_block_cnt; direct = map (\<lambda>i. ucast (in_block inode ! i)) [0..<min 12 cnt]
               in run_bind (indirect_loop indirect_block (map (\<lambda>i. i - 12) [12..<min 268 cnt]) direct) (\<lambda>bs.
                  double_loop rd double_indirect_block cnt [0..<256] bs)))"

definition ReadInode :: "u64 \<Rightarrow> Inode \<Rightarrow> Ext2Driver \<Rightarrow> (Region ErrorOr \<times> Ext2Driver) run" where
  "ReadInode inode_num inode dr =
     run_bind (HashMap_Contains Hash_u64 inode_num (dr_inode_cache dr)) (\<lambda>cached.
     if cached then run_map (\<lambda>(r, m). (Inr r, dr\<lparr>dr_inode_cache := m\<rparr>)) (HashMap_at Hash_u64 [] inode_num (dr_inode_cache dr))
     else let rd = dr_reader dr
          in if BlockSize rd div 512 = 0 then Inl DivByZero
             else let real_block_cnt = ucast (in_blocks inode - 1) div (BlockSize rd div 512) + 1
                  in if in_block inode ! 14 \<noteq> 0 then Inr (Inl UNIMPLEMENTED, dr)
                     else run_bind (inode_blocks inode real_block_cnt rd) (\<lambda>blocks.
                          case blocks of
                            Inl e \<Rightarrow> Inr (Inl e, dr)
                          | Inr blocks_to_read \<Rightarrow>
                              (case ReadBlocks_list blocks_to_read rd of
                                 Inl e \<Rightarrow> Inr (Inl e, dr)
                               | Inr inode_mem \<Rightarrow>
                                   run_map (\<lambda>(e, m). (if e \<noteq> OK then Inl e else Inr inode_mem, dr\<lparr>dr_inode_cache := m\<rparr>))
                                     (HashMap_Insert Hash_u64 inode_num inode_mem (dr_inode_cache dr)))))"

definition ReadFile :: "u64 \<Rightarrow> Ext2Driver \<Rightarrow> (Region ErrorOr \<times> Ext2Driver) run" where
  "ReadFile inode_number dr =
     run_bind (GetInode (ucast inode_number) dr) (\<lambda>(ino, dr).
     case ino of
       Inl e \<Rightarrow> Inr (Inl e, dr)
     | Inr inode \<Rightarrow> if in_mode inode AND 0x8000 = 0 then Inr (Inl INVALID_ARGUMENT, dr) else ReadInode inode_number inode dr)"

text \<open>The entries of a directory, up to the end of its first block.\<close>

partial_function (option) dir_loop :: "u64 \<Rightarrow> Region \<Rightarrow> nat \<Rightarrow> DirEntry list \<Rightarrow> DirEntry list run option" where
  "dir_loop limit r addr directory =
     (if addr < unat limit
      then (case DirEntry_at addr r of
              Inl f \<Rightarrow> Some (Inl f)
            | Inr entry \<Rightarrow> dir_loop limit r (addr + unat (de_record_length entry)) (directory @ [entry]))
      else Some (Inr directory))"

definition ReadDirectory :: "u32 \<Rightarrow> Ext2Driver \<Rightarrow> (DirEntry list ErrorOr \<times> Ext2Driver) run option" where
  "ReadDirectory inode_number dr =
     opt_run_bind (Some (GetInode inode_number dr)) (\<lambda>(ino, dr).
     case ino of
       Inl e \<Rightarrow> Some (Inr (Inl e, dr))
     | Inr inode \<Rightarrow>
         if in_mode inode AND 0x4000 = 0 then Some (Inr (Inl INVALID_ARGUMENT, dr))
         else opt_run_bind (Some (ReadInode (ucast inode_number) inode dr)) (\<lambda>(dir, dr).
              case dir of
                Inl e \<Rightarrow> Some (Inr (Inl e, dr))
              | Inr r \<Rightarrow> map_option (run_map (\<lambda>es. (Inr es, dr))) (dir_loop (BlockSize (dr_reader dr)) r 0 [])))"

section \<open>What the disk holds\<close>

text \<open>
  The sectors of a request, what the client is relied on for (an answer starts with the contents of
  the sectors asked for, in their order, and fills whole pages; requests may be refused), and the block with a given number.
\<close>

definition sectors_of :: "u64 \<times> u64 \<Rightarrow> u64 list" where
  "sectors_of = (\<lambda>(lba, n). map (\<lambda>i. lba + of_nat i) [0..<unat n])"

definition faithful :: "(u64 \<Rightarrow> u8 list) \<Rightarrow> Denali \<Rightarrow> u64 \<Rightarrow> bool" where
  "faithful sec dn dev \<longleftrightarrow>
     (\<forall>lba. length (sec lba) = 512) \<and>
     (\<forall>lba n r. dn_read dn dev lba n = Inr r \<longrightarrow> prefix (concat (map sec (sectors_of (lba, n)))) r) \<and>
     (\<forall>bs r. dn_read_many dn dev bs = Inr r \<longrightarrow>
        prefix (concat (map sec (concat (map sectors_of bs)))) r \<and> 4096 dvd length r)"

definition refuses :: "Ext2BlockReader \<Rightarrow> ErrorCode \<Rightarrow> bool" where
  "refuses rd e \<longleftrightarrow>
     (\<exists>lba n. dn_read (br_denali rd) (br_device_id rd) lba n = Inl e) \<or>
     (\<exists>bs. dn_read_many (br_denali rd) (br_device_id rd) bs = Inl e)"

definition disk_block :: "Ext2BlockReader \<Rightarrow> (u64 \<Rightarrow> u8 list) \<Rightarrow> u64 \<Rightarrow> u8 list" where
  "disk_block rd sec b = concat (map sec (sectors_of (br_lba_offset rd + b * SectorsPerBlock rd, SectorsPerBlock rd)))"

lemma sectors_of_append:
  assumes "unat n + unat m < 2 ^ 64"
  shows "sectors_of (a, n + m) = sectors_of (a, n) @ sectors_of (a + n, m)"
proof -
  have "unat (n + m) = unat n + unat m"
    using assms by (simp add: unat_word_ariths)
  then have "sectors_of (a, n + m) = sectors_of (a, n) @ map (\<lambda>i. a + of_nat i) [unat n..<unat n + unat m]"
    by (simp add: sectors_of_def upt_add_eq_append [of 0 "unat n" "unat m", simplified])
  also have "map (\<lambda>i. a + of_nat i) [unat n..<unat n + unat m] = sectors_of (a + n, m)"
    by (rule nth_equalityI) (simp_all add: sectors_of_def)
  finally show ?thesis .
qed

lemma sectors_of_run:
  assumes "k * unat s < 2 ^ 64"
  shows "sectors_of (a + b * s, of_nat k * s) = concat (map (\<lambda>i. sectors_of (a + (b + of_nat i) * s, s)) [0..<k])"
  using assms
proof (induction k)
  case 0
  show ?case by (simp add: sectors_of_def)
next
  case (Suc k)
  have u: "unat (of_nat k * s) \<le> k * unat s"
  proof -
    have "of_nat k * s = of_nat (k * unat s)" by simp
    then show ?thesis by (simp only: unat_of_nat mod_less_eq_dividend)
  qed
  have "sectors_of (a + b * s, of_nat k * s + s) = sectors_of (a + b * s, of_nat k * s) @ sectors_of (a + b * s + of_nat k * s, s)"
    using u Suc.prems by (intro sectors_of_append) simp
  with Suc show ?case
    by (simp add: algebra_simps)
qed

lemma take_run_spec:
  "take_run b n cs = (len, rest) \<Longrightarrow>
   \<exists>k. len = n + of_nat k \<and> cs = map (\<lambda>i. b + 1 + of_nat i) [0..<k] @ rest"
proof (induction cs arbitrary: b n)
  case Nil
  then show ?case by (intro exI [of _ 0]) simp
next
  case (Cons c cs)
  show ?case
  proof (cases "c = b + 1")
    case True
    with Cons obtain k where k: "len = n + 1 + of_nat k" "cs = map (\<lambda>i. b + 1 + 1 + of_nat i) [0..<k] @ rest"
      by fastforce
    have "c # cs = map (\<lambda>i. b + 1 + of_nat i) [0..<Suc k] @ rest"
      using True k(2) by (simp add: upt_conv_Cons map_Suc_upt [symmetric] del: upt_Suc)
    with k(1) show ?thesis by (intro exI [of _ "Suc k"]) (simp add: algebra_simps)
  next
    case False
    with Cons.prems show ?thesis by (intro exI [of _ 0]) simp
  qed
qed

lemma merge_runs_sectors:
  assumes "length bs * unat (SectorsPerBlock rd) < 2 ^ 64"
  shows "concat (map sectors_of (merge_runs rd bs)) =
    concat (map (\<lambda>b. sectors_of (br_lba_offset rd + b * SectorsPerBlock rd, SectorsPerBlock rd)) bs)"
  using assms
proof (induction rd bs rule: merge_runs.induct)
  case (2 rd b bs)
  let ?s = "SectorsPerBlock rd" and ?l = "br_lba_offset rd"
  obtain len rest where t: "take_run b 1 bs = (len, rest)" by fastforce
  from take_run_spec [OF t] obtain k where
    k: "len = 1 + of_nat k" "bs = map (\<lambda>i. b + 1 + of_nat i) [0..<k] @ rest" by blast
  have "length bs = k + length rest"
    using arg_cong [OF k(2), of length] by simp
  with "2.prems" have small: "Suc k * unat ?s < 2 ^ 64" "length rest * unat ?s < 2 ^ 64"
    by (simp_all add: algebra_simps)
  have all: "b # bs = map (\<lambda>i. b + of_nat i) [0..<Suc k] @ rest"
    using k(2) by (simp add: upt_conv_Cons map_Suc_upt [symmetric] del: upt_Suc)
  have "concat (map sectors_of (merge_runs rd (b # bs))) = sectors_of (?l + b * ?s, of_nat (Suc k) * ?s) @ concat (map sectors_of (merge_runs rd rest))"
    using t k(1) by simp
  also have "\<dots> = concat (map (\<lambda>b. sectors_of (?l + b * ?s, ?s)) (map (\<lambda>i. b + of_nat i) [0..<Suc k] @ rest))"
    using "2.IH" [OF t [symmetric] refl small(2)] sectors_of_run [OF small(1)] by (simp add: o_def)
  finally show ?case unfolding all .
qed simp


section \<open>The blocks of a file\<close>

text \<open>
  The number of the n-th block of a file on a disk with blocks of 1024 bytes, and the files that
  the driver can read: not empty, without triply indirect blocks and without holes.
\<close>

definition file_block :: "Ext2BlockReader \<Rightarrow> (u64 \<Rightarrow> u8 list) \<Rightarrow> Inode \<Rightarrow> nat \<Rightarrow> u64" where
  "file_block rd sec ino n =
     (let entry = (\<lambda>b i. le 4 (4 * i) (disk_block rd sec b))
      in if n < 12 then ucast (in_block ino ! n)
         else if n < 268 then entry (ucast (in_block ino ! 12)) (n - 12)
         else entry (entry (ucast (in_block ino ! 13)) ((n - 268) div 256)) ((n - 268) mod 256))"

definition file_block_count :: "Inode \<Rightarrow> nat" where
  "file_block_count ino = (unat (in_blocks ino) + 1) div 2"

definition file_bytes :: "Ext2BlockReader \<Rightarrow> (u64 \<Rightarrow> u8 list) \<Rightarrow> Inode \<Rightarrow> u8 list" where
  "file_bytes rd sec ino = concat (map (disk_block rd sec \<circ> file_block rd sec ino) [0..<file_block_count ino])"

definition whole_file :: "Ext2BlockReader \<Rightarrow> (u64 \<Rightarrow> u8 list) \<Rightarrow> Inode \<Rightarrow> bool" where
  "whole_file rd sec ino \<longleftrightarrow>
     in_blocks ino \<noteq> 0 \<and> in_block ino ! 14 = 0 \<and> file_block_count ino \<le> 65804 \<and>
     (12 < file_block_count ino \<longrightarrow> in_block ino ! 12 \<noteq> 0) \<and>
     (268 < file_block_count ino \<longrightarrow> in_block ino ! 13 \<noteq> 0) \<and>
     (\<forall>n < file_block_count ino. file_block rd sec ino n \<noteq> 0)"

definition small_blocks :: "Ext2BlockReader \<Rightarrow> bool" where
  "small_blocks rd \<longleftrightarrow> sb_log_block_size (br_super rd) = 0"

lemma small_blocks_sizes:
  assumes "small_blocks rd"
  shows "SectorsPerBlock rd = 2" "BlockSize rd = 1024"
  using assms by (simp_all add: small_blocks_def SectorsPerBlock_def BlockSize_def push_bit_eq_mult)

lemma length_disk_block:
  assumes "small_blocks rd" "faithful sec dn dev"
  shows "length (disk_block rd sec b) = 1024"
  using assms by (simp add: disk_block_def small_blocks_sizes sectors_of_def faithful_def length_concat o_def sum_list_triv)

lemma ReadBlock_reads:
  assumes "faithful sec (br_denali rd) (br_device_id rd)" "ReadBlock b rd = Inr r"
  shows "prefix (disk_block rd sec b) r"
  using assms by (simp add: ReadBlock_def ReadBlocks_def disk_block_def faithful_def)

lemma ReadBlock_refused: "ReadBlock b rd = Inl e \<Longrightarrow> refuses rd e"
  by (auto simp: ReadBlock_def ReadBlocks_def refuses_def)

lemma block_entry_prefix:
  assumes "prefix p r" "4 * i + 4 \<le> length p"
  shows "block_entry (Some r) i = Inr (le 4 (4 * i) p)"
  using assms by (auto simp: block_entry_def le_def prefix_def)

lemma indirect_loop_reads:
  assumes "prefix p r" "length p = 1024" "\<forall>i \<in> set is. i < 256"
  shows "indirect_loop (Some r) is bs = Inr (bs @ map (\<lambda>i. le 4 (4 * i) p) is)"
  using assms(3) by (induction "is" arbitrary: bs) (simp_all add: block_entry_prefix [OF assms(1)] assms(2))

lemma inner_loop_reads:
  assumes "prefix p r" "length p = 1024" "k + m \<le> 256"
    "\<And>j. k \<le> j \<Longrightarrow> j < k + m \<Longrightarrow> block + j < cnt \<Longrightarrow> le 4 (4 * j) p \<noteq> 0"
  shows "inner_loop r block cnt [k..<k + m] bs = Inr (bs @ map (\<lambda>j. le 4 (4 * j) p) [k..<min (k + m) (cnt - block)])"
  using assms(3,4)
proof (induction m arbitrary: k bs)
  case (Suc m)
  have e: "[k..<k + Suc m] = k # [Suc k..<Suc k + m]"
    by (simp add: upt_conv_Cons del: upt_Suc)
  show ?case
  proof (cases "cnt \<le> block + k")
    case True
    then show ?thesis unfolding e by simp
  next
    case False
    have b: "block_entry (Some r) k = Inr (le 4 (4 * k) p)"
      using assms(1,2) Suc.prems(1) by (intro block_entry_prefix) simp_all
    have "le 4 (4 * k) p \<noteq> 0"
      using False Suc.prems(2) [of k] by simp
    moreover have "inner_loop r block cnt [Suc k..<Suc k + m] (bs @ [le 4 (4 * k) p]) =
        Inr ((bs @ [le 4 (4 * k) p]) @ map (\<lambda>j. le 4 (4 * j) p) [Suc k..<min (Suc k + m) (cnt - block)])"
      using Suc.prems by (intro Suc.IH) simp_all
    moreover have "[k..<min (k + Suc m) (cnt - block)] = k # [Suc k..<min (Suc k + m) (cnt - block)]"
      using False by (simp add: upt_conv_Cons del: upt_Suc)
    ultimately show ?thesis
      unfolding e using False b by simp
  qed
qed simp


lemma map_upt_block:
  assumes "\<And>j. j < w \<Longrightarrow> f (a + j) = g j"
  shows "map f [a..<c] = map g [0..<min w (c - a)] @ map f [a + w..<c]"
proof -
  let ?d = "min w (c - a)"
  have "[a..<c] = [a..<a + ?d] @ [a + w..<c]"
  proof (cases "a + w \<le> c")
    case True
    then show ?thesis using upt_add_eq_append [of a "a + w" "c - (a + w)"] by (simp add: min_def)
  qed (cases "a \<le> c"; simp add: min_def)
  moreover have "map f [a..<a + ?d] = map g [0..<?d]"
    using assms by (intro nth_equalityI) simp_all
  ultimately show ?thesis by simp
qed

lemma double_loop_reads:
  assumes f: "faithful sec (br_denali rd) (br_device_id rd)" and s: "small_blocks rd"
    and p: "prefix (disk_block rd sec (ucast (in_block ino ! 13))) r"
    and cnt: "cnt \<le> 65804" and nz: "\<And>n. 268 \<le> n \<Longrightarrow> n < cnt \<Longrightarrow> file_block rd sec ino n \<noteq> 0"
    and k: "k + m = 256"
  shows "(\<exists>e. double_loop rd (Some r) cnt [k..<256] bs = Inr (Inl e) \<and> refuses rd e) \<or>
    double_loop rd (Some r) cnt [k..<256] bs = Inr (Inr (bs @ map (file_block rd sec ino) [268 + 256 * k..<cnt]))"
  using k
proof (induction m arbitrary: k bs)
  case 0
  with cnt show ?case by simp
next
  case (Suc m)
  have e: "[k..<256] = k # [Suc k..<256]"
    using Suc.prems by (simp add: upt_conv_Cons)
  show ?case
  proof (cases "cnt \<le> 268 + 256 * k")
    case True
    then show ?thesis unfolding e by (simp add: Let_def)
  next
    case False
    define b where "b = le 4 (4 * k) (disk_block rd sec (ucast (in_block ino ! 13)))"
    have be: "block_entry (Some r) k = Inr b"
      unfolding b_def using p Suc.prems length_disk_block [OF s f] by (intro block_entry_prefix) simp_all
    show ?thesis
    proof (cases "ReadBlock b rd")
      case (Inl x)
      then show ?thesis
        unfolding e using False be ReadBlock_refused by (simp add: Let_def)
    next
      case (Inr r1)
      have fb: "file_block rd sec ino (268 + 256 * k + j) = le 4 (4 * j) (disk_block rd sec b)" if "j < 256" for j
        using that by (simp add: file_block_def b_def Let_def)
      let ?bs = "bs @ map (\<lambda>j. le 4 (4 * j) (disk_block rd sec b)) [0..<min 256 (cnt - (268 + 256 * k))]"
      have inner: "inner_loop r1 (268 + 256 * k) cnt [0..<0 + 256] bs = Inr (bs @ map (\<lambda>j. le 4 (4 * j) (disk_block rd sec b)) [0..<min (0 + 256) (cnt - (268 + 256 * k))])"
        using ReadBlock_reads [OF f Inr] length_disk_block [OF s f] nz fb
        by (intro inner_loop_reads) (simp_all, metis le_add1 add.assoc trans_le_add1)
      have "map (file_block rd sec ino) [268 + 256 * k..<cnt] =
          map (\<lambda>j. le 4 (4 * j) (disk_block rd sec b)) [0..<min 256 (cnt - (268 + 256 * k))] @ map (file_block rd sec ino) [268 + 256 * Suc k..<cnt]"
        using map_upt_block [of 256 "file_block rd sec ino" "268 + 256 * k" "\<lambda>j. le 4 (4 * j) (disk_block rd sec b)" cnt] fb by simp
      then show ?thesis
        using Suc.IH [of "Suc k" ?bs] Suc.prems inner unfolding e by (auto simp: Let_def be Inr False)
    qed
  qed
qed


lemma read_if_cases:
  assumes f: "faithful sec (br_denali rd) (br_device_id rd)"
  obtains e where "read_if b rd = Inl e" "refuses rd e"
  | "b = 0" "read_if b rd = Inr None"
  | r where "b \<noteq> 0" "read_if b rd = Inr (Some r)" "prefix (disk_block rd sec (ucast b)) r"
proof (cases "b = 0")
  case False
  then show ?thesis
    using that ReadBlock_reads [OF f, of "ucast b"] ReadBlock_refused [of "ucast b" rd]
    by (cases "ReadBlock (ucast b) rd") (simp_all add: read_if_def assign_or_return_def)
qed (use that in \<open>simp add: read_if_def\<close>)

lemma indirect_part:
  assumes f: "faithful sec (br_denali rd) (br_device_id rd)" and s: "small_blocks rd"
    and r: "12 < cnt \<Longrightarrow> \<exists>r'. r = Some r' \<and> prefix (disk_block rd sec (ucast (in_block ino ! 12))) r'"
  shows "indirect_loop r (map (\<lambda>i. i - 12) [12..<min 268 cnt]) (map (\<lambda>i. ucast (in_block ino ! i)) [0..<min 12 cnt]) =
    Inr (map (file_block rd sec ino) [0..<min 268 cnt])"
proof -
  have direct: "map (\<lambda>i. ucast (in_block ino ! i)) [0..<min 12 cnt] = map (file_block rd sec ino) [0..<min 12 cnt]"
    by (simp add: file_block_def)
  show ?thesis
  proof (cases "12 < cnt")
    case True
    then obtain r' where r': "r = Some r'" "prefix (disk_block rd sec (ucast (in_block ino ! 12))) r'" using r by blast
    have "[0..<min 268 cnt] = [0..<12] @ [12..<min 268 cnt]"
      using True upt_add_eq_append [of 0 12 "min 268 cnt - 12"] by simp
    moreover have "map (\<lambda>i. le 4 (4 * (i - 12)) (disk_block rd sec (ucast (in_block ino ! 12)))) [12..<min 268 cnt] = map (file_block rd sec ino) [12..<min 268 cnt]"
      by (simp add: file_block_def Let_def)
    moreover have "indirect_loop r (map (\<lambda>i. i - 12) [12..<min 268 cnt]) bs =
        Inr (bs @ map (\<lambda>i. le 4 (4 * i) (disk_block rd sec (ucast (in_block ino ! 12)))) (map (\<lambda>i. i - 12) [12..<min 268 cnt]))" for bs
      unfolding r'(1) using length_disk_block [OF s f] by (intro indirect_loop_reads [OF r'(2)]) auto
    ultimately show ?thesis using True direct by (simp add: o_def)
  next
    case False
    then show ?thesis using direct by (simp add: min_def)
  qed
qed

lemma inode_blocks_reads:
  assumes f: "faithful sec (br_denali rd) (br_device_id rd)" and s: "small_blocks rd"
    and w: "whole_file rd sec ino" and cnt: "unat c = file_block_count ino"
  shows "(\<exists>e. inode_blocks ino c rd = Inr (Inl e) \<and> refuses rd e) \<or>
    inode_blocks ino c rd = Inr (Inr (map (file_block rd sec ino) [0..<file_block_count ino]))"
proof -
  let ?c = "file_block_count ino"
  consider (err) e where "inode_blocks ino c rd = Inr (Inl e)" "refuses rd e"
    | (ok) r12 r13 where "read_if (in_block ino ! 13) rd = Inr r13" "read_if (in_block ino ! 12) rd = Inr r12"
      "12 < ?c \<Longrightarrow> \<exists>r'. r12 = Some r' \<and> prefix (disk_block rd sec (ucast (in_block ino ! 12))) r'"
      "268 < ?c \<Longrightarrow> \<exists>r'. r13 = Some r' \<and> prefix (disk_block rd sec (ucast (in_block ino ! 13))) r'"
    using w by (cases rule: read_if_cases [OF f, of "in_block ino ! 13"]; cases rule: read_if_cases [OF f, of "in_block ino ! 12"])
      (auto simp: whole_file_def inode_blocks_def)
  then show ?thesis
  proof cases
    case ok
    have "inode_blocks ino c rd = double_loop rd r13 ?c [0..<256] (map (file_block rd sec ino) [0..<min 268 ?c])"
      using indirect_part [OF f s ok(3)] by (simp add: inode_blocks_def ok(1,2) cnt Let_def)
    moreover have "(\<exists>e. double_loop rd r13 ?c [0..<256] bs = Inr (Inl e) \<and> refuses rd e) \<or>
        double_loop rd r13 ?c [0..<256] bs = Inr (Inr (bs @ map (file_block rd sec ino) [268..<?c]))" for bs
    proof (cases "268 < ?c")
      case True
      with ok(4) obtain r where r: "r13 = Some r" "prefix (disk_block rd sec (ucast (in_block ino ! 13))) r" by blast
      show ?thesis
        using double_loop_reads [OF f s r(2), of ?c 0 256 bs] w unfolding r(1) by (simp add: whole_file_def)
    qed (simp add: upt_conv_Cons Let_def)
    moreover have "map (file_block rd sec ino) [0..<min 268 ?c] @ map (file_block rd sec ino) [268..<?c] = map (file_block rd sec ino) [0..<?c]"
      using map_upt_block [of 268 "file_block rd sec ino" 0 "file_block rd sec ino" ?c] by simp
    ultimately show ?thesis by metis
  qed blast
qed


section \<open>Inodes and the cache\<close>

text \<open>
  The inode with a given number as the disk holds it, and the invariant of the driver: the tables and
  files it has kept are those of the disk.  Of the file table and the cache only the contents matter;
  \<open>n\<close> is the number of files in the cache.
\<close>

definition disk_table :: "Ext2BlockReader \<Rightarrow> Region \<Rightarrow> (u64 \<Rightarrow> u8 list) \<Rightarrow> nat \<Rightarrow> u8 list run" where
  "disk_table rd bgdt sec g =
     run_bind (bgd_inode_table g bgdt) (\<lambda>b.
     run_map (\<lambda>k. concat (map sec (sectors_of (br_lba_offset rd + ucast b * SectorsPerBlock rd, k * SectorsPerBlock rd)))) (InodeTableBlockSize rd))"

definition inode_group :: "Ext2BlockReader \<Rightarrow> u32 \<Rightarrow> u64" where
  "inode_group rd inode_num = ucast (inode_num - 1) div ucast (sb_inodes_per_group (br_super rd))"

definition disk_inode :: "Ext2BlockReader \<Rightarrow> Region \<Rightarrow> (u64 \<Rightarrow> u8 list) \<Rightarrow> u32 \<Rightarrow> Inode run" where
  "disk_inode rd bgdt sec inode_num =
     run_bind (disk_table rd bgdt sec (unat (inode_group rd inode_num)))
       (Inode_at (unat (ucast (inode_num - 1) mod ucast (sb_inodes_per_group (br_super rd)) * InodeSize rd)))"

definition readable :: "Ext2BlockReader \<Rightarrow> Region \<Rightarrow> (u64 \<Rightarrow> u8 list) \<Rightarrow> u64 \<Rightarrow> Inode \<Rightarrow> bool" where
  "readable rd bgdt sec k ino \<longleftrightarrow>
     disk_inode rd bgdt sec (ucast k) = Inr ino \<and> in_mode ino AND 0x8000 \<noteq> 0 \<and> whole_file rd sec ino \<and>
     (case NumberOfBlockGroups rd of Inl _ \<Rightarrow> False | Inr n \<Rightarrow> inode_group rd (ucast k) < n)"

definition driver_ok :: "(u64 \<Rightarrow> u8 list) \<Rightarrow> nat \<Rightarrow> Ext2Driver \<Rightarrow> bool" where
  "driver_ok sec n dr \<longleftrightarrow>
     (let rd = dr_reader dr
      in faithful sec (br_denali rd) (br_device_id rd) \<and> small_blocks rd \<and> sb_inodes_per_group (br_super rd) \<noteq> 0 \<and>
         (\<forall>m. NumberOfBlockGroups rd = Inr m \<longrightarrow> length (dr_inode_tables dr) = unat m) \<and>
         (\<forall>g r. g < length (dr_inode_tables dr) \<longrightarrow> dr_inode_tables dr ! g = Some r \<longrightarrow>
            (\<forall>t. disk_table rd (dr_bgdt dr) sec g = Inr t \<longrightarrow> prefix t r)) \<and>
         hm_inv Hash_u64 n (dr_inode_cache dr) \<and>
         (\<forall>k r ino. hm_lookup Hash_u64 (dr_inode_cache dr) k = Some r \<longrightarrow>
            disk_inode rd (dr_bgdt dr) sec (ucast k) = Inr ino \<longrightarrow> prefix (file_bytes rd sec ino) r \<and> 4096 dvd length r))"

lemma Inode_at_prefix: "prefix p r \<Longrightarrow> Inode_at off p = Inr ino \<Longrightarrow> Inode_at off r = Inr ino"
  by (auto simp: Inode_at_def le_def prefix_def split: if_splits)

lemma driver_ok_tables:
  assumes "driver_ok sec n dr" "\<And>t. disk_table (dr_reader dr) (dr_bgdt dr) sec g = Inr t \<Longrightarrow> prefix t r"
  shows "driver_ok sec n (dr\<lparr>dr_inode_tables := (dr_inode_tables dr)[g := Some r]\<rparr>)"
  using assms by (auto simp: driver_ok_def Let_def) (metis nth_list_update_eq nth_list_update_neq option.inject)

lemma GetRootOfInodeTable_reads:
  assumes ok: "driver_ok sec n dr" and t: "disk_table (dr_reader dr) (dr_bgdt dr) sec (unat g) = Inr t"
    and m: "NumberOfBlockGroups (dr_reader dr) = Inr m" "g < m"
  obtains e where "GetRootOfInodeTable g dr = Inr (Inl e, dr)" "refuses (dr_reader dr) e"
  | r dr' where "GetRootOfInodeTable g dr = Inr (Inr r, dr')" "prefix t r" "driver_ok sec n dr'"
      "dr_reader dr' = dr_reader dr" "dr_bgdt dr' = dr_bgdt dr"
proof -
  let ?rd = "dr_reader dr"
  have len: "unat g < length (dr_inode_tables dr)" "\<not> m < g"
    using ok m by (auto simp: driver_ok_def Let_def word_less_nat_alt)
  from t obtain b k where bk: "bgd_inode_table (unat g) (dr_bgdt dr) = Inr b" "InodeTableBlockSize ?rd = Inr k"
      "t = concat (map sec (sectors_of (br_lba_offset ?rd + ucast b * SectorsPerBlock ?rd, k * SectorsPerBlock ?rd)))"
    by (auto simp: disk_table_def run_bind_eq_Inr run_map_eq_Inr)
  show thesis
  proof (cases "dr_inode_tables dr ! unat g")
    case (Some r)
    moreover have "prefix t r" using ok t len(1) Some by (simp add: driver_ok_def Let_def)
    ultimately show thesis
      using that(2) [of r dr] ok len m(1) by (simp add: GetRootOfInodeTable_def)
  next
    case None
    show thesis
    proof (cases "ReadBlocks (ucast b) k ?rd")
      case (Inl e)
      then have "refuses ?rd e" by (auto simp: ReadBlocks_def refuses_def)
      with Inl show thesis
        using that(1) [of e] None len m(1) bk(1,2) by (simp add: GetRootOfInodeTable_def)
    next
      case (Inr r)
      then have "prefix t r"
        using ok unfolding bk(3) by (simp add: ReadBlocks_def driver_ok_def Let_def faithful_def)
      with Inr show thesis
        using that(2) [of r] None len m(1) bk(1,2) t driver_ok_tables [OF ok, of "unat g" r] by (simp add: GetRootOfInodeTable_def)
    qed
  qed
qed

lemma ucast_u32_eq_0: "(ucast (x :: u32) :: u64) = 0 \<longleftrightarrow> x = 0"
  by transfer simp

lemma GetInode_reads:
  assumes ok: "driver_ok sec n dr" and ino: "disk_inode (dr_reader dr) (dr_bgdt dr) sec k = Inr ino"
    and m: "NumberOfBlockGroups (dr_reader dr) = Inr m" "inode_group (dr_reader dr) k < m"
  obtains e where "GetInode k dr = Inr (Inl e, dr)" "refuses (dr_reader dr) e"
  | dr' where "GetInode k dr = Inr (Inr ino, dr')" "driver_ok sec n dr'" "dr_reader dr' = dr_reader dr" "dr_bgdt dr' = dr_bgdt dr"
proof -
  have i: "ucast (sb_inodes_per_group (br_super (dr_reader dr))) \<noteq> (0 :: u64)"
    using ok by (simp add: driver_ok_def Let_def ucast_u32_eq_0)
  obtain t where t: "disk_table (dr_reader dr) (dr_bgdt dr) sec (unat (inode_group (dr_reader dr) k)) = Inr t"
      "Inode_at (unat (ucast (k - 1) mod ucast (sb_inodes_per_group (br_super (dr_reader dr))) * InodeSize (dr_reader dr))) t = Inr ino"
    using ino by (auto simp: disk_inode_def run_bind_eq_Inr)
  show thesis
  proof (cases rule: GetRootOfInodeTable_reads [OF ok t(1) m])
    case (1 e)
    then show thesis using that(1) [of e] i by (simp add: GetInode_def inode_group_def Let_def)
  next
    case (2 r dr')
    with Inode_at_prefix [OF 2(2) t(2)] show thesis
      using that(2) [of dr'] i by (simp add: GetInode_def inode_group_def Let_def)
  qed
qed


lemma unat_ucast_u32: "unat (ucast (x :: u32) :: u64) = unat x"
  by transfer simp

lemma concat_concat_map: "concat (concat (map f bs)) = concat (map (\<lambda>b. concat (f b)) bs)"
  by (induction bs) simp_all

lemma whole_file_count:
  assumes "in_blocks ino \<noteq> 0"
  shows "unat (ucast (in_blocks ino - 1) div (2 :: u64) + 1) = file_block_count ino"
proof -
  have u: "unat (in_blocks ino - 1) = unat (in_blocks ino) - 1" "0 < unat (in_blocks ino)"
    using assms by (simp_all add: unat_minus_one unat_gt_0)
  have "unat (ucast (in_blocks ino - 1) :: u64) = unat (in_blocks ino) - 1"
    unfolding u(1) [symmetric] by (rule unat_ucast_u32)
  then have d: "unat (ucast (in_blocks ino - 1) div (2 :: u64)) = (unat (in_blocks ino) - 1) div 2"
    by (simp add: unat_div)
  then have "unat (ucast (in_blocks ino - 1) div (2 :: u64) + 1) = (unat (in_blocks ino) - 1) div 2 + 1"
    using unsigned_less [of "in_blocks ino", where 'a = nat] by (simp add: unat_word_ariths)
  with u(2) show ?thesis unfolding file_block_count_def by presburger
qed

lemma ReadBlocks_list_reads:
  assumes f: "faithful sec (br_denali rd) (br_device_id rd)" and s: "small_blocks rd"
    and w: "length bs \<le> 65804" and r: "ReadBlocks_list bs rd = Inr r"
  shows "prefix (concat (map (disk_block rd sec) bs)) r \<and> 4096 dvd length r"
proof -
  have "map sec (concat (map sectors_of (merge_runs rd bs))) = concat (map (\<lambda>b. map sec (sectors_of (br_lba_offset rd + b * SectorsPerBlock rd, SectorsPerBlock rd))) bs)"
    using w by (subst merge_runs_sectors) (simp_all add: small_blocks_sizes [OF s] map_concat o_def)
  then have "concat (map sec (concat (map sectors_of (merge_runs rd bs)))) = concat (map (disk_block rd sec) bs)"
    by (simp add: disk_block_def [abs_def] concat_concat_map)
  moreover have "prefix (concat (map sec (concat (map sectors_of (merge_runs rd bs))))) r \<and> 4096 dvd length r"
    using f r unfolding ReadBlocks_list_def faithful_def by blast
  ultimately show ?thesis by simp
qed

lemma driver_ok_cache:
  assumes "driver_ok sec n dr" "hm_inv Hash_u64 n' m" "hm_lookup Hash_u64 m = (hm_lookup Hash_u64 (dr_inode_cache dr))(k \<mapsto> r)"
    "\<And>ino. disk_inode (dr_reader dr) (dr_bgdt dr) sec (ucast k) = Inr ino \<Longrightarrow> prefix (file_bytes (dr_reader dr) sec ino) r \<and> 4096 dvd length r"
  shows "driver_ok sec n' (dr\<lparr>dr_inode_cache := m\<rparr>)"
  using assms by (simp add: driver_ok_def Let_def)

lemma ReadInode_reads:
  assumes ok: "driver_ok sec n dr" "n < hm_limit" and w: "whole_file (dr_reader dr) sec ino"
    and ino: "disk_inode (dr_reader dr) (dr_bgdt dr) sec (ucast k) = Inr ino"
  obtains e where "ReadInode k ino dr = Inr (Inl e, dr)" "refuses (dr_reader dr) e"
  | r m n' where "ReadInode k ino dr = Inr (Inr r, dr\<lparr>dr_inode_cache := m\<rparr>)" "prefix (file_bytes (dr_reader dr) sec ino) r" "4096 dvd length r"
      "driver_ok sec n' (dr\<lparr>dr_inode_cache := m\<rparr>)" "n' \<le> Suc n"
proof -
  let ?rd = "dr_reader dr" and ?c = "dr_inode_cache dr"
  have f: "faithful sec (br_denali ?rd) (br_device_id ?rd)" and s: "small_blocks ?rd" and hm: "hm_inv Hash_u64 n ?c"
    using ok(1) by (simp_all add: driver_ok_def Let_def)
  show thesis
  proof (cases "hm_lookup Hash_u64 ?c k")
    case (Some r)
    have "ReadInode k ino dr = Inr (Inr r, dr\<lparr>dr_inode_cache := ?c\<rparr>)"
      using hm.get_ok [OF hm Some] by (simp add: ReadInode_def hm.contains_ok [OF hm] Some)
    moreover have "prefix (file_bytes ?rd sec ino) r \<and> 4096 dvd length r"
      using ok(1) Some ino by (simp add: driver_ok_def Let_def)
    ultimately show thesis using that(2) [of r ?c n] ok(1) by simp
  next
    case None
    let ?cnt = "ucast (in_blocks ino - 1) div (2 :: u64) + 1"
    have start: "ReadInode k ino dr = run_bind (inode_blocks ino ?cnt ?rd) (\<lambda>blocks. case blocks of Inl e \<Rightarrow> Inr (Inl e, dr)
        | Inr bs \<Rightarrow> (case ReadBlocks_list bs ?rd of Inl e \<Rightarrow> Inr (Inl e, dr)
            | Inr r \<Rightarrow> run_map (\<lambda>(e, m). (if e \<noteq> OK then Inl e else Inr r, dr\<lparr>dr_inode_cache := m\<rparr>)) (HashMap_Insert Hash_u64 k r ?c)))"
      using w by (simp add: ReadInode_def hm.contains_ok [OF hm] None small_blocks_sizes [OF s] whole_file_def Let_def)
    have cnt: "unat ?cnt = file_block_count ino" using w by (intro whole_file_count) (simp add: whole_file_def)
    let ?bs = "map (file_block ?rd sec ino) [0..<file_block_count ino]"
    from inode_blocks_reads [OF f s w cnt] consider e where "inode_blocks ino ?cnt ?rd = Inr (Inl e)" "refuses ?rd e"
      | "inode_blocks ino ?cnt ?rd = Inr (Inr ?bs)" by blast
    then show thesis
    proof cases
      case 2
      show thesis
      proof (cases "ReadBlocks_list ?bs ?rd")
        case (Inl e)
        then show thesis using that(1) [of e] 2 by (auto simp: start ReadBlocks_list_def refuses_def)
      next
        case (Inr r)
        have p: "prefix (file_bytes ?rd sec ino) r \<and> 4096 dvd length r"
          using ReadBlocks_list_reads [OF f s _ Inr] w by (simp add: file_bytes_def whole_file_def)
        from hm.insert_fresh [OF hm ok(2) None, of r] obtain m where
          m: "HashMap_Insert Hash_u64 k r ?c = Inr (OK, m)" "hm_inv Hash_u64 (Suc n) m" "hm_lookup Hash_u64 m = (hm_lookup Hash_u64 ?c)(k \<mapsto> r)" by blast
        have "driver_ok sec (Suc n) (dr\<lparr>dr_inode_cache := m\<rparr>)"
          using p ino by (intro driver_ok_cache [OF ok(1) m(2,3)]) simp
        with p show thesis using that(2) [of r m "Suc n"] by (simp add: start 2 Inr m(1))
      qed
    qed (use that(1) in \<open>simp add: start\<close>)
  qed
qed


section \<open>Reading files\<close>

lemma ReadFile_reads:
  assumes ok: "driver_ok sec n dr" "n < hm_limit" and k: "readable (dr_reader dr) (dr_bgdt dr) sec k ino"
  obtains res dr' n' where "ReadFile k dr = Inr (res, dr')" "driver_ok sec n' dr'" "n' \<le> Suc n"
    "dr_reader dr' = dr_reader dr" "dr_bgdt dr' = dr_bgdt dr"
    "case res of Inl e \<Rightarrow> refuses (dr_reader dr) e | Inr r \<Rightarrow> prefix (file_bytes (dr_reader dr) sec ino) r"
proof -
  obtain m where m: "NumberOfBlockGroups (dr_reader dr) = Inr m" "inode_group (dr_reader dr) (ucast k) < m"
    using k by (auto simp: readable_def split: sum.splits)
  have ino: "disk_inode (dr_reader dr) (dr_bgdt dr) sec (ucast k) = Inr ino" and mode: "in_mode ino AND 0x8000 \<noteq> 0"
    and w: "whole_file (dr_reader dr) sec ino"
    using k by (simp_all add: readable_def)
  show thesis
  proof (cases rule: GetInode_reads [OF ok(1) ino m])
    case (1 e)
    then show thesis using that [of "Inl e" dr n] ok(1) by (simp add: ReadFile_def)
  next
    case (2 dr1)
    then have g: "ReadFile k dr = ReadInode k ino dr1" using mode by (simp add: ReadFile_def)
    from 2 w ino have w1: "whole_file (dr_reader dr1) sec ino" and i1: "disk_inode (dr_reader dr1) (dr_bgdt dr1) sec (ucast k) = Inr ino"
      by simp_all
    show thesis
    proof (cases rule: ReadInode_reads [OF 2(2) ok(2) w1 i1])
      case (1 e)
      then show thesis using that [of "Inl e" dr1 n] 2 g by simp
    next
      case (2 r c n')
      then show thesis using that [of "Inr r" "dr1\<lparr>dr_inode_cache := c\<rparr>" n'] \<open>dr_reader dr1 = dr_reader dr\<close> \<open>dr_bgdt dr1 = dr_bgdt dr\<close> g by simp
    qed
  qed
qed

fun read_files :: "u64 list \<Rightarrow> Ext2Driver \<Rightarrow> Region ErrorOr list run" where
  "read_files [] dr = Inr []"
| "read_files (k # ks) dr = run_bind (ReadFile k dr) (\<lambda>(res, dr). run_map ((#) res) (read_files ks dr))"

lemma read_files_reads:
  assumes "list_all2 (readable rd bgdt sec) ks inos" "driver_ok sec n dr" "n + length ks \<le> hm_limit" "dr_reader dr = rd" "dr_bgdt dr = bgdt"
  shows "\<exists>rs. read_files ks dr = Inr rs \<and>
    list_all2 (\<lambda>ino res. case res of Inl e \<Rightarrow> refuses rd e | Inr r \<Rightarrow> prefix (file_bytes rd sec ino) r) inos rs"
  using assms
proof (induction ks inos arbitrary: n dr rule: list_all2_induct)
  case (Cons k ks ino inos)
  have k: "n < hm_limit" "readable (dr_reader dr) (dr_bgdt dr) sec k ino" using Cons.prems Cons.hyps by simp_all
  obtain res dr' n' where r: "ReadFile k dr = Inr (res, dr')" "driver_ok sec n' dr'" "n' \<le> Suc n" "dr_reader dr' = rd" "dr_bgdt dr' = bgdt"
      "case res of Inl e \<Rightarrow> refuses rd e | Inr r \<Rightarrow> prefix (file_bytes rd sec ino) r"
    using ReadFile_reads [OF Cons.prems(1) k] Cons.prems(3,4) by metis
  have "n' + length ks \<le> hm_limit" using r(3) Cons.prems(2) by simp
  with Cons.IH [OF r(2) _ r(4,5)] r(1,6) show ?case by auto
qed simp

lemma Ext2Driver_Init_ok:
  assumes "faithful sec dn dev" "Ext2Driver_Init dn dev lba = Inr (Inr dr)"
    "small_blocks (dr_reader dr)" "sb_inodes_per_group (br_super (dr_reader dr)) \<noteq> 0"
  shows "driver_ok sec 0 dr"
proof -
  obtain rd where rd: "Ext2BlockReader_Init dn dev lba = Inr (Inr rd)"
    using assms(2) by (cases "Ext2BlockReader_Init dn dev lba") (auto simp: Ext2Driver_Init_def split: sum.split_asm)
  obtain k where k: "BgdtBlockSize rd = Inr k"
    using assms(2) rd by (cases "BgdtBlockSize rd") (auto simp: Ext2Driver_Init_def)
  obtain bgdt where "ReadBlocks (BgdtBlockNum rd) k rd = Inr bgdt"
    using assms(2) rd k by (cases "ReadBlocks (BgdtBlockNum rd) k rd") (auto simp: Ext2Driver_Init_def)
  then obtain n where "NumberOfBlockGroups rd = Inr n"
      "dr = \<lparr>dr_reader = rd, dr_bgdt = bgdt, dr_inode_tables = replicate (unat n) None, dr_inode_cache = HashMap_new\<rparr>"
    using assms(2) rd k by (auto simp: Ext2Driver_Init_def run_map_eq_Inr)
  moreover from rd have "br_denali rd = dn" "br_device_id rd = dev"
    by (auto simp: Ext2BlockReader_Init_def run_map_eq_Inr split: sum.splits)
  ultimately show ?thesis
    using assms hm_inv_new [of Hash_u64] by (simp add: driver_ok_def Let_def)
qed



text \<open>A disk whose root directory, inode 2 in block 4, names one file \<open>f\<close>, inode 3 in block 5.\<close>

definition example_byte :: "u64 \<Rightarrow> nat \<Rightarrow> u8" where
  "example_byte lba i =
     (if lba = 2 then (if i = 4 \<or> i = 32 \<or> i = 40 then 8 else if i = 56 then 0x53 else if i = 57 then 0xEF else 0)
      else if lba = 4 then (if i = 8 then 3 else 0)
      else if lba = 6 then (if i = 129 then 0x40 else if i = 156 then 2 else if i = 168 then 4
                              else if i = 257 then 0x80 else if i = 260 then 9 else if i = 284 then 2 else if i = 296 then 5 else 0)
      else if lba = 8 then (if i = 0 then 3 else if i = 5 then 4 else if i = 6 \<or> i = 7 then 1 else if i = 8 then 0x66 else 0)
      else if lba = 10 then of_nat i else 0)"

definition example_sector :: "u64 \<Rightarrow> u8 list" where
  "example_sector lba = map (example_byte lba) [0..<512]"

definition example_denali :: Denali where
  "example_denali = \<lparr>dn_read = \<lambda>_ lba n. Inr (concat (map example_sector (sectors_of (lba, n)))),
     dn_read_many = \<lambda>_ bs. Inr (let r = concat (map example_sector (concat (map sectors_of bs))) in r @ replicate (4095 * length r) 0)\<rparr>"

definition example_reader :: Ext2BlockReader where
  "example_reader = \<lparr>br_denali = example_denali, br_device_id = 0, br_lba_offset = 0,
     br_super = \<lparr>sb_blocks_count = 8, sb_log_block_size = 0, sb_blocks_per_group = 8, sb_inodes_per_group = 8, sb_magic = 0xEF53, sb_rev_level = 0, sb_inode_size = 0\<rparr>\<rparr>"

definition example_driver :: Ext2Driver where
  "example_driver = \<lparr>dr_reader = example_reader, dr_bgdt = example_sector 4 @ example_sector 5, dr_inode_tables = [None], dr_inode_cache = HashMap_new\<rparr>"

definition example_inode :: Inode where
  "example_inode = \<lparr>in_mode = 0x8000, in_size = 9, in_blocks = 2, in_block = [5, 0, 0, 0, 0, 0, 0, 0, 0, 0, 0, 0, 0, 0, 0]\<rparr>"

lemma le_example:
  "off + n \<le> 512 \<Longrightarrow> le n off (example_sector a @ z) = of_le (map (example_byte a) [off..<off + n])"
  by (simp add: le_def example_sector_def drop_map take_map)

lemma sectors_of_2: "sectors_of (a, 2) = [a, a + 1]"
  by (simp add: sectors_of_def upt_rec)

lemma length_example: "length (example_sector a) = 512"
  by (simp add: example_sector_def)

lemma example_faithful: "faithful example_sector example_denali 0"
  by (simp add: faithful_def length_example example_denali_def Let_def prefix_def)

lemma example_sizes: "SectorsPerBlock example_reader = 2" "BlockSize example_reader = 1024" "NumberOfBlockGroups example_reader = Inr 1"
  "InodeTableBlockSize example_reader = Inr 1" "InodeSize example_reader = 128"
  by (simp_all add: SectorsPerBlock_def BlockSize_def NumberOfBlockGroups_def InodeTableBlockSize_def InodeSize_def div_run_def
      example_reader_def push_bit_eq_mult)

lemma example_Superblock: "Superblock_at (example_sector 2 @ example_sector 3) = Inr (br_super example_reader)"
  by (simp add: Superblock_at_def le_example length_example example_reader_def example_byte_def upt_rec)

lemma example_Init: "Ext2Driver_Init example_denali 0 0 = Inr (Inr example_driver)"
proof -
  have "Ext2BlockReader_Init example_denali 0 0 = Inr (Inr example_reader)"
    using example_Superblock by (simp add: Ext2BlockReader_Init_def example_denali_def sectors_of_2 example_reader_def)
  moreover have "BgdtBlockSize example_reader = Inr 1" "BgdtBlockNum example_reader = 2"
    by (simp_all add: BgdtBlockSize_def BgdtBlockNum_def example_sizes div_run_def)
  moreover have "ReadBlocks 2 1 example_reader = Inr (example_sector 4 @ example_sector 5)"
    by (simp add: ReadBlocks_def example_sizes) (simp add: example_reader_def example_denali_def sectors_of_2)
  ultimately show ?thesis
    by (simp add: Ext2Driver_Init_def example_sizes example_driver_def)
qed

definition example_root :: Inode where
  "example_root = \<lparr>in_mode = 0x4000, in_size = 0, in_blocks = 2, in_block = [4, 0, 0, 0, 0, 0, 0, 0, 0, 0, 0, 0, 0, 0, 0]\<rparr>"

lemma example_inodes:
  "disk_inode example_reader (dr_bgdt example_driver) example_sector 2 = Inr example_root"
  "disk_inode example_reader (dr_bgdt example_driver) example_sector 3 = Inr example_inode"
proof -
  have t: "disk_table example_reader (dr_bgdt example_driver) example_sector 0 = Inr (example_sector 6 @ example_sector 7)"
    by (simp add: disk_table_def bgd_inode_table_def example_driver_def length_example le_example example_sizes example_byte_def upt_rec sectors_of_2)
      (simp add: example_reader_def)
  have g: "inode_group example_reader 2 = 0" "inode_group example_reader 3 = 0" "sb_inodes_per_group (br_super example_reader) = 8"
    by (simp_all add: inode_group_def example_reader_def)
  have "Inode_at 128 (example_sector 6 @ example_sector 7) = Inr example_root"
    by (simp add: Inode_at_def length_example le_example example_root_def example_byte_def upt_rec)
  then show "disk_inode example_reader (dr_bgdt example_driver) example_sector 2 = Inr example_root"
    by (simp add: disk_inode_def example_sizes g t)
  have "Inode_at 256 (example_sector 6 @ example_sector 7) = Inr example_inode"
    by (simp add: Inode_at_def length_example le_example example_inode_def example_byte_def upt_rec)
  then show "disk_inode example_reader (dr_bgdt example_driver) example_sector 3 = Inr example_inode"
    by (simp add: disk_inode_def example_sizes g t)
qed

lemma example_whole: "whole_file example_reader example_sector example_root" "whole_file example_reader example_sector example_inode"
  by (simp_all add: whole_file_def file_block_count_def example_inode_def example_root_def file_block_def)

lemma example_groups: "inode_group example_reader 2 = 0" "inode_group example_reader 3 = 0"
  by (simp_all add: inode_group_def example_reader_def)

lemma example_readable: "readable example_reader (dr_bgdt example_driver) example_sector 3 example_inode"
  using example_whole(2) example_inodes(2) by (simp add: readable_def example_sizes example_groups) (simp add: example_inode_def)

lemma example_driver_parts: "dr_reader example_driver = example_reader" "small_blocks example_reader" "sb_inodes_per_group (br_super example_reader) \<noteq> 0"
  by (simp_all add: example_driver_def example_reader_def small_blocks_def)


section \<open>Files without blocks\<close>

text \<open>
  C39. Reading a file that has no blocks stops at the null address: the number of its blocks wraps
  around to more than twelve, and the indirect block they would be named in was never read.
\<close>

theorem empty_file_faults:
  assumes "HashMap_Contains Hash_u64 k (dr_inode_cache dr) = Inr False"
    "in_blocks ino = 0" "in_block ino = replicate 15 0" "512 \<le> BlockSize (dr_reader dr)" "BlockSize (dr_reader dr) \<le> 65536"
  shows "ReadInode k ino dr = Inl NullDeref"
proof -
  let ?s = "BlockSize (dr_reader dr) div 512"
  have s: "1 \<le> unat ?s" "unat ?s \<le> 128"
    using assms(4,5) by (simp_all add: unat_div word_le_nat_alt)
  define q where "q = (0xFFFFFFFF :: u64) div ?s"
  have "unat q = 0xFFFFFFFF div unat ?s" by (simp add: q_def unat_div)
  then have "12 \<le> unat q" "unat q \<le> 0xFFFFFFFF"
    using s by (simp_all add: less_eq_div_iff_mult_less_eq)
  then have c: "12 < unat (q + 1)"
    by (simp add: unat_word_ariths)
  have "inode_blocks ino (q + 1) (dr_reader dr) = Inl NullDeref"
    using c assms(3) by (simp add: inode_blocks_def read_if_def Let_def upt_conv_Cons [of 12] block_entry_def)
  moreover have "?s \<noteq> 0" using s(1) by auto
  moreover have ones: "ucast (- 1 :: u32) = (0xFFFFFFFF :: u64)" by (simp add: unsigned_minus_1_eq_mask mask_eq_exp_minus_1)
  ultimately show ?thesis
    using assms(1-3) ones by (simp add: ReadInode_def Let_def q_def)
qed

theorem empty_file_faults_witness:
  "ReadInode 5 \<lparr>in_mode = 0x8000, in_size = 0, in_blocks = 0, in_block = replicate 15 0\<rparr> example_driver = Inl NullDeref"
  using empty_file_faults [of 5 example_driver "\<lparr>in_mode = 0x8000, in_size = 0, in_blocks = 0, in_block = replicate 15 0\<rparr>"]
  by (simp add: example_driver_parts example_sizes) (simp add: example_driver_def hm.contains_ok [OF hm_inv_new])

end
