(* ===== verification/VictoriaFalls_Server.thy ===== *)
theory VictoriaFalls_Server
  imports Ext2_Driver Glcr_String
begin

text \<open>
  The handlers of the file system service (\<open>sys/victoriafalls/victoriafalls_server.cpp\<close>): a path is split
  at its slashes and resolved through the directories of the ext2 driver.

  The path of a request is a view of the memory \<open>m\<close>.  Comparing two views compares their characters.  A
  status is its code; the texts that go with it are not modelled.  The capability of the answer is the region it
  stands for.  \<open>None\<close> is a directory whose entries do not end.
\<close>

section \<open>The handlers\<close>

text \<open>\<open>ASSIGN_OR_RETURN\<close> around a call of the driver.\<close>

definition try_bind ::
    "('a ErrorOr \<times> Ext2Driver) run option \<Rightarrow> ('a \<Rightarrow> Ext2Driver \<Rightarrow> ('b ErrorOr \<times> Ext2Driver) run option) \<Rightarrow>
     ('b ErrorOr \<times> Ext2Driver) run option" where
  "try_bind r k = opt_run_bind r (\<lambda>(x, dr). case x of Inl e \<Rightarrow> Some (Inr (Inl e, dr)) | Inr x \<Rightarrow> k x dr)"

lemma try_bind_simps [simp]:
  "try_bind (Some (Inr (Inr x, dr))) k = k x dr"
  "try_bind (Some (Inr (Inl e, dr))) k = Some (Inr (Inl e, dr))"
  "try_bind (Some (Inl f)) k = Some (Inl f)"
  by (simp_all add: try_bind_def)

definition dir_name :: "DirEntry \<Rightarrow> u8 list" where
  "dir_name file = take (unat (de_name_len file)) (de_name file)"

text \<open>From the entries of one directory through those that the tokens name.\<close>

fun walk_directories :: "u8 list list \<Rightarrow> DirEntry list \<Rightarrow> Ext2Driver \<Rightarrow> (DirEntry list ErrorOr \<times> Ext2Driver) run option" where
  "walk_directories [] files dr = Some (Inr (Inr files, dr))"
| "walk_directories (token # tokens) files dr =
     (case find (\<lambda>file. dir_name file = token) files of
        None \<Rightarrow> Some (Inr (Inl NOT_FOUND, dr))
      | Some file \<Rightarrow> try_bind (ReadDirectory (de_inode file) dr) (walk_directories tokens))"

record OpenFileAnswer =
  of_path :: "u8 list"
  of_memory :: Region
  of_size :: u64

definition HandleOpenFile ::
    "StringView \<Rightarrow> Mem \<Rightarrow> StringView \<Rightarrow> Ext2Driver \<Rightarrow> (OpenFileAnswer ErrorOr \<times> Ext2Driver) run option" where
  "HandleOpenFile d m path dr =
     opt_run_bind (Some (StrSplit d m path 0x2F)) (\<lambda>v.
     let path_tokens = map (sv_chars m) (vec_list v)
     in if hd path_tokens \<noteq> [] then Some (Inr (Inl INVALID_ARGUMENT, dr))
        else try_bind (ReadDirectory 2 dr) (\<lambda>files dr.
             try_bind (walk_directories (butlast (tl path_tokens)) files dr) (\<lambda>files dr.
             case find (\<lambda>file. dir_name file = last path_tokens) files of
               None \<Rightarrow> Some (Inr (Inl NOT_FOUND, dr))
             | Some file \<Rightarrow>
                 try_bind (Some (ReadFile (ucast (de_inode file)) dr)) (\<lambda>region dr.
                 try_bind (Some (GetInode (de_inode file) dr)) (\<lambda>inode dr.
                 Some (Inr (Inr \<lparr>of_path = sv_chars m path, of_memory = region, of_size = ucast (in_size inode)\<rparr>, dr)))))))"

text \<open>The list of the names, separated by commas.\<close>

fun push_names :: "u8 \<Rightarrow> DirEntry list \<Rightarrow> StringBuilder \<Rightarrow> StringBuilder run option" where
  "push_names d [] filelist = Some (Inr filelist)"
| "push_names d (file # files) filelist =
     opt_run_bind (StringBuilder_PushBack d (dir_name file) filelist) (\<lambda>filelist.
     opt_run_bind (Some (StringBuilder_PushBack_char d 0x2C filelist)) (push_names d files))"

definition HandleGetDirectory ::
    "u8 \<Rightarrow> StringView \<Rightarrow> Mem \<Rightarrow> StringView \<Rightarrow> Ext2Driver \<Rightarrow> (String ErrorOr \<times> Ext2Driver) run option" where
  "HandleGetDirectory d0 d m path dr =
     opt_run_bind (Some (StrSplit d m path 0x2F)) (\<lambda>v.
     let path_tokens = map (sv_chars m) (vec_list v)
     in if hd path_tokens \<noteq> [] then Some (Inr (Inl INVALID_ARGUMENT, dr))
        else let path_tokens = (if last path_tokens = [] then butlast path_tokens else path_tokens)
             in try_bind (ReadDirectory 2 dr) (\<lambda>files dr.
                try_bind (walk_directories (tl path_tokens) files dr) (\<lambda>files dr.
                opt_run_bind (push_names d0 files VariableStringBuilder_new) (\<lambda>filelist.
                opt_run_bind (Some (if StringBuilder_size filelist > 0 then StringBuilder_DeleteLast filelist else Inr filelist)) (\<lambda>filelist.
                Some (run_map (\<lambda>s. (Inr s, dr)) (StringBuilder_ToString d0 filelist)))))))"

section \<open>Directories on the disk\<close>

text \<open>
  The entries, inode and name, that the first block of a directory holds from an offset on, and the
  file that a path leads to.  \<open>D\<close> gives the entries of each directory.
\<close>

fun dir_names :: "u8 list \<Rightarrow> nat \<Rightarrow> (u32 \<times> u8 list) list \<Rightarrow> bool" where
  "dir_names b off [] \<longleftrightarrow> 1024 \<le> off"
| "dir_names b off ((i, name) # es) \<longleftrightarrow>
     off + 8 + length name \<le> 1024 \<and> length name < 256 \<and> le 4 off b = ucast i \<and> le 1 (off + 6) b = of_nat (length name) \<and>
     take (length name) (drop (off + 8) b) = name \<and> dir_names b (off + unat (ucast (le 2 (off + 4) b) :: u16)) es"

definition disk_dir :: "Ext2BlockReader \<Rightarrow> Region \<Rightarrow> (u64 \<Rightarrow> u8 list) \<Rightarrow> u32 \<Rightarrow> (u32 \<times> u8 list) list \<Rightarrow> bool" where
  "disk_dir rd bgdt sec k es \<longleftrightarrow>
     (case disk_inode rd bgdt sec k of
        Inl _ \<Rightarrow> False
      | Inr ino \<Rightarrow> in_mode ino AND 0x4000 \<noteq> 0 \<and> whole_file rd sec ino \<and> dir_names (file_bytes rd sec ino) 0 es) \<and>
     (case NumberOfBlockGroups rd of Inl _ \<Rightarrow> False | Inr n \<Rightarrow> inode_group rd k < n)"

fun disk_path :: "Ext2BlockReader \<Rightarrow> Region \<Rightarrow> (u64 \<Rightarrow> u8 list) \<Rightarrow> (u32 \<Rightarrow> (u32 \<times> u8 list) list) \<Rightarrow> u32 \<Rightarrow> u8 list list \<Rightarrow> u32 \<Rightarrow> bool" where
  "disk_path rd bgdt sec D k [] kf \<longleftrightarrow> k = kf"
| "disk_path rd bgdt sec D k (t # ts) kf \<longleftrightarrow>
     disk_dir rd bgdt sec k (D k) \<and>
     (case find (\<lambda>(_, name). name = t) (D k) of None \<Rightarrow> False | Some (i, _) \<Rightarrow> disk_path rd bgdt sec D i ts kf)"

abbreviation entry_of :: "DirEntry \<Rightarrow> u32 \<times> u8 list" where
  "entry_of d \<equiv> (de_inode d, dir_name d)"

lemma ucast_u32_u64 [simp]: "(ucast (ucast (k :: u32) :: u64) :: u32) = k"
  by transfer simp

lemma unat_ucast_of_nat: "n < 256 \<Longrightarrow> unat (ucast (of_nat n :: u64) :: u8) = n"
  by transfer (simp add: take_bit_eq_mod nat_mod_distrib)

lemma le_prefix: "prefix p r \<Longrightarrow> off + n \<le> length p \<Longrightarrow> le n off r = le n off p"
  by (auto simp: le_def prefix_def)

lemma DirEntry_at_names:
  assumes p: "prefix b r" "1024 \<le> length b" "1288 \<le> length r" and e: "dir_names b off ((i, name) # es)"
  obtains d where "DirEntry_at off r = Inr d" "entry_of d = (i, name)" "de_record_length d = ucast (le 2 (off + 4) b)"
proof -
  have le: "le 4 off r = ucast i" "le 1 (off + 6) r = of_nat (length name)" "le 2 (off + 4) r = le 2 (off + 4) b"
    using p e by (simp_all add: le_prefix)
  have n: "take (length name) (take 256 (drop (off + 8) r)) = name"
    using p e by (auto simp: prefix_def)
  obtain d where d: "DirEntry_at off r = Inr d" using p(3) e by (simp add: DirEntry_at_def)
  then have "de_inode d = ucast (le 4 off r)" "de_record_length d = ucast (le 2 (off + 4) r)" "de_name_len d = ucast (le 1 (off + 6) r)"
      "de_name d = take 256 (drop (off + 8) r)"
    by (auto simp: DirEntry_at_def split: if_splits)
  then show thesis
    using e le n d by (intro that) (simp_all add: dir_name_def unat_ucast_of_nat)
qed

lemma dir_loop_names:
  assumes p: "prefix b r" "1024 \<le> length b" "1288 \<le> length r" and e: "dir_names b off es"
  shows "\<exists>ds. dir_loop 1024 r off acc = Some (Inr (acc @ ds)) \<and> map entry_of ds = es"
  using e
proof (induction es arbitrary: off acc)
  case Nil
  then show ?case by (subst dir_loop.simps) simp
next
  case (Cons x es)
  obtain i name where x: "x = (i, name)" by fastforce
  obtain d where d: "DirEntry_at off r = Inr d" "entry_of d = x" "de_record_length d = ucast (le 2 (off + 4) b)"
    using DirEntry_at_names [OF p Cons.prems [unfolded x]] unfolding x by blast
  have "off < 1024" "dir_names b (off + unat (de_record_length d)) es" using Cons.prems unfolding x d(3) by simp_all
  with Cons.IH [of "off + unat (de_record_length d)" "acc @ [d]"] obtain ds where
    "dir_loop 1024 r (off + unat (de_record_length d)) (acc @ [d]) = Some (Inr (acc @ d # ds))" "map entry_of ds = es" by auto
  with d(1,2) \<open>off < 1024\<close> show ?case by (subst dir_loop.simps) (auto intro!: exI [of _ "d # ds"])
qed

lemma length_file_bytes:
  assumes "small_blocks rd" "faithful sec dn dev"
  shows "length (file_bytes rd sec ino) = 1024 * file_block_count ino"
  by (simp add: file_bytes_def length_concat o_def length_disk_block [OF assms] sum_list_triv)

lemma whole_file_pages:
  assumes "small_blocks rd" "faithful sec dn dev" "whole_file rd sec ino" "prefix (file_bytes rd sec ino) r" "4096 dvd length r"
  shows "1024 \<le> length (file_bytes rd sec ino)" "1288 \<le> length r"
proof -
  have "0 < unat (in_blocks ino)" using assms(3) by (simp add: whole_file_def unat_gt_0)
  then have "1 \<le> file_block_count ino" by (simp add: file_block_count_def)
  then show l: "1024 \<le> length (file_bytes rd sec ino)" by (simp add: length_file_bytes [OF assms(1,2)])
  obtain q where "length r = 4096 * q" using assms(5) by (elim dvdE)
  with prefix_length_le [OF assms(4)] l show "1288 \<le> length r" by (cases q) simp_all
qed

text \<open>What a call of the driver leaves behind.\<close>

definition kept :: "(u64 \<Rightarrow> u8 list) \<Rightarrow> nat \<Rightarrow> Ext2Driver \<Rightarrow> Ext2Driver \<Rightarrow> bool" where
  "kept sec n dr dr' \<longleftrightarrow> (\<exists>n' \<le> n. driver_ok sec n' dr') \<and> dr_reader dr' = dr_reader dr \<and> dr_bgdt dr' = dr_bgdt dr"

lemma ReadDirectory_reads:
  assumes ok: "driver_ok sec n dr" "n < hm_limit" and k: "disk_dir (dr_reader dr) (dr_bgdt dr) sec k es"
  shows "\<exists>res dr'. ReadDirectory k dr = Some (Inr (res, dr')) \<and> kept sec (Suc n) dr dr' \<and>
    (case res of Inl e \<Rightarrow> refuses (dr_reader dr) e | Inr ds \<Rightarrow> map entry_of ds = es)"
proof -
  let ?rd = "dr_reader dr"
  obtain ino m where ino: "disk_inode ?rd (dr_bgdt dr) sec k = Inr ino" "in_mode ino AND 0x4000 \<noteq> 0" "whole_file ?rd sec ino"
      "dir_names (file_bytes ?rd sec ino) 0 es" and m: "NumberOfBlockGroups ?rd = Inr m" "inode_group ?rd k < m"
    using k by (auto simp: disk_dir_def split: sum.split_asm)
  have fs: "faithful sec (br_denali ?rd) (br_device_id ?rd)" "small_blocks ?rd"
    using ok(1) by (simp_all add: driver_ok_def Let_def)
  show ?thesis
  proof (cases rule: GetInode_reads [OF ok(1) ino(1) m])
    case (1 e)
    then show ?thesis using ok(1) by (auto simp: ReadDirectory_def kept_def intro!: exI [of _ n])
  next
    case (2 dr1)
    have i1: "whole_file (dr_reader dr1) sec ino" "disk_inode (dr_reader dr1) (dr_bgdt dr1) sec (ucast (ucast k :: u64)) = Inr ino"
      using ino(1,3) 2 by simp_all
    have g: "ReadDirectory k dr = opt_run_bind (Some (ReadInode (ucast k) ino dr1)) (\<lambda>(dir, dr). case dir of Inl e \<Rightarrow> Some (Inr (Inl e, dr))
        | Inr r \<Rightarrow> map_option (run_map (\<lambda>es. (Inr es, dr))) (dir_loop (BlockSize (dr_reader dr)) r 0 []))"
      using 2 ino(2) by (simp add: ReadDirectory_def)
    show ?thesis
    proof (cases rule: ReadInode_reads [OF 2(2) ok(2) i1])
      case (1 e)
      then show ?thesis using 2 by (auto simp: g kept_def intro!: exI [of _ n])
    next
      case (2 r c n')
      note rd1 = \<open>dr_reader dr1 = dr_reader dr\<close> \<open>dr_bgdt dr1 = dr_bgdt dr\<close>
      have p: "prefix (file_bytes ?rd sec ino) r" using 2(2) rd1 by simp
      obtain ds where "dir_loop 1024 r 0 [] = Some (Inr ds)" "map entry_of ds = es"
        using dir_loop_names [OF p whole_file_pages [OF fs(2,1) ino(3) p 2(3)] ino(4), of "[]"] by auto
      then have "ReadDirectory k dr = Some (Inr (Inr ds, dr1\<lparr>dr_inode_cache := c\<rparr>))" "map entry_of ds = es"
        using 2(1) rd1 small_blocks_sizes(2) [OF fs(2)] by (simp_all add: g)
      then show ?thesis using 2(4,5) rd1 by (auto simp: kept_def)
    qed
  qed
qed

section \<open>Paths\<close>

lemma find_entry:
  assumes "find (\<lambda>(_, name). name = t) (map entry_of ds) = Some (i, name)"
  obtains d where "find (\<lambda>d. dir_name d = t) ds = Some d" "de_inode d = i"
  using assms by (induction ds) (auto split: if_splits)

lemma kept_trans: "kept sec n dr dr' \<Longrightarrow> kept sec m dr' dr'' \<Longrightarrow> kept sec m dr dr''"
  by (auto simp: kept_def)

lemma kept_mono: "kept sec n dr dr' \<Longrightarrow> n \<le> m \<Longrightarrow> kept sec m dr dr'"
  using le_trans by (fastforce simp: kept_def)

lemma disk_path_snoc:
  "disk_path rd bgdt sec D k (ts @ [f]) kf \<Longrightarrow>
   \<exists>k'. disk_path rd bgdt sec D k ts k' \<and> disk_dir rd bgdt sec k' (D k') \<and> (\<exists>name. find (\<lambda>(_, name). name = f) (D k') = Some (kf, name))"
  by (induction ts arbitrary: k) (fastforce split: option.split_asm)+

lemma disk_path_start: "disk_path rd bgdt sec D k ts k' \<Longrightarrow> disk_dir rd bgdt sec k' (D k') \<Longrightarrow> disk_dir rd bgdt sec k (D k)"
  by (cases ts) auto

lemma walk_follows:
  assumes "disk_path (dr_reader dr) (dr_bgdt dr) sec D k ts k'" "disk_dir (dr_reader dr) (dr_bgdt dr) sec k' (D k')"
    "map entry_of ds = D k" "driver_ok sec n dr" "n + length ts \<le> hm_limit"
  shows "\<exists>res dr'. walk_directories ts ds dr = Some (Inr (res, dr')) \<and> kept sec (n + length ts) dr dr' \<and>
    (case res of Inl e \<Rightarrow> refuses (dr_reader dr) e | Inr ds' \<Rightarrow> map entry_of ds' = D k')"
  using assms
proof (induction ts arbitrary: k ds dr n)
  case Nil
  then show ?case by (auto simp: kept_def)
next
  case (Cons t ts)
  obtain i name where i: "find (\<lambda>(_, name). name = t) (map entry_of ds) = Some (i, name)"
      "disk_path (dr_reader dr) (dr_bgdt dr) sec D i ts k'"
    using Cons.prems(1,3) by (auto split: option.split_asm)
  from find_entry [OF i(1)] obtain d where d: "find (\<lambda>d. dir_name d = t) ds = Some d" "de_inode d = i" .
  have dir: "disk_dir (dr_reader dr) (dr_bgdt dr) sec i (D i)" using disk_path_start [OF i(2) Cons.prems(2)] .
  have "n < hm_limit" using Cons.prems(5) by simp
  from ReadDirectory_reads [OF Cons.prems(4) this dir] obtain res dr1 where
    r: "ReadDirectory i dr = Some (Inr (res, dr1))" "kept sec (Suc n) dr dr1"
      "case res of Inl e \<Rightarrow> refuses (dr_reader dr) e | Inr ds \<Rightarrow> map entry_of ds = D i" by blast
  show ?case
  proof (cases res)
    case (Inl e)
    with d r kept_mono [OF r(2), of "n + length (t # ts)"] show ?thesis by auto
  next
    case (Inr ds1)
    from r(2) obtain n1 where n1: "n1 \<le> Suc n" "driver_ok sec n1 dr1" and same: "dr_reader dr1 = dr_reader dr" "dr_bgdt dr1 = dr_bgdt dr"
      by (auto simp: kept_def)
    have p: "disk_path (dr_reader dr1) (dr_bgdt dr1) sec D i ts k'" "disk_dir (dr_reader dr1) (dr_bgdt dr1) sec k' (D k')"
        "map entry_of ds1 = D i" "n1 + length ts \<le> hm_limit"
      using i(2) same r(3) Inr n1(1) Cons.prems(2,5) by simp_all
    from Cons.IH [OF p(1-3) n1(2) p(4)] obtain res' dr' where
      w: "walk_directories ts ds1 dr1 = Some (Inr (res', dr'))" "kept sec (n1 + length ts) dr1 dr'"
        "case res' of Inl e \<Rightarrow> refuses (dr_reader dr1) e | Inr ds' \<Rightarrow> map entry_of ds' = D k'" by blast
    have "kept sec (n + length (t # ts)) dr dr'"
      using kept_mono [OF kept_trans [OF r(2) w(2)]] n1(1) by simp
    with d r(1) Inr w(1) w(3) [unfolded same] show ?thesis by simp
  qed
qed

text \<open>From the root to the directory that a path leads to.\<close>

lemma root_walk:
  assumes ok: "driver_ok sec n dr" "n + length ts < hm_limit"
    and p: "disk_path (dr_reader dr) (dr_bgdt dr) sec D 2 ts k'" "disk_dir (dr_reader dr) (dr_bgdt dr) sec k' (D k')"
  obtains (refused) e dr' where "\<And>cont :: DirEntry list \<Rightarrow> Ext2Driver \<Rightarrow> ('r ErrorOr \<times> Ext2Driver) run option. try_bind (ReadDirectory 2 dr) (\<lambda>files dr. try_bind (walk_directories ts files dr) cont) = Some (Inr (Inl e, dr'))"
      "refuses (dr_reader dr) e" "kept sec (n + length ts + 1) dr dr'"
  | (found) ds dr' where "\<And>cont :: DirEntry list \<Rightarrow> Ext2Driver \<Rightarrow> ('r ErrorOr \<times> Ext2Driver) run option. try_bind (ReadDirectory 2 dr) (\<lambda>files dr. try_bind (walk_directories ts files dr) cont) = cont ds dr'"
      "map entry_of ds = D k'" "kept sec (n + length ts + 1) dr dr'"
proof -
  have n: "n < hm_limit" using ok(2) by simp
  from ReadDirectory_reads [OF ok(1) n disk_path_start [OF p]] obtain res dr1 where
    r: "ReadDirectory 2 dr = Some (Inr (res, dr1))" "kept sec (Suc n) dr dr1"
      "case res of Inl e \<Rightarrow> refuses (dr_reader dr) e | Inr ds \<Rightarrow> map entry_of ds = D 2" by blast
  show thesis
  proof (cases res)
    case (Inl e)
    with r kept_mono [OF r(2), of "n + length ts + 1"] show thesis by (intro refused [of e dr1]) simp_all
  next
    case (Inr ds1)
    from r(2) obtain n1 where n1: "n1 \<le> Suc n" "driver_ok sec n1 dr1" and same: "dr_reader dr1 = dr_reader dr" "dr_bgdt dr1 = dr_bgdt dr"
      by (auto simp: kept_def)
    have n1': "n1 + length ts \<le> hm_limit" using ok(2) n1(1) by simp
    from walk_follows [of dr1, unfolded same, OF p _ n1(2) n1', of ds1] obtain res' dr' where
      w: "walk_directories ts ds1 dr1 = Some (Inr (res', dr'))" "kept sec (n1 + length ts) dr1 dr'"
        "case res' of Inl e \<Rightarrow> refuses (dr_reader dr) e | Inr ds' \<Rightarrow> map entry_of ds' = D k'"
      using r(3) Inr by auto
    have "kept sec (n + length ts + 1) dr dr'"
      using kept_mono [OF kept_trans [OF r(2) w(2)]] n1(1) by simp
    with w Inr r(1) show thesis by (cases res') (auto intro: refused found)
  qed
qed

lemma split_at_unique:
  assumes "p @ c # x = p' @ c # x'" "c \<notin> set p" "c \<notin> set p'"
  shows "p = p' \<and> x = x'"
proof -
  have t: "takeWhile (\<lambda>a. a \<noteq> c) (q @ c # y) = q" if "c \<notin> set q" for q y
    using that by (induction q) auto
  from t [OF assms(2), of x] t [OF assms(3), of x'] assms(1) have "p = p'" by simp
  with assms(1) show ?thesis by simp
qed

lemma join_inj:
  assumes "join c xs = join c ys" "xs \<noteq> []" "ys \<noteq> []" "\<forall>x \<in> set xs. c \<notin> set x" "\<forall>y \<in> set ys. c \<notin> set y"
  shows "xs = ys"
  using assms
proof (induction c xs arbitrary: ys rule: join.induct)
  case (2 c p)
  then show ?case by (cases "(c, ys)" rule: join.cases) auto
next
  case (3 c p q ps)
  obtain p' q' ps' where ys: "ys = p' # q' # ps'"
  proof (cases "(c, ys)" rule: join.cases)
    case (2 d p')
    then have "c \<in> set (join c ys)" using "3.prems"(1) [symmetric] by simp
    with 2 "3.prems"(5) show thesis by simp
  qed (use that "3.prems"(3) in auto)
  have "p = p' \<and> join c (q # ps) = join c (q' # ps')"
    using "3.prems" unfolding ys by (intro split_at_unique [of _ c]) simp_all
  moreover have "q # ps = q' # ps'"
    using calculation "3.prems"(4,5) unfolding ys by (intro "3.IH") simp_all
  ultimately show ?case unfolding ys by simp
qed simp

lemma split_path:
  assumes "unat (sv_size path) < 9223372036854775807" "sv_chars m path = join c ts" "ts \<noteq> []" "\<forall>t \<in> set ts. c \<notin> set t"
  obtains v where "StrSplit d m path c = Inr v" "map (sv_chars m) (vec_list v) = ts"
proof -
  obtain v where v: "StrSplit d m path c = Inr v" "join c (map (sv_chars m) (vec_list v)) = sv_chars m path"
      "\<forall>w \<in> set (vec_list v). c \<notin> set (sv_chars m w)" "vec_list v \<noteq> []"
    using StrSplit_ok [OF assms(1), of d m c] by blast
  then have "map (sv_chars m) (vec_list v) = ts"
    using assms(2-4) by (intro join_inj [of c]) auto
  with v(1) that show thesis by blast
qed

lemma open_after_walk:
  assumes ok: "driver_ok sec n dr" "n < hm_limit" and k: "readable (dr_reader dr) (dr_bgdt dr) sec (ucast kf) ino"
  shows "\<exists>res dr'. try_bind (Some (ReadFile (ucast kf) dr)) (\<lambda>region dr. try_bind (Some (GetInode kf dr)) (\<lambda>inode dr.
        Some (Inr (Inr \<lparr>of_path = p, of_memory = region, of_size = ucast (in_size inode)\<rparr>, dr)))) = Some (Inr (res, dr')) \<and>
    kept sec (Suc n) dr dr' \<and>
    (case res of Inl e \<Rightarrow> refuses (dr_reader dr) e
     | Inr a \<Rightarrow> of_path a = p \<and> prefix (file_bytes (dr_reader dr) sec ino) (of_memory a) \<and> of_size a = ucast (in_size ino))"
proof -
  obtain res dr1 n1 where r: "ReadFile (ucast kf) dr = Inr (res, dr1)" "driver_ok sec n1 dr1" "n1 \<le> Suc n"
      "dr_reader dr1 = dr_reader dr" "dr_bgdt dr1 = dr_bgdt dr"
      "case res of Inl e \<Rightarrow> refuses (dr_reader dr) e | Inr r \<Rightarrow> prefix (file_bytes (dr_reader dr) sec ino) r"
    using ReadFile_reads [OF ok k] by metis
  then have kept1: "kept sec (Suc n) dr dr1" by (auto simp: kept_def)
  show ?thesis
  proof (cases res)
    case (Inl e)
    with r kept1 show ?thesis by simp
  next
    case (Inr region)
    obtain m where m: "NumberOfBlockGroups (dr_reader dr1) = Inr m" "inode_group (dr_reader dr1) kf < m"
        "disk_inode (dr_reader dr1) (dr_bgdt dr1) sec kf = Inr ino"
      using k r(4,5) by (auto simp: readable_def split: sum.split_asm)
    show ?thesis
    proof (cases rule: GetInode_reads [OF r(2) m(3,1,2)])
      case (1 e)
      with Inr r kept1 show ?thesis by simp
    next
      case (2 dr2)
      with r have "kept sec (Suc n) dr dr2" by (auto simp: kept_def)
      with 2 Inr r show ?thesis by simp
    qed
  qed
qed


lemma example_file_bytes: "file_bytes example_reader example_sector example_root = example_sector 8 @ example_sector 9"
  by (simp add: file_bytes_def file_block_count_def example_root_def file_block_def disk_block_def example_sizes)
    (simp add: example_reader_def sectors_of_2)

lemma take_example:
  "off + n \<le> 512 \<Longrightarrow> take n (drop off (example_sector a @ z)) = map (example_byte a) [off..<off + n]"
  by (simp add: example_sector_def drop_map take_map)

lemma example_path:
  "disk_path example_reader (dr_bgdt example_driver) example_sector (\<lambda>_. [(3, [0x66])]) 2 [[0x66]] 3"
proof -
  have "dir_names (example_sector 8 @ example_sector 9) 0 [(3, [0x66])]"
    using take_example [of 8 1 8 "example_sector 9"] by (simp add: le_example upt_rec example_byte_def)
  then show ?thesis
    using example_whole(1) by (simp add: disk_dir_def example_inodes example_sizes example_groups example_file_bytes)
      (simp add: example_root_def)
qed

lemma example_driver_ok: "driver_ok example_sector 0 example_driver"
  using example_driver_parts by (intro Ext2Driver_Init_ok [OF example_faithful example_Init]) simp_all


section \<open>Listing a directory\<close>

lemma dir_names_stuck: "off < 1024 \<Longrightarrow> unat (ucast (le 2 (off + 4) b) :: u16) = 0 \<Longrightarrow> \<not> dir_names b off es"
  by (induction es) auto

lemma dir_names_size:
  assumes "dir_names b off es"
  shows "length es \<le> 1024 - off" "\<forall>e \<in> set es. length (snd e) < 256"
proof -
  have "length es \<le> 1024 - off \<and> (\<forall>e \<in> set es. length (snd e) < 256)"
    using assms
  proof (induction es arbitrary: off)
    case (Cons e es)
    obtain i name where e: "e = (i, name)" by fastforce
    let ?l = "unat (ucast (le 2 (off + 4) b) :: u16)"
    have nx: "off < 1024" "dir_names b (off + ?l) es" "length name < 256" using Cons.prems unfolding e by auto
    have "?l \<noteq> 0" using dir_names_stuck [OF nx(1), of b "e # es"] Cons.prems by blast
    moreover have "length es \<le> 1024 - (off + ?l)" using Cons.IH [OF nx(2)] by blast
    ultimately show ?case using Cons.IH [OF nx(2)] nx(1,3) unfolding e by auto
  qed simp
  then show "length es \<le> 1024 - off" "\<forall>e \<in> set es. length (snd e) < 256" by blast+
qed

lemma push_names_ok:
  assumes "vec_inv v" "\<forall>d \<in> set ds. length (dir_name d) < 256" "length (vec_list v) + 256 * length ds \<le> 0x4000000000000000"
  shows "\<exists>v'. push_names d0 ds (VariableStringBuilder v) = Some (Inr (VariableStringBuilder v')) \<and> vec_inv v' \<and>
    vec_list v' = vec_list v @ concat (map (\<lambda>d. dir_name d @ [0x2C]) ds)"
  using assms
proof (induction ds arbitrary: v)
  case (Cons d ds)
  have short: "length (dir_name d) < 256" using Cons.prems(2) by simp
  obtain v1 where v1: "StringBuilder_PushBack d0 (dir_name d) (VariableStringBuilder v) = Some (Inr (VariableStringBuilder v1))"
      "vec_inv v1" "vec_list v1 = vec_list v @ dir_name d"
    using variable_PushBack [OF Cons.prems(1), of "dir_name d" d0] short Cons.prems(3) by auto
  obtain v2 where v2: "StringBuilder_PushBack_char d0 0x2C (VariableStringBuilder v1) = Inr (VariableStringBuilder v2)"
      "vec_inv v2" "vec_list v2 = vec_list v1 @ [0x2C]"
    using variable_PushBack_char [OF v1(2), of d0 "0x2C"] v1(3) short Cons.prems(3) by auto
  have "length (vec_list v2) + 256 * length ds \<le> 0x4000000000000000" using v1(3) v2(3) short Cons.prems(3) by simp
  from Cons.IH [OF v2(2) _ this] Cons.prems(2) obtain v' where
    "push_names d0 ds (VariableStringBuilder v2) = Some (Inr (VariableStringBuilder v'))" "vec_inv v'"
    "vec_list v' = vec_list v2 @ concat (map (\<lambda>d. dir_name d @ [0x2C]) ds)" by auto
  with v1 v2 show ?case by auto
qed simp

lemma concat_join: "xs \<noteq> [] \<Longrightarrow> concat (map (\<lambda>x. x @ [c]) xs) = join c xs @ [c]"
  by (induction c xs rule: join.induct) simp_all

lemma listing_text:
  assumes "ds \<noteq> []" "\<forall>d \<in> set ds. length (dir_name d) < 256" "length ds \<le> 1024"
  shows "\<exists>s. opt_run_bind (push_names d0 ds VariableStringBuilder_new) (\<lambda>filelist.
      opt_run_bind (Some (if StringBuilder_size filelist > 0 then StringBuilder_DeleteLast filelist else Inr filelist)) (\<lambda>filelist.
      Some (run_map (\<lambda>s. (Inr s, dr)) (StringBuilder_ToString d0 filelist)))) = Some (Inr (Inr s, dr)) \<and>
    str_wf s \<and> str_chars s = join 0x2C (map dir_name ds)"
proof -
  obtain v where v: "push_names d0 ds VariableStringBuilder_new = Some (Inr (VariableStringBuilder v))" "vec_inv v"
      "vec_list v = join 0x2C (map dir_name ds) @ [0x2C]"
    using push_names_ok [OF vec_inv_new assms(2), of d0] concat_join [of "map dir_name ds" "0x2C"] assms(1,3)
    by (auto simp: VariableStringBuilder_new_def o_def)
  obtain w where w: "Vector_PopBack v = Inr (0x2C, w)" "vec_inv w" "vec_list w = join 0x2C (map dir_name ds)"
    using Vector_PopBack_ok [OF v(2,3)] by blast
  have "length (concat (map (\<lambda>d. dir_name d @ [0x2C]) ds)) \<le> 256 * length ds"
    using assms(2) by (induction ds) auto
  then have "length (vec_list w) \<le> 0x4000000000000000"
    using concat_join [of "map dir_name ds" "0x2C"] assms(1,3) w(3) by (simp add: o_def)
  from String_of_vector [OF w(2) this, of d0] obtain s where
    "String_of_ptr d0 (vec_data w) (vec_size w) = Inr s" "str_wf s" "str_chars s = vec_list w" by blast
  moreover have "0 < vec_size v" using vec_size_unat [OF v(2)] v(3) by (auto simp: word_less_nat_alt)
  ultimately show ?thesis using v(1) w(1,3) by simp
qed

text \<open>
  C40. Listing a directory by its path, with or without a slash at the end.  Where the disk has a directory
  for every component of an absolute path, the handler returns and answers with the names in the first block of the last one, in order and
  separated by commas, or with an error that the disk service gave.
\<close>

theorem get_directory_lists:
  assumes "driver_ok sec n dr" "n + length ts < hm_limit" "unat (sv_size path) < 9223372036854775807"
    "sv_chars m path = join 0x2F ([] # ts) \<or> sv_chars m path = join 0x2F ([] # ts @ [[]])" "\<forall>t \<in> set ts. t \<noteq> [] \<and> 0x2F \<notin> set t"
    "disk_path (dr_reader dr) (dr_bgdt dr) sec D 2 ts k" "disk_dir (dr_reader dr) (dr_bgdt dr) sec k (D k)"
  shows "\<exists>res dr'. HandleGetDirectory d0 d m path dr = Some (Inr (res, dr')) \<and> kept sec (n + length ts + 1) dr dr' \<and>
    (case res of Inl e \<Rightarrow> refuses (dr_reader dr) e | Inr s \<Rightarrow> str_wf s \<and> str_chars s = join 0x2C (map snd (D k)))"
proof -
  obtain tokens where tokens: "tokens = [] # ts \<or> tokens = [] # ts @ [[]]" "sv_chars m path = join 0x2F tokens"
    using assms(4) by blast
  have plain: "tokens \<noteq> []" "\<forall>t \<in> set tokens. 0x2F \<notin> set t" using tokens(1) assms(5) by auto
  obtain v where v: "StrSplit d m path 0x2F = Inr v" "map (sv_chars m) (vec_list v) = tokens"
    using split_path [OF assms(3) tokens(2) plain] .
  have "ts \<noteq> [] \<Longrightarrow> last ts \<noteq> []" using assms(5) last_in_set by blast
  then have t: "hd tokens = []" "tl (if last tokens = [] then butlast tokens else tokens) = ts"
    using tokens(1) by (auto simp: butlast_append)
  let ?list = "\<lambda>files dr. opt_run_bind (push_names d0 files VariableStringBuilder_new) (\<lambda>filelist.
      opt_run_bind (Some (if StringBuilder_size filelist > 0 then StringBuilder_DeleteLast filelist else Inr filelist)) (\<lambda>filelist.
      Some (run_map (\<lambda>s. (Inr s, dr)) (StringBuilder_ToString d0 filelist))))"
  have g: "HandleGetDirectory d0 d m path dr = try_bind (ReadDirectory 2 dr) (\<lambda>files dr. try_bind (walk_directories ts files dr) ?list)"
    by (simp only: HandleGetDirectory_def v opt_run_bind_simps Let_def t simp_thms if_False)
  obtain ino where dn: "dir_names (file_bytes (dr_reader dr) sec ino) 0 (D k)"
    using assms(7) by (auto simp: disk_dir_def split: sum.split_asm)
  show ?thesis
  proof (cases rule: root_walk [where 'r = String, OF assms(1,2,6,7)])
    case (1 e dr1)
    then show ?thesis by (simp add: g)
  next
    case (2 ds dr1)
    have names: "map dir_name ds = map snd (D k)" unfolding 2(2) [symmetric] by simp
    have "ds \<noteq> []" "\<forall>d \<in> set ds. length (dir_name d) < 256" "length ds \<le> 1024"
      using dn dir_names_size [OF dn] unfolding 2(2) [symmetric] by (auto intro: ccontr)
    from listing_text [OF this, of d0 dr1] obtain s where
      "HandleGetDirectory d0 d m path dr = Some (Inr (Inr s, dr1))" "str_wf s" "str_chars s = join 0x2C (map snd (D k))"
      unfolding g 2(1) names by blast
    with 2(3) show ?thesis by simp
  qed
qed

theorem get_directory_lists_witness:
  "\<exists>res dr'. HandleGetDirectory 0 StringView_new (\<lambda>_. 0x2F) \<lparr>sv_value = 0x1000, sv_size = 1\<rparr> example_driver = Some (Inr (res, dr')) \<and>
    (case res of Inl e \<Rightarrow> refuses example_reader e | Inr s \<Rightarrow> str_wf s \<and> str_chars s = [0x66])"
proof -
  have p: "sv_chars (\<lambda>_. 0x2F) \<lparr>sv_value = 0x1000, sv_size = 1\<rparr> = [0x2F]" by (simp add: sv_chars_def)
  have l: "join 0x2C (map snd [(3 :: u32, [0x66])]) = [0x66]" by simp
  have "disk_dir example_reader (dr_bgdt example_driver) example_sector 2 [(3, [0x66])]" using example_path by simp
  then show ?thesis
    using get_directory_lists [OF example_driver_ok, of "[]" "\<lparr>sv_value = 0x1000, sv_size = 1\<rparr>" "\<lambda>_. 0x2F" "\<lambda>_. [(3, [0x66])]" 2 0 StringView_new,
        unfolded example_driver_parts(1) p l]
    by (simp add: hm_limit_def) blast
qed

end
