(* ===== verification/Spec2Isabelle.thy ===== *)
theory Spec2Isabelle
  imports Glcr_Status Glcr_LinkedList Glcr_IntrusiveList Glcr_Array Glcr_HashMap Glcr_BinaryTree
    Zion_PhysicalMemory Zion_Paging Zion_MemoryObject Zion_MappingTree Zion_AddressSpace
    Zion_Capability Zion_Scheduler Zion_MessageQueue Zion_Ipc Zion_Rpc Zion_Process Zion_Syscall Zion_Lifecycle Zion_KernelHeap
    Glcr_String Yunq_Message Yunq_Denali Yunq_VictoriaFalls Yunq_Voyageurs Yunq_Yellowstone
    Ext2_Driver VictoriaFalls_Server
begin

text \<open>
  Acadia OS: a verification library for the Zion microkernel, the \<open>glacier\<close> library it is built
  on, the message format of its services and the file system service.

  \<^bold>\<open>The program.\<close>  Zion (\<open>zion/\<close>) manages physical memory, page tables, address spaces and a heap;
  on top of them it keeps processes with threads, and kernel objects that processes name through
  capabilities.  Processes talk through channels, ports and endpoints, all of them queues of
  messages with capabilities in them.  Both the kernel and the C++ services use the containers and
  strings of \<open>lib/glacier\<close>.  The services (\<open>sys/\<close>) exchange messages in the format of
  \<open>lib/yunq\<close>, whose classes are generated for each service.

  \<^bold>\<open>Conventions.\<close>  Integers keep the width of the source and wrap around.  Code that may stop (a panic,
  a null dereference, a division by zero, an access outside an allocation) answers in \<open>run\<close>, with the fault
  on the left; error codes are ordinary results.  A loop that need not end is a partial function
  with \<open>None\<close> for not ending, and the theorems that it returns are stated as such; no fuel
  is used anywhere.  A call that suspends its thread answers that it did, and the second half of the call is a
  definition of its own.  Code outside the sources is an argument: the memory map and the offset of the direct map from the boot
  loader, the contents of fresh memory, and the disk service for the file system.

  \<^bold>\<open>glacier.\<close>
  \<^item> \<open>Glcr_Status\<close>: \<open>status/\<close>.  Error codes, \<open>Status\<close>, \<open>ErrorOr\<close> and the macros that return early.
  \<^item> \<open>Glcr_LinkedList\<close>, \<open>Glcr_IntrusiveList\<close>, \<open>Glcr_Array\<close>, \<open>Glcr_HashMap\<close>, \<open>Glcr_BinaryTree\<close>:
    \<open>container/\<close> and \<open>util/hash.cpp\<close>.  Each container is shown to implement a list, a sequence or a
    finite map; the contracts are locales (\<open>fifo\<close>, \<open>stack_store\<close>, \<open>wait_queue\<close>, \<open>growing_sequence\<close>,
    \<open>hash_table\<close>, \<open>ordered_table\<close>), each interpreted on the model of the container.  The intrusive list
    is a store of links and the tree a heap of nodes with parent pointers, because deletion depends on them.  The
    deletion of a node with two children loses entries, and the theorem says exactly when.
  \<^item> \<open>Glcr_String\<close>: \<open>string/\<close>.  Strings, views, splitting, builders and formatting: formatting agrees with a
    reference text, joining undoes splitting, and the hash of a string ends exactly when the string
    has at most 255 characters.

  \<^bold>\<open>Memory.\<close>
  \<^item> \<open>Zion_PhysicalMemory\<close>: \<open>memory/physical_memory.cpp\<close>.  Frames are neither lost nor invented, across the
    bootstrap allocator too (locale \<open>frame_allocator\<close>).
  \<^item> \<open>Zion_Paging\<close>: \<open>memory/paging_util.cpp\<close>.  Tables are words of physical memory; mapping, unmapping and
    cleaning up act on exactly the pages they should, under the invariant that tables are distinct frames.
  \<^item> \<open>Zion_MemoryObject\<close>, \<open>Zion_MappingTree\<close>, \<open>Zion_AddressSpace\<close>: \<open>object/memory_object.cpp\<close>,
    \<open>lib/memory_mapping_tree.cpp\<close>, \<open>object/address_space.cpp\<close> and the stack managers in \<open>memory/\<close>.  The tree is a function from
    addresses to mappings (locale \<open>range_table\<close>), a page fault maps the page of its address,
    stacks are disjoint (locale \<open>stack_pool\<close>), and an object gives its frames back (\<open>backing_store\<close>).
  \<^item> \<open>Zion_KernelHeap\<close>: \<open>memory/slab_allocator.cpp\<close>, \<open>memory/kernel_heap.cpp\<close>.  Live blocks never overlap, while a request close to
    the largest number wraps around.

  \<^bold>\<open>Objects, threads and communication.\<close>
  \<^item> \<open>Zion_Capability\<close>: \<open>capability/\<close>.  The table is a finite map over the hash map of glacier.
  \<^item> \<open>Zion_Scheduler\<close>: \<open>scheduler/scheduler.cpp\<close>, \<open>object/thread.cpp\<close>, \<open>mutex.cpp\<close>, \<open>semaphore.cpp\<close>.  A step is the code between two
    context switches.  A thread is in one list at most (locale \<open>thread_switching\<close>), a mutex has one holder, and a sleeping thread runs again.
  \<^item> \<open>Zion_MessageQueue\<close>: \<open>lib/message_queue.cpp\<close>.  Messages leave in the order they came (locale \<open>message_queue\<close>, with two interpretations).
  \<^item> \<open>Zion_Ipc\<close>, \<open>Zion_Rpc\<close>: the IPC objects, \<open>interrupt/driver_manager.cpp\<close> and \<open>syscall/ipc.cpp\<close>, \<open>capability.cpp\<close>, \<open>synchronization.cpp\<close>.  A remote procedure
    call delivers its bytes and capabilities and brings the answer back.
  \<^item> \<open>Zion_Process\<close>, \<open>Zion_Syscall\<close>, \<open>Zion_Lifecycle\<close>: \<open>object/process.cpp\<close>, \<open>scheduler/process_manager.cpp\<close>, \<open>scheduler/cleanup.cpp\<close>, the other files of
    \<open>syscall/\<close>, and \<open>interrupt/interrupt.cpp\<close> in part.  Over all system calls the permissions of a capability never grow; cleaning up a process
    releases what it held; and the theorems of kind error state what goes wrong and when.

  \<^bold>\<open>Messages and files.\<close>
  \<^item> \<open>Yunq_Message\<close>: \<open>lib/glacier/buffer\<close> and \<open>lib/yunq\<close>.  The locale \<open>yunq_message\<close> is the contract of a message class, extended by \<open>yunq_fields\<close>.
  \<^item> \<open>Yunq_Denali\<close>, \<open>Yunq_VictoriaFalls\<close>, \<open>Yunq_Voyageurs\<close>, \<open>Yunq_Yellowstone\<close>: the generated classes
    (\<open>sys/*/lib/*/*.yunq.cpp\<close>).  Every class interprets the contract, so that parsing undoes serialising.
  \<^item> \<open>Ext2_Driver\<close>: \<open>sys/victoriafalls/fs/ext2\<close>.  Files read through the driver are those on the disk, for a disk service that answers with
    the sectors asked for; the cache and the merging of requests do not show.
  \<^item> \<open>VictoriaFalls_Server\<close>: \<open>sys/victoriafalls/victoriafalls_server.cpp\<close>.  The handlers resolve a path through the directories of the disk and
    answer with the file, or with the names in a directory.

  \<open>Prelude\<close> holds the integer types, the fault type with its sequencing, the little-endian bytes of a word and shared facts.

  \<^bold>\<open>Bounds.\<close>  Theorems on counters assume that they have not wrapped around: fewer than \<open>hm_limit\<close> entries in a hash map, fewer than
  half of the 64-bit range in a vector.  The file theorem is for blocks of 1024 bytes, the only size for which the code's constant of 256
  entries in an indirect block is right, so that a file has at most 65804 blocks.

  \<^bold>\<open>Not modelled.\<close>  The boot code, descriptor tables, interrupt controllers, timers, serial output and the assembly of context switches and
  system call entry (\<open>zion/boot\<close>, \<open>zion/common\<close>, most of \<open>zion/interrupt\<close>, \<open>zion/debug\<close>) act on the processor and on devices, which have no state
  here.  So do the disk and USB drivers (\<open>sys/denali\<close>, \<open>sys/voyageurs\<close>).  The init loader depends on the
  program files it is given.  Reference counting is absent: objects are numbered and stay, and destructors are operations of their own.
  Not modelled either are the user library \<open>lib/mammoth\<close>, the generated clients and
  servers, whose loops only pass messages between the modelled calls and the handlers, the
  code generator \<open>yunq/\<close>, and the Rust user space \<open>rust/\<close>.
\<close>

text \<open>
  C17. Every message class of the four services that has no repeated field keeps the contract of the
  wire format: a message with strings that end in a zero byte, written to a buffer with room, takes
  exactly its size in bytes and its number of capability slots, leaves the rest of both buffers as it
  was, and its parser gives the same message back from any buffers that keep these bytes and slots.
\<close>

theorem messages_roundtrip:
  "roundtrips DiskBlock_SerializeToBytes DiskBlock_ParseFromBytes (\<lambda>_. 40) (\<lambda>_. True) 0 \<and>
   roundtrips ReadRequest_SerializeToBytes ReadRequest_ParseFromBytes (\<lambda>_. 80) (\<lambda>_. True) 0 \<and>
   roundtrips ReadResponse_SerializeToBytes ReadResponse_ParseFromBytes (\<lambda>_. 48) (\<lambda>_. True) 1 \<and>
   roundtrips OpenFileRequest_SerializeToBytes (OpenFileRequest_ParseFromBytes d) (\<lambda>m. 32 + length (str_chars (OpenFileRequest_path m))) (\<lambda>m. is_text (OpenFileRequest_path m)) 0 \<and>
   roundtrips OpenFileResponse_SerializeToBytes (OpenFileResponse_ParseFromBytes d) (\<lambda>m. 48 + length (str_chars (OpenFileResponse_path m))) (\<lambda>m. is_text (OpenFileResponse_path m)) 1 \<and>
   roundtrips GetDirectoryRequest_SerializeToBytes (GetDirectoryRequest_ParseFromBytes d) (\<lambda>m. 32 + length (str_chars (GetDirectoryRequest_path m))) (\<lambda>m. is_text (GetDirectoryRequest_path m)) 0 \<and>
   roundtrips Directory_SerializeToBytes (Directory_ParseFromBytes d) (\<lambda>m. 32 + length (str_chars (Directory_filenames m))) (\<lambda>m. is_text (Directory_filenames m)) 0 \<and>
   roundtrips KeyboardListener_SerializeToBytes KeyboardListener_ParseFromBytes (\<lambda>_. 32) (\<lambda>_. True) 1 \<and>
   roundtrips RegisterEndpointRequest_SerializeToBytes (RegisterEndpointRequest_ParseFromBytes d) (\<lambda>m. 40 + length (str_chars (RegisterEndpointRequest_endpoint_name m))) (\<lambda>m. is_text (RegisterEndpointRequest_endpoint_name m)) 1 \<and>
   roundtrips GetEndpointRequest_SerializeToBytes (GetEndpointRequest_ParseFromBytes d) (\<lambda>m. 32 + length (str_chars (GetEndpointRequest_endpoint_name m))) (\<lambda>m. is_text (GetEndpointRequest_endpoint_name m)) 0 \<and>
   roundtrips Endpoint_SerializeToBytes Endpoint_ParseFromBytes (\<lambda>_. 32) (\<lambda>_. True) 1 \<and>
   roundtrips AhciInfo_SerializeToBytes AhciInfo_ParseFromBytes (\<lambda>_. 40) (\<lambda>_. True) 1 \<and>
   roundtrips XhciInfo_SerializeToBytes XhciInfo_ParseFromBytes (\<lambda>_. 40) (\<lambda>_. True) 1 \<and>
   roundtrips FramebufferInfo_SerializeToBytes FramebufferInfo_ParseFromBytes (\<lambda>_. 120) (\<lambda>_. True) 0 \<and>
   roundtrips DenaliInfo_SerializeToBytes DenaliInfo_ParseFromBytes (\<lambda>_. 48) (\<lambda>_. True) 1"
  by (intro conjI DiskBlock_message.roundtrips
      ReadRequest_message.roundtrips
      ReadResponse_message.roundtrips
      OpenFileRequest_message.roundtrips
      OpenFileResponse_message.roundtrips
      GetDirectoryRequest_message.roundtrips
      Directory_message.roundtrips
      KeyboardListener_message.roundtrips
      RegisterEndpointRequest_message.roundtrips
      GetEndpointRequest_message.roundtrips
      Endpoint_message.roundtrips
      AhciInfo_message.roundtrips
      XhciInfo_message.roundtrips
      FramebufferInfo_message.roundtrips
      DenaliInfo_message.roundtrips)

end
